(* ===== verification/Prelude.thy ===== *)
theory Prelude
  imports Main "HOL-Library.Word"
begin

unbundle bit_operations_syntax

text \<open>
  Shared vocabulary of the development: the machine integers of the source as words, byte
  buffers as lists, Rust's panics as a value of the result type, the slice operations of the
  standard library (\<^verbatim>\<open>get(a..b)\<close>, indexing, \<^verbatim>\<open>chunks\<close>, \<^verbatim>\<open>from_be_bytes\<close>,
  \<^verbatim>\<open>to_be_bytes\<close>) and the generic lemmas the components use.

  A \<^verbatim>\<open>usize\<close> is a \<^typ>\<open>nat\<close>: every length and offset of the modelled code is bounded by
  the length of a buffer in memory plus a 16-bit or 24-bit field, far below \<open>2 ^ 64\<close>.
\<close>

section \<open>Types\<close>

type_synonym u8 = "8 word"
type_synonym u16 = "16 word"
type_synonym u32 = "32 word"
type_synonym u64 = "64 word"
type_synonym bytes = "u8 list"

text \<open>An \<^verbatim>\<open>Ipv4Addr\<close> is its 32-bit value.\<close>

type_synonym ipv4 = u32

text \<open>
  The outcome of Rust code that may panic (an index out of range, an \<^verbatim>\<open>expect\<close> on
  \<^verbatim>\<open>None\<close>, a failed \<^verbatim>\<open>assert!\<close>).
\<close>

datatype 'a res = Ok 'a | Panic

named_theorems byte_simps \<open>encoding and decoding of big-endian fields\<close>
named_theorems slice_simps \<open>slices, chunks and their lengths\<close>

section \<open>Standard-library operations\<close>

text \<open>The \<^verbatim>\<open>?\<close> operator on an \<^verbatim>\<open>Option\<close> inside a function that returns an \<^verbatim>\<open>Option\<close>.\<close>

definition ques :: "'a option \<Rightarrow> ('a \<Rightarrow> 'b option res) \<Rightarrow> 'b option res" where
  "ques v k = (case v of None \<Rightarrow> Ok None | Some x \<Rightarrow> k x)"

text \<open>An index expression \<^verbatim>\<open>xs[i]\<close>: out of range it panics.\<close>

definition index_at :: "'a list \<Rightarrow> nat \<Rightarrow> ('a \<Rightarrow> 'b res) \<Rightarrow> 'b res" where
  "index_at xs i k = (if i < length xs then k (xs ! i) else Panic)"

text \<open>\<^verbatim>\<open>xs.get(i)\<close> and \<^verbatim>\<open>xs.get(a..b)\<close>.\<close>

definition get_at :: "'a list \<Rightarrow> nat \<Rightarrow> 'a option" where
  "get_at xs i = (if i < length xs then Some (xs ! i) else None)"

definition slice :: "'a list \<Rightarrow> nat \<Rightarrow> nat \<Rightarrow> 'a list" where
  "slice xs a b = take (b - a) (drop a xs)"

definition get_range :: "'a list \<Rightarrow> nat \<Rightarrow> nat \<Rightarrow> 'a list option" where
  "get_range xs a b = (if a \<le> b \<and> b \<le> length xs then Some (slice xs a b) else None)"

text \<open>\<^verbatim>\<open>xs.chunks(n)\<close>. Rust panics for \<open>n = 0\<close>; every caller passes a positive size.\<close>

function chunks :: "nat \<Rightarrow> 'a list \<Rightarrow> 'a list list" where
  "chunks n xs = (if n = 0 \<or> xs = [] then [] else take n xs # chunks n (drop n xs))"
  by pat_completeness auto
termination
  by (relation "measure (\<lambda>(n, xs). length xs)") auto

declare chunks.simps [simp del]

text \<open>\<^verbatim>\<open>a.div_ceil(b)\<close>.\<close>

definition div_ceil :: "nat \<Rightarrow> nat \<Rightarrow> nat" where
  "div_ceil a b = (a + b - 1) div b"

text \<open>\<^verbatim>\<open>u16::from_be_bytes\<close>, \<^verbatim>\<open>u16::to_be_bytes\<close> and their 32-bit versions.\<close>

definition u16_from_be :: "u8 \<Rightarrow> u8 \<Rightarrow> u16" where
  "u16_from_be a b = word_of_nat (unat a * 256 + unat b)"

definition u16_to_be :: "u16 \<Rightarrow> bytes" where
  "u16_to_be w = [word_of_nat (unat w div 256), word_of_nat (unat w)]"

definition u32_from_be :: "u8 \<Rightarrow> u8 \<Rightarrow> u8 \<Rightarrow> u8 \<Rightarrow> u32" where
  "u32_from_be a b c d =
     word_of_nat (((unat a * 256 + unat b) * 256 + unat c) * 256 + unat d)"

definition u32_to_be :: "u32 \<Rightarrow> bytes" where
  "u32_to_be w = [word_of_nat (unat w div 16777216), word_of_nat (unat w div 65536),
                  word_of_nat (unat w div 256), word_of_nat (unat w)]"

text \<open>The 24-bit big-endian length \<^verbatim>\<open>(a << 16) | (b << 8) | c\<close> as a \<^verbatim>\<open>usize\<close>.\<close>

definition u24_from_be :: "u8 \<Rightarrow> u8 \<Rightarrow> u8 \<Rightarrow> nat" where
  "u24_from_be a b c = (unat a * 256 + unat b) * 256 + unat c"

definition u24_to_be :: "nat \<Rightarrow> bytes" where
  "u24_to_be n = [word_of_nat (n div 65536), word_of_nat (n div 256), word_of_nat n]"

text \<open>Store a byte run over a buffer: \<^verbatim>\<open>out[i..i + ys.len()].copy_from_slice(ys)\<close>.\<close>

definition splice :: "'a list \<Rightarrow> nat \<Rightarrow> 'a list \<Rightarrow> 'a list" where
  "splice xs i ys = take i xs @ ys @ drop (i + length ys) xs"

section \<open>Lemmas\<close>

subsection \<open>Panics and options\<close>

lemma ques_simps [simp]:
  "ques None k = Ok None"
  "ques (Some x) k = k x"
  by (simp_all add: ques_def)

lemma index_at_in [simp]: "i < length xs \<Longrightarrow> index_at xs i k = k (xs ! i)"
  by (simp add: index_at_def)

lemma get_at_in [simp]: "i < length xs \<Longrightarrow> get_at xs i = Some (xs ! i)"
  by (simp add: get_at_def)

lemma get_at_Some_iff: "get_at xs i = Some x \<longleftrightarrow> i < length xs \<and> x = xs ! i"
  by (auto simp: get_at_def)

subsection \<open>Slices\<close>

lemma length_slice [simp, slice_simps]: "length (slice xs a b) = min (b - a) (length xs - a)"
  by (simp add: slice_def)

lemma nth_slice [slice_simps]: "a + i < b \<Longrightarrow> b \<le> length xs \<Longrightarrow> slice xs a b ! i = xs ! (a + i)"
  by (simp add: slice_def)

lemma slice_append_left [slice_simps]: "b \<le> length xs \<Longrightarrow> slice (xs @ ys) a b = slice xs a b"
  by (simp add: slice_def)

lemma slice_append_right [slice_simps]:
  "length xs \<le> a \<Longrightarrow> slice (xs @ ys) a b = slice ys (a - length xs) (b - length xs)"
  by (cases "a \<le> b") (simp_all add: slice_def)

lemma slice_0 [slice_simps]: "slice xs 0 b = take b xs"
  by (simp add: slice_def)

lemma slice_to_end [slice_simps]: "length xs \<le> b \<Longrightarrow> slice xs a b = drop a xs"
  by (simp add: slice_def)

lemma slice_slice [slice_simps]: "b + d \<le> c \<Longrightarrow> slice (slice xs b c) a d = slice xs (b + a) (b + d)"
proof -
  assume "b + d \<le> c"
  then have "min (d - a) (c - b - a) = d - a" by linarith
  then show ?thesis by (simp add: slice_def drop_take add.commute)
qed

lemma take_slice_drop: "a \<le> b \<Longrightarrow> take a xs @ slice xs a b @ drop b xs = xs"
  using append_take_drop_id [of "b - a" "drop a xs"] by (simp add: slice_def)

lemma slice_split: "a \<le> b \<Longrightarrow> b \<le> c \<Longrightarrow> slice xs a b @ slice xs b c = slice xs a c"
proof -
  assume "a \<le> b" "b \<le> c"
  then have "take (c - a) (drop a xs) = take (b - a) (drop a xs) @ take (c - b) (drop (b - a) (drop a xs))"
    using take_add [of "b - a" "c - b" "drop a xs"] by simp
  then show ?thesis using \<open>a \<le> b\<close> by (simp add: slice_def)
qed

lemma get_range_Some_iff:
  "get_range xs a b = Some ys \<longleftrightarrow> a \<le> b \<and> b \<le> length xs \<and> ys = slice xs a b"
  by (auto simp: get_range_def)

lemma get_range_None_iff: "get_range xs a b = None \<longleftrightarrow> \<not> (a \<le> b \<and> b \<le> length xs)"
  by (auto simp: get_range_def)

lemma length_splice [simp, slice_simps]: "i + length ys \<le> length xs \<Longrightarrow> length (splice xs i ys) = length xs"
  by (simp add: splice_def)

lemma nth_splice [slice_simps]:
  "i + length ys \<le> length xs \<Longrightarrow> j < length xs \<Longrightarrow>
   splice xs i ys ! j = (if i \<le> j \<and> j < i + length ys then ys ! (j - i) else xs ! j)"
  by (auto simp: splice_def nth_append)

subsection \<open>Chunks\<close>

lemma chunks_Nil [simp]: "chunks n [] = []"
  by (simp add: chunks.simps)

lemma chunks_Cons: "0 < n \<Longrightarrow> xs \<noteq> [] \<Longrightarrow> chunks n xs = take n xs # chunks n (drop n xs)"
  by (simp add: chunks.simps [of n xs])

lemma concat_chunks [simp]: "0 < n \<Longrightarrow> concat (chunks n xs) = xs"
proof (induction n xs rule: chunks.induct)
  case (1 n xs)
  then show ?case by (cases "xs = []") (simp_all add: chunks_Cons)
qed

lemma chunks_bounds: "c \<in> set (chunks n xs) \<Longrightarrow> c \<noteq> [] \<and> length c \<le> n"
proof (induction n xs rule: chunks.induct)
  case (1 n xs)
  then show ?case by (cases "n = 0 \<or> xs = []") (auto simp: chunks.simps [of n xs])
qed

lemma chunks_butlast: "c \<in> set (butlast (chunks n xs)) \<Longrightarrow> length c = n"
proof (induction n xs rule: chunks.induct)
  case (1 n xs)
  show ?case
  proof (cases "n = 0 \<or> xs = []")
    case True
    then show ?thesis using 1(2) by (simp add: chunks.simps [of n xs])
  next
    case False
    then show ?thesis using 1 by (cases "drop n xs = []") (auto simp: chunks_Cons split: if_splits)
  qed
qed

lemma chunks_length_le: "c \<in> set (chunks n xs) \<Longrightarrow> length c \<le> length xs"
proof (cases "n = 0")
  case False
  moreover assume "c \<in> set (chunks n xs)"
  then have "length c \<le> length (concat (chunks n xs))"
    by (simp only: length_concat) (auto intro: member_le_sum_list)
  ultimately show ?thesis by simp
qed (simp add: chunks.simps)

lemma chunks_eq_Nil: "0 < n \<Longrightarrow> chunks n xs = [] \<longleftrightarrow> xs = []"
  by (auto simp: chunks.simps [of n xs])

lemma length_chunks: "0 < n \<Longrightarrow> length (chunks n xs) = div_ceil (length xs) n"
proof (induction n xs rule: chunks.induct)
  case (1 n xs)
  show ?case
  proof (cases "xs = []")
    case True
    with 1 show ?thesis by (simp add: div_ceil_def)
  next
    case False
    then have pos: "0 < length xs" by simp
    have ih: "length (chunks n (drop n xs)) = div_ceil (length xs - n) n"
      using 1 False by simp
    have "Suc (div_ceil (length xs - n) n) = div_ceil (length xs) n"
    proof (cases "length xs \<le> n")
      case True
      then have "length xs - 1 < n" using 1(2) pos by linarith
      then have "(length xs - 1) div n = 0" by simp
      moreover have "length xs + n - 1 = (length xs - 1) + n" using pos by linarith
      ultimately have "(length xs + n - 1) div n = 1" using 1(2) by (simp only: div_add_self2)
      then show ?thesis using True 1 by (simp add: div_ceil_def)
    next
      case False
      then have "length xs + n - 1 = (length xs - n + n - 1) + n" by simp
      then have "(length xs + n - 1) div n = Suc ((length xs - n + n - 1) div n)"
        using 1(2) by (simp only: div_add_self2)
      then show ?thesis unfolding div_ceil_def by (rule sym)
    qed
    with ih 1 False show ?thesis by (simp add: chunks_Cons)
  qed
qed

lemma nth_chunks: "0 < n \<Longrightarrow> i < length (chunks n xs) \<Longrightarrow> chunks n xs ! i = take n (drop (i * n) xs)"
proof (induction n xs arbitrary: i rule: chunks.induct)
  case (1 n xs)
  then have ne: "xs \<noteq> []" by auto
  show ?case
  proof (cases i)
    case 0
    then show ?thesis using 1 ne by (simp add: chunks_Cons)
  next
    case (Suc j)
    with 1 ne have "chunks n (drop n xs) ! j = take n (drop (j * n) (drop n xs))"
      by (simp add: chunks_Cons)
    then show ?thesis using 1 ne Suc by (simp add: chunks_Cons add.commute)
  qed
qed

lemma length_concat_take_chunks:
  "0 < n \<Longrightarrow> i < length (chunks n xs) \<Longrightarrow> length (concat (take i (chunks n xs))) = i * n"
proof (induction n xs arbitrary: i rule: chunks.induct)
  case (1 n xs)
  then have ne: "xs \<noteq> []" by auto
  show ?case
  proof (cases i)
    case (Suc j)
    with 1 ne have j: "j < length (chunks n (drop n xs))" by (simp add: chunks_Cons)
    then have "n < length xs" by (cases "drop n xs = []") auto
    then show ?thesis using 1 ne Suc j by (simp add: chunks_Cons)
  qed simp
qed

subsection \<open>Big-endian fields\<close>

lemma unat_u8_bound [simp]: "unat (b :: u8) < 256"
  using unsigned_less [of b] by simp

lemma unat_u16_bound [simp]: "unat (w :: u16) < 65536"
  using unsigned_less [of w] by simp

lemma unat_u32_bound [simp]: "unat (w :: u32) < 4294967296"
  using unsigned_less [of w] by simp

lemma unat_u8_of_nat [byte_simps]: "unat (word_of_nat n :: u8) = n mod 256"
  by (simp add: unat_of_nat)

lemma unat_u16_of_nat [byte_simps]: "unat (word_of_nat n :: u16) = n mod 65536"
  by (simp add: unat_of_nat)

lemma unat_u32_of_nat [byte_simps]: "unat (word_of_nat n :: u32) = n mod 4294967296"
  by (simp add: unat_of_nat)

lemma unat_u16_from_be [byte_simps]: "unat (u16_from_be a b) = unat a * 256 + unat b"
proof -
  have "unat a * 256 + unat b < 65536"
    using unat_u8_bound [of a] unat_u8_bound [of b] by linarith
  then show ?thesis unfolding u16_from_be_def unat_u16_of_nat by (rule mod_less)
qed

lemma length_u16_to_be [simp, slice_simps]: "length (u16_to_be w) = 2"
  by (simp add: u16_to_be_def)

lemma length_u32_to_be [simp, slice_simps]: "length (u32_to_be w) = 4"
  by (simp add: u32_to_be_def)

lemma length_u24_to_be [simp, slice_simps]: "length (u24_to_be n) = 3"
  by (simp add: u24_to_be_def)

lemma u16_from_to_be [byte_simps]: "u16_from_be (u16_to_be w ! 0) (u16_to_be w ! 1) = w"
proof -
  have d: "unat w div 256 < 256" using unat_u16_bound [of w] by linarith
  have "unat (u16_from_be (u16_to_be w ! 0) (u16_to_be w ! 1)) = unat w"
    unfolding unat_u16_from_be u16_to_be_def nth_Cons_0 One_nat_def nth_Cons_Suc unat_u8_of_nat
    using d by (simp only: mod_less div_mult_mod_eq)
  then show ?thesis by (rule unsigned_word_eqI)
qed

lemma u16_to_from_be [byte_simps]: "u16_to_be (u16_from_be a b) = [a, b]"
proof -
  have ab: "(unat a * 256 + unat b) div 256 = unat a" by simp
  have "unat (word_of_nat (unat a * 256 + unat b) :: u8) = unat b"
    unfolding unat_u8_of_nat by simp
  then have "word_of_nat (unat a * 256 + unat b) = b" by (rule unsigned_word_eqI)
  then show ?thesis unfolding u16_to_be_def unat_u16_from_be ab by simp
qed

lemma be_digit: "(n :: nat) div 256 * 256 + n mod 256 = n"
  by (rule div_mult_mod_eq)

lemma be_digits3: "n < 16777216 \<Longrightarrow>
  (n div 65536 mod 256 * 256 + n div 256 mod 256) * 256 + n mod 256 = (n :: nat)"
proof -
  assume "n < 16777216"
  then have "n div 65536 mod 256 = n div 256 div 256" by (simp add: div_mult2_eq [symmetric])
  then have "n div 65536 mod 256 * 256 + n div 256 mod 256 = n div 256"
    by (simp only: be_digit)
  then show ?thesis by (simp only: be_digit)
qed

lemma be_digits4: "n < 4294967296 \<Longrightarrow>
  ((n div 16777216 mod 256 * 256 + n div 65536 mod 256) * 256 + n div 256 mod 256) * 256
    + n mod 256 = (n :: nat)"
proof -
  assume "n < 4294967296"
  then have "n div 256 < 16777216" by (simp add: less_mult_imp_div_less)
  moreover have "n div 256 div 65536 = n div 16777216" "n div 256 div 256 = n div 65536"
    by (simp_all add: div_mult2_eq [symmetric])
  ultimately have "(n div 16777216 mod 256 * 256 + n div 65536 mod 256) * 256 + n div 256 mod 256
      = n div 256" using be_digits3 [of "n div 256"] by argo
  then show ?thesis by (simp only: be_digit)
qed

lemma u32_from_to_be [byte_simps]:
  "u32_from_be (u32_to_be w ! 0) (u32_to_be w ! 1) (u32_to_be w ! 2) (u32_to_be w ! 3) = w"
proof -
  have "unat (u32_from_be (u32_to_be w ! 0) (u32_to_be w ! 1) (u32_to_be w ! 2) (u32_to_be w ! 3))
        = unat w mod 4294967296"
    unfolding u32_to_be_def u32_from_be_def unat_u32_of_nat nth_Cons_0 One_nat_def nth_Cons_Suc
      numeral_2_eq_2 numeral_3_eq_3 unat_u8_of_nat be_digits4 [OF unat_u32_bound] by (rule refl)
  then have "unat (u32_from_be (u32_to_be w ! 0) (u32_to_be w ! 1) (u32_to_be w ! 2)
      (u32_to_be w ! 3)) = unat w" by simp
  then show ?thesis by (rule unsigned_word_eqI)
qed

lemma u24_from_to_be [byte_simps]:
  "n < 16777216 \<Longrightarrow> u24_from_be (u24_to_be n ! 0) (u24_to_be n ! 1) (u24_to_be n ! 2) = n"
  unfolding u24_from_be_def u24_to_be_def nth_Cons_0 One_nat_def nth_Cons_Suc numeral_2_eq_2
    unat_u8_of_nat by (rule be_digits3)

end
