(* ===== verification/Checksum.thy ===== *)
theory Checksum
  imports Prelude
begin

text \<open>
  The RFC 1071 Internet checksum as \<^verbatim>\<open>ipv4_header_checksum\<close> (src/crates/zerodpi-core/src/ip_fragment.rs)
  and \<^verbatim>\<open>tcp_checksum\<close> (src/crates/zerodpi-core/src/tcp_segment.rs) compute it: a 32-bit accumulator over
  big-endian 16-bit words, the carry folded in by a loop, the complement of the low half as
  the result. The lemmas relate the folding loop to arithmetic modulo 65535 and show that a
  buffer whose checksum field holds the computed value verifies.
\<close>

section \<open>Reading the words of the source as numbers\<close>

lemma unat_low_half: "unat ((s :: u32) AND 0xFFFF) = unat s mod 65536"
proof -
  have "s AND 0xFFFF = take_bit 16 s"
    by (simp add: take_bit_eq_mask mask_eq_exp_minus_1)
  also have "\<dots> = s mod 65536" by (simp add: take_bit_eq_mod)
  finally show ?thesis by (simp add: unat_mod_distrib)
qed

lemma unat_high_half: "unat (drop_bit 16 (s :: u32)) = unat s div 65536"
  by (simp add: drop_bit_eq_div unat_div_distrib)

lemma unat_folded:
  "unat (((s :: u32) AND 0xFFFF) + drop_bit 16 s) = unat s mod 65536 + unat s div 65536"
proof -
  have "unat s mod 65536 + unat s div 65536 < 2 ^ LENGTH(32)"
    using unat_u32_bound [of s] div_mult_mod_eq [of "unat s" 65536]
      mod_less_divisor [of 65536 "unat s"] by (simp del: unat_u32_bound)
  then show ?thesis
    by (metis unat_add_lem unat_high_half unat_low_half)
qed

lemma unat_ucast_16_32: "unat (ucast (w :: u16) :: u32) = unat w"
  by (simp add: unsigned_ucast_eq take_bit_nat_eq_self_iff order.strict_trans [OF unat_u16_bound])

lemma unat_shifted_byte: "unat (push_bit 8 (ucast (b :: u8)) :: u32) = unat b * 256"
proof -
  have b: "unat (ucast b :: u32) = unat b"
    by (simp add: unsigned_ucast_eq take_bit_nat_eq_self_iff order.strict_trans [OF unat_u8_bound])
  have "unat b * 256 < 2 ^ LENGTH(32)" using unat_u8_bound [of b] by (simp del: unat_u8_bound)
  then have "unat (ucast b * 256 :: u32) = unat b * 256"
    using unat_mult_lem [of "ucast b :: u32" 256] b by simp
  then show ?thesis by (simp add: push_bit_eq_mult)
qed

lemma unat_ucast_32_16: "unat (ucast (w :: u32) :: u16) = unat w mod 65536"
  by (simp add: unsigned_ucast_eq take_bit_eq_mod)

lemma unat_not_u16: "unat (NOT (w :: u16)) = 65535 - unat w"
proof -
  have "unat (- 1 :: u16) = 65535"
    by (simp add: unsigned_minus_1_eq_mask mask_eq_exp_minus_1)
  moreover have "NOT w = - 1 - w" by (simp add: not_eq_complement)
  ultimately show ?thesis by (metis unat_sub word_order.extremum)
qed

section \<open>Definitions\<close>

text \<open>
  The loop over \<^verbatim>\<open>chunks_exact(2)\<close> with its \<^verbatim>\<open>remainder()\<close>. The accumulator is a \<^verbatim>\<open>u32\<close>:
  the additions wrap like the release build's.
\<close>

fun sum_words :: "u32 \<Rightarrow> bytes \<Rightarrow> u32" where
  "sum_words s (a # b # xs) = sum_words (s + ucast (u16_from_be a b)) xs"
| "sum_words s [b] = s + push_bit 8 (ucast b)"
| "sum_words s [] = s"

text \<open>\<^verbatim>\<open>while sum >> 16 != 0 { sum = (sum & 0xFFFF) + (sum >> 16); }\<close>\<close>

function fold_carry :: "u32 \<Rightarrow> u32" where
  "fold_carry s = (if drop_bit 16 s \<noteq> 0 then fold_carry ((s AND 0xFFFF) + drop_bit 16 s) else s)"
  by pat_completeness auto

lemma fold_carry_decreases:
  assumes "drop_bit 16 (s :: u32) \<noteq> 0"
  shows "unat ((s AND 0xFFFF) + drop_bit 16 s) < unat s"
proof -
  have "unat s div 65536 \<noteq> 0" using assms unat_high_half unat_eq_zero by metis
  then show ?thesis unfolding unat_folded
    using div_mult_mod_eq [of "unat s" 65536] by linarith
qed

termination fold_carry
  by (relation "measure unat") (auto intro: fold_carry_decreases)

declare fold_carry.simps [simp del]

text \<open>\<^verbatim>\<open>!(sum as u16)\<close> after the folding loop.\<close>

definition finish_checksum :: "u32 \<Rightarrow> u16" where
  "finish_checksum s = NOT (ucast (fold_carry s))"

definition ipv4_header_checksum :: "bytes \<Rightarrow> u16" where
  "ipv4_header_checksum header = finish_checksum (sum_words 0 header)"

text \<open>
  \<^verbatim>\<open>tcp_checksum(seg, ihl, tcp_hdr_len)\<close>: the pseudo-header first, then the segment. The indices
  \<open>12 \<dots> 19\<close> are in range for every caller, which has checked that the buffer holds an IPv4 header.
\<close>

definition pseudo_header_sum :: "bytes \<Rightarrow> nat \<Rightarrow> nat \<Rightarrow> u32" where
  "pseudo_header_sum seg ihl tcp_hdr_len =
     ucast (u16_from_be (seg ! 12) (seg ! 13)) + ucast (u16_from_be (seg ! 14) (seg ! 15))
     + ucast (u16_from_be (seg ! 16) (seg ! 17)) + ucast (u16_from_be (seg ! 18) (seg ! 19))
     + 6 + ucast (word_of_nat (tcp_hdr_len + (length seg - (ihl + tcp_hdr_len))) :: u16)"

definition tcp_checksum :: "bytes \<Rightarrow> nat \<Rightarrow> nat \<Rightarrow> u16" where
  "tcp_checksum seg ihl tcp_hdr_len =
     finish_checksum (sum_words (pseudo_header_sum seg ihl tcp_hdr_len) (drop ihl seg))"

section \<open>The folding loop\<close>

lemma fold_carry_bound: "unat (fold_carry s) < 65536"
proof (induction s rule: fold_carry.induct)
  case (1 s)
  show ?case
  proof (cases "drop_bit 16 s = 0")
    case True
    then have "unat s div 65536 = 0" using unat_high_half [of s] by simp
    with True show ?thesis by (simp add: fold_carry.simps [of s] div_eq_0_iff)
  next
    case False
    with 1 show ?thesis by (simp add: fold_carry.simps [of s])
  qed
qed

lemma fold_step_mod: "(n mod 65536 + n div 65536) mod 65535 = (n :: nat) mod 65535"
proof -
  have "n = 65535 * (n div 65536) + (n mod 65536 + n div 65536)"
    using div_mult_mod_eq [of n 65536] by linarith
  then show ?thesis by (metis mod_mult_self4)
qed

lemma fold_carry_mod: "unat (fold_carry s) mod 65535 = unat s mod 65535"
proof (induction s rule: fold_carry.induct)
  case (1 s)
  then show ?case
    by (cases "drop_bit 16 s = 0")
       (simp_all add: fold_carry.simps [of s] unat_folded fold_step_mod)
qed

lemma fold_carry_zero: "fold_carry s = 0 \<longleftrightarrow> s = 0"
proof (induction s rule: fold_carry.induct)
  case (1 s)
  show ?case
  proof (cases "drop_bit 16 s = 0")
    case True
    then show ?thesis by (simp add: fold_carry.simps [of s])
  next
    case False
    then have "unat s div 65536 \<noteq> 0" using unat_high_half unat_eq_zero by metis
    then have "unat ((s AND 0xFFFF) + drop_bit 16 s) \<noteq> 0" unfolding unat_folded by linarith
    then have "(s AND 0xFFFF) + drop_bit 16 s \<noteq> 0" by (metis unat_0)
    with 1 False show ?thesis by (auto simp add: fold_carry.simps [of s])
  qed
qed

lemma unat_finish_checksum: "unat (finish_checksum s) = 65535 - unat (fold_carry s)"
  unfolding finish_checksum_def unat_not_u16 unat_ucast_32_16
  using fold_carry_bound [of s] by simp

lemma finish_checksum_zero_iff:
  "finish_checksum s = 0 \<longleftrightarrow> unat s mod 65535 = 0 \<and> s \<noteq> 0"
proof -
  have "finish_checksum s = 0 \<longleftrightarrow> 65535 - unat (fold_carry s) = 0"
    by (metis unat_finish_checksum unat_eq_zero)
  also have "\<dots> \<longleftrightarrow> unat (fold_carry s) = 65535"
    using fold_carry_bound [of s] by linarith
  also have "\<dots> \<longleftrightarrow> unat (fold_carry s) mod 65535 = 0 \<and> unat (fold_carry s) \<noteq> 0"
    using fold_carry_bound [of s] mod_less [of "unat (fold_carry s)" 65535]
    by (cases "unat (fold_carry s) = 65535") auto
  also have "\<dots> \<longleftrightarrow> unat s mod 65535 = 0 \<and> s \<noteq> 0"
    unfolding fold_carry_mod by (simp add: unat_eq_zero fold_carry_zero)
  finally show ?thesis .
qed

text \<open>Adding the checksum of a sum to that sum gives one that verifies.\<close>

lemma finish_checksum_verifies:
  assumes "unat s' = unat s + unat (finish_checksum s)"
  shows "finish_checksum s' = 0"
proof -
  let ?f = "unat (fold_carry s)"
  have f: "?f \<le> 65535" "?f mod 65535 = unat s mod 65535"
    using fold_carry_bound [of s] fold_carry_mod [of s] by simp_all
  have "unat s' mod 65535 = (unat s mod 65535 + (65535 - ?f)) mod 65535"
    unfolding assms unat_finish_checksum by (simp add: mod_add_left_eq)
  also have "\<dots> = (?f + (65535 - ?f)) mod 65535"
    unfolding f(2) [symmetric] by (simp add: mod_add_left_eq)
  also have "\<dots> = 0" using f(1) by simp
  finally have "unat s' mod 65535 = 0" .
  moreover have "unat s' \<noteq> 0"
    unfolding assms unat_finish_checksum using fold_carry_zero [of s] by (auto simp: unat_eq_zero)
  ultimately show ?thesis by (auto simp: finish_checksum_zero_iff)
qed

section \<open>Sums of byte buffers\<close>

text \<open>The reference: the sum of the big-endian 16-bit words as a natural number.\<close>

fun word_sum :: "bytes \<Rightarrow> nat" where
  "word_sum (a # b # xs) = unat a * 256 + unat b + word_sum xs"
| "word_sum [b] = unat b * 256"
| "word_sum [] = 0"

lemma word_sum_bound: "word_sum xs \<le> length xs * 65280"
proof (induction xs rule: word_sum.induct)
  case (1 a b xs)
  then show ?case using unat_u8_bound [of a] unat_u8_bound [of b] by (simp del: unat_u8_bound)
next
  case (2 b)
  then show ?case using unat_u8_bound [of b] by (simp del: unat_u8_bound)
qed simp

lemma unat_add_fits: "unat s + unat t < 4294967296 \<Longrightarrow> unat ((s :: u32) + t) = unat s + unat t"
  using unat_add_lem [of s t] by simp

lemma unat_sum_words:
  "unat s + word_sum xs < 4294967296 \<Longrightarrow> unat (sum_words s xs) = unat s + word_sum xs"
proof (induction s xs rule: sum_words.induct)
  case (1 s a b xs)
  then have "unat (s + ucast (u16_from_be a b)) = unat s + (unat a * 256 + unat b)"
    by (subst unat_add_fits) (simp_all add: unat_ucast_16_32 unat_u16_from_be)
  with 1 show ?case by simp
next
  case (2 s b)
  then show ?case by (subst sum_words.simps, subst unat_add_fits) (simp_all add: unat_shifted_byte)
qed simp

lemma word_sum_append: "even (length xs) \<Longrightarrow> word_sum (xs @ ys) = word_sum xs + word_sum ys"
  by (induction xs rule: word_sum.induct) auto

text \<open>Storing a 16-bit value into a zeroed field at an even offset adds that value to the sum.\<close>

lemma word_sum_fill:
  assumes "even i" "i + 2 \<le> length xs"
  shows "word_sum (splice xs i (u16_to_be c)) = word_sum (splice xs i [0, 0]) + unat c"
proof -
  have c: "word_sum (u16_to_be c @ ys) = unat c + word_sum ys" for ys
  proof -
    have "unat (u16_to_be c ! 0) * 256 + unat (u16_to_be c ! 1) = unat c"
      by (metis unat_u16_from_be u16_from_to_be)
    then show ?thesis by (simp add: u16_to_be_def)
  qed
  have "even (length (take i xs))" using assms by simp
  then show ?thesis by (simp add: splice_def word_sum_append c)
qed

theorem checksum_fill_verifies:
  assumes "even i" "i + 2 \<le> length xs" "unat s + word_sum (splice xs i [0, 0]) + 65535 < 4294967296"
  shows "finish_checksum (sum_words s (splice xs i
           (u16_to_be (finish_checksum (sum_words s (splice xs i [0, 0])))))) = 0"
proof (rule finish_checksum_verifies)
  let ?z = "splice xs i [0, 0]" and ?c = "finish_checksum (sum_words s (splice xs i [0, 0]))"
  have z: "unat (sum_words s ?z) = unat s + word_sum ?z"
    using assms(3) by (intro unat_sum_words) simp
  have "unat s + word_sum (splice xs i (u16_to_be ?c)) < 4294967296"
    unfolding word_sum_fill [OF assms(1,2)] using assms(3) unat_u16_bound [of ?c] by linarith
  then have "unat (sum_words s (splice xs i (u16_to_be ?c)))
      = unat s + word_sum (splice xs i (u16_to_be ?c))" by (rule unat_sum_words)
  then show "unat (sum_words s (splice xs i (u16_to_be ?c))) = unat (sum_words s ?z) + unat ?c"
    unfolding z word_sum_fill [OF assms(1,2)] by simp
qed

end
