(* ===== verification/Ip_Fragment.thy ===== *)
theory Ip_Fragment
  imports Checksum
begin

text \<open>
  IPv4 fragmentation, src/crates/zerodpi-core/src/ip_fragment.rs. The reference is a receiver that
  reassembles in-order fragments: it checks the total length, the header checksum, the fragment
  offset and the more-fragments flag of each one, and that all carry one identification, protocol and
  pair of addresses. The main theorem is that it rebuilds every packet the code fragments.
\<close>

section \<open>The code\<close>

text \<open>The header length in bytes from the low nibble of the first byte.\<close>

definition ipv4_header_len :: "u8 \<Rightarrow> nat" where
  "ipv4_header_len first = unat (first AND 0x0F) * 4"

text \<open>The body of the loop over the payload chunks: one fragment.\<close>

definition build_fragment :: "bytes \<Rightarrow> nat \<Rightarrow> nat \<Rightarrow> nat \<Rightarrow> bytes \<Rightarrow> bytes" where
  "build_fragment bytes ihl payload_len offset part = (let
     ident = [bytes ! 4, bytes ! 5];
     total = word_of_nat (ihl + length part) :: u16;
     last = (payload_len \<le> offset + length part);
     flags_offset = (word_of_nat (offset div 8) :: u16);
     flags_offset = (if \<not> last then flags_offset OR 0x2000 else flags_offset);
     frag = take ihl bytes;
     frag = splice frag 2 (u16_to_be total);
     frag = splice frag 6 (u16_to_be flags_offset);
     frag = splice frag 4 ident;
     frag = splice frag 10 [0, 0];
     frag = splice frag 10 (u16_to_be (ipv4_header_checksum frag))
   in frag @ part)"

fun fragment_parts :: "bytes \<Rightarrow> nat \<Rightarrow> nat \<Rightarrow> nat \<Rightarrow> bytes list \<Rightarrow> bytes list" where
  "fragment_parts bytes ihl payload_len offset [] = []"
| "fragment_parts bytes ihl payload_len offset (part # parts) =
     build_fragment bytes ihl payload_len offset part
     # fragment_parts bytes ihl payload_len (offset + length part) parts"

text \<open>\<^verbatim>\<open>frag_size & !7\<close> is \<open>frag_size div 8 * 8\<close>.\<close>

definition fragment_ipv4_packet :: "bytes \<Rightarrow> nat \<Rightarrow> bytes list" where
  "fragment_ipv4_packet bytes frag_size = (case bytes of
     [] \<Rightarrow> [bytes]
   | first # _ \<Rightarrow> (let ihl = ipv4_header_len first; chunk = frag_size div 8 * 8 in
       if ihl < 20 \<or> length bytes < ihl then [bytes]
       else if chunk = 0 then [bytes]
       else (let payload = drop ihl bytes in
         if length payload \<le> chunk then [bytes]
         else fragment_parts bytes ihl (length payload) 0 (chunks chunk payload))))"

section \<open>The receiver\<close>

definition total_length_of :: "bytes \<Rightarrow> nat" where
  "total_length_of f = unat (u16_from_be (f ! 2) (f ! 3))"

definition ident_of :: "bytes \<Rightarrow> u16" where
  "ident_of f = u16_from_be (f ! 4) (f ! 5)"

definition flags_of :: "bytes \<Rightarrow> u16" where
  "flags_of f = u16_from_be (f ! 6) (f ! 7)"

definition frag_offset_of :: "bytes \<Rightarrow> nat" where
  "frag_offset_of f = 8 * unat (flags_of f AND 0x1FFF)"

definition more_fragments :: "bytes \<Rightarrow> bool" where
  "more_fragments f = (flags_of f AND 0x2000 \<noteq> 0)"

definition ipv4_payload :: "bytes \<Rightarrow> bytes" where
  "ipv4_payload f = drop (ipv4_header_len (f ! 0)) f"

definition ipv4_header_ok :: "bytes \<Rightarrow> bool" where
  "ipv4_header_ok f = (20 \<le> ipv4_header_len (f ! 0) \<and> ipv4_header_len (f ! 0) \<le> length f
     \<and> total_length_of f = length f
     \<and> ipv4_header_checksum (take (ipv4_header_len (f ! 0)) f) = 0)"

text \<open>
  The receiver of RFC 791. The fragments of one datagram share the identification, the addresses and
  the protocol (its buffer identifier); they are joined by their offsets until the one without the
  more-fragments flag. The result is the whole packet: the header of the first fragment with the
  total length of the datagram, the more-fragments flag and the offset cleared and the header
  checksum computed again, then the payload.
\<close>

definition buffer_id :: "bytes \<Rightarrow> u16 \<times> u8 \<times> bytes" where
  "buffer_id f = (ident_of f, f ! 9, take 8 (drop 12 f))"

fun join_fragments :: "u16 \<times> u8 \<times> bytes \<Rightarrow> nat \<Rightarrow> bytes list \<Rightarrow> bytes option" where
  "join_fragments bufid off [] = None"
| "join_fragments bufid off (f # fs) =
     (if \<not> ipv4_header_ok f \<or> buffer_id f \<noteq> bufid \<or> frag_offset_of f \<noteq> off then None
      else if more_fragments f
      then map_option (\<lambda>rest. ipv4_payload f @ rest) (join_fragments bufid (off + length (ipv4_payload f)) fs)
      else if fs = [] then Some (ipv4_payload f) else None)"

definition datagram :: "bytes \<Rightarrow> bytes \<Rightarrow> bytes" where
  "datagram h payload = (let
     flags = u16_from_be (h ! 6) (h ! 7) AND 0xC000;
     z = splice (splice (splice h 2 (u16_to_be (word_of_nat (length h + length payload)))) 6 (u16_to_be flags)) 10 [0, 0]
   in splice z 10 (u16_to_be (ipv4_header_checksum z)) @ payload)"

definition reassemble :: "bytes list \<Rightarrow> bytes option" where
  "reassemble fs = (case fs of [] \<Rightarrow> None
   | f # _ \<Rightarrow> map_option (datagram (take (ipv4_header_len (f ! 0)) f)) (join_fragments (buffer_id f) 0 fs))"

text \<open>
  The packet a receiver of the fragments should end up with: the original one with its flags and
  offset word cleared (the code does not copy the don't-fragment flag), its total length set to its
  real length and a fresh header checksum.
\<close>

definition unfragmented :: "bytes \<Rightarrow> bytes" where
  "unfragmented p = datagram (splice (take (ipv4_header_len (p ! 0)) p) 6 [0, 0]) (ipv4_payload p)"

section \<open>One fragment\<close>

lemma ipv4_header_len_bound: "ipv4_header_len b \<le> 60"
proof -
  have "b AND 0x0F \<le> 0x0F" by (rule word_and_le1)
  then have "unat (b AND 0x0F) \<le> 15" by (simp add: word_le_nat_alt)
  then show ?thesis by (simp add: ipv4_header_len_def)
qed

lemma ipv4_header_len_even: "even (ipv4_header_len b)"
  by (simp add: ipv4_header_len_def)

lemma word_13_bits:
  fixes w :: u16
  assumes "unat w < 8192"
  shows "(w OR 0x2000) AND 0x1FFF = w" "w AND 0x1FFF = w"
    and "w AND 0x2000 = 0" "(w OR 0x2000) AND 0x2000 \<noteq> 0"
proof -
  have m: "(0x1FFF :: u16) = mask 13" by (simp add: mask_eq_exp_minus_1)
  have p: "bit (0x2000 :: u16) n \<longleftrightarrow> n = 13" for n
    using bit_exp_iff [where 'a = u16, of 13 n] by auto
  have "unat (take_bit 13 w) = unat w" using assms by (simp add: take_bit_eq_mod unat_mod_distrib)
  then have w: "take_bit 13 w = w" by (rule unsigned_word_eqI)
  then have b: "bit w n \<Longrightarrow> n < 13" for n by (metis bit_take_bit_iff)
  show "w AND 0x1FFF = w" unfolding m using w by (simp add: take_bit_eq_mask)
  show "(w OR 0x2000) AND 0x1FFF = w" unfolding m
    by (rule bit_word_eqI, unfold bit_and_iff bit_or_iff bit_mask_iff p) (use b in auto)
  show "w AND 0x2000 = 0"
    by (rule bit_word_eqI, unfold bit_and_iff bit_or_iff bit_mask_iff p) (use b in auto)
  have "bit ((w OR 0x2000) AND 0x2000) 13" by (simp add: bit_simps p)
  then show "(w OR 0x2000) AND 0x2000 \<noteq> 0" by force
qed

text \<open>A header whose checksum field is zeroed, summed and filled in verifies.\<close>

lemma header_fill_verifies:
  assumes "length h \<le> 60" "12 \<le> length h"
  shows "ipv4_header_checksum (splice h 10 (u16_to_be (ipv4_header_checksum (splice h 10 [0, 0])))) = 0"
  unfolding ipv4_header_checksum_def
proof (rule checksum_fill_verifies)
  have "word_sum (splice h 10 [0, 0]) \<le> 60 * 65280"
    using word_sum_bound [of "splice h 10 [0, 0]"] assms by (simp add: order.trans)
  then show "unat (0 :: u32) + word_sum (splice h 10 [0, 0]) + 65535 < 4294967296" by simp
qed (use assms in simp_all)

lemma splice_overwrite:
  "length ys = length zs \<Longrightarrow> i + length ys \<le> length xs \<Longrightarrow> splice (splice xs i ys) i zs = splice xs i zs"
  by (simp add: splice_def)

lemma u16_field [byte_simps]: "u16_from_be (u16_to_be w ! 0) (u16_to_be w ! Suc 0) = w"
  using u16_from_to_be by simp

lemma build_fragment_fields:
  assumes ihl: "20 \<le> ihl" "ihl \<le> length bytes" "ihl = ipv4_header_len (bytes ! 0)"
    and f_def: "f = build_fragment bytes ihl n offset part"
  shows "drop ihl f = part" "length f = ihl + length part" "f ! 0 = bytes ! 0"
    and "u16_from_be (f ! 2) (f ! 3) = word_of_nat (ihl + length part)"
    and "ident_of f = ident_of bytes"
    and "flags_of f = (if n \<le> offset + length part then word_of_nat (offset div 8)
                       else word_of_nat (offset div 8) OR 0x2000)"
    and "ipv4_header_checksum (take ihl f) = 0"
    and "\<forall>i. i < ihl \<and> i \<notin> {2, 3, 6, 7, 10, 11} \<longrightarrow> f ! i = bytes ! i"
proof -
  define h where "h = splice (splice (splice (take ihl bytes)
      2 (u16_to_be (word_of_nat (ihl + length part))))
      6 (u16_to_be (if n \<le> offset + length part then word_of_nat (offset div 8)
                    else word_of_nat (offset div 8) OR 0x2000)))
      4 [bytes ! 4, bytes ! 5]"
  have len: "length h = ihl" using ihl by (simp add: h_def)
  have f: "f = splice h 10 (u16_to_be (ipv4_header_checksum (splice h 10 [0, 0]))) @ part"
    using len ihl(1,2) unfolding f_def build_fragment_def Let_def h_def
    by (simp add: splice_overwrite if_distrib [of Not] cong: if_cong)
  have nth: "i < ihl \<Longrightarrow> i \<noteq> 10 \<Longrightarrow> i \<noteq> 11 \<Longrightarrow> f ! i = h ! i" for i
    using len ihl(1) by (auto simp: f nth_append nth_splice)
  have hnth: "i < ihl \<Longrightarrow> h ! i = (if i = 4 \<or> i = 5 then bytes ! i else splice (splice (take ihl bytes)
      2 (u16_to_be (word_of_nat (ihl + length part))))
      6 (u16_to_be (if n \<le> offset + length part then word_of_nat (offset div 8)
                    else word_of_nat (offset div 8) OR 0x2000)) ! i)" for i
    using ihl(1,2) by (auto simp: h_def nth_splice nth_Cons' numeral_eq_Suc)
  show "drop ihl f = part" "length f = ihl + length part" using len ihl(1) by (simp_all add: f)
  show "f ! 0 = bytes ! 0" using ihl by (simp add: nth hnth nth_splice)
  show "u16_from_be (f ! 2) (f ! 3) = word_of_nat (ihl + length part)"
    using ihl(1,2) by (simp add: nth hnth nth_splice byte_simps)
  show "ident_of f = ident_of bytes" using ihl(1,2) by (simp add: ident_of_def nth hnth)
  show "flags_of f = (if n \<le> offset + length part then word_of_nat (offset div 8)
                       else word_of_nat (offset div 8) OR 0x2000)"
    using ihl(1,2) by (simp add: flags_of_def nth hnth nth_splice byte_simps)
  show "ipv4_header_checksum (take ihl f) = 0"
    using header_fill_verifies [of h] ihl(1,3) ipv4_header_len_bound [of "bytes ! 0"] by (simp add: f len)
  show "\<forall>i. i < ihl \<and> i \<notin> {2, 3, 6, 7, 10, 11} \<longrightarrow> f ! i = bytes ! i"
    using ihl(1,2) by (auto simp: nth hnth nth_splice)
qed


section \<open>All fragments\<close>

lemma build_fragment_received:
  assumes ihl: "20 \<le> ihl" "ihl \<le> length bytes" "ihl = ipv4_header_len (bytes ! 0)"
    and sizes: "ihl + length part \<le> 65535" "offset < 65536" "offset mod 8 = 0"
    and f: "f = build_fragment bytes ihl n offset part"
  shows "ipv4_header_ok f" "ipv4_payload f = part" "frag_offset_of f = offset"
    and "more_fragments f \<longleftrightarrow> \<not> n \<le> offset + length part"
proof -
  note fields = build_fragment_fields [OF ihl f]
  have len: "unat (word_of_nat (ihl + length part) :: u16) = ihl + length part"
    unfolding unat_u16_of_nat using sizes(1) by (intro mod_less) simp
  show "ipv4_header_ok f"
    unfolding ipv4_header_ok_def total_length_of_def fields(3,4) len ihl(3) [symmetric]
    using fields(2,7) ihl(1) by simp
  show "ipv4_payload f = part"
    unfolding ipv4_payload_def fields(3) using fields(1) ihl(3) by simp
  have off: "unat (word_of_nat (offset div 8) :: u16) = offset div 8"
    unfolding unat_u16_of_nat using sizes(2) by (intro mod_less) simp
  then have "unat (word_of_nat (offset div 8) :: u16) < 8192" using sizes(2) by simp
  note bits = word_13_bits [OF this]
  have "8 * (offset div 8) = offset" using sizes(3) by auto
  then show "frag_offset_of f = offset"
    unfolding frag_offset_of_def fields(6) using bits off by simp
  show "more_fragments f \<longleftrightarrow> \<not> n \<le> offset + length part"
    unfolding more_fragments_def fields(6) using bits by simp
qed

lemma build_fragment_buffer:
  assumes ihl: "20 \<le> ihl" "ihl \<le> length bytes" "ihl = ipv4_header_len (bytes ! 0)"
    and f: "f = build_fragment bytes ihl n offset part"
  shows "buffer_id f = buffer_id bytes"
proof -
  note fields = build_fragment_fields [OF ihl f]
  have "take 8 (drop 12 f) = take 8 (drop 12 bytes)"
    by (rule nth_equalityI) (use ihl(1,2) fields(2,8) in auto)
  then show ?thesis using fields(5,8) ihl(1) by (simp add: buffer_id_def)
qed

lemma join_fragment_parts:
  assumes ihl: "20 \<le> ihl" "ihl = ipv4_header_len (bytes ! 0)" "length bytes \<le> 65535"
    and parts: "parts \<noteq> []" "\<forall>p \<in> set parts. p \<noteq> []" "\<forall>p \<in> set (butlast parts). length p mod 8 = 0"
    and off: "offset mod 8 = 0" "ihl + (offset + length (concat parts)) = length bytes"
  shows "join_fragments (buffer_id bytes) offset (fragment_parts bytes ihl (offset + length (concat parts)) offset parts)
         = Some (concat parts)"
  using parts off
proof (induction parts arbitrary: offset)
  case (Cons p ps)
  have len: "ihl \<le> length bytes" "ihl + length p \<le> 65535" "offset < 65536"
    using Cons.prems(5) ihl by auto
  note recv = build_fragment_received [OF ihl(1) len(1) ihl(2) len(2,3) Cons.prems(4) refl]
    build_fragment_buffer [OF ihl(1) len(1) ihl(2) refl]
  show ?case
  proof (cases ps)
    case Nil
    then show ?thesis using recv by simp
  next
    case (Cons q qs)
    then have next_off: "(offset + length p) mod 8 = 0" using Cons.prems by auto
    have "0 < length (concat ps)" using Cons Cons.prems(2) by simp
    moreover have "join_fragments (buffer_id bytes) (offset + length p) (fragment_parts bytes ihl
        ((offset + length p) + length (concat ps)) (offset + length p) ps) = Some (concat ps)"
      using Cons.IH [OF _ _ _ next_off] Cons Cons.prems by (auto simp: add.assoc)
    ultimately show ?thesis using recv by (simp add: add.assoc)
  qed
qed simp

section \<open>The whole packet\<close>

text \<open>The rebuilt header depends on the first fragment only outside the fields it sets.\<close>

lemma datagram_cong:
  assumes "length h = length h'" "20 \<le> length h"
    and "\<And>i. i < length h \<Longrightarrow> i \<notin> {2, 3, 6, 7, 10, 11} \<Longrightarrow> h ! i = h' ! i"
    and "u16_from_be (h ! 6) (h ! 7) AND 0xC000 = u16_from_be (h' ! 6) (h' ! 7) AND 0xC000"
  shows "datagram h payload = datagram h' payload"
proof -
  have "splice (splice (splice h 2 [a, b]) 6 [c, d]) 10 [0, 0]
      = splice (splice (splice h' 2 [a, b]) 6 [c, d]) 10 [0, 0]" for a b c d :: u8
    by (rule nth_equalityI) (use assms(1-3) in \<open>auto simp: nth_splice\<close>)
  then show ?thesis using assms(1,4) by (simp add: datagram_def Let_def u16_to_be_def)
qed

lemma datagram_fields:
  assumes "20 \<le> length h" "length h = ipv4_header_len (h ! 0)" "length h + length payload \<le> 65535"
  shows "ipv4_header_ok (datagram h payload)" "ipv4_payload (datagram h payload) = payload"
    and "length (datagram h payload) = length h + length payload"
    and "flags_of (datagram h payload) = flags_of h AND 0xC000"
    and "\<forall>i < length h. i \<notin> {2, 3, 6, 7, 10, 11} \<longrightarrow> datagram h payload ! i = h ! i"
proof -
  define g where "g = splice (splice h 2 (u16_to_be (word_of_nat (length h + length payload)))) 6
    (u16_to_be (u16_from_be (h ! 6) (h ! 7) AND 0xC000))"
  define s where "s = splice g 10 (u16_to_be (ipv4_header_checksum (splice g 10 [0, 0])))"
  have len: "length g = length h" "length s = length h" using assms(1) by (simp_all add: g_def s_def)
  have d: "datagram h payload = s @ payload"
    using len assms(1) by (simp add: datagram_def Let_def s_def g_def splice_overwrite)
  have nth: "i < length h \<Longrightarrow> i \<noteq> 10 \<Longrightarrow> i \<noteq> 11 \<Longrightarrow> s ! i = g ! i" for i
    using len assms(1) by (auto simp: s_def nth_splice)
  show "length (datagram h payload) = length h + length payload" using len by (simp add: d)
  show keep: "\<forall>i < length h. i \<notin> {2, 3, 6, 7, 10, 11} \<longrightarrow> datagram h payload ! i = h ! i"
    using len assms(1) by (auto simp: d nth_append nth g_def nth_splice)
  have zero: "datagram h payload ! 0 = h ! 0" using keep [rule_format, of 0] assms(1) by fastforce
  show "ipv4_payload (datagram h payload) = payload"
    using len assms(2) zero by (simp add: ipv4_payload_def) (simp add: d)
  show "flags_of (datagram h payload) = flags_of h AND 0xC000"
    using len assms(1) by (simp add: flags_of_def d nth_append nth g_def nth_splice byte_simps)
  have "unat (word_of_nat (length h + length payload) :: u16) = length h + length payload"
    unfolding unat_u16_of_nat using assms(3) by (intro mod_less) simp
  moreover have "u16_from_be (datagram h payload ! 2) (datagram h payload ! 3) = word_of_nat (length h + length payload)"
    using len assms(1) by (simp add: d nth_append nth g_def nth_splice byte_simps)
  moreover have "ipv4_header_checksum s = 0"
    using header_fill_verifies [of g] len assms(1,2) ipv4_header_len_bound [of "h ! 0"] by (simp add: s_def)
  ultimately show "ipv4_header_ok (datagram h payload)"
    using len assms(1,2) zero by (simp add: ipv4_header_ok_def total_length_of_def) (simp add: d)
qed

lemma unfragmented_fields:
  assumes "20 \<le> ipv4_header_len (p ! 0)" "ipv4_header_len (p ! 0) \<le> length p" "length p \<le> 65535"
  shows "ipv4_header_ok (unfragmented p)" "ipv4_payload (unfragmented p) = ipv4_payload p"
    and "length (unfragmented p) = length p" "flags_of (unfragmented p) = 0"
    and "\<forall>i < length p. i \<notin> {2, 3, 6, 7, 10, 11} \<longrightarrow> unfragmented p ! i = p ! i"
proof -
  let ?n = "ipv4_header_len (p ! 0)"
  define h where "h = splice (take ?n p) 6 [0, 0]"
  have u: "unfragmented p = datagram h (ipv4_payload p)" by (simp add: unfragmented_def h_def)
  have len: "length h = ?n" "length h + length (ipv4_payload p) = length p" using assms by (simp_all add: h_def ipv4_payload_def)
  have nth: "i < ?n \<Longrightarrow> i \<notin> {6, 7} \<Longrightarrow> h ! i = p ! i" for i using assms by (auto simp: h_def nth_splice)
  have z: "h ! 0 = p ! 0" using assms(1) nth [of 0] by simp
  have n: "20 \<le> length h" "length h = ipv4_header_len (h ! 0)" "length h + length (ipv4_payload p) \<le> 65535"
    using assms len z by simp_all
  note f = datagram_fields [OF n, folded u, unfolded len]
  show "ipv4_header_ok (unfragmented p)" "ipv4_payload (unfragmented p) = ipv4_payload p"
    "length (unfragmented p) = length p" using f len by simp_all
  have "flags_of h = 0" using assms by (simp add: flags_of_def h_def nth_splice u16_from_be_def)
  then show "flags_of (unfragmented p) = 0" using f(4) by simp
  show "\<forall>i < length p. i \<notin> {2, 3, 6, 7, 10, 11} \<longrightarrow> unfragmented p ! i = p ! i"
  proof (intro allI impI)
    fix i assume i: "i < length p" "i \<notin> {2, 3, 6, 7, 10, 11}"
    show "unfragmented p ! i = p ! i"
    proof (cases "i < ?n")
      case True
      then show ?thesis using f(5) i nth [of i] by auto
    next
      case False
      have "unfragmented p ! 0 = p ! 0" using f(5) assms(1) nth [of 0] by auto
      then have "drop ?n (unfragmented p) = drop ?n p" using f(2) by (simp add: ipv4_payload_def)
      then have "drop ?n (unfragmented p) ! (i - ?n) = drop ?n p ! (i - ?n)" by simp
      then show ?thesis using False i(1) f(3) len assms(2) by simp
    qed
  qed
qed

lemma fragment_parts_nth:
  "f \<in> set (fragment_parts bytes ihl n offset parts) \<Longrightarrow>
   \<exists>off. \<exists>p \<in> set parts. f = build_fragment bytes ihl n off p"
  by (induction parts arbitrary: offset) (auto, blast)

lemma length_fragment_parts: "length (fragment_parts bytes ihl n offset parts) = length parts"
  by (induction parts arbitrary: offset) auto

text \<open>The packets the code splits: a valid header, a usable size, and more payload than one fragment.\<close>

definition is_fragmented :: "bytes \<Rightarrow> nat \<Rightarrow> bool" where
  "is_fragmented bytes frag_size = (bytes \<noteq> [] \<and> 20 \<le> ipv4_header_len (bytes ! 0)
     \<and> ipv4_header_len (bytes ! 0) \<le> length bytes \<and> 8 \<le> frag_size
     \<and> frag_size div 8 * 8 < length bytes - ipv4_header_len (bytes ! 0))"

lemma fragment_ipv4_packet_split:
  "is_fragmented bytes frag_size \<Longrightarrow> fragment_ipv4_packet bytes frag_size
     = fragment_parts bytes (ipv4_header_len (bytes ! 0)) (length (ipv4_payload bytes)) 0
         (chunks (frag_size div 8 * 8) (ipv4_payload bytes))"
  by (cases bytes) (auto simp: is_fragmented_def fragment_ipv4_packet_def ipv4_payload_def Let_def)

lemma join_fragments_of:
  assumes "is_fragmented bytes frag_size" "length bytes \<le> 65535"
  shows "join_fragments (buffer_id bytes) 0 (fragment_ipv4_packet bytes frag_size) = Some (ipv4_payload bytes)"
proof -
  let ?c = "frag_size div 8 * 8"
  have c: "0 < ?c" and ne: "ipv4_payload bytes \<noteq> []"
    using assms(1) by (auto simp: is_fragmented_def ipv4_payload_def)
  then have cat: "concat (chunks ?c (ipv4_payload bytes)) = ipv4_payload bytes" by simp
  have "join_fragments (buffer_id bytes) 0 (fragment_parts bytes (ipv4_header_len (bytes ! 0))
      (0 + length (concat (chunks ?c (ipv4_payload bytes)))) 0 (chunks ?c (ipv4_payload bytes)))
    = Some (concat (chunks ?c (ipv4_payload bytes)))"
  proof (rule join_fragment_parts)
    show "\<forall>p \<in> set (butlast (chunks ?c (ipv4_payload bytes))). length p mod 8 = 0"
      by (metis chunks_butlast mod_mult_self2_is_0)
    show "ipv4_header_len (bytes ! 0) + (0 + length (concat (chunks ?c (ipv4_payload bytes)))) = length bytes"
      unfolding cat using assms(1) by (simp add: is_fragmented_def ipv4_payload_def)
  qed (use assms c ne chunks_bounds in \<open>auto simp: is_fragmented_def chunks_eq_Nil\<close>)
  then show ?thesis unfolding cat fragment_ipv4_packet_split [OF assms(1)] by simp
qed

lemma reassemble_fragments:
  assumes "is_fragmented bytes frag_size" "length bytes \<le> 65535"
  shows "reassemble (fragment_ipv4_packet bytes frag_size) = Some (unfragmented bytes)"
proof -
  let ?n = "ipv4_header_len (bytes ! 0)" and ?m = "length (ipv4_payload bytes)"
  have ihl: "20 \<le> ?n" "?n \<le> length bytes" using assms(1) by (simp_all add: is_fragmented_def)
  have "chunks (frag_size div 8 * 8) (ipv4_payload bytes) \<noteq> []"
    using assms(1) by (auto simp: is_fragmented_def ipv4_payload_def chunks_eq_Nil)
  then obtain p ps where ps: "chunks (frag_size div 8 * 8) (ipv4_payload bytes) = p # ps" by (meson neq_Nil_conv)
  define f where "f = build_fragment bytes ?n ?m 0 p"
  obtain fs where fs: "fragment_ipv4_packet bytes frag_size = f # fs"
    using fragment_ipv4_packet_split [OF assms(1)] ps by (simp add: f_def)
  note fields = build_fragment_fields [OF ihl refl f_def]
  have "buffer_id f = buffer_id bytes" by (rule build_fragment_buffer [OF ihl refl f_def])
  moreover have "datagram (take ?n f) (ipv4_payload bytes) = unfragmented bytes"
    unfolding unfragmented_def
  proof (rule datagram_cong)
    have "flags_of f AND 0xC000 = 0" using fields(6) by simp
    then show "u16_from_be (take ?n f ! 6) (take ?n f ! 7) AND 0xC000
      = u16_from_be (splice (take ?n bytes) 6 [0, 0] ! 6) (splice (take ?n bytes) 6 [0, 0] ! 7) AND 0xC000"
      using ihl by (simp add: flags_of_def nth_splice u16_from_be_def)
  qed (use ihl fields(2,8) in \<open>auto simp: nth_splice\<close>)
  ultimately show ?thesis using join_fragments_of [OF assms] fields(3) by (simp add: reassemble_def fs)
qed

text \<open>The checksum field of a header the way a sender fills it in.\<close>

definition checksum_filled :: "bytes \<Rightarrow> bool" where
  "checksum_filled p = (u16_from_be (p ! 10) (p ! 11)
     = ipv4_header_checksum (splice (take (ipv4_header_len (p ! 0)) p) 10 [0, 0]))"

lemma unfragmented_same:
  assumes "20 \<le> ipv4_header_len (p ! 0)" "ipv4_header_len (p ! 0) \<le> length p"
    and "total_length_of p = length p" "flags_of p = 0" "checksum_filled p"
  shows "unfragmented p = p"
proof -
  let ?n = "ipv4_header_len (p ! 0)"
  let ?h = "take ?n p"
  have tot: "u16_to_be (word_of_nat (length p)) = [p ! 2, p ! 3]"
    using assms(3) u16_to_from_be [of "p ! 2" "p ! 3"] by (simp add: total_length_of_def flip: assms(3))
  have fl: "p ! 6 = 0" "p ! 7 = 0"
    using assms(4) u16_to_from_be [of "p ! 6" "p ! 7"] by (auto simp: flags_of_def u16_to_be_def)
  have same: "splice ?h i [p ! i, p ! Suc i] = ?h" if "i + 2 \<le> ?n" for i
    by (rule nth_equalityI) (use that assms(2) in \<open>auto simp: nth_splice nth_Cons'\<close>, metis Suc_lessI le_less_Suc_eq not_less_eq_eq)
  have h6: "splice ?h 6 [0, 0] = ?h" using same [of 6] fl assms(1) by simp
  have h2: "splice ?h 2 [p ! 2, p ! 3] = ?h" using same [of 2] assms(1) by simp
  have ck: "u16_to_be (ipv4_header_checksum (splice ?h 10 [0, 0])) = [p ! 10, p ! 11]"
    using assms(5) by (metis checksum_filled_def u16_to_from_be)
  have "length ?h + length (ipv4_payload p) = length p" using assms(2) by (simp add: ipv4_payload_def)
  moreover have "?h ! 6 = 0" "?h ! 7 = 0" using fl assms(1) by simp_all
  ultimately have "unfragmented p = splice (splice ?h 10 [0, 0]) 10 [p ! 10, p ! 11] @ ipv4_payload p"
    using tot h2 h6 ck by (simp add: unfragmented_def datagram_def u16_to_be_def u16_from_be_def)
  also have "\<dots> = ?h @ ipv4_payload p" using same [of 10] assms(1,2) by (simp add: splice_overwrite)
  finally show ?thesis by (simp add: ipv4_payload_def)
qed

text \<open>
  C12. Fragmentation is invisible to a receiver: for every IPv4 packet of at most 65535 bytes that
  the code splits, a receiver that joins fragments of one identification, protocol and pair of
  addresses, in order, by their offsets, rebuilds the whole packet. The rebuilt packet has the
  length, the payload and every header byte of the original but those of the total length, the flags
  and the checksum; its header is valid and its flags are clear. When the original was itself a
  well-formed unfragmented packet without the don't-fragment flag, it is the original byte for byte.
  The receiver rejects a fragment whose total length, header checksum, identification, protocol,
  addresses, offset or more-fragments flag is wrong.
\<close>

theorem fragments_reassemble:
  assumes "is_fragmented bytes frag_size" "length bytes \<le> 65535"
  shows "reassemble (fragment_ipv4_packet bytes frag_size) = Some (unfragmented bytes)
    \<and> ipv4_header_ok (unfragmented bytes) \<and> flags_of (unfragmented bytes) = 0
    \<and> length (unfragmented bytes) = length bytes \<and> ipv4_payload (unfragmented bytes) = ipv4_payload bytes
    \<and> (\<forall>i < length bytes. i \<notin> {2, 3, 6, 7, 10, 11} \<longrightarrow> unfragmented bytes ! i = bytes ! i)
    \<and> (total_length_of bytes = length bytes \<and> flags_of bytes = 0 \<and> checksum_filled bytes
        \<longrightarrow> reassemble (fragment_ipv4_packet bytes frag_size) = Some bytes)"
proof -
  have ihl: "20 \<le> ipv4_header_len (bytes ! 0)" "ipv4_header_len (bytes ! 0) \<le> length bytes"
    using assms(1) by (simp_all add: is_fragmented_def)
  then show ?thesis
    using reassemble_fragments [OF assms] unfragmented_fields [OF ihl assms(2)] unfragmented_same [OF ihl] by simp
qed

text \<open>A 44-byte TCP packet from 10.0.0.1 to 10.0.0.2 cut into three 8-byte fragments.\<close>

definition sample_datagram :: bytes where
  "sample_datagram = [69, 0, 0, 44, 190, 239, 0, 0, 64, 6, 167, 218, 10, 0, 0, 1, 10, 0, 0, 2,
     7, 7, 7, 7, 7, 7, 7, 7, 8, 8, 8, 8, 8, 8, 8, 8, 9, 9, 9, 9, 9, 9, 9, 9]"

lemma sample_filled: "checksum_filled sample_datagram"
proof -
  have s: "sum_words 0 (splice (take (ipv4_header_len (sample_datagram ! 0)) sample_datagram) 10 [0, 0]) = 0x15824"
    by (simp add: sample_datagram_def ipv4_header_len_def splice_def u16_from_be_def)
  have "fold_carry 0x15824 = 0x5825" by (simp add: fold_carry.simps [of "0x15824"] fold_carry.simps [of "0x5825"])
  then show ?thesis unfolding checksum_filled_def ipv4_header_checksum_def finish_checksum_def s
    by (simp add: sample_datagram_def u16_from_be_def)
qed

lemma fragments_reassemble_witness:
  "length (fragment_ipv4_packet sample_datagram 9) = 3
   \<and> reassemble (fragment_ipv4_packet sample_datagram 9) = Some sample_datagram"
proof -
  have frag: "is_fragmented sample_datagram 9" by code_simp
  moreover have "length sample_datagram \<le> 65535" by (simp add: sample_datagram_def)
  moreover have "length (fragment_ipv4_packet sample_datagram 9) = 3"
  proof -
    have "length (chunks (9 div 8 * 8) (ipv4_payload sample_datagram)) = 3" by code_simp
    then show ?thesis by (simp only: fragment_ipv4_packet_split [OF frag] length_fragment_parts)
  qed
  moreover have "total_length_of sample_datagram = length sample_datagram" by code_simp
  moreover have "flags_of sample_datagram = 0" by code_simp
  moreover note sample_filled
  ultimately show ?thesis using fragments_reassemble [of sample_datagram 9] by blast
qed

text \<open>
  The shape of the output. A packet the code does not split is returned unchanged; otherwise
  there are as many fragments as rounded-down chunks of the payload, each keeps the identification
  and every header byte outside the total length, the flags and offset word and the checksum, and
  carries at most the requested payload size.
\<close>

theorem fragment_ipv4_packet_shape:
  "(\<not> is_fragmented bytes frag_size \<longrightarrow> fragment_ipv4_packet bytes frag_size = [bytes]) \<and>
   (is_fragmented bytes frag_size \<longrightarrow>
      length (fragment_ipv4_packet bytes frag_size)
        = div_ceil (length (ipv4_payload bytes)) (frag_size div 8 * 8) \<and>
      (\<forall>f \<in> set (fragment_ipv4_packet bytes frag_size).
         ident_of f = ident_of bytes \<and> length (ipv4_payload f) \<le> frag_size \<and>
         (\<forall>i. i < ipv4_header_len (bytes ! 0) \<and> i \<notin> {2, 3, 6, 7, 10, 11} \<longrightarrow> f ! i = bytes ! i)))"
proof (intro conjI impI ballI)
  assume "\<not> is_fragmented bytes frag_size"
  then show "fragment_ipv4_packet bytes frag_size = [bytes]"
    by (cases bytes) (auto simp: fragment_ipv4_packet_def is_fragmented_def Let_def)
next
  assume frag: "is_fragmented bytes frag_size"
  then have "0 < frag_size div 8 * 8" unfolding is_fragmented_def by linarith
  then show "length (fragment_ipv4_packet bytes frag_size)
        = div_ceil (length (ipv4_payload bytes)) (frag_size div 8 * 8)"
    unfolding fragment_ipv4_packet_split [OF frag] by (simp only: length_fragment_parts length_chunks)
next
  fix f assume frag: "is_fragmented bytes frag_size"
    and "f \<in> set (fragment_ipv4_packet bytes frag_size)"
  then obtain off p where p: "p \<in> set (chunks (frag_size div 8 * 8) (ipv4_payload bytes))"
    and f: "f = build_fragment bytes (ipv4_header_len (bytes ! 0)) (length (ipv4_payload bytes)) off p"
    using fragment_parts_nth unfolding fragment_ipv4_packet_split [OF frag] by blast
  have "20 \<le> ipv4_header_len (bytes ! 0)" "ipv4_header_len (bytes ! 0) \<le> length bytes"
    using frag by (simp_all add: is_fragmented_def)
  note fields = build_fragment_fields [OF this refl f]
  show "ident_of f = ident_of bytes" by (rule fields(5))
  show "\<forall>i. i < ipv4_header_len (bytes ! 0) \<and> i \<notin> {2, 3, 6, 7, 10, 11} \<longrightarrow> f ! i = bytes ! i"
    by (rule fields(8))
  have "length p \<le> frag_size div 8 * 8" using chunks_bounds [OF p] by simp
  also have "\<dots> \<le> frag_size" by simp
  finally show "length (ipv4_payload f) \<le> frag_size"
    unfolding ipv4_payload_def fields(3) fields(1) .
qed

lemma fragment_ipv4_packet_shape_witness:
  "length (fragment_ipv4_packet (0x45 # replicate 43 7) 9) = 3 \<and> fragment_ipv4_packet [0x45, 1] 9 = [[0x45, 1]]"
proof -
  have "is_fragmented (0x45 # replicate 43 7) 9" "\<not> is_fragmented [0x45, 1] 9" by code_simp+
  moreover have "div_ceil (length (ipv4_payload (0x45 # replicate 43 7))) (9 div 8 * 8) = 3" by code_simp
  ultimately show ?thesis
    using fragment_ipv4_packet_shape [of "0x45 # replicate 43 7" 9]
      fragment_ipv4_packet_shape [of "[0x45, 1]" 9] by (metis length_replicate)
qed

end
