(* ===== verification/Splitmix.thy ===== *)
theory Splitmix
  imports Prelude
begin

text \<open>
  The splitmix64 generator that the source repeats wherever it needs cheap randomness
  (\<^verbatim>\<open>FragmentRng\<close> in methods/tcp_segmentation.rs, \<^verbatim>\<open>PaddingRng\<close>, \<^verbatim>\<open>MixedCaseRng\<close>,
  \<^verbatim>\<open>OverlapFake::materialize\<close>, \<^verbatim>\<open>rand_lite\<close>, \<^verbatim>\<open>random_index\<close> in target_pool.rs), the sampler over
  an \<^verbatim>\<open>Int32Range\<close> and the rejection sampler of the target pool. The seed, which the code takes from
  the clock and a counter, is an argument. The lemmas show that the output function is a bijection and
  the state walks through all \<open>2 ^ 64\<close> values, from which the rejection loop returns.
\<close>

section \<open>The generator\<close>

definition golden :: u64 where
  "golden = 0x9E3779B97F4A7C15"

definition mix64 :: "u64 \<Rightarrow> u64" where
  "mix64 z = (let
     z = (z XOR drop_bit 30 z) * 0xBF58476D1CE4E5B9;
     z = (z XOR drop_bit 27 z) * 0x94D049BB133111EB
   in z XOR drop_bit 31 z)"

text \<open>\<^verbatim>\<open>next_u64\<close>: the value and the new state.\<close>

definition next_u64 :: "u64 \<Rightarrow> u64 \<times> u64" where
  "next_u64 state = (let state = state + golden in (mix64 state, state))"

text \<open>\<^verbatim>\<open>to_le_bytes\<close> of a \<^verbatim>\<open>u64\<close>.\<close>

definition u64_to_le :: "u64 \<Rightarrow> bytes" where
  "u64_to_le z = map (\<lambda>i. ucast (drop_bit (8 * i) z)) [0 ..< 8]"

section \<open>Ranges\<close>

text \<open>\<^verbatim>\<open>Int32Range\<close> of config.rs. The fields are \<^verbatim>\<open>i32\<close> values.\<close>

record Int32Range =
  range_min :: int
  range_max :: int

definition exact :: "int \<Rightarrow> Int32Range" where
  "exact v = \<lparr>range_min = v, range_max = v\<rparr>"

text \<open>\<^verbatim>\<open>as i32\<close> and a wrapping \<^verbatim>\<open>i32\<close> addition.\<close>

definition as_i32 :: "int \<Rightarrow> int" where
  "as_i32 n = (n + 2 ^ 31) mod 2 ^ 32 - 2 ^ 31"

text \<open>
  \<^verbatim>\<open>sample_i32\<close>. The \<^verbatim>\<open>u64\<close> remainder panics for a zero width, which a range with
  \<open>range_max = range_min - 1\<close> would give.
\<close>

definition sample_i32 :: "Int32Range \<Rightarrow> u64 \<Rightarrow> (int \<times> u64) res" where
  "sample_i32 rg rng =
     (if range_min rg = range_max rg then Ok (range_min rg, rng)
      else (let width = (range_max rg - range_min rg + 1) mod 2 ^ 64;
                (x, rng) = next_u64 rng
            in if width = 0 then Panic
               else Ok (as_i32 (range_min rg + as_i32 (uint x mod width)), rng)))"

text \<open>The rejection sampler of target_pool.rs; \<^verbatim>\<open>bound.wrapping_neg() % bound\<close> panics for a zero bound.\<close>

partial_function (option) random_index_loop :: "u64 \<Rightarrow> u64 \<Rightarrow> u64 \<Rightarrow> (nat \<times> u64) option" where
  "random_index_loop bound threshold state =
     (let (z, state) = next_u64 state in
      if threshold \<le> z then Some (unat (z mod bound), state)
      else random_index_loop bound threshold state)"

declare random_index_loop.simps [code]

definition random_index :: "u64 \<Rightarrow> nat \<Rightarrow> (nat \<times> u64) option res" where
  "random_index state count = (let bound = word_of_nat count :: u64 in
     if bound = 0 then Panic else Ok (random_index_loop bound ((- bound) mod bound) state))"

section \<open>The generator is a permutation\<close>

lemma drop_bit_too_far: "64 \<le> n \<Longrightarrow> drop_bit n (z :: u64) = 0"
proof (rule bit_word_eqI)
  fix i assume "64 \<le> n" "i < LENGTH(64)"
  then have "\<not> bit z (n + i)" by (intro notI) (drule bit_imp_le_length, simp)
  then show "bit (drop_bit n z) i = bit (0 :: u64) i" by (simp add: bit_drop_bit_eq)
qed

lemma xor_shift_inverse:
  fixes z :: u64
  assumes "y = z XOR drop_bit n z" "64 \<le> 4 * n"
  shows "y XOR drop_bit n y XOR drop_bit (2 * n) y XOR drop_bit (3 * n) y = z"
proof -
  have "drop_bit n y = drop_bit n z XOR drop_bit (2 * n) z"
    "drop_bit (2 * n) y = drop_bit (2 * n) z XOR drop_bit (3 * n) z"
    "drop_bit (3 * n) y = drop_bit (3 * n) z XOR drop_bit (4 * n) z"
    unfolding assms(1) by (simp_all add: drop_bit_xor drop_bit_drop_bit mult_2 [symmetric])
  moreover have "drop_bit (4 * n) z = 0" using assms(2) by (rule drop_bit_too_far)
  ultimately show ?thesis unfolding assms(1) by (simp add: xor.assoc xor.left_commute)
qed

lemma xor_shift_inj: "64 \<le> 4 * n \<Longrightarrow> inj (\<lambda>z :: u64. z XOR drop_bit n z)"
  by (rule injI) (metis xor_shift_inverse)

lemma mult_inj: "c * d = 1 \<Longrightarrow> inj (\<lambda>z :: u64. z * c)"
proof (rule injI)
  fix x y :: u64
  assume cd: "c * d = 1" and "x * c = y * c"
  from \<open>x * c = y * c\<close> have "x * (c * d) = y * (c * d)" by (metis mult.assoc)
  with cd show "x = y" by simp
qed

lemma mix64_bij: "bij mix64"
proof -
  have "(0xBF58476D1CE4E5B9 :: u64) * 0x96DE1B173F119089 = 1" by simp
  note m1 = mult_inj [OF this]
  have "(0x94D049BB133111EB :: u64) * 0x319642B2D24D8EC3 = 1" by simp
  note m2 = mult_inj [OF this]
  have "mix64 = (\<lambda>z. z XOR drop_bit 31 z) \<circ> (\<lambda>z. z * 0x94D049BB133111EB) \<circ> (\<lambda>z. z XOR drop_bit 27 z)
      \<circ> (\<lambda>z. z * 0xBF58476D1CE4E5B9) \<circ> (\<lambda>z. z XOR drop_bit 30 z)"
    by (simp add: fun_eq_iff mix64_def Let_def)
  moreover have "inj \<dots>" by (intro inj_compose xor_shift_inj m1 m2) simp_all
  ultimately have "inj mix64" by (simp only:)
  then show ?thesis by (simp add: bij_def finite_UNIV_inj_surj)
qed

text \<open>The increment is odd, so the states \<open>s, s + golden, s + 2 * golden, \<dots>\<close> cover every word.\<close>

lemma walk_covers: "\<exists>k. s + word_of_nat k * golden = t"
proof -
  have "golden * 0xF1DE83E19937733D = 1" by (simp add: golden_def)
  then obtain d where d: "golden * d = 1" by blast
  have "(t - s) * d * golden = (t - s) * (golden * d)" by (simp only: mult.assoc mult.commute [of d])
  then have "s + word_of_nat (unat ((t - s) * d)) * golden = t"
    by (simp only: of_nat_unat ucast_id d) simp
  then show ?thesis by blast
qed

section \<open>The samplers\<close>

lemma random_index_loop_step:
  "random_index_loop bound threshold state =
     (if threshold \<le> mix64 (state + golden)
      then Some (unat (mix64 (state + golden) mod bound), state + golden)
      else random_index_loop bound threshold (state + golden))"
  by (subst random_index_loop.simps) (simp add: next_u64_def Let_def)

lemma random_index_loop_returns:
  "threshold \<le> mix64 (state + word_of_nat (Suc k) * golden) \<Longrightarrow>
   \<exists>z s'. random_index_loop bound threshold state = Some (unat (z mod bound), s') \<and> threshold \<le> z"
proof (induction k arbitrary: state)
  case 0
  then show ?case by (subst random_index_loop_step) auto
next
  case (Suc k)
  show ?case
  proof (cases "threshold \<le> mix64 (state + golden)")
    case True
    then show ?thesis by (subst random_index_loop_step) auto
  next
    case False
    have "state + word_of_nat (Suc (Suc k)) * golden = state + golden + word_of_nat (Suc k) * golden"
      by (simp add: algebra_simps)
    with Suc.prems have "threshold \<le> mix64 (state + golden + word_of_nat (Suc k) * golden)"
      by (simp only:)
    from Suc.IH [OF this] show ?thesis using False by (subst random_index_loop_step) simp
  qed
qed

lemma random_index_ends:
  assumes "0 < count" "count < 2 ^ 64"
  shows "\<exists>i s'. random_index state count = Ok (Some (i, s')) \<and> i < count"
proof -
  let ?b = "word_of_nat count :: u64" and ?t = "(- word_of_nat count) mod (word_of_nat count) :: u64"
  have b: "unat ?b = count" using assms(2) by (simp add: unat_of_nat)
  then have nz: "?b \<noteq> 0" using assms(1) by (metis unat_0 less_irrefl)
  obtain w where "mix64 w = - 1" using mix64_bij by (metis bij_pointE)
  moreover obtain k where "state + golden + word_of_nat k * golden = w" using walk_covers by blast
  ultimately have "?t \<le> mix64 (state + word_of_nat (Suc k) * golden)"
    by (simp add: algebra_simps)
  from random_index_loop_returns [OF this, of ?b]
  obtain z s' where z: "random_index_loop ?b ?t state = Some (unat (z mod ?b), s')" by blast
  have "unat (z mod ?b) < count" using assms(1) b by (simp add: unat_mod_distrib)
  with z nz show ?thesis by (simp add: random_index_def)
qed

text \<open>
  The rejection loop of the random selection strategy always ends and returns an index into
  the pool, for every seed and every pool size a \<^verbatim>\<open>u64\<close> can hold.
\<close>

theorem random_index_in_pool:
  assumes "0 < count" "count < 2 ^ 64"
  shows "\<exists>i s'. random_index state count = Ok (Some (i, s')) \<and> i < count"
  using assms by (rule random_index_ends)

lemma random_index_in_pool_witness: "\<exists>i s'. random_index 42 3 = Ok (Some (i, s')) \<and> i < 3"
  by (rule random_index_in_pool) simp_all

definition i32_range :: "Int32Range \<Rightarrow> bool" where
  "i32_range rg = (- (2 ^ 31) \<le> range_min rg \<and> range_min rg \<le> range_max rg \<and> range_max rg < 2 ^ 31)"

lemma as_i32_add: "as_i32 (a + as_i32 b) = as_i32 (a + b)"
proof -
  have "(a + ((b + 2 ^ 31) mod 2 ^ 32 - 2 ^ 31) + 2 ^ 31) mod 2 ^ 32 = (a + (b + 2 ^ 31)) mod 2 ^ 32"
    by (simp add: mod_add_right_eq)
  then show ?thesis by (simp add: as_i32_def add.assoc)
qed

lemma as_i32_id: "- (2 ^ 31) \<le> n \<Longrightarrow> n < 2 ^ 31 \<Longrightarrow> as_i32 n = n"
  by (simp add: as_i32_def)

lemma sample_i32_ordered:
  assumes "i32_range rg"
  shows "\<exists>v rng'. sample_i32 rg rng = Ok (v, rng') \<and> range_min rg \<le> v \<and> v \<le> range_max rg"
proof (cases "range_min rg = range_max rg")
  case True
  then show ?thesis by (simp add: sample_i32_def)
next
  case False
  let ?w = "range_max rg - range_min rg + 1" and ?x = "fst (next_u64 rng)"
  have w: "0 < ?w" "?w mod 2 ^ 64 = ?w" using assms by (simp_all add: i32_range_def)
  have "0 \<le> uint ?x mod ?w" "uint ?x mod ?w < ?w"
    using w(1) by (simp, intro pos_mod_bound)
  then have bounds: "range_min rg \<le> range_min rg + uint ?x mod ?w"
    "range_min rg + uint ?x mod ?w \<le> range_max rg" by simp_all
  then have "as_i32 (range_min rg + uint ?x mod ?w) = range_min rg + uint ?x mod ?w"
    using assms by (intro as_i32_id) (auto simp: i32_range_def)
  then have "sample_i32 rg rng = Ok (range_min rg + uint ?x mod ?w, snd (next_u64 rng))"
    using False w unfolding sample_i32_def as_i32_add Let_def w(2) by (simp add: split_beta)
  with bounds show ?thesis by blast
qed

text \<open>
  Sampling an \<^verbatim>\<open>Int32Range\<close> whose bounds are ordered never panics and stays inside the range,
  also for ranges wider than \<^verbatim>\<open>i32::MAX\<close>, where the intermediate \<^verbatim>\<open>as i32\<close> cast wraps.
\<close>

lemma sample_i32_in_range:
  assumes "i32_range rg"
  shows "\<exists>v rng'. sample_i32 rg rng = Ok (v, rng') \<and> range_min rg \<le> v \<and> v \<le> range_max rg"
  using assms by (rule sample_i32_ordered)

lemma sample_i32_in_range_witness:
  "\<exists>v rng'. sample_i32 \<lparr>range_min = 1, range_max = 40\<rparr> 7 = Ok (v, rng') \<and> 1 \<le> v \<and> v \<le> 40"
  using sample_i32_in_range [of "\<lparr>range_min = 1, range_max = 40\<rparr>" 7] by (simp add: i32_range_def)

end
