(* ===== verification/Interceptor.thy ===== *)
theory Interceptor
  imports Splitmix
begin

text \<open>
  The packet vocabulary of src/crates/zerodpi-core/src/interceptor.rs: the view a backend hands to the
  handler, with the mutations a method stages on it, the verdicts, the staged decoy and
  segmentation requests, and the predicates on TCP flags.
\<close>

section \<open>Data\<close>

datatype Direction = Outbound | Inbound

record TcpFlags =
  f_syn :: bool
  f_ack :: bool
  f_psh :: bool
  f_rst :: bool
  f_fin :: bool
  f_urg :: bool

definition no_flags :: TcpFlags where
  "no_flags = \<lparr>f_syn = False, f_ack = False, f_psh = False, f_rst = False, f_fin = False, f_urg = False\<rparr>"

record OverlapFake =
  ov_bytes :: nat
  ov_pattern :: "bytes option"
  ov_seed :: u64

record DecoyPacket =
  dp_seq :: u32
  dp_payload :: bytes
  dp_flags :: TcpFlags
  dp_bump_ipv4_ident :: bool
  dp_repeats :: nat
  dp_delay_ms :: nat

record DisorderSpec =
  ds_segments :: nat
  ds_reverse :: bool
  ds_delay_ms :: nat
  ds_overlap :: "OverlapFake option"

record PacketView =
  direction :: Direction
  src_ip :: ipv4
  dst_ip :: ipv4
  src_port :: u16
  dst_port :: u16
  seq :: u32
  ack :: u32
  flags :: TcpFlags
  payload_len :: nat
  payload :: bytes
  tcp_options :: bytes
  new_seq :: "u32 option"
  new_ack :: "u32 option"
  new_flags :: "TcpFlags option"
  new_urgent_pointer :: "u16 option"
  new_payload :: "bytes option"
  replace_tcp_options :: "bytes option"
  append_tcp_options :: bytes
  bump_ipv4_ident :: bool
  corrupt_tcp_checksum_delta :: "u16 option"
  emit_original_after :: bool
  decoy :: "DecoyPacket option"
  ip_frag_payload_size :: "nat option"
  disorder_spec :: "DisorderSpec option"
  new_ipv4_ttl :: "u8 option"

datatype Verdict = Accept | AcceptModified | Drop

section \<open>Operations\<close>

text \<open>\<^verbatim>\<open>Vec::resize\<close>.\<close>

definition resize :: "nat \<Rightarrow> 'a \<Rightarrow> 'a list \<Rightarrow> 'a list" where
  "resize n v xs = take n xs @ replicate (n - length xs) v"

text \<open>The \<^verbatim>\<open>while out.len() < self.bytes\<close> loop of \<^verbatim>\<open>materialize\<close>.\<close>

function random_prefix :: "nat \<Rightarrow> u64 \<Rightarrow> bytes \<Rightarrow> bytes" where
  "random_prefix n state out =
     (if length out < n
      then (let (z, state) = next_u64 state
            in random_prefix n state (out @ take (min (n - length out) 8) (u64_to_le z)))
      else out)"
  by pat_completeness auto
termination
  by (relation "measure (\<lambda>(n, state, out). n - length out)") (auto simp: u64_to_le_def)

declare random_prefix.simps [simp del]

definition materialize :: "OverlapFake \<Rightarrow> bytes" where
  "materialize f = (case ov_pattern f of
     Some pattern \<Rightarrow> resize (ov_bytes f) 0 pattern
   | None \<Rightarrow> random_prefix (ov_bytes f) (ov_seed f) [])"

definition decoy_view :: "PacketView \<Rightarrow> DecoyPacket \<Rightarrow> PacketView" where
  "decoy_view v d = \<lparr>
     direction = direction v, src_ip = src_ip v, dst_ip = dst_ip v,
     src_port = src_port v, dst_port = dst_port v, seq = seq v, ack = ack v, flags = flags v,
     payload_len = payload_len v, payload = payload v, tcp_options = tcp_options v,
     new_seq = Some (dp_seq d), new_ack = None, new_flags = Some (dp_flags d),
     new_urgent_pointer = None, new_payload = Some (dp_payload d), replace_tcp_options = None,
     append_tcp_options = [], bump_ipv4_ident = dp_bump_ipv4_ident d,
     corrupt_tcp_checksum_delta = None, emit_original_after = False, decoy = None,
     ip_frag_payload_size = None, disorder_spec = None, new_ipv4_ttl = None\<rparr>"

definition is_bare_ack :: "PacketView \<Rightarrow> bool" where
  "is_bare_ack p = (f_ack (flags p) \<and> \<not> f_syn (flags p) \<and> \<not> f_rst (flags p) \<and> \<not> f_fin (flags p)
     \<and> payload_len p = 0)"

definition is_syn_ack :: "PacketView \<Rightarrow> bool" where
  "is_syn_ack p = (f_syn (flags p) \<and> f_ack (flags p) \<and> \<not> f_rst (flags p) \<and> \<not> f_fin (flags p)
     \<and> payload_len p = 0)"

definition is_bare_syn :: "PacketView \<Rightarrow> bool" where
  "is_bare_syn p = (f_syn (flags p) \<and> \<not> f_ack (flags p) \<and> \<not> f_rst (flags p) \<and> \<not> f_fin (flags p)
     \<and> payload_len p = 0)"

section \<open>Lemmas\<close>

lemma length_resize [simp]: "length (resize n v xs) = n"
  by (simp add: resize_def)

lemma length_random_prefix: "length (random_prefix n state out) = max n (length out)"
proof (induction n state out rule: random_prefix.induct)
  case (1 n state out)
  then show ?case
    by (simp add: random_prefix.simps [of n state out] u64_to_le_def split_beta)
qed

text \<open>\<^verbatim>\<open>materialize\<close> produces exactly the configured number of bytes.\<close>

lemma length_materialize [simp]: "length (materialize f) = ov_bytes f"
  by (simp add: materialize_def length_random_prefix split: option.split)

text \<open>At most one of the three flag predicates the handler branches on holds.\<close>

lemma packet_kinds_exclusive:
  "\<not> (is_bare_ack p \<and> is_syn_ack p)" "\<not> (is_bare_ack p \<and> is_bare_syn p)"
  "\<not> (is_syn_ack p \<and> is_bare_syn p)"
  by (auto simp: is_bare_ack_def is_syn_ack_def is_bare_syn_def)

text \<open>The captured part of a packet: everything the methods read and must not touch.\<close>

definition captured :: "PacketView \<Rightarrow> Direction \<times> ipv4 \<times> ipv4 \<times> u16 \<times> u16 \<times> u32 \<times> u32
    \<times> TcpFlags \<times> nat \<times> bytes \<times> bytes" where
  "captured p = (direction p, src_ip p, dst_ip p, src_port p, dst_port p, seq p, ack p, flags p,
     payload_len p, payload p, tcp_options p)"

text \<open>A freshly captured packet: no mutation is staged.\<close>

definition unstaged :: "PacketView \<Rightarrow> bool" where
  "unstaged p = (new_seq p = None \<and> new_ack p = None \<and> new_flags p = None
     \<and> new_urgent_pointer p = None \<and> new_payload p = None \<and> replace_tcp_options p = None
     \<and> append_tcp_options p = [] \<and> \<not> bump_ipv4_ident p \<and> corrupt_tcp_checksum_delta p = None
     \<and> \<not> emit_original_after p \<and> decoy p = None \<and> ip_frag_payload_size p = None
     \<and> disorder_spec p = None \<and> new_ipv4_ttl p = None)"

text \<open>An outbound packet with no options and nothing staged, for concrete examples.\<close>

definition blank_packet :: PacketView where
  "blank_packet = \<lparr>direction = Outbound, src_ip = 1, dst_ip = 2, src_port = 3, dst_port = 4, seq = 0, ack = 0,
     flags = no_flags, payload_len = 0, payload = [], tcp_options = [], new_seq = None, new_ack = None,
     new_flags = None, new_urgent_pointer = None, new_payload = None, replace_tcp_options = None,
     append_tcp_options = [], bump_ipv4_ident = False, corrupt_tcp_checksum_delta = None,
     emit_original_after = False, decoy = None, ip_frag_payload_size = None, disorder_spec = None,
     new_ipv4_ttl = None\<rparr>"

lemma unstaged_blank [simp]: "unstaged blank_packet"
  by (simp add: unstaged_def blank_packet_def)

lemma decoy_view_captured [simp]: "captured (decoy_view p d) = captured p"
  by (simp add: captured_def decoy_view_def)

end
