(* ===== verification/Tcp_Segment.thy ===== *)
theory Tcp_Segment
  imports Ip_Fragment Interceptor
begin

text \<open>
  Out-of-order TCP segmentation with an optional fake overlap prefix,
  src/crates/zerodpi-core/src/tcp_segment.rs. The reference is a receiving TCP stack: it checks
  both checksums and the total length, drops bytes before its expected sequence number and keeps
  the last copy of a byte it receives twice. The main theorem is that it recovers the
  original payload from the segments the code emits, in both emission orders and with any overlap.
\<close>

section \<open>The code\<close>

text \<open>The TCP header length in bytes from the high nibble of its byte 12.\<close>

definition tcp_data_offset :: "u8 \<Rightarrow> nat" where
  "tcp_data_offset b = unat (drop_bit 4 b) * 4"

text \<open>The body of the loop over the payload chunks: one segment.\<close>

definition build_segment ::
  "bytes \<Rightarrow> nat \<Rightarrow> nat \<Rightarrow> nat \<Rightarrow> u32 \<Rightarrow> bytes \<Rightarrow> nat \<Rightarrow> bytes \<Rightarrow> bytes" where
  "build_segment bytes ihl tcp_hdr_len n orig_seq prefix offset part = (let
     payload_off = ihl + tcp_hdr_len;
     seg = take payload_off bytes @ prefix @ part;
     total = word_of_nat (payload_off + length prefix + length part) :: u16;
     seg = splice seg 2 (u16_to_be total);
     sq = orig_seq + word_of_nat offset - word_of_nat (length prefix);
     seg = splice seg (ihl + 4) (u32_to_be sq);
     ends_payload = (offset + length part = n);
     flags_byte = bytes ! (ihl + 13);
     seg = splice seg (ihl + 13) [if ends_payload then flags_byte else flags_byte AND NOT 0x08];
     seg = splice seg 10 [0, 0];
     seg = splice seg 10 (u16_to_be (ipv4_header_checksum (take ihl seg)));
     seg = splice seg (ihl + 16) [0, 0]
   in splice seg (ihl + 16) (u16_to_be (tcp_checksum seg ihl tcp_hdr_len)))"

fun segment_parts ::
  "bytes \<Rightarrow> nat \<Rightarrow> nat \<Rightarrow> nat \<Rightarrow> u32 \<Rightarrow> bytes option \<Rightarrow> nat \<Rightarrow> nat \<Rightarrow> nat \<Rightarrow> bytes list \<Rightarrow> bytes list" where
  "segment_parts bytes ihl hl n orig_seq prefix overlap_index index offset [] = []"
| "segment_parts bytes ihl hl n orig_seq prefix overlap_index index offset (part # parts) =
     build_segment bytes ihl hl n orig_seq
       (case prefix of Some p \<Rightarrow> if index = overlap_index then p else [] | None \<Rightarrow> []) offset part
     # segment_parts bytes ihl hl n orig_seq prefix overlap_index (Suc index) (offset + length part) parts"

text \<open>The overlap prefix, with the three filters that drop it.\<close>

definition overlap_prefix :: "DisorderSpec \<Rightarrow> nat \<Rightarrow> nat \<Rightarrow> bytes option" where
  "overlap_prefix spec payload_off chunk = (case ds_overlap spec of
     None \<Rightarrow> None
   | Some fake \<Rightarrow> (let prefix = materialize fake in
       if prefix \<noteq> [] \<and> (\<not> ds_reverse spec \<or> length prefix < chunk)
          \<and> payload_off + chunk + length prefix \<le> 65535
       then Some prefix else None))"

definition split_tcp_payload :: "bytes \<Rightarrow> DisorderSpec \<Rightarrow> bytes list" where
  "split_tcp_payload bytes spec = (case bytes of
     [] \<Rightarrow> [bytes]
   | first # _ \<Rightarrow> (let ihl = ipv4_header_len first in
       if ihl < 20 \<or> length bytes < ihl + 20 then [bytes]
       else (let tcp_hdr_len = tcp_data_offset (bytes ! (ihl + 12)) in
         if tcp_hdr_len < 20 \<or> length bytes < ihl + tcp_hdr_len then [bytes]
         else (let payload_off = ihl + tcp_hdr_len; payload = drop payload_off bytes in
           if ds_segments spec < 2 \<or> length payload < ds_segments spec then [bytes]
           else (let
               chunk = div_ceil (length payload) (ds_segments spec);
               orig_seq = u32_from_be (bytes ! (ihl + 4)) (bytes ! (ihl + 5))
                            (bytes ! (ihl + 6)) (bytes ! (ihl + 7));
               chunk_count = div_ceil (length payload) chunk;
               overlap_index = (if ds_reverse spec then chunk_count - 1 else 0);
               prefix = overlap_prefix spec payload_off chunk;
               built = segment_parts bytes ihl tcp_hdr_len (length payload) orig_seq prefix
                         overlap_index 0 0 (chunks chunk payload)
             in if ds_reverse spec then rev built else built)))))"

section \<open>The receiver\<close>

definition tcp_hdr_of :: "bytes \<Rightarrow> nat" where
  "tcp_hdr_of f = tcp_data_offset (f ! (ipv4_header_len (f ! 0) + 12))"

definition tcp_payload :: "bytes \<Rightarrow> bytes" where
  "tcp_payload f = drop (ipv4_header_len (f ! 0) + tcp_hdr_of f) f"

definition tcp_seq_of :: "bytes \<Rightarrow> u32" where
  "tcp_seq_of f = (let i = ipv4_header_len (f ! 0) in
     u32_from_be (f ! (i + 4)) (f ! (i + 5)) (f ! (i + 6)) (f ! (i + 7)))"

definition tcp_segment_ok :: "bytes \<Rightarrow> bool" where
  "tcp_segment_ok f = (ipv4_header_ok f
     \<and> tcp_checksum f (ipv4_header_len (f ! 0)) (tcp_hdr_of f) = 0)"

text \<open>
  The receive buffer maps a stream position, relative to the next expected byte, to the last byte
  received there. The position of a segment is the signed 32-bit distance of its sequence number.
\<close>

type_synonym rcv_buffer = "int \<Rightarrow> u8 option"

definition write_at :: "int \<Rightarrow> bytes \<Rightarrow> rcv_buffer \<Rightarrow> rcv_buffer" where
  "write_at pos data buf = (\<lambda>p. if 0 \<le> p \<and> pos \<le> p \<and> p < pos + int (length data)
     then Some (data ! nat (p - pos)) else buf p)"

definition receive_segment :: "u32 \<Rightarrow> bytes \<Rightarrow> rcv_buffer \<Rightarrow> rcv_buffer" where
  "receive_segment rcv_nxt f buf =
     (if tcp_segment_ok f then write_at (sint (tcp_seq_of f - rcv_nxt)) (tcp_payload f) buf else buf)"

definition receive_all :: "u32 \<Rightarrow> bytes list \<Rightarrow> rcv_buffer" where
  "receive_all rcv_nxt fs = fold (receive_segment rcv_nxt) fs (\<lambda>_. None)"

section \<open>One segment\<close>

lemma tcp_data_offset_bound: "tcp_data_offset b \<le> 60"
proof -
  have "unat (drop_bit 4 b) = unat b div 16" by (simp add: drop_bit_eq_div unat_div_distrib)
  then have "unat (drop_bit 4 b) \<le> 15" using unat_u8_bound [of b] by linarith
  then show ?thesis by (simp add: tcp_data_offset_def)
qed

lemma drop_splice_before: "i + length ys \<le> k \<Longrightarrow> k \<le> length xs \<Longrightarrow> drop k (splice xs i ys) = drop k xs"
  by (simp add: splice_def)

lemma drop_splice: "k \<le> i \<Longrightarrow> i + length ys \<le> length xs \<Longrightarrow> drop k (splice xs i ys) = splice (drop k xs) (i - k) ys"
  by (simp add: splice_def drop_take)

lemma take_splice_after: "k \<le> i \<Longrightarrow> i \<le> length xs \<Longrightarrow> take k (splice xs i ys) = take k xs"
  by (simp add: splice_def min_def)

lemma take_splice: "i + length ys \<le> k \<Longrightarrow> k \<le> length xs \<Longrightarrow> take k (splice xs i ys) = splice (take k xs) i ys"
  by (cases "k = i") (auto simp: splice_def min_def drop_take)

lemma pseudo_header_sum_cong:
  "length s = length t \<Longrightarrow> \<forall>i \<in> {12..19}. s ! i = t ! i \<Longrightarrow> pseudo_header_sum s ihl hl = pseudo_header_sum t ihl hl"
  by (simp add: pseudo_header_sum_def)

lemma unat_add_le: "unat (a + b) \<le> unat (a :: u32) + unat b"
  by (simp add: unat_word_ariths)

lemma pseudo_header_sum_bound: "unat (pseudo_header_sum s ihl hl) \<le> 5 * 65535 + 6"
proof -
  have c: "unat (ucast (w :: u16) :: u32) \<le> 65535" for w
    unfolding unat_ucast_16_32 using unat_u16_bound [of w] by linarith
  have "unat (ucast w1 + ucast w2 + ucast w3 + ucast w4 + 6 + ucast w5 :: u32) \<le> 5 * 65535 + 6"
    for w1 w2 w3 w4 w5 :: u16
    using c [of w1] c [of w2] c [of w3] c [of w4] c [of w5]
      unat_add_le [of "ucast w1" "ucast w2"] unat_add_le [of "ucast w1 + ucast w2" "ucast w3"]
      unat_add_le [of "ucast w1 + ucast w2 + ucast w3" "ucast w4"]
      unat_add_le [of "ucast w1 + ucast w2 + ucast w3 + ucast w4" 6]
      unat_add_le [of "ucast w1 + ucast w2 + ucast w3 + ucast w4 + 6" "ucast w5"]
    by (simp del: unsigned_ucast_eq) 
  then show ?thesis unfolding pseudo_header_sum_def .
qed

lemma tcp_fill_verifies:
  assumes "20 \<le> ihl" "ihl + 18 \<le> length s" "length s \<le> 65535"
  shows "tcp_checksum (splice s (ihl + 16) (u16_to_be
           (tcp_checksum (splice s (ihl + 16) [0, 0]) ihl hl))) ihl hl = 0"
proof -
  let ?p = "pseudo_header_sum s ihl hl"
  have pseudo: "pseudo_header_sum (splice s (ihl + 16) ys) ihl hl = ?p" if "length ys = 2" for ys
    using assms that by (intro pseudo_header_sum_cong) (auto simp: nth_splice)
  have rest: "drop ihl (splice s (ihl + 16) ys) = splice (drop ihl s) 16 ys" if "length ys = 2" for ys
    using assms that by (simp add: drop_splice)
  have "word_sum (splice (drop ihl s) 16 [0, 0]) \<le> (length s - ihl) * 65280"
    using word_sum_bound [of "splice (drop ihl s) 16 [0, 0]"] assms by simp
  also have "\<dots> \<le> 65515 * 65280" using assms by (intro mult_le_mono1) simp
  finally have "unat ?p + word_sum (splice (drop ihl s) 16 [0, 0]) + 65535 < 4294967296"
    using pseudo_header_sum_bound [of s ihl hl] by simp
  then show ?thesis unfolding tcp_checksum_def using assms
    by (simp add: pseudo rest checksum_fill_verifies)
qed

lemma build_segment_fields:
  assumes ihl: "20 \<le> ihl" "ihl \<le> 60" "20 \<le> hl" "ihl + hl \<le> length bytes"
    and len: "ihl + hl + length prefix + length part \<le> 65535"
    and f: "f = build_segment bytes ihl hl n orig_seq prefix offset part"
  shows "length f = ihl + hl + length prefix + length part"
    and "drop (ihl + hl) f = prefix @ part"
    and "u16_from_be (f ! 2) (f ! 3) = word_of_nat (length f)"
    and "u32_from_be (f ! (ihl + 4)) (f ! (ihl + 5)) (f ! (ihl + 6)) (f ! (ihl + 7))
         = orig_seq + word_of_nat offset - word_of_nat (length prefix)"
    and "ipv4_header_checksum (take ihl f) = 0" "tcp_checksum f ihl hl = 0"
    and "f ! (ihl + 13) = (if offset + length part = n then bytes ! (ihl + 13)
                           else bytes ! (ihl + 13) AND NOT 0x08)"
    and "\<forall>i. i < ihl + hl \<and> i \<notin> {2, 3, 10, 11, ihl + 4, ihl + 5, ihl + 6, ihl + 7, ihl + 13,
           ihl + 16, ihl + 17} \<longrightarrow> f ! i = bytes ! i"
proof -
  define sq where "sq = orig_seq + word_of_nat offset - word_of_nat (length prefix)"
  define fl where "fl = (if offset + length part = n then bytes ! (ihl + 13)
      else bytes ! (ihl + 13) AND NOT 0x08)"
  define s0 where "s0 = splice (splice (splice (take (ihl + hl) bytes @ prefix @ part)
      2 (u16_to_be (word_of_nat (ihl + hl + length prefix + length part))))
      (ihl + 4) (u32_to_be sq)) (ihl + 13) [fl]"
  define s1 where "s1 = splice s0 10 (u16_to_be (ipv4_header_checksum (splice (take ihl s0) 10 [0, 0])))"
  have len0: "length s0 = ihl + hl + length prefix + length part" using ihl by (simp add: s0_def)
  then have len1: "length s1 = ihl + hl + length prefix + length part" using ihl by (simp add: s1_def)
  have f1: "f = splice s1 (ihl + 16) (u16_to_be (tcp_checksum (splice s1 (ihl + 16) [0, 0]) ihl hl))"
    using len0 ihl unfolding f build_segment_def Let_def s1_def s0_def sq_def fl_def
    by (simp add: splice_overwrite take_splice cong: if_cong)
  show lenf: "length f = ihl + hl + length prefix + length part" using len1 ihl by (simp add: f1)
  have nth: "f ! i = s0 ! i" if "i < length f" "i \<noteq> 10" "i \<noteq> 11" "i \<noteq> ihl + 16" "i \<noteq> ihl + 17" for i
    using that len0 len1 ihl lenf by (auto simp: f1 s1_def nth_splice)
  have nth0: "i < length s0 \<Longrightarrow> s0 ! i = (if i = ihl + 13 then fl
      else if ihl + 4 \<le> i \<and> i < ihl + 8 then u32_to_be sq ! (i - (ihl + 4))
      else if i = 2 \<or> i = 3 then u16_to_be (word_of_nat (ihl + hl + length prefix + length part)) ! (i - 2)
      else (take (ihl + hl) bytes @ prefix @ part) ! i)" for i
    using len0 ihl by (auto simp: s0_def nth_splice)
  show "u16_from_be (f ! 2) (f ! 3) = word_of_nat (length f)"
    using ihl by (simp add: nth nth0 lenf len0 u16_field)
  show "u32_from_be (f ! (ihl + 4)) (f ! (ihl + 5)) (f ! (ihl + 6)) (f ! (ihl + 7))
         = orig_seq + word_of_nat offset - word_of_nat (length prefix)"
    using ihl u32_from_to_be [of sq] by (simp add: nth nth0 lenf len0 sq_def)
  show "f ! (ihl + 13) = (if offset + length part = n then bytes ! (ihl + 13)
      else bytes ! (ihl + 13) AND NOT 0x08)"
    using ihl by (simp add: nth nth0 lenf len0 fl_def)
  show "\<forall>i. i < ihl + hl \<and> i \<notin> {2, 3, 10, 11, ihl + 4, ihl + 5, ihl + 6, ihl + 7, ihl + 13,
         ihl + 16, ihl + 17} \<longrightarrow> f ! i = bytes ! i"
    using ihl by (auto simp: nth nth0 lenf len0 nth_append)
  show "tcp_checksum f ihl hl = 0"
    unfolding f1 using ihl len len1 by (intro tcp_fill_verifies) simp_all
  have "take ihl f = splice (take ihl s0) 10
      (u16_to_be (ipv4_header_checksum (splice (take ihl s0) 10 [0, 0])))"
    using ihl len0 len1 unfolding f1 by (simp add: take_splice_after s1_def take_splice)
  then show "ipv4_header_checksum (take ihl f) = 0"
    using header_fill_verifies [of "take ihl s0"] ihl len0 by simp
  show "drop (ihl + hl) f = prefix @ part"
    using ihl len0 len1 unfolding f1 s1_def s0_def by (simp add: drop_splice_before)
qed

lemma sint_distance:
  assumes "a < 2 ^ 31" "b < 2 ^ 31"
  shows "sint ((x :: u32) + word_of_nat a - word_of_nat b - x) = int a - int b"
proof -
  have "x + word_of_nat a - word_of_nat b - x = word_of_int (int a - int b)" by simp
  moreover have "(int a - int b + 2 ^ 31) mod 2 ^ 32 = int a - int b + 2 ^ 31"
    using assms by (intro mod_pos_pos_trivial) simp_all
  ultimately show ?thesis by (simp only: int_word_sint) simp
qed

lemma segment_parts_nth:
  "k < length parts \<Longrightarrow> segment_parts bytes ihl hl n q prefix oi index offset parts ! k
     = build_segment bytes ihl hl n q
         (case prefix of Some p \<Rightarrow> if index + k = oi then p else [] | None \<Rightarrow> [])
         (offset + length (concat (take k parts))) (parts ! k)"
proof (induction parts arbitrary: k index offset)
  case (Cons p ps)
  then show ?case by (cases k) (simp_all add: add.assoc split: option.split)
qed simp

lemma length_segment_parts:
  "length (segment_parts bytes ihl hl n q prefix oi index offset parts) = length parts"
  by (induction parts arbitrary: index offset) auto

section \<open>The receive buffer\<close>

text \<open>A valid segment whose data is the part of the stream \<open>P\<close> at offset \<open>off\<close>.\<close>

definition carries :: "u32 \<Rightarrow> bytes \<Rightarrow> bytes \<Rightarrow> nat \<Rightarrow> bool" where
  "carries nxt P f off = (tcp_segment_ok f \<and> sint (tcp_seq_of f - nxt) = int off
     \<and> off + length (tcp_payload f) \<le> length P
     \<and> (\<forall>j < length (tcp_payload f). tcp_payload f ! j = P ! (off + j)))"

lemma receive_carried:
  "carries nxt P f off \<Longrightarrow> receive_segment nxt f buf p =
     (if int off \<le> p \<and> p < int (off + length (tcp_payload f)) then Some (P ! nat p) else buf p)"
proof -
  assume c: "carries nxt P f off"
  have "nat (p - int off) = nat p - off" if "int off \<le> p" by (simp add: that nat_diff_distrib')
  with c show ?thesis
    by (auto simp: receive_segment_def carries_def write_at_def nat_less_iff nat_diff_distrib' le_nat_iff)
qed

lemma carries_unique: "carries nxt P f a \<Longrightarrow> carries nxt P f b \<Longrightarrow> a = b"
  by (simp add: carries_def)

lemma receive_all_carried:
  assumes "\<forall>f \<in> set fs. \<exists>off. carries nxt P f off"
    and "buf p = Some (P ! nat p) \<or> (\<exists>f \<in> set fs. \<exists>off. carries nxt P f off
           \<and> int off \<le> p \<and> p < int (off + length (tcp_payload f)))"
  shows "fold (receive_segment nxt) fs buf p = Some (P ! nat p)"
  using assms
proof (induction fs arbitrary: buf)
  case (Cons f fs)
  then obtain off where off: "carries nxt P f off" by auto
  have "receive_segment nxt f buf p = Some (P ! nat p) \<or> (\<exists>g \<in> set fs. \<exists>off. carries nxt P g off
      \<and> int off \<le> p \<and> p < int (off + length (tcp_payload g)))"
    using Cons.prems(2) unfolding receive_carried [OF off] by (auto dest: carries_unique [OF off])
  with Cons.IH [of "receive_segment nxt f buf"] Cons.prems(1) show ?case by simp
qed simp

lemma receive_all_beyond:
  assumes "\<forall>f \<in> set fs. \<exists>off. carries nxt P f off" "int (length P) \<le> p"
  shows "fold (receive_segment nxt) fs buf p = buf p"
  using assms
proof (induction fs arbitrary: buf)
  case (Cons f fs)
  then obtain off where off: "carries nxt P f off" by auto
  then have "receive_segment nxt f buf p = buf p"
    using Cons.prems(2) off unfolding receive_carried [OF off] carries_def by auto
  with Cons show ?case by simp
qed simp

section \<open>All segments\<close>

text \<open>The packets the code splits.\<close>

definition is_split :: "bytes \<Rightarrow> DisorderSpec \<Rightarrow> bool" where
  "is_split bytes spec = (bytes \<noteq> [] \<and> 20 \<le> ipv4_header_len (bytes ! 0)
     \<and> ipv4_header_len (bytes ! 0) + 20 \<le> length bytes \<and> 20 \<le> tcp_hdr_of bytes
     \<and> ipv4_header_len (bytes ! 0) + tcp_hdr_of bytes \<le> length bytes
     \<and> 2 \<le> ds_segments spec \<and> ds_segments spec \<le> length (tcp_payload bytes))"

definition seg_chunk :: "bytes \<Rightarrow> DisorderSpec \<Rightarrow> nat" where
  "seg_chunk bytes spec = div_ceil (length (tcp_payload bytes)) (ds_segments spec)"

definition seg_count :: "bytes \<Rightarrow> DisorderSpec \<Rightarrow> nat" where
  "seg_count bytes spec = div_ceil (length (tcp_payload bytes)) (seg_chunk bytes spec)"

text \<open>The fake bytes that segment \<open>k\<close> of the payload carries.\<close>

definition seg_prefix :: "bytes \<Rightarrow> DisorderSpec \<Rightarrow> nat \<Rightarrow> bytes" where
  "seg_prefix bytes spec k =
     (case overlap_prefix spec (ipv4_header_len (bytes ! 0) + tcp_hdr_of bytes) (seg_chunk bytes spec) of
        Some p \<Rightarrow> if k = (if ds_reverse spec then seg_count bytes spec - 1 else 0) then p else []
      | None \<Rightarrow> [])"

definition seg_nth :: "bytes \<Rightarrow> DisorderSpec \<Rightarrow> nat \<Rightarrow> bytes" where
  "seg_nth bytes spec k = build_segment bytes (ipv4_header_len (bytes ! 0)) (tcp_hdr_of bytes)
     (length (tcp_payload bytes)) (tcp_seq_of bytes) (seg_prefix bytes spec k)
     (k * seg_chunk bytes spec)
     (take (seg_chunk bytes spec) (drop (k * seg_chunk bytes spec) (tcp_payload bytes)))"

lemma seg_chunk_pos: "is_split bytes spec \<Longrightarrow> 0 < seg_chunk bytes spec"
  by (auto simp: is_split_def seg_chunk_def div_ceil_def div_greater_zero_iff)

lemma split_tcp_payload_split:
  assumes "is_split bytes spec"
  shows "split_tcp_payload bytes spec = map (seg_nth bytes spec)
    (if ds_reverse spec then rev [0 ..< seg_count bytes spec] else [0 ..< seg_count bytes spec])"
proof -
  let ?c = "seg_chunk bytes spec" and ?P = "tcp_payload bytes"
  let ?pre = "overlap_prefix spec (ipv4_header_len (bytes ! 0) + tcp_hdr_of bytes) ?c"
  let ?oi = "if ds_reverse spec then seg_count bytes spec - 1 else 0"
  define built where "built = segment_parts bytes (ipv4_header_len (bytes ! 0)) (tcp_hdr_of bytes) (length ?P)
      (tcp_seq_of bytes) ?pre ?oi 0 0 (chunks ?c ?P)"
  have len: "length (chunks ?c ?P) = seg_count bytes spec"
    using seg_chunk_pos [OF assms] by (simp add: length_chunks seg_count_def)
  have "built = map (seg_nth bytes spec) [0 ..< seg_count bytes spec]"
    unfolding built_def
    by (rule nth_equalityI)
       (simp_all add: length_segment_parts len segment_parts_nth seg_nth_def seg_prefix_def
          nth_chunks length_concat_take_chunks seg_chunk_pos [OF assms] cong: option.case_cong)
  moreover have "split_tcp_payload bytes spec = (if ds_reverse spec then rev built else built)"
    using assms unfolding built_def split_tcp_payload_def is_split_def
    by (cases bytes) (auto simp: Let_def tcp_hdr_of_def tcp_payload_def tcp_seq_of_def
        seg_chunk_def seg_count_def)
  ultimately show ?thesis by (simp add: rev_map)
qed

lemma seg_prefix_fits:
  assumes "is_split bytes spec" "length bytes \<le> 65535"
  shows "ipv4_header_len (bytes ! 0) + tcp_hdr_of bytes + length (seg_prefix bytes spec k)
           + length (take (seg_chunk bytes spec) (drop off (tcp_payload bytes))) \<le> 65535"
proof (cases "seg_prefix bytes spec k = []")
  case True
  then show ?thesis using assms by (auto simp: is_split_def tcp_payload_def min_def)
next
  case False
  then show ?thesis
    by (auto simp: seg_prefix_def overlap_prefix_def Let_def split: option.splits if_splits)
qed

lemma seg_offset_less:
  assumes "is_split bytes spec" "k < seg_count bytes spec"
  shows "k * seg_chunk bytes spec < length (tcp_payload bytes)"
proof -
  let ?n = "length (tcp_payload bytes)" and ?c = "seg_chunk bytes spec"
  have c: "0 < ?c" by (rule seg_chunk_pos [OF assms(1)])
  have "Suc k * ?c \<le> (?n + ?c - 1) div ?c * ?c"
    using assms(2) by (intro mult_le_mono1) (simp add: seg_count_def div_ceil_def)
  also have "\<dots> \<le> ?n + ?c - 1" by simp
  finally have "k * ?c + ?c \<le> ?n + ?c - 1" by simp
  then show ?thesis using c by linarith
qed

lemma seg_nth_facts:
  assumes split: "is_split bytes spec" and len: "length bytes \<le> 65535" and k: "k < seg_count bytes spec"
    and f: "f = seg_nth bytes spec k"
  shows "tcp_segment_ok f"
    and "sint (tcp_seq_of f - tcp_seq_of bytes)
         = int (k * seg_chunk bytes spec) - int (length (seg_prefix bytes spec k))"
    and "tcp_payload f = seg_prefix bytes spec k
         @ take (seg_chunk bytes spec) (drop (k * seg_chunk bytes spec) (tcp_payload bytes))"
proof -
  let ?i = "ipv4_header_len (bytes ! 0)" and ?h = "tcp_hdr_of bytes"
  have hdr: "20 \<le> ?i" "?i \<le> 60" "20 \<le> ?h" "?i + ?h \<le> length bytes"
    using split ipv4_header_len_bound [of "bytes ! 0"] by (auto simp: is_split_def)
  note fields = build_segment_fields [OF hdr seg_prefix_fits [OF split len] f [unfolded seg_nth_def]]
  have f0: "f ! 0 = bytes ! 0" "f ! (?i + 12) = bytes ! (?i + 12)" using fields(8) hdr by auto
  then have h: "ipv4_header_len (f ! 0) = ?i" "tcp_hdr_of f = ?h" by (simp_all add: tcp_hdr_of_def)
  have flen: "length f \<le> 65535" unfolding fields(1) by (rule seg_prefix_fits [OF split len])
  have "unat (word_of_nat (length f) :: u16) = length f"
    unfolding unat_u16_of_nat using flen by (intro mod_less) simp
  then have "ipv4_header_ok f"
    unfolding ipv4_header_ok_def h total_length_of_def fields(3) using hdr(1) fields(1,5) by simp
  then show "tcp_segment_ok f" unfolding tcp_segment_ok_def h using fields(6) by simp
  show "tcp_payload f = seg_prefix bytes spec k
         @ take (seg_chunk bytes spec) (drop (k * seg_chunk bytes spec) (tcp_payload bytes))"
    using fields(2) by (simp only: tcp_payload_def [of f] h)
  have "k * seg_chunk bytes spec < 2 ^ 31" "length (seg_prefix bytes spec k) < 2 ^ 31"
    using seg_offset_less [OF split k] len flen fields(1) by (simp_all add: tcp_payload_def)
  then show "sint (tcp_seq_of f - tcp_seq_of bytes)
      = int (k * seg_chunk bytes spec) - int (length (seg_prefix bytes spec k))"
    unfolding tcp_seq_of_def [of f] Let_def h fields(4) by (rule sint_distance)
qed

lemma seg_nth_carries:
  assumes "is_split bytes spec" "length bytes \<le> 65535" "k < seg_count bytes spec" "seg_prefix bytes spec k = []"
  shows "carries (tcp_seq_of bytes) (tcp_payload bytes) (seg_nth bytes spec k) (k * seg_chunk bytes spec)"
  using seg_nth_facts [OF assms(1-3) refl] seg_offset_less [OF assms(1,3)] assms(4)
  by (auto simp: carries_def)

text \<open>
  The emission order puts the segment with the prefix first. The prefix lands outside the
  segment's own part of the stream, so that part and everything behind it is right.
\<close>

lemma receive_first:
  assumes "is_split bytes spec" "length bytes \<le> 65535" "k < seg_count bytes spec"
  defines "c \<equiv> seg_chunk bytes spec" and "P \<equiv> tcp_payload bytes"
  shows "int (k * c) \<le> p \<Longrightarrow> receive_segment (tcp_seq_of bytes) (seg_nth bytes spec k) (\<lambda>_. None) p
    = (if p < int (k * c + length (take c (drop (k * c) P))) then Some (P ! nat p) else None)"
proof -
  note facts = seg_nth_facts [OF assms(1-3) refl, folded c_def P_def]
  let ?pre = "seg_prefix bytes spec k"
  assume p: "int (k * c) \<le> p"
  then obtain j where j: "p = int (k * c + j)" by (auto simp only: zle_iff_zadd of_nat_add)
  then have np: "nat p = k * c + j" by (simp only: nat_int)
  have idx: "nat (p - (int (k * c) - int (length ?pre))) = length ?pre + j" using j by simp
  have inside: "0 \<le> p" "int (k * c) - int (length ?pre) \<le> p" using j by simp_all
  have lt: "p < int (k * c) - int (length ?pre) + int (length (?pre @ take c (drop (k * c) P)))
      \<longleftrightarrow> j < length (take c (drop (k * c) P))"
    "p < int (k * c + length (take c (drop (k * c) P))) \<longleftrightarrow> j < length (take c (drop (k * c) P))"
    using j by simp_all
  show ?thesis
    unfolding receive_segment_def write_at_def facts(2,3) if_P [OF facts(1)] lt idx np
    using inside by (auto simp: nth_append)
qed

lemma seg_count_covers:
  assumes "is_split bytes spec" "i < length (tcp_payload bytes)"
  shows "i div seg_chunk bytes spec < seg_count bytes spec"
proof -
  have "i + seg_chunk bytes spec \<le> length (tcp_payload bytes) + seg_chunk bytes spec - 1"
    using assms(2) by simp
  then have "(i + seg_chunk bytes spec) div seg_chunk bytes spec \<le> seg_count bytes spec"
    unfolding seg_count_def div_ceil_def by (rule div_le_mono)
  moreover have "(i + seg_chunk bytes spec) div seg_chunk bytes spec = Suc (i div seg_chunk bytes spec)"
    using seg_chunk_pos [OF assms(1)] by (simp only: div_add_self2)
  ultimately show ?thesis by simp
qed

text \<open>One description of both emission orders: a first segment, then the others without prefix.\<close>

lemma emission_order:
  assumes "is_split bytes spec"
  obtains k0 ks where "split_tcp_payload bytes spec = map (seg_nth bytes spec) (k0 # ks)"
    "set (k0 # ks) = {..< seg_count bytes spec}" "\<forall>k \<in> set ks. seg_prefix bytes spec k = []"
proof -
  let ?n = "seg_count bytes spec"
  have "0 < length (tcp_payload bytes)" using assms unfolding is_split_def by linarith
  then have n: "0 < ?n" using seg_count_covers [OF assms] by fastforce
  show thesis
  proof (cases "ds_reverse spec")
    case True
    have up: "[0 ..< ?n] = [0 ..< ?n - 1] @ [?n - 1]" using n by (cases ?n) auto
    show ?thesis
    proof (rule that [of "?n - 1" "rev [0 ..< ?n - 1]"])
      show "split_tcp_payload bytes spec = map (seg_nth bytes spec) ((?n - 1) # rev [0 ..< ?n - 1])"
        using True split_tcp_payload_split [OF assms] up by simp
      show "set ((?n - 1) # rev [0 ..< ?n - 1]) = {..< ?n}" using n by auto
    qed (use True in \<open>auto simp: seg_prefix_def split: option.split\<close>)
  next
    case False
    show ?thesis
    proof (rule that [of 0 "[1 ..< ?n]"])
      show "split_tcp_payload bytes spec = map (seg_nth bytes spec) (0 # [1 ..< ?n])"
        using False n split_tcp_payload_split [OF assms] by (simp add: upt_conv_Cons)
      show "set (0 # [1 ..< ?n]) = {..< ?n}" using n by auto
    qed (use False in \<open>auto simp: seg_prefix_def split: option.split\<close>)
  qed
qed

lemma receive_segments:
  assumes "is_split bytes spec" "length bytes \<le> 65535"
  shows "receive_all (tcp_seq_of bytes) (split_tcp_payload bytes spec) (int i)
         = (if i < length (tcp_payload bytes) then Some (tcp_payload bytes ! i) else None)"
proof -
  let ?P = "tcp_payload bytes" and ?c = "seg_chunk bytes spec" and ?q = "tcp_seq_of bytes"
  obtain k0 ks where es: "split_tcp_payload bytes spec = map (seg_nth bytes spec) (k0 # ks)"
    and all: "set (k0 # ks) = {..< seg_count bytes spec}"
    and ks: "\<forall>k \<in> set ks. seg_prefix bytes spec k = []"
    by (rule emission_order [OF assms(1)])
  let ?fs = "map (seg_nth bytes spec) ks"
  let ?b0 = "receive_segment ?q (seg_nth bytes spec k0) (\<lambda>_. None)"
  have k0: "k0 < seg_count bytes spec" using all by auto
  have carried: "carries ?q ?P (seg_nth bytes spec k) (k * ?c)" if "k \<in> set ks" for k
    using that ks all by (intro seg_nth_carries assms) auto
  then have rest: "\<forall>f \<in> set ?fs. \<exists>off. carries ?q ?P f off" by auto
  have recv: "receive_all ?q (split_tcp_payload bytes spec) p = fold (receive_segment ?q) ?fs ?b0 p" for p
    by (simp add: receive_all_def es)
  note first = receive_first [OF assms k0]
  show ?thesis
  proof (cases "i < length ?P")
    case True
    let ?k = "i div ?c"
    have c: "0 < ?c" by (rule seg_chunk_pos [OF assms(1)])
    have range: "?k * ?c \<le> i" "i < ?k * ?c + length (take ?c (drop (?k * ?c) ?P))"
      using True c dividend_less_div_times [of ?c i] by (auto simp: add.commute)
    have "?k \<in> set (k0 # ks)" using seg_count_covers [OF assms(1) True] all by auto
    then have "?b0 (int i) = Some (?P ! nat (int i)) \<or> (\<exists>f \<in> set ?fs. \<exists>off. carries ?q ?P f off
        \<and> int off \<le> int i \<and> int i < int (off + length (tcp_payload f)))"
    proof (cases "?k = k0")
      case True
      have "int (?k * ?c) \<le> int i" "int i < int (?k * ?c + length (take ?c (drop (?k * ?c) ?P)))"
        using range by (simp_all only: of_nat_le_iff of_nat_less_iff)
      then have "?b0 (int i) = Some (?P ! nat (int i))" unfolding True
        by (subst first) simp_all
      then show ?thesis by (rule disjI1)
    next
      case False
      with \<open>?k \<in> set (k0 # ks)\<close> have k: "?k \<in> set ks" by simp
      then have "tcp_payload (seg_nth bytes spec ?k) = take ?c (drop (?k * ?c) ?P)"
        using seg_nth_facts(3) [OF assms _ refl, of ?k] ks all by auto
      then have "carries ?q ?P (seg_nth bytes spec ?k) (?k * ?c) \<and> int (?k * ?c) \<le> int i
          \<and> int i < int (?k * ?c + length (tcp_payload (seg_nth bytes spec ?k)))"
        using carried [OF k] range by (simp only: of_nat_le_iff of_nat_less_iff)
      moreover have "seg_nth bytes spec ?k \<in> set ?fs" using k by simp
      ultimately show ?thesis by blast
    qed
    from receive_all_carried [where p = "int i" and buf = "?b0", OF rest this] True show ?thesis
      by (simp add: recv)
  next
    case False
    have "k0 * ?c \<le> i" "\<not> i < k0 * ?c + length (take ?c (drop (k0 * ?c) ?P))"
      using False seg_offset_less [OF assms(1) k0] by simp_all
    then have "int (k0 * ?c) \<le> int i"
      "\<not> int i < int (k0 * ?c + length (take ?c (drop (k0 * ?c) ?P)))"
      by (simp_all only: of_nat_le_iff of_nat_less_iff not_False_eq_True)
    then have "?b0 (int i) = None" by (subst first) (simp_all only: if_False)
    then show ?thesis using False receive_all_beyond [OF rest, of "int i" ?b0] by (simp add: recv)
  qed
qed

text \<open>
  C13. TCP segmentation is invisible to the destination: for every TCP/IPv4 packet of at most 65535
  bytes that the code splits, in order or in reverse, with or without a fake overlap
  prefix, a TCP stack that validates both checksums and keeps the last copy of each byte ends
  with exactly the original payload at the original sequence number and nothing behind it.
\<close>

theorem segments_deliver_payload:
  assumes "is_split bytes spec" "length bytes \<le> 65535"
  shows "receive_all (tcp_seq_of bytes) (split_tcp_payload bytes spec) (int i)
         = (if i < length (tcp_payload bytes) then Some (tcp_payload bytes ! i) else None)"
  using assms by (rule receive_segments)

lemma segments_deliver_payload_witness:
  "receive_all 0 (split_tcp_payload
     ([0x45] @ replicate 31 0 @ [0x50] @ replicate 7 0 @ [1, 2, 3, 4, 5])
     \<lparr>ds_segments = 2, ds_reverse = True, ds_delay_ms = 0,
      ds_overlap = Some \<lparr>ov_bytes = 2, ov_pattern = Some [9], ov_seed = 0\<rparr>\<rparr>) (int 2) = Some 3"
proof -
  let ?b = "[0x45] @ replicate 31 0 @ [0x50] @ replicate 7 0 @ [1, 2, 3, 4, 5] :: bytes"
  let ?s = "\<lparr>ds_segments = 2, ds_reverse = True, ds_delay_ms = 0,
      ds_overlap = Some \<lparr>ov_bytes = 2, ov_pattern = Some [9], ov_seed = 0\<rparr>\<rparr>"
  have "is_split ?b ?s" "tcp_payload ?b = [1, 2, 3, 4, 5]" "tcp_seq_of ?b = 0" by code_simp+
  then show ?thesis using segments_deliver_payload [of ?b ?s 2] by simp
qed

end
