(* ===== verification/Config.thy ===== *)
theory Config
  imports Splitmix Complex_Main
begin

text \<open>
  The configuration, src/crates/zerodpi-core/src/config.rs: ranges and their text form, the method
  list with its aliases, the fields the modelled components read, and the checks of \<^verbatim>\<open>validate\<close>.
  Text is a list of 8-bit characters; whitespace is the ASCII whitespace. The deserialiser of
  the TOML file is not modelled: a configuration is a value of the record.
\<close>

section \<open>Text\<close>

definition is_ws :: "char \<Rightarrow> bool" where
  "is_ws c = (c = CHR '' '' \<or> (9 \<le> (of_char c :: nat) \<and> (of_char c :: nat) \<le> 13))"

definition trim :: "string \<Rightarrow> string" where
  "trim s = rev (dropWhile is_ws (rev (dropWhile is_ws s)))"

text \<open>\<^verbatim>\<open>split_once(c)\<close> and \<^verbatim>\<open>split(c)\<close>.\<close>

fun split_once :: "char \<Rightarrow> string \<Rightarrow> (string \<times> string) option" where
  "split_once c [] = None"
| "split_once c (x # xs) = (if x = c then Some ([], xs)
     else map_option (\<lambda>(a, b). (x # a, b)) (split_once c xs))"

fun split_on :: "char \<Rightarrow> string \<Rightarrow> string list" where
  "split_on c [] = [[]]"
| "split_on c (x # xs) = (if x = c then [] # split_on c xs
     else (case split_on c xs of [] \<Rightarrow> [[x]] | y # ys \<Rightarrow> (x # y) # ys))"

definition to_ascii_lowercase_char :: "char \<Rightarrow> char" where
  "to_ascii_lowercase_char c = (let n = of_char c :: nat in
     if 65 \<le> n \<and> n \<le> 90 then char_of (n + 32) else c)"

definition eq_ignore_ascii_case :: "string \<Rightarrow> string \<Rightarrow> bool" where
  "eq_ignore_ascii_case a b = (map to_ascii_lowercase_char a = map to_ascii_lowercase_char b)"

text \<open>\<^verbatim>\<open>str::parse::<i32>\<close> and \<^verbatim>\<open>str::parse::<u32>\<close>: an optional sign, then at least one digit, no overflow.\<close>

definition digit_val :: "char \<Rightarrow> nat option" where
  "digit_val c = (let n = of_char c :: nat in if 48 \<le> n \<and> n \<le> 57 then Some (n - 48) else None)"

fun parse_digits :: "nat \<Rightarrow> string \<Rightarrow> nat option" where
  "parse_digits acc [] = Some acc"
| "parse_digits acc (c # cs) =
     (case digit_val c of None \<Rightarrow> None | Some d \<Rightarrow> parse_digits (acc * 10 + d) cs)"

definition parse_nat :: "string \<Rightarrow> nat option" where
  "parse_nat s = (if s = [] then None else parse_digits 0 s)"

definition parse_i32 :: "string \<Rightarrow> int option" where
  "parse_i32 s = (case s of
     c # cs \<Rightarrow> (if c = CHR ''-'' then
         (case parse_nat cs of Some n \<Rightarrow> if n \<le> 2 ^ 31 then Some (- int n) else None | None \<Rightarrow> None)
       else if c = CHR ''+'' then
         (case parse_nat cs of Some n \<Rightarrow> if n < 2 ^ 31 then Some (int n) else None | None \<Rightarrow> None)
       else (case parse_nat s of Some n \<Rightarrow> if n < 2 ^ 31 then Some (int n) else None | None \<Rightarrow> None))
   | [] \<Rightarrow> None)"

definition parse_u32 :: "string \<Rightarrow> nat option" where
  "parse_u32 s = (case s of
     c # cs \<Rightarrow> (let ds = (if c = CHR ''+'' then cs else s) in
       (case parse_nat ds of Some n \<Rightarrow> if n < 2 ^ 32 then Some n else None | None \<Rightarrow> None))
   | [] \<Rightarrow> None)"

text \<open>\<^verbatim>\<open>Display\<close> of a number.\<close>

fun show_nat :: "nat \<Rightarrow> string" where
  "show_nat n = (if n < 10 then [char_of (48 + n)] else show_nat (n div 10) @ [char_of (48 + n mod 10)])"

declare show_nat.simps [simp del]

definition show_int :: "int \<Rightarrow> string" where
  "show_int n = (if n < 0 then CHR ''-'' # show_nat (nat (- n)) else show_nat (nat n))"

section \<open>Ranges\<close>

datatype RangeError = RangeEmpty | RangeNotInt string | RangeInverted string

definition parse_range :: "string \<Rightarrow> RangeError + Int32Range" where
  "parse_range input = (let input = trim input in
     if input = [] then Inl RangeEmpty
     else (case split_once (CHR ''-'') input of
       Some (start, end') \<Rightarrow>
         (case parse_i32 (trim start) of
            None \<Rightarrow> Inl (RangeNotInt (trim start))
          | Some mn \<Rightarrow>
            (case parse_i32 (trim end') of
               None \<Rightarrow> Inl (RangeNotInt (trim end'))
             | Some mx \<Rightarrow> if mx < mn then Inl (RangeInverted input)
                          else Inr \<lparr>range_min = mn, range_max = mx\<rparr>))
     | None \<Rightarrow>
         (case parse_i32 input of
            None \<Rightarrow> Inl (RangeNotInt input)
          | Some v \<Rightarrow> Inr (exact v))))"

definition validate_at_least :: "Int32Range \<Rightarrow> int \<Rightarrow> bool" where
  "validate_at_least r v = (\<not> range_min r < v)"

definition show_range :: "Int32Range \<Rightarrow> string" where
  "show_range r = (if range_min r = range_max r then show_int (range_min r)
     else show_int (range_min r) @ ''-'' @ show_int (range_max r))"

datatype TlsFragPackets = TlsHello | WriteRange nat nat

datatype PacketsError = NotAnIndex string | ZeroIndex | PacketsInverted string

definition parse_packet_index :: "string \<Rightarrow> PacketsError + nat" where
  "parse_packet_index v = (case parse_u32 (trim v) of
     None \<Rightarrow> Inl (NotAnIndex v) | Some n \<Rightarrow> if n = 0 then Inl ZeroIndex else Inr n)"

definition parse_tls_frag_packets :: "string \<Rightarrow> PacketsError + TlsFragPackets" where
  "parse_tls_frag_packets input = (let input = trim input in
     if eq_ignore_ascii_case input ''tlshello'' then Inr TlsHello
     else (case (case split_once (CHR ''-'') input of
              Some (start, end') \<Rightarrow> (case parse_packet_index start of Inl e \<Rightarrow> Inl e
                | Inr a \<Rightarrow> (case parse_packet_index end' of Inl e \<Rightarrow> Inl e | Inr b \<Rightarrow> Inr (a, b)))
            | None \<Rightarrow> (case parse_packet_index input of Inl e \<Rightarrow> Inl e | Inr a \<Rightarrow> Inr (a, a))) of
         Inl e \<Rightarrow> Inl e
       | Inr (start, end') \<Rightarrow> if end' < start then Inl (PacketsInverted input)
                             else Inr (WriteRange start end')))"

fun includes_write :: "TlsFragPackets \<Rightarrow> nat \<Rightarrow> bool" where
  "includes_write TlsHello i = False"
| "includes_write (WriteRange start end') i = (start \<le> i \<and> i \<le> end')"

datatype SniSplitPosition = PosMiddle | PosStart | PosEnd | PosIndex u16

datatype SniBoundarySplitPoint = ExtensionLength | PointMiddle | PointIndex u16

section \<open>Method lists\<close>

definition BASE_BYPASS_METHODS :: "string list" where
  "BASE_BYPASS_METHODS = [''wrong_seq'', ''wrong_ack'', ''wrong_checksum'', ''wrong_md5'',
     ''wrong_timestamp'', ''low_ttl'', ''tls_record_frag'', ''tls_record_split'', ''fake_tls'',
     ''ip_frag'', ''disorder'', ''seqovl'', ''tls_frag'', ''ccs_prefix'', ''tls_padding'',
     ''mixed_case_sni'', ''urg_sni_split'', ''sni_boundary_frag'']"

definition EMISSION_SHAPERS :: "string list" where
  "EMISSION_SHAPERS = [''ip_frag'', ''disorder'', ''seqovl'']"

definition expand_method_alias :: "string \<Rightarrow> string list" where
  "expand_method_alias name =
     (if name = ''wrong_seq_wrong_md5'' then [''wrong_seq'', ''wrong_md5'']
      else if name = ''wrong_seq_tls_frag'' then [''wrong_seq'', ''tls_frag'']
      else if name = ''wrong_md5_tls_frag'' then [''wrong_md5'', ''tls_frag'']
      else if name = ''wrong_seq_tls_record_frag'' then [''wrong_seq'', ''tls_record_frag'']
      else [name])"

definition from_delimited :: "string \<Rightarrow> string list" where
  "from_delimited input =
     concat (map expand_method_alias (filter (\<lambda>s. s \<noteq> []) (map trim (split_on (CHR '','') input))))"

definition socket_side :: "string \<Rightarrow> bool" where
  "socket_side m = (m \<in> {''tls_frag'', ''ccs_prefix'', ''tls_padding'', ''mixed_case_sni'',
     ''sni_boundary_frag'', ''tls_record_split''})"

definition is_socket_only :: "string list \<Rightarrow> bool" where
  "is_socket_only ms = (ms \<noteq> [] \<and> list_all socket_side ms)"

definition requires_interceptor :: "string list \<Rightarrow> bool" where
  "requires_interceptor ms = list_ex (\<lambda>m. \<not> socket_side m) ms"

section \<open>Fields\<close>

text \<open>An \<^verbatim>\<open>f64\<close> as far as the checks look at it.\<close>

datatype F64 = Finite rat | Infinite bool | NaN

definition finite_positive :: "F64 \<Rightarrow> bool" where
  "finite_positive x = (case x of Finite v \<Rightarrow> 0 < v | _ \<Rightarrow> False)"

datatype SelectionStrategy = Random | RoundRobin | LeastPing | LeastLoad

text \<open>
  The struct \<^verbatim>\<open>Config\<close>, one record per section of the source, each extending the one before. Fields that
  only name files or hosts for the scanners are left out.
\<close>

record ConfigGeneral =
  CLOUDFLARE_ONLY :: bool
  LISTEN_PORT :: u16
  TCP_NODELAY :: bool
  CUSTOM_DNS_ENABLED :: bool
  CUSTOM_DNS_SERVERS :: "string list"
  SCAN_TIMEOUT_SECS :: nat
  DEDUPLICATE_SCAN_LISTS :: bool
  AUTO_SELECT :: bool
  LOAD_BALANCE_ENABLED :: bool
  LOAD_BALANCE_TARGET_COUNT :: nat
  LOAD_BALANCE_STRATEGY :: SelectionStrategy
  LOAD_BALANCE_PING_INTERVAL_SECS :: nat
  RESCAN_INTERVAL_SECS :: nat
  SNI_SWITCH_MIN_SCORE :: nat
  SELECTED_SNI :: "string option"
  BYPASS_METHOD :: "string list"
  NFQUEUE_NUM :: u16
  LINUX_FIREWALL_BACKEND :: string

record ConfigHandshake = ConfigGeneral +
  WRONG_SEQ_EXTRA_OFFSET :: u32
  WRONG_SEQ_SET_PSH :: bool
  WRONG_SEQ_BUMP_IP_IDENT :: bool
  WRONG_CHECKSUM_DELTA :: u16
  WRONG_CHECKSUM_SET_PSH :: bool
  WRONG_CHECKSUM_BUMP_IP_IDENT :: bool
  WRONG_CHECKSUM_COMPLETE_IMMEDIATELY :: bool
  LOW_TTL_VALUE :: u8
  LOW_TTL_SET_PSH :: bool
  LOW_TTL_BUMP_IP_IDENT :: bool
  LOW_TTL_COMPLETE_IMMEDIATELY :: bool
  LOW_TTL_DISCOVER :: bool
  LOW_TTL_DISCOVER_MAX :: u8
  LOW_TTL_DISCOVER_TIMEOUT_MS :: nat
  WRONG_MD5_SET_PSH :: bool
  WRONG_MD5_BUMP_IP_IDENT :: bool
  WRONG_MD5_COMPLETE_IMMEDIATELY :: bool

record ConfigHandshake2 = ConfigHandshake +
  WRONG_ACK_OFFSET :: u32
  WRONG_ACK_SET_PSH :: bool
  WRONG_ACK_BUMP_IP_IDENT :: bool
  WRONG_ACK_COMPLETE_IMMEDIATELY :: bool
  WRONG_TIMESTAMP_OFFSET :: u32
  WRONG_TIMESTAMP_SET_PSH :: bool
  WRONG_TIMESTAMP_BUMP_IP_IDENT :: bool
  WRONG_TIMESTAMP_COMPLETE_IMMEDIATELY :: bool

record ConfigRecord = ConfigHandshake2 +
  TLS_RECORD_FRAG_SIZE :: nat
  TLS_RECORD_FRAG_SET_PSH :: bool
  TLS_RECORD_FRAG_BUMP_IP_IDENT :: bool
  TLS_RECORD_SPLIT_POINT :: SniBoundarySplitPoint
  TLS_RECORD_SPLIT_DELAY_MS :: Int32Range
  FAKE_TLS_EXTRA_OFFSET :: u32
  FAKE_TLS_SET_PSH :: bool
  FAKE_TLS_BUMP_IP_IDENT :: bool
  FAKE_TLS_COMPLETE_IMMEDIATELY :: bool
  FAKE_TLS_FORWARD_REAL :: bool
  FAKE_TLS_REPEATS :: nat
  FAKE_TLS_CHAIN_DELAY_MS :: Int32Range

record ConfigShapers = ConfigRecord +
  IP_FRAG_SIZE :: nat
  IP_FRAG_ONLY_FIRST_PACKET :: bool
  DISORDER_SEGMENTS :: nat
  DISORDER_DELAY_MS :: nat
  DISORDER_REVERSE :: bool
  DISORDER_ONLY_FIRST_PACKET :: bool
  SEQOVL_SIZE :: "nat option"
  SEQOVL_PATTERN :: "string option"
  SEQOVL_SEGMENTS :: nat
  SEQOVL_REVERSE :: bool
  SEQOVL_DELAY_MS :: nat
  SNI_SPLIT_DUMMY_BYTE :: u8
  SNI_SPLIT_POSITION :: SniSplitPosition

record ConfigSocket = ConfigShapers +
  SNI_BOUNDARY_FRAG_SPLIT_POINT :: SniBoundarySplitPoint
  SNI_BOUNDARY_FRAG_DELAY_MS :: Int32Range
  TLS_FRAG_PACKETS :: string
  TLS_FRAG_LENGTH :: "Int32Range option"
  TLS_FRAG_INTERVAL_MS :: Int32Range
  TCP_SEG_SIZE :: nat
  TCP_SEG_NODELAY :: bool
  TLS_PADDING_SIZE :: Int32Range
  TLS_PADDING_POSITION :: string
  MIXED_CASE_SNI_FLIP_ALL :: bool
  CCS_PREFIX_RECORD_VERSION :: string
  BYPASS_TIMEOUT_SECS :: nat
  RELAY_MAX_LIFETIME_SECS :: nat
  MODE :: string

record Config = ConfigSocket +
  METHOD_SCAN_METHODS :: "string list"
  METHOD_SCAN_SAMPLES :: nat
  METHOD_SCAN_INTERVAL_MS :: nat
  METHOD_SCAN_TIMEOUT_SECS :: nat
  SNI_MAX_CONCURRENT :: nat
  IP_MAX_P1_CONCURRENT :: nat
  IP_MAX_P2_CONCURRENT :: nat
  SCAN_DOWNLOAD_CAP :: nat
  SCAN_UPLOAD_CAP :: nat
  SCAN_UPLOAD_PATH :: string
  TCP_LATENCY_CAP_MS :: F64
  TLS_LATENCY_CAP_MS :: F64
  TTFB_CAP_MS :: F64
  SPEED_CAP_BPS :: F64
  UPLOAD_SPEED_CAP_BPS :: F64
  PROXY_TEST_TIMEOUT_SECS :: nat
  PROXY_TEST_SNI_WEIGHT :: F64
  PROXY_TEST_LATENCY_CAP_MS :: F64
  PROXY_TEST_TTFB_CAP_MS :: F64

text \<open>The configuration that a file with no optional key gives: the serde defaults of every field.\<close>

definition default_config :: "u16 \<Rightarrow> Config" where
  "default_config port = \<lparr>
     CLOUDFLARE_ONLY = True, LISTEN_PORT = port, TCP_NODELAY = True, CUSTOM_DNS_ENABLED = False,
     CUSTOM_DNS_SERVERS = [], SCAN_TIMEOUT_SECS = 5, DEDUPLICATE_SCAN_LISTS = True, AUTO_SELECT = False,
     LOAD_BALANCE_ENABLED = False, LOAD_BALANCE_TARGET_COUNT = 10, LOAD_BALANCE_STRATEGY = RoundRobin,
     LOAD_BALANCE_PING_INTERVAL_SECS = 60, RESCAN_INTERVAL_SECS = 0, SNI_SWITCH_MIN_SCORE = 1,
     SELECTED_SNI = None, BYPASS_METHOD = from_delimited ''wrong_seq, tls_frag'', NFQUEUE_NUM = 1,
     LINUX_FIREWALL_BACKEND = ''iptables'',
     WRONG_SEQ_EXTRA_OFFSET = 0, WRONG_SEQ_SET_PSH = True, WRONG_SEQ_BUMP_IP_IDENT = True,
     WRONG_CHECKSUM_DELTA = 1, WRONG_CHECKSUM_SET_PSH = True, WRONG_CHECKSUM_BUMP_IP_IDENT = True,
     WRONG_CHECKSUM_COMPLETE_IMMEDIATELY = True,
     LOW_TTL_VALUE = 5, LOW_TTL_SET_PSH = True, LOW_TTL_BUMP_IP_IDENT = True,
     LOW_TTL_COMPLETE_IMMEDIATELY = True, LOW_TTL_DISCOVER = True, LOW_TTL_DISCOVER_MAX = 32,
     LOW_TTL_DISCOVER_TIMEOUT_MS = 5000,
     WRONG_MD5_SET_PSH = True, WRONG_MD5_BUMP_IP_IDENT = True, WRONG_MD5_COMPLETE_IMMEDIATELY = True,
     WRONG_ACK_OFFSET = 1, WRONG_ACK_SET_PSH = True, WRONG_ACK_BUMP_IP_IDENT = True,
     WRONG_ACK_COMPLETE_IMMEDIATELY = True,
     WRONG_TIMESTAMP_OFFSET = 1, WRONG_TIMESTAMP_SET_PSH = True, WRONG_TIMESTAMP_BUMP_IP_IDENT = True,
     WRONG_TIMESTAMP_COMPLETE_IMMEDIATELY = True,
     TLS_RECORD_FRAG_SIZE = 1, TLS_RECORD_FRAG_SET_PSH = True, TLS_RECORD_FRAG_BUMP_IP_IDENT = True,
     TLS_RECORD_SPLIT_POINT = ExtensionLength, TLS_RECORD_SPLIT_DELAY_MS = exact 0,
     FAKE_TLS_EXTRA_OFFSET = 0, FAKE_TLS_SET_PSH = True, FAKE_TLS_BUMP_IP_IDENT = True,
     FAKE_TLS_COMPLETE_IMMEDIATELY = True, FAKE_TLS_FORWARD_REAL = True, FAKE_TLS_REPEATS = 1,
     FAKE_TLS_CHAIN_DELAY_MS = exact 0,
     IP_FRAG_SIZE = 24, IP_FRAG_ONLY_FIRST_PACKET = True,
     DISORDER_SEGMENTS = 2, DISORDER_DELAY_MS = 0, DISORDER_REVERSE = True, DISORDER_ONLY_FIRST_PACKET = True,
     SEQOVL_SIZE = None, SEQOVL_PATTERN = None, SEQOVL_SEGMENTS = 2, SEQOVL_REVERSE = False, SEQOVL_DELAY_MS = 0,
     SNI_SPLIT_DUMMY_BYTE = 0, SNI_SPLIT_POSITION = PosMiddle,
     SNI_BOUNDARY_FRAG_SPLIT_POINT = ExtensionLength,
     SNI_BOUNDARY_FRAG_DELAY_MS = \<lparr>range_min = 5, range_max = 10\<rparr>,
     TLS_FRAG_PACKETS = ''1-3'', TLS_FRAG_LENGTH = Some \<lparr>range_min = 100, range_max = 200\<rparr>,
     TLS_FRAG_INTERVAL_MS = \<lparr>range_min = 10, range_max = 20\<rparr>, TCP_SEG_SIZE = 1, TCP_SEG_NODELAY = True,
     TLS_PADDING_SIZE = \<lparr>range_min = 1500, range_max = 2500\<rparr>, TLS_PADDING_POSITION = ''before'',
     MIXED_CASE_SNI_FLIP_ALL = False, CCS_PREFIX_RECORD_VERSION = ''0x0303'',
     BYPASS_TIMEOUT_SECS = 20, RELAY_MAX_LIFETIME_SECS = 0, MODE = ''sni_spoof'',
     METHOD_SCAN_METHODS = BASE_BYPASS_METHODS, METHOD_SCAN_SAMPLES = 3, METHOD_SCAN_INTERVAL_MS = 1000,
     METHOD_SCAN_TIMEOUT_SECS = 10,
     SNI_MAX_CONCURRENT = 64, IP_MAX_P1_CONCURRENT = 128, IP_MAX_P2_CONCURRENT = 32,
     SCAN_DOWNLOAD_CAP = 10240, SCAN_UPLOAD_CAP = 10240, SCAN_UPLOAD_PATH = ''/'',
     TCP_LATENCY_CAP_MS = Finite 500, TLS_LATENCY_CAP_MS = Finite 1000, TTFB_CAP_MS = Finite 2000,
     SPEED_CAP_BPS = Finite 2048000, UPLOAD_SPEED_CAP_BPS = Finite 2048000,
     PROXY_TEST_TIMEOUT_SECS = 30, PROXY_TEST_SNI_WEIGHT = Finite (1 / 2),
     PROXY_TEST_LATENCY_CAP_MS = Finite 500, PROXY_TEST_TTFB_CAP_MS = Finite 3000\<rparr>"

section \<open>Values with a text form of their own\<close>

text \<open>\<^verbatim>\<open>parse_hex_pattern\<close> and \<^verbatim>\<open>hex_digit\<close> of methods/seqovl.rs.\<close>

datatype HexError = HexEmpty | HexOdd nat | HexDigit char

definition hex_digit :: "char \<Rightarrow> HexError + nat" where
  "hex_digit c = (let n = of_char c :: nat in
     if 48 \<le> n \<and> n \<le> 57 then Inr (n - 48)
     else if 97 \<le> n \<and> n \<le> 102 then Inr (n - 97 + 10)
     else if 65 \<le> n \<and> n \<le> 70 then Inr (n - 65 + 10)
     else Inl (HexDigit c))"

fun hex_pairs :: "string \<Rightarrow> HexError + bytes" where
  "hex_pairs (a # b # cs) = (case hex_digit a of Inl e \<Rightarrow> Inl e
     | Inr hi \<Rightarrow> (case hex_digit b of Inl e \<Rightarrow> Inl e
       | Inr lo \<Rightarrow> (case hex_pairs cs of Inl e \<Rightarrow> Inl e
         | Inr out \<Rightarrow> Inr (word_of_nat (hi * 16 + lo) # out))))"
| "hex_pairs _ = Inr []"

definition strip_hex_prefix :: "string \<Rightarrow> string" where
  "strip_hex_prefix s = (if take 2 s = ''0x'' \<or> take 2 s = ''0X'' then drop 2 s else s)"

definition parse_hex_pattern :: "string \<Rightarrow> HexError + bytes" where
  "parse_hex_pattern input = (let
     body = strip_hex_prefix (trim input);
     digits = filter (\<lambda>c. c \<notin> {CHR '':'', CHR ''-'', CHR ''_'', CHR '' ''}) body
   in if digits = [] then Inl HexEmpty
      else if length digits mod 2 \<noteq> 0 then Inl (HexOdd (length digits))
      else hex_pairs digits)"

text \<open>\<^verbatim>\<open>parse_record_version\<close> of methods/ccs_prefix.rs.\<close>

definition parse_record_version :: "string \<Rightarrow> string + bytes" where
  "parse_record_version input = (let hex = strip_hex_prefix (trim input) in
     if length hex \<noteq> 4 then Inl input
     else (case hex_pairs hex of Inl e \<Rightarrow> Inl input | Inr bs \<Rightarrow> Inr bs))"

text \<open>\<^verbatim>\<open>PaddingPosition\<close> of methods/tls_padding.rs.\<close>

datatype PaddingPosition = Before | After

definition parse_padding_position :: "string \<Rightarrow> PaddingPosition option" where
  "parse_padding_position input = (let s = map to_ascii_lowercase_char (trim input) in
     if s = ''before'' then Some Before else if s = ''after'' then Some After else None)"

datatype LinuxFirewallBackend = Iptables | Nftables

definition parse_firewall_backend :: "string \<Rightarrow> LinuxFirewallBackend option" where
  "parse_firewall_backend s = (if s = ''iptables'' then Some Iptables
     else if s = ''nftables'' then Some Nftables else None)"

definition firewall_backend_str :: "LinuxFirewallBackend \<Rightarrow> string" where
  "firewall_backend_str b = (case b of Iptables \<Rightarrow> ''iptables'' | Nftables \<Rightarrow> ''nftables'')"

record FilterSpec =
  fs_interface_ip :: ipv4
  fs_remote_ip :: "ipv4 option"
  fs_remote_port :: u16
  fs_queue_num :: u16
  fs_linux_firewall_backend :: LinuxFirewallBackend
  fs_firewall_owner :: "string option"

definition tls_frag_length_range :: "('a) ConfigSocket_scheme \<Rightarrow> Int32Range option" where
  "tls_frag_length_range c = (case TLS_FRAG_LENGTH c of Some r \<Rightarrow> Some r
     | None \<Rightarrow> if TCP_SEG_SIZE c < 2 ^ 31 then Some (exact (int (TCP_SEG_SIZE c))) else None)"

section \<open>Validation\<close>

text \<open>
  The checks of \<^verbatim>\<open>Config::validate\<close> in their order; \<open>None\<close> is \<^verbatim>\<open>Ok(())\<close>, \<open>Some e\<close> the first
  error. The bound \<^verbatim>\<open>tokio::sync::Semaphore::MAX_PERMITS\<close> is an argument. The checks of the DNS servers
  and of \<^verbatim>\<open>SELECTED_IP\<close>, which parse socket and IP addresses, are in \<open>Config_Addresses\<close>.
\<close>

datatype ConfigError =
    OutOfRange string
  | EmptyMethods string
  | UnknownMethod string
  | DuplicateMethod string
  | Conflict string
  | Malformed string

fun first_error :: "(bool \<times> ConfigError) list \<Rightarrow> ConfigError option" where
  "first_error [] = None"
| "first_error ((bad, e) # rest) = (if bad then Some e else first_error rest)"

definition or_else :: "ConfigError option \<Rightarrow> ConfigError option \<Rightarrow> ConfigError option" where
  "or_else a b = (case a of Some e \<Rightarrow> Some e | None \<Rightarrow> b)"

definition validate_caps :: "nat \<Rightarrow> Config \<Rightarrow> ConfigError option" where
  "validate_caps max_permits c = first_error [
     (LOAD_BALANCE_TARGET_COUNT c = 0, OutOfRange ''LOAD_BALANCE_TARGET_COUNT''),
     (LOAD_BALANCE_PING_INTERVAL_SECS c = 0, OutOfRange ''LOAD_BALANCE_PING_INTERVAL_SECS''),
     (SNI_MAX_CONCURRENT c = 0 \<or> max_permits < SNI_MAX_CONCURRENT c, OutOfRange ''SNI_MAX_CONCURRENT''),
     (IP_MAX_P1_CONCURRENT c = 0 \<or> max_permits < IP_MAX_P1_CONCURRENT c, OutOfRange ''IP_MAX_P1_CONCURRENT''),
     (IP_MAX_P2_CONCURRENT c = 0 \<or> max_permits < IP_MAX_P2_CONCURRENT c, OutOfRange ''IP_MAX_P2_CONCURRENT''),
     (\<not> finite_positive (TCP_LATENCY_CAP_MS c), OutOfRange ''TCP_LATENCY_CAP_MS''),
     (\<not> finite_positive (TLS_LATENCY_CAP_MS c), OutOfRange ''TLS_LATENCY_CAP_MS''),
     (\<not> finite_positive (TTFB_CAP_MS c), OutOfRange ''TTFB_CAP_MS''),
     (\<not> finite_positive (PROXY_TEST_LATENCY_CAP_MS c), OutOfRange ''PROXY_TEST_LATENCY_CAP_MS''),
     (\<not> finite_positive (PROXY_TEST_TTFB_CAP_MS c), OutOfRange ''PROXY_TEST_TTFB_CAP_MS'')]"

text \<open>The loop over a method list with its \<^verbatim>\<open>HashSet\<close> of names seen.\<close>

fun check_methods :: "string list \<Rightarrow> string list \<Rightarrow> ConfigError option" where
  "check_methods seen [] = None"
| "check_methods seen (m # ms) =
     (if m \<notin> set BASE_BYPASS_METHODS then Some (UnknownMethod m)
      else if m \<in> set seen then Some (DuplicateMethod m)
      else check_methods (m # seen) ms)"

definition validate_scan :: "Config \<Rightarrow> ConfigError option" where
  "validate_scan c =
     or_else (first_error [
       (SCAN_TIMEOUT_SECS c = 0, OutOfRange ''SCAN_TIMEOUT_SECS''),
       (METHOD_SCAN_SAMPLES c = 0, OutOfRange ''METHOD_SCAN_SAMPLES''),
       (METHOD_SCAN_TIMEOUT_SECS c = 0, OutOfRange ''METHOD_SCAN_TIMEOUT_SECS''),
       (METHOD_SCAN_METHODS c = [], EmptyMethods ''METHOD_SCAN_METHODS'')])
     (or_else (check_methods [] (METHOD_SCAN_METHODS c))
     (first_error [
       (BYPASS_TIMEOUT_SECS c = 0, OutOfRange ''BYPASS_TIMEOUT_SECS''),
       (100 < SNI_SWITCH_MIN_SCORE c, OutOfRange ''SNI_SWITCH_MIN_SCORE''),
       (SCAN_DOWNLOAD_CAP c = 0, OutOfRange ''SCAN_DOWNLOAD_CAP''),
       (SCAN_UPLOAD_CAP c = 0, OutOfRange ''SCAN_UPLOAD_CAP''),
       (SCAN_UPLOAD_PATH c = [] \<or> hd (SCAN_UPLOAD_PATH c) \<noteq> CHR ''/''
          \<or> CHR 0x0D \<in> set (SCAN_UPLOAD_PATH c) \<or> CHR 0x0A \<in> set (SCAN_UPLOAD_PATH c),
        Malformed ''SCAN_UPLOAD_PATH''),
       (\<not> finite_positive (SPEED_CAP_BPS c), OutOfRange ''SPEED_CAP_BPS''),
       (\<not> finite_positive (UPLOAD_SPEED_CAP_BPS c), OutOfRange ''UPLOAD_SPEED_CAP_BPS''),
       (case SELECTED_SNI c of Some sni \<Rightarrow> 219 < length sni | None \<Rightarrow> False, OutOfRange ''SELECTED_SNI'')]))"

definition boundary_partner :: "string \<Rightarrow> bool" where
  "boundary_partner m = (m \<in> {''sni_boundary_frag'', ''tls_frag'', ''tls_padding'', ''mixed_case_sni'',
     ''wrong_seq'', ''wrong_ack'', ''wrong_checksum'', ''wrong_md5'', ''wrong_timestamp'', ''low_ttl'',
     ''fake_tls'', ''ip_frag'', ''ccs_prefix''})"

definition shapers :: "string list \<Rightarrow> string list" where
  "shapers ms = filter (\<lambda>m. m \<in> set ms) EMISSION_SHAPERS"

definition validate_methods :: "('a) ConfigRecord_scheme \<Rightarrow> ConfigError option" where
  "validate_methods c = (let ms = BYPASS_METHOD c in
     or_else (first_error [(ms = [], EmptyMethods ''BYPASS_METHOD'')])
     (or_else (check_methods [] ms)
     (first_error [
       (''tls_record_split'' \<in> set ms \<and> ''sni_boundary_frag'' \<in> set ms, Conflict ''tls_record_split''),
       (''urg_sni_split'' \<in> set ms \<and> 1 < length ms
          \<and> \<not> list_all (\<lambda>m. m = ''urg_sni_split'' \<or> m = ''tls_frag'') ms, Conflict ''urg_sni_split''),
       (''sni_boundary_frag'' \<in> set ms \<and> 1 < length ms \<and> \<not> list_all boundary_partner ms,
        Conflict ''sni_boundary_frag''),
       (1 < length (shapers ms), Conflict ''EMISSION_SHAPERS''),
       (''urg_sni_split'' \<in> set ms \<and> (''tls_record_frag'' \<in> set ms \<or> shapers ms \<noteq> []),
        Conflict ''urg_sni_split''),
       (''fake_tls'' \<in> set ms \<and> (''tls_record_frag'' \<in> set ms \<or> shapers ms \<noteq> [])
          \<and> \<not> FAKE_TLS_FORWARD_REAL c, Conflict ''FAKE_TLS_FORWARD_REAL'')])))"

definition validate_interceptor_params :: "('a) ConfigSocket_scheme \<Rightarrow> ConfigError option" where
  "validate_interceptor_params c = first_error [
     (FAKE_TLS_REPEATS c = 0 \<or> 8 < FAKE_TLS_REPEATS c, OutOfRange ''FAKE_TLS_REPEATS''),
     (\<not> validate_at_least (FAKE_TLS_CHAIN_DELAY_MS c) 0, OutOfRange ''FAKE_TLS_CHAIN_DELAY_MS''),
     (100 < range_max (FAKE_TLS_CHAIN_DELAY_MS c), OutOfRange ''FAKE_TLS_CHAIN_DELAY_MS''),
     (WRONG_CHECKSUM_DELTA c = 0, OutOfRange ''WRONG_CHECKSUM_DELTA''),
     (WRONG_ACK_OFFSET c = 0, OutOfRange ''WRONG_ACK_OFFSET''),
     (WRONG_TIMESTAMP_OFFSET c = 0, OutOfRange ''WRONG_TIMESTAMP_OFFSET''),
     (LOW_TTL_VALUE c = 0, OutOfRange ''LOW_TTL_VALUE''),
     (64 < LOW_TTL_VALUE c, OutOfRange ''LOW_TTL_VALUE''),
     (LOW_TTL_DISCOVER_MAX c = 0, OutOfRange ''LOW_TTL_DISCOVER_MAX''),
     (64 < LOW_TTL_DISCOVER_MAX c, OutOfRange ''LOW_TTL_DISCOVER_MAX''),
     (LOW_TTL_DISCOVER_TIMEOUT_MS c < 100, OutOfRange ''LOW_TTL_DISCOVER_TIMEOUT_MS''),
     (TLS_RECORD_FRAG_SIZE c = 0, OutOfRange ''TLS_RECORD_FRAG_SIZE''),
     (IP_FRAG_SIZE c < 8, OutOfRange ''IP_FRAG_SIZE''),
     (IP_FRAG_SIZE c mod 8 \<noteq> 0, OutOfRange ''IP_FRAG_SIZE''),
     (DISORDER_SEGMENTS c < 2 \<or> 3 < DISORDER_SEGMENTS c, OutOfRange ''DISORDER_SEGMENTS''),
     (1000 < DISORDER_DELAY_MS c, OutOfRange ''DISORDER_DELAY_MS''),
     (case SEQOVL_SIZE c of Some n \<Rightarrow> 1024 < n | None \<Rightarrow> False, OutOfRange ''SEQOVL_SIZE''),
     (SEQOVL_SEGMENTS c < 2 \<or> 3 < SEQOVL_SEGMENTS c, OutOfRange ''SEQOVL_SEGMENTS''),
     (1000 < SEQOVL_DELAY_MS c, OutOfRange ''SEQOVL_DELAY_MS'')]"

definition validate_seqovl_pattern :: "('a) ConfigShapers_scheme \<Rightarrow> ConfigError option" where
  "validate_seqovl_pattern c = (case SEQOVL_PATTERN c of None \<Rightarrow> None
   | Some pattern \<Rightarrow> (case parse_hex_pattern pattern of
       Inl e \<Rightarrow> Some (Malformed ''SEQOVL_PATTERN'')
     | Inr bytes \<Rightarrow> if 1024 < length bytes then Some (OutOfRange ''SEQOVL_PATTERN'')
         else (case SEQOVL_SIZE c of None \<Rightarrow> None
           | Some n \<Rightarrow> if n \<noteq> length bytes then Some (Conflict ''SEQOVL_SIZE'') else None)))"

definition validate_socket_params :: "('a) ConfigSocket_scheme \<Rightarrow> ConfigError option" where
  "validate_socket_params c = first_error [
     (TCP_SEG_SIZE c = 0, OutOfRange ''TCP_SEG_SIZE''),
     (2 ^ 31 \<le> TCP_SEG_SIZE c, OutOfRange ''TCP_SEG_SIZE''),
     (\<not> validate_at_least (TLS_PADDING_SIZE c) 1, OutOfRange ''TLS_PADDING_SIZE''),
     (16000 < range_max (TLS_PADDING_SIZE c), OutOfRange ''TLS_PADDING_SIZE''),
     (parse_padding_position (TLS_PADDING_POSITION c) = None, Malformed ''TLS_PADDING_POSITION''),
     (case parse_record_version (CCS_PREFIX_RECORD_VERSION c) of Inl _ \<Rightarrow> True | Inr _ \<Rightarrow> False,
      Malformed ''CCS_PREFIX_RECORD_VERSION''),
     (case parse_tls_frag_packets (TLS_FRAG_PACKETS c) of Inl _ \<Rightarrow> True | Inr _ \<Rightarrow> False,
      Malformed ''TLS_FRAG_PACKETS''),
     (case tls_frag_length_range c of None \<Rightarrow> True | Some r \<Rightarrow> \<not> validate_at_least r 1,
      OutOfRange ''TLS_FRAG_LENGTH''),
     (\<not> validate_at_least (TLS_FRAG_INTERVAL_MS c) 0, OutOfRange ''TLS_FRAG_INTERVAL_MS''),
     (\<not> validate_at_least (SNI_BOUNDARY_FRAG_DELAY_MS c) 0, OutOfRange ''SNI_BOUNDARY_FRAG_DELAY_MS''),
     (\<not> validate_at_least (TLS_RECORD_SPLIT_DELAY_MS c) 0, OutOfRange ''TLS_RECORD_SPLIT_DELAY_MS''),
     (parse_firewall_backend (LINUX_FIREWALL_BACKEND c) = None, Malformed ''LINUX_FIREWALL_BACKEND'')]"

definition plus_method :: "string \<Rightarrow> bool" where
  "plus_method m = (m \<in> {''tls_record_frag'', ''tls_frag'', ''tls_padding'', ''mixed_case_sni'',
     ''sni_boundary_frag'', ''ccs_prefix'', ''ip_frag'', ''disorder'', ''seqovl'', ''tls_record_split''})"

definition validate_mode :: "Config \<Rightarrow> ConfigError option" where
  "validate_mode c = first_error [
     (MODE c \<notin> {''sni_spoof'', ''ip_bypass'', ''ip_bypass_plus'', ''sni_scan'', ''ip_scan'',
        ''proxy_scan'', ''sni_method_scan'', ''ip_method_scan''}, Malformed ''MODE''),
     (MODE c = ''ip_bypass_plus'' \<and> \<not> list_all plus_method (BYPASS_METHOD c), Conflict ''MODE''),
     (\<not> (case PROXY_TEST_SNI_WEIGHT c of Finite v \<Rightarrow> 0 \<le> v \<and> v \<le> 1 | _ \<Rightarrow> False),
      OutOfRange ''PROXY_TEST_SNI_WEIGHT''),
     (PROXY_TEST_TIMEOUT_SECS c = 0, OutOfRange ''PROXY_TEST_TIMEOUT_SECS'')]"

section \<open>Lemmas\<close>

lemma first_error_None: "first_error cs = None \<longleftrightarrow> (\<forall>(bad, e) \<in> set cs. \<not> bad)"
  by (induction cs rule: first_error.induct) auto

lemma or_else_None [simp]: "or_else a b = None \<longleftrightarrow> a = None \<and> b = None"
  by (simp add: or_else_def split: option.split)

lemma check_methods_None:
  "check_methods seen ms = None \<longleftrightarrow>
     set ms \<subseteq> set BASE_BYPASS_METHODS \<and> distinct ms \<and> set ms \<inter> set seen = {}"
  by (induction ms arbitrary: seen) auto

lemma requires_interceptor_iff: "requires_interceptor ms \<longleftrightarrow> ms \<noteq> [] \<and> \<not> is_socket_only ms"
  by (auto simp: requires_interceptor_def is_socket_only_def list_ex_iff list_all_iff)

subsection \<open>Numbers as text\<close>

lemma of_char_digit: "d < 10 \<Longrightarrow> digit_val (char_of (48 + d)) = Some d"
  by (simp add: digit_val_def Let_def)

lemma parse_digits_append:
  "parse_digits acc (xs @ ys) = (case parse_digits acc xs of None \<Rightarrow> None | Some a \<Rightarrow> parse_digits a ys)"
  by (induction xs arbitrary: acc) (simp_all split: option.split)

lemma parse_digits_show: "parse_digits 0 (show_nat n) = Some n"
proof (induction n rule: show_nat.induct)
  case (1 n)
  then show ?case
    by (cases "n < 10") (simp_all add: show_nat.simps [of n] parse_digits_append of_char_digit)
qed

lemma show_nat_digits: "c \<in> set (show_nat n) \<Longrightarrow> digit_val c \<noteq> None"
proof (induction n rule: show_nat.induct)
  case (1 n)
  then show ?case
    by (cases "n < 10") (auto simp: show_nat.simps [of n] of_char_digit)
qed

lemma show_nat_not_Nil [simp]: "show_nat n \<noteq> []"
  by (simp add: show_nat.simps [of n])

lemma parse_nat_show: "parse_nat (show_nat n) = Some n"
  by (simp add: parse_nat_def parse_digits_show)

lemma digit_not_ws: "digit_val c \<noteq> None \<Longrightarrow> \<not> is_ws c \<and> c \<noteq> CHR ''-'' \<and> c \<noteq> CHR ''+''"
  by (auto simp: digit_val_def is_ws_def Let_def split: if_splits)

lemma parse_i32_show: "n < 2 ^ 31 \<Longrightarrow> parse_i32 (show_nat n) = Some (int n)"
proof -
  assume n: "n < 2 ^ 31"
  obtain c cs where c: "show_nat n = c # cs" by (cases "show_nat n") auto
  then have "c \<noteq> CHR ''-''" "c \<noteq> CHR ''+''"
    using digit_not_ws show_nat_digits [of c n] by auto
  with n c parse_nat_show [of n] show ?thesis by (simp add: parse_i32_def)
qed

lemma dropWhile_no_ws: "\<forall>c \<in> set s. \<not> is_ws c \<Longrightarrow> dropWhile is_ws s = s"
  by (cases s) auto

lemma trim_no_ws: "\<forall>c \<in> set s. \<not> is_ws c \<Longrightarrow> trim s = s"
  by (simp add: trim_def dropWhile_no_ws)

lemma split_once_first: "c \<notin> set a \<Longrightarrow> split_once c (a @ c # b) = Some (a, b)"
  by (induction a) auto

lemma split_once_None: "c \<notin> set a \<Longrightarrow> split_once c a = None"
  by (induction a) auto

lemma trim_show_nat: "trim (show_nat n) = show_nat n"
  using show_nat_digits digit_not_ws by (blast intro: trim_no_ws)

lemma no_dash_show_nat: "CHR ''-'' \<notin> set (show_nat n)"
  using show_nat_digits digit_not_ws by blast

text \<open>
  The text form of a range parses back to the range, for every range of non-negative bounds: the
  form that the \<^verbatim>\<open>Display\<close> implementation prints is one the configuration file accepts.
\<close>

theorem parse_show_range:
  assumes "0 \<le> range_min r" "range_min r \<le> range_max r" "range_max r < 2 ^ 31"
  shows "parse_range (show_range r) = Inr r"
proof -
  define a b where "a = nat (range_min r)" and "b = nat (range_max r)"
  have r: "r = \<lparr>range_min = int a, range_max = int b\<rparr>" "a \<le> b" "b < 2 ^ 31"
    using assms by (cases r; simp add: a_def b_def)+
  have i: "parse_i32 (show_nat a) = Some (int a)" "parse_i32 (show_nat b) = Some (int b)"
    using r by (simp_all add: parse_i32_show)
  have sh: "show_int (int n) = show_nat n" for n by (simp add: show_int_def)
  show ?thesis
  proof (cases "a = b")
    case True
    then show ?thesis using i unfolding parse_range_def show_range_def r(1)
      by (simp add: sh trim_show_nat split_once_None no_dash_show_nat Let_def exact_def)
  next
    case False
    have "trim (show_nat a @ ''-'' @ show_nat b) = show_nat a @ ''-'' @ show_nat b"
      using show_nat_digits digit_not_ws by (intro trim_no_ws) (auto simp: is_ws_def)
    moreover have "split_once (CHR ''-'') (show_nat a @ ''-'' @ show_nat b) = Some (show_nat a, show_nat b)"
      using split_once_first [OF no_dash_show_nat] by simp
    ultimately show ?thesis using False i r(2) unfolding parse_range_def show_range_def r(1)
      by (simp add: sh trim_show_nat Let_def)
  qed
qed

lemma parse_show_range_witness: "parse_range ''1-40'' = Inr \<lparr>range_min = 1, range_max = 40\<rparr>"
proof -
  have "show_range \<lparr>range_min = 1, range_max = 40\<rparr> = ''1-40''" by code_simp
  then show ?thesis using parse_show_range [of "\<lparr>range_min = 1, range_max = 40\<rparr>"] by simp
qed

lemma validate_methods_accepted:
  assumes "validate_methods c = None"
  shows "BYPASS_METHOD c \<noteq> [] \<and> set (BYPASS_METHOD c) \<subseteq> set BASE_BYPASS_METHODS
    \<and> distinct (BYPASS_METHOD c) \<and> length (shapers (BYPASS_METHOD c)) \<le> 1
    \<and> (''fake_tls'' \<in> set (BYPASS_METHOD c)
         \<and> (''tls_record_frag'' \<in> set (BYPASS_METHOD c) \<or> shapers (BYPASS_METHOD c) \<noteq> [])
       \<longrightarrow> FAKE_TLS_FORWARD_REAL c)
    \<and> (''urg_sni_split'' \<in> set (BYPASS_METHOD c)
       \<longrightarrow> set (BYPASS_METHOD c) \<subseteq> {''urg_sni_split'', ''tls_frag''})"
proof -
  have single: "length ms \<le> 1 \<Longrightarrow> x \<in> set ms \<Longrightarrow> set ms \<subseteq> {x}" for x :: string and ms
    by (cases ms) auto
  have *: "set (BYPASS_METHOD c) \<subseteq> {''urg_sni_split'', ''tls_frag''}"
    if "''urg_sni_split'' \<in> set (BYPASS_METHOD c)"
  proof (cases "length (BYPASS_METHOD c) \<le> 1")
    case True
    then show ?thesis using single [OF _ that] by blast
  next
    case False
    then have "list_all (\<lambda>m. m = ''urg_sni_split'' \<or> m = ''tls_frag'') (BYPASS_METHOD c)"
      using assms that unfolding validate_methods_def Let_def or_else_None first_error_None by auto
    then show ?thesis by (auto simp: list_all_iff)
  qed
  show ?thesis
    using assms * unfolding validate_methods_def Let_def or_else_None first_error_None check_methods_None
    by auto
qed

text \<open>
  What an accepted method list guarantees to the method chain: it is not empty, has only known
  methods, each once, at most one of them decides how the first data packet is
  emitted, a chained \<^verbatim>\<open>fake_tls\<close> forwards the real packet, and \<^verbatim>\<open>urg_sni_split\<close> has no other
  payload rewrite or shaper beside it.
\<close>

theorem validate_methods_sound:
  assumes "validate_methods c = None"
  shows "BYPASS_METHOD c \<noteq> [] \<and> set (BYPASS_METHOD c) \<subseteq> set BASE_BYPASS_METHODS
    \<and> distinct (BYPASS_METHOD c) \<and> length (shapers (BYPASS_METHOD c)) \<le> 1
    \<and> (''fake_tls'' \<in> set (BYPASS_METHOD c)
         \<and> (''tls_record_frag'' \<in> set (BYPASS_METHOD c) \<or> shapers (BYPASS_METHOD c) \<noteq> [])
       \<longrightarrow> FAKE_TLS_FORWARD_REAL c)
    \<and> (''urg_sni_split'' \<in> set (BYPASS_METHOD c)
       \<longrightarrow> set (BYPASS_METHOD c) \<subseteq> {''urg_sni_split'', ''tls_frag''})"
  using assms by (rule validate_methods_accepted)

lemma default_methods: "from_delimited ''wrong_seq, tls_frag'' = [''wrong_seq'', ''tls_frag'']"
  by code_simp

lemma default_text_values:
  "parse_padding_position ''before'' = Some Before"
  "parse_record_version ''0x0303'' = Inr [3, 3]"
  "parse_tls_frag_packets ''1-3'' = Inr (WriteRange 1 3)"
proof -
  show "parse_padding_position ''before'' = Some Before" by code_simp
  show "parse_record_version ''0x0303'' = Inr [3, 3]" by code_simp
  show "parse_tls_frag_packets ''1-3'' = Inr (WriteRange 1 3)"
    by (simp add: parse_tls_frag_packets_def parse_packet_index_def parse_u32_def parse_nat_def
        digit_val_def trim_def is_ws_def eq_ignore_ascii_case_def Let_def)
qed

lemma default_validate_methods: "validate_methods (default_config port) = None"
  by (simp add: validate_methods_def default_config_def default_methods check_methods_None
      first_error_None BASE_BYPASS_METHODS_def shapers_def EMISSION_SHAPERS_def)

lemma validate_methods_sound_witness:
  "set (BYPASS_METHOD (default_config 44444)) \<subseteq> set BASE_BYPASS_METHODS
   \<and> distinct (BYPASS_METHOD (default_config 44444))"
  using validate_methods_sound [OF default_validate_methods [of 44444]] by blast

text \<open>The default configuration passes every modelled check.\<close>

lemma default_config_valid:
  assumes "128 \<le> max_permits"
  shows "validate_caps max_permits (default_config port) = None
    \<and> validate_scan (default_config port) = None
    \<and> validate_methods (default_config port) = None
    \<and> validate_interceptor_params (default_config port) = None
    \<and> validate_seqovl_pattern (default_config port) = None
    \<and> validate_socket_params (default_config port) = None
    \<and> validate_mode (default_config port) = None"
proof (intro conjI)
  show "validate_caps max_permits (default_config port) = None"
    using assms by (simp add: validate_caps_def default_config_def finite_positive_def)
  show "validate_scan (default_config port) = None"
    by (simp add: validate_scan_def default_config_def check_methods_None first_error_None
        BASE_BYPASS_METHODS_def finite_positive_def)
  show "validate_methods (default_config port) = None" by (rule default_validate_methods)
  show "validate_interceptor_params (default_config port) = None"
    by (simp add: validate_interceptor_params_def default_config_def first_error_None
        validate_at_least_def exact_def)
  show "validate_seqovl_pattern (default_config port) = None"
    by (simp add: validate_seqovl_pattern_def default_config_def)
  show "validate_socket_params (default_config port) = None"
    by (simp add: validate_socket_params_def default_config_def first_error_None validate_at_least_def
        exact_def default_text_values tls_frag_length_range_def parse_firewall_backend_def)
  show "validate_mode (default_config port) = None"
    by (simp add: validate_mode_def default_config_def default_methods first_error_None)
qed

lemma default_config_valid_witness: "validate_caps 1000 (default_config 44444) = None"
  using default_config_valid [of 1000 44444] by simp

end
