(* ===== verification/Sni.thy ===== *)
theory Sni
  imports Config "HOL-Library.Monad_Syntax"
begin

text \<open>
  The SNI locator shared by the methods that cut or rewrite the host name,
  src/crates/zerodpi-core/src/methods/sni.rs. The lemmas show where it panics, that a location it returns
  is inside the first record and framed by the fields of a \<^verbatim>\<open>server_name\<close> extension, and that it does not
  depend on the bytes of the name or on anything behind it.
\<close>

section \<open>The code\<close>

record SniBoundary =
  ext_len_field_end :: nat
  sb_name_start :: nat
  sb_name_len :: nat

definition read_u16 :: "bytes \<Rightarrow> nat \<Rightarrow> nat" where
  "read_u16 xs i = unat (u16_from_be (xs ! i) (xs ! (i + 1)))"

text \<open>The branch for a \<^verbatim>\<open>server_name\<close> extension whose body is \<open>ext_data\<close>.\<close>

definition server_name_entry :: "nat \<Rightarrow> bytes \<Rightarrow> SniBoundary option" where
  "server_name_entry ext_header_start ext_data = do {
     list_pair \<leftarrow> get_range ext_data 0 2;
     let list_len = read_u16 list_pair 0;
     list \<leftarrow> get_range ext_data 2 (2 + list_len);
     (if get_at list 0 \<noteq> Some 0 then None else do {
        name_pair \<leftarrow> get_range list 1 3;
        let name_len = read_u16 name_pair 0;
        (if name_len = 0 then None else do {
           _ \<leftarrow> get_range list 3 (3 + name_len);
           Some \<lparr>ext_len_field_end = ext_header_start + 4,
                 sb_name_start = ext_header_start + 4 + 2 + 1 + 2, sb_name_len = name_len\<rparr> }) }) }"

text \<open>The loop over the extension list; \<open>p\<close> is the offset of the list in the ClientHello body.\<close>

function scan_extensions :: "nat \<Rightarrow> bytes \<Rightarrow> nat \<Rightarrow> SniBoundary option" where
  "scan_extensions p extensions e =
     (if e + 4 \<le> length extensions
      then (let ext_len = read_u16 extensions (e + 2) in
        case get_range extensions (e + 4) (e + 4 + ext_len) of
          None \<Rightarrow> None
        | Some ext_data \<Rightarrow>
            if u16_from_be (extensions ! e) (extensions ! (e + 1)) = 0
            then server_name_entry (9 + p + e) ext_data
            else scan_extensions p extensions (e + (4 + ext_len)))
      else None)"
  by pat_completeness auto
termination
  by (relation "measure (\<lambda>(p, xs, e). length xs - e)") auto

declare scan_extensions.simps [simp del]

text \<open>The fields of the ClientHello body up to the extension list.\<close>

definition scan_client_hello :: "bytes \<Rightarrow> SniBoundary option" where
  "scan_client_hello body = do {
     let off = 2 + 32 + 1;
     sid_len \<leftarrow> get_at body (off - 1);
     let off = off + unat sid_len;
     cs_pair \<leftarrow> get_range body off (off + 2);
     let off = off + (2 + read_u16 cs_pair 0);
     cm_len \<leftarrow> get_at body off;
     let off = off + (1 + unat cm_len);
     ext_pair \<leftarrow> get_range body off (off + 2);
     let ext_total = read_u16 ext_pair 0;
     let p = off + 2;
     extensions \<leftarrow> get_range body p (p + ext_total);
     scan_extensions p extensions 0 }"

text \<open>
  \<^verbatim>\<open>record_body[1]\<close>, \<^verbatim>\<open>[2]\<close> and \<^verbatim>\<open>[3]\<close> are plain index expressions: a record body of one to three
  bytes that starts with the ClientHello type panics.
\<close>

definition find_sni_boundary :: "bytes \<Rightarrow> SniBoundary option res" where
  "find_sni_boundary data =
     ques (get_range data 0 5) (\<lambda>record_header.
       if record_header ! 0 \<noteq> 0x16 then Ok None
       else ques (get_range data 5 (5 + read_u16 record_header 3)) (\<lambda>record_body.
         if get_at record_body 0 \<noteq> Some 0x01 then Ok None
         else index_at record_body 1 (\<lambda>b1. index_at record_body 2 (\<lambda>b2. index_at record_body 3 (\<lambda>b3.
           ques (get_range record_body 4 (4 + u24_from_be b1 b2 b3)) (\<lambda>body.
             Ok (scan_client_hello body)))))))"

definition find_sni_range :: "bytes \<Rightarrow> (nat \<times> nat) option res" where
  "find_sni_range data = (case find_sni_boundary data of
     Panic \<Rightarrow> Panic | Ok b \<Rightarrow> Ok (map_option (\<lambda>b. (sb_name_start b, sb_name_len b)) b))"

section \<open>Panics\<close>

text \<open>A record of one to three bytes whose first byte is the ClientHello type.\<close>

definition short_hello :: "bytes \<Rightarrow> bool" where
  "short_hello data = (5 < length data \<and> data ! 0 = 0x16 \<and> data ! 5 = 0x01
     \<and> 1 \<le> read_u16 data 3 \<and> read_u16 data 3 \<le> 3 \<and> 5 + read_u16 data 3 \<le> length data)"

lemma read_u16_slice: "a + i + 2 \<le> b \<Longrightarrow> b \<le> length xs \<Longrightarrow> read_u16 (slice xs a b) i = read_u16 xs (a + i)"
  by (simp add: read_u16_def nth_slice)

lemma read_u16_cong: "xs ! i = ys ! i \<Longrightarrow> xs ! (i + 1) = ys ! (i + 1) \<Longrightarrow> read_u16 xs i = read_u16 ys i"
  by (simp add: read_u16_def)

lemma find_sni_boundary_unfold:
  "find_sni_boundary data =
     (if length data < 5 \<or> data ! 0 \<noteq> 0x16 \<or> length data < 5 + read_u16 data 3
         \<or> read_u16 data 3 = 0 \<or> data ! 5 \<noteq> 0x01 then Ok None
      else if read_u16 data 3 \<le> 3 then Panic
      else Ok (let hs_len = u24_from_be (data ! 6) (data ! 7) (data ! 8) in
        if 4 + hs_len \<le> read_u16 data 3 then scan_client_hello (slice data 9 (9 + hs_len)) else None))"
proof -
  let ?n = "read_u16 data 3" and ?b = "slice data 5 (5 + read_u16 data 3)"
  consider (short) "length data < 5" | (type) "5 \<le> length data" "data ! 0 \<noteq> 0x16"
    | (incomplete) "5 \<le> length data" "data ! 0 = 0x16" "length data < 5 + ?n"
    | (other) "data ! 0 = 0x16" "5 + ?n \<le> length data" "?n = 0 \<or> data ! 5 \<noteq> 0x01"
    | (hello) "data ! 0 = 0x16" "5 + ?n \<le> length data" "?n \<noteq> 0" "data ! 5 = 0x01"
    by linarith
  then show ?thesis
  proof cases
    case other
    then have "get_at ?b 0 \<noteq> Some 0x01" by (auto simp: get_at_Some_iff nth_slice)
    with other show ?thesis
      by (simp add: find_sni_boundary_def get_range_def nth_slice read_u16_slice)
  next
    case hello
    then have "get_at ?b 0 = Some 0x01" by (simp add: get_at_Some_iff nth_slice)
    moreover have "index_at ?b i k = (if i < ?n then k (data ! (5 + i)) else Panic)" 
      for i and k :: "u8 \<Rightarrow> SniBoundary option res"
      using hello(2) by (simp add: index_at_def nth_slice)
    ultimately show ?thesis using hello
      by (simp add: find_sni_boundary_def get_range_def nth_slice read_u16_slice slice_slice Let_def)
  qed (simp_all add: find_sni_boundary_def get_range_def nth_slice read_u16_slice)
qed

text \<open>
  C37. The locator panics exactly on data that start with a complete handshake record whose body is
  one to three bytes long and starts with the ClientHello type 0x01, an input for which its
  documentation promises \<^verbatim>\<open>None\<close>; on every other input it returns.
\<close>

theorem find_sni_boundary_panics_iff: "find_sni_boundary data = Panic \<longleftrightarrow> short_hello data"
  by (auto simp: find_sni_boundary_unfold short_hello_def)

lemma find_sni_boundary_panics_on_fragment: "find_sni_boundary [0x16, 3, 1, 0, 1, 1] = Panic"
  by code_simp

section \<open>Soundness\<close>

text \<open>What a location means: the fields of a \<^verbatim>\<open>server_name\<close> extension in front of a name inside the record.\<close>

definition sni_framed :: "bytes \<Rightarrow> SniBoundary \<Rightarrow> bool" where
  "sni_framed data b = (0 < sb_name_len b
     \<and> sb_name_start b = ext_len_field_end b + 5
     \<and> 47 < ext_len_field_end b
     \<and> sb_name_start b + sb_name_len b \<le> 5 + read_u16 data 3
     \<and> 5 + read_u16 data 3 \<le> length data
     \<and> data ! 0 = 0x16 \<and> data ! 5 = 0x01
     \<and> read_u16 data (ext_len_field_end b - 4) = 0
     \<and> data ! (sb_name_start b - 3) = 0
     \<and> read_u16 data (sb_name_start b - 2) = sb_name_len b)"

lemma server_name_entry_Some:
  assumes "server_name_entry h d = Some b"
  shows "b = \<lparr>ext_len_field_end = h + 4, sb_name_start = h + 9, sb_name_len = read_u16 d 3\<rparr>"
    "0 < read_u16 d 3" "5 + read_u16 d 3 \<le> length d" "d ! 2 = 0"
  using assms
  by (auto simp: server_name_entry_def Let_def get_range_def get_at_def nth_slice read_u16_slice slice_slice
      split: if_splits bind_splits)

text \<open>The first extension of type 0 in the list decides.\<close>

lemma scan_extensions_Some:
  assumes "scan_extensions p xs e = Some b"
  shows "\<exists>e' \<ge> e. e' + 9 + sb_name_len b \<le> length xs
    \<and> b = \<lparr>ext_len_field_end = 9 + p + e' + 4, sb_name_start = 9 + p + e' + 9, sb_name_len = read_u16 xs (e' + 7)\<rparr>
    \<and> read_u16 xs e' = 0 \<and> xs ! (e' + 6) = 0 \<and> 0 < sb_name_len b"
  using assms
proof (induction p xs e rule: scan_extensions.induct)
  case (1 p xs e)
  let ?n = "read_u16 xs (e + 2)"
  have len: "e + 4 + ?n \<le> length xs"
    using 1(2) by (subst (asm) scan_extensions.simps) (auto simp: Let_def get_range_def split: if_splits)
  show ?case
  proof (cases "u16_from_be (xs ! e) (xs ! (e + 1)) = 0")
    case True
    then have "server_name_entry (9 + p + e) (slice xs (e + 4) (e + 4 + ?n)) = Some b"
      using 1(2) len by (subst (asm) scan_extensions.simps) (simp add: Let_def get_range_def)
    note entry = server_name_entry_Some [OF this]
    have "5 \<le> ?n" using entry(3) len by simp
    then have fields: "read_u16 (slice xs (e + 4) (e + 4 + ?n)) 3 = read_u16 xs (e + 7)"
      "slice xs (e + 4) (e + 4 + ?n) ! 2 = xs ! (e + 6)"
      using len by (simp_all add: read_u16_slice nth_slice add.commute)
    have "read_u16 xs e = 0" using True by (simp add: read_u16_def)
    then show ?thesis using entry len unfolding fields by (intro exI [of _ e]) simp
  next
    case False
    then have "scan_extensions p xs (e + (4 + ?n)) = Some b"
      using 1(2) len by (subst (asm) scan_extensions.simps) (simp add: Let_def get_range_def)
    from 1(1) [OF _ refl _ False this] len show ?thesis by (fastforce simp: get_range_def)
  qed
qed

text \<open>The offsets the ClientHello body gives: session id, cipher suites, compression methods, extensions.\<close>

definition hello_sid :: "bytes \<Rightarrow> nat" where
  "hello_sid body = unat (body ! 34)"

definition hello_suites :: "bytes \<Rightarrow> nat" where
  "hello_suites body = read_u16 body (35 + hello_sid body)"

definition hello_comp_off :: "bytes \<Rightarrow> nat" where
  "hello_comp_off body = 37 + hello_sid body + hello_suites body"

definition hello_ext_off :: "bytes \<Rightarrow> nat" where
  "hello_ext_off body = hello_comp_off body + unat (body ! hello_comp_off body) + 3"

lemmas hello_defs = hello_ext_off_def hello_comp_off_def hello_suites_def hello_sid_def

lemma scan_client_hello_closed:
  "scan_client_hello body =
     (if 34 < length body \<and> 37 + hello_sid body \<le> length body \<and> hello_comp_off body < length body
         \<and> hello_ext_off body \<le> length body
         \<and> hello_ext_off body + read_u16 body (hello_ext_off body - 2) \<le> length body
      then scan_extensions (hello_ext_off body)
             (slice body (hello_ext_off body) (hello_ext_off body + read_u16 body (hello_ext_off body - 2))) 0
      else None)"
proof -
  have cs: "37 + hello_sid body \<le> length body \<Longrightarrow>
      read_u16 (slice body (35 + hello_sid body) (37 + hello_sid body)) 0 = hello_suites body"
    by (simp add: read_u16_slice hello_suites_def)
  have ex: "hello_ext_off body \<le> length body \<Longrightarrow>
      read_u16 (slice body (hello_ext_off body - 2) (hello_ext_off body)) 0
      = read_u16 body (hello_ext_off body - 2)"
    by (simp add: read_u16_slice hello_ext_off_def)
  have off: "35 + hello_sid body + (2 + hello_suites body) = hello_comp_off body"
    "hello_comp_off body + (1 + unat (body ! hello_comp_off body)) = hello_ext_off body - 2"
    "hello_ext_off body - 2 + 2 = hello_ext_off body"
    by (simp_all add: hello_ext_off_def hello_comp_off_def)
  show ?thesis
  proof (cases "34 < length body \<and> 37 + hello_sid body \<le> length body \<and> hello_comp_off body < length body
      \<and> hello_ext_off body \<le> length body")
    case True
    have p: "40 + (hello_sid body + (hello_suites body + unat (body ! hello_comp_off body)))
        = hello_ext_off body" by (simp add: hello_ext_off_def hello_comp_off_def)
    have "scan_client_hello body = (case get_range body (hello_ext_off body)
        (hello_ext_off body + read_u16 body (hello_ext_off body - 2)) of None \<Rightarrow> None
      | Some xs \<Rightarrow> scan_extensions (hello_ext_off body) xs 0)"
      using True cs ex off
      by (simp add: scan_client_hello_def Let_def get_range_def hello_sid_def [symmetric] p)
    with True show ?thesis by (simp add: get_range_def)
  next
    case False
    have s: "34 < length body \<Longrightarrow> get_at body 34 = Some (body ! 34)" by simp
    show ?thesis using False cs off
      by (auto simp: scan_client_hello_def Let_def get_range_def get_at_def hello_sid_def [symmetric]
          split: bind_split)
  qed
qed

lemma scan_client_hello_Some:
  assumes "scan_client_hello body = Some b"
  shows "\<exists>p n. 37 < p \<and> p + n \<le> length body \<and> scan_extensions p (slice body p (p + n)) 0 = Some b"
proof -
  have "37 < hello_ext_off body" by (simp add: hello_ext_off_def hello_comp_off_def)
  with assms show ?thesis by (auto simp: scan_client_hello_closed split: if_splits)
qed

lemma find_sni_boundary_framed:
  assumes "find_sni_boundary data = Ok (Some b)"
  shows "sni_framed data b"
proof -
  let ?n = "read_u16 data 3" and ?hs = "u24_from_be (data ! 6) (data ! 7) (data ! 8)"
  have hello: "data ! 0 = 0x16" "data ! 5 = 0x01" "5 + ?n \<le> length data" "4 + ?hs \<le> ?n"
    "scan_client_hello (slice data 9 (9 + ?hs)) = Some b"
    using assms by (auto simp: find_sni_boundary_unfold Let_def split: if_splits)
  then obtain p n where p: "37 < p" "p + n \<le> ?hs"
    "scan_extensions p (slice data (9 + p) (9 + (p + n))) 0 = Some b"
    using scan_client_hello_Some [OF hello(5)] hello by (auto simp: slice_slice)
  define xs where "xs = slice data (9 + p) (9 + (p + n))"
  have xs: "length xs = n" "i < n \<Longrightarrow> xs ! i = data ! (9 + p + i)"
    "i + 2 \<le> n \<Longrightarrow> read_u16 xs i = read_u16 data (9 + p + i)" for i
    using hello p by (simp_all add: xs_def nth_slice read_u16_slice)
  obtain e where e: "e + 9 + sb_name_len b \<le> n"
    "b = \<lparr>ext_len_field_end = 9 + p + e + 4, sb_name_start = 9 + p + e + 9, sb_name_len = read_u16 xs (e + 7)\<rparr>"
    "read_u16 xs e = 0" "xs ! (e + 6) = 0" "0 < sb_name_len b"
    using scan_extensions_Some [OF p(3) [folded xs_def]] unfolding xs(1) by blast
  have *: "read_u16 data (9 + p + e) = 0" "data ! (9 + p + (e + 6)) = 0"
    "read_u16 data (9 + p + (e + 7)) = sb_name_len b"
    using e xs(2) [of "e + 6"] xs(3) [of e] xs(3) [of "e + 7"] by auto
  have idx: "ext_len_field_end b - 4 = 9 + p + e" "sb_name_start b - 3 = 9 + p + (e + 6)"
    "sb_name_start b - 2 = 9 + p + (e + 7)" "sb_name_start b = ext_len_field_end b + 5"
    "ext_len_field_end b = 13 + p + e"
    by (simp_all add: e(2))
  show ?thesis unfolding sni_framed_def idx(1-3) * using e(1,5) hello p(1,2) idx(4,5) by simp
qed

text \<open>
  A location the locator returns is right: it lies inside the first record of the input, the name
  is not empty, and in front of it are the type of a \<^verbatim>\<open>server_name\<close> extension, the
  host-name tag and the length of the name.
\<close>

theorem find_sni_boundary_sound:
  assumes "find_sni_boundary data = Ok (Some b)"
  shows "sni_framed data b"
  using assms by (rule find_sni_boundary_framed)

section \<open>Locality\<close>

text \<open>The locator reads nothing at or behind the start of the name.\<close>

lemma server_name_entry_closed:
  "server_name_entry h d =
     (if 5 \<le> length d \<and> 2 + read_u16 d 0 \<le> length d \<and> d ! 2 = 0 \<and> 0 < read_u16 d 3
         \<and> 3 + read_u16 d 3 \<le> read_u16 d 0
      then Some \<lparr>ext_len_field_end = h + 4, sb_name_start = h + 9, sb_name_len = read_u16 d 3\<rparr> else None)"
proof (cases "2 \<le> length d \<and> 2 + read_u16 d 0 \<le> length d \<and> 3 \<le> read_u16 d 0")
  case True
  then have "get_at (slice d 2 (2 + read_u16 d 0)) 0 = Some (d ! 2)"
    by (simp add: get_at_def nth_slice)
  with True show ?thesis
    by (auto simp: server_name_entry_def Let_def get_range_def read_u16_slice slice_slice)
next
  case False
  then show ?thesis
    by (auto simp: server_name_entry_def Let_def get_range_def read_u16_slice split: bind_split)
qed

lemma scan_extensions_local:
  assumes "scan_extensions p xs e = Some b" "length ys = length xs"
    and "\<forall>i < length xs. 9 + p + i < sb_name_start b \<longrightarrow> ys ! i = xs ! i"
  shows "scan_extensions p ys e = Some b"
  using assms
proof (induction p xs e rule: scan_extensions.induct)
  case (1 p xs e)
  let ?n = "read_u16 xs (e + 2)"
  obtain e' where e': "e \<le> e'" "e' + 9 \<le> length xs" "sb_name_start b = 9 + p + e' + 9"
    using scan_extensions_Some [OF 1(2)] by (auto simp: add_leD1)
  have same: "ys ! i = xs ! i" if "i < e' + 9" for i using 1(4) e' that by simp
  have n: "read_u16 ys (e + 2) = ?n" and ty: "ys ! e = xs ! e" "ys ! (e + 1) = xs ! (e + 1)"
    using same e'(1) by (simp_all add: read_u16_def)
  have len: "e + 4 + ?n \<le> length xs"
    using 1(2) by (subst (asm) scan_extensions.simps) (auto simp: Let_def get_range_def split: if_splits)
  show ?case
  proof (cases "u16_from_be (xs ! e) (xs ! (e + 1)) = 0")
    case True
    then have entry: "server_name_entry (9 + p + e) (slice xs (e + 4) (e + 4 + ?n)) = Some b"
      using 1(2) len by (subst (asm) scan_extensions.simps) (simp add: Let_def get_range_def)
    have "5 \<le> ?n" "e' = e"
      using server_name_entry_Some [OF entry] len e'(3) by auto
    then have "slice ys (e + 4) (e + 4 + ?n) ! i = slice xs (e + 4) (e + 4 + ?n) ! i" if "i < 5" for i
      using that len 1(3) same by (simp add: nth_slice)
    then have "server_name_entry (9 + p + e) (slice ys (e + 4) (e + 4 + ?n)) = Some b"
      using entry 1(3) by (simp add: server_name_entry_closed read_u16_def split: if_splits)
    then show ?thesis
      using True len 1(3) n ty by (subst scan_extensions.simps) (simp add: Let_def get_range_def)
  next
    case False
    then have next_ext: "scan_extensions p xs (e + (4 + ?n)) = Some b"
      using 1(2) len by (subst (asm) scan_extensions.simps) (simp add: Let_def get_range_def)
    have "scan_extensions p ys (e + (4 + ?n)) = Some b"
      using 1(1) [OF _ refl _ False next_ext 1(3,4)] len by (simp add: get_range_def)
    then show ?thesis
      using False len 1(3) n ty by (subst scan_extensions.simps) (simp add: Let_def get_range_def)
  qed
qed

lemma scan_client_hello_local:
  assumes some: "scan_client_hello body = Some b" and len: "length body' = length body"
    and same: "\<forall>i < length body. 9 + i < sb_name_start b \<longrightarrow> body' ! i = body ! i"
  shows "scan_client_hello body' = Some b"
proof -
  let ?p = "hello_ext_off body" and ?t = "read_u16 body (hello_ext_off body - 2)"
  have b: "34 < length body" "37 + hello_sid body \<le> length body" "hello_comp_off body < length body"
    "?p + ?t \<le> length body" "scan_extensions ?p (slice body ?p (?p + ?t)) 0 = Some b"
    using some by (simp_all add: scan_client_hello_closed split: if_splits)
  have name: "9 + ?p + 9 \<le> sb_name_start b" using scan_extensions_Some [OF b(5)] by auto
  have sm: "body' ! i = body ! i" if "i < ?p" for i using same name b(4) that by simp
  have p: "35 + hello_sid body + 2 \<le> ?p" "hello_comp_off body < ?p" "34 < ?p"
    by (simp_all add: hello_ext_off_def hello_comp_off_def)
  have sid: "hello_sid body' = hello_sid body" using sm p by (simp add: hello_sid_def)
  have suites: "hello_suites body' = hello_suites body"
    using sm p by (simp add: hello_suites_def sid read_u16_def)
  have comp: "hello_comp_off body' = hello_comp_off body" by (simp add: hello_comp_off_def sid suites)
  have off: "hello_ext_off body' = ?p" using sm p by (simp add: hello_ext_off_def comp)
  have t: "read_u16 body' (?p - 2) = ?t" using sm p(3) by (simp add: read_u16_def)
  have "scan_extensions ?p (slice body' ?p (?p + ?t)) 0 = Some b"
    by (rule scan_extensions_local [OF b(5)]) (use len same b(4) in \<open>auto simp: nth_slice\<close>)
  then show ?thesis using b len by (simp add: scan_client_hello_closed sid comp off t)
qed

lemma find_sni_boundary_local:
  assumes some: "find_sni_boundary data = Ok (Some b)" and len: "length data' = length data"
    and same: "\<forall>i < sb_name_start b. data' ! i = data ! i"
  shows "find_sni_boundary data' = Ok (Some b)"
proof -
  have "47 < sb_name_start b" using find_sni_boundary_sound [OF some] by (simp add: sni_framed_def)
  then have s: "data' ! i = data ! i" if "i < 9" for i using same that by simp
  then have hdr: "read_u16 data' 3 = read_u16 data 3" by (simp add: read_u16_def)
  let ?hs = "u24_from_be (data ! 6) (data ! 7) (data ! 8)"
  have hello: "data ! 0 = 0x16" "data ! 5 = 0x01" "5 + read_u16 data 3 \<le> length data" "3 < read_u16 data 3"
    "4 + ?hs \<le> read_u16 data 3" "scan_client_hello (slice data 9 (9 + ?hs)) = Some b"
    using some by (auto simp: find_sni_boundary_unfold Let_def split: if_splits)
  have "scan_client_hello (slice data' 9 (9 + ?hs)) = Some b"
    by (rule scan_client_hello_local [OF hello(6)]) (use len same hello in \<open>auto simp: nth_slice\<close>)
  then show ?thesis using hello len s by (simp add: find_sni_boundary_unfold hdr Let_def)
qed

text \<open>A 59-byte ClientHello with the host name \<^verbatim>\<open>a\<close>, for the witnesses.\<close>

definition small_hello :: bytes where
  "small_hello = [0x16, 3, 1, 0, 54, 1, 0, 0, 50, 3, 3] @ replicate 32 0
     @ [0, 0, 0, 0, 0, 10, 0, 0, 0, 6, 0, 4, 0, 0, 1, 0x61]"

lemma small_hello_boundary:
  "find_sni_boundary small_hello
     = Ok (Some \<lparr>ext_len_field_end = 53, sb_name_start = 58, sb_name_len = 1\<rparr>)"
  by code_simp

lemma find_sni_boundary_sound_witness:
  "sni_framed small_hello \<lparr>ext_len_field_end = 53, sb_name_start = 58, sb_name_len = 1\<rparr>"
  by (rule find_sni_boundary_sound) (rule small_hello_boundary)

end
