(* ===== verification/Mixed_Case.thy ===== *)
theory Mixed_Case
  imports Sni
begin

text \<open>
  The \<^verbatim>\<open>mixed_case_sni\<close> method, src/crates/zerodpi-core/src/methods/mixed_case_sni.rs: it randomises the
  ASCII case of the host name in the first ClientHello. The generator state is an argument.
\<close>

section \<open>The code\<close>

definition is_ascii_uppercase :: "u8 \<Rightarrow> bool" where
  "is_ascii_uppercase b = (65 \<le> b \<and> b \<le> 90)"

definition is_ascii_lowercase :: "u8 \<Rightarrow> bool" where
  "is_ascii_lowercase b = (97 \<le> b \<and> b \<le> 122)"

definition is_ascii_alphabetic :: "u8 \<Rightarrow> bool" where
  "is_ascii_alphabetic b = (is_ascii_uppercase b \<or> is_ascii_lowercase b)"

definition to_ascii_lowercase :: "u8 \<Rightarrow> u8" where
  "to_ascii_lowercase b = (if is_ascii_uppercase b then b + 32 else b)"

definition to_ascii_uppercase :: "u8 \<Rightarrow> u8" where
  "to_ascii_uppercase b = (if is_ascii_lowercase b then b - 32 else b)"

definition swap_ascii_case :: "u8 \<Rightarrow> u8" where
  "swap_ascii_case b = (if is_ascii_lowercase b then to_ascii_uppercase b else to_ascii_lowercase b)"

text \<open>The loop of the \<^verbatim>\<open>flip_all\<close> branch over the name, from index \<open>i\<close>.\<close>

fun flip_letters :: "bytes \<Rightarrow> nat \<Rightarrow> nat \<Rightarrow> bytes \<Rightarrow> bytes" where
  "flip_letters [] name_start i out = out"
| "flip_letters (b # bs) name_start i out =
     flip_letters bs name_start (Suc i)
       (if is_ascii_alphabetic b then out[name_start + i := swap_ascii_case b] else out)"

text \<open>The loop of the random branch: the record, the letter indexes, whether a letter changed, the generator.\<close>

fun mix_letters :: "bytes \<Rightarrow> nat \<Rightarrow> nat \<Rightarrow> u64 \<Rightarrow> bytes \<Rightarrow> nat list \<Rightarrow> bool
    \<Rightarrow> bytes \<times> nat list \<times> bool \<times> u64" where
  "mix_letters [] name_start i rng out letters flipped = (out, letters, flipped, rng)"
| "mix_letters (b # bs) name_start i rng out letters flipped =
     (if \<not> is_ascii_alphabetic b then mix_letters bs name_start (Suc i) rng out letters flipped
      else (let (z, rng) = next_u64 rng;
                new = (if z AND 1 = 0 then to_ascii_lowercase b else to_ascii_uppercase b)
            in mix_letters bs name_start (Suc i) rng (out[name_start + i := new]) (letters @ [i])
                 (flipped \<or> new \<noteq> b)))"

definition mixed_case_apply :: "bool \<Rightarrow> bytes \<Rightarrow> u64 \<Rightarrow> bytes option res" where
  "mixed_case_apply flip_all record' rng = (case find_sni_range record' of
     Panic \<Rightarrow> Panic
   | Ok r \<Rightarrow> ques r (\<lambda>(name_start, name_len).
       let name = slice record' name_start (name_start + name_len) in
       if flip_all then Ok (Some (flip_letters name name_start 0 record'))
       else (let (out, letters, flipped, rng) = mix_letters name name_start 0 rng record' [] False in
         if letters = [] then Ok None
         else if \<not> flipped
         then (let (z, rng) = next_u64 rng;
                   i = letters ! (unat z mod length letters)
               in Ok (Some (out[name_start + i := swap_ascii_case (out ! (name_start + i))])))
         else Ok (Some out))))"

section \<open>Letters\<close>

lemma unat_lower: "is_ascii_uppercase b \<Longrightarrow> unat (b + 32) = unat b + 32"
  using unat_add_lem [of b 32] by (simp add: is_ascii_uppercase_def word_le_nat_alt)

lemma unat_upper: "is_ascii_lowercase b \<Longrightarrow> unat (b - 32) = unat b - 32"
  by (simp add: is_ascii_lowercase_def word_le_nat_alt unat_sub)

lemma upper_lower: "is_ascii_uppercase b \<Longrightarrow> is_ascii_lowercase (b + 32) \<and> \<not> is_ascii_uppercase (b + 32)"
  using unat_lower [of b] by (simp add: is_ascii_uppercase_def is_ascii_lowercase_def word_le_nat_alt)

lemma lower_upper: "is_ascii_lowercase b \<Longrightarrow> is_ascii_uppercase (b - 32) \<and> \<not> is_ascii_uppercase b"
  using unat_upper [of b] by (auto simp: is_ascii_uppercase_def is_ascii_lowercase_def word_le_nat_alt)

lemma case_facts:
  "to_ascii_lowercase (to_ascii_lowercase b) = to_ascii_lowercase b"
  "to_ascii_lowercase (to_ascii_uppercase b) = to_ascii_lowercase b"
  "to_ascii_lowercase (swap_ascii_case b) = to_ascii_lowercase b"
  "is_ascii_alphabetic b \<Longrightarrow> swap_ascii_case b \<noteq> b"
  using upper_lower [of b] lower_upper [of b] unat_lower [of b]
  by (auto simp: to_ascii_lowercase_def to_ascii_uppercase_def swap_ascii_case_def is_ascii_alphabetic_def)

section \<open>The result differs in the case of the name only\<close>

definition same_but_case :: "bytes \<Rightarrow> nat \<Rightarrow> nat \<Rightarrow> bytes \<Rightarrow> bool" where
  "same_but_case r lo hi out = (length out = length r
     \<and> (\<forall>j < length r. to_ascii_lowercase (out ! j) = to_ascii_lowercase (r ! j)
          \<and> (j < lo \<or> hi \<le> j \<longrightarrow> out ! j = r ! j)))"

lemma same_but_case_update:
  assumes "same_but_case r lo j out" "lo \<le> j" "j < length r"
    and "to_ascii_lowercase x = to_ascii_lowercase (r ! j)"
  shows "same_but_case r lo (Suc j) (out[j := x])"
  using assms by (auto simp: same_but_case_def nth_list_update)

lemma same_but_case_mono: "same_but_case r lo hi out \<Longrightarrow> hi \<le> hi' \<Longrightarrow> same_but_case r lo hi' out"
  by (auto simp: same_but_case_def)

lemma flip_letters_same:
  assumes "same_but_case r ns (ns + i) out" "ns + i + length bs \<le> length r"
    and "\<forall>k < length bs. bs ! k = r ! (ns + i + k)"
  shows "same_but_case r ns (ns + i + length bs) (flip_letters bs ns i out)"
  using assms
proof (induction bs arbitrary: i out)
  case (Cons b bs)
  have b: "b = r ! (ns + i)" using Cons.prems(3) by force
  have "same_but_case r ns (ns + Suc i)
      (if is_ascii_alphabetic b then out[ns + i := swap_ascii_case b] else out)"
    using Cons.prems(1,2) same_but_case_update [of r ns "ns + i" out "swap_ascii_case b"] b
    by (auto simp: case_facts intro: same_but_case_mono)
  moreover have "\<forall>k < length bs. bs ! k = r ! (ns + Suc i + k)" using Cons.prems(3) by force
  ultimately show ?case using Cons.IH Cons.prems(2) by fastforce
qed simp

lemma mix_letters_same:
  assumes "mix_letters bs ns i rng out letters flipped = (out', letters', flipped', rng')"
    and "same_but_case r ns (ns + i) out" "ns + i + length bs \<le> length r"
    and "\<forall>k < length bs. bs ! k = r ! (ns + i + k)"
    and "flipped \<longleftrightarrow> out \<noteq> r" "\<forall>l \<in> set letters. ns + l < length r \<and> l < i + length bs \<and> is_ascii_alphabetic (r ! (ns + l))"
  shows "same_but_case r ns (ns + i + length bs) out' \<and> (flipped' \<longleftrightarrow> out' \<noteq> r)
    \<and> (\<forall>l \<in> set letters'. ns + l < length r \<and> l < i + length bs \<and> is_ascii_alphabetic (r ! (ns + l)))"
  using assms
proof (induction bs arbitrary: i rng out letters flipped)
  case (Cons b bs)
  have b: "b = r ! (ns + i)" using Cons.prems(4) by force
  have rest: "\<forall>k < length bs. bs ! k = r ! (ns + Suc i + k)" using Cons.prems(4) by force
  obtain z rng2 where z: "next_u64 rng = (z, rng2)" by force
  let ?new = "if z AND 1 = 0 then to_ascii_lowercase b else to_ascii_uppercase b"
  show ?case
  proof (cases "is_ascii_alphabetic b")
    case False
    have "same_but_case r ns (ns + Suc i) out" using Cons.prems(2) by (rule same_but_case_mono) simp
    from Cons.IH [OF _ this _ rest Cons.prems(5), of rng letters] Cons.prems(1,3,6) False show ?thesis
      by simp
  next
    case True
    have here: "out ! (ns + i) = r ! (ns + i)" "length out = length r"
      using Cons.prems(2,3) by (simp_all add: same_but_case_def)
    have s: "same_but_case r ns (ns + Suc i) (out[ns + i := ?new])"
      using same_but_case_update [OF Cons.prems(2), of ?new] Cons.prems(3) b by (simp add: case_facts)
    have f: "(flipped \<or> ?new \<noteq> b) \<longleftrightarrow> out[ns + i := ?new] \<noteq> r"
    proof (cases "?new = b")
      case True
      have "out[ns + i := r ! (ns + i)] = out" unfolding here(1) [symmetric] by (rule list_update_id)
      then show ?thesis using Cons.prems(5) b unfolding True by simp
    next
      case False
      have upd: "out[ns + i := ?new] ! (ns + i) = ?new" using here Cons.prems(3) by simp
      have "out[ns + i := ?new] \<noteq> r"
      proof
        assume eq: "out[ns + i := ?new] = r"
        from upd have "r ! (ns + i) = ?new" unfolding eq .
        with False b show False by (rule_tac notE) simp_all
      qed
      with False show ?thesis by blast
    qed
    have m: "mix_letters bs ns (Suc i) rng2 (out[ns + i := ?new]) (letters @ [i]) (flipped \<or> ?new \<noteq> b)
        = (out', letters', flipped', rng')"
      using Cons.prems(1) True z by (simp add: Let_def)
    have "is_ascii_alphabetic (r ! (ns + i))" using True b by simp
    with Cons.IH [OF m s _ rest f] Cons.prems(3,6) show ?thesis by simp
  qed
qed simp

text \<open>
  Mixing the case of the SNI changes nothing else: the record keeps its length, every byte is equal
  up to ASCII case and bytes outside the host name are identical, the SNI is found at the same
  place, and the random branch changes at least one letter.
\<close>

theorem mixed_case_changes_case_only:
  assumes b: "find_sni_boundary r = Ok (Some b)" and out: "mixed_case_apply flip_all r rng = Ok (Some out)"
  shows "same_but_case r (sb_name_start b) (sb_name_start b + sb_name_len b) out
    \<and> find_sni_boundary out = Ok (Some b) \<and> (\<not> flip_all \<longrightarrow> out \<noteq> r)"
proof -
  let ?ns = "sb_name_start b" and ?n = "sb_name_len b"
  let ?name = "slice r ?ns (?ns + ?n)"
  have len: "?ns + ?n \<le> length r" using find_sni_boundary_sound [OF b] by (simp add: sni_framed_def)
  have rng: "find_sni_range r = Ok (Some (?ns, ?n))" by (simp add: find_sni_range_def b)
  have name: "length ?name = ?n" "\<forall>k < length ?name. ?name ! k = r ! (?ns + 0 + k)"
    using len by (simp_all add: nth_slice)
  have start: "same_but_case r ?ns (?ns + 0) r" by (simp add: same_but_case_def)
  have main: "same_but_case r ?ns (?ns + ?n) out \<and> (\<not> flip_all \<longrightarrow> out \<noteq> r)"
  proof (cases flip_all)
    case True
    then have "out = flip_letters ?name ?ns 0 r" using out by (simp add: mixed_case_apply_def rng Let_def)
    then show ?thesis using True flip_letters_same [OF start _ name(2)] len name(1) by simp
  next
    case False
    obtain o' letters flipped rng' where m:
      "mix_letters ?name ?ns 0 rng r [] False = (o', letters, flipped, rng')" by (metis prod_cases4)
    have inv: "same_but_case r ?ns (?ns + ?n) o'" "flipped \<longleftrightarrow> o' \<noteq> r"
      "\<forall>l \<in> set letters. ?ns + l < length r \<and> l < ?n \<and> is_ascii_alphabetic (r ! (?ns + l))"
      using mix_letters_same [OF m start _ name(2)] len name(1) by auto
    show ?thesis
    proof (cases flipped)
      case True
      then show ?thesis using out False inv by (simp add: mixed_case_apply_def rng m Let_def split: if_splits)
    next
      case nf: False
      define l where "l = letters ! (unat (fst (next_u64 rng')) mod length letters)"
      have ne: "letters \<noteq> []" "out = o'[?ns + l := swap_ascii_case (o' ! (?ns + l))]"
        using out False nf by (auto simp: mixed_case_apply_def rng m Let_def split_beta l_def split: if_splits)
      then have "l \<in> set letters" by (simp add: l_def)
      with inv have l: "?ns + l < length r" "l < ?n" "is_ascii_alphabetic (r ! (?ns + l))" by auto
      have o': "o' = r" using inv(2) nf by simp
      have "out ! (?ns + l) \<noteq> r ! (?ns + l)" using l case_facts(4) by (simp add: ne(2) o')
      moreover have "same_but_case r ?ns (?ns + ?n) out"
        using l by (auto simp: ne(2) o' same_but_case_def nth_list_update case_facts)
      ultimately show ?thesis by auto
    qed
  qed
  then have "find_sni_boundary out = Ok (Some b)"
    using len by (intro find_sni_boundary_local [OF b]) (auto simp: same_but_case_def)
  with main show ?thesis by simp
qed

lemma mixed_case_changes_case_only_witness:
  "mixed_case_apply True small_hello 0 = Ok (Some (take 58 small_hello @ [0x41]))
   \<and> find_sni_boundary (take 58 small_hello @ [0x41])
     = Ok (Some \<lparr>ext_len_field_end = 53, sb_name_start = 58, sb_name_len = 1\<rparr>)"
proof -
  have "mixed_case_apply True small_hello 0 = Ok (Some (take 58 small_hello @ [0x41]))" by code_simp
  with mixed_case_changes_case_only [OF small_hello_boundary this] show ?thesis by simp
qed

end
