(* ===== verification/Tls_Padding.thy ===== *)
theory Tls_Padding
  imports Sni Interceptor
begin

text \<open>
  The \<^verbatim>\<open>tls_padding\<close> method, src/crates/zerodpi-core/src/methods/tls_padding.rs: it inserts an RFC 7685
  padding extension into the first ClientHello, in front of the SNI extension or at the end, and
  updates the three nested length fields. The reference is a parser of the extension list.
\<close>

section \<open>The code\<close>

record TlsPadding =
  pad_size :: Int32Range
  pad_position :: PaddingPosition

record ClientHelloLayout =
  ext_len_off :: nat
  ext_start :: nat
  sni_off :: "nat option"

text \<open>The scan for the SNI extension; \<open>None\<close> for a malformed list.\<close>

function scan_for_sni :: "bytes \<Rightarrow> nat \<Rightarrow> nat option \<Rightarrow> nat option option" where
  "scan_for_sni body q found =
     (if q < length body then
        (if length body < q + 4 then None
         else (let etype = read_u16 body q; elen = read_u16 body (q + 2) in
           if length body < q + 4 + elen then None
           else scan_for_sni body (q + 4 + elen) (if etype = 0 then Some q else found)))
      else Some found)"
  by pat_completeness auto
termination
  by (relation "measure (\<lambda>(body, q, found). length body - q)") auto

declare scan_for_sni.simps [simp del]

text \<open>The fields of the ClientHello body in front of the extensions: the offset of the first extension.\<close>

definition extensions_off :: "bytes \<Rightarrow> nat option" where
  "extensions_off body =
     (if length body < 34 then None
      else let p = 34 in
      if length body \<le> p then None
      else let sid_len = unat (body ! p); p = p + 1 in
      if length body < p + sid_len then None
      else let p = p + sid_len in
      if length body < p + 2 then None
      else let cipher_len = read_u16 body p; p = p + 2 in
      if length body < p + cipher_len then None
      else let p = p + cipher_len in
      if length body \<le> p then None
      else let comp_len = unat (body ! p); p = p + 1 in
      if length body < p + comp_len then None
      else let p = p + comp_len in
      if length body < p + 2 then None
      else let ext_len = read_u16 body p; p = p + 2 in
      if p + ext_len \<noteq> length body then None
      else Some p)"

definition parse_client_hello :: "bytes \<Rightarrow> ClientHelloLayout option" where
  "parse_client_hello r =
     (if length r < 9 \<or> r ! 0 \<noteq> 0x16 then None
      else let record_len = read_u16 r 3 in
      if length r \<noteq> 5 + record_len then None
      else if r ! 5 \<noteq> 0x01 then None
      else let hs_len = u24_from_be (r ! 6) (r ! 7) (r ! 8) in
      if 4 + hs_len \<noteq> record_len then None
      else let body = drop 9 r in
      (case extensions_off body of
         None \<Rightarrow> None
       | Some p \<Rightarrow> (case scan_for_sni body p None of
           None \<Rightarrow> None
         | Some s \<Rightarrow> Some \<lparr>ext_len_off = 9 + p - 2, ext_start = 9 + p, sni_off = map_option (\<lambda>off. off + 9) s\<rparr>)))"

definition build_padded :: "bytes \<Rightarrow> ClientHelloLayout \<Rightarrow> nat \<Rightarrow> PaddingPosition \<Rightarrow> bytes" where
  "build_padded r layout pad_len position = (let
     ext_end = length r;
     old_ext_len = read_u16 r (ext_len_off layout);
     add = 4 + pad_len;
     new_ext_len = old_ext_len + add;
     new_hs_len = u24_from_be (r ! 6) (r ! 7) (r ! 8) + add;
     insert_at = (case (position, sni_off layout) of (Before, Some off) \<Rightarrow> off | _ \<Rightarrow> ext_end);
     out = take 6 r @ u24_to_be new_hs_len @ slice r 9 (ext_len_off layout)
       @ u16_to_be (word_of_nat new_ext_len) @ slice r (ext_start layout) insert_at
       @ [0x00, 0x15] @ u16_to_be (word_of_nat pad_len) @ replicate pad_len 0
       @ slice r insert_at ext_end;
     new_record_len = length r - 5 + add
   in splice out 3 (u16_to_be (word_of_nat new_record_len)))"

text \<open>\<^verbatim>\<open>as usize\<close> of an \<^verbatim>\<open>i32\<close> sign-extends; \<^verbatim>\<open>saturating_sub\<close> is subtraction on \<^typ>\<open>nat\<close>.\<close>

definition padding_apply :: "TlsPadding \<Rightarrow> bytes \<Rightarrow> u64 \<Rightarrow> bytes option res" where
  "padding_apply params r rng = ques (parse_client_hello r) (\<lambda>layout.
     case sample_i32 (pad_size params) rng of
       Panic \<Rightarrow> Panic
     | Ok (v, rng) \<Rightarrow> (let
         pad_len = nat (v mod 2 ^ 64);
         max_pad = 16383 - (length r - 5 + 4);
         pad_len = min pad_len max_pad
       in if pad_len = 0 then Ok None
          else Ok (Some (build_padded r layout pad_len (pad_position params)))))"

section \<open>Extension lists\<close>

function tls_exts :: "bytes \<Rightarrow> (nat \<times> bytes) list option" where
  "tls_exts xs =
     (if xs = [] then Some []
      else if length xs < 4 then None
      else (let n = read_u16 xs 2 in
        if length xs < 4 + n then None
        else map_option (Cons (read_u16 xs 0, slice xs 4 (4 + n))) (tls_exts (drop (4 + n) xs))))"
  by pat_completeness auto
termination
  by (relation "measure length") auto

declare tls_exts.simps [simp del]

definition encode_ext :: "nat \<times> bytes \<Rightarrow> bytes" where
  "encode_ext e = u16_to_be (word_of_nat (fst e)) @ u16_to_be (word_of_nat (length (snd e))) @ snd e"

definition encode_exts :: "(nat \<times> bytes) list \<Rightarrow> bytes" where
  "encode_exts es = concat (map encode_ext es)"

definition ext_ok :: "nat \<times> bytes \<Rightarrow> bool" where
  "ext_ok e = (fst e < 65536 \<and> length (snd e) < 65536)"

lemma read_u16_of_be: "n < 65536 \<Longrightarrow> read_u16 (u16_to_be (word_of_nat n) @ rest) 0 = n"
proof -
  assume n: "n < 65536"
  have "u16_from_be (u16_to_be (word_of_nat n) ! 0) (u16_to_be (word_of_nat n) ! 1) = (word_of_nat n :: u16)"
    by (rule u16_from_to_be)
  then have "read_u16 (u16_to_be (word_of_nat n) @ rest) 0 = unat (word_of_nat n :: u16)"
    by (simp add: read_u16_def nth_append)
  then show ?thesis using n by (simp only: unat_u16_of_nat mod_less)
qed

lemma read_u16_append: "length xs \<le> i \<Longrightarrow> read_u16 (xs @ ys) i = read_u16 ys (i - length xs)"
  by (simp add: read_u16_def nth_append Suc_diff_le)

lemma tls_exts_encode:
  assumes "ext_ok e"
  shows "tls_exts (encode_ext e @ rest) = map_option (Cons e) (tls_exts rest)"
proof -
  let ?xs = "encode_ext e @ rest"
  have "read_u16 ?xs 0 = fst e" "read_u16 ?xs 2 = length (snd e)"
    using assms read_u16_of_be by (simp_all add: encode_ext_def ext_ok_def read_u16_append)
  moreover have "length ?xs = 4 + length (snd e) + length rest" "slice ?xs 4 (4 + length (snd e)) = snd e"
    "drop (4 + length (snd e)) ?xs = rest" "?xs \<noteq> []"
    by (simp_all add: encode_ext_def slice_def) (simp add: u16_to_be_def)
  ultimately show ?thesis by (subst tls_exts.simps) (simp only: Let_def if_False, simp)
qed

lemma tls_exts_encode_exts:
  "\<forall>e \<in> set es. ext_ok e \<Longrightarrow> tls_exts (encode_exts es @ rest) = map_option ((@) es) (tls_exts rest)"
proof (induction es)
  case Nil
  show ?case by (cases "tls_exts rest") (simp_all add: encode_exts_def)
next
  case (Cons e es)
  then show ?case by (cases "tls_exts rest") (simp_all add: encode_exts_def tls_exts_encode)
qed

lemma encode_of_read:
  "i + 2 \<le> length xs \<Longrightarrow> u16_to_be (word_of_nat (read_u16 xs i)) = slice xs i (i + 2)"
proof -
  assume i: "i + 2 \<le> length xs"
  have "(word_of_nat (read_u16 xs i) :: u16) = u16_from_be (xs ! i) (xs ! (i + 1))" by (simp add: read_u16_def)
  then have "u16_to_be (word_of_nat (read_u16 xs i)) = [xs ! i, xs ! (i + 1)]" by (simp only: u16_to_from_be)
  also have "\<dots> = slice xs i (i + 2)"
    using i by (simp add: slice_def numeral_2_eq_2 take_Suc_conv_app_nth)
  finally show ?thesis .
qed

lemma tls_exts_sound: "tls_exts xs = Some es \<Longrightarrow> encode_exts es = xs \<and> (\<forall>e \<in> set es. ext_ok e)"
proof (induction xs arbitrary: es rule: tls_exts.induct)
  case (1 xs)
  show ?case
  proof (cases "xs = []")
    case True
    then show ?thesis using 1(2) by (simp add: tls_exts.simps encode_exts_def)
  next
    case False
    let ?n = "read_u16 xs 2"
    obtain es' where len: "4 \<le> length xs" "4 + ?n \<le> length xs" and es': "tls_exts (drop (4 + ?n) xs) = Some es'"
      and es: "es = (read_u16 xs 0, slice xs 4 (4 + ?n)) # es'"
      using 1(2) False by (subst (asm) tls_exts.simps) (auto simp: Let_def split: if_splits)
    have "encode_ext (read_u16 xs 0, slice xs 4 (4 + ?n)) = take (4 + ?n) xs"
    proof -
      have "u16_to_be (word_of_nat (read_u16 xs 0)) = slice xs 0 2" "u16_to_be (word_of_nat ?n) = slice xs 2 4"
        using encode_of_read [of 0 xs] encode_of_read [of 2 xs] len by (simp_all add: numeral_eq_Suc)
      moreover have "slice xs 2 4 @ slice xs 4 (4 + ?n) = slice xs 2 (4 + ?n)"
        "slice xs 0 2 @ slice xs 2 (4 + ?n) = slice xs 0 (4 + ?n)" by (simp_all add: slice_split)
      ultimately show ?thesis using len by (simp add: encode_ext_def slice_0)
    qed
    moreover have "ext_ok (read_u16 xs 0, slice xs 4 (4 + ?n))"
      using len by (auto simp: ext_ok_def read_u16_def)
    ultimately show ?thesis
      using 1(1) [OF False _ refl _ es'] len es by (auto simp: encode_exts_def)
  qed
qed

text \<open>The position of the last extension of type 0.\<close>

fun last_sni :: "nat \<Rightarrow> (nat \<times> bytes) list \<Rightarrow> nat option \<Rightarrow> nat option" where
  "last_sni q [] found = found"
| "last_sni q (e # es) found =
     last_sni (q + 4 + length (snd e)) es (if fst e = 0 then Some q else found)"

lemma last_sni_None: "last_sni q es found = None \<longleftrightarrow> found = None \<and> (\<forall>e \<in> set es. fst e \<noteq> 0)"
  by (induction es arbitrary: q found) auto

lemma last_sni_split:
  "last_sni q es found = Some pos \<Longrightarrow> found = Some pos \<or>
   (\<exists>xs ys. es = xs @ ys \<and> ys \<noteq> [] \<and> fst (hd ys) = 0 \<and> pos = q + length (encode_exts xs))"
proof (induction es arbitrary: q found)
  case (Cons e es)
  from Cons.IH [OF Cons.prems [simplified]] show ?case
  proof (elim disjE exE conjE)
    assume "(if fst e = 0 then Some q else found) = Some pos"
    then show ?thesis by (cases "fst e = 0") (auto simp: encode_exts_def intro: exI [of _ "[]"])
  next
    fix xs ys assume "es = xs @ ys" "ys \<noteq> []" "fst (hd ys) = 0"
      "pos = q + 4 + length (snd e) + length (encode_exts xs)"
    then show ?thesis by (intro disjI2 exI [of _ "e # xs"] exI [of _ ys])
        (simp add: encode_exts_def encode_ext_def)
  qed
qed simp

lemma scan_for_sni_exts:
  "q \<le> length body \<Longrightarrow>
   scan_for_sni body q found = map_option (\<lambda>es. last_sni q es found) (tls_exts (drop q body))"
proof (induction body q found rule: scan_for_sni.induct)
  case (1 body q found)
  let ?d = "drop q body" and ?n = "read_u16 body (q + 2)"
  have r: "read_u16 ?d 0 = read_u16 body q" "read_u16 ?d 2 = ?n" if "4 \<le> length ?d"
    using that by (simp_all add: read_u16_def numeral_eq_Suc)
  consider (finished) "q = length body" | (short) "q < length body" "length ?d < 4"
    | (incomplete) "4 \<le> length ?d" "length ?d < 4 + ?n" | (ext) "4 + ?n \<le> length ?d"
    using 1(2) by fastforce
  then show ?case
  proof cases
    case finished
    then show ?thesis by (simp add: scan_for_sni.simps tls_exts.simps)
  next
    case short
    then show ?thesis by (subst scan_for_sni.simps, subst tls_exts.simps) auto
  next
    case incomplete
    with r show ?thesis by (subst scan_for_sni.simps, subst tls_exts.simps) (auto simp: Let_def)
  next
    case ext
    then have sz: "q < length body" "\<not> length body < q + 4" "\<not> length body < q + 4 + ?n" by auto
    have "tls_exts ?d = map_option (Cons (read_u16 body q, slice ?d 4 (4 + ?n))) (tls_exts (drop (q + 4 + ?n) body))"
      using ext r by (subst tls_exts.simps) (auto simp: Let_def ac_simps)
    moreover have "length (slice ?d 4 (4 + ?n)) = ?n" using ext by simp
    ultimately show ?thesis using 1(1) [OF sz(1,2) refl refl sz(3)] sz
      by (subst scan_for_sni.simps) (simp add: Let_def option.map_comp comp_def)
  qed
qed

section \<open>The layout of a ClientHello\<close>

lemma extensions_off_closed:
  "extensions_off body = (if hello_ext_off body + read_u16 body (hello_ext_off body - 2) = length body
     then Some (hello_ext_off body) else None)"
proof -
  let ?sid = "hello_sid body" and ?c = "hello_comp_off body" and ?p = "hello_ext_off body"
  have c: "35 + ?sid + 2 + hello_suites body = ?c" "?c + 1 + unat (body ! ?c) + 2 = ?p"
    "?c + 1 + unat (body ! ?c) = ?p - 2"
    by (simp_all add: hello_ext_off_def hello_comp_off_def)
  have su: "read_u16 body (?sid + 35) = hello_suites body" by (simp add: hello_suites_def add.commute)
  have "extensions_off body = (if length body \<le> 34 \<or> length body < 35 + ?sid \<or> length body < 35 + ?sid + 2
      \<or> length body < ?c \<or> length body \<le> ?c \<or> length body < ?p - 2 \<or> length body < ?p - 2 + 2
      \<or> ?p + read_u16 body (?p - 2) \<noteq> length body then None else Some ?p)"
    unfolding extensions_off_def Let_def hello_sid_def [symmetric]
    by (simp add: su hello_ext_off_def hello_comp_off_def ac_simps)
  then show ?thesis using c by auto
qed

lemma hello_ext_off_cong:
  assumes "\<forall>i < hello_ext_off b - 2. b' ! i = b ! i"
  shows "hello_ext_off b' = hello_ext_off b"
proof -
  have lt: "34 < hello_ext_off b - 2" "36 + hello_sid b < hello_ext_off b - 2" "hello_comp_off b < hello_ext_off b - 2"
    by (simp_all add: hello_ext_off_def hello_comp_off_def)
  have sid: "hello_sid b' = hello_sid b" using assms lt(1) by (simp add: hello_sid_def)
  have "hello_suites b' = hello_suites b" using assms lt(2) by (simp add: hello_suites_def sid read_u16_def)
  then have "hello_comp_off b' = hello_comp_off b" by (simp add: hello_comp_off_def sid)
  then show ?thesis using assms lt(3) by (simp add: hello_ext_off_def)
qed

text \<open>A record with consistent length fields: the prefix of the body and the list of extensions.\<close>

definition hello_wf :: "bytes \<Rightarrow> bool" where
  "hello_wf r = (9 \<le> length r \<and> r ! 0 = 0x16 \<and> length r = 5 + read_u16 r 3 \<and> r ! 5 = 0x01
     \<and> 4 + u24_from_be (r ! 6) (r ! 7) (r ! 8) = read_u16 r 3
     \<and> hello_ext_off (drop 9 r) + read_u16 (drop 9 r) (hello_ext_off (drop 9 r) - 2) = length (drop 9 r))"

definition hello_exts :: "bytes \<Rightarrow> (nat \<times> bytes) list option" where
  "hello_exts r = (if hello_wf r then tls_exts (drop (hello_ext_off (drop 9 r)) (drop 9 r)) else None)"

lemma parse_client_hello_closed:
  "parse_client_hello r = map_option (\<lambda>es. let p = hello_ext_off (drop 9 r) in
     \<lparr>ext_len_off = 9 + p - 2, ext_start = 9 + p,
      sni_off = map_option (\<lambda>off. off + 9) (last_sni p es None)\<rparr>) (hello_exts r)"
proof (cases "hello_wf r")
  case True
  let ?p = "hello_ext_off (drop 9 r)"
  have "?p \<le> length (drop 9 r)" using True unfolding hello_wf_def by linarith
  then have "scan_for_sni (drop 9 r) ?p None
      = map_option (\<lambda>es. last_sni ?p es None) (tls_exts (drop ?p (drop 9 r)))" by (rule scan_for_sni_exts)
  with True show ?thesis
    unfolding parse_client_hello_def hello_exts_def hello_wf_def extensions_off_closed
    by (simp add: Let_def option.case_eq_if map_option_case)
next
  case False
  then show ?thesis
    unfolding parse_client_hello_def hello_exts_def hello_wf_def extensions_off_closed
    by (auto simp: Let_def)
qed

lemma insert_position:
  assumes exts: "hello_exts r = Some es" and l: "parse_client_hello r = Some l"
  obtains xs ys where "es = xs @ ys"
    "(case (position, sni_off l) of (Before, Some off) \<Rightarrow> off | _ \<Rightarrow> length r)
       = ext_start l + length (encode_exts xs)"
    "position = Before \<and> sni_off l \<noteq> None \<longleftrightarrow> ys \<noteq> [] \<and> position = Before" "ys \<noteq> [] \<longrightarrow> fst (hd ys) = 0"
    "position = After \<longrightarrow> ys = []"
proof -
  let ?p = "hello_ext_off (drop 9 r)"
  have wf: "hello_wf r" and ts: "tls_exts (drop ?p (drop 9 r)) = Some es"
    using exts by (auto simp: hello_exts_def split: if_splits)
  have lay: "ext_start l = 9 + ?p" "sni_off l = map_option (\<lambda>off. off + 9) (last_sni ?p es None)"
    using l exts by (auto simp: parse_client_hello_closed Let_def)
  have "length (encode_exts es) = length (drop ?p (drop 9 r))" using tls_exts_sound [OF ts] by simp
  moreover have "?p \<le> length (drop 9 r)" "9 \<le> length r" using wf unfolding hello_wf_def by linarith+
  ultimately have full: "length r = ext_start l + length (encode_exts es)" using lay(1) by simp
  show thesis
  proof (cases "position = Before \<and> sni_off l \<noteq> None")
    case True
    then obtain pos where pos: "last_sni ?p es None = Some pos" "sni_off l = Some (pos + 9)" using lay(2) by auto
    obtain xs ys where "es = xs @ ys" "ys \<noteq> []" "fst (hd ys) = 0" "pos = ?p + length (encode_exts xs)"
      using last_sni_split [OF pos(1)] by auto
    with True pos lay(1) show ?thesis by (intro that [of xs ys]) auto
  next
    case False
    with full show ?thesis
      by (intro that [of es "[]"]) (auto split: PaddingPosition.splits option.splits)
  qed
qed

section \<open>The padded record\<close>

lemma padded_fields:
  assumes out: "out = take 3 r @ u16_to_be (word_of_nat rl) @ [r ! 5] @ u24_to_be hl @ pre
      @ u16_to_be (word_of_nat el) @ tail"
    and len: "6 \<le> length r" and b: "rl < 65536" "hl < 16777216" "el < 65536"
  shows "length out = 11 + length pre + length tail" "out ! 0 = r ! 0" "read_u16 out 3 = rl" "out ! 5 = r ! 5"
    "u24_from_be (out ! 6) (out ! 7) (out ! 8) = hl"
    "drop 9 out = pre @ u16_to_be (word_of_nat el) @ tail"
    "read_u16 (drop 9 out) (length pre) = el"
    "drop (length pre + 2) (drop 9 out) = tail"
proof -
  show "length out = 11 + length pre + length tail" using len by (simp add: out)
  show "out ! 0 = r ! 0" using len by (simp add: out nth_append)
  show "read_u16 out 3 = rl"
    using len b(1) by (simp add: out read_u16_append read_u16_of_be)
  show "out ! 5 = r ! 5" using len by (simp add: out nth_append)
  show "u24_from_be (out ! 6) (out ! 7) (out ! 8) = hl"
    using len u24_from_to_be [OF b(2)] by (simp add: out nth_append)
  show d: "drop 9 out = pre @ u16_to_be (word_of_nat el) @ tail" using len by (simp add: out)
  show "read_u16 (drop 9 out) (length pre) = el"
    unfolding d using b(3) by (simp add: read_u16_append read_u16_of_be)
  show "drop (length pre + 2) (drop 9 out) = tail" unfolding d by simp
qed

lemma build_padded_form:
  assumes "hello_wf r" "es = xs @ ys" "tls_exts (drop (hello_ext_off (drop 9 r)) (drop 9 r)) = Some es"
    and l: "ext_len_off l = 9 + hello_ext_off (drop 9 r) - 2" "ext_start l = 9 + hello_ext_off (drop 9 r)"
    and ins: "(case (position, sni_off l) of (Before, Some off) \<Rightarrow> off | _ \<Rightarrow> length r)
       = ext_start l + length (encode_exts xs)"
    and n: "n < 65536"
  shows "build_padded r l n position =
    take 3 r @ u16_to_be (word_of_nat (length r - 5 + (4 + n))) @ [r ! 5]
      @ u24_to_be (u24_from_be (r ! 6) (r ! 7) (r ! 8) + (4 + n))
      @ take (hello_ext_off (drop 9 r) - 2) (drop 9 r)
      @ u16_to_be (word_of_nat (read_u16 (drop 9 r) (hello_ext_off (drop 9 r) - 2) + (4 + n)))
      @ encode_exts (xs @ [(21, replicate n 0)] @ ys)"
proof -
  let ?p = "hello_ext_off (drop 9 r)"
  have wf: "9 \<le> length r" "?p \<le> length (drop 9 r)" using assms(1) unfolding hello_wf_def by linarith+
  have p: "37 < ?p" by (simp add: hello_ext_off_def hello_comp_off_def)
  have enc: "encode_exts xs @ encode_exts ys = drop (9 + ?p) r"
    using tls_exts_sound [OF assms(3)] assms(2) by (simp add: encode_exts_def add.commute)
  have xs: "slice r (9 + ?p) (9 + ?p + length (encode_exts xs)) = encode_exts xs"
    by (simp add: slice_def enc [symmetric])
  have "drop (9 + ?p + length (encode_exts xs)) r = drop (length (encode_exts xs)) (drop (9 + ?p) r)"
    by (simp add: add.commute)
  then have ys: "slice r (9 + ?p + length (encode_exts xs)) (length r) = encode_exts ys"
    by (simp add: slice_to_end enc [symmetric])
  have pad: "encode_ext (21, replicate n 0) = [0x00, 0x15] @ u16_to_be (word_of_nat n) @ replicate n 0"
    by (simp add: encode_ext_def u16_to_be_def)
  have t6: "take 6 r = take 3 r @ [r ! 3, r ! 4] @ [r ! 5]"
    using wf(1) by (simp add: take_Suc_conv_app_nth numeral_eq_Suc)
  have pre: "slice r 9 (9 + ?p - 2) = take (?p - 2) (drop 9 r)" using p by (simp add: slice_def)
  have rd: "read_u16 r (9 + ?p - 2) = read_u16 (drop 9 r) (?p - 2)"
    using p wf by (simp add: read_u16_def)
  show ?thesis
    unfolding build_padded_def Let_def ins l xs ys pre rd t6
    using wf(1) by (simp add: splice_def encode_exts_def pad)
qed

text \<open>
  C38. Padding inserts exactly one extension. When the code pads a ClientHello, the result is again
  a record whose three nested length fields are consistent, at most 16383 bytes of body, whose
  extensions are those of the input with one zero-filled padding extension (type 21) inserted: in front of an
  SNI extension for the position \<^verbatim>\<open>before\<close> when there is one, at the end otherwise.
\<close>

theorem padding_inserts_extension:
  assumes ap: "padding_apply params r rng = Ok (Some out)"
  shows "\<exists>xs ys n. 0 < n \<and> hello_exts r = Some (xs @ ys)
    \<and> hello_exts out = Some (xs @ [(21, replicate n 0)] @ ys)
    \<and> length out = length r + 4 + n \<and> length out \<le> 5 + 16383
    \<and> (ys \<noteq> [] \<longrightarrow> pad_position params = Before \<and> fst (hd ys) = 0)
    \<and> (pad_position params = Before \<and> (\<exists>e \<in> set (xs @ ys). fst e = 0) \<longrightarrow> ys \<noteq> [])"
proof -
  obtain l where l: "parse_client_hello r = Some l" using ap by (cases "parse_client_hello r") (auto simp: padding_apply_def)
  then obtain es where es: "hello_exts r = Some es" by (auto simp: parse_client_hello_closed)
  obtain n where n: "0 < n" "n \<le> 16383 - (length r - 5 + 4)" "out = build_padded r l n (pad_position params)"
  proof -
    obtain v rng' where v: "sample_i32 (pad_size params) rng = Ok (v, rng')"
      using ap l by (auto simp: padding_apply_def split: res.splits)
    define m where "m = min (nat (v mod 2 ^ 64)) (16383 - (length r - 5 + 4))"
    have "0 < m" "out = build_padded r l m (pad_position params)"
      unfolding m_def using ap l v by (auto simp: padding_apply_def Let_def split: if_splits)
    then show ?thesis by (intro that [of m]) (simp_all add: m_def)
  qed
  obtain xs ys where s: "es = xs @ ys"
    "(case (pad_position params, sni_off l) of (Before, Some off) \<Rightarrow> off | _ \<Rightarrow> length r)
       = ext_start l + length (encode_exts xs)"
    "pad_position params = Before \<and> sni_off l \<noteq> None \<longleftrightarrow> ys \<noteq> [] \<and> pad_position params = Before"
    "ys \<noteq> [] \<longrightarrow> fst (hd ys) = 0" "pad_position params = After \<longrightarrow> ys = []"
    by (rule insert_position [OF es l])
  let ?p = "hello_ext_off (drop 9 r)" and ?rl = "length r - 5 + (4 + n)"
  have wf: "hello_wf r" and ts: "tls_exts (drop ?p (drop 9 r)) = Some es"
    using es by (auto simp: hello_exts_def split: if_splits)
  have r: "9 \<le> length r" "length r = 5 + read_u16 r 3" "4 + u24_from_be (r ! 6) (r ! 7) (r ! 8) = read_u16 r 3"
    "r ! 0 = 0x16" "r ! 5 = 0x01" "?p + read_u16 (drop 9 r) (?p - 2) = length (drop 9 r)"
    using wf unfolding hello_wf_def by blast+
  have p: "37 < ?p" by (simp add: hello_ext_off_def hello_comp_off_def)
  have lay: "ext_len_off l = 9 + ?p - 2" "ext_start l = 9 + ?p" "sni_off l = map_option (\<lambda>off. off + 9) (last_sni ?p es None)"
    using l es by (auto simp: parse_client_hello_closed Let_def)
  let ?pre = "take (?p - 2) (drop 9 r)" and ?tail = "encode_exts (xs @ [(21, replicate n 0)] @ ys)"
  let ?hl = "u24_from_be (r ! 6) (r ! 7) (r ! 8) + (4 + n)" and ?el = "read_u16 (drop 9 r) (?p - 2) + (4 + n)"
  have bounds: "?rl \<le> 16383" "?rl < 65536" "?hl < 16777216" "?el < 65536" "n < 65536"
    using n(1,2) r p by auto
  have form: "out = take 3 r @ u16_to_be (word_of_nat ?rl) @ [r ! 5] @ u24_to_be ?hl @ ?pre
      @ u16_to_be (word_of_nat ?el) @ ?tail"
    unfolding n(3) by (rule build_padded_form [OF wf s(1) ts lay(1,2) s(2) bounds(5)])
  have r6: "6 \<le> length r" using r(1) by simp
  note fields = padded_fields [OF form r6 bounds(2,3,4)]
  have pre: "length ?pre = ?p - 2" using r(6) by simp
  have tail: "length ?tail = length (drop ?p (drop 9 r)) + 4 + n"
  proof -
    have "length (encode_exts xs) + length (encode_exts ys) = length (drop ?p (drop 9 r))"
      using tls_exts_sound [OF ts] s(1) by (metis encode_exts_def length_append map_append concat_append)
    then show ?thesis by (simp add: encode_exts_def encode_ext_def)
  qed
  have off: "hello_ext_off (drop 9 out) = ?p"
  proof (rule hello_ext_off_cong)
    have "?p \<le> length (drop 9 r)" using r(6) by linarith
    then show "\<forall>i < ?p - 2. drop 9 out ! i = drop 9 r ! i" unfolding fields(6) by (simp add: nth_append)
  qed
  have outlen: "length out = length r + 4 + n" using fields(1) pre tail r(1,6) p by simp
  have "?p - 2 + 2 = ?p" using p by simp
  then have exts: "drop ?p (drop 9 out) = ?tail" using fields(8) unfolding pre by simp
  have "hello_wf out"
    unfolding hello_wf_def off fields(2-5) using fields(7) r p bounds outlen unfolding pre by auto
  moreover have "tls_exts ?tail = Some (xs @ [(21, replicate n 0)] @ ys)"
  proof -
    have "\<forall>e \<in> set (xs @ [(21, replicate n 0)] @ ys). ext_ok e"
      using tls_exts_sound [OF ts] s(1) bounds(5) by (auto simp: ext_ok_def)
    from tls_exts_encode_exts [OF this, of "[]"] show ?thesis by (simp add: tls_exts.simps [of "[]"])
  qed
  ultimately have "hello_exts out = Some (xs @ [(21, replicate n 0)] @ ys)"
    by (simp only: hello_exts_def if_True off exts)
  moreover have "\<exists>e \<in> set (xs @ ys). fst e = 0 \<Longrightarrow> sni_off l \<noteq> None"
    using lay(3) last_sni_None [of ?p es None] s(1) by auto
  ultimately show ?thesis
    using n(1) es s outlen bounds(1) r(1) by (intro exI [of _ xs] exI [of _ ys] exI [of _ n])
      (cases "pad_position params"; auto)
qed

lemma padding_inserts_extension_witness:
  "\<exists>out n. padding_apply \<lparr>pad_size = exact 2, pad_position = Before\<rparr> small_hello 0 = Ok (Some out)
     \<and> 0 < n \<and> hello_exts out = Some [(21, replicate n 0), (0, [0, 4, 0, 0, 1, 0x61])]"
proof -
  have "parse_client_hello small_hello = Some \<lparr>ext_len_off = 47, ext_start = 49, sni_off = Some 49\<rparr>"
    "length small_hello = 59" by code_simp+
  then obtain out where ap: "padding_apply \<lparr>pad_size = exact 2, pad_position = Before\<rparr> small_hello 0 = Ok (Some out)"
    by (simp add: padding_apply_def sample_i32_def exact_def Let_def)
  have ex: "hello_exts small_hello = Some [(0, [0, 4, 0, 0, 1, 0x61])]" by code_simp
  obtain xs ys n where p: "0 < n" "hello_exts small_hello = Some (xs @ ys)"
    "hello_exts out = Some (xs @ [(21, replicate n 0)] @ ys)"
    "pad_position \<lparr>pad_size = exact 2, pad_position = Before\<rparr> = Before \<and> (\<exists>e \<in> set (xs @ ys). fst e = 0) \<longrightarrow> ys \<noteq> []"
    using padding_inserts_extension [OF ap] by blast
  have "xs @ ys = [(0, [0, 4, 0, 0, 1, 0x61])]" using p(2) ex by simp
  moreover from this have "ys \<noteq> []" using p(4) by simp
  ultimately have "xs = []" "ys = [(0, [0, 4, 0, 0, 1, 0x61])]" by (auto simp: append_eq_Cons_conv)
  with p ap show ?thesis by auto
qed

end
