(* ===== verification/Tls_Template.thy ===== *)
theory Tls_Template
  imports Tls_Padding
begin

text \<open>
  The decoy ClientHello, src/crates/zerodpi-core/src/tls_template.rs: a fixed template in which the
  random, the session id, the server name and the key share are replaced and a padding extension keeps
  the length constant. The theorems read the result with the two parsers of the development.
\<close>

section \<open>The code\<close>

definition TLS_CH_TEMPLATE_HEX :: string where
  "TLS_CH_TEMPLATE_HEX =
     ''1603010200010001fc030341d5b549d9cd1adfa7296c8418d157dc7b624c842824ff493b9375bb48'' @
     ''d34f2b20bf018bcc90a7c89a230094815ad0c15b736e38c01209d72d282cb5e21053281500241302'' @
     ''13031301c02cc030c02bc02fcca9cca8c024c028c023c027009f009e006b006700ff0100018f0000'' @
     ''000b00090000066d63692e6972000b000403000102000a00160014001d0017001e00190018010001'' @
     ''01010201030104002300000010000e000c02683208687474702f312e310016000000170000000d00'' @
     ''2a0028040305030603080708080809080a080b080408050806040105010601030303010302040205'' @
     ''020602002b00050403040303002d00020101003300260024001d0020435bacc4d05f9d41fef44ab3'' @
     ''ad55616c36e0613473e2338770efdaa98693d217001500d500000000000000000000000000000000'' @
     ''00000000000000000000000000000000000000000000000000000000000000000000000000000000'' @
     ''00000000000000000000000000000000000000000000000000000000000000000000000000000000'' @
     ''00000000000000000000000000000000000000000000000000000000000000000000000000000000'' @
     ''00000000000000000000000000000000000000000000000000000000000000000000000000000000'' @
     ''00000000000000000000000000000000000000000000000000000000000000000000000000''"

text \<open>\<^verbatim>\<open>template_bytes\<close>: a digit that is not hexadecimal panics.\<close>

definition template_bytes :: "bytes res" where
  "template_bytes = (case hex_pairs TLS_CH_TEMPLATE_HEX of Inr bs \<Rightarrow> Ok bs | Inl _ \<Rightarrow> Panic)"

definition build_client_hello :: "bytes \<Rightarrow> bytes \<Rightarrow> bytes \<Rightarrow> bytes \<Rightarrow> bytes res" where
  "build_client_hello random session_id target_sni key_share =
     (if length random \<noteq> 32 \<or> length session_id \<noteq> 32 \<or> length key_share \<noteq> 32 \<or> 219 < length target_sni
      then Panic
      else (case template_bytes of Panic \<Rightarrow> Panic | Ok template \<Rightarrow> (let
        static1 = take 11 template;
        static2 = [0x20];
        static3 = slice template 76 120;
        static4 = slice template (127 + 6) (262 + 6);
        static5 = [0x00, 0x15];
        sni_len = length target_sni;
        server_name_ext = u16_to_be (word_of_nat (sni_len + 5)) @ u16_to_be (word_of_nat (sni_len + 3))
          @ [0x00] @ u16_to_be (word_of_nat sni_len) @ target_sni;
        pad_len = 219 - sni_len;
        padding_ext = resize (2 + pad_len) 0 (u16_to_be (word_of_nat pad_len))
      in Ok (static1 @ random @ static2 @ session_id @ static3 @ server_name_ext @ static4 @ key_share
             @ static5 @ padding_ext))))"

section \<open>The template\<close>

text \<open>The parts of the template that the code copies.\<close>

definition tmpl_suites :: bytes where
  "tmpl_suites = [0, 36, 19, 2, 19, 3, 19, 1, 192, 44, 192, 48, 192, 43, 192, 47, 204, 169, 204, 168, 192,
     36, 192, 40, 192, 35, 192, 39, 0, 159, 0, 158, 0, 107, 0, 103, 0, 255, 1, 0]"

text \<open>The extensions between the server name and the key share.\<close>

definition tmpl_exts :: "(nat \<times> bytes) list" where
  "tmpl_exts = [(11, [3, 0, 1, 2]),
     (10, [0, 20, 0, 29, 0, 23, 0, 30, 0, 25, 0, 24, 1, 0, 1, 1, 1, 2, 1, 3, 1, 4]),
     (35, []),
     (16, [0, 12, 2, 104, 50, 8, 104, 116, 116, 112, 47, 49, 46, 49]),
     (22, []),
     (23, []),
     (13, [0, 40, 4, 3, 5, 3, 6, 3, 8, 7, 8, 8, 8, 9, 8, 10, 8, 11, 8, 4, 8, 5, 8, 6, 4, 1, 5, 1, 6,
     1, 3, 3, 3, 1, 3, 2, 4, 2, 5, 2, 6, 2]),
     (43, [4, 3, 4, 3, 3]),
     (45, [1, 1])]"

lemma template_bytes_parts:
  "\<exists>t. template_bytes = Ok t \<and> take 11 t = [22, 3, 1, 2, 0, 1, 0, 1, 252, 3, 3]
     \<and> slice t 76 120 = tmpl_suites @ [1, 143, 0, 0]
     \<and> slice t 133 268 = encode_exts tmpl_exts @ [0, 51, 0, 38, 0, 36, 0, 29, 0, 32]"
proof -
  let ?t = "[22, 3, 1, 2, 0, 1, 0, 1, 252, 3, 3, 65, 213, 181, 73, 217, 205, 26, 223, 167, 41, 108, 132,
     24, 209, 87, 220, 123, 98, 76, 132, 40, 36, 255, 73, 59, 147, 117, 187, 72, 211, 79, 43,
     32, 191, 1, 139, 204, 144, 167, 200, 154, 35, 0, 148, 129, 90, 208, 193, 91, 115, 110, 56,
     192, 18, 9, 215, 45, 40, 44, 181, 226, 16, 83, 40, 21, 0, 36, 19, 2, 19, 3, 19, 1, 192, 44,
     192, 48, 192, 43, 192, 47, 204, 169, 204, 168, 192, 36, 192, 40, 192, 35, 192, 39, 0, 159,
     0, 158, 0, 107, 0, 103, 0, 255, 1, 0, 1, 143, 0, 0, 0, 11, 0, 9, 0, 0, 6, 109, 99, 105, 46,
     105, 114, 0, 11, 0, 4, 3, 0, 1, 2, 0, 10, 0, 22, 0, 20, 0, 29, 0, 23, 0, 30, 0, 25, 0, 24,
     1, 0, 1, 1, 1, 2, 1, 3, 1, 4, 0, 35, 0, 0, 0, 16, 0, 14, 0, 12, 2, 104, 50, 8, 104, 116,
     116, 112, 47, 49, 46, 49, 0, 22, 0, 0, 0, 23, 0, 0, 0, 13, 0, 42, 0, 40, 4, 3, 5, 3, 6, 3,
     8, 7, 8, 8, 8, 9, 8, 10, 8, 11, 8, 4, 8, 5, 8, 6, 4, 1, 5, 1, 6, 1, 3, 3, 3, 1, 3, 2, 4, 2,
     5, 2, 6, 2, 0, 43, 0, 5, 4, 3, 4, 3, 3, 0, 45, 0, 2, 1, 1, 0, 51, 0, 38, 0, 36, 0, 29, 0,
     32, 67, 91, 172, 196, 208, 95, 157, 65, 254, 244, 74, 179, 173, 85, 97, 108, 54, 224, 97,
     52, 115, 226, 51, 135, 112, 239, 218, 169, 134, 147, 210, 23, 0, 21, 0, 213, 0, 0, 0, 0, 0,
     0, 0, 0, 0, 0, 0, 0, 0, 0, 0, 0, 0, 0, 0, 0, 0, 0, 0, 0, 0, 0, 0, 0, 0, 0, 0, 0, 0, 0, 0,
     0, 0, 0, 0, 0, 0, 0, 0, 0, 0, 0, 0, 0, 0, 0, 0, 0, 0, 0, 0, 0, 0, 0, 0, 0, 0, 0, 0, 0, 0,
     0, 0, 0, 0, 0, 0, 0, 0, 0, 0, 0, 0, 0, 0, 0, 0, 0, 0, 0, 0, 0, 0, 0, 0, 0, 0, 0, 0, 0, 0,
     0, 0, 0, 0, 0, 0, 0, 0, 0, 0, 0, 0, 0, 0, 0, 0, 0, 0, 0, 0, 0, 0, 0, 0, 0, 0, 0, 0, 0, 0,
     0, 0, 0, 0, 0, 0, 0, 0, 0, 0, 0, 0, 0, 0, 0, 0, 0, 0, 0, 0, 0, 0, 0, 0, 0, 0, 0, 0, 0, 0,
     0, 0, 0, 0, 0, 0, 0, 0, 0, 0, 0, 0, 0, 0, 0, 0, 0, 0, 0, 0, 0, 0, 0, 0, 0, 0, 0, 0, 0, 0,
     0, 0, 0, 0, 0, 0, 0, 0, 0, 0, 0, 0, 0, 0, 0, 0, 0, 0, 0, 0, 0, 0, 0, 0, 0, 0, 0, 0] :: bytes"
  have "template_bytes = Ok ?t" by code_simp
  moreover have "take 11 ?t = [22, 3, 1, 2, 0, 1, 0, 1, 252, 3, 3]" by code_simp
  moreover have "slice ?t 76 120 = tmpl_suites @ [1, 143, 0, 0]" by code_simp
  moreover have "slice ?t 133 268 = encode_exts tmpl_exts @ [0, 51, 0, 38, 0, 36, 0, 29, 0, 32]" by code_simp
  ultimately show ?thesis by blast
qed

section \<open>Reading the result\<close>

text \<open>The server-name extension and the extension list of the result.\<close>

definition sni_ext_body :: "bytes \<Rightarrow> bytes" where
  "sni_ext_body sni = u16_to_be (word_of_nat (length sni + 3)) @ [0] @ u16_to_be (word_of_nat (length sni)) @ sni"

definition hello_ext_list :: "bytes \<Rightarrow> bytes \<Rightarrow> (nat \<times> bytes) list" where
  "hello_ext_list sni key_share = (0, sni_ext_body sni) # tmpl_exts
     @ [(51, [0, 36, 0, 29, 0, 32] @ key_share), (21, replicate (219 - length sni) 0)]"

lemma length_tmpl: "length tmpl_suites = 40" "length (encode_exts tmpl_exts) = 125"
  by code_simp+

lemma tmpl_suites_nth: "tmpl_suites ! 0 = 0" "tmpl_suites ! Suc 0 = 36" "tmpl_suites ! 38 = 1" "tmpl_suites ! 39 = 0"
  by code_simp+

lemma tmpl_exts_ok: "\<forall>e \<in> set tmpl_exts. ext_ok e"
  by (simp add: tmpl_exts_def ext_ok_def)

lemma build_client_hello_form:
  assumes "length random = 32" "length session_id = 32" "length key_share = 32" "length sni \<le> 219"
  shows "build_client_hello random session_id sni key_share =
    Ok ([22, 3, 1, 2, 0, 1, 0, 1, 252] @ ([3, 3] @ random @ [0x20] @ session_id @ tmpl_suites)
        @ [1, 143] @ encode_exts (hello_ext_list sni key_share))"
proof -
  obtain t where t: "template_bytes = Ok t" "take 11 t = [22, 3, 1, 2, 0, 1, 0, 1, 252, 3, 3]"
    "slice t 76 120 = tmpl_suites @ [1, 143, 0, 0]"
    "slice t 133 268 = encode_exts tmpl_exts @ [0, 51, 0, 38, 0, 36, 0, 29, 0, 32]"
    using template_bytes_parts by blast
  have pad: "resize (2 + (219 - length sni)) 0 (u16_to_be (word_of_nat (219 - length sni)))
      = u16_to_be (word_of_nat (219 - length sni)) @ replicate (219 - length sni) (0 :: u8)"
    by (simp add: resize_def)
  have be: "u16_to_be 0 = [0, 0]" "u16_to_be 51 = [0, 51]" "u16_to_be 21 = [0, 21]" "u16_to_be 38 = [0, 38]"
    by (simp_all add: u16_to_be_def)
  have enc: "encode_exts (hello_ext_list sni key_share) = [0, 0] @ u16_to_be (word_of_nat (length sni + 5))
      @ sni_ext_body sni @ encode_exts tmpl_exts @ [0, 51, 0, 38, 0, 36, 0, 29, 0, 32] @ key_share
      @ [0, 21] @ u16_to_be (word_of_nat (219 - length sni)) @ replicate (219 - length sni) 0"
    using assms(3) by (simp add: hello_ext_list_def encode_exts_def encode_ext_def be sni_ext_body_def add.commute)
  show ?thesis unfolding enc build_client_hello_def Let_def t(1) pad using assms
    by (simp add: t(2-4) sni_ext_body_def)
qed

lemma hello_ext_list_ok:
  "length key_share = 32 \<Longrightarrow> length sni \<le> 219 \<Longrightarrow> \<forall>e \<in> set (hello_ext_list sni key_share). ext_ok e"
  using tmpl_exts_ok by (auto simp: hello_ext_list_def ext_ok_def sni_ext_body_def)

lemma length_hello_exts:
  "length key_share = 32 \<Longrightarrow> length sni \<le> 219 \<Longrightarrow> length (encode_exts (hello_ext_list sni key_share)) = 399"
  using length_tmpl(2) by (simp add: hello_ext_list_def encode_exts_def encode_ext_def sni_ext_body_def)

lemma hello_body_offsets:
  assumes "length random = 32" "length session_id = 32"
    and b: "b = ([3, 3] @ random @ [0x20] @ session_id @ tmpl_suites) @ [1, 143] @ tail"
  shows "hello_sid b = 32" "hello_comp_off b = 105" "hello_ext_off b = 109" "read_u16 b 107 = 399"
    "drop 109 b = tail" "length b = 109 + length tail"
proof -
  have "b ! 34 = 0x20" using assms(1) by (simp add: b nth_append)
  then show sid: "hello_sid b = 32" by (simp add: hello_sid_def)
  have s: "b ! (67 + i) = tmpl_suites ! i" if "i < 40" for i
    using assms that by (simp add: b nth_append length_tmpl)
  have "read_u16 b 67 = 36" using s [of 0] s [of 1] by (simp add: read_u16_def tmpl_suites_nth u16_from_be_def)
  then have su: "hello_suites b = 36" by (simp add: hello_suites_def sid)
  show c: "hello_comp_off b = 105" by (simp add: hello_comp_off_def sid su)
  show "hello_ext_off b = 109" using s [of 38] by (simp add: hello_ext_off_def c tmpl_suites_nth)
  have "b ! 107 = 1" "b ! 108 = 143" using assms(1,2) by (simp_all add: b nth_append length_tmpl)
  then show "read_u16 b 107 = 399" by (simp add: read_u16_def u16_from_be_def)
  show "drop 109 b = tail" "length b = 109 + length tail" using assms(1,2) by (simp_all add: b length_tmpl)
qed

lemma hello_scan_extensions:
  assumes "length key_share = 32" "length sni \<le> 219"
  shows "scan_extensions 109 (encode_exts (hello_ext_list sni key_share)) 0 =
    (if sni = [] then None else Some \<lparr>ext_len_field_end = 122, sb_name_start = 127, sb_name_len = length sni\<rparr>)"
proof -
  let ?xs = "encode_exts (hello_ext_list sni key_share)" and ?d = "sni_ext_body sni"
  obtain rest where xs: "?xs = [0, 0] @ u16_to_be (word_of_nat (length ?d)) @ ?d @ rest"
    by (simp add: hello_ext_list_def encode_exts_def encode_ext_def u16_to_be_def [of 0])
  have d: "length ?d = length sni + 5" by (simp add: sni_ext_body_def)
  have n: "read_u16 ?xs 2 = length ?d"
  proof -
    have "read_u16 ?xs 2 = read_u16 (u16_to_be (word_of_nat (length ?d)) @ ?d @ rest) 0"
      unfolding xs by (subst read_u16_append) simp_all
    then show ?thesis using assms(2) d by (simp only: read_u16_of_be)
  qed
  have sl: "slice ?xs 4 (4 + length ?d) = ?d" by (simp add: xs slice_def)
  have "u16_from_be (?xs ! 0) (?xs ! 1) = 0" by (simp add: xs u16_from_be_def)
  moreover have "4 + length ?d \<le> length ?xs" by (simp add: xs)
  ultimately have "scan_extensions 109 ?xs 0 = server_name_entry 118 ?d"
    using sl n by (subst scan_extensions.simps) (simp add: Let_def get_range_def numeral_2_eq_2)
  moreover have "read_u16 ?d 0 = length sni + 3" "?d ! 2 = 0"
    using assms(2) read_u16_of_be [of "length sni + 3"]
    by (simp_all add: sni_ext_body_def nth_append)
  moreover have "read_u16 ?d 3 = length sni"
  proof -
    let ?h = "u16_to_be (word_of_nat (length sni + 3)) @ [0]"
    have "read_u16 (?h @ u16_to_be (word_of_nat (length sni)) @ sni) 3
        = read_u16 (u16_to_be (word_of_nat (length sni)) @ sni) (3 - length ?h)"
      by (rule read_u16_append) simp
    then have "read_u16 ?d 3 = read_u16 (u16_to_be (word_of_nat (length sni)) @ sni) 0"
      by (simp add: sni_ext_body_def)
    then show ?thesis using assms(2) by (simp only: read_u16_of_be)
  qed
  ultimately show ?thesis by (simp add: server_name_entry_closed d)
qed

text \<open>
  The decoy ClientHello. With 32-byte random, session id and key share and a name of at most
  219 bytes the builder never panics and returns 517 bytes whose nested length fields are
  consistent; its extension list is the server name, the fixed extensions, the key share and the padding; and the
  locator finds the name at offset 127.
\<close>

theorem client_hello_wellformed:
  assumes "length random = 32" "length session_id = 32" "length key_share = 32" "length sni \<le> 219"
  shows "\<exists>out. build_client_hello random session_id sni key_share = Ok out \<and> length out = 517
    \<and> hello_exts out = Some (hello_ext_list sni key_share)
    \<and> find_sni_boundary out = Ok (if sni = [] then None
        else Some \<lparr>ext_len_field_end = 122, sb_name_start = 127, sb_name_len = length sni\<rparr>)
    \<and> slice out 127 (127 + length sni) = sni"
proof -
  let ?tail = "encode_exts (hello_ext_list sni key_share)"
  define pre where "pre = [3, 3] @ random @ [0x20] @ session_id @ tmpl_suites"
  define out where "out = [22, 3, 1, 2, 0, 1, 0, 1, 252] @ pre @ [1, 143] @ ?tail"
  have form: "build_client_hello random session_id sni key_share = Ok out"
    unfolding out_def pre_def by (rule build_client_hello_form [OF assms])
  have body: "drop 9 out = pre @ [1, 143] @ ?tail" by (simp add: out_def)
  note off = hello_body_offsets [OF assms(1,2) body [unfolded pre_def]]
  have tail: "length ?tail = 399" by (rule length_hello_exts [OF assms(3,4)])
  have len: "length out = 517" using off(6) tail by (simp add: out_def)
  have hdr: "out ! 0 = 22" "out ! 5 = 1" "read_u16 out 3 = 512"
    "u24_from_be (out ! 6) (out ! 7) (out ! 8) = 508"
    by (simp_all add: out_def read_u16_def u16_from_be_def u24_from_be_def)
  have ts: "tls_exts ?tail = Some (hello_ext_list sni key_share)"
    using tls_exts_encode_exts [OF hello_ext_list_ok [OF assms(3,4)], of "[]"]
    by (simp add: tls_exts.simps [of "[]"])
  have wf: "hello_wf out" using hdr len off tail by (simp add: hello_wf_def)
  have exts: "hello_exts out = Some (hello_ext_list sni key_share)"
    using wf ts by (simp only: hello_exts_def if_True off(3,5))
  have "slice (drop 9 out) 109 (109 + 399) = ?tail"
    using off(5) tail by (simp add: slice_def)
  then have "scan_client_hello (drop 9 out) = scan_extensions 109 ?tail 0"
    using off tail by (simp add: scan_client_hello_closed)
  moreover have "slice out 9 (9 + 508) = drop 9 out" using len by (simp add: slice_to_end)
  ultimately have find: "find_sni_boundary out = Ok (scan_extensions 109 ?tail 0)"
    using hdr len by (simp add: find_sni_boundary_unfold)
  have "slice out 127 (127 + length sni) = take (length sni) (drop 9 (drop 109 (drop 9 out)))"
    by (simp add: slice_def)
  also have "\<dots> = sni" unfolding off(5)
    by (simp add: hello_ext_list_def encode_exts_def encode_ext_def sni_ext_body_def)
  finally have name: "slice out 127 (127 + length sni) = sni" .
  show ?thesis
    using form len exts find name unfolding hello_scan_extensions [OF assms(3,4)] by blast
qed

lemma client_hello_wellformed_witness:
  "\<exists>out. build_client_hello (replicate 32 1) (replicate 32 2) [0x61] (replicate 32 3) = Ok out
     \<and> length out = 517
     \<and> find_sni_boundary out = Ok (Some \<lparr>ext_len_field_end = 122, sb_name_start = 127, sb_name_len = 1\<rparr>)"
  using client_hello_wellformed [of "replicate 32 1" "replicate 32 2" "replicate 32 3" "[0x61]"] by auto

end
