(* ===== verification/Flow.thy ===== *)
theory Flow
  imports Interceptor "HOL-Library.AList"
begin

text \<open>
  Flow tracking, src/crates/zerodpi-core/src/flow.rs. The flow table is shared between the proxy
  tasks and the packet handler: a \<^verbatim>\<open>DashMap\<close> of \<^verbatim>\<open>Arc<FlowEntry>\<close>. The model keeps the
  entries in a heap (a list indexed by the identity of the \<^verbatim>\<open>Arc\<close>) beside the table, because a
  task that waits on an entry holds it after the table has dropped it. A \<^verbatim>\<open>notify_waiters()\<close> call
  is counted, so that a waiter is woken exactly when the count grows.

  The interface \<^verbatim>\<open>FlowController\<close> is the locale \<open>flow_controller\<close>; \<^verbatim>\<open>LocalFlowController\<close> is its
  interpretation.
\<close>

section \<open>Data\<close>

record FlowKey =
  fk_src_ip :: ipv4
  fk_src_port :: u16
  fk_dst_ip :: ipv4
  fk_dst_port :: u16

definition reversed :: "FlowKey \<Rightarrow> FlowKey" where
  "reversed k = \<lparr>fk_src_ip = fk_dst_ip k, fk_src_port = fk_dst_port k,
                 fk_dst_ip = fk_src_ip k, fk_dst_port = fk_src_port k\<rparr>"

datatype BypassOutcome = FakeDataAcked | UnexpectedClose

record FlowState =
  monitor :: bool
  syn_seq :: "u32 option"
  syn_ack_seq :: "u32 option"
  fake_sent :: bool
  waiting_for_data :: bool
  first_data_modified :: bool
  waiting_for_first_data_ack :: bool
  fragment_all_data :: bool
  outcome :: "BypassOutcome option"
  fake_data :: bytes
  low_ttl_override :: "u8 option"

definition new_flow_state :: "bytes \<Rightarrow> u8 option \<Rightarrow> FlowState" where
  "new_flow_state data ttl = \<lparr>monitor = True, syn_seq = None, syn_ack_seq = None, fake_sent = False,
     waiting_for_data = False, first_data_modified = False, waiting_for_first_data_ack = False,
     fragment_all_data = False, outcome = None, fake_data = data, low_ttl_override = ttl\<rparr>"

record FlowEntry =
  fe_state :: FlowState
  ready_for_data :: nat
  notify :: nat

definition new_flow_entry :: "bytes \<Rightarrow> u8 option \<Rightarrow> FlowEntry" where
  "new_flow_entry data ttl = \<lparr>fe_state = new_flow_state data ttl, ready_for_data = 0, notify = 0\<rparr>"

text \<open>\<^verbatim>\<open>FlowEntry::finish\<close> and \<^verbatim>\<open>FlowEntry::signal_outcome\<close>.\<close>

definition finish :: "BypassOutcome \<Rightarrow> FlowEntry \<Rightarrow> FlowEntry" where
  "finish o' e = (if outcome (fe_state e) = None
     then e\<lparr>fe_state := (fe_state e)\<lparr>outcome := Some o', monitor := False\<rparr>, notify := Suc (notify e)\<rparr>
     else e)"

definition signal_outcome :: "BypassOutcome \<Rightarrow> FlowEntry \<Rightarrow> FlowEntry" where
  "signal_outcome o' e = (if outcome (fe_state e) = None
     then e\<lparr>fe_state := (fe_state e)\<lparr>outcome := Some o'\<rparr>, notify := Suc (notify e)\<rparr>
     else e)"

section \<open>The flow table\<close>

record FlowStore =
  fl_table :: "(FlowKey \<times> nat) list"
  fl_heap :: "FlowEntry list"

definition new_flow_table :: FlowStore where
  "new_flow_table = \<lparr>fl_table = [], fl_heap = []\<rparr>"

datatype FlowError = AlreadyRegistered FlowKey

definition flow_exists :: "FlowStore \<Rightarrow> FlowKey \<Rightarrow> bool" where
  "flow_exists s k = (map_of (fl_table s) k \<noteq> None)"

definition register_flow ::
  "FlowStore \<Rightarrow> FlowKey \<Rightarrow> bytes \<Rightarrow> u8 option \<Rightarrow> FlowError + (nat \<times> FlowStore)" where
  "register_flow s k data ttl = (case map_of (fl_table s) k of
     None \<Rightarrow> (let i = length (fl_heap s) in
       Inr (i, s\<lparr>fl_table := (k, i) # fl_table s, fl_heap := fl_heap s @ [new_flow_entry data ttl]\<rparr>))
   | Some _ \<Rightarrow> Inl (AlreadyRegistered k))"

definition remove_flow :: "FlowStore \<Rightarrow> FlowKey \<Rightarrow> FlowStore" where
  "remove_flow s k = s\<lparr>fl_table := AList.delete k (fl_table s)\<rparr>"

text \<open>\<^verbatim>\<open>reset\<close>: finish every entry of the table, then clear it.\<close>

definition reset_flows :: "FlowStore \<Rightarrow> FlowStore" where
  "reset_flows s = s\<lparr>
     fl_heap := fold (\<lambda>(k, i) h. h[i := finish UnexpectedClose (h ! i)]) (fl_table s) (fl_heap s),
     fl_table := []\<rparr>"

text \<open>The entry a key is registered with.\<close>

definition flow_lookup :: "FlowStore \<Rightarrow> FlowKey \<Rightarrow> FlowEntry option" where
  "flow_lookup s k = map_option (nth (fl_heap s)) (map_of (fl_table s) k)"

text \<open>
  The table points into the heap, at a different entry for each key: an invariant of every
  operation of the controller and the handler.
\<close>

definition store_ok :: "FlowStore \<Rightarrow> bool" where
  "store_ok s = (distinct (map fst (fl_table s)) \<and> distinct (map snd (fl_table s))
     \<and> (\<forall>i \<in> set (map snd (fl_table s)). i < length (fl_heap s)))"

section \<open>The interface\<close>

text \<open>
  What the proxy and the TTL discovery rely on: registration succeeds exactly for an unknown key
  and gives a fresh monitored entry, other keys keep their entries, removal is idempotent and only affects
  its key, a reset leaves no key and wakes every entry that had no outcome with \<^verbatim>\<open>UnexpectedClose\<close>.
\<close>

locale flow_controller =
  fixes ok :: "'s \<Rightarrow> bool"
    and lookup :: "'s \<Rightarrow> FlowKey \<Rightarrow> FlowEntry option"
    and entry :: "'s \<Rightarrow> nat \<Rightarrow> FlowEntry"
    and handle :: "'s \<Rightarrow> FlowKey \<Rightarrow> nat option"
    and exists :: "'s \<Rightarrow> FlowKey \<Rightarrow> bool"
    and register :: "'s \<Rightarrow> FlowKey \<Rightarrow> bytes \<Rightarrow> u8 option \<Rightarrow> FlowError + (nat \<times> 's)"
    and remove :: "'s \<Rightarrow> FlowKey \<Rightarrow> 's"
    and reset :: "'s \<Rightarrow> 's"
  assumes exists_lookup: "exists s k \<longleftrightarrow> lookup s k \<noteq> None"
    and lookup_handle: "lookup s k = map_option (entry s) (handle s k)"
    and register_known: "exists s k \<Longrightarrow> register s k d t = Inl (AlreadyRegistered k)"
    and register_unknown: "ok s \<Longrightarrow> \<not> exists s k \<Longrightarrow> \<exists>i s'. register s k d t = Inr (i, s') \<and> ok s'
          \<and> handle s' k = Some i \<and> lookup s' k = Some (new_flow_entry d t)
          \<and> (\<forall>k'. k' \<noteq> k \<longrightarrow> lookup s' k' = lookup s k')"
    and remove_ok: "ok s \<Longrightarrow> ok (remove s k)"
    and lookup_remove: "ok s \<Longrightarrow> lookup (remove s k) k' = (if k' = k then None else lookup s k')"
    and reset_ok: "ok s \<Longrightarrow> ok (reset s)"
    and lookup_reset: "lookup (reset s) k = None"
    and reset_wakes: "ok s \<Longrightarrow> handle s k = Some i \<Longrightarrow> entry (reset s) i = finish UnexpectedClose (entry s i)"
begin

text \<open>The guard of a connection: register, use, remove. Other flows are not affected.\<close>

lemma register_then_remove:
  assumes "ok s" "\<not> exists s k"
  shows "\<exists>i s'. register s k d t = Inr (i, s') \<and> ok (remove s' k)
           \<and> (\<forall>k'. lookup (remove s' k) k' = lookup s k')"
proof -
  obtain i s' where s': "register s k d t = Inr (i, s')" "ok s'"
    "\<forall>k'. k' \<noteq> k \<longrightarrow> lookup s' k' = lookup s k'"
    using register_unknown [OF assms] by blast
  moreover have "lookup s k = None" using assms(2) exists_lookup by simp
  ultimately have "lookup (remove s' k) k' = lookup s k'" for k'
    by (cases "k' = k") (simp_all add: lookup_remove)
  with s' show ?thesis using remove_ok by blast
qed

lemma remove_idempotent: "ok s \<Longrightarrow> lookup (remove (remove s k) k) k' = lookup (remove s k) k'"
  by (simp add: lookup_remove remove_ok)

text \<open>After a rebuild of the data plane every key can be registered again.\<close>

lemma register_after_reset: "ok s \<Longrightarrow> \<exists>i s'. register (reset s) k d t = Inr (i, s') \<and> ok s'"
  using register_unknown [OF reset_ok] exists_lookup lookup_reset by (metis option.simps(3))

text \<open>No waiter of a tracked flow is left without an outcome by a reset.\<close>

lemma reset_no_waiter_left:
  "ok s \<Longrightarrow> handle s k = Some i \<Longrightarrow>
   outcome (fe_state (entry (reset s) i)) \<noteq> None \<and>
   (outcome (fe_state (entry s i)) = None \<longrightarrow>
      outcome (fe_state (entry (reset s) i)) = Some UnexpectedClose \<and>
      notify (entry (reset s) i) = Suc (notify (entry s i)))"
  by (simp add: reset_wakes finish_def)

end

section \<open>Lemmas\<close>

text \<open>\<^verbatim>\<open>finish\<close> is idempotent: the first outcome stays and only the first call notifies.\<close>

lemma finish_finish [simp]: "finish o2 (finish o1 e) = finish o1 e"
  by (simp add: finish_def)

lemma finish_signal [simp]: "finish o2 (signal_outcome o1 e) = signal_outcome o1 e"
  by (simp add: finish_def signal_outcome_def)

lemma finish_outcome [simp]: "outcome (fe_state (finish o' e)) =
    Some (case outcome (fe_state e) of None \<Rightarrow> o' | Some p \<Rightarrow> p)"
  by (simp add: finish_def split: option.split)

lemma map_of_snd_in: "map_of xs k = Some i \<Longrightarrow> i \<in> set (map snd xs)"
  by (induction xs) (auto split: if_splits)

lemma map_of_inj_snd:
  "distinct (map snd xs) \<Longrightarrow> map_of xs k = Some i \<Longrightarrow> map_of xs k' = Some i \<Longrightarrow> k = k'"
  by (induction xs) (auto split: if_splits dest: map_of_SomeD simp: rev_image_eqI)

lemma fold_finish_nth:
  "distinct (map snd xs) \<Longrightarrow> \<forall>i \<in> set (map snd xs). i < length h \<Longrightarrow>
   length (fold (\<lambda>(k, i) h. h[i := finish o' (h ! i)]) xs h) = length h \<and>
   fold (\<lambda>(k, i) h. h[i := finish o' (h ! i)]) xs h ! j
     = (if j \<in> set (map snd xs) then finish o' (h ! j) else h ! j)"
proof (induction xs arbitrary: h)
  case (Cons x xs)
  obtain k i where x: "x = (k, i)" by force
  show ?case using Cons.prems Cons.IH [of "h[i := finish o' (h ! i)]"]
    by (auto simp: x nth_list_update)
qed simp

lemma register_flow_new:
  "\<not> flow_exists s k \<Longrightarrow> register_flow s k d t = Inr (length (fl_heap s),
     s\<lparr>fl_table := (k, length (fl_heap s)) # fl_table s, fl_heap := fl_heap s @ [new_flow_entry d t]\<rparr>)"
  by (simp add: flow_exists_def register_flow_def Let_def)

lemma store_ok_register:
  "store_ok s \<Longrightarrow> \<not> flow_exists s k \<Longrightarrow> register_flow s k d t = Inr (i, s') \<Longrightarrow> store_ok s'"
  by (fastforce simp: register_flow_new store_ok_def flow_exists_def map_of_eq_None_iff less_Suc_eq)

lemma store_ok_remove: "store_ok s \<Longrightarrow> store_ok (remove_flow s k)"
  unfolding store_ok_def remove_flow_def
  by (auto simp: AList.delete_eq distinct_map intro: inj_on_subset)

lemma flow_lookup_remove: "flow_lookup (remove_flow s k) k' = (if k' = k then None else flow_lookup s k')"
  by (simp add: flow_lookup_def remove_flow_def AList.delete_conv')

interpretation local_flows: flow_controller store_ok flow_lookup "\<lambda>s i. fl_heap s ! i"
  "\<lambda>s k. map_of (fl_table s) k" flow_exists register_flow remove_flow reset_flows
proof
  fix s k d t assume ok: "store_ok s" and new: "\<not> flow_exists s k"
  let ?s' = "s\<lparr>fl_table := (k, length (fl_heap s)) # fl_table s, fl_heap := fl_heap s @ [new_flow_entry d t]\<rparr>"
  have "flow_lookup ?s' k' = flow_lookup s k'" if "k' \<noteq> k" for k'
    using that ok map_of_snd_in [of "fl_table s" k']
    by (cases "map_of (fl_table s) k'") (fastforce simp: flow_lookup_def store_ok_def nth_append)+
  then show "\<exists>i s'. register_flow s k d t = Inr (i, s') \<and> store_ok s'
      \<and> map_of (fl_table s') k = Some i \<and> flow_lookup s' k = Some (new_flow_entry d t)
      \<and> (\<forall>k'. k' \<noteq> k \<longrightarrow> flow_lookup s' k' = flow_lookup s k')"
    using register_flow_new [OF new] store_ok_register [OF ok new]
    by (intro exI [of _ "length (fl_heap s)"] exI [of _ ?s']) (simp add: flow_lookup_def)
next
  fix s k i assume ok: "store_ok s" and k: "map_of (fl_table s) k = Some i"
  then have "i \<in> set (map snd (fl_table s))" by (blast intro: map_of_snd_in)
  with ok show "fl_heap (reset_flows s) ! i = finish UnexpectedClose (fl_heap s ! i)"
    using fold_finish_nth [of "fl_table s" "fl_heap s" UnexpectedClose i]
    by (simp add: reset_flows_def store_ok_def)
next
  fix s assume "store_ok s"
  then show "store_ok (reset_flows s)" by (simp add: reset_flows_def store_ok_def)
next
  fix s k
  show "flow_lookup (reset_flows s) k = None" by (simp add: flow_lookup_def reset_flows_def)
next
  fix s k
  show "flow_exists s k \<longleftrightarrow> flow_lookup s k \<noteq> None" by (simp add: flow_exists_def flow_lookup_def)
next
  fix s k
  show "flow_lookup s k = map_option (\<lambda>i. fl_heap s ! i) (map_of (fl_table s) k)"
    by (simp add: flow_lookup_def)
qed (auto simp: store_ok_remove flow_lookup_remove flow_exists_def register_flow_def)

end
