(* ===== verification/Tls_Records.thy ===== *)
theory Tls_Records
  imports Sni
begin

text \<open>
  The methods that re-frame the TLS record layer: \<^verbatim>\<open>tls_record_frag\<close> (every record cut into small
  records), \<^verbatim>\<open>tls_record_split\<close> (the first record cut at the SNI), \<^verbatim>\<open>sni_boundary_frag\<close> (the first write cut
  at the SNI) and \<^verbatim>\<open>ccs_prefix\<close> (a dummy record in front), all under
  src/crates/zerodpi-core/src/methods/. The reference is a parser of the record layer; the
  theorems say that the server reads the same records, cut as announced.
\<close>

section \<open>tls\_record\_frag\<close>

text \<open>One chunk of a record body as a record with the header of the original.\<close>

definition frag_record :: "bytes \<Rightarrow> bytes \<Rightarrow> bytes" where
  "frag_record header chunk = take 3 header @ u16_to_be (word_of_nat (length chunk)) @ chunk"

function fragment_loop :: "bytes \<Rightarrow> nat \<Rightarrow> nat \<Rightarrow> bytes \<Rightarrow> bytes option" where
  "fragment_loop data frag_size offset out =
     (if offset < length data then
        (if length data - offset < 5 then None
         else (let header = slice data offset (offset + 5);
                   body_len = read_u16 header 3;
                   body_start = offset + 5;
                   body_end = body_start + body_len in
           if length data < body_end then None
           else (let body = slice data body_start body_end in
             fragment_loop data frag_size body_end
               (out @ (if body = [] then header else concat (map (frag_record header) (chunks frag_size body)))))))
      else Some out)"
  by pat_completeness auto
termination
  by (relation "measure (\<lambda>(data, n, offset, out). length data - offset)") auto

declare fragment_loop.simps [simp del]

definition fragment_payload :: "bytes \<Rightarrow> nat \<Rightarrow> bytes option res" where
  "fragment_payload data frag_size =
     (if frag_size = 0 then Panic
      else if data = [] then Ok (Some [])
      else Ok (fragment_loop data frag_size 0 []))"

section \<open>tls\_record\_split, sni\_boundary\_frag and ccs\_prefix\<close>

definition build_record :: "bytes \<Rightarrow> bytes \<Rightarrow> bytes" where
  "build_record record_header body = record_header @ u16_to_be (word_of_nat (length body)) @ body"

definition split_point_offset :: "SniBoundarySplitPoint \<Rightarrow> SniBoundary \<Rightarrow> nat" where
  "split_point_offset sp b = (case sp of
     ExtensionLength \<Rightarrow> ext_len_field_end b
   | PointMiddle \<Rightarrow> sb_name_start b + sb_name_len b div 2
   | PointIndex n \<Rightarrow> sb_name_start b + min (unat n) (sb_name_len b))"

definition cut_offset :: "SniBoundarySplitPoint \<Rightarrow> bytes \<Rightarrow> nat option res" where
  "cut_offset sp record' = (case find_sni_boundary record' of
     Panic \<Rightarrow> Panic | Ok b \<Rightarrow> Ok (map_option (split_point_offset sp) b))"

definition split_record :: "SniBoundarySplitPoint \<Rightarrow> bytes \<Rightarrow> (bytes \<times> bytes) option res" where
  "split_record sp data = (case cut_offset sp data of
     Panic \<Rightarrow> Panic
   | Ok oc \<Rightarrow> ques oc (\<lambda>cut. ques (get_at data 3) (\<lambda>l1. ques (get_at data 4) (\<lambda>l2.
       let record_len = unat (u16_from_be l1 l2); body_start = 5; body_end = body_start + record_len in
       if length data < body_end then Ok None
       else if cut \<le> body_start \<or> body_end \<le> cut then Ok None
       else Ok (Some (build_record (take 3 data) (slice data body_start cut),
                      build_record (take 3 data) (slice data cut body_end) @ drop body_end data))))))"

definition split_offset :: "SniBoundarySplitPoint \<Rightarrow> bytes \<Rightarrow> nat option res" where
  "split_offset sp record' = (case find_sni_boundary record' of
     Panic \<Rightarrow> Panic
   | Ok b \<Rightarrow> ques b (\<lambda>b. let offset = split_point_offset sp b in
       Ok (if 0 < offset \<and> offset < length record' then Some offset else None)))"

definition ccs_record :: "bytes \<Rightarrow> bytes" where
  "ccs_record version = [0x14, version ! 0, version ! 1, 0x00, 0x01, 0x01]"

section \<open>The record layer\<close>

text \<open>A complete sequence of records: the three bytes of type and version, and the body of each.\<close>

function tls_records :: "bytes \<Rightarrow> (bytes \<times> bytes) list option" where
  "tls_records data =
     (if data = [] then Some []
      else if length data < 5 then None
      else (let n = read_u16 data 3 in
        if length data < 5 + n then None
        else map_option (\<lambda>rs. (take 3 data, slice data 5 (5 + n)) # rs) (tls_records (drop (5 + n) data))))"
  by pat_completeness auto
termination
  by (relation "measure length") auto

declare tls_records.simps [simp del]

lemma tls_records_Nil [simp]: "tls_records [] = Some []"
  by (simp add: tls_records.simps)

lemma read_u16_to_be: "n < 65536 \<Longrightarrow> length h = 3 \<Longrightarrow> read_u16 (h @ u16_to_be (word_of_nat n) @ rest) 3 = n"
proof -
  assume n: "n < 65536" and h: "length h = 3"
  have "u16_from_be (u16_to_be (word_of_nat n) ! 0) (u16_to_be (word_of_nat n) ! 1) = (word_of_nat n :: u16)"
    by (rule u16_from_to_be)
  then have "read_u16 (h @ u16_to_be (word_of_nat n) @ rest) 3 = unat (word_of_nat n :: u16)"
    using h by (simp add: read_u16_def nth_append)
  then show ?thesis using n by (simp only: unat_u16_of_nat mod_less)
qed

lemma tls_records_build:
  assumes "length h = 3" "length b < 65536"
  shows "tls_records (build_record h b @ rest) = map_option (Cons (h, b)) (tls_records rest)"
proof -
  let ?d = "build_record h b @ rest"
  have n: "read_u16 ?d 3 = length b"
    using read_u16_to_be [OF assms(2,1), of "b @ rest"] by (simp add: build_record_def)
  have "length ?d = 5 + length b + length rest" "take 3 ?d = h" "slice ?d 5 (5 + length b) = b"
    "drop (5 + length b) ?d = rest" "?d \<noteq> []"
    using assms(1) by (auto simp: build_record_def slice_def)
  then show ?thesis by (subst tls_records.simps) (simp add: n)
qed

lemma tls_records_concat:
  assumes "\<forall>(h, b) \<in> set rs. length h = 3 \<and> length b < 65536"
  shows "tls_records (concat (map (\<lambda>(h, b). build_record h b) rs) @ rest) = map_option ((@) rs) (tls_records rest)"
  using assms
proof (induction rs)
  case (Cons r rs)
  obtain h b where r: "r = (h, b)" by force
  show ?case using Cons by (cases "tls_records rest") (simp_all add: r tls_records_build)
qed (cases "tls_records rest"; simp)

text \<open>The records of a complete sequence have short bodies and rebuild the sequence.\<close>

lemma tls_records_sound:
  assumes "tls_records data = Some rs"
  shows "(\<forall>(h, b) \<in> set rs. length h = 3 \<and> length b < 65536)
    \<and> concat (map (\<lambda>(h, b). build_record h b) rs) = data"
  using assms
proof (induction data arbitrary: rs rule: tls_records.induct)
  case (1 data)
  show ?case
  proof (cases "data = []")
    case True
    with 1(2) show ?thesis by simp
  next
    case False
    let ?n = "read_u16 data 3"
    obtain rs' where len: "5 \<le> length data" "5 + ?n \<le> length data"
      and rs: "tls_records (drop (5 + ?n) data) = Some rs'" "rs = (take 3 data, slice data 5 (5 + ?n)) # rs'"
      using 1(2) False by (subst (asm) tls_records.simps) (auto simp: Let_def split: if_splits)
    have n: "?n < 65536" by (simp add: read_u16_def)
    have "word_of_nat ?n = u16_from_be (data ! 3) (data ! 4)" by (simp add: read_u16_def)
    then have lenf: "u16_to_be (word_of_nat ?n) = [data ! 3, data ! 4]" by (simp only: u16_to_from_be)
    have "take 3 data @ [data ! 3, data ! 4] = take 5 data"
      using len(1) by (simp add: take_Suc_conv_app_nth numeral_eq_Suc)
    then have "build_record (take 3 data) (slice data 5 (5 + ?n)) = take (5 + ?n) data"
      using len by (simp add: build_record_def lenf slice_def take_add)
    with 1(1) [OF False _ refl _ rs(1)] len rs(2) n show ?thesis by simp
  qed
qed

section \<open>Fragmenting every record\<close>

definition frag_one :: "nat \<Rightarrow> bytes \<times> bytes \<Rightarrow> (bytes \<times> bytes) list" where
  "frag_one n r = (if snd r = [] then [r] else map (Pair (fst r)) (chunks n (snd r)))"

definition encode_records :: "(bytes \<times> bytes) list \<Rightarrow> bytes" where
  "encode_records rs = concat (map (\<lambda>(h, b). build_record h b) rs)"

lemma encode_records_append [simp]: "encode_records (xs @ ys) = encode_records xs @ encode_records ys"
  by (simp add: encode_records_def)

lemma frag_one_bodies:
  "0 < n \<Longrightarrow> concat (map snd (frag_one n r)) = snd r"
  "(h, b) \<in> set (frag_one n r) \<Longrightarrow> h = fst r \<and> length b \<le> n"
  using chunks_bounds by (auto simp: frag_one_def comp_def split: if_splits)

lemma frag_one_short: "length h = 3 \<Longrightarrow> length b < 65536 \<Longrightarrow> r \<in> set (frag_one n (h, b)) \<Longrightarrow>
   length (fst r) = 3 \<and> length (snd r) < 65536"
proof -
  assume hb: "length h = 3" "length b < 65536" and r: "r \<in> set (frag_one n (h, b))"
  then show ?thesis using chunks_length_le [of _ n b] by (fastforce simp: frag_one_def split: if_splits)
qed

lemma fragment_loop_records:
  assumes "0 < n" "offset \<le> length data"
  shows "fragment_loop data n offset out =
    map_option (\<lambda>rs. out @ encode_records (concat (map (frag_one n) rs))) (tls_records (drop offset data))"
  using assms
proof (induction data n offset out rule: fragment_loop.induct)
  case (1 data n offset out)
  let ?d = "drop offset data" and ?h = "slice data offset (offset + 5)"
  let ?n = "read_u16 ?d 3"
  consider (finished) "offset = length data" | (short) "offset < length data" "length ?d < 5"
    | (incomplete) "5 \<le> length ?d" "length ?d < 5 + ?n" | (record') "5 + ?n \<le> length ?d"
    using 1(3) by fastforce
  then show ?case
  proof cases
    case finished
    then show ?thesis by (subst fragment_loop.simps) (simp add: encode_records_def)
  next
    case short
    then show ?thesis by (subst fragment_loop.simps, subst tls_records.simps) simp
  next
    case incomplete
    then have "read_u16 ?h 3 = ?n" by (simp add: read_u16_def nth_slice)
    with incomplete show ?thesis by (subst fragment_loop.simps, subst tls_records.simps) (auto simp: Let_def)
  next
    case record'
    then have h: "read_u16 ?h 3 = ?n" "take 3 ?h = take 3 ?d" by (simp_all add: read_u16_def nth_slice slice_def)
    let ?b = "slice ?d 5 (5 + ?n)"
    have b: "slice data (offset + 5) (offset + 5 + ?n) = ?b" by (simp add: slice_def add.commute)
    have step: "(if ?b = [] then ?h else concat (map (frag_record ?h) (chunks n ?b)))
        = encode_records (frag_one n (take 3 ?d, ?b))"
    proof (cases "?b = []")
      case True
      then have "length ?b = 0" by simp
      then have "?n = 0" using record' by simp
      then have "unat (u16_from_be (?d ! 3) (?d ! 4)) = 0" by (simp add: read_u16_def)
      then have "word_of_nat 0 = u16_from_be (?d ! 3) (?d ! 4)" by (simp add: unat_eq_zero)
      then have "u16_to_be (word_of_nat 0) = [?d ! 3, ?d ! 4]" by (simp only: u16_to_from_be)
      moreover have "take 3 ?d @ [?d ! 3, ?d ! 4] = take 5 ?d"
        using record' by (simp add: take_Suc_conv_app_nth numeral_eq_Suc)
      moreover have "?h = take 5 ?d" by (simp add: slice_def)
      ultimately show ?thesis using True by (simp add: frag_one_def encode_records_def build_record_def)
    next
      case False
      then show ?thesis
        by (simp add: frag_one_def encode_records_def frag_record_def [abs_def] build_record_def h(2) comp_def)
    qed
    have "tls_records ?d = map_option (Cons (take 3 ?d, ?b)) (tls_records (drop (offset + 5 + ?n) data))"
      using record' by (subst tls_records.simps) (auto simp: Let_def ac_simps)
    moreover have sz: "offset < length data" "\<not> length data - offset < 5" "\<not> length data < offset + 5 + ?n"
      using record' by auto
    moreover have "fragment_loop data n offset out = fragment_loop data n (offset + 5 + ?n)
        (out @ encode_records (frag_one n (take 3 ?d, ?b)))"
      using sz h b step by (subst fragment_loop.simps) (simp add: Let_def)
    moreover have "fragment_loop data n (offset + 5 + ?n) (out @ encode_records (frag_one n (take 3 ?d, ?b)))
        = map_option (\<lambda>rs. (out @ encode_records (frag_one n (take 3 ?d, ?b)))
            @ encode_records (concat (map (frag_one n) rs))) (tls_records (drop (offset + 5 + ?n) data))"
      using 1(1) [OF sz(1,2) refl refl refl refl _ refl, unfolded h(1) b step, OF sz(3) 1(2)] sz(3) by simp
    ultimately show ?thesis by (simp add: option.map_comp comp_def)
  qed
qed

text \<open>
  Record fragmentation is invisible to the TLS peer. For a positive size the code never
  panics; an input that is not a complete sequence of records is refused; otherwise the output is a complete
  sequence in which every record is replaced, in order, by records of its type and version whose bodies
  have at most the configured size and concatenate to its body.
\<close>

theorem fragment_payload_reframes:
  assumes "0 < n"
  shows "case tls_records data of
      None \<Rightarrow> fragment_payload data n = Ok None
    | Some rs \<Rightarrow> \<exists>out. fragment_payload data n = Ok (Some out)
        \<and> tls_records out = Some (concat (map (frag_one n) rs))
        \<and> concat (map (\<lambda>r. concat (map snd (frag_one n r))) rs) = concat (map snd rs)
        \<and> (\<forall>r \<in> set rs. \<forall>(h, b) \<in> set (frag_one n r). h = fst r \<and> length b \<le> n)"
proof -
  have loop: "fragment_payload data n
      = Ok (map_option (\<lambda>rs. encode_records (concat (map (frag_one n) rs))) (tls_records data))"
    using assms fragment_loop_records [of n 0 data "[]"]
    by (cases "data = []") (simp_all add: fragment_payload_def encode_records_def)
  show ?thesis
  proof (cases "tls_records data")
    case None
    then show ?thesis by (simp add: loop)
  next
    case (Some rs)
    have "\<forall>(h, b) \<in> set (concat (map (frag_one n) rs)). length h = 3 \<and> length b < 65536"
    proof
      fix f assume "f \<in> set (concat (map (frag_one n) rs))"
      then obtain h b where "(h, b) \<in> set rs" "f \<in> set (frag_one n (h, b))" by auto
      with tls_records_sound [OF Some] frag_one_short [of h b f n]
      show "case f of (h, b) \<Rightarrow> length h = 3 \<and> length b < 65536" by (auto simp: split_beta)
    qed
    from tls_records_concat [OF this, of "[]"]
    have "tls_records (encode_records (concat (map (frag_one n) rs))) = Some (concat (map (frag_one n) rs))"
      by (simp add: encode_records_def)
    moreover have "concat (map (\<lambda>r. concat (map snd (frag_one n r))) rs) = concat (map snd rs)"
      by (simp add: frag_one_bodies(1) [OF assms])
    moreover have "\<forall>r \<in> set rs. \<forall>(h, b) \<in> set (frag_one n r). h = fst r \<and> length b \<le> n"
      using frag_one_bodies(2) by blast
    ultimately show ?thesis by (simp add: loop Some)
  qed
qed

lemma fragment_payload_reframes_witness:
  "\<exists>out. fragment_payload [0x16, 3, 1, 0, 3, 7, 8, 9] 2 = Ok (Some out)
     \<and> tls_records out = Some [([0x16, 3, 1], [7, 8]), ([0x16, 3, 1], [9])]"
proof -
  have "tls_records [0x16, 3, 1, 0, 3, 7, 8, 9] = Some [([0x16, 3, 1], [7, 8, 9])]" by code_simp
  moreover have "concat (map (frag_one 2) [([0x16, 3, 1], [7, 8, 9])]) = [([0x16, 3, 1], [7, 8]), ([0x16, 3, 1], [9 :: u8])]"
    by code_simp
  ultimately show ?thesis
    using fragment_payload_reframes [of 2 "[0x16, 3, 1, 0, 3, 7, 8, 9]"] by auto
qed

section \<open>Cutting the first record at the SNI\<close>

lemma split_point_inside:
  assumes "sni_framed data b"
  shows "5 < split_point_offset sp b" "split_point_offset sp b \<le> 5 + read_u16 data 3"
    and "sp = ExtensionLength \<or> sp = PointMiddle \<Longrightarrow> split_point_offset sp b < 5 + read_u16 data 3"
  using assms by (cases sp; auto simp: sni_framed_def split_point_offset_def)+

lemma split_record_closed:
  assumes "find_sni_boundary data = Ok (Some b)"
    and c_def: "c = split_point_offset sp b" and e_def: "e = 5 + read_u16 data 3"
  shows "split_record sp data =
    Ok (if c < e then Some (build_record (take 3 data) (slice data 5 c),
                            build_record (take 3 data) (slice data c e) @ drop e data) else None)"
proof -
  have fr: "sni_framed data b" by (rule find_sni_boundary_sound [OF assms(1)])
  have len: "e \<le> length data" using fr by (simp add: sni_framed_def e_def)
  then have at: "get_at data 3 = Some (data ! 3)" "get_at data 4 = Some (data ! 4)" by (simp_all add: e_def)
  have "unat (u16_from_be (data ! 3) (data ! 4)) = read_u16 data 3" by (simp add: read_u16_def)
  then show ?thesis
    using split_point_inside(1) [OF fr, of sp] len at assms(1)
    by (auto simp: split_record_def cut_offset_def Let_def c_def e_def)
qed

text \<open>
  Splitting the first record keeps the TLS stream: on an input with a parseable SNI the split
  never panics; when it yields two parts, they hold the type and version of the first record, two
  non-empty bodies that concatenate to its body, and the rest of the input unchanged. Cutting at
  the extension length or in the middle of the name always yields two parts.
\<close>

theorem split_record_preserves_stream:
  assumes "find_sni_boundary data = Ok (Some b)" "tls_records data = Some ((h, body) # rest)"
  shows "\<exists>r. split_record sp data = Ok r
    \<and> (sp = ExtensionLength \<or> sp = PointMiddle \<longrightarrow> r \<noteq> None)
    \<and> (\<forall>first second. r = Some (first, second) \<longrightarrow>
         (\<exists>b1 b2. b1 \<noteq> [] \<and> b2 \<noteq> [] \<and> b1 @ b2 = body
            \<and> tls_records (first @ second) = Some ((h, b1) # (h, b2) # rest)))"
proof -
  let ?c = "split_point_offset sp b" and ?e = "5 + read_u16 data 3"
  have fr: "sni_framed data b" by (rule find_sni_boundary_sound [OF assms(1)])
  have len: "?e \<le> length data" using fr by (simp add: sni_framed_def)
  note ins = split_point_inside [OF fr, of sp]
  have h: "h = take 3 data" "body = slice data 5 ?e" "tls_records (drop ?e data) = Some rest"
    using assms(2) len by (subst (asm) tls_records.simps; auto simp: Let_def split: if_splits)+
  have short: "length (slice data 5 ?c) < 65536" "length (slice data ?c ?e) < 65536"
  proof -
    have "read_u16 data 3 < 65536" by (simp add: read_u16_def)
    moreover have "length (slice data 5 ?c) \<le> ?c - 5" "length (slice data ?c ?e) \<le> ?e - ?c" by simp_all
    ultimately show "length (slice data 5 ?c) < 65536" "length (slice data ?c ?e) < 65536"
      using ins(1,2) by linarith+
  qed
  have "tls_records (build_record (take 3 data) (slice data 5 ?c)
      @ build_record (take 3 data) (slice data ?c ?e) @ drop ?e data)
    = Some ((h, slice data 5 ?c) # (h, slice data ?c ?e) # rest)"
    using len short by (simp add: tls_records_build h)
  moreover have "slice data 5 ?c @ slice data ?c ?e = body" using ins(1,2) by (simp add: h slice_split)
  moreover have "?c < ?e \<Longrightarrow> slice data 5 ?c \<noteq> [] \<and> slice data ?c ?e \<noteq> []"
    using ins(1) len by (auto simp flip: length_0_conv)
  ultimately have "?c < ?e \<Longrightarrow> \<exists>b1 b2. b1 \<noteq> [] \<and> b2 \<noteq> [] \<and> b1 @ b2 = body
      \<and> tls_records (build_record (take 3 data) (slice data 5 ?c)
          @ build_record (take 3 data) (slice data ?c ?e) @ drop ?e data) = Some ((h, b1) # (h, b2) # rest)"
    by blast
  then show ?thesis
    using ins(3) unfolding split_record_closed [OF assms(1) refl refl] by (cases "?c < ?e") auto
qed

lemma split_record_preserves_stream_witness:
  "\<exists>r. split_record PointMiddle small_hello = Ok r \<and> r \<noteq> None"
proof -
  have "tls_records small_hello = Some [(take 3 small_hello, drop 5 small_hello)]" by code_simp
  from split_record_preserves_stream [OF small_hello_boundary this, of PointMiddle] show ?thesis by blast
qed

end
