(* ===== verification/Methods.thy ===== *)
theory Methods
  imports Flow Config Tls_Records
begin

text \<open>
  The bypass methods that work on packets, src/crates/zerodpi-core/src/methods/: each method is a record
  of its parameters and one or two functions on a packet view. A method stages its
  mutations on the view and says with a \<open>MethodAction\<close> what the handler does next. The member
  methods are collected in the datatype \<open>Member\<close>; the dispatch functions are the trait
  \<^verbatim>\<open>BypassMethod\<close>. The value behind the shared TTL handle and the seed that \<^verbatim>\<open>FragmentRng::new\<close> takes
  from the clock are arguments.
\<close>

section \<open>Actions\<close>

datatype MethodAction =
    EmitFakeAndAccept bool bool
  | CompleteAndAccept
  | PassThrough
  | AbortAndAccept

definition emit_and_wait_for_ack :: MethodAction where
  "emit_and_wait_for_ack = EmitFakeAndAccept False False"

definition emit_and_complete :: MethodAction where
  "emit_and_complete = EmitFakeAndAccept True False"

definition emit_and_wait_for_data :: MethodAction where
  "emit_and_wait_for_data = EmitFakeAndAccept False True"

definition emit_or_wait :: "bool \<Rightarrow> MethodAction" where
  "emit_or_wait complete_immediately = (if complete_immediately then emit_and_complete else emit_and_wait_for_ack)"

type_synonym method_result = "(MethodAction \<times> PacketView) res"

text \<open>What a call reads besides the flow and the packet.\<close>

record Env =
  env_ttl :: u8
  env_seed :: u64

text \<open>\<^verbatim>\<open>let mut flags = pkt.flags; flags.psh = self.set_psh\<close>.\<close>

definition with_psh :: "bool \<Rightarrow> PacketView \<Rightarrow> TcpFlags" where
  "with_psh psh p = (flags p)\<lparr>f_psh := psh\<rparr>"

section \<open>Handshake-stage methods\<close>

record WrongSeq =
  ws_extra_offset :: u32
  ws_set_psh :: bool
  ws_bump_ip_ident :: bool

definition wrong_seq_new :: "Config \<Rightarrow> WrongSeq" where
  "wrong_seq_new c = \<lparr>ws_extra_offset = WRONG_SEQ_EXTRA_OFFSET c, ws_set_psh = WRONG_SEQ_SET_PSH c,
     ws_bump_ip_ident = WRONG_SEQ_BUMP_IP_IDENT c\<rparr>"

text \<open>The sequence number that puts a payload of the given length behind the server's \<^verbatim>\<open>rcv_nxt\<close>.\<close>

definition behind_window :: "u32 \<Rightarrow> nat \<Rightarrow> u32 \<Rightarrow> u32" where
  "behind_window isn payload_length extra = isn + 1 - word_of_nat payload_length - extra"

definition wrong_seq_handshake :: "WrongSeq \<Rightarrow> FlowState \<Rightarrow> PacketView \<Rightarrow> method_result" where
  "wrong_seq_handshake m fs p = (case syn_seq fs of None \<Rightarrow> Panic
   | Some isn \<Rightarrow> Ok (emit_and_wait_for_ack, p\<lparr>
       new_seq := Some (behind_window isn (length (fake_data fs)) (ws_extra_offset m)),
       new_flags := Some (with_psh (ws_set_psh m) p),
       new_payload := Some (fake_data fs),
       bump_ipv4_ident := ws_bump_ip_ident m\<rparr>))"

record WrongAck =
  wa_offset :: u32
  wa_set_psh :: bool
  wa_bump_ip_ident :: bool
  wa_complete_immediately :: bool

definition wrong_ack_new :: "Config \<Rightarrow> WrongAck" where
  "wrong_ack_new c = \<lparr>wa_offset = WRONG_ACK_OFFSET c, wa_set_psh = WRONG_ACK_SET_PSH c,
     wa_bump_ip_ident = WRONG_ACK_BUMP_IP_IDENT c,
     wa_complete_immediately = WRONG_ACK_COMPLETE_IMMEDIATELY c\<rparr>"

definition wrong_ack_handshake :: "WrongAck \<Rightarrow> FlowState \<Rightarrow> PacketView \<Rightarrow> method_result" where
  "wrong_ack_handshake m fs p = (case syn_ack_seq fs of None \<Rightarrow> Panic
   | Some server_isn \<Rightarrow> Ok (emit_or_wait (wa_complete_immediately m), p\<lparr>
       new_ack := Some (server_isn + 1 - wa_offset m),
       new_flags := Some (with_psh (wa_set_psh m) p),
       new_payload := Some (fake_data fs),
       bump_ipv4_ident := wa_bump_ip_ident m\<rparr>))"

record WrongChecksum =
  wc_checksum_delta :: u16
  wc_set_psh :: bool
  wc_bump_ip_ident :: bool
  wc_complete_immediately :: bool

definition wrong_checksum_new :: "Config \<Rightarrow> WrongChecksum" where
  "wrong_checksum_new c = \<lparr>wc_checksum_delta = WRONG_CHECKSUM_DELTA c, wc_set_psh = WRONG_CHECKSUM_SET_PSH c,
     wc_bump_ip_ident = WRONG_CHECKSUM_BUMP_IP_IDENT c,
     wc_complete_immediately = WRONG_CHECKSUM_COMPLETE_IMMEDIATELY c\<rparr>"

definition wrong_checksum_handshake :: "WrongChecksum \<Rightarrow> FlowState \<Rightarrow> PacketView \<Rightarrow> method_result" where
  "wrong_checksum_handshake m fs p = Ok (emit_or_wait (wc_complete_immediately m), p\<lparr>
       new_flags := Some (with_psh (wc_set_psh m) p),
       new_payload := Some (fake_data fs),
       bump_ipv4_ident := wc_bump_ip_ident m,
       corrupt_tcp_checksum_delta := Some (wc_checksum_delta m)\<rparr>)"

definition tcp_md5_signature_option :: bytes where
  "tcp_md5_signature_option = [19, 18] @ replicate 16 0"

record WrongMd5 =
  wm_set_psh :: bool
  wm_bump_ip_ident :: bool
  wm_complete_immediately :: bool

definition wrong_md5_new :: "Config \<Rightarrow> WrongMd5" where
  "wrong_md5_new c = \<lparr>wm_set_psh = WRONG_MD5_SET_PSH c, wm_bump_ip_ident = WRONG_MD5_BUMP_IP_IDENT c,
     wm_complete_immediately = WRONG_MD5_COMPLETE_IMMEDIATELY c\<rparr>"

definition wrong_md5_handshake :: "WrongMd5 \<Rightarrow> FlowState \<Rightarrow> PacketView \<Rightarrow> method_result" where
  "wrong_md5_handshake m fs p = Ok (emit_or_wait (wm_complete_immediately m), p\<lparr>
       new_flags := Some (with_psh (wm_set_psh m) p),
       new_payload := Some (fake_data fs),
       append_tcp_options := tcp_md5_signature_option,
       bump_ipv4_ident := wm_bump_ip_ident m\<rparr>)"

text \<open>The walk over the TCP options of \<^verbatim>\<open>backdate_tcp_timestamp\<close>; \<open>cursor\<close> is the loop variable.\<close>

function backdate_walk :: "bytes \<Rightarrow> u32 \<Rightarrow> nat \<Rightarrow> bytes option" where
  "backdate_walk options offset cursor =
     (if length options \<le> cursor then None
      else if options ! cursor = 0 then None
      else if options ! cursor = 1 then backdate_walk options offset (cursor + 1)
      else if length options \<le> cursor + 1 then None
      else (let opt_len = unat (options ! (cursor + 1)); end' = cursor + opt_len in
        if opt_len < 2 then None
        else if length options < end' then None
        else if options ! cursor = 8
        then (if opt_len \<noteq> 10 then None
              else (let t = cursor + 2;
                        tsval = u32_from_be (options ! t) (options ! (t + 1)) (options ! (t + 2)) (options ! (t + 3))
                    in Some (splice options t (u32_to_be (tsval - offset)))))
        else backdate_walk options offset end'))"
  by pat_completeness auto
termination
  by (relation "measure (\<lambda>(options, offset, cursor). length options - cursor)") auto

declare backdate_walk.simps [simp del]

definition backdate_tcp_timestamp :: "bytes \<Rightarrow> u32 \<Rightarrow> bytes option" where
  "backdate_tcp_timestamp options offset = backdate_walk options offset 0"

record WrongTimestamp =
  wt_offset :: u32
  wt_set_psh :: bool
  wt_bump_ip_ident :: bool
  wt_complete_immediately :: bool

definition wrong_timestamp_new :: "Config \<Rightarrow> WrongTimestamp" where
  "wrong_timestamp_new c = \<lparr>wt_offset = WRONG_TIMESTAMP_OFFSET c, wt_set_psh = WRONG_TIMESTAMP_SET_PSH c,
     wt_bump_ip_ident = WRONG_TIMESTAMP_BUMP_IP_IDENT c,
     wt_complete_immediately = WRONG_TIMESTAMP_COMPLETE_IMMEDIATELY c\<rparr>"

definition wrong_timestamp_handshake :: "WrongTimestamp \<Rightarrow> FlowState \<Rightarrow> PacketView \<Rightarrow> method_result" where
  "wrong_timestamp_handshake m fs p = (case backdate_tcp_timestamp (tcp_options p) (wt_offset m) of
     None \<Rightarrow> Ok (AbortAndAccept, p)
   | Some options \<Rightarrow> Ok (emit_or_wait (wt_complete_immediately m), p\<lparr>
       new_flags := Some (with_psh (wt_set_psh m) p),
       new_payload := Some (fake_data fs),
       replace_tcp_options := Some options,
       bump_ipv4_ident := wt_bump_ip_ident m\<rparr>))"

text \<open>\<^verbatim>\<open>LowTtl\<close>: the TTL itself lives behind the shared handle, \<^const>\<open>env_ttl\<close>.\<close>

record LowTtl =
  lt_set_psh :: bool
  lt_bump_ip_ident :: bool
  lt_complete_immediately :: bool

definition low_ttl_new :: "Config \<Rightarrow> LowTtl" where
  "low_ttl_new c = \<lparr>lt_set_psh = LOW_TTL_SET_PSH c, lt_bump_ip_ident = LOW_TTL_BUMP_IP_IDENT c,
     lt_complete_immediately = LOW_TTL_COMPLETE_IMMEDIATELY c\<rparr>"

definition low_ttl_handshake :: "Env \<Rightarrow> LowTtl \<Rightarrow> FlowState \<Rightarrow> PacketView \<Rightarrow> method_result" where
  "low_ttl_handshake env m fs p = Ok (emit_or_wait (lt_complete_immediately m), p\<lparr>
       new_flags := Some (with_psh (lt_set_psh m) p),
       new_payload := Some (fake_data fs),
       bump_ipv4_ident := lt_bump_ip_ident m,
       new_ipv4_ttl := Some (case low_ttl_override fs of Some ttl \<Rightarrow> ttl | None \<Rightarrow> env_ttl env)\<rparr>)"

section \<open>Data-stage methods\<close>

record TlsRecordFrag =
  rf_frag_size :: nat
  rf_set_psh :: bool
  rf_bump_ip_ident :: bool

definition tls_record_frag_new :: "Config \<Rightarrow> TlsRecordFrag" where
  "tls_record_frag_new c = \<lparr>rf_frag_size = TLS_RECORD_FRAG_SIZE c, rf_set_psh = TLS_RECORD_FRAG_SET_PSH c,
     rf_bump_ip_ident = TLS_RECORD_FRAG_BUMP_IP_IDENT c\<rparr>"

definition tls_record_frag_data :: "TlsRecordFrag \<Rightarrow> FlowState \<Rightarrow> PacketView \<Rightarrow> method_result" where
  "tls_record_frag_data m fs p = (case fragment_payload (payload p) (rf_frag_size m) of
     Panic \<Rightarrow> Panic
   | Ok None \<Rightarrow> Ok (CompleteAndAccept, p)
   | Ok (Some fragmented) \<Rightarrow> Ok (emit_and_complete, p\<lparr>
       new_flags := Some (with_psh (rf_set_psh m) p),
       new_payload := Some fragmented,
       bump_ipv4_ident := rf_bump_ip_ident m\<rparr>))"

record FakeTls =
  ft_extra_offset :: u32
  ft_set_psh :: bool
  ft_bump_ip_ident :: bool
  ft_complete_immediately :: bool
  ft_forward_real :: bool
  ft_chained :: bool
  ft_repeats :: nat
  ft_chain_delay_ms :: Int32Range

definition fake_tls_new :: "Config \<Rightarrow> FakeTls" where
  "fake_tls_new c = \<lparr>ft_extra_offset = FAKE_TLS_EXTRA_OFFSET c, ft_set_psh = FAKE_TLS_SET_PSH c,
     ft_bump_ip_ident = FAKE_TLS_BUMP_IP_IDENT c,
     ft_complete_immediately = FAKE_TLS_COMPLETE_IMMEDIATELY c,
     ft_forward_real = FAKE_TLS_FORWARD_REAL c, ft_chained = False,
     ft_repeats = FAKE_TLS_REPEATS c, ft_chain_delay_ms = FAKE_TLS_CHAIN_DELAY_MS c\<rparr>"

definition fake_tls_data :: "Env \<Rightarrow> FakeTls \<Rightarrow> FlowState \<Rightarrow> PacketView \<Rightarrow> method_result" where
  "fake_tls_data env m fs p =
     (if ft_chained m \<and> first_data_modified fs then Ok (CompleteAndAccept, p)
      else (case syn_seq fs of None \<Rightarrow> Panic
      | Some isn \<Rightarrow> (let
          seq' = behind_window isn (length (fake_data fs)) (ft_extra_offset m);
          flags' = with_psh (ft_set_psh m) p
        in if ft_chained m
           then (case sample_i32 (ft_chain_delay_ms m) (env_seed env) of Panic \<Rightarrow> Panic
             | Ok (delay, rng) \<Rightarrow> Ok (EmitFakeAndAccept (ft_complete_immediately m) False, p\<lparr>
                 decoy := Some \<lparr>dp_seq = seq', dp_payload = fake_data fs, dp_flags = flags',
                   dp_bump_ipv4_ident = ft_bump_ip_ident m, dp_repeats = ft_repeats m,
                   dp_delay_ms = nat delay\<rparr>\<rparr>))
           else Ok (EmitFakeAndAccept (ft_complete_immediately m) False, p\<lparr>
             new_seq := Some seq', new_flags := Some flags', new_payload := Some (fake_data fs),
             bump_ipv4_ident := ft_bump_ip_ident m, emit_original_after := ft_forward_real m\<rparr>))))"

record IpFrag =
  if_frag_size :: nat
  if_only_first_packet :: bool

definition ip_frag_new :: "Config \<Rightarrow> IpFrag" where
  "ip_frag_new c = \<lparr>if_frag_size = IP_FRAG_SIZE c, if_only_first_packet = IP_FRAG_ONLY_FIRST_PACKET c\<rparr>"

definition ip_frag_data :: "IpFrag \<Rightarrow> FlowState \<Rightarrow> PacketView \<Rightarrow> method_result" where
  "ip_frag_data m fs p = (let
     tcp_hdr_len = 20 + length (tcp_options p);
     p = (if if_frag_size m < tcp_hdr_len + payload_len p
          then p\<lparr>ip_frag_payload_size := Some (if_frag_size m)\<rparr> else p)
   in Ok (if if_only_first_packet m then emit_and_complete else EmitFakeAndAccept False True, p))"

text \<open>\<^verbatim>\<open>overlap_from_config\<close> of methods/seqovl.rs; \<open>seed\<close> is what \<^verbatim>\<open>fresh_seed()\<close> returns.\<close>

definition overlap_from_config :: "u64 \<Rightarrow> Config \<Rightarrow> nat \<Rightarrow> OverlapFake option" where
  "overlap_from_config seed c default_when_unset = (let
     pattern = (case SEQOVL_PATTERN c of None \<Rightarrow> None
       | Some raw \<Rightarrow> (case parse_hex_pattern raw of Inl e \<Rightarrow> None | Inr bs \<Rightarrow> Some bs));
     n = (case SEQOVL_SIZE c of Some n \<Rightarrow> n
       | None \<Rightarrow> (case pattern of Some bs \<Rightarrow> length bs | None \<Rightarrow> default_when_unset))
   in if n = 0 then None else Some \<lparr>ov_bytes = n, ov_pattern = pattern, ov_seed = seed\<rparr>)"

definition DEFAULT_SEQOVL_SIZE :: nat where
  "DEFAULT_SEQOVL_SIZE = 32"

record Disorder =
  di_segments :: nat
  di_reverse :: bool
  di_delay_ms :: nat
  di_only_first_packet :: bool
  di_overlap :: "OverlapFake option"

definition disorder_new :: "u64 \<Rightarrow> Config \<Rightarrow> Disorder" where
  "disorder_new seed c = \<lparr>di_segments = DISORDER_SEGMENTS c, di_reverse = DISORDER_REVERSE c,
     di_delay_ms = DISORDER_DELAY_MS c, di_only_first_packet = DISORDER_ONLY_FIRST_PACKET c,
     di_overlap = overlap_from_config seed c 0\<rparr>"

definition disorder_data :: "Disorder \<Rightarrow> FlowState \<Rightarrow> PacketView \<Rightarrow> method_result" where
  "disorder_data m fs p = (let
     p = (if di_segments m \<le> payload_len p
          then p\<lparr>disorder_spec := Some \<lparr>ds_segments = di_segments m, ds_reverse = di_reverse m,
                 ds_delay_ms = di_delay_ms m, ds_overlap = di_overlap m\<rparr>\<rparr> else p)
   in Ok (if di_only_first_packet m then emit_and_complete else EmitFakeAndAccept False True, p))"

record Seqovl =
  so_segments :: nat
  so_reverse :: bool
  so_delay_ms :: nat
  so_overlap :: "OverlapFake option"

definition seqovl_new :: "u64 \<Rightarrow> Config \<Rightarrow> Seqovl" where
  "seqovl_new seed c = \<lparr>so_segments = SEQOVL_SEGMENTS c, so_reverse = SEQOVL_REVERSE c,
     so_delay_ms = SEQOVL_DELAY_MS c, so_overlap = overlap_from_config seed c DEFAULT_SEQOVL_SIZE\<rparr>"

definition seqovl_data :: "Seqovl \<Rightarrow> FlowState \<Rightarrow> PacketView \<Rightarrow> method_result" where
  "seqovl_data m fs p = (let
     p = (if so_segments m \<le> payload_len p
          then p\<lparr>disorder_spec := Some \<lparr>ds_segments = so_segments m, ds_reverse = so_reverse m,
                 ds_delay_ms = so_delay_ms m, ds_overlap = so_overlap m\<rparr>\<rparr> else p)
   in Ok (emit_and_complete, p))"

text \<open>methods/urg\_sni\_split.rs.\<close>

definition resolve_insert_position :: "nat \<Rightarrow> SniSplitPosition \<Rightarrow> nat" where
  "resolve_insert_position name_len pos =
     (if name_len = 0 then 0
      else min (case pos of PosMiddle \<Rightarrow> name_len div 2 | PosStart \<Rightarrow> 0 | PosEnd \<Rightarrow> name_len - 1
                | PosIndex n \<Rightarrow> unat n) (name_len - 1))"

definition insert_dummy :: "bytes \<Rightarrow> nat \<Rightarrow> u8 \<Rightarrow> bytes res" where
  "insert_dummy pl i b = (if i \<le> length pl then Ok (take i pl @ [b] @ drop i pl) else Panic)"

record UrgSniSplit =
  us_dummy_byte :: u8
  us_position :: SniSplitPosition

definition urg_sni_split_new :: "Config \<Rightarrow> UrgSniSplit" where
  "urg_sni_split_new c = \<lparr>us_dummy_byte = SNI_SPLIT_DUMMY_BYTE c, us_position = SNI_SPLIT_POSITION c\<rparr>"

definition urg_sni_split_data :: "UrgSniSplit \<Rightarrow> FlowState \<Rightarrow> PacketView \<Rightarrow> method_result" where
  "urg_sni_split_data m fs p = (case find_sni_range (payload p) of Panic \<Rightarrow> Panic
   | Ok None \<Rightarrow> Ok (PassThrough, p)
   | Ok (Some (name_start, name_len)) \<Rightarrow> (let
       insert_at = name_start + resolve_insert_position name_len (us_position m)
     in (case insert_dummy (payload p) insert_at (us_dummy_byte m) of Panic \<Rightarrow> Panic
       | Ok pl \<Rightarrow> Ok (emit_and_complete, p\<lparr>
           new_payload := Some pl,
           new_flags := Some ((flags p)\<lparr>f_urg := True\<rparr>),
           new_urgent_pointer := Some (word_of_nat (min (insert_at + 1) 65535))\<rparr>))))"

section \<open>Dispatch\<close>

datatype Member =
    MWrongSeq WrongSeq
  | MWrongAck WrongAck
  | MWrongChecksum WrongChecksum
  | MWrongMd5 WrongMd5
  | MWrongTimestamp WrongTimestamp
  | MLowTtl LowTtl
  | MUrgSniSplit UrgSniSplit
  | MTlsRecordFrag TlsRecordFrag
  | MFakeTls FakeTls
  | MIpFrag IpFrag
  | MDisorder Disorder
  | MSeqovl Seqovl

fun member_name :: "Member \<Rightarrow> string" where
  "member_name (MWrongSeq _) = ''wrong_seq''"
| "member_name (MWrongAck _) = ''wrong_ack''"
| "member_name (MWrongChecksum _) = ''wrong_checksum''"
| "member_name (MWrongMd5 _) = ''wrong_md5''"
| "member_name (MWrongTimestamp _) = ''wrong_timestamp''"
| "member_name (MLowTtl _) = ''low_ttl''"
| "member_name (MUrgSniSplit _) = ''urg_sni_split''"
| "member_name (MTlsRecordFrag _) = ''tls_record_frag''"
| "member_name (MFakeTls _) = ''fake_tls''"
| "member_name (MIpFrag _) = ''ip_frag''"
| "member_name (MDisorder _) = ''disorder''"
| "member_name (MSeqovl _) = ''seqovl''"

fun member_handshake :: "Env \<Rightarrow> Member \<Rightarrow> FlowState \<Rightarrow> PacketView \<Rightarrow> method_result" where
  "member_handshake env (MWrongSeq m) fs p = wrong_seq_handshake m fs p"
| "member_handshake env (MWrongAck m) fs p = wrong_ack_handshake m fs p"
| "member_handshake env (MWrongChecksum m) fs p = wrong_checksum_handshake m fs p"
| "member_handshake env (MWrongMd5 m) fs p = wrong_md5_handshake m fs p"
| "member_handshake env (MWrongTimestamp m) fs p = wrong_timestamp_handshake m fs p"
| "member_handshake env (MLowTtl m) fs p = low_ttl_handshake env m fs p"
| "member_handshake env _ fs p = Ok (PassThrough, p)"

text \<open>The trait's default \<^verbatim>\<open>on_first_data_packet\<close> passes the packet through.\<close>

fun member_data :: "Env \<Rightarrow> Member \<Rightarrow> FlowState \<Rightarrow> PacketView \<Rightarrow> method_result" where
  "member_data env (MUrgSniSplit m) fs p = urg_sni_split_data m fs p"
| "member_data env (MTlsRecordFrag m) fs p = tls_record_frag_data m fs p"
| "member_data env (MFakeTls m) fs p = fake_tls_data env m fs p"
| "member_data env (MIpFrag m) fs p = ip_frag_data m fs p"
| "member_data env (MDisorder m) fs p = disorder_data m fs p"
| "member_data env (MSeqovl m) fs p = seqovl_data m fs p"
| "member_data env _ fs p = Ok (PassThrough, p)"

section \<open>The contract\<close>

text \<open>
  What the packet handler relies on when it calls a method with the flow of a completed handshake: the
  call returns, and it changes only the staged part of the packet.
\<close>

locale handshake_stage =
  fixes ok :: "'m \<Rightarrow> bool"
    and hs :: "Env \<Rightarrow> 'm \<Rightarrow> FlowState \<Rightarrow> PacketView \<Rightarrow> method_result"
  assumes hs_total: "ok m \<Longrightarrow> syn_seq fs \<noteq> None \<Longrightarrow> syn_ack_seq fs \<noteq> None \<Longrightarrow>
    \<exists>a p'. hs env m fs p = Ok (a, p') \<and> captured p' = captured p"

locale data_stage =
  fixes data_ok :: "'m \<Rightarrow> bool"
    and dat :: "Env \<Rightarrow> 'm \<Rightarrow> FlowState \<Rightarrow> PacketView \<Rightarrow> method_result"
  assumes dat_total: "data_ok m \<Longrightarrow> syn_seq fs \<noteq> None \<Longrightarrow>
    \<exists>a p'. dat env m fs p = Ok (a, p') \<and> captured p' = captured p"

locale bypass_method = handshake_stage ok hs + data_stage ok dat
  for ok :: "'m \<Rightarrow> bool"
    and hs :: "Env \<Rightarrow> 'm \<Rightarrow> FlowState \<Rightarrow> PacketView \<Rightarrow> method_result"
    and dat :: "Env \<Rightarrow> 'm \<Rightarrow> FlowState \<Rightarrow> PacketView \<Rightarrow> method_result"

text \<open>The parameters with which a member's data stage cannot panic.\<close>

fun member_data_ok :: "Member \<Rightarrow> bool" where
  "member_data_ok (MTlsRecordFrag m) = (0 < rf_frag_size m)"
| "member_data_ok (MFakeTls m) = i32_range (ft_chain_delay_ms m)"
| "member_data_ok (MUrgSniSplit m) = False"
| "member_data_ok _ = True"

section \<open>Lemmas\<close>

lemmas handshake_defs = wrong_seq_handshake_def wrong_ack_handshake_def wrong_checksum_handshake_def
  wrong_md5_handshake_def wrong_timestamp_handshake_def low_ttl_handshake_def

lemmas data_defs = tls_record_frag_data_def fake_tls_data_def ip_frag_data_def disorder_data_def
  seqovl_data_def

lemma captured_update [simp]:
  "captured (p\<lparr>new_seq := v1\<rparr>) = captured p" "captured (p\<lparr>new_ack := v2\<rparr>) = captured p"
  "captured (p\<lparr>new_flags := v3\<rparr>) = captured p" "captured (p\<lparr>new_urgent_pointer := v4\<rparr>) = captured p"
  "captured (p\<lparr>new_payload := v5\<rparr>) = captured p" "captured (p\<lparr>replace_tcp_options := v6\<rparr>) = captured p"
  "captured (p\<lparr>append_tcp_options := v7\<rparr>) = captured p" "captured (p\<lparr>bump_ipv4_ident := v8\<rparr>) = captured p"
  "captured (p\<lparr>corrupt_tcp_checksum_delta := v9\<rparr>) = captured p"
  "captured (p\<lparr>emit_original_after := v10\<rparr>) = captured p" "captured (p\<lparr>decoy := v11\<rparr>) = captured p"
  "captured (p\<lparr>ip_frag_payload_size := v12\<rparr>) = captured p" "captured (p\<lparr>disorder_spec := v13\<rparr>) = captured p"
  "captured (p\<lparr>new_ipv4_ttl := v14\<rparr>) = captured p"
  by (simp_all add: captured_def)

lemma member_handshake_total:
  "syn_seq fs \<noteq> None \<Longrightarrow> syn_ack_seq fs \<noteq> None \<Longrightarrow>
   \<exists>a p'. member_handshake env m fs p = Ok (a, p') \<and> captured p' = captured p"
  by (cases m) (auto simp: handshake_defs split: option.splits)

lemma fake_tls_data_total:
  assumes "i32_range (ft_chain_delay_ms m)" "syn_seq fs \<noteq> None"
  shows "\<exists>a p'. fake_tls_data env m fs p = Ok (a, p') \<and> captured p' = captured p"
proof -
  obtain v rng where "sample_i32 (ft_chain_delay_ms m) (env_seed env) = Ok (v, rng)"
    using sample_i32_ordered [OF assms(1)] by blast
  then show ?thesis using assms(2) by (auto simp: fake_tls_data_def Let_def)
qed

lemma member_data_total:
  "member_data_ok m \<Longrightarrow> syn_seq fs \<noteq> None \<Longrightarrow>
   \<exists>a p'. member_data env m fs p = Ok (a, p') \<and> captured p' = captured p"
proof (cases m)
  case (MTlsRecordFrag r)
  moreover assume "member_data_ok m"
  ultimately show ?thesis
    by (auto simp: tls_record_frag_data_def fragment_payload_def split: option.splits)
qed (auto simp: fake_tls_data_total ip_frag_data_def disorder_data_def seqovl_data_def Let_def)

interpretation member_hs: handshake_stage "\<lambda>_. True" member_handshake
  by unfold_locales (rule member_handshake_total)

interpretation member_dat: data_stage member_data_ok member_data
  by unfold_locales (rule member_data_total)

section \<open>Decoys and the receive window\<close>

text \<open>Byte \<open>i\<close> of the decoy lies \<open>n - i + extra\<close> before \<^verbatim>\<open>rcv_nxt\<close>.\<close>

lemma behind_window_distance:
  assumes "i \<le> n" "n + unat extra < 2 ^ 31"
  shows "unat (isn + 1 - (behind_window isn n extra + word_of_nat i)) = n - i + unat extra"
proof -
  have "isn + 1 - (behind_window isn n extra + word_of_nat i) = word_of_nat (n - i + unat extra)"
    using assms(1) by (simp add: behind_window_def of_nat_diff algebra_simps)
  then show ?thesis using assms(2) by (simp only: unat_u32_of_nat) simp
qed

text \<open>
  The fake ClientHello of \<^verbatim>\<open>wrong_seq\<close> is invisible to the server. The injected segment covers only sequence
  numbers that lie before the server's \<^verbatim>\<open>rcv_nxt = syn_seq + 1\<close>: byte \<open>i\<close> of its payload is behind it by
  exactly \<open>len - i + extra_offset\<close>, in the modular order of TCP, as long as the sum fits in half the sequence space.
  The acknowledgment number, the options and the TTL of the captured packet are not touched.
\<close>

theorem wrong_seq_behind_window:
  assumes "wrong_seq_handshake m fs p = Ok (a, p')" "syn_seq fs = Some isn" "unstaged p"
    and "i < length (fake_data fs)" "length (fake_data fs) + unat (ws_extra_offset m) < 2 ^ 31"
  shows "\<exists>s. new_seq p' = Some s \<and> new_payload p' = Some (fake_data fs)
    \<and> unat (isn + 1 - (s + word_of_nat i)) = length (fake_data fs) - i + unat (ws_extra_offset m)
    \<and> new_ack p' = None \<and> replace_tcp_options p' = None \<and> append_tcp_options p' = [] \<and> new_ipv4_ttl p' = None"
  using assms behind_window_distance [of i "length (fake_data fs)" "ws_extra_offset m" isn]
  unfolding wrong_seq_handshake_def unstaged_def by (auto simp del: unat_word_ariths)

lemma wrong_seq_behind_window_witness:
  "\<exists>p' s. wrong_seq_handshake \<lparr>ws_extra_offset = 7, ws_set_psh = True, ws_bump_ip_ident = True\<rparr>
       ((new_flow_state [1, 2, 3] None)\<lparr>syn_seq := Some 0\<rparr>) blank_packet = Ok (emit_and_wait_for_ack, p')
     \<and> new_seq p' = Some s \<and> unat (0 + 1 - (s + word_of_nat 1)) = 9"
proof -
  let ?m = "\<lparr>ws_extra_offset = 7, ws_set_psh = True, ws_bump_ip_ident = True\<rparr>"
  let ?fs = "(new_flow_state [1, 2, 3] None)\<lparr>syn_seq := Some 0\<rparr>"
  obtain p' where p': "wrong_seq_handshake ?m ?fs blank_packet = Ok (emit_and_wait_for_ack, p')"
    by (simp add: wrong_seq_handshake_def)
  show ?thesis
    using wrong_seq_behind_window [OF p', of 0 1] p' by (auto simp: new_flow_state_def)
qed

section \<open>The timestamp option\<close>

text \<open>The four bytes at \<open>t\<close> as a big-endian number.\<close>

definition u32_at :: "bytes \<Rightarrow> nat \<Rightarrow> u32" where
  "u32_at xs t = u32_from_be (xs ! t) (xs ! (t + 1)) (xs ! (t + 2)) (xs ! (t + 3))"

lemma u32_at_splice: "t + 4 \<le> length xs \<Longrightarrow> u32_at (splice xs t (u32_to_be w)) t = w"
  using u32_from_to_be [of w] by (simp add: u32_at_def nth_splice)

lemma backdate_walk_Some:
  "backdate_walk options offset cursor = Some out \<Longrightarrow>
   \<exists>t. cursor + 2 \<le> t \<and> t + 8 \<le> length options \<and> options ! (t - 2) = 8 \<and> options ! (t - 1) = 10
     \<and> out = splice options t (u32_to_be (u32_at options t - offset))"
proof (induction options offset cursor rule: backdate_walk.induct)
  case (1 options offset cursor)
  let ?n = "unat (options ! (cursor + 1))"
  have unf: "backdate_walk options offset cursor = Some out" by fact
  consider (nop) "cursor < length options" "options ! cursor = 1"
      "backdate_walk options offset (cursor + 1) = Some out"
    | (ts) "cursor + 10 \<le> length options" "options ! cursor = 8" "?n = 10"
      "out = splice options (cursor + 2) (u32_to_be (u32_at options (cursor + 2) - offset))"
    | (other) "cursor + 1 < length options" "options ! cursor \<notin> {0, 1, 8}" "2 \<le> ?n"
      "cursor + ?n \<le> length options" "backdate_walk options offset (cursor + ?n) = Some out"
    using unf by (auto simp: backdate_walk.simps [of options offset cursor] Let_def u32_at_def split: if_splits)
  then show ?case
  proof cases
    case nop
    then show ?thesis using "1.IH"(1) by (auto dest: Suc_leD)
  next
    case ts
    then have "options ! (cursor + 1) = 10" using unsigned_word_eqI [of "options ! (cursor + 1)" 10] by simp
    with ts show ?thesis by (intro exI [of _ "cursor + 2"]) simp
  next
    case other
    then obtain t where "cursor + ?n + 2 \<le> t" "t + 8 \<le> length options" "options ! (t - 2) = 8"
        "options ! (t - 1) = 10" "out = splice options t (u32_to_be (u32_at options t - offset))"
      using "1.IH"(2) [OF _ _ _ _ refl refl] by auto
    then show ?thesis by (intro exI [of _ t]) simp
  qed
qed

text \<open>
  Backdating changes exactly the TSval of a well-formed timestamp option: the option list keeps its
  length, the four TSval bytes hold the old value minus the offset (modulo \<open>2 ^ 32\<close>), and every other byte, the echo reply
  included, is unchanged. With the non-zero offset that the configuration check demands the result differs
  from the captured options.
\<close>

theorem backdate_changes_tsval_only:
  assumes "backdate_tcp_timestamp options offset = Some out"
  shows "\<exists>t. 2 \<le> t \<and> t + 8 \<le> length options \<and> options ! (t - 2) = 8 \<and> options ! (t - 1) = 10
    \<and> length out = length options \<and> u32_at out t = u32_at options t - offset
    \<and> (\<forall>i < length options. i < t \<or> t + 4 \<le> i \<longrightarrow> out ! i = options ! i)
    \<and> (offset \<noteq> 0 \<longrightarrow> out \<noteq> options)"
proof -
  obtain t where t: "t \<ge> 2" "t + 8 \<le> length options" "options ! (t - 2) = 8" "options ! (t - 1) = 10"
    "out = splice options t (u32_to_be (u32_at options t - offset))"
    using backdate_walk_Some [of options offset 0 out] assms unfolding backdate_tcp_timestamp_def add_0 by blast
  have v: "u32_at out t = u32_at options t - offset" using t(2,5) by (simp add: u32_at_splice)
  then have "offset \<noteq> 0 \<longrightarrow> out \<noteq> options" by auto
  moreover have "\<forall>i < length options. i < t \<or> t + 4 \<le> i \<longrightarrow> out ! i = options ! i"
    using t(2,5) by (auto simp: nth_splice)
  ultimately show ?thesis using t v by (intro exI [of _ t]) simp
qed

lemma backdate_changes_tsval_only_witness:
  "\<exists>out. backdate_tcp_timestamp [1, 1, 8, 10, 0, 0, 0, 0, 9, 9, 9, 9] 1 = Some out
     \<and> length out = 12 \<and> out \<noteq> [1, 1, 8, 10, 0, 0, 0, 0, 9, 9, 9, 9]"
proof -
  obtain out where "backdate_tcp_timestamp [1, 1, 8, 10, 0, 0, 0, 0, 9, 9, 9, 9] 1 = Some out"
    by (simp add: backdate_tcp_timestamp_def backdate_walk.simps)
  then show ?thesis using backdate_changes_tsval_only [of _ 1 out] by fastforce
qed

section \<open>The urgent byte\<close>

lemma resolve_insert_position_less: "0 < n \<Longrightarrow> resolve_insert_position n pos < n"
  by (simp add: resolve_insert_position_def)

text \<open>
  The data stage of \<^verbatim>\<open>urg_sni_split\<close> inserts its dummy byte inside the server name. When it rewrites a packet,
  the new payload is the old one with one byte inserted strictly before the last byte of the
  name and not before its first, so that the name is no longer contiguous; and the urgent pointer, which saturates at
  65535, is one past the inserted byte.
\<close>

theorem urg_sni_split_splits_name:
  assumes "urg_sni_split_data m fs p = Ok (emit_and_complete, p')"
  shows "\<exists>b i. find_sni_boundary (payload p) = Ok (Some b)
    \<and> sb_name_start b \<le> i \<and> i < sb_name_start b + sb_name_len b \<and> i < length (payload p)
    \<and> new_payload p' = Some (take i (payload p) @ [us_dummy_byte m] @ drop i (payload p))
    \<and> new_urgent_pointer p' = Some (word_of_nat (min (i + 1) 65535))
    \<and> new_flags p' = Some ((flags p)\<lparr>f_urg := True\<rparr>) \<and> captured p' = captured p"
proof -
  obtain b where b: "find_sni_boundary (payload p) = Ok (Some b)"
    using assms by (auto simp: urg_sni_split_data_def find_sni_range_def emit_and_complete_def
        split: res.splits option.splits)
  define i where "i = sb_name_start b + resolve_insert_position (sb_name_len b) (us_position m)"
  have framed: "0 < sb_name_len b" "sb_name_start b + sb_name_len b \<le> length (payload p)"
    using find_sni_boundary_framed [OF b] by (simp_all add: sni_framed_def)
  have i: "sb_name_start b \<le> i" "i < sb_name_start b + sb_name_len b"
    using resolve_insert_position_less [OF framed(1)] by (simp_all add: i_def)
  have "p' = p\<lparr>new_payload := Some (take i (payload p) @ [us_dummy_byte m] @ drop i (payload p)),
      new_flags := Some ((flags p)\<lparr>f_urg := True\<rparr>), new_urgent_pointer := Some (word_of_nat (min (i + 1) 65535))\<rparr>"
    using assms b i framed
    by (simp add: urg_sni_split_data_def find_sni_range_def insert_dummy_def i_def [symmetric])
  with b i framed show ?thesis by (intro exI [of _ b] exI [of _ i]) simp
qed

lemma urg_sni_split_splits_name_witness:
  "\<exists>p' i. urg_sni_split_data \<lparr>us_dummy_byte = 0, us_position = PosMiddle\<rparr> (new_flow_state [] None)
       (blank_packet\<lparr>payload := small_hello\<rparr>) = Ok (emit_and_complete, p')
     \<and> new_payload p' = Some (take i small_hello @ [0] @ drop i small_hello)"
proof -
  let ?p = "blank_packet\<lparr>payload := small_hello\<rparr>" and ?m = "\<lparr>us_dummy_byte = 0, us_position = PosMiddle\<rparr>"
  obtain b where b: "find_sni_boundary small_hello = Ok (Some b)" using small_hello_boundary by blast
  have "sb_name_start b + resolve_insert_position (sb_name_len b) PosMiddle \<le> length small_hello"
    using find_sni_boundary_framed [OF b] resolve_insert_position_less [of "sb_name_len b" PosMiddle]
    by (simp add: sni_framed_def)
  then obtain p' where p': "urg_sni_split_data ?m (new_flow_state [] None) ?p = Ok (emit_and_complete, p')"
    using b by (simp add: urg_sni_split_data_def find_sni_range_def insert_dummy_def Let_def)
  show ?thesis using urg_sni_split_splits_name [OF p'] p' by auto
qed

end
