(* ===== verification/Composite.thy ===== *)
theory Composite
  imports Methods
begin

text \<open>
  The method chain, src/crates/zerodpi-core/src/methods/composite.rs and \<^verbatim>\<open>build_method\<close> of
  methods/mod.rs: the configured list becomes handshake-stage members, data-stage members and flags for the
  transforms on the socket side. What the packet handler relies on is the locale \<open>bypass_method\<close>; the chain
  and its members interpret it.
\<close>

section \<open>The chain\<close>

record CompositeMethod =
  handshake_methods :: "Member list"
  data_methods :: "Member list"
  segments_first_client_hello :: bool
  pads_first_client_hello :: bool
  mixed_case_sni_first_hello :: bool
  splits_first_client_hello :: bool
  ccs_prefix_first_hello :: bool
  record_splits_first_client_hello :: bool

text \<open>The parts \<^verbatim>\<open>name()\<close> joins with \<^verbatim>\<open>" + "\<close>.\<close>

definition name_parts :: "CompositeMethod \<Rightarrow> string list" where
  "name_parts m = map member_name (handshake_methods m) @ map member_name (data_methods m)
     @ (if segments_first_client_hello m then [''tls_frag''] else [])
     @ (if pads_first_client_hello m then [''tls_padding''] else [])
     @ (if mixed_case_sni_first_hello m then [''mixed_case_sni''] else [])
     @ (if splits_first_client_hello m then [''sni_boundary_frag''] else [])
     @ (if ccs_prefix_first_hello m then [''ccs_prefix''] else [])
     @ (if record_splits_first_client_hello m then [''tls_record_split''] else [])"

text \<open>The loop of \<^verbatim>\<open>on_handshake_complete_ack\<close> with its four local variables.\<close>

record HandshakeLoop =
  hl_staged_any :: bool
  hl_first_flags :: "TcpFlags option"
  hl_first_bump_ident :: bool
  hl_last_action :: "MethodAction option"

fun is_emit :: "MethodAction \<Rightarrow> bool" where
  "is_emit (EmitFakeAndAccept _ _) = True"
| "is_emit _ = False"

fun handshake_loop ::
  "Env \<Rightarrow> FlowState \<Rightarrow> Member list \<Rightarrow> HandshakeLoop \<Rightarrow> PacketView \<Rightarrow> (HandshakeLoop \<times> PacketView) res" where
  "handshake_loop env fs [] l p = Ok (l, p)"
| "handshake_loop env fs (m # ms) l p = (case member_handshake env m fs p of Panic \<Rightarrow> Panic
   | Ok (action, p') \<Rightarrow> handshake_loop env fs ms (l\<lparr>
       hl_staged_any := hl_staged_any l \<or> is_emit action,
       hl_first_flags := (if new_flags p = None \<and> new_flags p' \<noteq> None then new_flags p' else hl_first_flags l),
       hl_first_bump_ident := hl_first_bump_ident l \<or> (\<not> bump_ipv4_ident p \<and> bump_ipv4_ident p'),
       hl_last_action := Some action\<rparr>) p')"

definition loop_start :: HandshakeLoop where
  "loop_start = \<lparr>hl_staged_any = False, hl_first_flags = None, hl_first_bump_ident = False, hl_last_action = None\<rparr>"

definition waits_for_data :: "CompositeMethod \<Rightarrow> bool" where
  "waits_for_data m = (data_methods m \<noteq> [] \<or> segments_first_client_hello m \<or> pads_first_client_hello m
     \<or> splits_first_client_hello m \<or> ccs_prefix_first_hello m \<or> record_splits_first_client_hello m)"

definition handshake_action :: "HandshakeLoop \<Rightarrow> MethodAction" where
  "handshake_action l = (case hl_last_action l of
     Some (EmitFakeAndAccept immediately _) \<Rightarrow> if immediately then emit_and_complete else emit_and_wait_for_ack
   | Some AbortAndAccept \<Rightarrow> if \<not> hl_staged_any l then AbortAndAccept else CompleteAndAccept
   | Some CompleteAndAccept \<Rightarrow> CompleteAndAccept
   | Some PassThrough \<Rightarrow> CompleteAndAccept
   | None \<Rightarrow> CompleteAndAccept)"

definition composite_handshake :: "Env \<Rightarrow> CompositeMethod \<Rightarrow> FlowState \<Rightarrow> PacketView \<Rightarrow> method_result" where
  "composite_handshake env m fs p = (case handshake_loop env fs (handshake_methods m) loop_start p of
     Panic \<Rightarrow> Panic
   | Ok (l, p') \<Rightarrow> (let p' = p'\<lparr>new_flags := hl_first_flags l, bump_ipv4_ident := hl_first_bump_ident l\<rparr>
       in if waits_for_data m then Ok (emit_and_wait_for_data, p') else Ok (handshake_action l, p')))"

text \<open>The loop of \<^verbatim>\<open>on_first_data_packet\<close>: \<^verbatim>\<open>saw_emit\<close>, \<^verbatim>\<open>complete_immediately\<close>, \<^verbatim>\<open>continue_with_data\<close>.\<close>

fun data_loop ::
  "Env \<Rightarrow> FlowState \<Rightarrow> Member list \<Rightarrow> bool \<Rightarrow> bool \<Rightarrow> bool \<Rightarrow> PacketView \<Rightarrow> method_result" where
  "data_loop env fs [] saw_emit immediate cont p =
     Ok (if saw_emit then EmitFakeAndAccept immediate cont else CompleteAndAccept, p)"
| "data_loop env fs (m # ms) saw_emit immediate cont p = (case member_data env m fs p of Panic \<Rightarrow> Panic
   | Ok (EmitFakeAndAccept i c, p') \<Rightarrow> data_loop env fs ms True (immediate \<and> i) (cont \<or> c) p'
   | Ok (AbortAndAccept, p') \<Rightarrow> Ok (AbortAndAccept, p')
   | Ok (CompleteAndAccept, p') \<Rightarrow> data_loop env fs ms saw_emit immediate cont p'
   | Ok (PassThrough, p') \<Rightarrow> data_loop env fs ms saw_emit immediate cont p')"

definition composite_data :: "Env \<Rightarrow> CompositeMethod \<Rightarrow> FlowState \<Rightarrow> PacketView \<Rightarrow> method_result" where
  "composite_data env m fs p =
     (if data_methods m = [] then Ok (CompleteAndAccept, p)
      else data_loop env fs (data_methods m) False True False p)"

section \<open>Building the chain\<close>

definition chained_fake_tls :: "string list \<Rightarrow> bool" where
  "chained_fake_tls ms = (''fake_tls'' \<in> set ms
     \<and> (''tls_record_frag'' \<in> set ms \<or> list_ex (\<lambda>m. m \<in> set ms) EMISSION_SHAPERS))"

text \<open>
  The \<^verbatim>\<open>match name\<close> of the loop: \<open>None\<close> is the early \<^verbatim>\<open>return None\<close> for an unknown name; otherwise the
  members pushed to the handshake list and to the data list.
\<close>

definition build_member :: "u64 \<Rightarrow> Config \<Rightarrow> bool \<Rightarrow> string \<Rightarrow> (Member list \<times> Member list) option" where
  "build_member seed c chained name =
     (if socket_side name then Some ([], [])
      else if name = ''tls_record_frag'' then Some ([], [MTlsRecordFrag (tls_record_frag_new c)])
      else if name = ''fake_tls'' then Some ([], [MFakeTls ((fake_tls_new c)\<lparr>ft_chained := chained\<rparr>)])
      else if name = ''ip_frag'' then Some ([], [MIpFrag (ip_frag_new c)])
      else if name = ''disorder'' then Some ([], [MDisorder (disorder_new seed c)])
      else if name = ''seqovl'' then Some ([], [MSeqovl (seqovl_new seed c)])
      else if name = ''wrong_seq'' then Some ([MWrongSeq (wrong_seq_new c)], [])
      else if name = ''wrong_ack'' then Some ([MWrongAck (wrong_ack_new c)], [])
      else if name = ''wrong_checksum'' then Some ([MWrongChecksum (wrong_checksum_new c)], [])
      else if name = ''wrong_md5'' then Some ([MWrongMd5 (wrong_md5_new c)], [])
      else if name = ''wrong_timestamp'' then Some ([MWrongTimestamp (wrong_timestamp_new c)], [])
      else if name = ''low_ttl'' then Some ([MLowTtl (low_ttl_new c)], [])
      else if name = ''urg_sni_split'' then Some ([MUrgSniSplit (urg_sni_split_new c)], [])
      else None)"

fun build_members ::
  "u64 \<Rightarrow> Config \<Rightarrow> bool \<Rightarrow> string list \<Rightarrow> (Member list \<times> Member list) option" where
  "build_members seed c chained [] = Some ([], [])"
| "build_members seed c chained (name # ns) = (case build_member seed c chained name of None \<Rightarrow> None
   | Some (hs, ds) \<Rightarrow> (case build_members seed c chained ns of None \<Rightarrow> None
     | Some (hs', ds') \<Rightarrow> Some (hs @ hs', ds @ ds')))"

definition build_method :: "u64 \<Rightarrow> Config \<Rightarrow> CompositeMethod option" where
  "build_method seed c = (let ms = BYPASS_METHOD c in
     if ms = [] \<or> is_socket_only ms then None
     else (case build_members seed c (chained_fake_tls ms) ms of None \<Rightarrow> None
     | Some (hs, ds) \<Rightarrow> Some \<lparr>handshake_methods = hs, data_methods = ds,
         segments_first_client_hello = ''tls_frag'' \<in> set ms,
         pads_first_client_hello = ''tls_padding'' \<in> set ms,
         mixed_case_sni_first_hello = ''mixed_case_sni'' \<in> set ms,
         splits_first_client_hello = ''sni_boundary_frag'' \<in> set ms,
         ccs_prefix_first_hello = ''ccs_prefix'' \<in> set ms,
         record_splits_first_client_hello = ''tls_record_split'' \<in> set ms\<rparr>))"

section \<open>The contract\<close>

definition composite_ok :: "CompositeMethod \<Rightarrow> bool" where
  "composite_ok m = list_all member_data_ok (data_methods m)"

lemma handshake_loop_total:
  assumes "syn_seq fs \<noteq> None" "syn_ack_seq fs \<noteq> None"
  shows "\<exists>l' p'. handshake_loop env fs ms l p = Ok (l', p') \<and> captured p' = captured p"
proof (induction ms arbitrary: l p)
  case (Cons m ms)
  obtain a q where "member_handshake env m fs p = Ok (a, q)" "captured q = captured p"
    using member_hs.hs_total assms by blast
  then show ?case using Cons by fastforce
qed simp

lemma data_loop_total:
  assumes "list_all member_data_ok ms" "syn_seq fs \<noteq> None"
  shows "\<exists>a p'. data_loop env fs ms saw imm cont p = Ok (a, p') \<and> captured p' = captured p"
  using assms(1)
proof (induction ms arbitrary: saw imm cont p)
  case (Cons m ms)
  then have "member_data_ok m" by simp
  then obtain a q where "member_data env m fs p = Ok (a, q)" "captured q = captured p"
    using member_dat.dat_total assms(2) by blast
  then show ?case using Cons by (cases a) fastforce+
qed simp

interpretation composite: bypass_method composite_ok composite_handshake composite_data
proof
  show "\<exists>a p'. composite_handshake env m fs p = Ok (a, p') \<and> captured p' = captured p"
    if syn: "syn_seq fs \<noteq> None" "syn_ack_seq fs \<noteq> None" for m env fs p
  proof -
    obtain l q where "handshake_loop env fs (handshake_methods m) loop_start p = Ok (l, q)" "captured q = captured p"
      using handshake_loop_total [OF syn] by blast
    then show ?thesis by (simp add: composite_handshake_def Let_def)
  qed
  show "\<exists>a p'. composite_data env m fs p = Ok (a, p') \<and> captured p' = captured p"
    if "composite_ok m" "syn_seq fs \<noteq> None" for m env fs p
    using data_loop_total that by (simp add: composite_data_def composite_ok_def)
qed

section \<open>The chain of an accepted configuration\<close>

lemma build_member_names:
  assumes "build_member seed c chained n = Some (hs, ds)"
  shows "map member_name hs @ map member_name ds = (if socket_side n then [] else [n])"
  using assms unfolding build_member_def by (auto split: if_splits)

lemma build_member_known: "n \<in> set BASE_BYPASS_METHODS \<Longrightarrow> build_member seed c chained n \<noteq> None"
  by (auto simp: build_member_def BASE_BYPASS_METHODS_def socket_side_def)

lemma build_members_known:
  "set ns \<subseteq> set BASE_BYPASS_METHODS \<Longrightarrow> \<exists>hs ds. build_members seed c chained ns = Some (hs, ds)"
proof (induction ns)
  case (Cons n ns)
  then obtain hs ds where "build_member seed c chained n = Some (hs, ds)"
    using build_member_known [of n seed c chained] by auto
  moreover obtain hs' ds' where "build_members seed c chained ns = Some (hs', ds')" using Cons by auto
  ultimately show ?case by simp
qed simp

lemma build_members_names:
  "build_members seed c chained ns = Some (hs, ds) \<Longrightarrow> distinct ns \<Longrightarrow>
   distinct (map member_name hs @ map member_name ds)
   \<and> set (map member_name hs @ map member_name ds) = {n \<in> set ns. \<not> socket_side n}"
proof (induction ns arbitrary: hs ds)
  case (Cons n ns)
  then obtain h d hs' ds' where parts: "build_member seed c chained n = Some (h, d)"
    "build_members seed c chained ns = Some (hs', ds')" "hs = h @ hs'" "ds = d @ ds'"
    by (auto split: option.splits)
  note ih = Cons.IH [OF parts(2)]
  have "map member_name h @ map member_name d = (if socket_side n then [] else [n])"
    using parts(1) by (rule build_member_names)
  then consider "socket_side n" "h = []" "d = []"
    | "\<not> socket_side n" "map member_name h = [n]" "d = []"
    | "\<not> socket_side n" "h = []" "map member_name d = [n]"
    by (auto simp: append_eq_Cons_conv split: if_splits)
  then show ?case using ih Cons.prems(2) parts(3,4) by cases auto
qed simp

lemma build_members_ok:
  "build_members seed c chained ns = Some (hs, ds) \<Longrightarrow> 0 < TLS_RECORD_FRAG_SIZE c \<Longrightarrow>
   i32_range (FAKE_TLS_CHAIN_DELAY_MS c) \<Longrightarrow> list_all member_data_ok ds"
proof (induction ns arbitrary: hs ds)
  case (Cons n ns)
  then obtain h d hs' ds' where parts: "build_member seed c chained n = Some (h, d)"
    "build_members seed c chained ns = Some (hs', ds')" "ds = d @ ds'"
    by (auto split: option.splits)
  have "list_all member_data_ok d" using parts(1) Cons.prems(2,3) unfolding build_member_def
    by (auto simp: tls_record_frag_new_def fake_tls_new_def split: if_splits)
  then show ?case using Cons.IH [OF parts(2) Cons.prems(2,3)] parts(3) by simp
qed simp

lemma accepted_frag_size: "validate_interceptor_params c = None \<Longrightarrow> 0 < TLS_RECORD_FRAG_SIZE c"
  unfolding validate_interceptor_params_def first_error_None by auto

lemma build_method_Some:
  assumes "build_method seed c = Some m"
  shows "build_members seed c (chained_fake_tls (BYPASS_METHOD c)) (BYPASS_METHOD c)
      = Some (handshake_methods m, data_methods m)"
    "segments_first_client_hello m \<longleftrightarrow> ''tls_frag'' \<in> set (BYPASS_METHOD c)"
    "pads_first_client_hello m \<longleftrightarrow> ''tls_padding'' \<in> set (BYPASS_METHOD c)"
    "mixed_case_sni_first_hello m \<longleftrightarrow> ''mixed_case_sni'' \<in> set (BYPASS_METHOD c)"
    "splits_first_client_hello m \<longleftrightarrow> ''sni_boundary_frag'' \<in> set (BYPASS_METHOD c)"
    "ccs_prefix_first_hello m \<longleftrightarrow> ''ccs_prefix'' \<in> set (BYPASS_METHOD c)"
    "record_splits_first_client_hello m \<longleftrightarrow> ''tls_record_split'' \<in> set (BYPASS_METHOD c)"
  using assms unfolding build_method_def Let_def by (auto split: if_splits option.splits)

lemma name_parts_complete:
  assumes "build_method seed c = Some m" "distinct (BYPASS_METHOD c)"
  shows "distinct (name_parts m) \<and> set (name_parts m) = set (BYPASS_METHOD c)"
proof -
  let ?ns = "map member_name (handshake_methods m) @ map member_name (data_methods m)"
  define six where "six = [''tls_frag'', ''tls_padding'', ''mixed_case_sni'', ''sni_boundary_frag'', ''ccs_prefix'', ''tls_record_split'']"
  note b = build_method_Some [OF assms(1)]
  have "distinct ?ns" "set ?ns = {n \<in> set (BYPASS_METHOD c). \<not> socket_side n}"
    using build_members_names [OF b(1) assms(2)] by simp_all
  moreover have "name_parts m = ?ns @ filter (\<lambda>n. n \<in> set (BYPASS_METHOD c)) six"
    by (simp add: name_parts_def b(2-7) six_def)
  moreover have "distinct six" by (simp add: six_def)
  moreover have "set six = {n. socket_side n}" unfolding six_def socket_side_def list.set Collect_mem_eq by (simp only: insert_commute)
  ultimately show ?thesis by auto
qed

text \<open>
  From an accepted configuration the builder makes exactly the chain the configuration asks for. It returns
  no chain precisely when no listed method needs the interceptor; otherwise every member's parameters satisfy the
  method contract, so no call of the chain can panic once the handshake is recorded, and the name of the
  chain lists each configured method exactly once.
\<close>

theorem build_method_sound:
  assumes "validate_methods c = None" "validate_interceptor_params c = None"
    and "i32_range (FAKE_TLS_CHAIN_DELAY_MS c)"
  shows "(build_method seed c = None \<longleftrightarrow> \<not> requires_interceptor (BYPASS_METHOD c))
    \<and> (\<forall>m. build_method seed c = Some m \<longrightarrow> composite_ok m \<and> distinct (name_parts m)
         \<and> set (name_parts m) = set (BYPASS_METHOD c))"
proof -
  have ms: "BYPASS_METHOD c \<noteq> []" "set (BYPASS_METHOD c) \<subseteq> set BASE_BYPASS_METHODS" "distinct (BYPASS_METHOD c)"
    using validate_methods_accepted [OF assms(1)] by simp_all
  obtain hs ds where b: "build_members seed c (chained_fake_tls (BYPASS_METHOD c)) (BYPASS_METHOD c) = Some (hs, ds)"
    using build_members_known [OF ms(2)] by blast
  have "build_method seed c = None \<longleftrightarrow> \<not> requires_interceptor (BYPASS_METHOD c)"
    using ms(1) b by (auto simp: build_method_def Let_def is_socket_only_def requires_interceptor_def
        list_all_iff list_ex_iff)
  moreover have "composite_ok m" if "build_method seed c = Some m" for m
    using build_members_ok [OF build_method_Some(1) [OF that] accepted_frag_size [OF assms(2)] assms(3)]
    by (simp add: composite_ok_def)
  ultimately show ?thesis using name_parts_complete [OF _ ms(3)] by blast
qed

lemma build_method_sound_witness:
  "\<exists>m. build_method 0 (default_config 44444) = Some m \<and> composite_ok m
     \<and> set (name_parts m) = {''wrong_seq'', ''tls_frag''}"
proof -
  let ?c = "default_config 44444"
  have ms: "BYPASS_METHOD ?c = [''wrong_seq'', ''tls_frag'']"
    by (simp add: default_config_def default_methods)
  have "i32_range (FAKE_TLS_CHAIN_DELAY_MS ?c)"
    by (simp add: default_config_def exact_def i32_range_def)
  moreover have "validate_interceptor_params ?c = None"
    by (simp add: validate_interceptor_params_def first_error_None default_config_def validate_at_least_def exact_def)
  ultimately show ?thesis
    using build_method_sound [OF default_validate_methods [of 44444], of 0] ms
    by (auto simp: requires_interceptor_def socket_side_def)
qed

end
