(* ===== verification/Composite_Laws.thy ===== *)
theory Composite_Laws
  imports Composite "HOL-Library.Multiset"
begin

text \<open>
  Laws of the method chain: the members of the data stage commute, the flags that a chain of handshake methods
  puts on a packet, and what becomes of \<^verbatim>\<open>urg_sni_split\<close> inside a chain.
\<close>

section \<open>The order of data-stage members\<close>

text \<open>One round of the data loop on its state; no member aborts in the data stage.\<close>

type_synonym data_state = "(bool \<times> bool \<times> bool \<times> PacketView) res"

fun data_round :: "Env \<Rightarrow> FlowState \<Rightarrow> Member \<Rightarrow> data_state \<Rightarrow> data_state" where
  "data_round env fs m Panic = Panic"
| "data_round env fs m (Ok (saw, imm, cont, p)) = (case member_data env m fs p of Panic \<Rightarrow> Panic
   | Ok (EmitFakeAndAccept i c, p') \<Rightarrow> Ok (True, imm \<and> i, cont \<or> c, p')
   | Ok (_, p') \<Rightarrow> Ok (saw, imm, cont, p'))"

fun data_result :: "data_state \<Rightarrow> method_result" where
  "data_result Panic = Panic"
| "data_result (Ok (saw, imm, cont, p)) = Ok (if saw then EmitFakeAndAccept imm cont else CompleteAndAccept, p)"

lemma member_data_no_abort: "member_data env m fs p \<noteq> Ok (AbortAndAccept, p')"
  by (cases m) (auto simp: data_defs urg_sni_split_data_def emit_and_complete_def Let_def
      split: res.splits option.splits)

lemma fold_data_round_Panic [simp]: "fold (data_round env fs) ms Panic = Panic"
  by (induction ms) simp_all

lemma data_loop_fold:
  "data_loop env fs ms saw imm cont p = data_result (fold (data_round env fs) ms (Ok (saw, imm, cont, p)))"
proof (induction ms arbitrary: saw imm cont p)
  case (Cons m ms)
  then show ?case
    by (cases "member_data env m fs p") (auto simp: member_data_no_abort split: MethodAction.splits)
qed simp

text \<open>
  What a data-stage member stages: the decoy packet, the payload of the real packet, or the way it is emitted. Members of
  different lanes stage disjoint fields.
\<close>

datatype lane = DecoyLane | PayloadLane | EmissionLane

fun lane_of :: "Member \<Rightarrow> lane option" where
  "lane_of (MFakeTls f) = (if ft_chained f then Some DecoyLane else None)"
| "lane_of (MTlsRecordFrag _) = Some PayloadLane"
| "lane_of (MIpFrag _) = Some EmissionLane"
| "lane_of (MDisorder _) = Some EmissionLane"
| "lane_of (MSeqovl _) = Some EmissionLane"
| "lane_of _ = None"

datatype lane_update = KeepPacket
  | SetDecoy DecoyPacket
  | SetPayload TcpFlags bytes bool
  | SetIpFrag nat
  | SetDisorder DisorderSpec

fun apply_update :: "lane_update \<Rightarrow> PacketView \<Rightarrow> PacketView" where
  "apply_update KeepPacket p = p"
| "apply_update (SetDecoy d) p = p\<lparr>decoy := Some d\<rparr>"
| "apply_update (SetPayload fl pl bump) p =
     p\<lparr>new_flags := Some fl, new_payload := Some pl, bump_ipv4_ident := bump\<rparr>"
| "apply_update (SetIpFrag n) p = p\<lparr>ip_frag_payload_size := Some n\<rparr>"
| "apply_update (SetDisorder d) p = p\<lparr>disorder_spec := Some d\<rparr>"

fun in_lane :: "lane \<Rightarrow> lane_update \<Rightarrow> bool" where
  "in_lane a KeepPacket = True"
| "in_lane a (SetDecoy _) = (a = DecoyLane)"
| "in_lane a (SetPayload _ _ _) = (a = PayloadLane)"
| "in_lane a (SetIpFrag _) = (a = EmissionLane)"
| "in_lane a (SetDisorder _) = (a = EmissionLane)"

lemma apply_update_captured [simp]: "captured (apply_update u p) = captured p"
  by (cases u) simp_all

lemma apply_update_commute:
  "in_lane a u \<Longrightarrow> in_lane b v \<Longrightarrow> a \<noteq> b \<Longrightarrow>
   apply_update u (apply_update v p) = apply_update v (apply_update u p)"
  by (cases u; cases v) simp_all

text \<open>A member of a lane as an update that depends on the captured part of the packet only.\<close>

fun lane_effect :: "Env \<Rightarrow> Member \<Rightarrow> FlowState \<Rightarrow> PacketView \<Rightarrow> (MethodAction \<times> lane_update) res" where
  "lane_effect env (MFakeTls f) fs p = (if first_data_modified fs then Ok (CompleteAndAccept, KeepPacket)
     else (case syn_seq fs of None \<Rightarrow> Panic
     | Some isn \<Rightarrow> (case sample_i32 (ft_chain_delay_ms f) (env_seed env) of Panic \<Rightarrow> Panic
       | Ok (delay, _) \<Rightarrow> Ok (EmitFakeAndAccept (ft_complete_immediately f) False,
           SetDecoy \<lparr>dp_seq = behind_window isn (length (fake_data fs)) (ft_extra_offset f),
             dp_payload = fake_data fs, dp_flags = with_psh (ft_set_psh f) p,
             dp_bump_ipv4_ident = ft_bump_ip_ident f, dp_repeats = ft_repeats f, dp_delay_ms = nat delay\<rparr>))))"
| "lane_effect env (MTlsRecordFrag r) fs p = (case fragment_payload (payload p) (rf_frag_size r) of Panic \<Rightarrow> Panic
     | Ok None \<Rightarrow> Ok (CompleteAndAccept, KeepPacket)
     | Ok (Some pl) \<Rightarrow> Ok (emit_and_complete, SetPayload (with_psh (rf_set_psh r) p) pl (rf_bump_ip_ident r)))"
| "lane_effect env (MIpFrag m) fs p = Ok (if if_only_first_packet m then emit_and_complete else EmitFakeAndAccept False True,
     if if_frag_size m < 20 + length (tcp_options p) + payload_len p then SetIpFrag (if_frag_size m) else KeepPacket)"
| "lane_effect env (MDisorder m) fs p = Ok (if di_only_first_packet m then emit_and_complete else EmitFakeAndAccept False True,
     if di_segments m \<le> payload_len p then SetDisorder \<lparr>ds_segments = di_segments m, ds_reverse = di_reverse m,
       ds_delay_ms = di_delay_ms m, ds_overlap = di_overlap m\<rparr> else KeepPacket)"
| "lane_effect env (MSeqovl m) fs p = Ok (emit_and_complete,
     if so_segments m \<le> payload_len p then SetDisorder \<lparr>ds_segments = so_segments m, ds_reverse = so_reverse m,
       ds_delay_ms = so_delay_ms m, ds_overlap = so_overlap m\<rparr> else KeepPacket)"
| "lane_effect env _ fs p = Panic"

lemma member_data_lane:
  assumes "lane_of m = Some a"
  shows "member_data env m fs p = (case lane_effect env m fs p of Panic \<Rightarrow> Panic
    | Ok (act, u) \<Rightarrow> Ok (act, apply_update u p))"
proof (cases m)
  case (MFakeTls f)
  then have "ft_chained f" using assms by (simp split: if_splits)
  then show ?thesis
    by (cases "syn_seq fs"; cases "sample_i32 (ft_chain_delay_ms f) (env_seed env)")
      (simp_all add: MFakeTls fake_tls_data_def Let_def split_beta)
next
  case (MTlsRecordFrag r)
  then show ?thesis
    by (cases "fragment_payload (payload p) (rf_frag_size r)") (simp_all add: tls_record_frag_data_def split: option.split)
qed (use assms in \<open>simp_all add: ip_frag_data_def disorder_data_def seqovl_data_def Let_def\<close>)

lemma lane_effect_in_lane: "lane_of m = Some a \<Longrightarrow> lane_effect env m fs p = Ok (act, u) \<Longrightarrow> in_lane a u"
  by (cases m) (auto split: if_splits option.splits res.splits)

lemma lane_effect_captured:
  assumes "captured q = captured p"
  shows "lane_effect env m fs q = lane_effect env m fs p"
proof -
  have "with_psh b q = with_psh b p" for b using assms by (simp add: captured_def with_psh_def)
  moreover have "payload q = payload p" "payload_len q = payload_len p" "tcp_options q = tcp_options p"
    using assms by (simp_all add: captured_def)
  ultimately show ?thesis by (cases m) (simp_all split: option.split res.split prod.split)
qed

lemma data_round_lane:
  assumes "lane_of m = Some a"
  shows "data_round env fs m (Ok (saw, imm, cont, p)) = (case lane_effect env m fs p of Panic \<Rightarrow> Panic
    | Ok (act, u) \<Rightarrow> Ok (saw \<or> is_emit act, imm \<and> (case act of EmitFakeAndAccept i c \<Rightarrow> i | _ \<Rightarrow> True),
        cont \<or> (case act of EmitFakeAndAccept i c \<Rightarrow> c | _ \<Rightarrow> False), apply_update u p))"
  unfolding data_round.simps member_data_lane [OF assms] by (simp split: res.split MethodAction.split)

lemma data_round_commute:
  assumes "lane_of m = Some a" "lane_of n = Some b" "a \<noteq> b"
  shows "data_round env fs m \<circ> data_round env fs n = data_round env fs n \<circ> data_round env fs m"
proof
  fix st
  show "(data_round env fs m \<circ> data_round env fs n) st = (data_round env fs n \<circ> data_round env fs m) st"
  proof (cases st)
    case (Ok s)
    obtain saw imm cont p where s: "s = (saw, imm, cont, p)" by (cases s)
    note rounds = data_round_lane [OF assms(1)] data_round_lane [OF assms(2)]
      lane_effect_captured [OF apply_update_captured]
    show ?thesis
    proof (cases "lane_effect env m fs p")
      case m: (Ok e)
      show ?thesis
      proof (cases "lane_effect env n fs p")
        case n: (Ok e')
        have "apply_update (snd e) (apply_update (snd e') p) = apply_update (snd e') (apply_update (snd e) p)"
          using apply_update_commute [OF _ _ assms(3)] m n lane_effect_in_lane [OF assms(1)]
            lane_effect_in_lane [OF assms(2)] by (metis surjective_pairing)
        then show ?thesis by (simp add: Ok s rounds m n split_beta conj_ac disj_ac del: data_round.simps(2))
      qed (simp add: Ok s rounds m split_beta del: data_round.simps(2))
    qed (simp add: Ok s rounds del: data_round.simps(2) split: res.split prod.split)
  qed simp
qed

lemma data_loop_permute:
  assumes "\<And>m n. m \<in> set ms \<Longrightarrow> n \<in> set ms \<Longrightarrow> m \<noteq> n \<Longrightarrow>
      \<exists>a b. lane_of m = Some a \<and> lane_of n = Some b \<and> a \<noteq> b"
    and "mset ms' = mset ms"
  shows "data_loop env fs ms' saw imm cont p = data_loop env fs ms saw imm cont p"
proof -
  have "data_round env fs m \<circ> data_round env fs n = data_round env fs n \<circ> data_round env fs m"
    if "m \<in> set ms" "n \<in> set ms" for m n
    using data_round_commute assms(1) [OF that] by (cases "m = n") auto
  then have "fold (data_round env fs) ms = fold (data_round env fs) ms'"
    using assms(2) by (intro fold_multiset_equiv) auto
  then show ?thesis by (simp add: data_loop_fold)
qed


lemma build_members_data:
  "build_members seed c chained ns = Some (hs, ds) \<Longrightarrow>
   ds = concat (map (\<lambda>n. snd (the (build_member seed c chained n))) ns)"
  by (induction ns arbitrary: hs ds) (auto split: option.splits)

lemma mset_concat_map: "mset (concat (map f xs)) = sum_mset (image_mset (\<lambda>x. mset (f x)) (mset xs))"
  by (induction xs) simp_all

lemma build_member_method_list [simp]:
  "build_member seed (c\<lparr>BYPASS_METHOD := ms\<rparr>) chained n = build_member seed c chained n"
  unfolding build_member_def
  by (simp add: tls_record_frag_new_def fake_tls_new_def ip_frag_new_def disorder_new_def seqovl_new_def
      overlap_from_config_def wrong_seq_new_def wrong_ack_new_def wrong_checksum_new_def wrong_md5_new_def
      wrong_timestamp_new_def low_ttl_new_def urg_sni_split_new_def)

text \<open>The lane of the data-stage member that a name adds.\<close>

definition name_lane :: "bool \<Rightarrow> string \<Rightarrow> lane option" where
  "name_lane chained n = (if n = ''fake_tls'' then (if chained then Some DecoyLane else None)
     else if n = ''tls_record_frag'' then Some PayloadLane
     else if n \<in> set EMISSION_SHAPERS then Some EmissionLane else None)"

lemma build_member_data:
  assumes "build_member seed c chained n = Some (hs, ds)" "m \<in> set ds"
  shows "ds = [m] \<and> lane_of m = name_lane chained n \<and> n \<in> insert ''fake_tls'' (insert ''tls_record_frag'' (set EMISSION_SHAPERS))"
  using assms unfolding build_member_def
  by (auto simp: name_lane_def EMISSION_SHAPERS_def split: if_splits)

lemma accepted_lanes:
  assumes "validate_methods c = None" "n \<in> set (BYPASS_METHOD c)" "n' \<in> set (BYPASS_METHOD c)" "n \<noteq> n'"
    and data: "n \<in> insert ''fake_tls'' (insert ''tls_record_frag'' (set EMISSION_SHAPERS))"
      "n' \<in> insert ''fake_tls'' (insert ''tls_record_frag'' (set EMISSION_SHAPERS))"
  shows "\<exists>a b. name_lane (chained_fake_tls (BYPASS_METHOD c)) n = Some a
    \<and> name_lane (chained_fake_tls (BYPASS_METHOD c)) n' = Some b \<and> a \<noteq> b"
proof -
  have "chained_fake_tls (BYPASS_METHOD c)" if "n = ''fake_tls'' \<or> n' = ''fake_tls''"
    using that assms(2-) by (auto simp: chained_fake_tls_def list_ex_iff)
  moreover have "\<not> (n \<in> set EMISSION_SHAPERS \<and> n' \<in> set EMISSION_SHAPERS)"
  proof
    assume *: "n \<in> set EMISSION_SHAPERS \<and> n' \<in> set EMISSION_SHAPERS"
    then have "{n, n'} \<subseteq> set (shapers (BYPASS_METHOD c))" using assms(2,3) by (simp add: shapers_def)
    then have "card {n, n'} \<le> card (set (shapers (BYPASS_METHOD c)))" by (intro card_mono) simp_all
    then have "2 \<le> length (shapers (BYPASS_METHOD c))"
      using assms(4) card_length [of "shapers (BYPASS_METHOD c)"] by simp
    then show False using validate_methods_accepted [OF assms(1)] by simp
  qed
  ultimately show ?thesis using assms(4) data by (auto simp: name_lane_def)
qed

text \<open>
  C34. The order of the data-stage members does not matter. For an accepted configuration, any two orders of the same
  method list give chains with the same data stage, on every flow and packet: the decoy, the record rewrite and the
  emission shaping stage disjoint fields and read only the captured packet.
\<close>

theorem data_stage_order_irrelevant:
  assumes "validate_methods c = None" "mset ms' = mset (BYPASS_METHOD c)"
    and "build_method seed c = Some m" "build_method seed (c\<lparr>BYPASS_METHOD := ms'\<rparr>) = Some m'"
  shows "composite_data env m' fs p = composite_data env m fs p"
proof -
  let ?ms = "BYPASS_METHOD c" and ?ch = "chained_fake_tls (BYPASS_METHOD c)"
  define f where "f = (\<lambda>n. snd (the (build_member seed c ?ch n)))"
  have set: "set ms' = set ?ms" using assms(2) by (rule mset_eq_setD)
  then have ch: "chained_fake_tls ms' = ?ch" by (simp add: chained_fake_tls_def)
  have d: "data_methods m = concat (map f ?ms)" "data_methods m' = concat (map f ms')"
    using build_members_data [OF build_method_Some(1) [OF assms(3)]]
      build_members_data [OF build_method_Some(1) [OF assms(4)]] by (simp_all add: f_def ch)
  have perm: "mset (data_methods m') = mset (data_methods m)" by (simp add: d mset_concat_map assms(2))
  have "\<exists>a b. lane_of x = Some a \<and> lane_of y = Some b \<and> a \<noteq> b"
    if xy: "x \<in> set (data_methods m)" "y \<in> set (data_methods m)" "x \<noteq> y" for x y
  proof -
    obtain n n' where n: "n \<in> set ?ms" "x \<in> set (f n)" "n' \<in> set ?ms" "y \<in> set (f n')"
      using xy(1,2) by (auto simp: d)
    have some: "\<exists>hs ds. build_member seed c ?ch k = Some (hs, ds)" if "k \<in> set ?ms" for k
      using build_member_known [of k seed c ?ch] validate_methods_accepted [OF assms(1)] that by auto
    have x: "f n = [x]" "lane_of x = name_lane ?ch n" "n \<in> insert ''fake_tls'' (insert ''tls_record_frag'' (set EMISSION_SHAPERS))"
      using some [OF n(1)] n(2) build_member_data [of seed c ?ch n _ _ x] by (auto simp: f_def)
    have y: "f n' = [y]" "lane_of y = name_lane ?ch n'" "n' \<in> insert ''fake_tls'' (insert ''tls_record_frag'' (set EMISSION_SHAPERS))"
      using some [OF n(3)] n(4) build_member_data [of seed c ?ch n' _ _ y] by (auto simp: f_def)
    have "n \<noteq> n'" using x(1) y(1) xy(3) by auto
    then show ?thesis using accepted_lanes [OF assms(1) n(1,3) _ x(3) y(3)] by (simp add: x(2) y(2))
  qed
  then have "data_loop env fs (data_methods m') False True False p = data_loop env fs (data_methods m) False True False p"
    using perm by (rule data_loop_permute)
  moreover have "data_methods m' = [] \<longleftrightarrow> data_methods m = []" using perm by auto
  ultimately show ?thesis by (simp add: composite_data_def)
qed


lemma data_stage_order_irrelevant_witness:
  "\<exists>m m'. build_method 0 ((default_config 44444)\<lparr>BYPASS_METHOD := [''fake_tls'', ''disorder'']\<rparr>) = Some m
     \<and> build_method 0 ((default_config 44444)\<lparr>BYPASS_METHOD := [''disorder'', ''fake_tls'']\<rparr>) = Some m'
     \<and> composite_data \<lparr>env_ttl = 5, env_seed = 1\<rparr> m' (new_flow_state [1] None) blank_packet
       = composite_data \<lparr>env_ttl = 5, env_seed = 1\<rparr> m (new_flow_state [1] None) blank_packet"
proof -
  let ?c = "(default_config 44444)\<lparr>BYPASS_METHOD := [''fake_tls'', ''disorder'']\<rparr>"
  let ?c' = "(default_config 44444)\<lparr>BYPASS_METHOD := [''disorder'', ''fake_tls'']\<rparr>"
  obtain m m' where b: "build_method 0 ?c = Some m" "build_method 0 ?c' = Some m'"
    by (simp add: build_method_def Let_def is_socket_only_def socket_side_def build_member_def)
  have "validate_methods ?c = None"
    by (simp add: validate_methods_def check_methods_None first_error_None BASE_BYPASS_METHODS_def shapers_def
        EMISSION_SHAPERS_def default_config_def)
  then show ?thesis using data_stage_order_irrelevant [of ?c "[''disorder'', ''fake_tls'']" 0 m m'] b
    by (simp add: add_mset_commute)
qed

section \<open>Flags of the handshake stage\<close>

fun member_psh :: "Member \<Rightarrow> bool" where
  "member_psh (MWrongSeq m) = ws_set_psh m"
| "member_psh (MWrongAck m) = wa_set_psh m"
| "member_psh (MWrongChecksum m) = wc_set_psh m"
| "member_psh (MWrongMd5 m) = wm_set_psh m"
| "member_psh (MWrongTimestamp m) = wt_set_psh m"
| "member_psh (MLowTtl m) = lt_set_psh m"
| "member_psh _ = False"

fun member_bump :: "Member \<Rightarrow> bool" where
  "member_bump (MWrongSeq m) = ws_bump_ip_ident m"
| "member_bump (MWrongAck m) = wa_bump_ip_ident m"
| "member_bump (MWrongChecksum m) = wc_bump_ip_ident m"
| "member_bump (MWrongMd5 m) = wm_bump_ip_ident m"
| "member_bump (MWrongTimestamp m) = wt_bump_ip_ident m"
| "member_bump (MLowTtl m) = lt_bump_ip_ident m"
| "member_bump _ = False"

text \<open>Whether a member stages anything on the ACK of the handshake.\<close>

fun stages :: "bytes \<Rightarrow> Member \<Rightarrow> bool" where
  "stages options (MWrongSeq _) = True"
| "stages options (MWrongAck _) = True"
| "stages options (MWrongChecksum _) = True"
| "stages options (MWrongMd5 _) = True"
| "stages options (MWrongTimestamp m) = (backdate_tcp_timestamp options (wt_offset m) \<noteq> None)"
| "stages options (MLowTtl _) = True"
| "stages options _ = False"

lemma member_handshake_staged:
  assumes "member_handshake env mb fs p = Ok (a, p')"
  shows "if stages (tcp_options p) mb
    then new_flags p' = Some (with_psh (member_psh mb) p) \<and> bump_ipv4_ident p' = member_bump mb
      \<and> new_payload p' = Some (fake_data fs) \<and> flags p' = flags p \<and> tcp_options p' = tcp_options p
    else p' = p"
  using assms by (cases mb) (auto simp: handshake_defs split: option.splits)

lemma handshake_loop_staged:
  "handshake_loop env fs ms l p = Ok (l', p') \<Longrightarrow> (bump_ipv4_ident p \<longrightarrow> hl_first_bump_ident l) \<Longrightarrow>
   hl_first_flags l' = (if new_flags p \<noteq> None then hl_first_flags l
     else case filter (stages (tcp_options p)) ms of [] \<Rightarrow> hl_first_flags l | mb # _ \<Rightarrow> Some (with_psh (member_psh mb) p))
   \<and> hl_first_bump_ident l' = (hl_first_bump_ident l \<or> (\<exists>mb \<in> set ms. stages (tcp_options p) mb \<and> member_bump mb))
   \<and> new_payload p' = (if list_ex (stages (tcp_options p)) ms then Some (fake_data fs) else new_payload p)"
proof (induction ms arbitrary: l p)
  case (Cons mb ms)
  obtain a q where q: "member_handshake env mb fs p = Ok (a, q)"
    using Cons.prems(1) by (cases "member_handshake env mb fs p") auto
  note st = member_handshake_staged [OF q]
  define k where "k = l\<lparr>hl_staged_any := hl_staged_any l \<or> is_emit a,
      hl_first_flags := (if new_flags p = None \<and> new_flags q \<noteq> None then new_flags q else hl_first_flags l),
      hl_first_bump_ident := hl_first_bump_ident l \<or> (\<not> bump_ipv4_ident p \<and> bump_ipv4_ident q),
      hl_last_action := Some a\<rparr>"
  have loop: "handshake_loop env fs ms k q = Ok (l', p')" using Cons.prems(1) by (simp add: q k_def)
  have bump: "bump_ipv4_ident q \<longrightarrow> hl_first_bump_ident k" using Cons.prems(2) by (auto simp: k_def)
  note ih = Cons.IH [OF loop bump]
  show ?case
  proof (cases "stages (tcp_options p) mb")
    case True
    then have "new_flags q = Some (with_psh (member_psh mb) p)" "bump_ipv4_ident q = member_bump mb"
      "new_payload q = Some (fake_data fs)" "tcp_options q = tcp_options p" using st by simp_all
    then show ?thesis using ih True Cons.prems(2) by (auto simp: k_def)
  next
    case False
    then have qp: "q = p" using st by simp
    have k: "hl_first_flags k = hl_first_flags l" "hl_first_bump_ident k = hl_first_bump_ident l"
      by (auto simp: k_def qp)
    show ?thesis using ih False unfolding qp k by simp
  qed
qed auto

text \<open>
  What a chain of handshake methods puts on the ACK of the handshake, for a packet with nothing staged:
  the payload is the flow's fake ClientHello as soon as one member stages; the PSH flag is that of the first member that
  stages; and the IPv4 identification is bumped when any staging member asks for it, not only the
  first.
\<close>

theorem handshake_flags_of_members:
  assumes "unstaged p" "composite_handshake env m fs p = Ok (a, p')"
  shows "new_flags p' = (case filter (stages (tcp_options p)) (handshake_methods m) of [] \<Rightarrow> None
      | mb # _ \<Rightarrow> Some (with_psh (member_psh mb) p))
    \<and> bump_ipv4_ident p' = list_ex (\<lambda>mb. stages (tcp_options p) mb \<and> member_bump mb) (handshake_methods m)
    \<and> new_payload p' = (if list_ex (stages (tcp_options p)) (handshake_methods m) then Some (fake_data fs) else None)"
proof -
  obtain l q where l: "handshake_loop env fs (handshake_methods m) loop_start p = Ok (l, q)"
    using assms(2) by (auto simp: composite_handshake_def split: res.splits)
  have p': "p' = q\<lparr>new_flags := hl_first_flags l, bump_ipv4_ident := hl_first_bump_ident l\<rparr>"
    using assms(2) by (auto simp: composite_handshake_def l Let_def split: if_splits)
  show ?thesis using handshake_loop_staged [OF l] assms(1)
    by (simp add: p' unstaged_def loop_start_def list_ex_iff split: list.split)
qed

lemma handshake_flags_of_members_witness:
  "\<exists>a p'. composite_handshake \<lparr>env_ttl = 5, env_seed = 1\<rparr> (\<lparr>handshake_methods =
       [MWrongChecksum \<lparr>wc_checksum_delta = 1, wc_set_psh = True, wc_bump_ip_ident = False, wc_complete_immediately = True\<rparr>,
        MWrongMd5 \<lparr>wm_set_psh = False, wm_bump_ip_ident = True, wm_complete_immediately = True\<rparr>],
       data_methods = [], segments_first_client_hello = False, pads_first_client_hello = False,
       mixed_case_sni_first_hello = False, splits_first_client_hello = False, ccs_prefix_first_hello = False,
       record_splits_first_client_hello = False\<rparr>) (new_flow_state [1] None) blank_packet = Ok (a, p')
     \<and> bump_ipv4_ident p' \<and> map_option f_psh (new_flags p') = Some True"
proof -
  let ?m = "\<lparr>handshake_methods =
       [MWrongChecksum \<lparr>wc_checksum_delta = 1, wc_set_psh = True, wc_bump_ip_ident = False, wc_complete_immediately = True\<rparr>,
        MWrongMd5 \<lparr>wm_set_psh = False, wm_bump_ip_ident = True, wm_complete_immediately = True\<rparr>],
       data_methods = [], segments_first_client_hello = False, pads_first_client_hello = False,
       mixed_case_sni_first_hello = False, splits_first_client_hello = False, ccs_prefix_first_hello = False,
       record_splits_first_client_hello = False\<rparr>"
  obtain a p' where "composite_handshake \<lparr>env_ttl = 5, env_seed = 1\<rparr> ?m (new_flow_state [1] None) blank_packet = Ok (a, p')"
    by (simp add: composite_handshake_def waits_for_data_def wrong_checksum_handshake_def wrong_md5_handshake_def Let_def)
  then show ?thesis using handshake_flags_of_members [OF unstaged_blank, of _ ?m]
    by (fastforce simp: with_psh_def)
qed

section \<open>urg\_sni\_split in a chain\<close>

lemma urg_members_idle:
  assumes "\<forall>h \<in> set hs. member_name h = ''urg_sni_split''"
  shows "\<exists>l'. handshake_loop env fs hs l p = Ok (l', p) \<and> hl_first_flags l' = hl_first_flags l
    \<and> hl_first_bump_ident l' = hl_first_bump_ident l"
  using assms
proof (induction hs arbitrary: l)
  case (Cons h hs)
  then obtain u where "h = MUrgSniSplit u" by (cases h) auto
  then show ?case using Cons by fastforce
qed simp

text \<open>
  C35. In a chain \<^verbatim>\<open>urg_sni_split\<close> never rewrites anything. The builder pushes it on the handshake list, where
  it only passes through, and no data-stage member remains: for every accepted list that names it, the chain
  leaves both the ACK of the handshake and the first data packet as they were captured.
\<close>

theorem urg_sni_split_chain_idle:
  assumes "validate_methods c = None" "''urg_sni_split'' \<in> set (BYPASS_METHOD c)"
    and "build_method seed c = Some m" "unstaged p"
  shows "(\<exists>a. composite_handshake env m fs p = Ok (a, p)) \<and> composite_data env m fs p = Ok (CompleteAndAccept, p)"
proof -
  have ms: "set (BYPASS_METHOD c) \<subseteq> {''urg_sni_split'', ''tls_frag''}" "distinct (BYPASS_METHOD c)"
    using validate_methods_accepted [OF assms(1)] assms(2) by simp_all
  note b = build_method_Some(1) [OF assms(3)]
  have "snd (the (build_member seed c ch n)) = []" if "n \<in> set (BYPASS_METHOD c)" for ch n
  proof -
    consider "n = ''urg_sni_split''" | "n = ''tls_frag''" using ms(1) \<open>n \<in> _\<close> by blast
    then show ?thesis by cases (simp_all add: build_member_def socket_side_def)
  qed
  then have d: "data_methods m = []" using build_members_data [OF b] by simp
  have "set (map member_name (handshake_methods m)) \<subseteq> {n \<in> set (BYPASS_METHOD c). \<not> socket_side n}"
    using build_members_names [OF b ms(2)] by auto
  also have "\<dots> \<subseteq> {''urg_sni_split''}" 
  proof
    fix n
    assume n: "n \<in> {n \<in> set (BYPASS_METHOD c). \<not> socket_side n}"
    moreover have "socket_side ''tls_frag''" by (simp add: socket_side_def)
    ultimately show "n \<in> {''urg_sni_split''}" using ms(1) by blast
  qed
  finally have "\<forall>h \<in> set (handshake_methods m). member_name h = ''urg_sni_split''" by auto
  then obtain l where "handshake_loop env fs (handshake_methods m) loop_start p = Ok (l, p)"
    "hl_first_flags l = None" "\<not> hl_first_bump_ident l"
    using urg_members_idle [of "handshake_methods m" env fs loop_start p] by (auto simp: loop_start_def)
  then show ?thesis using assms(4) by (cases p) (simp add: composite_handshake_def composite_data_def d unstaged_def Let_def)
qed

lemma urg_sni_split_chain_idle_witness:
  "\<exists>m. build_method 0 ((default_config 44444)\<lparr>BYPASS_METHOD := [''urg_sni_split'']\<rparr>) = Some m
     \<and> composite_data \<lparr>env_ttl = 5, env_seed = 1\<rparr> m (new_flow_state [1] None) blank_packet
       = Ok (CompleteAndAccept, blank_packet)"
proof -
  let ?c = "(default_config 44444)\<lparr>BYPASS_METHOD := [''urg_sni_split'']\<rparr>"
  obtain m where b: "build_method 0 ?c = Some m"
    by (simp add: build_method_def Let_def is_socket_only_def socket_side_def build_member_def)
  have "validate_methods ?c = None"
    by (simp add: validate_methods_def check_methods_None first_error_None BASE_BYPASS_METHODS_def shapers_def
        EMISSION_SHAPERS_def default_config_def)
  then show ?thesis using urg_sni_split_chain_idle [OF _ _ b unstaged_blank] b by auto
qed

end
