(* ===== verification/Handler.thy ===== *)
theory Handler
  imports Composite
begin

text \<open>
  The packet handler, src/crates/zerodpi-core/src/handler.rs: the state machine that watches a flow from its SYN to the
  end of the bypass. A packet is looked up by its flow, handled on the flow's entry, and given back with a verdict.
  \<^verbatim>\<open>on_packet\<close> holds the lock of the entry while it runs, so one packet is one step; the lock is
  released only right before \<^verbatim>\<open>finish\<close> or \<^verbatim>\<open>signal_outcome\<close>, which take it again and test the
  outcome themselves. The method is a parameter with the contract \<open>bypass_method\<close>.
\<close>

type_synonym stage = "FlowState \<Rightarrow> PacketView \<Rightarrow> method_result"
type_synonym entry_result = "(Verdict \<times> PacketView \<times> FlowEntry) res"

section \<open>Operations\<close>

definition flow_key_for :: "PacketView \<Rightarrow> FlowKey" where
  "flow_key_for p = (case direction p of
     Outbound \<Rightarrow> \<lparr>fk_src_ip = src_ip p, fk_src_port = src_port p, fk_dst_ip = dst_ip p, fk_dst_port = dst_port p\<rparr>
   | Inbound \<Rightarrow> \<lparr>fk_src_ip = dst_ip p, fk_src_port = dst_port p, fk_dst_ip = src_ip p, fk_dst_port = src_port p\<rparr>)"

definition unexpected :: "FlowEntry \<Rightarrow> FlowEntry" where
  "unexpected e = (if outcome (fe_state e) = None
     then e\<lparr>fe_state := (fe_state e)\<lparr>outcome := Some UnexpectedClose, monitor := False\<rparr>, notify := Suc (notify e)\<rparr>
     else e)"

text \<open>\<^verbatim>\<open>entry.ready_for_data.notify_waiters()\<close>, and a write to the locked state.\<close>

definition wake_ready :: "FlowEntry \<Rightarrow> FlowEntry" where
  "wake_ready e = e\<lparr>ready_for_data := Suc (ready_for_data e)\<rparr>"

definition set_state :: "(FlowState \<Rightarrow> FlowState) \<Rightarrow> FlowEntry \<Rightarrow> FlowEntry" where
  "set_state f e = e\<lparr>fe_state := f (fe_state e)\<rparr>"

definition outbound_syn :: "PacketView \<Rightarrow> FlowEntry \<Rightarrow> entry_result" where
  "outbound_syn p e =
     (if ack p \<noteq> 0 then Ok (Accept, p, unexpected e)
      else if (case syn_seq (fe_state e) of Some prev \<Rightarrow> prev \<noteq> seq p | None \<Rightarrow> False)
      then Ok (Accept, p, unexpected e)
      else Ok (Accept, p, set_state (\<lambda>st. st\<lparr>syn_seq := Some (seq p)\<rparr>) e))"

text \<open>The match on the method's answer to the ACK of the handshake.\<close>

fun after_handshake :: "MethodAction \<Rightarrow> PacketView \<Rightarrow> FlowEntry \<Rightarrow> Verdict \<times> PacketView \<times> FlowEntry" where
  "after_handshake (EmitFakeAndAccept immediately with_data) p e = (AcceptModified, p,
     (let e = set_state (\<lambda>st. st\<lparr>fake_sent := True\<rparr>) e in
      if with_data then wake_ready (set_state (\<lambda>st. st\<lparr>waiting_for_data := True\<rparr>) e)
      else if immediately then finish FakeDataAcked e else e))"
| "after_handshake PassThrough p e = (Accept, p, wake_ready (set_state (\<lambda>st. st\<lparr>waiting_for_data := True\<rparr>) e))"
| "after_handshake CompleteAndAccept p e = (Accept, p, finish FakeDataAcked e)"
| "after_handshake AbortAndAccept p e = (Accept, p, finish UnexpectedClose e)"

definition outbound_ack :: "stage \<Rightarrow> PacketView \<Rightarrow> FlowEntry \<Rightarrow> entry_result" where
  "outbound_ack hs p e = (let st = fe_state e in
     if fragment_all_data st then Ok (Accept, p, e)
     else if fake_sent st \<or> waiting_for_data st then Ok (Accept, p, unexpected e)
     else (case syn_seq st of None \<Rightarrow> Ok (Accept, p, unexpected e)
     | Some client_isn \<Rightarrow>
         if seq p \<noteq> client_isn + 1 then Ok (Accept, p, unexpected e)
         else (case syn_ack_seq st of None \<Rightarrow> Ok (Accept, p, unexpected e)
         | Some server_isn \<Rightarrow>
             if ack p \<noteq> server_isn + 1 then Ok (Accept, p, unexpected e)
             else (case hs st p of Panic \<Rightarrow> Panic | Ok (action, p') \<Rightarrow> Ok (after_handshake action p' e)))))"

text \<open>The match on the method's answer to a data packet.\<close>

fun after_data :: "MethodAction \<Rightarrow> PacketView \<Rightarrow> FlowEntry \<Rightarrow> Verdict \<times> PacketView \<times> FlowEntry" where
  "after_data (EmitFakeAndAccept immediately with_data) p e = (AcceptModified, p,
     (let e = set_state (\<lambda>st. st\<lparr>first_data_modified := True, waiting_for_data := False\<rparr>) e in
      if with_data then signal_outcome FakeDataAcked (set_state (\<lambda>st. st\<lparr>fragment_all_data := True\<rparr>) e)
      else if immediately then finish FakeDataAcked e
      else set_state (\<lambda>st. st\<lparr>waiting_for_first_data_ack := True\<rparr>) e))"
| "after_data CompleteAndAccept p e = (Accept, p,
     (let e = set_state (\<lambda>st. st\<lparr>first_data_modified := True, waiting_for_data := False\<rparr>) e in
      if \<not> fragment_all_data (fe_state e) then finish FakeDataAcked e else e))"
| "after_data PassThrough p e = (Accept, p, e)"
| "after_data AbortAndAccept p e = (Accept, p,
     (let e = set_state (\<lambda>st. st\<lparr>first_data_modified := True, waiting_for_data := False\<rparr>) e in
      if fragment_all_data (fe_state e) then set_state (\<lambda>st. st\<lparr>fragment_all_data := False, monitor := False\<rparr>) e
      else finish UnexpectedClose e))"

text \<open>Outbound packets that are neither a SYN, an ACK nor data for the method.\<close>

definition outbound_other :: "PacketView \<Rightarrow> FlowEntry \<Rightarrow> FlowEntry" where
  "outbound_other p e = (let st = fe_state e in
     if waiting_for_first_data_ack st then e
     else if fragment_all_data st
     then (if f_fin (flags p) \<or> f_rst (flags p) then set_state (\<lambda>st. st\<lparr>monitor := False\<rparr>) e else e)
     else unexpected e)"

definition outbound_packet :: "stage \<Rightarrow> stage \<Rightarrow> PacketView \<Rightarrow> FlowEntry \<Rightarrow> entry_result" where
  "outbound_packet hs dat p e = (let st = fe_state e in
     if is_bare_syn p then outbound_syn p e
     else if is_bare_ack p then outbound_ack hs p e
     else if 0 < payload_len p \<and> (waiting_for_data st \<and> \<not> first_data_modified st \<or> fragment_all_data st)
     then (case dat st p of Panic \<Rightarrow> Panic | Ok (action, p') \<Rightarrow> Ok (after_data action p' e))
     else Ok (Accept, p, outbound_other p e))"

definition inbound_syn_ack :: "u32 \<Rightarrow> PacketView \<Rightarrow> FlowEntry \<Rightarrow> FlowEntry" where
  "inbound_syn_ack client_isn p e =
     (if ack p \<noteq> client_isn + 1 then unexpected e
      else if (case syn_ack_seq (fe_state e) of Some prev \<Rightarrow> prev \<noteq> seq p | None \<Rightarrow> False) then unexpected e
      else set_state (\<lambda>st. st\<lparr>syn_ack_seq := Some (seq p)\<rparr>) e)"

text \<open>The ACK after the fake; \<^verbatim>\<open>expect\<close> panics when no SYN-ACK was recorded.\<close>

definition post_fake_ack :: "u32 \<Rightarrow> PacketView \<Rightarrow> FlowEntry \<Rightarrow> FlowEntry res" where
  "post_fake_ack client_isn p e = (case syn_ack_seq (fe_state e) of None \<Rightarrow> Panic
   | Some server_isn \<Rightarrow> Ok (
       if seq p \<noteq> server_isn + 1 then unexpected e
       else if ack p \<noteq> client_isn + 1 then unexpected e
       else if waiting_for_data (fe_state e) then e
       else finish FakeDataAcked e))"

definition first_data_ack :: "u32 \<Rightarrow> PacketView \<Rightarrow> FlowEntry \<Rightarrow> FlowEntry res" where
  "first_data_ack client_isn p e = (case syn_ack_seq (fe_state e) of None \<Rightarrow> Panic
   | Some server_isn \<Rightarrow> Ok (
       if seq p \<noteq> server_isn + 1 then unexpected e
       else if 0 < ack p - (client_isn + 1)
       then finish FakeDataAcked (set_state (\<lambda>st. st\<lparr>waiting_for_first_data_ack := False\<rparr>) e)
       else e))"

definition inbound_packet :: "PacketView \<Rightarrow> FlowEntry \<Rightarrow> FlowEntry res" where
  "inbound_packet p e = (let st = fe_state e in case syn_seq st of None \<Rightarrow> Ok (unexpected e)
   | Some client_isn \<Rightarrow>
       if fragment_all_data st then Ok e
       else if is_syn_ack p then Ok (inbound_syn_ack client_isn p e)
       else if is_bare_ack p \<and> fake_sent st then post_fake_ack client_isn p e
       else if waiting_for_first_data_ack st \<and> is_bare_ack p then first_data_ack client_isn p e
       else Ok (unexpected e))"

definition entry_packet :: "stage \<Rightarrow> stage \<Rightarrow> PacketView \<Rightarrow> FlowEntry \<Rightarrow> entry_result" where
  "entry_packet hs dat p e =
     (if \<not> monitor (fe_state e) then Ok (Accept, p, e)
      else (case direction p of Outbound \<Rightarrow> outbound_packet hs dat p e
      | Inbound \<Rightarrow> (case inbound_packet p e of Panic \<Rightarrow> Panic | Ok e' \<Rightarrow> Ok (Accept, p, e'))))"

definition on_packet :: "stage \<Rightarrow> stage \<Rightarrow> FlowStore \<Rightarrow> PacketView \<Rightarrow> (Verdict \<times> PacketView \<times> FlowStore) res" where
  "on_packet hs dat s p = (case map_of (fl_table s) (flow_key_for p) of None \<Rightarrow> Ok (Accept, p, s)
   | Some i \<Rightarrow> (case entry_packet hs dat p (fl_heap s ! i) of Panic \<Rightarrow> Panic
     | Ok (v, p', e') \<Rightarrow> Ok (v, p', s\<lparr>fl_heap := (fl_heap s)[i := e']\<rparr>)))"

section \<open>The invariant of an entry\<close>

text \<open>
  Sequence numbers are recorded in the order of the handshake, each stage has its predecessors, an entry without an outcome is
  monitored, one with an outcome is monitored only in fragment-all mode, and the waiters on the outcome and on
  \<^verbatim>\<open>ready_for_data\<close> are woken once.
\<close>

definition state_inv :: "FlowState \<Rightarrow> bool" where
  "state_inv st = ((syn_ack_seq st \<noteq> None \<longrightarrow> syn_seq st \<noteq> None)
     \<and> (fake_sent st \<longrightarrow> syn_ack_seq st \<noteq> None)
     \<and> (waiting_for_data st \<longrightarrow> fake_sent st \<and> \<not> first_data_modified st)
     \<and> (first_data_modified st \<longrightarrow> fake_sent st)
     \<and> (waiting_for_first_data_ack st \<longrightarrow> first_data_modified st)
     \<and> (fragment_all_data st \<longrightarrow> first_data_modified st \<and> outcome st = Some FakeDataAcked)
     \<and> (outcome st = None \<longrightarrow> monitor st)
     \<and> (monitor st \<and> outcome st \<noteq> None \<longrightarrow> fragment_all_data st))"

definition entry_inv :: "FlowEntry \<Rightarrow> bool" where
  "entry_inv e = (state_inv (fe_state e)
     \<and> (outcome (fe_state e) = None \<longrightarrow> notify e = 0) \<and> (outcome (fe_state e) \<noteq> None \<longrightarrow> notify e = 1)
     \<and> (ready_for_data e = 0 \<or> fake_sent (fe_state e) \<and> ready_for_data e = 1)
     \<and> (waiting_for_data (fe_state e) \<longrightarrow> ready_for_data e = 1))"

lemma unexpected_finish: "unexpected e = finish UnexpectedClose e"
  by (simp add: unexpected_def finish_def)

lemma entry_inv_new [simp]: "entry_inv (new_flow_entry d t)"
  by (simp add: entry_inv_def state_inv_def new_flow_entry_def new_flow_state_def)

lemmas entry_ops = set_state_def wake_ready_def signal_outcome_def finish_def

lemma entry_inv_finish [simp]:
  assumes "entry_inv e"
  shows "entry_inv (finish o' e)"
proof (cases "outcome (fe_state e) = None")
  case True
  then have "finish o' e = e\<lparr>fe_state := (fe_state e)\<lparr>outcome := Some o', monitor := False\<rparr>, notify := Suc (notify e)\<rparr>"
    by (simp add: finish_def)
  moreover have "notify e = 0" "\<not> fragment_all_data (fe_state e)"
    using assms True by (simp_all add: entry_inv_def state_inv_def) 
  ultimately show ?thesis using assms unfolding entry_inv_def state_inv_def
    by (simp (no_asm_simp) del: not_None_eq One_nat_def)
qed (use assms in \<open>auto simp: finish_def\<close>)

lemma entry_inv_set_syn: "entry_inv e \<Longrightarrow> entry_inv (set_state (\<lambda>st. st\<lparr>syn_seq := Some x\<rparr>) e)"
  unfolding entry_inv_def state_inv_def by (simp (no_asm) add: entry_ops del: not_None_eq One_nat_def) satx

lemma outbound_syn_total:
  "entry_inv e \<Longrightarrow> \<exists>v p' e'. outbound_syn p e = Ok (v, p', e') \<and> entry_inv e'"
  by (simp add: outbound_syn_def unexpected_finish entry_inv_set_syn)

text \<open>What the invariant says in the three situations where the handler writes stage flags.\<close>

lemma handshake_facts:
  assumes "entry_inv e" "monitor (fe_state e)" "\<not> fragment_all_data (fe_state e)" "\<not> fake_sent (fe_state e)"
  shows "outcome (fe_state e) = None" "\<not> waiting_for_data (fe_state e)" "\<not> first_data_modified (fe_state e)"
    "\<not> waiting_for_first_data_ack (fe_state e)" "ready_for_data e = 0" "notify e = 0"
  using assms unfolding entry_inv_def state_inv_def by satx+

lemma wait_facts:
  assumes "entry_inv e" "waiting_for_data (fe_state e)" "monitor (fe_state e)"
  shows "fake_sent (fe_state e)" "\<not> first_data_modified (fe_state e)" "\<not> fragment_all_data (fe_state e)"
    "outcome (fe_state e) = None" "\<not> waiting_for_first_data_ack (fe_state e)" "notify e = 0" "ready_for_data e = 1"
    "syn_seq (fe_state e) \<noteq> None" "syn_ack_seq (fe_state e) \<noteq> None"
  using assms unfolding entry_inv_def state_inv_def by satx+

lemma fragment_facts:
  assumes "entry_inv e" "fragment_all_data (fe_state e)"
  shows "fake_sent (fe_state e)" "first_data_modified (fe_state e)" "outcome (fe_state e) = Some FakeDataAcked"
    "\<not> waiting_for_data (fe_state e)" "syn_seq (fe_state e) \<noteq> None" "syn_ack_seq (fe_state e) \<noteq> None"
  using assms unfolding entry_inv_def state_inv_def by satx+

lemma entry_inv_after_handshake:
  assumes "entry_inv e" "monitor (fe_state e)" "\<not> fragment_all_data (fe_state e)" "\<not> fake_sent (fe_state e)"
    "syn_seq (fe_state e) \<noteq> None" "syn_ack_seq (fe_state e) \<noteq> None" "a \<noteq> PassThrough"
  shows "entry_inv (snd (snd (after_handshake a p e)))"
  using assms(2-7) handshake_facts [OF assms(1-4)] assms(1)
proof (cases a)
  case (EmitFakeAndAccept immediately with_data)
  then show ?thesis using assms(2-6) handshake_facts [OF assms(1-4)]
    by (simp add: entry_inv_def state_inv_def entry_ops Let_def)
qed simp_all

lemma entry_inv_after_data_waiting:
  assumes "entry_inv e" "monitor (fe_state e)" "waiting_for_data (fe_state e)"
  shows "entry_inv (snd (snd (after_data a p e)))"
  using assms(2) wait_facts [OF assms(1,3,2)]
  by (cases a) (simp_all add: entry_inv_def state_inv_def entry_ops Let_def)

lemma entry_inv_after_data_fragment:
  assumes "entry_inv e" "monitor (fe_state e)" "fragment_all_data (fe_state e)"
  shows "entry_inv (snd (snd (after_data a p e)))"
proof -
  have "outcome (fe_state e) \<noteq> None" using fragment_facts(3) [OF assms(1,3)] by simp
  note facts = fragment_facts [OF assms(1,3)] assms(2,3) this
  have "entry_inv (set_state (\<lambda>st. st\<lparr>first_data_modified := True, waiting_for_data := False\<rparr>) e)"
    "entry_inv (set_state (\<lambda>st. st\<lparr>first_data_modified := True, waiting_for_data := False, fragment_all_data := True\<rparr>) e)"
    "entry_inv (set_state (\<lambda>st. st\<lparr>first_data_modified := True, waiting_for_data := False, waiting_for_first_data_ack := True\<rparr>) e)"
    "entry_inv (set_state (\<lambda>st. st\<lparr>first_data_modified := True, waiting_for_data := False, fragment_all_data := False, monitor := False\<rparr>) e)"
    using assms(1) facts unfolding entry_inv_def state_inv_def
    by ((simp (no_asm) add: entry_ops del: not_None_eq One_nat_def, satx)+)
  then show ?thesis using assms(1) facts by (cases a) (simp_all add: entry_ops Let_def)
qed

lemma entry_inv_unmonitor:
  assumes "entry_inv e" "fragment_all_data (fe_state e)"
  shows "entry_inv (set_state (\<lambda>st. st\<lparr>monitor := False\<rparr>) e)"
  using assms(1) fragment_facts(3) [OF assms] unfolding entry_inv_def state_inv_def
  by (simp (no_asm_simp) add: entry_ops del: not_None_eq One_nat_def)

lemma entry_inv_other: "entry_inv e \<Longrightarrow> entry_inv (outbound_other p e)"
  by (simp add: outbound_other_def Let_def unexpected_finish entry_inv_unmonitor)

lemma inbound_packet_total:
  assumes "entry_inv e"
  shows "\<exists>e'. inbound_packet p e = Ok e' \<and> entry_inv e'"
proof (cases "syn_seq (fe_state e)")
  case None
  then show ?thesis using assms by (simp add: inbound_packet_def unexpected_finish)
next
  case (Some isn)
  have isn: "syn_seq (fe_state e) \<noteq> None" using Some by simp
  have ack: "entry_inv (set_state (\<lambda>st. st\<lparr>syn_ack_seq := Some x\<rparr>) e)"
    "entry_inv (set_state (\<lambda>st. st\<lparr>waiting_for_first_data_ack := False\<rparr>) e)" for x
    using assms isn unfolding entry_inv_def state_inv_def
    by ((simp (no_asm) add: entry_ops del: not_None_eq One_nat_def, satx)+)
  show ?thesis
  proof (cases "syn_ack_seq (fe_state e)")
    case None
    then have "\<not> fake_sent (fe_state e)" "\<not> waiting_for_first_data_ack (fe_state e)"
      using assms unfolding entry_inv_def state_inv_def by satx+
    then show ?thesis using assms ack Some
      by (simp add: inbound_packet_def inbound_syn_ack_def unexpected_finish Let_def)
  next
    case (Some server_isn)
    then show ?thesis using assms ack \<open>syn_seq (fe_state e) = Some isn\<close>
      by (simp add: inbound_packet_def inbound_syn_ack_def post_fake_ack_def first_data_ack_def unexpected_finish Let_def)
  qed
qed

section \<open>Handling a packet never panics\<close>

text \<open>A chain of methods does not defer at the handshake: it stages, completes or aborts.\<close>

locale chain_method = bypass_method ok hs dat
  for ok :: "'m \<Rightarrow> bool"
    and hs :: "Env \<Rightarrow> 'm \<Rightarrow> FlowState \<Rightarrow> PacketView \<Rightarrow> method_result"
    and dat :: "Env \<Rightarrow> 'm \<Rightarrow> FlowState \<Rightarrow> PacketView \<Rightarrow> method_result" +
  assumes hs_not_deferred: "hs env m fs p \<noteq> Ok (PassThrough, p')"
begin

lemma outbound_ack_total:
  assumes "ok m" "entry_inv e" "monitor (fe_state e)"
  shows "\<exists>v p' e'. outbound_ack (hs env m) p e = Ok (v, p', e') \<and> entry_inv e'"
proof (cases "\<not> fragment_all_data (fe_state e) \<and> \<not> fake_sent (fe_state e) \<and> \<not> waiting_for_data (fe_state e)
    \<and> syn_seq (fe_state e) \<noteq> None \<and> syn_ack_seq (fe_state e) \<noteq> None")
  case True
  then obtain a p' where a: "hs env m (fe_state e) p = Ok (a, p')"
    using hs_total [OF assms(1)] by blast
  obtain v q e' where v: "after_handshake a p' e = (v, q, e')" by (cases "after_handshake a p' e")
  have "a \<noteq> PassThrough" using a hs_not_deferred by metis
  then have "entry_inv e'" using entry_inv_after_handshake [OF assms(2,3), of a p'] True v by simp
  then show ?thesis using True a v assms(2)
    by (auto simp: outbound_ack_def Let_def unexpected_finish entry_inv_finish)
next
  case False
  then show ?thesis using assms(2)
    by (auto simp: outbound_ack_def Let_def unexpected_finish entry_inv_finish split: option.split)
qed

lemma outbound_packet_total:
  assumes "ok m" "entry_inv e" "monitor (fe_state e)"
  shows "\<exists>v p' e'. outbound_packet (hs env m) (dat env m) p e = Ok (v, p', e') \<and> entry_inv e'"
proof -
  let ?d = "waiting_for_data (fe_state e) \<and> \<not> first_data_modified (fe_state e) \<or> fragment_all_data (fe_state e)"
  consider (syn) "is_bare_syn p" | (ack) "\<not> is_bare_syn p" "is_bare_ack p"
    | (data) "\<not> is_bare_syn p" "\<not> is_bare_ack p" "0 < payload_len p" ?d
    | (other) "\<not> is_bare_syn p" "\<not> is_bare_ack p" "\<not> (0 < payload_len p \<and> ?d)" by satx
  then show ?thesis
  proof cases
    case syn
    then have "outbound_packet (hs env m) (dat env m) p e = outbound_syn p e" by (simp add: outbound_packet_def)
    then show ?thesis using outbound_syn_total [OF assms(2)] by simp
  next
    case ack
    then show ?thesis using outbound_ack_total [OF assms, of env p] by (simp add: outbound_packet_def)
  next
    case data
    then have "syn_seq (fe_state e) \<noteq> None"
      using wait_facts(8) [OF assms(2) _ assms(3)] fragment_facts(5) [OF assms(2)] by blast
    then obtain a p' where a: "dat env m (fe_state e) p = Ok (a, p')" using dat_total [OF assms(1)] by blast
    obtain v q e' where v: "after_data a p' e = (v, q, e')" by (cases "after_data a p' e")
    then show ?thesis using a data entry_inv_after_data_waiting [OF assms(2,3), of a p'] entry_inv_after_data_fragment [OF assms(2,3), of a p']
      by (auto simp: outbound_packet_def Let_def)
  next
    case other
    then show ?thesis using entry_inv_other [OF assms(2)] by (auto simp: outbound_packet_def Let_def)
  qed
qed

lemma entry_packet_total:
  assumes "ok m" "entry_inv e"
  shows "\<exists>v p' e'. entry_packet (hs env m) (dat env m) p e = Ok (v, p', e') \<and> entry_inv e'"
proof (cases "monitor (fe_state e) \<and> direction p = Outbound")
  case True
  then show ?thesis using outbound_packet_total [OF assms] by (simp add: entry_packet_def)
next
  case False
  then show ?thesis using inbound_packet_total [OF assms(2), of p] assms(2)
    by (auto simp: entry_packet_def split: Direction.split)
qed

end

lemma composite_not_deferred: "composite_handshake env m fs p \<noteq> Ok (PassThrough, p')"
  by (auto simp: composite_handshake_def handshake_action_def Let_def emit_and_wait_for_data_def emit_and_complete_def
      emit_and_wait_for_ack_def split: res.splits option.splits MethodAction.splits if_splits)

interpretation chain: chain_method composite_ok composite_handshake composite_data
  by unfold_locales (rule composite_not_deferred)

end
