(* ===== verification/Flow_Machine.thy ===== *)
theory Flow_Machine
  imports Handler
begin

text \<open>
  The flow store under all its users: a step relation over the operations of flow.rs and handler.rs, its reachable states and
  their invariant, the abstract lifecycle of a flow that the handler refines, and runs of the handler on the packets of a connection.
\<close>

section \<open>The machine\<close>

text \<open>
  Every operation on the shared store is a step: the proxy registers and removes flows, a rebuild resets them, and the
  interceptor hands packets to the handler, in any order and with any values behind the clock and the TTL handle.
\<close>

inductive flow_step :: "CompositeMethod \<Rightarrow> FlowStore \<Rightarrow> FlowStore \<Rightarrow> bool" for m where
  register: "register_flow s k d t = Inr (i, s') \<Longrightarrow> flow_step m s s'"
| remove: "flow_step m s (remove_flow s k)"
| reset: "flow_step m s (reset_flows s)"
| packet: "on_packet (composite_handshake env m) (composite_data env m) s p = Ok (v, p', s') \<Longrightarrow> flow_step m s s'"

inductive reachable :: "CompositeMethod \<Rightarrow> FlowStore \<Rightarrow> bool" for m where
  start: "reachable m new_flow_table"
| step: "reachable m s \<Longrightarrow> flow_step m s s' \<Longrightarrow> reachable m s'"

definition store_inv :: "FlowStore \<Rightarrow> bool" where
  "store_inv s = (store_ok s \<and> list_all entry_inv (fl_heap s))"

lemma store_inv_nth: "store_inv s \<Longrightarrow> i < length (fl_heap s) \<Longrightarrow> entry_inv (fl_heap s ! i)"
  by (simp add: store_inv_def list_all_length)

lemma store_handle_bound: "store_ok s \<Longrightarrow> map_of (fl_table s) k = Some i \<Longrightarrow> i < length (fl_heap s)"
  using map_of_snd_in [of "fl_table s" k i] by (auto simp: store_ok_def)

lemma on_packet_total:
  assumes "composite_ok m" "store_inv s"
  shows "\<exists>v p' s'. on_packet (composite_handshake env m) (composite_data env m) s p = Ok (v, p', s') \<and> store_inv s'"
proof (cases "map_of (fl_table s) (flow_key_for p)")
  case None
  then show ?thesis using assms(2) by (simp add: on_packet_def)
next
  case (Some i)
  have i: "i < length (fl_heap s)" using assms(2) Some store_handle_bound by (auto simp: store_inv_def)
  then obtain v p' e' where e': "entry_packet (composite_handshake env m) (composite_data env m) p (fl_heap s ! i) = Ok (v, p', e')"
    "entry_inv e'" using chain.entry_packet_total [OF assms(1)] store_inv_nth [OF assms(2)] by blast
  have "store_inv (s\<lparr>fl_heap := (fl_heap s)[i := e']\<rparr>)"
    using assms(2) e'(2) set_update_subset_insert [of "fl_heap s" i e']
    by (auto simp: store_inv_def store_ok_def list_all_iff)
  then show ?thesis using Some e'(1) by (simp add: on_packet_def)
qed

lemma store_inv_reset: "store_inv s \<Longrightarrow> store_inv (reset_flows s)"
proof -
  assume inv: "store_inv s"
  then have ok: "store_ok s" by (simp add: store_inv_def)
  note nth = fold_finish_nth [of "fl_table s" "fl_heap s" UnexpectedClose]
  have len: "length (fl_heap (reset_flows s)) = length (fl_heap s)"
    using nth ok by (simp add: reset_flows_def store_ok_def)
  have "entry_inv (fl_heap (reset_flows s) ! i)" if "i < length (fl_heap s)" for i
    using nth [of i] ok store_inv_nth [OF inv that] by (simp add: reset_flows_def store_ok_def)
  then show ?thesis using local_flows.reset_ok [OF ok] len by (simp add: store_inv_def list_all_length)
qed

lemma store_inv_register:
  assumes "store_inv s" "register_flow s k d t = Inr (i, s')"
  shows "store_inv s'"
proof -
  have new: "\<not> flow_exists s k" using assms(2) local_flows.register_known by force
  have "store_ok s'" using store_ok_register [OF _ new assms(2)] assms(1) by (simp add: store_inv_def)
  then show ?thesis using assms register_flow_new [OF new, of d t] by (auto simp: store_inv_def)
qed

lemma store_inv_step:
  assumes "composite_ok m" "flow_step m s s'" "store_inv s"
  shows "store_inv s'"
  using assms(2)
proof cases
  case (register k d t i)
  then show ?thesis using store_inv_register [OF assms(3)] by blast
next
  case (remove k)
  then show ?thesis using assms(3) store_ok_remove by (auto simp: store_inv_def remove_flow_def)
next
  case reset
  then show ?thesis using store_inv_reset [OF assms(3)] by simp
next
  case (packet env p v p')
  then show ?thesis using on_packet_total [OF assms(1,3), of env p] by auto
qed

lemma reachable_store_inv: "reachable m s \<Longrightarrow> composite_ok m \<Longrightarrow> store_inv s"
proof (induction rule: reachable.induct)
  case start
  then show ?case by (simp add: new_flow_table_def store_inv_def store_ok_def)
next
  case (step s s')
  then show ?case using store_inv_step by blast
qed

text \<open>
  C1. The invariant of the flow store. Whatever the proxy, a rebuild and the interceptor do, and in whatever order, the table points to distinct entries of
  the store and every entry, also one the table has dropped, satisfies the invariant: an entry without an outcome is monitored,
  its stages have the sequence numbers they need, and its waiters have been woken exactly once when there is an
  outcome and never before.
\<close>

theorem flow_store_invariant:
  assumes "reachable m s" "composite_ok m"
  shows "store_ok s \<and> (\<forall>i < length (fl_heap s). entry_inv (fl_heap s ! i))"
  using reachable_store_inv [OF assms] by (simp add: store_inv_def list_all_length)

definition idle_chain :: CompositeMethod where
  "idle_chain = \<lparr>handshake_methods = [MWrongSeq \<lparr>ws_extra_offset = 0, ws_set_psh = True, ws_bump_ip_ident = True\<rparr>],
     data_methods = [], segments_first_client_hello = False, pads_first_client_hello = False,
     mixed_case_sni_first_hello = False, splits_first_client_hello = False, ccs_prefix_first_hello = False,
     record_splits_first_client_hello = False\<rparr>"

lemma idle_chain_ok [simp]: "composite_ok idle_chain"
  by (simp add: composite_ok_def idle_chain_def)

lemma after_handshake_verdict: "fst (after_handshake a p e) \<noteq> Drop"
  by (cases a) simp_all

lemma after_data_verdict: "fst (after_data a p e) \<noteq> Drop"
  by (cases a) simp_all

text \<open>The branches of \<^const>\<open>entry_packet\<close>.\<close>

lemma entry_packet_cases [consumes 1, case_names ignored syn ack data other inbound]:
  assumes "entry_packet hs dat p e = Ok (v, p', e')"
  obtains "\<not> monitor (fe_state e)" "v = Accept" "p' = p" "e' = e"
  | "monitor (fe_state e)" "direction p = Outbound" "is_bare_syn p" "outbound_syn p e = Ok (v, p', e')"
  | "monitor (fe_state e)" "direction p = Outbound" "is_bare_ack p" "outbound_ack hs p e = Ok (v, p', e')"
  | a q where "monitor (fe_state e)" "direction p = Outbound" "0 < payload_len p"
      "waiting_for_data (fe_state e) \<and> \<not> first_data_modified (fe_state e) \<or> fragment_all_data (fe_state e)"
      "dat (fe_state e) p = Ok (a, q)" "after_data a q e = (v, p', e')"
  | "monitor (fe_state e)" "direction p = Outbound" "v = Accept" "p' = p" "e' = outbound_other p e"
  | "monitor (fe_state e)" "direction p = Inbound" "v = Accept" "p' = p" "inbound_packet p e = Ok e'"
  using assms
  by (auto simp: entry_packet_def outbound_packet_def Let_def split: if_splits Direction.splits res.splits)

lemma entry_packet_verdict:
  assumes "entry_packet hs dat p e = Ok (v, p', e')"
  shows "v \<noteq> Drop"
  using assms
proof (cases rule: entry_packet_cases)
  case ack
  then show ?thesis using after_handshake_verdict
    by (auto simp: outbound_ack_def Let_def split: if_splits option.splits res.splits) (metis fst_conv)
next
  case (data a q)
  then show ?thesis using after_data_verdict [of a q e] by simp
qed (auto simp: outbound_syn_def split: if_splits)

text \<open>
  C2. The handler never panics. In every reachable store every packet gets a verdict: neither the \<^verbatim>\<open>expect\<close> calls of the handler nor those of
  the methods can fail, and the handler never asks the backend to drop a packet.
\<close>

theorem handler_never_panics:
  assumes "reachable m s" "composite_ok m"
  shows "\<exists>v p' s'. on_packet (composite_handshake env m) (composite_data env m) s p = Ok (v, p', s') \<and> v \<noteq> Drop"
proof -
  obtain v p' s' where *: "on_packet (composite_handshake env m) (composite_data env m) s p = Ok (v, p', s')"
    using on_packet_total [OF assms(2) reachable_store_inv [OF assms]] by blast
  then have "v \<noteq> Drop" by (auto simp: on_packet_def dest: entry_packet_verdict split: option.splits res.splits)
  with * show ?thesis by blast
qed

lemma handler_never_panics_witness:
  "\<exists>v p' s'. on_packet (composite_handshake \<lparr>env_ttl = 5, env_seed = 1\<rparr> idle_chain)
     (composite_data \<lparr>env_ttl = 5, env_seed = 1\<rparr> idle_chain) new_flow_table blank_packet = Ok (v, p', s') \<and> v \<noteq> Drop"
  by (rule handler_never_panics [OF reachable.start idle_chain_ok])

section \<open>Outcomes are final\<close>

text \<open>An entry \<open>e'\<close> keeps the outcome and the wake-ups of \<open>e\<close> when \<open>e\<close> has one.\<close>

definition keeps_outcome :: "FlowEntry \<Rightarrow> FlowEntry \<Rightarrow> bool" where
  "keeps_outcome e e' = (outcome (fe_state e) \<noteq> None \<longrightarrow>
     outcome (fe_state e') = outcome (fe_state e) \<and> notify e' = notify e)"

lemma keeps_outcome_refl [simp]: "keeps_outcome e e"
  by (simp add: keeps_outcome_def)

lemma keeps_outcome_finish [simp]: "keeps_outcome e (finish o' e)"
  by (simp add: keeps_outcome_def finish_def)

lemma keeps_outcome_ops:
  "keeps_outcome e (unexpected e)"
  "keeps_outcome e (snd (snd (after_handshake a p e)))"
  "keeps_outcome e (snd (snd (after_data a p e)))"
  "keeps_outcome e (outbound_other p e)"
  "keeps_outcome e (inbound_syn_ack isn p e)"
  by (simp_all add: unexpected_finish)
    (cases a; auto simp: keeps_outcome_def entry_ops Let_def outbound_other_def inbound_syn_ack_def unexpected_def)+

lemma inbound_keeps_outcome: "inbound_packet p e = Ok e' \<Longrightarrow> keeps_outcome e e'"
  by (auto simp: inbound_packet_def post_fake_ack_def first_data_ack_def Let_def keeps_outcome_ops
      split: option.splits if_splits) (auto simp: keeps_outcome_def entry_ops)

lemma after_keeps_outcome:
  "after_handshake a p e = (v, p', e') \<Longrightarrow> keeps_outcome e e'"
  "after_data a p e = (v, p', e') \<Longrightarrow> keeps_outcome e e'"
  using keeps_outcome_ops(2,3) [of e a p] by simp_all

lemma entry_packet_keeps_outcome:
  assumes "entry_packet hs dat p e = Ok (v, p', e')"
  shows "keeps_outcome e e'"
  using assms
proof (cases rule: entry_packet_cases)
  case syn
  then show ?thesis
    by (auto simp: outbound_syn_def keeps_outcome_ops split: if_splits) (simp add: keeps_outcome_def set_state_def)
next
  case ack
  then show ?thesis
    by (auto simp: outbound_ack_def keeps_outcome_ops Let_def dest: after_keeps_outcome
        split: if_splits option.splits res.splits)
qed (auto simp: keeps_outcome_ops dest: inbound_keeps_outcome after_keeps_outcome)

lemma on_packet_heap:
  assumes "on_packet hs dat s p = Ok (v, p', s')"
  shows "s' = s \<and> v = Accept \<and> p' = p \<and> map_of (fl_table s) (flow_key_for p) = None
    \<or> (\<exists>i e'. map_of (fl_table s) (flow_key_for p) = Some i \<and> entry_packet hs dat p (fl_heap s ! i) = Ok (v, p', e')
         \<and> s' = s\<lparr>fl_heap := (fl_heap s)[i := e']\<rparr>)"
  using assms by (auto simp: on_packet_def split: option.splits res.splits)

lemma flow_step_keeps_outcome:
  assumes "flow_step m s s'" "store_ok s" "i < length (fl_heap s)"
  shows "i < length (fl_heap s') \<and> keeps_outcome (fl_heap s ! i) (fl_heap s' ! i)"
  using assms(1)
proof cases
  case (register k d t j)
  then have "\<not> flow_exists s k" using local_flows.register_known by force
  then show ?thesis using register assms(3) register_flow_new [of s k d t] by (auto simp: nth_append)
next
  case (remove k)
  then show ?thesis using assms(3) by (simp add: remove_flow_def)
next
  case reset
  then show ?thesis using assms(2,3) fold_finish_nth [of "fl_table s" "fl_heap s" UnexpectedClose i]
    by (simp add: reset_flows_def store_ok_def)
next
  case (packet env p v p')
  have nth: "(fl_heap s)[j := e'] ! i = (if i = j then e' else fl_heap s ! i)" for j e'
    using assms(3) by (cases "i = j") simp_all
  show ?thesis using assms(3) on_packet_heap [OF packet] by (auto simp: nth dest: entry_packet_keeps_outcome)
qed

text \<open>
  C4. An outcome is final and signalled once. In a reachable store no step, be it a packet, a removal, a reset or another registration, changes
  the outcome of an entry that has one, or wakes its waiters again; and an entry that gets its outcome in this step has its waiters woken by it.
\<close>

theorem outcome_final_and_signalled_once:
  assumes "reachable m s" "composite_ok m" "flow_step m s s'" "i < length (fl_heap s)"
  shows "(outcome (fe_state (fl_heap s ! i)) \<noteq> None \<longrightarrow>
        outcome (fe_state (fl_heap s' ! i)) = outcome (fe_state (fl_heap s ! i)) \<and> notify (fl_heap s' ! i) = notify (fl_heap s ! i))
    \<and> (outcome (fe_state (fl_heap s ! i)) = None \<and> outcome (fe_state (fl_heap s' ! i)) \<noteq> None \<longrightarrow>
        notify (fl_heap s' ! i) = Suc (notify (fl_heap s ! i)))"
proof -
  note inv = reachable_store_inv [OF assms(1,2)]
  note inv' = store_inv_step [OF assms(2,3) inv]
  have k: "i < length (fl_heap s')" "keeps_outcome (fl_heap s ! i) (fl_heap s' ! i)"
    using flow_step_keeps_outcome [OF assms(3) _ assms(4)] inv by (auto simp: store_inv_def)
  have "entry_inv (fl_heap s ! i)" "entry_inv (fl_heap s' ! i)"
    using store_inv_nth inv inv' assms(4) k(1) by blast+
  then have "outcome (fe_state (fl_heap s ! i)) = None \<longrightarrow> notify (fl_heap s ! i) = 0"
    "outcome (fe_state (fl_heap s' ! i)) \<noteq> None \<longrightarrow> notify (fl_heap s' ! i) = 1"
    unfolding entry_inv_def by satx+
  then show ?thesis using k(2) by (auto simp: keeps_outcome_def)
qed

definition sample_key :: FlowKey where
  "sample_key = \<lparr>fk_src_ip = 1, fk_src_port = 3, fk_dst_ip = 2, fk_dst_port = 4\<rparr>"

definition sample_store :: FlowStore where
  "sample_store = \<lparr>fl_table = [(sample_key, 0)], fl_heap = [new_flow_entry [1, 2, 3] None]\<rparr>"

lemma sample_store_reachable: "reachable m sample_store"
proof -
  have "register_flow new_flow_table sample_key [1, 2, 3] None = Inr (0, sample_store)"
    by (simp add: register_flow_def new_flow_table_def sample_store_def)
  then show ?thesis using reachable.step [OF reachable.start flow_step.register] by blast
qed

lemma flow_store_invariant_witness:
  "store_ok sample_store \<and> entry_inv (fl_heap sample_store ! 0) \<and> monitor (fe_state (fl_heap sample_store ! 0))"
  using flow_store_invariant [OF sample_store_reachable idle_chain_ok] by (simp add: sample_store_def new_flow_entry_def new_flow_state_def)

lemma outcome_final_and_signalled_once_witness:
  "notify (fl_heap (reset_flows sample_store) ! 0) = 1"
proof -
  have "outcome (fe_state (fl_heap sample_store ! 0)) = None" "notify (fl_heap sample_store ! 0) = 0"
    "outcome (fe_state (fl_heap (reset_flows sample_store) ! 0)) \<noteq> None"
    by (simp_all add: sample_store_def reset_flows_def finish_def new_flow_entry_def new_flow_state_def)
  moreover have "0 < length (fl_heap sample_store)" by (simp add: sample_store_def)
  ultimately show ?thesis
    using outcome_final_and_signalled_once [OF sample_store_reachable idle_chain_ok flow_step.reset, of 0] by simp
qed

text \<open>
  C6. A packet touches only its own flow. The handler changes the entry registered for the packet's flow, seen from the outbound side in either direction, and no
  other; a packet of an unknown flow or of one that is no longer monitored passes unchanged and leaves the store alone.
\<close>

theorem packet_touches_own_flow_only:
  assumes "reachable m s" "composite_ok m"
    and "on_packet (composite_handshake env m) (composite_data env m) s p = Ok (v, p', s')"
  shows "fl_table s' = fl_table s
    \<and> (\<forall>k. k \<noteq> flow_key_for p \<longrightarrow> flow_lookup s' k = flow_lookup s k)
    \<and> ((\<forall>e. flow_lookup s (flow_key_for p) = Some e \<longrightarrow> \<not> monitor (fe_state e)) \<longrightarrow> v = Accept \<and> p' = p \<and> s' = s)"
proof -
  have ok: "store_ok s" using reachable_store_inv [OF assms(1,2)] by (simp add: store_inv_def)
  have inj: "map_of (fl_table s) k \<noteq> Some i" if "map_of (fl_table s) (flow_key_for p) = Some i" "k \<noteq> flow_key_for p" for k i
    using that ok map_of_inj_snd by (fastforce simp: store_ok_def)
  consider "s' = s" "v = Accept" "p' = p"
    | i e' where "map_of (fl_table s) (flow_key_for p) = Some i"
        "entry_packet (composite_handshake env m) (composite_data env m) p (fl_heap s ! i) = Ok (v, p', e')"
        "s' = s\<lparr>fl_heap := (fl_heap s)[i := e']\<rparr>"
    using on_packet_heap [OF assms(3)] by blast
  then show ?thesis
  proof cases
    case (2 i e')
    have "flow_lookup s' k = flow_lookup s k" if "k \<noteq> flow_key_for p" for k
      using inj [OF 2(1) that] 2(3) by (cases "map_of (fl_table s) k") (auto simp: flow_lookup_def)
    moreover have "v = Accept \<and> p' = p \<and> s' = s"
      if "\<forall>e. flow_lookup s (flow_key_for p) = Some e \<longrightarrow> \<not> monitor (fe_state e)"
    proof -
      have "\<not> monitor (fe_state (fl_heap s ! i))" using that 2(1) by (simp add: flow_lookup_def)
      then have "e' = fl_heap s ! i" "v = Accept" "p' = p" using 2(2) by (simp_all add: entry_packet_def)
      then show ?thesis by (cases s) (simp add: 2(3))
    qed
    ultimately show ?thesis by (simp add: 2(3))
  qed simp
qed

lemma packet_touches_own_flow_only_witness:
  "\<exists>v p' s'. on_packet (composite_handshake \<lparr>env_ttl = 5, env_seed = 1\<rparr> idle_chain)
       (composite_data \<lparr>env_ttl = 5, env_seed = 1\<rparr> idle_chain) sample_store (blank_packet\<lparr>src_port := 99\<rparr>) = Ok (v, p', s')
     \<and> s' = sample_store \<and> p' = blank_packet\<lparr>src_port := 99\<rparr>"
proof -
  let ?p = "blank_packet\<lparr>src_port := 99\<rparr>" and ?e = "\<lparr>env_ttl = 5, env_seed = 1\<rparr>"
  obtain v p' s' where r: "on_packet (composite_handshake ?e idle_chain) (composite_data ?e idle_chain) sample_store ?p = Ok (v, p', s')"
    using on_packet_total [OF idle_chain_ok reachable_store_inv [OF sample_store_reachable idle_chain_ok]] by blast
  have "flow_lookup sample_store (flow_key_for ?p) = None"
    by (simp add: flow_lookup_def sample_store_def sample_key_def flow_key_for_def blank_packet_def)
  then show ?thesis
    using packet_touches_own_flow_only [OF sample_store_reachable idle_chain_ok r] r by auto
qed

section \<open>The acknowledgement of the first data packet\<close>

text \<open>
  C36. Waiting for the server to acknowledge a modified first data packet cannot succeed. A chain always marks the fake as sent at the handshake,
  so the advancing ACK of the server, in sequence and acknowledging more than the handshake, is taken for the reply to that
  fake and closes the flow as unexpected, in every reachable store with a flow in that phase.
\<close>

theorem first_data_ack_closes_flow:
  assumes "reachable m s" "composite_ok m" "i < length (fl_heap s)" "e = fl_heap s ! i"
    and "monitor (fe_state e)" "waiting_for_first_data_ack (fe_state e)" "\<not> fragment_all_data (fe_state e)"
    and "syn_seq (fe_state e) = Some isn" "syn_ack_seq (fe_state e) = Some server_isn"
    and "direction p = Inbound" "is_bare_ack p" "seq p = server_isn + 1" "0 < ack p - (isn + 1)"
  shows "entry_packet hs dat p e = Ok (Accept, p, finish UnexpectedClose e)
    \<and> outcome (fe_state (finish UnexpectedClose e)) = Some UnexpectedClose"
proof -
  have inv: "entry_inv e" using store_inv_nth [OF reachable_store_inv [OF assms(1,2)] assms(3)] assms(4) by simp
  have facts: "fake_sent (fe_state e)" "outcome (fe_state e) = None"
    using inv assms(5-7) unfolding entry_inv_def state_inv_def by satx+
  have "\<not> is_syn_ack p" using assms(11) packet_kinds_exclusive(1) by blast
  moreover have "ack p \<noteq> isn + 1" using assms(13) by auto
  ultimately have "inbound_packet p e = Ok (unexpected e)"
    using assms(7-12) facts(1) by (simp add: inbound_packet_def post_fake_ack_def Let_def)
  then show ?thesis using assms(5,10) facts(2) by (simp add: entry_packet_def unexpected_finish)
qed

section \<open>Runs\<close>

text \<open>The handler on a sequence of packets, with the verdicts and the packets it returned.\<close>

fun run_packets :: "Env \<Rightarrow> CompositeMethod \<Rightarrow> FlowStore \<Rightarrow> PacketView list \<Rightarrow> ((Verdict \<times> PacketView) list \<times> FlowStore) res" where
  "run_packets env m s [] = Ok ([], s)"
| "run_packets env m s (p # ps) = (case on_packet (composite_handshake env m) (composite_data env m) s p of Panic \<Rightarrow> Panic
   | Ok (v, p', s') \<Rightarrow> (case run_packets env m s' ps of Panic \<Rightarrow> Panic | Ok (vs, s'') \<Rightarrow> Ok ((v, p') # vs, s'')))"

lemma run_packets_reachable: "run_packets env m s ps = Ok (vs, s') \<Longrightarrow> reachable m s \<Longrightarrow> reachable m s'"
proof (induction ps arbitrary: s vs)
  case (Cons p ps)
  then obtain v p' s1 vs' where p: "on_packet (composite_handshake env m) (composite_data env m) s p = Ok (v, p', s1)"
    "run_packets env m s1 ps = Ok (vs', s')" by (auto split: res.splits)
  show ?case using Cons.IH [OF p(2)] reachable.step [OF Cons.prems(2) flow_step.packet [OF p(1)]] by blast
qed simp

text \<open>The packets of a connection of \<^const>\<open>sample_key\<close>: its handshake, its first data and the answers of the server.\<close>

definition out_packet :: "u32 \<Rightarrow> u32 \<Rightarrow> bool \<Rightarrow> bytes \<Rightarrow> PacketView" where
  "out_packet s a syn pl = blank_packet\<lparr>seq := s, ack := a, flags := no_flags\<lparr>f_syn := syn, f_ack := \<not> syn\<rparr>,
     payload := pl, payload_len := length pl\<rparr>"

definition in_packet :: "u32 \<Rightarrow> u32 \<Rightarrow> bool \<Rightarrow> PacketView" where
  "in_packet s a syn = blank_packet\<lparr>direction := Inbound, src_ip := 2, dst_ip := 1, src_port := 4, dst_port := 3,
     seq := s, ack := a, flags := no_flags\<lparr>f_syn := syn, f_ack := True\<rparr>\<rparr>"

definition waiting_fake_tls :: CompositeMethod where
  "waiting_fake_tls = idle_chain\<lparr>handshake_methods := [], data_methods := [MFakeTls \<lparr>ft_extra_offset = 0, ft_set_psh = True,
     ft_bump_ip_ident = True, ft_complete_immediately = False, ft_forward_real = True, ft_chained = False,
     ft_repeats = 1, ft_chain_delay_ms = exact 0\<rparr>]\<rparr>"

lemmas run_simps = on_packet_def entry_packet_def outbound_packet_def outbound_syn_def outbound_ack_def inbound_packet_def
  inbound_syn_ack_def post_fake_ack_def first_data_ack_def outbound_other_def unexpected_def finish_def set_state_def
  wake_ready_def Let_def is_bare_syn_def is_bare_ack_def is_syn_ack_def out_packet_def in_packet_def blank_packet_def
  no_flags_def flow_key_for_def sample_store_def sample_key_def new_flow_entry_def new_flow_state_def idle_chain_def
  composite_handshake_def composite_data_def waits_for_data_def loop_start_def handshake_action_def
  emit_and_wait_for_data_def emit_and_wait_for_ack_def emit_and_complete_def wrong_seq_handshake_def fake_tls_data_def

lemma waiting_fake_tls_run:
  "\<exists>vs s. run_packets \<lparr>env_ttl = 5, env_seed = 1\<rparr> waiting_fake_tls sample_store
      [out_packet 100 0 True [], in_packet 900 101 True, out_packet 101 901 False [], out_packet 101 901 False [7, 8]] = Ok (vs, s)
    \<and> length (fl_heap s) = 1 \<and> (let st = fe_state (fl_heap s ! 0) in monitor st \<and> waiting_for_first_data_ack st
        \<and> \<not> fragment_all_data st \<and> syn_seq st = Some 100 \<and> syn_ack_seq st = Some 900)"
  by (simp add: run_simps waiting_fake_tls_def)

lemma first_data_ack_closes_flow_witness:
  "\<exists>e hs dat. waiting_for_first_data_ack (fe_state e)
     \<and> entry_packet hs dat (in_packet 901 103 False) e = Ok (Accept, in_packet 901 103 False, finish UnexpectedClose e)"
proof -
  let ?env = "\<lparr>env_ttl = 5, env_seed = 1\<rparr>" and ?p = "in_packet 901 103 False"
  obtain vs s where run: "run_packets ?env waiting_fake_tls sample_store
      [out_packet 100 0 True [], in_packet 900 101 True, out_packet 101 901 False [], out_packet 101 901 False [7, 8]] = Ok (vs, s)"
    and s: "length (fl_heap s) = 1" and st: "let st = fe_state (fl_heap s ! 0) in monitor st \<and> waiting_for_first_data_ack st
        \<and> \<not> fragment_all_data st \<and> syn_seq st = Some 100 \<and> syn_ack_seq st = Some 900"
    using waiting_fake_tls_run by blast
  have ok: "composite_ok waiting_fake_tls"
    by (simp add: composite_ok_def waiting_fake_tls_def exact_def i32_range_def)
  have p: "direction ?p = Inbound" "is_bare_ack ?p" "seq ?p = 900 + 1" "0 < ack ?p - (100 + 1)"
    by (simp_all add: in_packet_def is_bare_ack_def blank_packet_def no_flags_def)
  show ?thesis
    using first_data_ack_closes_flow [OF run_packets_reachable [OF run sample_store_reachable] ok _ refl, of 0 100 900 ?p] p s st
    by (auto simp: Let_def)
qed

section \<open>An abstract lifecycle\<close>

text \<open>
  The phases of a flow and the transitions between them: the specification of the handler's state machine, without
  sequence numbers, methods or packets. The entry of a flow refines it.
\<close>

datatype Phase = Fresh | SynSent | SynAcked | FakeSent | AwaitData | AwaitDataAck | FragmentAll | Closed BypassOutcome

inductive phase_step :: "Phase \<Rightarrow> Phase \<Rightarrow> bool" where
  syn: "phase_step Fresh SynSent"
| syn_ack: "phase_step SynSent SynAcked"
| fake: "phase_step SynAcked FakeSent"
| staged: "phase_step SynAcked AwaitData"
| aborted: "phase_step SynAcked (Closed FakeDataAcked)"
| fake_acked: "phase_step FakeSent (Closed FakeDataAcked)"
| data_sent: "phase_step AwaitData AwaitDataAck"
| fragmenting: "phase_step AwaitData FragmentAll"
| data_done: "phase_step AwaitData (Closed FakeDataAcked)"
| data_acked: "phase_step AwaitDataAck (Closed FakeDataAcked)"
| closing: "phase_step FragmentAll (Closed FakeDataAcked)"
| failed: "p \<in> {Fresh, SynSent, SynAcked, FakeSent, AwaitData, AwaitDataAck} \<Longrightarrow> phase_step p (Closed UnexpectedClose)"

inductive_simps phase_step_Closed: "phase_step (Closed r) p"

lemma phase_step_simps [simp]:
  "phase_step Fresh SynSent" "phase_step SynSent SynAcked" "phase_step SynAcked FakeSent" "phase_step SynAcked AwaitData"
  "phase_step SynAcked (Closed r)" "phase_step FakeSent (Closed r)" "phase_step AwaitData AwaitDataAck"
  "phase_step AwaitData FragmentAll" "phase_step AwaitData (Closed r)" "phase_step AwaitDataAck (Closed r)"
  "phase_step FragmentAll (Closed FakeDataAcked)"
  by (cases r; simp add: phase_step.intros)+

fun phase_rank :: "Phase \<Rightarrow> nat" where
  "phase_rank Fresh = 0"
| "phase_rank SynSent = 1"
| "phase_rank SynAcked = 2"
| "phase_rank FakeSent = 3"
| "phase_rank AwaitData = 3"
| "phase_rank AwaitDataAck = 4"
| "phase_rank FragmentAll = 4"
| "phase_rank (Closed _) = 5"

lemma phase_step_rank: "phase_step p q \<Longrightarrow> phase_rank p < phase_rank q"
  by (induction rule: phase_step.induct) auto

definition phase :: "FlowEntry \<Rightarrow> Phase" where
  "phase e = (let st = fe_state e in case outcome st of
     Some r \<Rightarrow> if monitor st then FragmentAll else Closed r
   | None \<Rightarrow> if waiting_for_first_data_ack st then AwaitDataAck
       else if waiting_for_data st then AwaitData
       else if fake_sent st then FakeSent
       else if syn_ack_seq st \<noteq> None then SynAcked
       else if syn_seq st \<noteq> None then SynSent else Fresh)"

abbreviation phase_trans :: "FlowEntry \<Rightarrow> FlowEntry \<Rightarrow> bool" where
  "phase_trans e e' \<equiv> phase e' = phase e \<or> phase_step (phase e) (phase e')"

lemma phase_open: "outcome (fe_state e) = None \<Longrightarrow> phase e \<in> {Fresh, SynSent, SynAcked, FakeSent, AwaitData, AwaitDataAck}"
  by (simp add: phase_def Let_def)

lemma phase_unexpected: "phase_trans e (finish UnexpectedClose e)"
proof (cases "outcome (fe_state e) = None")
  case True
  then have "phase (finish UnexpectedClose e) = Closed UnexpectedClose" by (simp add: finish_def phase_def)
  then show ?thesis using failed [OF phase_open [OF True]] by simp
qed (auto simp: finish_def)

lemma fake_facts:
  assumes "entry_inv e" "outcome (fe_state e) = None" "fake_sent (fe_state e)" "\<not> waiting_for_data (fe_state e)"
  shows "phase e = FakeSent \<or> phase e = AwaitDataAck"
  using assms by (simp add: phase_def Let_def)

lemma outbound_syn_phase:
  assumes "entry_inv e" "outbound_syn p e = Ok (v, p', e')"
  shows "phase_trans e e'"
proof -
  have "phase_trans e (set_state (\<lambda>st. st\<lparr>syn_seq := Some (seq p)\<rparr>) e)"
  proof (cases "syn_seq (fe_state e)")
    case None
    then have "syn_seq (fe_state e) = None" .
    then have "syn_ack_seq (fe_state e) = None" "\<not> fake_sent (fe_state e)" "\<not> waiting_for_data (fe_state e)"
      "\<not> waiting_for_first_data_ack (fe_state e)" "\<not> fragment_all_data (fe_state e)"
      using assms(1) unfolding entry_inv_def state_inv_def by satx+
    then show ?thesis using None
      by (cases "outcome (fe_state e)") (auto simp: phase_def set_state_def phase_step.intros)
  next
    case (Some x)
    then show ?thesis by (auto simp: phase_def set_state_def Let_def split: option.split)
  qed
  then show ?thesis using assms(2) phase_unexpected [of e]
    by (auto simp: outbound_syn_def unexpected_finish split: if_splits)
qed

lemma after_handshake_phase:
  assumes "entry_inv e" "monitor (fe_state e)" "\<not> fragment_all_data (fe_state e)" "\<not> fake_sent (fe_state e)"
    "syn_ack_seq (fe_state e) \<noteq> None" "a \<noteq> PassThrough"
  shows "phase_trans e (snd (snd (after_handshake a q e)))"
proof -
  note facts = handshake_facts [OF assms(1-4)]
  have ph: "phase e = SynAcked" using facts assms(4,5) by (simp add: phase_def)
  have "phase (finish r e) = Closed r" for r using facts by (simp add: finish_def phase_def)
  then show ?thesis using assms(6) facts ph
    by (cases a) (simp_all add: Let_def phase_def set_state_def wake_ready_def finish_def)
qed

lemma outbound_ack_phase:
  assumes "entry_inv e" "monitor (fe_state e)" "outbound_ack hs p e = Ok (v, p', e')"
    and "\<And>q. hs (fe_state e) p \<noteq> Ok (PassThrough, q)"
  shows "phase_trans e e'"
proof -
  have "phase_trans e e'" if "after_handshake a q e = (v, p', e')" "hs (fe_state e) p = Ok (a, q)"
    "\<not> fragment_all_data (fe_state e)" "\<not> fake_sent (fe_state e)" "syn_ack_seq (fe_state e) \<noteq> None" for a q
    using after_handshake_phase [OF assms(1,2) that(3-5), of a q] that(1,2) assms(4) by auto
  then show ?thesis using assms(3) phase_unexpected [of e]
    by (auto simp: outbound_ack_def Let_def unexpected_finish split: if_splits option.splits res.splits)
qed

lemma after_data_phase:
  assumes "entry_inv e" "monitor (fe_state e)"
    and "waiting_for_data (fe_state e) \<and> \<not> first_data_modified (fe_state e) \<or> fragment_all_data (fe_state e)"
  shows "phase_trans e (snd (snd (after_data a q e)))"
  using assms(3)
proof
  assume "waiting_for_data (fe_state e) \<and> \<not> first_data_modified (fe_state e)"
  then have w: "waiting_for_data (fe_state e)" by simp
  note facts = wait_facts [OF assms(1) w assms(2)]
  have "phase e = AwaitData" using facts w by (simp add: phase_def)
  then show ?thesis using assms(2) facts w
    by (cases a) (simp_all add: Let_def phase_def set_state_def signal_outcome_def finish_def)
next
  assume f: "fragment_all_data (fe_state e)"
  note facts = fragment_facts [OF assms(1) f]
  have "phase e = FragmentAll" using facts assms(2) by (simp add: phase_def)
  then show ?thesis using assms(2) facts f
    by (cases a) (simp_all add: Let_def phase_def set_state_def signal_outcome_def finish_def)
qed

lemma outbound_other_phase:
  assumes "entry_inv e" "monitor (fe_state e)"
  shows "phase_trans e (outbound_other p e)"
proof (cases "fragment_all_data (fe_state e)")
  case True
  note facts = fragment_facts [OF assms(1) True]
  show ?thesis using True assms(2) facts(3)
    by (simp add: outbound_other_def Let_def phase_def set_state_def phase_step.intros)
next
  case False
  then show ?thesis using phase_unexpected [of e] by (simp add: outbound_other_def Let_def unexpected_finish)
qed

lemma inbound_syn_ack_phase:
  assumes "entry_inv e" "outcome (fe_state e) = None" "syn_seq (fe_state e) = Some isn"
  shows "phase_trans e (inbound_syn_ack isn p e)"
proof -
  have "phase_trans e (set_state (\<lambda>st. st\<lparr>syn_ack_seq := Some (seq p)\<rparr>) e)"
  proof (cases "syn_ack_seq (fe_state e) = None")
    case True
    then have "\<not> fake_sent (fe_state e)" "\<not> waiting_for_data (fe_state e)" "\<not> waiting_for_first_data_ack (fe_state e)"
      using assms(1) unfolding entry_inv_def state_inv_def by satx+
    then show ?thesis using True assms(2,3) by (simp add: phase_def set_state_def)
  qed (use assms(2) in \<open>simp add: phase_def set_state_def Let_def\<close>)
  then show ?thesis using phase_unexpected [of e] by (simp add: inbound_syn_ack_def unexpected_finish)
qed

lemma post_fake_ack_phase:
  assumes "entry_inv e" "outcome (fe_state e) = None" "fake_sent (fe_state e)" "post_fake_ack isn p e = Ok e'"
  shows "phase_trans e e'"
proof -
  have "phase_trans e (finish FakeDataAcked e)" if "\<not> waiting_for_data (fe_state e)"
    using fake_facts [OF assms(1-3) that] assms(2) by (auto simp: finish_def phase_def)
  then show ?thesis using assms(4) phase_unexpected [of e]
    by (auto simp: post_fake_ack_def unexpected_finish split: option.splits if_splits)
qed

lemma inbound_packet_phase:
  assumes "entry_inv e" "monitor (fe_state e)" "inbound_packet p e = Ok e'"
  shows "phase_trans e e'"
proof (cases "fragment_all_data (fe_state e)")
  case True
  then have "e' = e" using assms(3) fragment_facts(5) [OF assms(1) True] by (auto simp: inbound_packet_def)
  then show ?thesis by simp
next
  case False
  then have out: "outcome (fe_state e) = None" "waiting_for_first_data_ack (fe_state e) \<longrightarrow> fake_sent (fe_state e)"
    using assms(1,2) unfolding entry_inv_def state_inv_def by satx+
  show ?thesis
  proof (cases "syn_seq (fe_state e)")
    case None
    then show ?thesis using assms(3) phase_unexpected [of e] by (simp add: inbound_packet_def unexpected_finish)
  next
    case (Some isn)
    consider "e' = inbound_syn_ack isn p e" | "fake_sent (fe_state e)" "post_fake_ack isn p e = Ok e'"
      | "e' = finish UnexpectedClose e"
      using assms(3) False Some out(2)
      by (simp add: inbound_packet_def Let_def unexpected_finish split: if_splits)
    then show ?thesis
      using inbound_syn_ack_phase [OF assms(1) out(1) Some] post_fake_ack_phase [OF assms(1) out(1)] phase_unexpected [of e]
      by cases simp_all
  qed
qed

lemma entry_packet_phase:
  assumes "entry_inv e" "entry_packet hs dat p e = Ok (v, p', e')"
    and "\<And>q. hs (fe_state e) p \<noteq> Ok (PassThrough, q)"
  shows "phase_trans e e'"
  using assms(2)
proof (cases rule: entry_packet_cases)
  case syn
  then show ?thesis using outbound_syn_phase [OF assms(1)] by blast
next
  case ack
  then show ?thesis using outbound_ack_phase [OF assms(1)] assms(3) by blast
next
  case (data a q)
  then show ?thesis using after_data_phase [OF assms(1) data(1,4), of a q] by simp
next
  case other
  then show ?thesis using outbound_other_phase [OF assms(1)] by simp
next
  case inbound
  then show ?thesis using inbound_packet_phase [OF assms(1)] by blast
qed simp

text \<open>
  C3. The handler refines the lifecycle. In a reachable store every packet of a tracked flow either leaves its phase as it is or takes one transition
  of the abstract machine; phases only move forward, so that a flow changes its phase at most five times, and a closed flow stays closed.
\<close>

theorem handler_refines_lifecycle:
  assumes "reachable m s" "composite_ok m" "map_of (fl_table s) (flow_key_for p) = Some i"
    and "on_packet (composite_handshake env m) (composite_data env m) s p = Ok (v, p', s')"
  shows "phase (fl_heap s' ! i) = phase (fl_heap s ! i)
    \<or> phase_step (phase (fl_heap s ! i)) (phase (fl_heap s' ! i))
      \<and> phase_rank (phase (fl_heap s ! i)) < phase_rank (phase (fl_heap s' ! i)) \<and> phase_rank (phase (fl_heap s' ! i)) \<le> 5"
proof -
  note inv = reachable_store_inv [OF assms(1,2)]
  have i: "i < length (fl_heap s)" using inv assms(3) store_handle_bound by (auto simp: store_inv_def)
  obtain e' where e': "entry_packet (composite_handshake env m) (composite_data env m) p (fl_heap s ! i) = Ok (v, p', e')"
    "s' = s\<lparr>fl_heap := (fl_heap s)[i := e']\<rparr>" using on_packet_heap [OF assms(4)] assms(3) by auto
  have "phase_trans (fl_heap s ! i) e'"
    using entry_packet_phase [OF store_inv_nth [OF inv i] e'(1)] composite_not_deferred by blast
  moreover have "phase_rank q \<le> 5" for q by (cases q) simp_all
  ultimately show ?thesis using phase_step_rank i by (auto simp: e'(2))
qed

lemma handler_refines_lifecycle_witness:
  "\<exists>v p' s'. on_packet (composite_handshake \<lparr>env_ttl = 5, env_seed = 1\<rparr> idle_chain)
       (composite_data \<lparr>env_ttl = 5, env_seed = 1\<rparr> idle_chain) sample_store (out_packet 100 0 True []) = Ok (v, p', s')
     \<and> (phase (fl_heap s' ! 0) = Fresh \<or> phase_step Fresh (phase (fl_heap s' ! 0)))"
proof -
  let ?env = "\<lparr>env_ttl = 5, env_seed = 1\<rparr>" and ?p = "out_packet 100 0 True []"
  obtain v p' s' where r: "on_packet (composite_handshake ?env idle_chain) (composite_data ?env idle_chain) sample_store ?p = Ok (v, p', s')"
    using on_packet_total [OF idle_chain_ok reachable_store_inv [OF sample_store_reachable idle_chain_ok]] by blast
  have "map_of (fl_table sample_store) (flow_key_for ?p) = Some 0" "phase (fl_heap sample_store ! 0) = Fresh"
    by (simp_all add: run_simps phase_def)
  then show ?thesis using handler_refines_lifecycle [OF sample_store_reachable idle_chain_ok _ r, of 0] r by auto
qed

text \<open>The handler on the packets of one flow works on that flow's entry only.\<close>

fun run_entry :: "Env \<Rightarrow> CompositeMethod \<Rightarrow> FlowEntry \<Rightarrow> PacketView list \<Rightarrow> ((Verdict \<times> PacketView) list \<times> FlowEntry) res" where
  "run_entry env m e [] = Ok ([], e)"
| "run_entry env m e (p # ps) = (case entry_packet (composite_handshake env m) (composite_data env m) p e of Panic \<Rightarrow> Panic
   | Ok (v, p', e') \<Rightarrow> (case run_entry env m e' ps of Panic \<Rightarrow> Panic | Ok (vs, e'') \<Rightarrow> Ok ((v, p') # vs, e'')))"

lemma run_packets_flow:
  assumes "\<forall>p \<in> set ps. map_of (fl_table s) (flow_key_for p) = Some i" "i < length (fl_heap s)" "run_entry env m (fl_heap s ! i) ps = Ok (vs, e)"
  shows "run_packets env m s ps = Ok (vs, s\<lparr>fl_heap := (fl_heap s)[i := e]\<rparr>)"
  using assms
proof (induction ps arbitrary: s vs)
  case (Cons p ps)
  obtain v p' e1 vs' where p: "entry_packet (composite_handshake env m) (composite_data env m) p (fl_heap s ! i) = Ok (v, p', e1)"
    "run_entry env m e1 ps = Ok (vs', e)" "vs = (v, p') # vs'" using Cons.prems(3) by (auto split: res.splits)
  let ?s1 = "s\<lparr>fl_heap := (fl_heap s)[i := e1]\<rparr>"
  have "run_packets env m ?s1 ps = Ok (vs', ?s1\<lparr>fl_heap := (fl_heap ?s1)[i := e]\<rparr>)"
    by (rule Cons.IH) (use Cons.prems(1,2) p(2) in simp_all)
  then show ?case using Cons.prems(1) p by (simp add: on_packet_def)
qed (auto simp flip: list_update_id)

text \<open>
  The packets of a connection that comes up, at the sequence numbers \<open>isn\<close> and \<open>server_isn\<close>: the SYN, the SYN-ACK, the ACK that ends the handshake, the
  server's duplicate acknowledgement, which a fake outside its window brings forth, and a data packet. All are freshly captured packets of the
  flow with the key \<open>k\<close>; addresses, ports, options and everything else are free.
\<close>

definition handshake_packets :: "FlowKey \<Rightarrow> u32 \<Rightarrow> u32 \<Rightarrow> PacketView \<Rightarrow> PacketView \<Rightarrow> PacketView \<Rightarrow> PacketView \<Rightarrow> bool" where
  "handshake_packets k isn server_isn syn synack ackp dup \<longleftrightarrow>
     (\<forall>p \<in> {syn, synack, ackp, dup}. flow_key_for p = k \<and> unstaged p)
     \<and> direction syn = Outbound \<and> is_bare_syn syn \<and> seq syn = isn \<and> ack syn = 0
     \<and> direction synack = Inbound \<and> is_syn_ack synack \<and> seq synack = server_isn \<and> ack synack = isn + 1
     \<and> direction ackp = Outbound \<and> is_bare_ack ackp \<and> seq ackp = isn + 1 \<and> ack ackp = server_isn + 1
     \<and> direction dup = Inbound \<and> is_bare_ack dup \<and> seq dup = server_isn + 1 \<and> ack dup = isn + 1"

definition data_packet :: "FlowKey \<Rightarrow> PacketView \<Rightarrow> bool" where
  "data_packet k p \<longleftrightarrow> flow_key_for p = k \<and> direction p = Outbound \<and> 0 < payload_len p"

lemmas handler_simps = entry_packet_def outbound_packet_def outbound_syn_def outbound_ack_def inbound_packet_def
  inbound_syn_ack_def post_fake_ack_def finish_def set_state_def wake_ready_def Let_def is_bare_syn_def is_bare_ack_def is_syn_ack_def
  new_flow_entry_def new_flow_state_def composite_handshake_def composite_data_def loop_start_def handshake_action_def
  emit_and_wait_for_data_def emit_and_wait_for_ack_def emit_and_complete_def wrong_seq_handshake_def

lemma wrong_seq_entry_run:
  assumes "handshake_methods m = [MWrongSeq w]" "data_methods m = []" "handshake_packets k isn server_isn p1 p2 p3 p4" "data_packet k p5"
  shows "\<exists>e. run_entry env m (new_flow_entry fake ttl) ([p1, p2, p3, p4] @ (if waits_for_data m then [p5] else []))
      = Ok ([(Accept, p1), (Accept, p2), (AcceptModified, p3\<lparr>new_seq := Some (behind_window isn (length fake) (ws_extra_offset w)),
            new_flags := Some (with_psh (ws_set_psh w) p3), new_payload := Some fake, bump_ipv4_ident := ws_bump_ip_ident w\<rparr>), (Accept, p4)]
          @ (if waits_for_data m then [(Accept, p5)] else []), e)
    \<and> outcome (fe_state e) = Some FakeDataAcked \<and> notify e = 1 \<and> ready_for_data e = (if waits_for_data m then 1 else 0)"
  using assms unfolding handshake_packets_def data_packet_def
  by (cases "waits_for_data m") (auto simp: handler_simps unstaged_def)

text \<open>
  C5. The bypass with \<^verbatim>\<open>wrong_seq\<close> completes. In any store in which any flow has just been registered, with any fake data and TTL override, and for all initial
  sequence numbers, the packets of a normal handshake of that flow followed by the server's duplicate acknowledgement get a verdict each: the fake data are
  staged on the ACK, at the sequence number behind the window, with the configured flags and identification, and no other packet is modified; when the
  chain also works on the socket side, the task that waits to send data is woken once and the first data packet passes. Either way the outcome of the flow is
  \<^verbatim>\<open>FakeDataAcked\<close>, signalled once, and no other flow is touched.
\<close>

theorem wrong_seq_bypass_completes:
  assumes "handshake_methods m = [MWrongSeq w]" "data_methods m = []"
    and "register_flow s0 k fake ttl = Inr (i, s)"
    and "handshake_packets k isn server_isn p1 p2 p3 p4" "data_packet k p5"
  shows "\<exists>e. run_packets env m s ([p1, p2, p3, p4] @ (if waits_for_data m then [p5] else []))
      = Ok ([(Accept, p1), (Accept, p2), (AcceptModified, p3\<lparr>new_seq := Some (behind_window isn (length fake) (ws_extra_offset w)),
            new_flags := Some (with_psh (ws_set_psh w) p3), new_payload := Some fake, bump_ipv4_ident := ws_bump_ip_ident w\<rparr>), (Accept, p4)]
          @ (if waits_for_data m then [(Accept, p5)] else []), s\<lparr>fl_heap := (fl_heap s)[i := e]\<rparr>)
    \<and> outcome (fe_state e) = Some FakeDataAcked \<and> notify e = 1 \<and> ready_for_data e = (if waits_for_data m then 1 else 0)"
proof -
  have s: "map_of (fl_table s) k = Some i" "i < length (fl_heap s)" "fl_heap s ! i = new_flow_entry fake ttl"
    using assms(3) by (auto simp: register_flow_def Let_def split: option.splits)
  let ?ps = "[p1, p2, p3, p4] @ (if waits_for_data m then [p5] else [])"
  have keys: "\<forall>p \<in> set ?ps. map_of (fl_table s) (flow_key_for p) = Some i"
    using assms(4,5) s(1) by (auto simp: handshake_packets_def data_packet_def)
  obtain e where e: "run_entry env m (fl_heap s ! i) ?ps
      = Ok ([(Accept, p1), (Accept, p2), (AcceptModified, p3\<lparr>new_seq := Some (behind_window isn (length fake) (ws_extra_offset w)),
            new_flags := Some (with_psh (ws_set_psh w) p3), new_payload := Some fake, bump_ipv4_ident := ws_bump_ip_ident w\<rparr>), (Accept, p4)]
          @ (if waits_for_data m then [(Accept, p5)] else []), e)"
    "outcome (fe_state e) = Some FakeDataAcked" "notify e = 1" "ready_for_data e = (if waits_for_data m then 1 else 0)"
    using wrong_seq_entry_run [OF assms(1,2,4,5), of env fake ttl] unfolding s(3) by blast
  show ?thesis using run_packets_flow [OF keys s(2) e(1)] e(2-4) by blast
qed

text \<open>The connection of \<^const>\<open>sample_key\<close>.\<close>

lemma wrong_seq_bypass_completes_witness:
  "\<exists>vs s. run_packets \<lparr>env_ttl = 5, env_seed = 1\<rparr> idle_chain sample_store
      [out_packet 100 0 True [], in_packet 900 101 True, out_packet 101 901 False [], in_packet 901 101 False] = Ok (vs, s)
    \<and> outcome (fe_state (fl_heap s ! 0)) = Some FakeDataAcked"
proof -
  have m: "handshake_methods idle_chain = [MWrongSeq \<lparr>ws_extra_offset = 0, ws_set_psh = True, ws_bump_ip_ident = True\<rparr>]"
    "data_methods idle_chain = []" "\<not> waits_for_data idle_chain"
    by (simp_all add: idle_chain_def waits_for_data_def)
  have r: "register_flow new_flow_table sample_key [1, 2, 3] None = Inr (0, sample_store)"
    by (simp add: register_flow_def new_flow_table_def sample_store_def)
  have h: "handshake_packets sample_key 100 900 (out_packet 100 0 True []) (in_packet 900 101 True) (out_packet 101 901 False []) (in_packet 901 101 False)"
    by (simp add: handshake_packets_def run_simps unstaged_def)
  have d: "data_packet sample_key (out_packet 101 901 False [7])" by (simp add: data_packet_def run_simps)
  show ?thesis using wrong_seq_bypass_completes [OF m(1,2) r h d, of "\<lparr>env_ttl = 5, env_seed = 1\<rparr>"] m(3)
    by (auto simp: sample_store_def)
qed

end
