(* ===== verification/Target_Pool.thy ===== *)
theory Target_Pool
  imports Config "HOL-Library.AList"
begin

text \<open>
  The pool of relay targets, src/crates/zerodpi-core/src/target\_pool.rs: ranked candidates, the members with their history,
  selection by the four strategies, and the leases that count the connections of a target. The shared counters
  (\<^verbatim>\<open>Arc<AtomicUsize>\<close>, \<^verbatim>\<open>Arc<TargetTraffic>\<close>) are kept in heaps and addressed by index, because a lease and every copy of a member
  hold the same counter. Durations are in nanoseconds. Of the scanners' entries only the fields read here appear.
\<close>

section \<open>Targets\<close>

datatype IpAddr = V4 u32 | V6 "128 word"

record Target =
  tg_ip :: IpAddr
  tg_sni :: "string option"
  tg_score :: u8
  tg_tcp_latency :: "nat option"
  tg_low_ttl :: "u8 option"

type_synonym TargetKey = "string option \<times> IpAddr"

definition target_of_ip :: "IpAddr \<Rightarrow> u8 \<Rightarrow> Target" where
  "target_of_ip ip score = \<lparr>tg_ip = ip, tg_sni = None, tg_score = score, tg_tcp_latency = None, tg_low_ttl = None\<rparr>"

definition target_of_sni :: "string \<Rightarrow> u32 \<Rightarrow> u8 \<Rightarrow> Target" where
  "target_of_sni sni ip score = (target_of_ip (V4 ip) score)\<lparr>tg_sni := Some sni\<rparr>"

definition target_key :: "Target \<Rightarrow> TargetKey" where
  "target_key t = (tg_sni t, tg_ip t)"

record SniProbeEntry =
  se_sni :: string
  se_ip :: u32
  se_tcp_latency_ms :: "u64 option"
  se_score :: u8

record IpProbeEntry =
  ie_ip :: IpAddr
  ie_tcp_latency_ms :: "u64 option"
  ie_score :: u8

definition from_millis :: "u64 \<Rightarrow> nat" where
  "from_millis ms = unat ms * 1000000"

definition from_sni :: "SniProbeEntry \<Rightarrow> Target" where
  "from_sni e = (target_of_sni (se_sni e) (se_ip e) (se_score e))\<lparr>tg_tcp_latency := map_option from_millis (se_tcp_latency_ms e)\<rparr>"

definition from_ip :: "IpProbeEntry \<Rightarrow> Target" where
  "from_ip e = (target_of_ip (ie_ip e) (ie_score e))\<lparr>tg_tcp_latency := map_option from_millis (ie_tcp_latency_ms e)\<rparr>"

text \<open>The filter with the set of keys seen so far.\<close>

fun unseen_targets :: "TargetKey list \<Rightarrow> Target list \<Rightarrow> Target list" where
  "unseen_targets seen [] = []"
| "unseen_targets seen (t # ts) = (if target_key t \<in> set seen then unseen_targets seen ts
     else t # unseen_targets (target_key t # seen) ts)"

text \<open>\<open>None\<close> stands for \<^verbatim>\<open>usize::MAX\<close>, which no list reaches.\<close>

definition unique_targets :: "Target list \<Rightarrow> nat option \<Rightarrow> Target list" where
  "unique_targets ts limit = (case limit of None \<Rightarrow> unseen_targets [] ts | Some n \<Rightarrow> take n (unseen_targets [] ts))"

definition sni_candidates :: "SniProbeEntry list \<Rightarrow> nat \<Rightarrow> u8 \<Rightarrow> Target list" where
  "sni_candidates es limit min_score = unique_targets
     (map from_sni (filter (\<lambda>e. se_tcp_latency_ms e \<noteq> None \<and> max min_score 1 \<le> se_score e) es)) (Some limit)"

definition ip_candidates :: "IpProbeEntry list \<Rightarrow> nat \<Rightarrow> Target list" where
  "ip_candidates es limit = unique_targets
     (map from_ip (filter (\<lambda>e. ie_tcp_latency_ms e \<noteq> None \<and> 0 < ie_score e) es)) (Some limit)"

section \<open>The pool\<close>

datatype PingSource = Scan | Live

record PoolMember =
  pm_target :: Target
  pm_ping :: "nat option"
  pm_load :: nat
  pm_traffic :: nat
  pm_ping_source :: PingSource

definition member_key :: "PoolMember \<Rightarrow> TargetKey" where
  "member_key m = target_key (pm_target m)"

record PoolState =
  ps_members :: "PoolMember list"
  ps_history :: "PoolMember list"
  ps_history_indices :: "(TargetKey \<times> nat) list"
  ps_cursor :: nat
  ps_generation :: u64
  ps_random :: u64
  ps_loads :: "u64 list"
  ps_traffic :: "(u64 \<times> u64) list"

record TargetLease =
  tl_target :: Target
  tl_load :: nat
  tl_traffic :: nat

text \<open>One turn of the closure in \<^verbatim>\<open>replace\<close>: the member of a target, with the counters of its key if there are any.\<close>

definition place_target :: "PoolState \<Rightarrow> Target \<Rightarrow> PoolMember \<times> PoolState" where
  "place_target st t = (let k = target_key t in
     case map_of (ps_history_indices st) k of
       Some i \<Rightarrow> (let m = \<lparr>pm_target = t, pm_ping = tg_tcp_latency t, pm_load = pm_load (ps_history st ! i),
             pm_traffic = pm_traffic (ps_history st ! i), pm_ping_source = Scan\<rparr> in
           (m, st\<lparr>ps_history := (ps_history st)[i := m]\<rparr>))
     | None \<Rightarrow> (let m = \<lparr>pm_target = t, pm_ping = tg_tcp_latency t, pm_load = length (ps_loads st),
             pm_traffic = length (ps_traffic st), pm_ping_source = Scan\<rparr> in
           (m, st\<lparr>ps_history_indices := AList.update k (length (ps_history st)) (ps_history_indices st),
               ps_history := ps_history st @ [m], ps_loads := ps_loads st @ [0], ps_traffic := ps_traffic st @ [(0, 0)]\<rparr>)))"

fun place_targets :: "PoolState \<Rightarrow> Target list \<Rightarrow> PoolMember list \<times> PoolState" where
  "place_targets st [] = ([], st)"
| "place_targets st (t # ts) = (let (m, st1) = place_target st t; (ms, st2) = place_targets st1 ts in (m # ms, st2))"

definition pool_replace :: "PoolState \<Rightarrow> Target list \<Rightarrow> bool \<times> PoolState" where
  "pool_replace st targets =
     (if targets = [] then (False, st)
      else (let ts = unique_targets targets None;
                changed = (map member_key (ps_members st) \<noteq> map target_key ts);
                (ms, st1) = place_targets st ts in
        (changed, st1\<lparr>ps_members := ms, ps_cursor := 0, ps_generation := ps_generation st1 + 1\<rparr>)))"

definition empty_pool :: "u64 \<Rightarrow> PoolState" where
  "empty_pool seed = \<lparr>ps_members = [], ps_history = [], ps_history_indices = [], ps_cursor = 0, ps_generation = 0,
     ps_random = seed, ps_loads = [], ps_traffic = []\<rparr>"

definition pool_new :: "u64 \<Rightarrow> Target list \<Rightarrow> PoolState option" where
  "pool_new seed targets = (if targets = [] then None else Some (snd (pool_replace (empty_pool seed) targets)))"

definition representative :: "PoolState \<Rightarrow> Target res" where
  "representative st = (case ps_members st of [] \<Rightarrow> Panic | m # _ \<Rightarrow> Ok (pm_target m))"

text \<open>\<^verbatim>\<open>Iterator::min_by_key\<close>: the first of the least elements.\<close>

fun min_by_key :: "('a \<Rightarrow> 'k::linorder) \<Rightarrow> 'a list \<Rightarrow> 'a option" where
  "min_by_key f [] = None"
| "min_by_key f (x # xs) = (case min_by_key f xs of None \<Rightarrow> Some x | Some y \<Rightarrow> if f x \<le> f y then Some x else Some y)"

text \<open>
  The index that \<^verbatim>\<open>acquire\<close> selects, with the new state of the generator. \<open>Panic\<close> is the remainder by zero of an empty pool; \<open>None\<close>
  would be a rejection loop that does not end.
\<close>

definition select_index :: "SelectionStrategy \<Rightarrow> PoolState \<Rightarrow> (nat \<times> u64) option res" where
  "select_index strategy st = (let count = length (ps_members st); rr = ps_cursor st mod count in
     if count = 0 then Panic
     else (case strategy of
       RoundRobin \<Rightarrow> Ok (Some (rr, ps_random st))
     | Random \<Rightarrow> random_index (ps_random st) count
     | LeastPing \<Rightarrow> Ok (Some (case min_by_key snd (List.map_filter (\<lambda>i. map_option (\<lambda>p. (i, p)) (pm_ping (ps_members st ! i))) [0..<count]) of
           Some (i, _) \<Rightarrow> i | None \<Rightarrow> rr, ps_random st))
     | LeastLoad \<Rightarrow> Ok (Some (the (min_by_key (\<lambda>i. ps_loads st ! pm_load (ps_members st ! i))
           (map (\<lambda>off. (rr + off) mod count) [0..<count])), ps_random st))))"

definition lease_of :: "PoolMember \<Rightarrow> TargetLease" where
  "lease_of m = \<lparr>tl_target = pm_target m, tl_load = pm_load m, tl_traffic = pm_traffic m\<rparr>"

definition pool_acquire :: "SelectionStrategy \<Rightarrow> PoolState \<Rightarrow> (TargetLease \<times> PoolState) option res" where
  "pool_acquire strategy st = (case select_index strategy st of Panic \<Rightarrow> Panic | Ok None \<Rightarrow> Ok None
   | Ok (Some (i, rnd)) \<Rightarrow> (let m = ps_members st ! i in
       Ok (Some (lease_of m, st\<lparr>ps_random := rnd, ps_cursor := (i + 1) mod length (ps_members st),
         ps_loads := (ps_loads st)[pm_load m := ps_loads st ! pm_load m + 1]\<rparr>))))"

text \<open>\<^verbatim>\<open>Drop for TargetLease\<close>.\<close>

definition lease_drop :: "TargetLease \<Rightarrow> PoolState \<Rightarrow> PoolState" where
  "lease_drop l st = st\<lparr>ps_loads := (ps_loads st)[tl_load l := ps_loads st ! tl_load l - 1]\<rparr>"

definition active_connections :: "PoolState \<Rightarrow> u64" where
  "active_connections st = sum_list (map (\<lambda>m. ps_loads st ! pm_load m) (ps_history st))"

record TargetSnapshot =
  ts_target :: Target
  ts_rank :: "nat option"
  ts_ping :: "nat option"
  ts_ping_source :: PingSource
  ts_active_connections :: u64
  ts_bytes :: "u64 \<times> u64"

definition sample_member :: "PoolState \<Rightarrow> nat option \<Rightarrow> PoolMember \<Rightarrow> TargetSnapshot" where
  "sample_member st rank m = \<lparr>ts_target = pm_target m, ts_rank = rank, ts_ping = pm_ping m, ts_ping_source = pm_ping_source m,
     ts_active_connections = ps_loads st ! pm_load m, ts_bytes = ps_traffic st ! pm_traffic m\<rparr>"

definition pool_snapshot :: "PoolState \<Rightarrow> TargetSnapshot list" where
  "pool_snapshot st = map (\<lambda>i. sample_member st (Some (i + 1)) (ps_members st ! i)) [0..<length (ps_members st)]
     @ map (sample_member st None) (filter (\<lambda>m. member_key m \<notin> member_key ` set (ps_members st)) (ps_history st))"

definition probe_snapshot :: "PoolState \<Rightarrow> u64 \<times> Target list" where
  "probe_snapshot st = (ps_generation st, map pm_target (ps_members st))"

definition set_ping :: "nat option \<Rightarrow> PoolMember \<Rightarrow> PoolMember" where
  "set_ping ping m = m\<lparr>pm_ping := ping, pm_ping_source := Live\<rparr>"

text \<open>The index into \<^verbatim>\<open>history_indices\<close> panics for an unknown key.\<close>

definition update_ping :: "u64 \<Rightarrow> Target \<Rightarrow> nat option \<Rightarrow> PoolState \<Rightarrow> PoolState res" where
  "update_ping generation t ping st =
     (if ps_generation st \<noteq> generation then Ok st
      else (case find (\<lambda>i. member_key (ps_members st ! i) = target_key t) [0..<length (ps_members st)] of
        None \<Rightarrow> Ok st
      | Some j \<Rightarrow> (case map_of (ps_history_indices st) (target_key t) of None \<Rightarrow> Panic
        | Some i \<Rightarrow> index_at (ps_history st) i (\<lambda>h.
            Ok (st\<lparr>ps_members := (ps_members st)[j := set_ping ping (ps_members st ! j)],
                   ps_history := (ps_history st)[i := set_ping ping h]\<rparr>)))))"

section \<open>The invariant\<close>

definition history_ok :: "PoolState \<Rightarrow> bool" where
  "history_ok st = ((\<forall>k i. map_of (ps_history_indices st) k = Some i \<longleftrightarrow> i < length (ps_history st) \<and> member_key (ps_history st ! i) = k)
     \<and> distinct (map pm_load (ps_history st)) \<and> distinct (map pm_traffic (ps_history st))
     \<and> (\<forall>m \<in> set (ps_history st). pm_load m < length (ps_loads st) \<and> pm_traffic m < length (ps_traffic st)))"

definition members_ok :: "PoolState \<Rightarrow> bool" where
  "members_ok st = (ps_members st \<noteq> [] \<and> distinct (map member_key (ps_members st))
     \<and> set (ps_members st) \<subseteq> set (ps_history st) \<and> ps_cursor st < length (ps_members st))"

definition pool_ok :: "PoolState \<Rightarrow> bool" where
  "pool_ok st = (history_ok st \<and> members_ok st)"

text \<open>Every counter is the number of live leases on it, and every lease has the counters of its key.\<close>

definition leases_ok :: "PoolState \<Rightarrow> TargetLease list \<Rightarrow> bool" where
  "leases_ok st ls = ((\<forall>a < length (ps_loads st). ps_loads st ! a = word_of_nat (length (filter (\<lambda>l. tl_load l = a) ls)))
     \<and> (\<forall>l \<in> set ls. \<exists>m \<in> set (ps_history st). pm_load m = tl_load l \<and> pm_traffic m = tl_traffic l
           \<and> member_key m = target_key (tl_target l)))"

section \<open>Candidates\<close>

lemma unseen_targets_spec:
  "distinct (map target_key (unseen_targets seen ts)) \<and> target_key ` set (unseen_targets seen ts) = target_key ` set ts - set seen
   \<and> set (unseen_targets seen ts) \<subseteq> set ts"
  by (induction seen ts rule: unseen_targets.induct) auto

lemma unseen_targets_Nil: "unseen_targets [] ts = [] \<longleftrightarrow> ts = []"
  by (cases ts) auto

section \<open>Replacing the members\<close>

lemma history_keys: "history_ok st \<Longrightarrow> i < length (ps_history st) \<Longrightarrow> j < length (ps_history st) \<Longrightarrow>
    member_key (ps_history st ! i) = member_key (ps_history st ! j) \<Longrightarrow> i = j"
  unfolding history_ok_def by (metis option.inject)

text \<open>A member of the new history has the counters of the member with its key in the old one.\<close>

definition keeps_counters :: "PoolState \<Rightarrow> PoolState \<Rightarrow> bool" where
  "keeps_counters st st' = (\<forall>m \<in> set (ps_history st). \<exists>m' \<in> set (ps_history st').
     member_key m' = member_key m \<and> pm_load m' = pm_load m \<and> pm_traffic m' = pm_traffic m)"

lemma keeps_counters_refl: "keeps_counters st st"
  by (auto simp: keeps_counters_def)

lemma keeps_counters_trans: "keeps_counters a b \<Longrightarrow> keeps_counters b c \<Longrightarrow> keeps_counters a c"
  unfolding keeps_counters_def by metis

lemma place_target_known:
  assumes "history_ok st" "map_of (ps_history_indices st) (target_key t) = Some i" "place_target st t = (m, st')"
  shows "st' = st\<lparr>ps_history := (ps_history st)[i := m]\<rparr>" "i < length (ps_history st)" "pm_target m = t"
    "member_key (ps_history st ! i) = target_key t" "pm_load m = pm_load (ps_history st ! i)"
    "pm_traffic m = pm_traffic (ps_history st ! i)"
proof -
  have ix: "i < length (ps_history st) \<and> member_key (ps_history st ! i) = target_key t"
    using assms(1,2) unfolding history_ok_def by metis
  then show "i < length (ps_history st)" "member_key (ps_history st ! i) = target_key t" by simp_all
  show "st' = st\<lparr>ps_history := (ps_history st)[i := m]\<rparr>" "pm_target m = t" "pm_load m = pm_load (ps_history st ! i)"
    "pm_traffic m = pm_traffic (ps_history st ! i)"
    using assms(2,3) by (auto simp: place_target_def Let_def)
qed

lemma alist_append_new: "map_of xs k = None \<Longrightarrow> AList.update k v xs = xs @ [(k, v)]"
  by (induction xs) (auto split: if_splits)

lemma place_target_new:
  assumes "map_of (ps_history_indices st) (target_key t) = None" "place_target st t = (m, st')"
  shows "st' = st\<lparr>ps_history_indices := ps_history_indices st @ [(target_key t, length (ps_history st))],
      ps_history := ps_history st @ [m], ps_loads := ps_loads st @ [0], ps_traffic := ps_traffic st @ [(0, 0)]\<rparr>"
    "pm_target m = t" "pm_load m = length (ps_loads st)" "pm_traffic m = length (ps_traffic st)"
  using assms alist_append_new [OF assms(1), of "length (ps_history st)"] by (auto simp: place_target_def Let_def)

lemma list_update_map_same: "i < length xs \<Longrightarrow> f x = f (xs ! i) \<Longrightarrow> map f (xs[i := x]) = map f xs"
  by (metis list_update_id map_update)

lemma place_target_history:
  assumes ok: "history_ok st" and place: "place_target st t = (m, st')"
  shows "history_ok st'" "m \<in> set (ps_history st')" "keeps_counters st st'"
    "\<And>x. x \<in> set (ps_history st) \<Longrightarrow> member_key x \<noteq> target_key t \<Longrightarrow> x \<in> set (ps_history st')"
proof -
  have key: "member_key m = target_key t"
    using place by (cases "map_of (ps_history_indices st) (target_key t)") (auto simp: place_target_def Let_def member_key_def)
  have "history_ok st' \<and> m \<in> set (ps_history st') \<and> keeps_counters st st'
    \<and> (\<forall>x \<in> set (ps_history st). member_key x \<noteq> target_key t \<longrightarrow> x \<in> set (ps_history st'))"
  proof (cases "map_of (ps_history_indices st) (target_key t)")
    case (Some i)
    note p = place_target_known [OF ok Some place]
    have same: "map pm_load ((ps_history st)[i := m]) = map pm_load (ps_history st)"
      "map pm_traffic ((ps_history st)[i := m]) = map pm_traffic (ps_history st)"
      "map member_key ((ps_history st)[i := m]) = map member_key (ps_history st)"
      using p key by (simp_all add: list_update_map_same)
    have nthkey: "member_key ((ps_history st)[i := m] ! j) = member_key (ps_history st ! j)" if "j < length (ps_history st)" for j
      using same(3) that by (metis length_list_update nth_map)
    have "pm_load x < length (ps_loads st) \<and> pm_traffic x < length (ps_traffic st)" if "x \<in> set ((ps_history st)[i := m])" for x
      using set_update_subset_insert [of "ps_history st" i m] that ok p(2,5,6) nth_mem [OF p(2)] by (auto simp: history_ok_def)
    then have "history_ok st'" using ok nthkey unfolding history_ok_def p(1) by (auto simp: same)
    moreover have "m \<in> set (ps_history st')" using p(1,2) set_update_memI by fastforce
    moreover have nth: "x = ps_history st ! i \<or> x \<in> set (ps_history st')" if "x \<in> set (ps_history st)" for x
      using that p(1,2) by (metis PoolState.select_convs(2) PoolState.surjective PoolState.update_convs(2) in_set_conv_nth length_list_update nth_list_update_neq)
    ultimately show ?thesis using key p(4-6) unfolding keeps_counters_def by metis
  next
    case None
    note p = place_target_new [OF None place]
    have new: "member_key (ps_history st ! j) \<noteq> target_key t" if "j < length (ps_history st)" for j
      using None ok that unfolding history_ok_def by (metis option.distinct(1))
    have "map_of (ps_history_indices st') k = Some j \<longleftrightarrow> j < length (ps_history st') \<and> member_key (ps_history st' ! j) = k" for k j
    proof -
      have idx: "map_of (ps_history_indices st) k = Some j \<longleftrightarrow> j < length (ps_history st) \<and> member_key (ps_history st ! j) = k"
        using ok unfolding history_ok_def by blast
      have "map_of (ps_history_indices st') k
          = (if k = target_key t then Some (length (ps_history st)) else map_of (ps_history_indices st) k)"
        using None by (simp add: p(1) map_add_def split: option.split)
      then show ?thesis using idx new key None by (auto simp: p(1) nth_append less_Suc_eq)
    qed
    moreover have "distinct (map pm_load (ps_history st')) \<and> distinct (map pm_traffic (ps_history st'))"
      using ok p by (fastforce simp: history_ok_def)
    moreover have "\<forall>x \<in> set (ps_history st'). pm_load x < length (ps_loads st') \<and> pm_traffic x < length (ps_traffic st')"
      using ok p by (auto simp: history_ok_def less_Suc_eq)
    ultimately show ?thesis using p(1) by (auto simp: history_ok_def keeps_counters_def)
  qed
  then show "history_ok st'" "m \<in> set (ps_history st')" "keeps_counters st st'"
    "\<And>x. x \<in> set (ps_history st) \<Longrightarrow> member_key x \<noteq> target_key t \<Longrightarrow> x \<in> set (ps_history st')" by auto
qed

lemma place_target_counters: "place_target st t = (m, st') \<Longrightarrow> ps_loads st' = ps_loads st \<or> ps_loads st' = ps_loads st @ [0]"
  by (auto simp: place_target_def Let_def split: option.splits)

lemma place_targets_history:
  assumes "history_ok st" "distinct (map target_key ts)" "place_targets st ts = (ms, st')"
  shows "history_ok st' \<and> map pm_target ms = ts \<and> set ms \<subseteq> set (ps_history st') \<and> keeps_counters st st'
    \<and> (\<exists>n. ps_loads st' = ps_loads st @ replicate n 0)
    \<and> (\<forall>x \<in> set (ps_history st). member_key x \<notin> target_key ` set ts \<longrightarrow> x \<in> set (ps_history st'))"
  using assms
proof (induction ts arbitrary: st ms)
  case Nil
  then show ?case by (auto simp: keeps_counters_refl intro: exI [of _ 0])
next
  case (Cons t ts)
  obtain m st1 ms' where s: "place_target st t = (m, st1)" "place_targets st1 ts = (ms', st')" "ms = m # ms'"
    using Cons.prems(3) by (auto simp: Let_def split: prod.splits)
  note one = place_target_history [OF Cons.prems(1) s(1)]
  have key: "pm_target m = t" "member_key m = target_key t"
    using s(1) by (auto simp: place_target_def Let_def member_key_def split: option.splits)
  have ih: "history_ok st'" "map pm_target ms' = ts" "set ms' \<subseteq> set (ps_history st')" "keeps_counters st1 st'"
    "\<exists>n. ps_loads st' = ps_loads st1 @ replicate n 0"
    "\<forall>x \<in> set (ps_history st1). member_key x \<notin> target_key ` set ts \<longrightarrow> x \<in> set (ps_history st')"
    using Cons.IH [OF one(1) _ s(2)] Cons.prems(2) by auto
  have "m \<in> set (ps_history st')" using ih(6) one(2) key Cons.prems(2) by auto
  moreover have "\<exists>n. ps_loads st' = ps_loads st @ replicate n 0"
  proof -
    obtain n where n: "ps_loads st' = ps_loads st1 @ replicate n 0" using ih(5) by blast
    have "ps_loads st' = ps_loads st @ replicate n 0 \<or> ps_loads st' = ps_loads st @ replicate (Suc n) 0"
      using place_target_counters [OF s(1)] n by auto
    then show ?thesis by blast
  qed
  ultimately show ?case using ih(1-4,6) key s(3) one(4) keeps_counters_trans [OF one(3) ih(4)] by auto
qed

lemma pool_replace_ok:
  assumes "history_ok st" "ps_members st = [] \<and> ts \<noteq> [] \<or> members_ok st"
  shows "pool_ok (snd (pool_replace st ts))" "keeps_counters st (snd (pool_replace st ts))"
    "\<exists>n. ps_loads (snd (pool_replace st ts)) = ps_loads st @ replicate n 0"
proof -
  have "pool_ok (snd (pool_replace st ts)) \<and> keeps_counters st (snd (pool_replace st ts))
    \<and> (\<exists>n. ps_loads (snd (pool_replace st ts)) = ps_loads st @ replicate n 0)"
  proof (cases "ts = []")
    case True
    then show ?thesis using assms
      by (auto simp: pool_replace_def pool_ok_def keeps_counters_refl members_ok_def intro: exI [of _ 0])
  next
    case False
    let ?ts = "unseen_targets [] ts"
    obtain ms st1 where p: "place_targets st ?ts = (ms, st1)" by force
    have d: "distinct (map target_key ?ts)" using unseen_targets_spec by blast
    note h = place_targets_history [OF assms(1) d p]
    have keys: "map member_key ms = map target_key ?ts"
      using h by (metis (mono_tags, lifting) list.map_comp comp_apply member_key_def map_cong)
    have ne: "ms \<noteq> []" using keys False unseen_targets_Nil by fastforce
    have "snd (pool_replace st ts) = st1\<lparr>ps_members := ms, ps_cursor := 0, ps_generation := ps_generation st1 + 1\<rparr>"
      using False p by (simp add: pool_replace_def unique_targets_def Let_def)
    then show ?thesis using h ne d keys by (auto simp: pool_ok_def history_ok_def members_ok_def keeps_counters_def)
  qed
  then show "pool_ok (snd (pool_replace st ts))" "keeps_counters st (snd (pool_replace st ts))"
    "\<exists>n. ps_loads (snd (pool_replace st ts)) = ps_loads st @ replicate n 0" by simp_all
qed

lemma leases_ok_replace:
  assumes "leases_ok st ls" "history_ok st" "keeps_counters st st'" "ps_loads st' = ps_loads st @ replicate n 0"
  shows "leases_ok st' ls"
proof -
  have bound: "tl_load l < length (ps_loads st)" if "l \<in> set ls" for l
    using assms(1,2) that unfolding leases_ok_def history_ok_def by metis
  have "ps_loads st' ! a = word_of_nat (length (filter (\<lambda>l. tl_load l = a) ls))" if "a < length (ps_loads st')" for a
  proof (cases "a < length (ps_loads st)")
    case True
    then show ?thesis using assms(1,4) by (simp add: leases_ok_def nth_append)
  next
    case False
    then have "filter (\<lambda>l. tl_load l = a) ls = []" using bound by (auto simp: filter_empty_conv)
    then show ?thesis using False that assms(4) by (simp add: nth_append)
  qed
  moreover have "\<exists>m \<in> set (ps_history st'). pm_load m = tl_load l \<and> pm_traffic m = tl_traffic l \<and> member_key m = target_key (tl_target l)"
    if "l \<in> set ls" for l
    using assms(1,3) that unfolding leases_ok_def keeps_counters_def by metis
  ultimately show ?thesis by (simp add: leases_ok_def)
qed

section \<open>Selection\<close>

lemma min_by_key_Some:
  "xs \<noteq> [] \<Longrightarrow> \<exists>x. min_by_key f xs = Some x \<and> x \<in> set xs \<and> (\<forall>y \<in> set xs. f x \<le> f y)"
proof (induction xs)
  case (Cons a xs)
  then show ?case by (cases xs) (auto split: option.splits intro: order.trans)
qed simp

lemma rotated_indices: "0 < n \<Longrightarrow> set (map (\<lambda>off. (c + off) mod n) [0..<n]) = {0..<n}"
proof -
  assume n: "0 < n"
  have "\<exists>off < n. (c + off) mod n = i" if "i < n" for i
  proof (intro exI conjI)
    let ?off = "(i + (n - c mod n)) mod n"
    show "?off < n" using n by simp
    have "(c + ?off) mod n = (c mod n + (i + (n - c mod n))) mod n" by (simp add: mod_simps)
    also have "c mod n + (i + (n - c mod n)) = i + n" using n mod_less_divisor [OF n, of c] by linarith
    finally show "(c + ?off) mod n = i" using that by simp
  qed
  then show ?thesis using n by (auto simp: image_iff) (metis atLeastLessThan_iff zero_le)
qed

definition selects :: "SelectionStrategy \<Rightarrow> PoolState \<Rightarrow> nat \<Rightarrow> bool" where
  "selects strategy st i = (let n = length (ps_members st); ping = \<lambda>j. pm_ping (ps_members st ! j);
       load = \<lambda>j. ps_loads st ! pm_load (ps_members st ! j) in
     i < n \<and> (case strategy of
       RoundRobin \<Rightarrow> i = ps_cursor st
     | Random \<Rightarrow> True
     | LeastPing \<Rightarrow> (if \<forall>j < n. ping j = None then i = ps_cursor st
         else \<exists>p. ping i = Some p \<and> (\<forall>j < n. \<forall>q. ping j = Some q \<longrightarrow> p \<le> q))
     | LeastLoad \<Rightarrow> (\<forall>j < n. load i \<le> load j)))"

lemma least_ping_selects:
  assumes "members_ok st" "select_index LeastPing st = Ok (Some (i, r))"
  shows "selects LeastPing st i"
proof -
  let ?n = "length (ps_members st)"
  let ?ps = "List.map_filter (\<lambda>i. map_option (\<lambda>p. (i, p)) (pm_ping (ps_members st ! i))) [0..<?n]"
  have n: "0 < ?n" "ps_cursor st < ?n" using assms(1) by (auto simp: members_ok_def)
  have i: "i = (case min_by_key snd ?ps of Some (i, _) \<Rightarrow> i | None \<Rightarrow> ps_cursor st mod ?n)"
    using assms(2) n by (auto simp: select_index_def Let_def)
  have mem: "(j, p) \<in> set ?ps \<longleftrightarrow> j < ?n \<and> pm_ping (ps_members st ! j) = Some p" for j p
    by (auto simp: List.map_filter_def image_iff)
  show ?thesis
  proof (cases "?ps = []")
    case True
    then have "\<forall>j < ?n. pm_ping (ps_members st ! j) = None" using mem by (metis empty_iff list.set(1) not_Some_eq)
    then show ?thesis using i n True by (simp add: selects_def Let_def)
  next
    case False
    obtain j p where jp: "min_by_key snd ?ps = Some (j, p)" "(j, p) \<in> set ?ps" "\<forall>y \<in> set ?ps. p \<le> snd y"
      using min_by_key_Some [OF False, of snd] by auto
    then have "i = j" using i by simp
    then show ?thesis using jp mem unfolding selects_def Let_def by fastforce
  qed
qed

lemma least_load_selects:
  assumes "members_ok st" "select_index LeastLoad st = Ok (Some (i, r))"
  shows "selects LeastLoad st i"
proof -
  let ?n = "length (ps_members st)" and ?f = "\<lambda>i. ps_loads st ! pm_load (ps_members st ! i)"
  let ?is = "map (\<lambda>off. (ps_cursor st mod ?n + off) mod ?n) [0..<?n]"
  have n: "0 < ?n" using assms(1) by (auto simp: members_ok_def)
  then have "?is \<noteq> []" by simp
  from min_by_key_Some [OF this, of ?f] obtain j where j: "min_by_key ?f ?is = Some j" "j \<in> set ?is" "\<forall>y \<in> set ?is. ?f j \<le> ?f y"
    by blast
  have "i = j" using assms(2) n j(1) by (auto simp: select_index_def Let_def)
  moreover have "set ?is = {0..<?n}" using rotated_indices [OF n] .
  ultimately show ?thesis using j(2,3) by (auto simp: selects_def Let_def)
qed

lemma select_index_spec:
  assumes "members_ok st" "length (ps_members st) < 2 ^ 64"
  shows "\<exists>i r. select_index strategy st = Ok (Some (i, r)) \<and> selects strategy st i"
proof -
  have n: "0 < length (ps_members st)" "ps_cursor st < length (ps_members st)" using assms(1) by (auto simp: members_ok_def)
  show ?thesis
  proof (cases strategy)
    case Random
    then show ?thesis using random_index_ends [OF n(1) assms(2), of "ps_random st"] n
      by (auto simp: select_index_def Let_def selects_def)
  next
    case RoundRobin
    then show ?thesis using n by (auto simp: select_index_def Let_def selects_def)
  next
    case LeastPing
    then show ?thesis using least_ping_selects [OF assms(1)] n by (auto simp: select_index_def Let_def)
  next
    case LeastLoad
    then show ?thesis using least_load_selects [OF assms(1)] n by (auto simp: select_index_def Let_def)
  qed
qed

lemma pool_acquire_spec:
  assumes "members_ok st" "length (ps_members st) < 2 ^ 64"
  shows "\<exists>i r. selects strategy st i \<and> pool_acquire strategy st = Ok (Some (lease_of (ps_members st ! i),
     st\<lparr>ps_random := r, ps_cursor := (i + 1) mod length (ps_members st),
        ps_loads := (ps_loads st)[pm_load (ps_members st ! i) := ps_loads st ! pm_load (ps_members st ! i) + 1]\<rparr>))"
  using select_index_spec [OF assms] by (fastforce simp: pool_acquire_def Let_def)

section \<open>Runs\<close>

text \<open>The states a pool can be in, with the leases alive in them.\<close>

inductive pool_run :: "SelectionStrategy \<Rightarrow> PoolState \<Rightarrow> TargetLease list \<Rightarrow> bool" for strategy where
  pr_new: "pool_new seed ts = Some st \<Longrightarrow> pool_run strategy st []"
| pr_replace: "pool_run strategy st ls \<Longrightarrow> pool_run strategy (snd (pool_replace st ts)) ls"
| pr_acquire: "pool_run strategy st ls \<Longrightarrow> pool_acquire strategy st = Ok (Some (l, st')) \<Longrightarrow> pool_run strategy st' (l # ls)"
| pr_release: "pool_run strategy st (ls1 @ l # ls2) \<Longrightarrow> pool_run strategy (lease_drop l st) (ls1 @ ls2)"
| pr_ping: "pool_run strategy st ls \<Longrightarrow> update_ping g t p st = Ok st' \<Longrightarrow> pool_run strategy st' ls"

lemma member_bound: "history_ok st \<Longrightarrow> m \<in> set (ps_history st) \<Longrightarrow> pm_load m < length (ps_loads st)"
  by (simp add: history_ok_def)

lemma history_key_inj:
  assumes "history_ok st" "m \<in> set (ps_history st)" "m' \<in> set (ps_history st)" "member_key m = member_key m'"
  shows "m = m'"
  using assms history_keys [OF assms(1)] by (metis in_set_conv_nth)

lemma history_load_inj:
  assumes "history_ok st" "m \<in> set (ps_history st)" "m' \<in> set (ps_history st)" "pm_load m = pm_load m'"
  shows "m = m'"
  using assms by (auto simp: history_ok_def distinct_map inj_on_def)

lemma member_load:
  assumes "history_ok st" "members_ok st" "i < length (ps_members st)" "j < length (ps_members st)"
  shows "pm_load (ps_members st ! i) < length (ps_loads st)"
    "pm_load (ps_members st ! j) = pm_load (ps_members st ! i) \<longleftrightarrow> j = i"
proof -
  have mem: "ps_members st ! i \<in> set (ps_history st)" "ps_members st ! j \<in> set (ps_history st)"
    using assms(2-4) nth_mem by (auto simp: members_ok_def)
  show "pm_load (ps_members st ! i) < length (ps_loads st)" using member_bound [OF assms(1) mem(1)] .
  have "j = i" if "pm_load (ps_members st ! j) = pm_load (ps_members st ! i)"
    using history_load_inj [OF assms(1) mem(2,1) that] assms(2-4)
    by (metis members_ok_def nth_eq_iff_index_eq nth_map distinct_conv_nth length_map)
  then show "pm_load (ps_members st ! j) = pm_load (ps_members st ! i) \<longleftrightarrow> j = i" by blast
qed

text \<open>Ping updates find the member's copy in the history.\<close>

lemma update_ping_cases:
  assumes "history_ok st" "members_ok st"
  obtains "update_ping g t p st = Ok st"
  | i j m where "update_ping g t p st = Ok (st\<lparr>ps_members := (ps_members st)[j := set_ping p m], ps_history := (ps_history st)[i := set_ping p m]\<rparr>)"
      "j < length (ps_members st)" "i < length (ps_history st)" "ps_members st ! j = m" "ps_history st ! i = m"
proof (cases "ps_generation st = g \<and> find (\<lambda>i. member_key (ps_members st ! i) = target_key t) [0..<length (ps_members st)] \<noteq> None")
  case True
  then obtain j where j: "find (\<lambda>i. member_key (ps_members st ! i) = target_key t) [0..<length (ps_members st)] = Some j" by auto
  then have jk: "j < length (ps_members st)" "member_key (ps_members st ! j) = target_key t"
    by (auto simp: find_Some_iff)
  then have "ps_members st ! j \<in> set (ps_history st)" using assms(2) nth_mem by (auto simp: members_ok_def)
  then obtain i where i: "i < length (ps_history st)" "ps_history st ! i = ps_members st ! j" by (metis in_set_conv_nth)
  then have "map_of (ps_history_indices st) (target_key t) = Some i" using assms(1) jk(2) unfolding history_ok_def by metis
  then show ?thesis using that(2) [where i = i and j = j and m = "ps_members st ! j"] True j jk i by (simp add: update_ping_def index_at_def)
next
  case False
  then show ?thesis using that(1) by (auto simp: update_ping_def split: option.splits)
qed

lemma update_ping_total: "history_ok st \<Longrightarrow> members_ok st \<Longrightarrow> \<exists>st'. update_ping g t p st = Ok st'"
  by (erule (1) update_ping_cases [of _ g t p]) auto

lemma set_ping_simps [simp]: "member_key (set_ping p m) = member_key m" "pm_load (set_ping p m) = pm_load m"
  "pm_traffic (set_ping p m) = pm_traffic m"
  by (simp_all add: set_ping_def member_key_def)

lemma update_ping_ok:
  assumes "history_ok st" "members_ok st" "update_ping g t p st = Ok st'"
  shows "pool_ok st' \<and> keeps_counters st st' \<and> ps_loads st' = ps_loads st"
  using assms(1,2)
proof (cases rule: update_ping_cases [of st g t p])
  case 1
  then show ?thesis using assms by (simp add: pool_ok_def keeps_counters_refl)
next
  case (2 i j m)
  let ?m = "set_ping p m" and ?ms = "ps_members st" and ?hs = "ps_history st"
  have st': "st' = st\<lparr>ps_members := ?ms[j := ?m], ps_history := ?hs[i := ?m]\<rparr>" using 2(1) assms(3) by simp
  have same: "map pm_load (?hs[i := ?m]) = map pm_load ?hs" "map pm_traffic (?hs[i := ?m]) = map pm_traffic ?hs"
    "map member_key (?hs[i := ?m]) = map member_key ?hs" "map member_key (?ms[j := ?m]) = map member_key ?ms"
    using 2 by (simp_all add: list_update_map_same)
  have nthkey: "member_key (?hs[i := ?m] ! k) = member_key (?hs ! k)" if "k < length ?hs" for k
    using same(3) that by (metis length_list_update nth_map)
  have "m \<in> set ?hs" using 2(3,5) nth_mem by blast
  then have "pm_load x < length (ps_loads st) \<and> pm_traffic x < length (ps_traffic st)" if "x \<in> set (?hs[i := ?m])" for x
    using set_update_subset_insert [of ?hs i ?m] that assms(1) by (auto simp: history_ok_def)
  then have h: "history_ok st'" using assms(1) nthkey unfolding history_ok_def st' by (auto simp: same)
  have other: "x = m \<or> x \<in> set (?hs[i := ?m])" if "x \<in> set ?hs" for x
    using that 2(5) by (metis in_set_conv_nth length_list_update nth_list_update_neq)
  have new: "?m \<in> set (?hs[i := ?m])" using 2(3) by (rule set_update_memI)
  have "x \<in> set (?hs[i := ?m])" if x: "x \<in> set (?ms[j := ?m])" for x
  proof -
    obtain k where k: "k < length ?ms" "x = ?ms[j := ?m] ! k" using x by (metis in_set_conv_nth length_list_update)
    show ?thesis
    proof (cases "k = j")
      case True
      then show ?thesis using k 2(2) new by simp
    next
      case False
      then have "?ms ! k \<noteq> ?ms ! j" using assms(2) k(1) 2(2)
        by (metis members_ok_def distinct_map nth_eq_iff_index_eq)
      then show ?thesis using False k 2(4) other [of x] assms(2) nth_mem by (auto simp: members_ok_def)
    qed
  qed
  then have "members_ok st'" using assms(2) by (auto simp: members_ok_def st' same(4))
  moreover have "keeps_counters st st'" using other new unfolding keeps_counters_def st'
    by (auto intro: bexI [of _ ?m]) (metis set_ping_simps)
  ultimately show ?thesis using h by (simp add: pool_ok_def st')
qed

lemma random_index_loop_bound:
  assumes "random_index_loop b t s = Some r" "b \<noteq> 0"
  shows "fst r < unat b"
proof -
  have "b \<noteq> 0 \<longrightarrow> fst r < unat b"
    using assms(1)
  proof (rule random_index_loop.raw_induct [rotated])
    fix loop b t s and y :: "nat \<times> u64"
    assume ih: "\<And>b t s y. loop b t s = Some y \<Longrightarrow> b \<noteq> 0 \<longrightarrow> fst y < unat b"
      and "(let (z, state) = next_u64 s in if t \<le> z then Some (unat (z mod b), state) else loop b t state) = Some y"
    then show "b \<noteq> 0 \<longrightarrow> fst y < unat b"
      by (auto simp: Let_def unat_mod_distrib unat_gt_0 split: prod.splits if_splits)
  qed
  then show ?thesis using assms(2) by simp
qed

lemma random_index_bound: "random_index s n = Ok (Some (i, s')) \<Longrightarrow> i < n"
proof -
  assume "random_index s n = Ok (Some (i, s'))"
  then have "i < unat (word_of_nat n :: u64)"
    using random_index_loop_bound by (fastforce simp: random_index_def Let_def split: if_splits)
  also have "\<dots> \<le> n" by (simp add: unat_of_nat)
  finally show "i < n" .
qed

lemma acquire_index:
  assumes "members_ok st" "pool_acquire strategy st = Ok (Some (l, st'))"
  shows "\<exists>i r. l = lease_of (ps_members st ! i) \<and> i < length (ps_members st)
    \<and> st' = st\<lparr>ps_random := r, ps_cursor := (i + 1) mod length (ps_members st),
        ps_loads := (ps_loads st)[pm_load (ps_members st ! i) := ps_loads st ! pm_load (ps_members st ! i) + 1]\<rparr>"
proof -
  obtain i r where i: "select_index strategy st = Ok (Some (i, r))" "l = lease_of (ps_members st ! i)"
    "st' = st\<lparr>ps_random := r, ps_cursor := (i + 1) mod length (ps_members st),
        ps_loads := (ps_loads st)[pm_load (ps_members st ! i) := ps_loads st ! pm_load (ps_members st ! i) + 1]\<rparr>"
    using assms(2) by (auto simp: pool_acquire_def Let_def split: res.splits option.splits)
  have n: "0 < length (ps_members st)" "ps_cursor st < length (ps_members st)" using assms(1) by (auto simp: members_ok_def)
  have "i < length (ps_members st)"
  proof (cases strategy)
    case Random
    then show ?thesis using i(1) random_index_bound by (auto simp: select_index_def Let_def split: if_splits)
  next
    case RoundRobin
    then show ?thesis using i(1) n by (auto simp: select_index_def Let_def)
  next
    case LeastPing
    then show ?thesis using least_ping_selects [OF assms(1)] i(1) by (auto simp: selects_def Let_def)
  next
    case LeastLoad
    then show ?thesis using least_load_selects [OF assms(1)] i(1) by (auto simp: selects_def Let_def)
  qed
  then show ?thesis using i by blast
qed

lemma pool_run_ok: "pool_run strategy st ls \<Longrightarrow> pool_ok st"
proof (induction rule: pool_run.induct)
  case (pr_new seed ts st)
  have "history_ok (empty_pool seed)" by (simp add: history_ok_def empty_pool_def)
  then show ?case using pr_new pool_replace_ok(1) [of "empty_pool seed" ts]
    by (auto simp: pool_new_def empty_pool_def split: if_splits)
next
  case (pr_replace st ls ts)
  then show ?case using pool_replace_ok(1) [of st ts] by (simp add: pool_ok_def)
next
  case (pr_acquire st ls l st')
  then obtain i r where "i < length (ps_members st)"
    "st' = st\<lparr>ps_random := r, ps_cursor := (i + 1) mod length (ps_members st),
        ps_loads := (ps_loads st)[pm_load (ps_members st ! i) := ps_loads st ! pm_load (ps_members st ! i) + 1]\<rparr>"
    using acquire_index [OF _ pr_acquire.hyps(2)] by (auto simp: pool_ok_def)
  then show ?case using pr_acquire.IH by (auto simp: pool_ok_def history_ok_def members_ok_def)
next
  case (pr_release st ls1 l ls2)
  then show ?case by (simp add: pool_ok_def history_ok_def members_ok_def lease_drop_def)
next
  case (pr_ping st ls g t p st')
  then show ?case using update_ping_ok unfolding pool_ok_def by blast
qed

text \<open>The leases under each step.\<close>

lemma leases_load_bound: "history_ok st \<Longrightarrow> leases_ok st ls \<Longrightarrow> l \<in> set ls \<Longrightarrow> tl_load l < length (ps_loads st)"
  unfolding leases_ok_def history_ok_def by metis

lemma leases_ok_update:
  assumes "leases_ok st ls" "ps_history st' = ps_history st" "\<And>l. l \<in> set ls' \<Longrightarrow> l \<in> set ls \<or> (\<exists>m \<in> set (ps_history st). l = lease_of m)"
    and "length (ps_loads st') = length (ps_loads st)"
    and "\<And>a. a < length (ps_loads st) \<Longrightarrow> ps_loads st' ! a = word_of_nat (length (filter (\<lambda>l. tl_load l = a) ls'))"
  shows "leases_ok st' ls'"
proof -
  have "\<exists>m \<in> set (ps_history st). pm_load m = tl_load l \<and> pm_traffic m = tl_traffic l \<and> member_key m = target_key (tl_target l)"
    if "l \<in> set ls'" for l
    using assms(1) assms(3) [OF that] by (auto simp: leases_ok_def lease_of_def member_key_def)
  then show ?thesis using assms(2,4,5) by (simp add: leases_ok_def)
qed

lemma acquire_leases:
  assumes "history_ok st" "members_ok st" "leases_ok st ls" "pool_acquire strategy st = Ok (Some (l, st'))" "i < length (ps_members st)"
    and "l = lease_of (ps_members st ! i)"
    and "st' = st\<lparr>ps_random := r, ps_cursor := cur,
        ps_loads := (ps_loads st)[pm_load (ps_members st ! i) := ps_loads st ! pm_load (ps_members st ! i) + 1]\<rparr>"
  shows "leases_ok st' (l # ls)"
proof (rule leases_ok_update [OF assms(3)])
  have mem: "ps_members st ! i \<in> set (ps_history st)" using assms(2,5) nth_mem by (auto simp: members_ok_def)
  show "x \<in> set ls \<or> (\<exists>m \<in> set (ps_history st). x = lease_of m)" if "x \<in> set (l # ls)" for x
    using that mem assms(6) by auto
  show "ps_loads st' ! a = word_of_nat (length (filter (\<lambda>l. tl_load l = a) (l # ls)))" if "a < length (ps_loads st)" for a
    using that assms(3,6,7) member_bound [OF assms(1) mem] by (auto simp: leases_ok_def lease_of_def nth_list_update)
qed (simp_all add: assms(7))

lemma pool_run_leases: "pool_run strategy st ls \<Longrightarrow> leases_ok st ls"
proof (induction rule: pool_run.induct)
  case (pr_new seed ts st)
  have "history_ok (empty_pool seed)" by (simp add: history_ok_def empty_pool_def)
  from pool_replace_ok(2,3) [OF this, of ts] obtain n where "keeps_counters (empty_pool seed) st"
    "ps_loads st = ps_loads (empty_pool seed) @ replicate n 0"
    using pr_new by (auto simp: pool_new_def empty_pool_def split: if_splits)
  moreover have "leases_ok (empty_pool seed) []" by (simp add: leases_ok_def empty_pool_def)
  ultimately show ?case using leases_ok_replace \<open>history_ok (empty_pool seed)\<close> by blast
next
  case (pr_replace st ls ts)
  have "history_ok st" "members_ok st" using pool_run_ok [OF pr_replace.hyps] by (simp_all add: pool_ok_def)
  then show ?case using pool_replace_ok(2,3) [of st ts] leases_ok_replace [OF pr_replace.IH] by blast
next
  case (pr_acquire st ls l st')
  have ok: "history_ok st" "members_ok st" using pool_run_ok [OF pr_acquire.hyps(1)] by (simp_all add: pool_ok_def)
  obtain i r where "l = lease_of (ps_members st ! i)" "i < length (ps_members st)"
    "st' = st\<lparr>ps_random := r, ps_cursor := (i + 1) mod length (ps_members st),
        ps_loads := (ps_loads st)[pm_load (ps_members st ! i) := ps_loads st ! pm_load (ps_members st ! i) + 1]\<rparr>"
    using acquire_index [OF ok(2) pr_acquire.hyps(2)] by blast
  then show ?case using acquire_leases [OF ok pr_acquire.IH pr_acquire.hyps(2)] by blast
next
  case (pr_release st ls1 l ls2)
  have h: "history_ok st" using pool_run_ok [OF pr_release.hyps] by (simp add: pool_ok_def)
  have "tl_load l < length (ps_loads st)" using leases_load_bound [OF h pr_release.IH, of l] by simp
  then show ?case using pr_release.IH
    by (intro leases_ok_update [OF pr_release.IH]) (auto simp: lease_drop_def leases_ok_def nth_list_update)
next
  case (pr_ping st ls g t p st')
  have "history_ok st" "members_ok st" using pool_run_ok [OF pr_ping.hyps(1)] by (simp_all add: pool_ok_def)
  then show ?case using update_ping_ok [OF _ _ pr_ping.hyps(2)] leases_ok_replace [OF pr_ping.IH, of st' 0] by simp
qed

lemma lease_member: "leases_ok st ls \<Longrightarrow> l \<in> set ls \<Longrightarrow>
    \<exists>m. m \<in> set (ps_history st) \<and> pm_load m = tl_load l \<and> member_key m = target_key (tl_target l)"
  by (auto simp: leases_ok_def)

text \<open>Counting by counter and counting by key agree.\<close>

lemma load_by_key:
  assumes "history_ok st" "leases_ok st ls" "m \<in> set (ps_history st)"
  shows "ps_loads st ! pm_load m = word_of_nat (length (filter (\<lambda>l. target_key (tl_target l) = member_key m) ls))"
proof -
  have "tl_load l = pm_load m \<longleftrightarrow> target_key (tl_target l) = member_key m" if l: "l \<in> set ls" for l
  proof -
    obtain m' where "m' \<in> set (ps_history st)" "pm_load m' = tl_load l" "member_key m' = target_key (tl_target l)"
      using lease_member [OF assms(2) l] by blast
    moreover from this have "tl_load l = pm_load m \<Longrightarrow> m' = m" "target_key (tl_target l) = member_key m \<Longrightarrow> m' = m"
      using history_load_inj [OF assms(1) _ assms(3), of m'] history_key_inj [OF assms(1) _ assms(3), of m'] by simp_all
    ultimately show ?thesis by auto
  qed
  then have "filter (\<lambda>l. tl_load l = pm_load m) ls = filter (\<lambda>l. target_key (tl_target l) = member_key m) ls"
    by (rule filter_cong [OF refl])
  then show ?thesis using assms(2) member_bound [OF assms(1,3)] by (simp add: leases_ok_def)
qed

lemma sum_partition:
  "distinct as \<Longrightarrow> f ` set ls \<subseteq> set as \<Longrightarrow> (\<Sum>a\<leftarrow>as. length (filter (\<lambda>l. f l = a) ls)) = length ls"
proof (induction ls)
  case (Cons l ls)
  have "(\<Sum>a\<leftarrow>as. length (filter (\<lambda>x. f x = a) (l # ls)))
      = (\<Sum>a\<leftarrow>as. (if a = f l then 1 else 0) + length (filter (\<lambda>x. f x = a) ls))"
    by (rule arg_cong [of _ _ sum_list], rule map_cong) auto
  also have "\<dots> = (\<Sum>a\<leftarrow>as. if a = f l then 1 else 0) + length ls"
    using Cons by (simp add: sum_list_addf)
  also have "(\<Sum>a\<leftarrow>as. if a = f l then 1 else 0) = (1 :: nat)"
    using Cons.prems by (simp add: sum_list_distinct_conv_sum_set)
  finally show ?case by simp
qed simp

lemma active_connections_count:
  assumes "history_ok st" "leases_ok st ls"
  shows "active_connections st = word_of_nat (length ls)"
proof -
  let ?as = "map pm_load (ps_history st)"
  have "distinct ?as" using assms(1) by (simp add: history_ok_def)
  moreover have "tl_load ` set ls \<subseteq> set ?as" using assms(2) by (auto simp: leases_ok_def) (metis image_eqI)
  ultimately have sum: "(\<Sum>a\<leftarrow>?as. length (filter (\<lambda>l. tl_load l = a) ls)) = length ls" by (rule sum_partition)
  have "active_connections st = (\<Sum>m\<leftarrow>ps_history st. word_of_nat (length (filter (\<lambda>l. tl_load l = pm_load m) ls)))"
    unfolding active_connections_def using assms(2) member_bound [OF assms(1)]
    by (intro arg_cong [of _ _ sum_list] map_cong refl) (simp add: leases_ok_def)
  also have "\<dots> = word_of_nat (\<Sum>a\<leftarrow>?as. length (filter (\<lambda>l. tl_load l = a) ls))"
    by (simp add: sum_list_of_nat [symmetric] comp_def)
  finally show ?thesis by (simp only: sum)
qed

text \<open>
  What a lease gets. On a pool as the operations leave it every strategy returns a lease, and the lease is of a
  member the strategy asks for: the one at the cursor for round robin, one with the least measured ping for least\_ping (the one at the
  cursor when nothing is measured), one with the fewest live connections for least\_load; the member's counter goes up by one, the counters
  of all other members stay, and the cursor moves behind the member.
\<close>

theorem acquire_selects_by_strategy:
  assumes "pool_run strategy st ls" "length (ps_members st) < 2 ^ 64"
  shows "\<exists>i l st'. pool_acquire strategy st = Ok (Some (l, st')) \<and> selects strategy st i \<and> l = lease_of (ps_members st ! i)
    \<and> ps_cursor st' = (i + 1) mod length (ps_members st) \<and> ps_members st' = ps_members st
    \<and> (\<forall>j < length (ps_members st). ps_loads st' ! pm_load (ps_members st ! j)
         = ps_loads st ! pm_load (ps_members st ! j) + (if j = i then 1 else 0))"
proof -
  have ok: "history_ok st" "members_ok st" using pool_run_ok [OF assms(1)] by (simp_all add: pool_ok_def)
  obtain i r where i: "selects strategy st i" "pool_acquire strategy st = Ok (Some (lease_of (ps_members st ! i),
     st\<lparr>ps_random := r, ps_cursor := (i + 1) mod length (ps_members st),
        ps_loads := (ps_loads st)[pm_load (ps_members st ! i) := ps_loads st ! pm_load (ps_members st ! i) + 1]\<rparr>))"
    using pool_acquire_spec [OF ok(2) assms(2)] by blast
  have lt: "i < length (ps_members st)" using i(1) by (simp add: selects_def Let_def)
  have "(ps_loads st)[pm_load (ps_members st ! i) := ps_loads st ! pm_load (ps_members st ! i) + 1] ! pm_load (ps_members st ! j)
      = ps_loads st ! pm_load (ps_members st ! j) + (if j = i then 1 else 0)" if "j < length (ps_members st)" for j
    using member_load [OF ok] that lt by (auto simp: nth_list_update)
  then show ?thesis using i by auto
qed

text \<open>
  C33. Connection counts survive everything. Under any sequence of rescans that replace the members, acquisitions, releases and ping updates
  the pool stays nonempty with one member per target and the cursor inside it, a ping update never panics, the counter shown for a target is the
  number of its live leases, also for targets that were removed and added again while leases on them lived, and the number of active
  connections is the number of live leases.
\<close>

theorem pool_counts_live_leases:
  assumes "pool_run strategy st ls"
  shows "ps_members st \<noteq> [] \<and> distinct (map member_key (ps_members st)) \<and> ps_cursor st < length (ps_members st)
    \<and> update_ping g t p st \<noteq> Panic
    \<and> (\<forall>m \<in> set (ps_members st) \<union> set (ps_history st).
         ps_loads st ! pm_load m = word_of_nat (length (filter (\<lambda>l. target_key (tl_target l) = member_key m) ls)))
    \<and> active_connections st = word_of_nat (length ls)"
proof -
  have ok: "history_ok st" "members_ok st" and ls: "leases_ok st ls"
    using pool_run_ok [OF assms] pool_run_leases [OF assms] by (simp_all add: pool_ok_def)
  have "ps_loads st ! pm_load m = word_of_nat (length (filter (\<lambda>l. target_key (tl_target l) = member_key m) ls))"
    if "m \<in> set (ps_members st) \<union> set (ps_history st)" for m
    using load_by_key [OF ok(1) ls] that ok(2) by (auto simp: members_ok_def)
  moreover have "update_ping g t p st \<noteq> Panic" using update_ping_total [OF ok] by (metis res.distinct(1))
  ultimately show ?thesis using ok(2) active_connections_count [OF ok(1) ls] by (auto simp: members_ok_def)
qed


text \<open>A pool of two targets with one lease.\<close>

definition sample_targets :: "Target list" where
  "sample_targets = [target_of_ip (V4 1) 90, target_of_ip (V4 2) 80]"

definition sample_pool :: PoolState where
  "sample_pool = snd (pool_replace (empty_pool 7) sample_targets)"

lemma sample_pool_run: "pool_run RoundRobin sample_pool []"
  by (rule pr_new [of 7 sample_targets]) (simp add: pool_new_def sample_pool_def sample_targets_def)

lemma sample_pool_members: "map (tg_ip \<circ> pm_target) (ps_members sample_pool) = [V4 1, V4 2]" "ps_cursor sample_pool = 0"
  by (simp_all add: sample_pool_def sample_targets_def pool_replace_def empty_pool_def unique_targets_def target_of_ip_def
      target_key_def place_target_def Let_def)

lemma acquire_selects_by_strategy_witness:
  "\<exists>l st'. pool_acquire RoundRobin sample_pool = Ok (Some (l, st')) \<and> tg_ip (tl_target l) = V4 1"
proof -
  have n: "length (ps_members sample_pool) = 2" using arg_cong [OF sample_pool_members(1), of length] by simp
  then have ip: "tg_ip (pm_target (ps_members sample_pool ! 0)) = V4 1"
    using arg_cong [OF sample_pool_members(1), of "\<lambda>xs. xs ! 0"] by simp
  show ?thesis using acquire_selects_by_strategy [OF sample_pool_run] n ip sample_pool_members(2)
    by (auto simp: selects_def lease_of_def)
qed

lemma pool_counts_live_leases_witness:
  "\<exists>l st'. pool_acquire RoundRobin sample_pool = Ok (Some (l, st')) \<and> active_connections st' = 1 \<and> ps_cursor st' < length (ps_members st')"
proof -
  have "members_ok sample_pool" using pool_run_ok [OF sample_pool_run] by (simp add: pool_ok_def)
  then obtain l st' where l: "pool_acquire RoundRobin sample_pool = Ok (Some (l, st'))"
    by (auto simp: pool_acquire_def select_index_def members_ok_def Let_def)
  from pool_counts_live_leases [OF pr_acquire [OF sample_pool_run l]] show ?thesis using l by auto
qed

end
