(* ===== verification/Low_Ttl.thy ===== *)
theory Low_Ttl
  imports Target_Pool Flow
begin

text \<open>
  Discovery of the TTL of the decoy: src/crates/zerodpi-core/src/low\_ttl\_discover.rs and the admission of pool members by
  src/crates/zerodpi/src/target\_selection.rs. What the network answers a probe, and what the interceptor does to the flows meanwhile, is in the
  record \<open>ProbeAnswers\<close>.
\<close>

section \<open>Scanning\<close>

text \<open>\<^verbatim>\<open>scan_ttl\<close> over a probe with state; \<open>None\<close> for the last success is the loop without any yet.\<close>

fun scan_loop :: "('s \<Rightarrow> u8 \<Rightarrow> 's \<times> bool) \<Rightarrow> u8 option \<Rightarrow> bool \<Rightarrow> u8 list \<Rightarrow> 's \<Rightarrow> 's \<times> u8 option" where
  "scan_loop probe last_success any_success [] s = (s, last_success)"
| "scan_loop probe last_success any_success (ttl # ttls) s = (case probe s ttl of
     (s', True) \<Rightarrow> scan_loop probe (Some ttl) True ttls s'
   | (s', False) \<Rightarrow> if any_success then (s', last_success) else scan_loop probe last_success any_success ttls s')"

definition ttl_candidates :: "u8 \<Rightarrow> u8 list" where
  "ttl_candidates max_ttl = map word_of_nat [1..<Suc (unat max_ttl)]"

definition scan_ttl :: "u8 \<Rightarrow> ('s \<Rightarrow> u8 \<Rightarrow> 's \<times> bool) \<Rightarrow> 's \<Rightarrow> 's \<times> u8 option" where
  "scan_ttl max_ttl probe s = scan_loop probe None False (ttl_candidates max_ttl) s"

section \<open>One probe\<close>

text \<open>
  \<open>pa_port\<close> is the port of the bound socket, if it could be bound. The functions are the work of the interceptor and of other connections on the flow
  table while the probe connects, waits for the bypass and shakes hands.
\<close>

record ProbeAnswers =
  pa_port :: "u16 option"
  pa_connecting :: "FlowStore \<Rightarrow> FlowStore"
  pa_connects :: bool
  pa_waiting :: "FlowStore \<Rightarrow> FlowStore"
  pa_shaking :: "FlowStore \<Rightarrow> FlowStore"
  pa_handshake :: bool

definition bypass_progress :: "FlowEntry \<Rightarrow> bool" where
  "bypass_progress e = (outcome (fe_state e) \<noteq> None \<or> waiting_for_data (fe_state e))"

definition register_probe_flow :: "FlowStore \<Rightarrow> FlowKey \<Rightarrow> bytes \<Rightarrow> u8 option \<Rightarrow> FlowError + (nat \<times> FlowStore)" where
  "register_probe_flow s key data ttl = (if flow_exists s key then Inl (AlreadyRegistered key) else register_flow s key data ttl)"

definition probe_key :: "ipv4 \<Rightarrow> ipv4 \<Rightarrow> u16 \<Rightarrow> FlowKey" where
  "probe_key local_ip connect_ip port = \<lparr>fk_src_ip = local_ip, fk_src_port = port, fk_dst_ip = connect_ip, fk_dst_port = 443\<rparr>"

definition probe_ttl :: "bytes \<Rightarrow> ipv4 \<Rightarrow> ipv4 \<Rightarrow> (u8 \<Rightarrow> ProbeAnswers) \<Rightarrow> FlowStore \<Rightarrow> u8 \<Rightarrow> FlowStore \<times> bool" where
  "probe_ttl data local_ip connect_ip answers s ttl = (let a = answers ttl in case pa_port a of None \<Rightarrow> (s, False)
   | Some port \<Rightarrow> (let key = probe_key local_ip connect_ip port in
       case register_probe_flow s key data (Some ttl) of Inl _ \<Rightarrow> (s, False)
       | Inr (i, s1) \<Rightarrow> (let s2 = pa_connecting a s1 in
           if \<not> pa_connects a then (remove_flow s2 key, False)
           else (let s3 = pa_waiting a s2 in
             if \<not> bypass_progress (fl_heap s3 ! i) then (remove_flow s3 key, False)
             else (remove_flow (pa_shaking a s3) key, pa_handshake a)))))"

text \<open>\<open>valid_name\<close> is \<^verbatim>\<open>ServerName::try_from\<close>, and \<open>data\<close> the decoy ClientHello for the name.\<close>

definition discover_low_ttl :: "(string \<Rightarrow> bool) \<Rightarrow> u8 \<Rightarrow> string \<Rightarrow> bytes \<Rightarrow> ipv4 \<Rightarrow> ipv4 \<Rightarrow> (u8 \<Rightarrow> ProbeAnswers) \<Rightarrow> FlowStore \<Rightarrow> FlowStore \<times> u8 option" where
  "discover_low_ttl valid_name max_ttl sni data local_ip connect_ip answers s = (if \<not> valid_name sni then (s, None)
     else scan_ttl max_ttl (probe_ttl data local_ip connect_ip answers) s)"

section \<open>Admission to the pool\<close>

definition admit :: "Target list \<Rightarrow> u8 option \<Rightarrow> u8 option \<Rightarrow> Target \<Rightarrow> Target option" where
  "admit previous startup_fallback found t = (case found of Some ttl \<Rightarrow> Some (t\<lparr>tg_low_ttl := Some ttl\<rparr>)
   | None \<Rightarrow> (case find (\<lambda>old. tg_ip old = tg_ip t \<and> tg_sni old = tg_sni t) previous of Some old \<Rightarrow> Some (t\<lparr>tg_low_ttl := tg_low_ttl old\<rparr>)
     | None \<Rightarrow> (case startup_fallback of Some ttl \<Rightarrow> Some (t\<lparr>tg_low_ttl := Some ttl\<rparr>) | None \<Rightarrow> None)))"

fun discover_pool_ttls :: "('s \<Rightarrow> Target \<Rightarrow> 's \<times> u8 option) \<Rightarrow> Target list \<Rightarrow> Target list \<Rightarrow> u8 option \<Rightarrow> 's \<Rightarrow> 's \<times> Target list" where
  "discover_pool_ttls discover [] previous startup_fallback s = (s, [])"
| "discover_pool_ttls discover (t # ts) previous startup_fallback s = (case discover s t of (s1, found) \<Rightarrow>
     (case discover_pool_ttls discover ts previous startup_fallback s1 of (s2, rest) \<Rightarrow>
       (s2, (case admit previous startup_fallback found t of Some t' \<Rightarrow> t' # rest | None \<Rightarrow> rest))))"

section \<open>What the scan finds\<close>

lemma unat_word_u8: "n < 256 \<Longrightarrow> unat (word_of_nat n :: u8) = n"
  by (simp add: unsigned_of_nat take_bit_nat_eq_self)

lemma candidate_bound: "n \<le> unat (max_ttl :: u8) \<Longrightarrow> n < 256"
  by (rule order.strict_trans1 [OF _ unat_u8_bound])

text \<open>The scan of a probe without memory.\<close>

abbreviation fixed :: "(u8 \<Rightarrow> bool) \<Rightarrow> unit \<Rightarrow> u8 \<Rightarrow> unit \<times> bool" where
  "fixed works \<equiv> \<lambda>s ttl. (s, works ttl)"

lemma scan_after_success:
  assumes "Suc p \<le> b" "p < b"
  shows "\<exists>m. p \<le> m \<and> m < b \<and> snd (scan_loop (fixed works) (Some (c p)) True (map c [Suc p..<b]) s) = Some (c m)
    \<and> (\<forall>n. p < n \<and> n \<le> m \<longrightarrow> works (c n)) \<and> (Suc m < b \<longrightarrow> \<not> works (c (Suc m)))"
  using assms
proof (induction "b - p" arbitrary: p)
  case (Suc d)
  have d: "d = b - Suc p" using Suc.hyps(2) by simp
  show ?case
  proof (cases "Suc p < b \<and> works (c (Suc p))")
    case True
    then obtain m where m: "Suc p \<le> m" "m < b" "snd (scan_loop (fixed works) (Some (c (Suc p))) True (map c [Suc (Suc p)..<b]) s) = Some (c m)"
        "\<forall>n. Suc p < n \<and> n \<le> m \<longrightarrow> works (c n)" "Suc m < b \<longrightarrow> \<not> works (c (Suc m))"
      using Suc.hyps(1) [of "Suc p"] d by auto
    have "\<forall>n. p < n \<and> n \<le> m \<longrightarrow> works (c n)" using m(4) True by (metis Suc_lessI)
    then show ?thesis using True m by (intro exI [of _ m]) (simp add: upt_conv_Cons)
  next
    case False
    then show ?thesis using Suc.prems by (intro exI [of _ p]) (cases "Suc p < b"; auto simp: upt_conv_Cons)
  qed
qed simp

lemma scan_before_success:
  assumes "a \<le> b"
  shows "case snd (scan_loop (fixed works) None False (map c [a..<b]) s) of
      None \<Rightarrow> \<forall>n. a \<le> n \<and> n < b \<longrightarrow> \<not> works (c n)
    | Some t \<Rightarrow> \<exists>lo m. a \<le> lo \<and> lo \<le> m \<and> m < b \<and> t = c m \<and> (\<forall>n. a \<le> n \<and> n < lo \<longrightarrow> \<not> works (c n))
        \<and> (\<forall>n. lo \<le> n \<and> n \<le> m \<longrightarrow> works (c n)) \<and> (Suc m < b \<longrightarrow> \<not> works (c (Suc m)))"
  using assms
proof (induction "b - a" arbitrary: a)
  case (Suc d)
  then have ab: "a < b" by simp
  show ?case
  proof (cases "works (c a)")
    case True
    from scan_after_success [of a b works c s] ab obtain m where m: "a \<le> m" "m < b"
      "snd (scan_loop (fixed works) (Some (c a)) True (map c [Suc a..<b]) s) = Some (c m)"
      "\<forall>n. a < n \<and> n \<le> m \<longrightarrow> works (c n)" "Suc m < b \<longrightarrow> \<not> works (c (Suc m))" by auto
    have "\<forall>n. a \<le> n \<and> n \<le> m \<longrightarrow> works (c n)" using m(4) True by (metis le_neq_implies_less)
    moreover have r: "snd (scan_loop (fixed works) None False (map c [a..<b]) s) = Some (c m)" using m(3) ab True by (simp add: upt_conv_Cons)
    ultimately have "\<exists>lo m'. a \<le> lo \<and> lo \<le> m' \<and> m' < b \<and> c m = c m' \<and> (\<forall>n. a \<le> n \<and> n < lo \<longrightarrow> \<not> works (c n))
        \<and> (\<forall>n. lo \<le> n \<and> n \<le> m' \<longrightarrow> works (c n)) \<and> (Suc m' < b \<longrightarrow> \<not> works (c (Suc m')))"
      using m by (metis not_le order_refl)
    then show ?thesis using r by simp
  next
    case False
    have skip: "\<And>P. (\<forall>n. a \<le> n \<and> P n \<longrightarrow> \<not> works (c n)) = (\<forall>n. Suc a \<le> n \<and> P n \<longrightarrow> \<not> works (c n))"
      using False by (metis Suc_le_eq le_eq_less_or_eq)
    have "case snd (scan_loop (fixed works) None False (map c [Suc a..<b]) s) of
      None \<Rightarrow> \<forall>n. Suc a \<le> n \<and> n < b \<longrightarrow> \<not> works (c n)
    | Some t \<Rightarrow> \<exists>lo m. Suc a \<le> lo \<and> lo \<le> m \<and> m < b \<and> t = c m \<and> (\<forall>n. Suc a \<le> n \<and> n < lo \<longrightarrow> \<not> works (c n))
        \<and> (\<forall>n. lo \<le> n \<and> n \<le> m \<longrightarrow> works (c n)) \<and> (Suc m < b \<longrightarrow> \<not> works (c (Suc m)))"
      using Suc.hyps(1) [of "Suc a"] Suc.hyps(2) ab by auto
    then show ?thesis using ab False unfolding skip
      by (simp add: upt_conv_Cons split: option.splits) (metis Suc_leD)
  qed
qed auto

text \<open>
  The discovery of the decoy's TTL finds the upper end of the first window of working values: the scan returns nothing only if no value up to the
  maximum works; otherwise every value of a window works that ends at the returned one, none below the window does, and the next value, if it is
  still within the maximum, does not. In particular the result is the distance to the server minus one when the working values are one window.
\<close>

theorem scan_ttl_finds_window:
  "case snd (scan_ttl max_ttl (\<lambda>s ttl. (s, works ttl)) ()) of
     None \<Rightarrow> \<forall>n. 1 \<le> n \<and> n \<le> unat max_ttl \<longrightarrow> \<not> works (word_of_nat n)
   | Some ttl \<Rightarrow> \<exists>lo. 1 \<le> lo \<and> lo \<le> unat ttl \<and> ttl \<le> max_ttl \<and> (\<forall>n. 1 \<le> n \<and> n < lo \<longrightarrow> \<not> works (word_of_nat n))
       \<and> (\<forall>n. lo \<le> n \<and> n \<le> unat ttl \<longrightarrow> works (word_of_nat n)) \<and> (ttl < max_ttl \<longrightarrow> \<not> works (ttl + 1))"
proof -
  let ?r = "snd (scan_loop (fixed works) None False (map word_of_nat [1..<Suc (unat max_ttl)]) ())"
  note scan = scan_before_success [of 1 "Suc (unat max_ttl)" works word_of_nat "()"]
  show ?thesis
  proof (cases ?r)
    case None
    then show ?thesis using scan by (simp add: scan_ttl_def ttl_candidates_def less_Suc_eq_le)
  next
    case (Some t)
    then obtain lo m where m: "1 \<le> lo" "lo \<le> m" "m < Suc (unat max_ttl)" "t = word_of_nat m" "\<forall>n. 1 \<le> n \<and> n < lo \<longrightarrow> \<not> works (word_of_nat n)"
      "\<forall>n. lo \<le> n \<and> n \<le> m \<longrightarrow> works (word_of_nat n)" "Suc m < Suc (unat max_ttl) \<longrightarrow> \<not> works (word_of_nat (Suc m))" using scan by auto
    have u: "unat t = m" using m(3, 4) candidate_bound [of m max_ttl] by (simp add: unat_word_u8)
    have "t < max_ttl \<longrightarrow> \<not> works (t + 1)" using m(4, 7) u by (auto simp: word_less_nat_alt add.commute)
    then have "1 \<le> lo \<and> lo \<le> unat t \<and> t \<le> max_ttl \<and> (\<forall>n. 1 \<le> n \<and> n < lo \<longrightarrow> \<not> works (word_of_nat n))
       \<and> (\<forall>n. lo \<le> n \<and> n \<le> unat t \<longrightarrow> works (word_of_nat n)) \<and> (t < max_ttl \<longrightarrow> \<not> works (t + 1))"
      using m u by (auto simp: word_le_nat_alt)
    then show ?thesis using Some by (auto simp: scan_ttl_def ttl_candidates_def)
  qed
qed

theorem scan_ttl_finds_window_witness:
  "snd (scan_ttl 6 (\<lambda>s ttl. (s, 2 \<le> ttl \<and> ttl \<le> 4)) ()) = Some 4 \<and> (\<exists>lo. 1 \<le> lo \<and> lo \<le> 4
     \<and> (\<forall>n. 1 \<le> n \<and> n < lo \<longrightarrow> \<not> (2 \<le> (word_of_nat n :: u8) \<and> (word_of_nat n :: u8) \<le> 4)))"
proof -
  have r: "snd (scan_ttl 6 (\<lambda>s ttl. (s, 2 \<le> ttl \<and> ttl \<le> 4)) ()) = Some 4" by code_simp
  show ?thesis using scan_ttl_finds_window [of 6 "\<lambda>ttl. 2 \<le> ttl \<and> ttl \<le> 4"] unfolding r by auto
qed

section \<open>What probing leaves behind\<close>

text \<open>Work on the flow table that neither adds nor removes a flow: packets of registered flows.\<close>

definition keeps_table :: "(FlowStore \<Rightarrow> FlowStore) \<Rightarrow> bool" where
  "keeps_table f \<longleftrightarrow> (\<forall>s. fl_table (f s) = fl_table s)"

definition quiet_answers :: "ProbeAnswers \<Rightarrow> bool" where
  "quiet_answers a \<longleftrightarrow> keeps_table (pa_connecting a) \<and> keeps_table (pa_waiting a) \<and> keeps_table (pa_shaking a)"

lemma delete_new: "map_of xs k = None \<Longrightarrow> AList.delete k ((k, v) # xs) = xs"
  by (force simp: AList.delete_eq map_of_eq_None_iff filter_id_conv)

lemma probe_ttl_table:
  assumes "quiet_answers (answers ttl)"
  shows "fl_table (fst (probe_ttl data local_ip connect_ip answers s ttl)) = fl_table s"
proof (cases "pa_port (answers ttl)")
  case (Some port)
  let ?k = "probe_key local_ip connect_ip port"
  show ?thesis
  proof (cases "flow_exists s ?k")
    case True
    then show ?thesis using Some by (simp add: probe_ttl_def Let_def register_probe_flow_def)
  next
    case False
    then have "map_of (fl_table s) ?k = None" by (simp add: flow_exists_def)
    then show ?thesis using Some False assms delete_new [of "fl_table s" ?k]
      by (simp add: probe_ttl_def Let_def register_probe_flow_def register_flow_new remove_flow_def quiet_answers_def keeps_table_def)
  qed
qed (simp add: probe_ttl_def Let_def)

lemma scan_loop_table:
  assumes "\<And>s ttl. fl_table (fst (probe s ttl)) = fl_table s"
  shows "fl_table (fst (scan_loop probe l any ttls s)) = fl_table s"
proof (induction ttls arbitrary: l any s)
  case (Cons ttl ttls)
  obtain s' ok where p: "probe s ttl = (s', ok)" by fastforce
  then have "fl_table s' = fl_table s" using assms [of s ttl] by simp
  then show ?case using p Cons.IH by (cases ok) auto
qed simp

text \<open>
  Probing does not disturb the users' connections: whatever the probes meet, when discovery returns the flow table holds exactly the flows it
  held before, in the same entries, so that no probe replaced a flow of a live connection and none was left registered.
\<close>

theorem discovery_leaves_flows_alone:
  assumes "\<And>ttl. quiet_answers (answers ttl)"
  shows "fl_table (fst (discover_low_ttl valid_name max_ttl sni data local_ip connect_ip answers s)) = fl_table s"
  using scan_loop_table [OF probe_ttl_table [OF assms]] by (simp add: discover_low_ttl_def scan_ttl_def)

theorem discovery_leaves_flows_alone_witness:
  "fl_table (fst (discover_low_ttl (\<lambda>_. True) 12 ''example.com'' [22, 3, 1] 0x0A000005 0x01020304
     (\<lambda>ttl. \<lparr>pa_port = Some 50000, pa_connecting = id, pa_connects = True, pa_waiting = id, pa_shaking = id, pa_handshake = True\<rparr>) new_flow_table)) = []"
  using discovery_leaves_flows_alone [of "\<lambda>ttl. \<lparr>pa_port = Some 50000, pa_connecting = id, pa_connects = True, pa_waiting = id, pa_shaking = id, pa_handshake = True\<rparr>"
      "\<lambda>_. True" 12 "''example.com''" "[22, 3, 1]" "0x0A000005" "0x01020304" new_flow_table]
  by (simp add: quiet_answers_def keeps_table_def new_flow_table_def)

text \<open>A member of the pool is admitted only with a TTL that was discovered for it, that it had before, or that the start-up falls back to.\<close>

lemma admitted_ttl: "discover_pool_ttls discover ts previous fallback s = (s', out) \<Longrightarrow> t' \<in> set out \<Longrightarrow>
    (\<exists>t \<in> set ts. \<exists>ttl. t' = t\<lparr>tg_low_ttl := ttl\<rparr> \<and> ((\<exists>s0. snd (discover s0 t) = ttl \<and> ttl \<noteq> None)
      \<or> (\<exists>old \<in> set previous. tg_ip old = tg_ip t \<and> tg_sni old = tg_sni t \<and> ttl = tg_low_ttl old) \<or> ttl = fallback \<and> ttl \<noteq> None))"
proof (induction discover ts previous fallback s arbitrary: s' out rule: discover_pool_ttls.induct)
  case (2 discover t ts previous fallback s)
  obtain s1 found where d: "discover s t = (s1, found)" by fastforce
  obtain s2 rest where r: "discover_pool_ttls discover ts previous fallback s1 = (s2, rest)" by fastforce
  show ?case
  proof (cases "t' \<in> set rest")
    case True
    then show ?thesis using "2.IH" [OF d [symmetric] r] by auto
  next
    case False
    then have a: "admit previous fallback found t = Some t'" using "2.prems" d r by (auto split: option.splits)
    have f: "snd (discover s t) = found" using d by simp
    have "\<exists>ttl. t' = t\<lparr>tg_low_ttl := ttl\<rparr> \<and> (found = ttl \<and> ttl \<noteq> None
      \<or> (\<exists>old \<in> set previous. tg_ip old = tg_ip t \<and> tg_sni old = tg_sni t \<and> ttl = tg_low_ttl old) \<or> ttl = fallback \<and> ttl \<noteq> None)"
      using a unfolding admit_def by (auto simp: find_Some_iff split: option.splits intro: nth_mem)
    then show ?thesis using f by (metis list.set_intros(1))
  qed
qed simp

end
