(* ===== verification/Rescan.thy ===== *)
theory Rescan
  imports Low_Ttl
begin

text \<open>
  Rescans of the target lists, src/crates/zerodpi/src/main.rs, with the manual requests of src/crates/zerodpi/src/manual\_rescan.rs: one scan of the
  names or of the addresses, the choice of the next target and its hot swap. The scanner, the user and the TTL discovery answer through the record
  \<open>RescanAnswers\<close>. The events are those of the dashboard's channel, in the order they are sent; the runtime events repeat them.
\<close>

section \<open>Requests and decisions\<close>

text \<open>\<^verbatim>\<open>wait_for_rescan\<close>: what ends each turn of its loop, the timer, a request or the end of the requests.\<close>

datatype RescanWake = Timer | Request | RequestsClosed

fun wait_for_rescan :: "bool \<Rightarrow> nat \<Rightarrow> RescanWake list \<Rightarrow> bool \<times> bool option option" where
  "wait_for_rescan worker interval [] = (worker, if \<not> worker \<and> interval = 0 then Some None else None)"
| "wait_for_rescan worker interval (w # ws) = (if \<not> worker \<and> interval = 0 then (worker, Some None)
     else (case w of Timer \<Rightarrow> if 0 < interval then (worker, Some (Some False)) else wait_for_rescan worker interval ws
       | Request \<Rightarrow> if worker then (worker, Some (Some True)) else wait_for_rescan worker interval ws
       | RequestsClosed \<Rightarrow> wait_for_rescan False interval ws))"

text \<open>\<^verbatim>\<open>Worker::select\<close>: the automatic choice is the first entry, otherwise the user answers.\<close>

definition worker_select :: "bool \<Rightarrow> ('a list \<Rightarrow> 'a option) \<Rightarrow> 'a list \<Rightarrow> 'a option" where
  "worker_select auto user entries = (if auto \<or> entries = [] then (case entries of [] \<Rightarrow> None | e # _ \<Rightarrow> Some e) else user entries)"

datatype LowTtlDiscoveryDecision = Disabled | SkippedCompleteImmediately | SkippedNoLowTtlMethod | Run

definition decide_low_ttl_discovery :: "Config \<Rightarrow> LowTtlDiscoveryDecision" where
  "decide_low_ttl_discovery cfg = (if \<not> LOW_TTL_DISCOVER cfg then Disabled
     else if \<not> LOW_TTL_COMPLETE_IMMEDIATELY cfg then SkippedCompleteImmediately
     else if ''low_ttl'' \<notin> set (BYPASS_METHOD cfg) then SkippedNoLowTtlMethod else Run)"

text \<open>The \<^verbatim>\<open>u8\<close> setting, which the configuration keeps as its value.\<close>

definition switch_min_score :: "Config \<Rightarrow> u8" where
  "switch_min_score cfg = word_of_nat (SNI_SWITCH_MIN_SCORE cfg)"

record ActiveSniTarget =
  at_sni :: string
  at_ip :: u32
  at_score :: u8

definition should_switch_sni_target :: "ActiveSniTarget \<Rightarrow> SniProbeEntry \<Rightarrow> u8 \<Rightarrow> bool" where
  "should_switch_sni_target current candidate min_score =
     (if at_ip current = se_ip candidate \<and> at_sni current = se_sni candidate then False else min_score \<le> se_score candidate)"

definition active_of_entry :: "SniProbeEntry \<Rightarrow> ActiveSniTarget" where
  "active_of_entry e = \<lparr>at_sni = se_sni e, at_ip = se_ip e, at_score = se_score e\<rparr>"

definition select_rescan_target :: "ActiveSniTarget \<Rightarrow> SniProbeEntry \<Rightarrow> u8 \<Rightarrow> ActiveSniTarget option" where
  "select_rescan_target current candidate min_score =
     (if should_switch_sni_target current candidate min_score then Some (active_of_entry candidate) else None)"

definition discovery_gated_switch :: "u8 option \<Rightarrow> ActiveSniTarget \<Rightarrow> SniProbeEntry \<Rightarrow> u8 \<Rightarrow> ActiveSniTarget option" where
  "discovery_gated_switch discovered current candidate min_score =
     (case discovered of None \<Rightarrow> None | Some _ \<Rightarrow> select_rescan_target current candidate min_score)"

definition mode_requires_packet_interception :: "string \<Rightarrow> string list \<Rightarrow> bool" where
  "mode_requires_packet_interception mode methods = (mode \<in> {''sni_spoof'', ''proxy_scan'', ''ip_bypass_plus''} \<and> \<not> is_socket_only methods)"

section \<open>The state a rescan works on\<close>

datatype RescanEvent = RescanStarted | SniTargetChanged string u32 u8 | IpTargetChanged IpAddr u8 | TargetPoolUpdated nat
  | LowTtlDiscovered u8 | RescanFinished nat "u8 option" bool

text \<open>The pool, the address the network monitor probes, the TTL the interceptor stamps on decoys, and the events sent.\<close>

record RescanState =
  rs_pool :: PoolState
  rs_probe_target :: u32
  rs_low_ttl :: u8
  rs_events :: "RescanEvent list"

record RescanOutcome =
  ro_found :: nat
  ro_switched :: bool

definition send_rescan_event :: "RescanEvent \<Rightarrow> RescanState \<Rightarrow> RescanState" where
  "send_rescan_event e st = st\<lparr>rs_events := rs_events st @ [e]\<rparr>"

definition monitor_probe_target :: "IpAddr \<Rightarrow> u32" where
  "monitor_probe_target a = (case a of V4 ip \<Rightarrow> ip | V6 _ \<Rightarrow> 0x01010101)"

definition store_probe_target :: "IpAddr \<Rightarrow> RescanState \<Rightarrow> RescanState" where
  "store_probe_target a st = st\<lparr>rs_probe_target := monitor_probe_target a\<rparr>"

definition announce_target_pool :: "Target \<Rightarrow> RescanState \<Rightarrow> RescanState" where
  "announce_target_pool t st = send_rescan_event (TargetPoolUpdated (length (ps_members (rs_pool st))))
     (case tg_sni t of Some sni \<Rightarrow> (case tg_ip t of V4 ip \<Rightarrow> send_rescan_event (SniTargetChanged sni ip (tg_score t)) st | V6 _ \<Rightarrow> st)
      | None \<Rightarrow> send_rescan_event (IpTargetChanged (tg_ip t) (tg_score t)) st)"

definition replace_pool :: "Target list \<Rightarrow> RescanState \<Rightarrow> bool \<times> RescanState" where
  "replace_pool ts st = (case pool_replace (rs_pool st) ts of (changed, pool) \<Rightarrow> (changed, st\<lparr>rs_pool := pool\<rparr>))"

text \<open>
  The answers: the scan's entries or its error, the user's choice, the TTL found for a name and an address, and whether the interceptor takes a new
  TTL (it always does in the own process).
\<close>

record 'e RescanAnswers =
  ra_scan :: "'e list option"
  ra_user :: "'e list \<Rightarrow> 'e option"
  ra_found :: "string \<Rightarrow> u32 \<Rightarrow> u8 option"
  ra_applies :: bool

text \<open>\<^verbatim>\<open>LowTtlDiscoveryState::run\<close>.\<close>

definition discovery_run :: "'e RescanAnswers \<Rightarrow> string \<Rightarrow> u32 \<Rightarrow> RescanState \<Rightarrow> u8 option \<times> RescanState" where
  "discovery_run a sni ip st = (case ra_found a sni ip of None \<Rightarrow> (None, st)
     | Some ttl \<Rightarrow> if ra_applies a then (Some ttl, st\<lparr>rs_low_ttl := ttl\<rparr>) else (None, st))"

section \<open>Rescan of the names\<close>

text \<open>Candidates of \<^verbatim>\<open>sni_candidates\<close> carry a name, so that its \<^verbatim>\<open>unwrap\<close> does not fail.\<close>

definition probe_pool_target :: "'e RescanAnswers \<Rightarrow> unit \<Rightarrow> Target \<Rightarrow> unit \<times> u8 option" where
  "probe_pool_target a u t = (u, case (tg_ip t, tg_sni t) of (V4 ip, Some sni) \<Rightarrow> ra_found a sni ip | _ \<Rightarrow> None)"

definition rescan_balanced :: "bool \<Rightarrow> Config \<Rightarrow> SniProbeEntry RescanAnswers \<Rightarrow> SniProbeEntry list \<Rightarrow> RescanState
    \<Rightarrow> ((nat \<times> u8 option) \<times> bool \<times> RescanState) res" where
  "rescan_balanced discovery cfg a entries st = (let
       candidates = sni_candidates entries (LOAD_BALANCE_TARGET_COUNT cfg) (switch_min_score cfg);
       candidates = (if discovery then snd (discover_pool_ttls (probe_pool_target a) candidates (snd (probe_snapshot (rs_pool st))) None ()) else candidates);
       summary = (length candidates, case candidates of [] \<Rightarrow> None | t # _ \<Rightarrow> Some (tg_score t)) in
     if candidates = [] then Ok (summary, False, st)
     else (case replace_pool candidates st of (changed, st1) \<Rightarrow>
       (case representative (rs_pool st1) of Panic \<Rightarrow> Panic
        | Ok t \<Rightarrow> Ok (summary, changed, announce_target_pool t (store_probe_target (tg_ip t) st1)))))"

definition switch_sni :: "ActiveSniTarget \<Rightarrow> u8 option \<Rightarrow> RescanState \<Rightarrow> RescanState" where
  "switch_sni next discovered st = (let
       st1 = snd (replace_pool [target_of_sni (at_sni next) (at_ip next) (at_score next)] st);
       st2 = send_rescan_event (SniTargetChanged (at_sni next) (at_ip next) (at_score next)) (store_probe_target (V4 (at_ip next)) st1) in
     case discovered of Some ttl \<Rightarrow> send_rescan_event (LowTtlDiscovered ttl) st2 | None \<Rightarrow> st2)"

definition rescan_single :: "bool \<Rightarrow> bool \<Rightarrow> Config \<Rightarrow> SniProbeEntry RescanAnswers \<Rightarrow> SniProbeEntry list \<Rightarrow> RescanState \<Rightarrow> (bool \<times> RescanState) res" where
  "rescan_single discovery manual cfg a entries st =
     (case (if manual then worker_select (AUTO_SELECT cfg) (ra_user a) entries else (case entries of [] \<Rightarrow> None | e # _ \<Rightarrow> Some e)) of
       None \<Rightarrow> Ok (False, st)
     | Some best \<Rightarrow> (case representative (rs_pool st) of Panic \<Rightarrow> Panic
       | Ok t \<Rightarrow> (case (tg_sni t, tg_ip t) of (Some sni, V4 ip) \<Rightarrow>
           (let current = \<lparr>at_sni = sni, at_ip = ip, at_score = tg_score t\<rparr> in
            case (if manual then Some (active_of_entry best) else select_rescan_target current best (switch_min_score cfg)) of
              None \<Rightarrow> Ok (False, st)
            | Some next \<Rightarrow>
                (if \<not> discovery then Ok (True, switch_sni next None st)
                 else (case discovery_run a (at_sni next) (at_ip next) st of (discovered, st1) \<Rightarrow>
                   (case (if manual then map_option (\<lambda>_. next) discovered
                          else discovery_gated_switch discovered current best (switch_min_score cfg)) of
                      Some next' \<Rightarrow> Ok (True, switch_sni next' discovered st1)
                    | None \<Rightarrow> Ok (False, st1)))))
         | _ \<Rightarrow> Panic)))"

definition rescan_finished :: "nat \<times> u8 option \<Rightarrow> bool \<Rightarrow> RescanState \<Rightarrow> RescanOutcome \<times> RescanState" where
  "rescan_finished summary switched st = (\<lparr>ro_found = fst summary, ro_switched = switched\<rparr>,
     send_rescan_event (RescanFinished (fst summary) (snd summary) switched) st)"

definition rescan_sni_once :: "bool \<Rightarrow> bool \<Rightarrow> Config \<Rightarrow> SniProbeEntry RescanAnswers \<Rightarrow> RescanState \<Rightarrow> (RescanOutcome \<times> RescanState) res" where
  "rescan_sni_once discovery manual cfg a st =
     (if LOAD_BALANCE_ENABLED cfg \<and> SELECTED_SNI cfg \<noteq> None
      then (case representative (rs_pool st) of Panic \<Rightarrow> Panic
        | Ok t \<Rightarrow> Ok (rescan_finished (length (ps_members (rs_pool st)), Some (tg_score t)) False st))
      else (let st0 = send_rescan_event RescanStarted st in
        case ra_scan a of None \<Rightarrow> Ok (rescan_finished (0, None) False st0)
        | Some entries \<Rightarrow>
            (if LOAD_BALANCE_ENABLED cfg
             then (case rescan_balanced discovery cfg a entries st0 of Panic \<Rightarrow> Panic
               | Ok (summary, switched, st1) \<Rightarrow> Ok (rescan_finished summary switched st1))
             else (case rescan_single discovery manual cfg a entries st0 of Panic \<Rightarrow> Panic
               | Ok (switched, st1) \<Rightarrow> Ok (rescan_finished (length entries, case entries of [] \<Rightarrow> None | e # _ \<Rightarrow> Some (se_score e)) switched st1)))))"

section \<open>Rescan of the addresses\<close>

text \<open>\<open>pinned\<close> is a configured \<^verbatim>\<open>SELECTED_IP\<close>; \<open>ips\<close> the addresses of the list, if it could be loaded.\<close>

definition rescan_ip_once :: "bool \<Rightarrow> bool \<Rightarrow> bool \<Rightarrow> Config \<Rightarrow> IpAddr list option \<Rightarrow> IpProbeEntry RescanAnswers \<Rightarrow> RescanState \<Rightarrow> (RescanOutcome \<times> RescanState) res" where
  "rescan_ip_once pinned ipv4_only manual cfg ips a st =
     (if LOAD_BALANCE_ENABLED cfg \<and> pinned
      then (case representative (rs_pool st) of Panic \<Rightarrow> Panic
        | Ok t \<Rightarrow> Ok (rescan_finished (length (ps_members (rs_pool st)), Some (tg_score t)) False st))
      else (let st0 = send_rescan_event RescanStarted st;
                entries = (case ips of None \<Rightarrow> [] | Some l \<Rightarrow> if ipv4_only \<and> list_ex (\<lambda>x. case x of V4 _ \<Rightarrow> False | V6 _ \<Rightarrow> True) l then []
                  else (case ra_scan a of None \<Rightarrow> [] | Some es \<Rightarrow> es)) in
        if entries = [] then Ok (rescan_finished (0, None) False st0)
        else (let balanced = LOAD_BALANCE_ENABLED cfg;
                  candidates = (if balanced then ip_candidates entries (LOAD_BALANCE_TARGET_COUNT cfg) else []);
                  summary = (if balanced then (length candidates, case candidates of [] \<Rightarrow> None | t # _ \<Rightarrow> Some (tg_score t))
                             else (length entries, case entries of [] \<Rightarrow> None | e # _ \<Rightarrow> Some (ie_score e)));
                  selected = (if balanced then (case candidates of [] \<Rightarrow> None | t # _ \<Rightarrow> find (\<lambda>e. ie_ip e = tg_ip t) entries)
                    else if manual then worker_select (AUTO_SELECT cfg) (ra_user a) entries else (case entries of [] \<Rightarrow> None | e # _ \<Rightarrow> Some e)) in
          case selected of None \<Rightarrow> Ok (rescan_finished summary False st0)
          | Some best \<Rightarrow> (case representative (rs_pool st0) of Panic \<Rightarrow> Panic
            | Ok current \<Rightarrow>
                (if balanced
                 then (case replace_pool candidates st0 of (changed, st1) \<Rightarrow> (case representative (rs_pool st1) of Panic \<Rightarrow> Panic
                     | Ok t \<Rightarrow> Ok (rescan_finished summary changed (announce_target_pool t (store_probe_target (tg_ip t) st1)))))
                 else if ie_ip best \<noteq> tg_ip current
                 then Ok (rescan_finished summary True (send_rescan_event (IpTargetChanged (ie_ip best) (ie_score best))
                    (store_probe_target (ie_ip best) (snd (replace_pool [from_ip best] st0)))))
                 else Ok (rescan_finished summary False st0))))))"

section \<open>What a rescan may do\<close>

text \<open>A pool of names: well formed, and every member has a name and an IPv4 address.\<close>

definition sni_target :: "Target \<Rightarrow> bool" where
  "sni_target t \<longleftrightarrow> tg_sni t \<noteq> None \<and> (\<exists>ip. tg_ip t = V4 ip)"

definition sni_pool_ok :: "PoolState \<Rightarrow> bool" where
  "sni_pool_ok pool \<longleftrightarrow> pool_ok pool \<and> (\<forall>m \<in> set (ps_members pool). sni_target (pm_target m))"

text \<open>The probe target follows the representative of the pool.\<close>

definition in_step :: "RescanState \<Rightarrow> bool" where
  "in_step st \<longleftrightarrow> (\<exists>t. representative (rs_pool st) = Ok t \<and> rs_probe_target st = monitor_probe_target (tg_ip t))"

lemma rescan_event_simps [simp]: "rs_pool (send_rescan_event e st) = rs_pool st" "rs_probe_target (send_rescan_event e st) = rs_probe_target st"
    "rs_low_ttl (send_rescan_event e st) = rs_low_ttl st" "rs_events (send_rescan_event e st) = rs_events st @ [e]"
    "rs_pool (store_probe_target x st) = rs_pool st" "rs_probe_target (store_probe_target x st) = monitor_probe_target x"
    "rs_low_ttl (store_probe_target x st) = rs_low_ttl st"
    "rs_pool (announce_target_pool t st) = rs_pool st" "rs_probe_target (announce_target_pool t st) = rs_probe_target st"
    "rs_low_ttl (announce_target_pool t st) = rs_low_ttl st"
  by (simp_all add: send_rescan_event_def store_probe_target_def announce_target_pool_def split: option.splits IpAddr.splits)

lemma rescan_finished_simps [simp]: "rs_pool (snd (rescan_finished sm sw st)) = rs_pool st" "rs_probe_target (snd (rescan_finished sm sw st)) = rs_probe_target st"
    "rs_low_ttl (snd (rescan_finished sm sw st)) = rs_low_ttl st" "ro_switched (fst (rescan_finished sm sw st)) = sw"
  by (simp_all add: rescan_finished_def)

lemma place_targets_targets: "map pm_target (fst (place_targets st ts)) = ts"
  by (induction st ts rule: place_targets.induct) (auto simp: place_target_def Let_def case_prod_unfold split: option.splits)

lemma replaced_members: "ts \<noteq> [] \<Longrightarrow> map pm_target (ps_members (snd (pool_replace st ts))) = unique_targets ts None"
  using place_targets_targets [of st "unique_targets ts None"] by (simp add: pool_replace_def Let_def case_prod_unfold)

lemma replaced_representative: "ts \<noteq> [] \<Longrightarrow> representative (snd (pool_replace st ts)) = Ok (hd ts)"
proof -
  assume ts: "ts \<noteq> []"
  then have "unique_targets ts None \<noteq> [] \<and> hd (unique_targets ts None) = hd ts" by (cases ts) (simp_all add: unique_targets_def)
  then show ?thesis using replaced_members [OF ts, of st] by (cases "ps_members (snd (pool_replace st ts))") (auto simp: representative_def, metis list.sel(1))
qed

lemma replace_pool_ok: "pool_ok (rs_pool st) \<Longrightarrow> pool_ok (rs_pool (snd (replace_pool ts st)))"
  using pool_replace_ok(1) [of "rs_pool st" ts] by (simp add: pool_ok_def replace_pool_def case_prod_unfold)

lemma replace_pool_simps: "ts \<noteq> [] \<Longrightarrow> representative (rs_pool (snd (replace_pool ts st))) = Ok (hd ts)"
    "rs_low_ttl (snd (replace_pool ts st)) = rs_low_ttl st"
  by (simp_all add: replace_pool_def case_prod_unfold replaced_representative)

lemma replace_pool_sni:
  assumes "sni_pool_ok (rs_pool st)" "\<forall>t \<in> set ts. sni_target t"
  shows "sni_pool_ok (rs_pool (snd (replace_pool ts st)))"
proof (cases "ts = []")
  case False
  have "pm_target ` set (ps_members (rs_pool (snd (replace_pool ts st)))) = set (unique_targets ts None)"
    using replaced_members [OF False, of "rs_pool st"] by (simp add: replace_pool_def case_prod_unfold flip: set_map)
  moreover have "set (unique_targets ts None) \<subseteq> set ts" using unseen_targets_spec [of "[]" ts] by (simp add: unique_targets_def)
  ultimately show ?thesis using assms replace_pool_ok [of st ts] by (fastforce simp: sni_pool_ok_def)
qed (use assms in \<open>simp add: replace_pool_def pool_replace_def\<close>)

lemma sni_candidates_sni: "t \<in> set (sni_candidates es n m) \<Longrightarrow> sni_target t \<and> max m 1 \<le> tg_score t"
proof -
  assume "t \<in> set (sni_candidates es n m)"
  then have "t \<in> from_sni ` {e \<in> set es. max m 1 \<le> se_score e}"
    using unseen_targets_spec [of "[]" "map from_sni (filter (\<lambda>e. se_tcp_latency_ms e \<noteq> None \<and> max m 1 \<le> se_score e) es)"]
    by (auto simp: sni_candidates_def unique_targets_def dest!: in_set_takeD)
  then show ?thesis by (auto simp: sni_target_def from_sni_def target_of_sni_def target_of_ip_def)
qed

lemma sni_pool_representative: "sni_pool_ok pool \<Longrightarrow> \<exists>t sni ip. representative pool = Ok t \<and> tg_sni t = Some sni \<and> tg_ip t = V4 ip"
  by (cases "ps_members pool") (auto simp: sni_pool_ok_def pool_ok_def members_ok_def representative_def sni_target_def)

lemma discovered_pool_sni: "\<forall>t \<in> set ts. sni_target t \<Longrightarrow> \<forall>t \<in> set (snd (discover_pool_ttls d ts previous None s)). sni_target t"
  using admitted_ttl [of d ts previous None s] by (cases "discover_pool_ttls d ts previous None s") (fastforce simp: sni_target_def)

lemma rescan_balanced_ok:
  assumes "sni_pool_ok (rs_pool st)" "in_step st"
  shows "\<exists>sm sw st'. rescan_balanced discovery cfg a entries st = Ok (sm, sw, st') \<and> sni_pool_ok (rs_pool st') \<and> in_step st' \<and> rs_low_ttl st' = rs_low_ttl st"
proof -
  define cs where "cs = (if discovery then snd (discover_pool_ttls (probe_pool_target a)
      (sni_candidates entries (LOAD_BALANCE_TARGET_COUNT cfg) (switch_min_score cfg)) (snd (probe_snapshot (rs_pool st))) None ())
    else sni_candidates entries (LOAD_BALANCE_TARGET_COUNT cfg) (switch_min_score cfg))"
  have sni: "\<forall>t \<in> set cs. sni_target t" unfolding cs_def
    using discovered_pool_sni [of "sni_candidates entries (LOAD_BALANCE_TARGET_COUNT cfg) (switch_min_score cfg)" "probe_pool_target a"] sni_candidates_sni by auto
  obtain sw st1 where r: "replace_pool cs st = (sw, st1)" by fastforce
  show ?thesis
  proof (cases "cs = []")
    case False
    have rep: "representative (rs_pool st1) = Ok (hd cs)" using replace_pool_simps(1) [OF False, of st] r by simp
    have "sni_pool_ok (rs_pool st1)" "rs_low_ttl st1 = rs_low_ttl st" using replace_pool_sni [OF assms(1) sni] replace_pool_simps(2) [of cs st] r by simp_all
    then show ?thesis using False r rep unfolding rescan_balanced_def Let_def cs_def [symmetric] by (simp add: in_step_def)
  qed (use assms in \<open>auto simp: rescan_balanced_def Let_def cs_def [symmetric]\<close>)
qed

lemma switch_sni_ok:
  assumes "sni_pool_ok (rs_pool st)"
  shows "sni_pool_ok (rs_pool (switch_sni t d st)) \<and> in_step (switch_sni t d st) \<and> rs_low_ttl (switch_sni t d st) = rs_low_ttl st
    \<and> representative (rs_pool (switch_sni t d st)) = Ok (target_of_sni (at_sni t) (at_ip t) (at_score t))"
proof -
  let ?ts = "[target_of_sni (at_sni t) (at_ip t) (at_score t)]"
  have "sni_pool_ok (rs_pool (snd (replace_pool ?ts st)))"
    by (rule replace_pool_sni [OF assms]) (simp add: sni_target_def target_of_sni_def target_of_ip_def)
  then show ?thesis using replace_pool_simps [of ?ts st]
    by (auto simp: switch_sni_def Let_def in_step_def target_of_sni_def target_of_ip_def split: option.splits)
qed

lemma rescan_single_ok:
  assumes "sni_pool_ok (rs_pool st)" "in_step st"
  shows "\<exists>sw st'. rescan_single discovery manual cfg a entries st = Ok (sw, st') \<and> sni_pool_ok (rs_pool st') \<and> in_step st'"
proof -
  obtain t sni ip where t: "representative (rs_pool st) = Ok t" "tg_sni t = Some sni" "tg_ip t = V4 ip" using sni_pool_representative [OF assms(1)] by blast
  have run: "rs_pool (snd (discovery_run a n i st)) = rs_pool st \<and> in_step (snd (discovery_run a n i st))" for n i
    using assms(2) by (auto simp: discovery_run_def in_step_def split: option.splits)
  then have sw: "sni_pool_ok (rs_pool (switch_sni t d (snd (discovery_run a n i st)))) \<and> in_step (switch_sni t d (snd (discovery_run a n i st)))" for t d n i
    using switch_sni_ok assms(1) by simp
  show ?thesis using t assms run sw switch_sni_ok [OF assms(1)]
    by (auto simp: rescan_single_def Let_def case_prod_unfold split: option.splits)
qed

lemma rescan_ok:
  assumes "sni_pool_ok (rs_pool st)" "in_step st"
  shows "\<exists>out st'. rescan_sni_once discovery manual cfg a st = Ok (out, st') \<and> sni_pool_ok (rs_pool st') \<and> in_step st'"
proof -
  let ?st = "send_rescan_event RescanStarted st"
  have st: "sni_pool_ok (rs_pool ?st)" "in_step ?st" using assms by (simp_all add: in_step_def)
  have fin: "\<exists>out st''. rescan_finished sm sw st' = (out, st'') \<and> sni_pool_ok (rs_pool st'') \<and> in_step st''"
    if "sni_pool_ok (rs_pool st')" "in_step st'" for sm sw st'
    using that by (simp add: rescan_finished_def in_step_def)
  obtain t where t: "representative (rs_pool st) = Ok t" using sni_pool_representative [OF assms(1)] by blast
  obtain sm1 sw1 st1 where b: "rescan_balanced discovery cfg a es ?st = Ok (sm1 es, sw1 es, st1 es)" "sni_pool_ok (rs_pool (st1 es))" "in_step (st1 es)" for es
    using rescan_balanced_ok [OF st, of discovery cfg a] by metis
  obtain sw2 st2 where s: "rescan_single discovery manual cfg a es ?st = Ok (sw2 es, st2 es)" "sni_pool_ok (rs_pool (st2 es))" "in_step (st2 es)" for es
    using rescan_single_ok [OF st, of discovery manual cfg a] by metis
  show ?thesis using t st assms b s fin by (auto simp: rescan_sni_once_def Let_def split: option.splits)
qed


section \<open>What a rescan announces\<close>

text \<open>
  A reader of the events, such as the dashboard, keeps the last target and the last size of the pool that it was told. It is up to date when these are
  the representative and the size of the pool.
\<close>

type_synonym shown = "(string \<times> u32 \<times> u8) \<times> nat"

fun watch :: "RescanEvent \<Rightarrow> shown \<Rightarrow> shown" where
  "watch (SniTargetChanged sni ip score) (t, n) = ((sni, ip, score), n)"
| "watch (TargetPoolUpdated m) (t, n) = (t, m)"
| "watch _ v = v"

definition shows_target :: "shown \<Rightarrow> PoolState \<Rightarrow> bool" where
  "shows_target v pool = (case representative pool of Panic \<Rightarrow> False
     | Ok t \<Rightarrow> (case fst v of (sni, ip, score) \<Rightarrow> tg_sni t = Some sni \<and> tg_ip t = V4 ip \<and> tg_score t = score))"

definition shows_size :: "shown \<Rightarrow> PoolState \<Rightarrow> bool" where
  "shows_size v pool = (snd v = length (ps_members pool))"

text \<open>A step sends events that keep such a reader up to date.\<close>

definition announces :: "(shown \<Rightarrow> PoolState \<Rightarrow> bool) \<Rightarrow> RescanState \<Rightarrow> RescanState \<Rightarrow> bool" where
  "announces up_to_date st st' = (\<exists>evs. rs_events st' = rs_events st @ evs
     \<and> (\<forall>v. up_to_date v (rs_pool st) \<longrightarrow> up_to_date (fold watch evs v) (rs_pool st')))"

lemma announces_trans [trans]: "announces P st st1 \<Longrightarrow> announces P st1 st2 \<Longrightarrow> announces P st st2"
  unfolding announces_def by (metis append.assoc fold_append comp_apply)

lemma announcesI: "rs_events st' = rs_events st @ evs \<Longrightarrow> (\<And>v. P v (rs_pool st) \<Longrightarrow> P (fold watch evs v) (rs_pool st')) \<Longrightarrow> announces P st st'"
  by (auto simp: announces_def)

lemma announces_same: "rs_events st' = rs_events st \<Longrightarrow> rs_pool st' = rs_pool st \<Longrightarrow> announces P st st'"
  by (rule announcesI [of _ _ "[]"]) simp_all

lemma announces_quiet: "(\<And>v. watch e v = v) \<Longrightarrow> announces P st (send_rescan_event e st)"
  by (rule announcesI [of _ _ "[e]"]) simp_all

lemma replace_pool_events [simp]: "rs_events (snd (replace_pool ts st)) = rs_events st"
  by (simp add: replace_pool_def case_prod_unfold)

lemma store_probe_events [simp]: "rs_events (store_probe_target x st) = rs_events st"
  by (simp add: store_probe_target_def)

text \<open>Announcing the representative brings any reader up to date, whatever it had been told.\<close>

lemma announce_target_pool_shows:
  assumes "sni_target t" "representative (rs_pool st1) = Ok t" "rs_events st1 = rs_events st"
  shows "announces shows_target st (announce_target_pool t st1)" "announces shows_size st (announce_target_pool t st1)"
proof -
  obtain sni ip where t: "tg_sni t = Some sni" "tg_ip t = V4 ip" using assms(1) by (auto simp: sni_target_def)
  let ?evs = "[SniTargetChanged sni ip (tg_score t), TargetPoolUpdated (length (ps_members (rs_pool st1)))]"
  have e: "rs_events (announce_target_pool t st1) = rs_events st @ ?evs" using t assms(3) by (simp add: announce_target_pool_def)
  have w: "fold watch ?evs v = ((sni, ip, tg_score t), length (ps_members (rs_pool st1)))" for v by (cases v) simp
  show "announces shows_target st (announce_target_pool t st1)"
    by (rule announcesI [OF e]) (unfold w, use assms(2) t in \<open>simp add: shows_target_def\<close>)
  show "announces shows_size st (announce_target_pool t st1)"
    by (rule announcesI [OF e]) (unfold w, simp add: shows_size_def)
qed

lemma rescan_balanced_announces:
  assumes "rescan_balanced discovery cfg a entries st = Ok (sm, sw, st')"
  shows "announces shows_target st st' \<and> announces shows_size st st'"
proof -
  define cs where "cs = (if discovery then snd (discover_pool_ttls (probe_pool_target a)
      (sni_candidates entries (LOAD_BALANCE_TARGET_COUNT cfg) (switch_min_score cfg)) (snd (probe_snapshot (rs_pool st))) None ())
    else sni_candidates entries (LOAD_BALANCE_TARGET_COUNT cfg) (switch_min_score cfg))"
  have sni: "\<forall>t \<in> set cs. sni_target t" unfolding cs_def
    using discovered_pool_sni [of "sni_candidates entries (LOAD_BALANCE_TARGET_COUNT cfg) (switch_min_score cfg)" "probe_pool_target a"] sni_candidates_sni by auto
  show ?thesis
  proof (cases "cs = []")
    case True
    then have "st' = st" using assms by (simp add: rescan_balanced_def Let_def cs_def [symmetric])
    then show ?thesis using announces_same by blast
  next
    case False
    let ?st1 = "store_probe_target (tg_ip (hd cs)) (snd (replace_pool cs st))"
    have rep: "representative (rs_pool (snd (replace_pool cs st))) = Ok (hd cs)" by (rule replace_pool_simps(1) [OF False])
    have "st' = announce_target_pool (hd cs) ?st1"
      using assms False rep unfolding rescan_balanced_def Let_def cs_def [symmetric] by (auto split: prod.splits)
    moreover have "sni_target (hd cs)" "representative (rs_pool ?st1) = Ok (hd cs)" "rs_events ?st1 = rs_events st" using sni False rep by simp_all
    ultimately show ?thesis using announce_target_pool_shows by metis
  qed
qed

text \<open>The single target: the switch announces it; the pool has one member before and after.\<close>

lemma switch_sni_announces:
  "announces shows_target st (switch_sni t d st)"
  "length (ps_members (rs_pool st)) = 1 \<Longrightarrow> announces shows_size st (switch_sni t d st)"
proof -
  let ?ts = "[target_of_sni (at_sni t) (at_ip t) (at_score t)]"
  let ?evs = "SniTargetChanged (at_sni t) (at_ip t) (at_score t) # (case d of None \<Rightarrow> [] | Some ttl \<Rightarrow> [LowTtlDiscovered ttl])"
  have e: "rs_events (switch_sni t d st) = rs_events st @ ?evs" by (simp add: switch_sni_def Let_def split: option.splits)
  have pool: "rs_pool (switch_sni t d st) = rs_pool (snd (replace_pool ?ts st))" by (simp add: switch_sni_def Let_def split: option.splits)
  have w: "fold watch ?evs v = ((at_sni t, at_ip t, at_score t), snd v)" for v by (cases v) (simp split: option.splits)
  show "announces shows_target st (switch_sni t d st)"
    by (rule announcesI [OF e]) (unfold w pool, use replace_pool_simps(1) [of ?ts st] in \<open>simp add: shows_target_def target_of_sni_def target_of_ip_def\<close>)
  have "length (map pm_target (ps_members (snd (pool_replace (rs_pool st) ?ts)))) = 1"
    by (subst replaced_members) (simp_all add: unique_targets_def)
  then have one: "length (ps_members (rs_pool (snd (replace_pool ?ts st)))) = 1" by (simp add: replace_pool_def case_prod_unfold)
  show "announces shows_size st (switch_sni t d st)" if "length (ps_members (rs_pool st)) = 1"
    by (rule announcesI [OF e]) (unfold w pool, use one that in \<open>simp add: shows_size_def\<close>)
qed

lemma rescan_single_announces:
  assumes "rescan_single discovery manual cfg a entries st = Ok (sw, st')"
  shows "announces shows_target st st' \<and> (length (ps_members (rs_pool st)) = 1 \<longrightarrow> announces shows_size st st')"
proof -
  have run: "rs_events (snd (discovery_run a n i st)) = rs_events st" "rs_pool (snd (discovery_run a n i st)) = rs_pool st" for n i
    by (auto simp: discovery_run_def split: option.splits)
  have "st' = st \<or> (\<exists>n i. st' = snd (discovery_run a n i st)) \<or> (\<exists>t d. st' = switch_sni t d st)
      \<or> (\<exists>t d n i. st' = switch_sni t d (snd (discovery_run a n i st)))"
    using assms by (auto simp: rescan_single_def Let_def split: option.splits res.splits IpAddr.splits if_splits prod.splits) (metis snd_conv)+
  then consider "st' = st" | n i where "st' = snd (discovery_run a n i st)" | t d where "st' = switch_sni t d st"
    | t d n i where "st' = switch_sni t d (snd (discovery_run a n i st))" by blast
  then show ?thesis
  proof cases
    case 4
    then show ?thesis using switch_sni_announces [of "snd (discovery_run a n i st)" t d] announces_same [OF run, of shows_target n i]
        announces_same [OF run, of shows_size n i] announces_trans run(2) [of n i] by metis
  qed (use announces_same run switch_sni_announces in \<open>auto\<close>)
qed

lemma rescan_announced:
  assumes "rescan_sni_once discovery manual cfg a st = Ok (out, st')"
  shows "announces shows_target st st' \<and> (LOAD_BALANCE_ENABLED cfg \<or> length (ps_members (rs_pool st)) = 1 \<longrightarrow> announces shows_size st st')"
proof -
  let ?st0 = "send_rescan_event RescanStarted st"
  have fin: "announces P s (snd (rescan_finished sm sw s))" for P s sm sw by (simp add: rescan_finished_def announces_quiet)
  have start: "announces P st ?st0" for P by (simp add: announces_quiet)
  consider sm sw where "st' = snd (rescan_finished sm sw st)" | sm sw where "st' = snd (rescan_finished sm sw ?st0)"
    | es sm sw st1 where "LOAD_BALANCE_ENABLED cfg" "rescan_balanced discovery cfg a es ?st0 = Ok (sm, sw, st1)" "st' = snd (rescan_finished sm sw st1)"
    | es sm sw st1 where "\<not> LOAD_BALANCE_ENABLED cfg" "rescan_single discovery manual cfg a es ?st0 = Ok (sw, st1)" "st' = snd (rescan_finished sm sw st1)"
    using assms by (auto simp: rescan_sni_once_def Let_def split: if_splits res.splits option.splits) (metis snd_conv)+
  then show ?thesis
  proof cases
    case 1
    then show ?thesis using fin by simp
  next
    case 2
    then show ?thesis using fin start announces_trans by blast
  next
    case 3
    then show ?thesis using fin start rescan_balanced_announces [OF 3(2)] announces_trans by metis
  next
    case 4
    have "length (ps_members (rs_pool ?st0)) = length (ps_members (rs_pool st))" by simp
    then show ?thesis using 4 fin start rescan_single_announces [OF 4(2)] announces_trans by metis
  qed
qed

text \<open>
  C32. A rescan of the names leaves the proxy with a target: it never panics, whatever the scan, the user and the discovery answer, the pool stays well
  formed and non-empty with only named IPv4 members, and the address the network monitor probes stays that of the pool's representative. What is announced
  stays in step as well: a reader of the events that knew the representative's name, address and score before the rescan knows those of the new one after it,
  and with load balancing, or with a pool of one target, it also knows the size of the pool.
\<close>

theorem rescan_keeps_sni_pool:
  assumes "sni_pool_ok (rs_pool st)" "in_step st"
  shows "\<exists>out st'. rescan_sni_once discovery manual cfg a st = Ok (out, st') \<and> sni_pool_ok (rs_pool st') \<and> in_step st'
    \<and> announces shows_target st st' \<and> (LOAD_BALANCE_ENABLED cfg \<or> length (ps_members (rs_pool st)) = 1 \<longrightarrow> announces shows_size st st')"
  using rescan_ok [OF assms, of discovery manual cfg a] rescan_announced by blast

definition sample_sni_state :: RescanState where
  "sample_sni_state = \<lparr>rs_pool = snd (pool_replace (empty_pool 7) [target_of_sni ''a.example'' 0x01020304 80]), rs_probe_target = 0x01020304,
     rs_low_ttl = 8, rs_events = []\<rparr>"

lemma sample_sni_state_ok: "sni_pool_ok (rs_pool sample_sni_state)" "in_step sample_sni_state" "representative (rs_pool sample_sni_state) = Ok (target_of_sni ''a.example'' 0x01020304 80)"
proof -
  have "pool_ok (rs_pool sample_sni_state)" unfolding sample_sni_state_def
    by (simp, rule pool_replace_ok(1)) (simp_all add: empty_pool_def history_ok_def)
  then show "sni_pool_ok (rs_pool sample_sni_state)"
    by (simp add: sni_pool_ok_def sample_sni_state_def pool_replace_def unique_targets_def place_target_def empty_pool_def sni_target_def target_of_sni_def target_of_ip_def Let_def)
  show r: "representative (rs_pool sample_sni_state) = Ok (target_of_sni ''a.example'' 0x01020304 80)"
    by (simp add: sample_sni_state_def replaced_representative)
  show "in_step sample_sni_state" unfolding in_step_def
    using r by (simp add: sample_sni_state_def target_of_sni_def target_of_ip_def monitor_probe_target_def)
qed

definition sample_scan :: "SniProbeEntry RescanAnswers" where
  "sample_scan = \<lparr>ra_scan = Some [\<lparr>se_sni = ''b.example'', se_ip = 0x05060708, se_tcp_latency_ms = Some 20, se_score = 90\<rparr>],
     ra_user = (\<lambda>_. None), ra_found = (\<lambda>_ _. Some 11), ra_applies = True\<rparr>"

theorem rescan_keeps_sni_pool_witness:
  "\<exists>out st'. rescan_sni_once True False (default_config 44444) sample_scan sample_sni_state = Ok (out, st') \<and> in_step st'
     \<and> shows_target (fold watch (rs_events st') ((''a.example'', 0x01020304, 80), 1)) (rs_pool st')"
proof -
  obtain out st' where r: "rescan_sni_once True False (default_config 44444) sample_scan sample_sni_state = Ok (out, st')" "in_step st'"
    "announces shows_target sample_sni_state st'"
    using rescan_keeps_sni_pool [OF sample_sni_state_ok(1, 2)] by blast
  have "shows_target ((''a.example'', 0x01020304, 80), 1) (rs_pool sample_sni_state)"
    by (simp add: shows_target_def sample_sni_state_ok(3)) (simp add: target_of_sni_def target_of_ip_def)
  moreover have "rs_events sample_sni_state = []" by (simp add: sample_sni_state_def)
  ultimately show ?thesis using r unfolding announces_def by (metis append_Nil)
qed

text \<open>
  When an automatic rescan changes the target: with a single target it switches exactly to the best entry of the scan, and only if that is another
  target with the configured score; when TTL discovery is on, only with a TTL that was found for the new target, and that TTL is then the live one.
  Otherwise the target, the probed address and the TTL are what they were.
\<close>

theorem rescan_switch_policy:
  assumes "\<not> LOAD_BALANCE_ENABLED cfg" "sni_pool_ok (rs_pool st)" "representative (rs_pool st) = Ok current"
    "rescan_sni_once discovery False cfg a st = Ok (out, st')"
  shows "if ro_switched out
    then (\<exists>e rest. ra_scan a = Some (e # rest) \<and> switch_min_score cfg \<le> se_score e \<and> (tg_sni current, tg_ip current) \<noteq> (Some (se_sni e), V4 (se_ip e))
        \<and> representative (rs_pool st') = Ok (target_of_sni (se_sni e) (se_ip e) (se_score e))
        \<and> (if discovery then ra_found a (se_sni e) (se_ip e) = Some (rs_low_ttl st') else rs_low_ttl st' = rs_low_ttl st))
    else rs_pool st' = rs_pool st \<and> rs_probe_target st' = rs_probe_target st \<and> rs_low_ttl st' = rs_low_ttl st"
proof (cases "ra_scan a")
  case None
  then show ?thesis using assms(1, 4) by (auto simp: rescan_sni_once_def rescan_finished_def Let_def)
next
  case (Some entries)
  let ?st = "send_rescan_event RescanStarted st"
  obtain sni ip where cur: "tg_sni current = Some sni" "tg_ip current = V4 ip" using sni_pool_representative [OF assms(2)] assms(3) by auto
  obtain sw st1 where r: "rescan_single discovery False cfg a entries ?st = Ok (sw, st1)" "ro_switched out = sw"
      "rs_pool st' = rs_pool st1" "rs_probe_target st' = rs_probe_target st1" "rs_low_ttl st' = rs_low_ttl st1"
    using assms(1, 4) Some by (auto simp: rescan_sni_once_def rescan_finished_def Let_def split: res.splits)
  show ?thesis
  proof (cases entries)
    case Nil
    then show ?thesis using r by (auto simp: rescan_single_def)
  next
    case (Cons e rest)
    define switch where "switch = (should_switch_sni_target \<lparr>at_sni = sni, at_ip = ip, at_score = tg_score current\<rparr> e (switch_min_score cfg))"
    have step: "rescan_single discovery False cfg a entries ?st = (if \<not> switch then Ok (False, ?st)
        else if \<not> discovery then Ok (True, switch_sni (active_of_entry e) None ?st)
        else (case discovery_run a (se_sni e) (se_ip e) ?st of (Some ttl, st1) \<Rightarrow> Ok (True, switch_sni (active_of_entry e) (Some ttl) st1) | (None, st1) \<Rightarrow> Ok (False, st1)))"
      using Cons assms(3) cur
      by (cases switch) (auto simp: rescan_single_def Let_def select_rescan_target_def discovery_gated_switch_def switch_def active_of_entry_def
          split: option.splits prod.splits)
    have sw_ok: "rs_low_ttl (switch_sni (active_of_entry e) d s) = rs_low_ttl s
        \<and> representative (rs_pool (switch_sni (active_of_entry e) d s)) = Ok (target_of_sni (se_sni e) (se_ip e) (se_score e))" if "rs_pool s = rs_pool st" for d s
      using switch_sni_ok [of s "active_of_entry e" d] assms(2) that by (simp add: active_of_entry_def)
    have wanted: "switch \<longleftrightarrow> switch_min_score cfg \<le> se_score e \<and> (tg_sni current, tg_ip current) \<noteq> (Some (se_sni e), V4 (se_ip e))"
      using cur by (auto simp: switch_def should_switch_sni_target_def)
    show ?thesis using Some Cons r step sw_ok wanted
      by (auto simp: discovery_run_def split: if_splits option.splits)
  qed
qed

theorem rescan_switch_policy_witness:
  "\<exists>out st'. rescan_sni_once True False (default_config 44444) sample_scan sample_sni_state = Ok (out, st')
     \<and> (ro_switched out \<longrightarrow> Some (rs_low_ttl st') = Some 11)"
proof -
  obtain out st' where r: "rescan_sni_once True False (default_config 44444) sample_scan sample_sni_state = Ok (out, st')"
    using rescan_ok [OF sample_sni_state_ok(1, 2)] by blast
  show ?thesis using rescan_switch_policy [OF _ sample_sni_state_ok(1, 3) r] r by (auto simp: default_config_def sample_scan_def split: if_splits)
qed


end
