(* ===== verification/Reload.thy ===== *)
theory Reload
  imports Rescan Composite
begin

text \<open>
  Reloading the configuration, src/crates/zerodpi/src/reload.rs: the generations of the service that follow each other in one session, with the
  roll back to the last configuration that came up. A generation is the record of what its run did to the session; what the user answers on the
  error screens and whether the interceptor confirms its stop are given with it.
\<close>

section \<open>Candidates\<close>

definition is_proxy_mode :: "string \<Rightarrow> bool" where
  "is_proxy_mode mode = (mode \<in> {''sni_spoof'', ''ip_bypass'', ''ip_bypass_plus''})"

text \<open>
  What the checks ask outside: \<open>rc_valid\<close> is \<^verbatim>\<open>Config::validate\<close>, \<open>rc_addresses\<close> the parsing of the listen address and of the selected address,
  \<open>rc_helper\<close> whether a helper is there and disconnected, \<open>rc_access\<close> the right to intercept, \<open>rc_list\<close> whether the list of targets can be read,
  \<open>rc_pinned\<close> whether an address is selected, and \<open>rc_same\<close> the comparison of the serialised configurations.
\<close>

record ReloadChecks =
  rc_valid :: "Config \<Rightarrow> bool"
  rc_addresses :: "Config \<Rightarrow> bool"
  rc_helper :: "bool option"
  rc_access :: bool
  rc_list :: bool
  rc_pinned :: bool
  rc_same :: "Config \<Rightarrow> Config \<Rightarrow> bool"
  rc_seed :: u64

definition validate_reload :: "ReloadChecks \<Rightarrow> Config \<Rightarrow> bool" where
  "validate_reload k cfg = (rc_valid k cfg \<and> is_proxy_mode (MODE cfg) \<and> rc_addresses k cfg
     \<and> (mode_requires_packet_interception (MODE cfg) (BYPASS_METHOD cfg) \<longrightarrow>
          (case rc_helper k of Some disconnected \<Rightarrow> \<not> disconnected | None \<Rightarrow> rc_access k) \<and> build_method (rc_seed k) cfg \<noteq> None))"

text \<open>\<^verbatim>\<open>Session::candidate\<close> on the loaded configuration: \<open>None\<close> is an error, \<open>Some None\<close> no change.\<close>

definition reload_candidate :: "ReloadChecks \<Rightarrow> Config option \<Rightarrow> Config option \<Rightarrow> Config option option" where
  "reload_candidate k loaded active = (case loaded of None \<Rightarrow> None
   | Some next \<Rightarrow> if \<not> validate_reload k next then None
       else if (case active of Some cfg \<Rightarrow> rc_same k cfg next | None \<Rightarrow> False) then Some None
       else if (MODE next = ''sni_spoof'' \<and> SELECTED_SNI next = None \<or> MODE next \<in> {''ip_bypass'', ''ip_bypass_plus''} \<and> \<not> rc_pinned k) \<and> \<not> rc_list k
       then None else Some (Some next))"

section \<open>Sessions\<close>

text \<open>The fields of \<^verbatim>\<open>Session\<close> that the loop works on; \<open>sn_plane\<close> says whether an interceptor is owned.\<close>

record Session =
  sn_plane :: bool
  sn_monitor :: bool
  sn_pool :: "Target list option"
  sn_pending :: "Config option"
  sn_restore :: "Target list option"
  sn_notice :: "string option"
  sn_ready :: bool
  sn_discovered :: "u8 option"

text \<open>What the user and the interceptor answer: a stop that is not confirmed asks the user, and the screen itself may fail.\<close>

datatype ScreenAnswer = Again | Quit | ScreenFailed

datatype CloseAnswer = Confirmed | Unconfirmed ScreenAnswer

text \<open>What one run of \<^verbatim>\<open>execute\<close> leaves in the session and returns, then the answers of the clean up and of the screen after a failed roll back.\<close>

record Generation =
  gn_plane :: bool
  gn_monitor :: bool
  gn_pool :: "Target list option"
  gn_ready :: bool
  gn_discovered :: "u8 option"
  gn_pending :: "Config option"
  gn_error :: "string option"
  gn_closes :: "CloseAnswer list"
  gn_screen :: "(ScreenAnswer \<times> Config option option) list"

text \<open>
  What can be seen of the loop: a generation with the targets it is told to restore, the answer of a data plane that was asked to stop, and a
  screen shown to the user.
\<close>

datatype ReloadAction = Execute Config "Target list option" Generation | StopPlane bool | AskUser

record Backup =
  bk_config :: Config
  bk_targets :: "Target list"

datatype ReloadEnd = Waiting | ReturnOk | ReturnErr

definition start_generation :: "Session \<Rightarrow> Session" where
  "start_generation s = s\<lparr>sn_pending := None, sn_ready := False, sn_pool := None, sn_discovered := None\<rparr>"

definition after_execute :: "Generation \<Rightarrow> Session \<Rightarrow> Session" where
  "after_execute g s = s\<lparr>sn_plane := sn_plane s \<or> gn_plane g, sn_monitor := sn_monitor s \<or> gn_monitor g, sn_pool := gn_pool g, sn_ready := gn_ready g,
     sn_discovered := gn_discovered g, sn_pending := gn_pending g\<rparr>"

definition backup_of :: "Config \<Rightarrow> Session \<Rightarrow> Backup" where
  "backup_of cfg s = (let targets = (case sn_pool s of None \<Rightarrow> [] | Some ts \<Rightarrow> ts) in
     \<lparr>bk_config = cfg, bk_targets = (case targets of
        t # ts \<Rightarrow> if LOAD_BALANCE_ENABLED cfg then targets
          else t\<lparr>tg_low_ttl := (case sn_discovered s of Some v \<Rightarrow> Some v | None \<Rightarrow> tg_low_ttl t)\<rparr> # ts
      | [] \<Rightarrow> [])\<rparr>)"

text \<open>
  \<^verbatim>\<open>close_generation\<close>; the argument is what the data plane answers to \<^verbatim>\<open>close_for_reload\<close>. It is asked only when the session owns one, and the
  session keeps it when the stop is not confirmed.
\<close>

definition close_generation :: "bool \<Rightarrow> Session \<Rightarrow> ReloadAction list \<times> Session \<times> bool" where
  "close_generation answer s = (let s = s\<lparr>sn_monitor := False\<rparr> in
     if sn_plane s then (if answer then ([StopPlane True], s\<lparr>sn_plane := False\<rparr>, True) else ([StopPlane False], s, False))
     else ([], s\<lparr>sn_plane := False\<rparr>, True))"

text \<open>The loop around it: \<open>None\<close> is still running, \<open>Some False\<close> an error the user gave up on.\<close>

fun close_loop :: "CloseAnswer list \<Rightarrow> Session \<Rightarrow> ReloadAction list \<times> Session \<times> bool option" where
  "close_loop [] s = (if sn_plane s then ([], s, None) else (case close_generation True s of (tr, s1, _) \<Rightarrow> (tr, s1, Some True)))"
| "close_loop (a # as) s = (case close_generation (a = Confirmed) s of
     (tr, s1, True) \<Rightarrow> (tr, s1, Some True)
   | (tr, s1, False) \<Rightarrow> (if a = Unconfirmed Again then (case close_loop as s1 of (tr2, s2, r) \<Rightarrow> (tr @ AskUser # tr2, s2, r))
       else (tr @ [AskUser], s1, Some False)))"

text \<open>\<^verbatim>\<open>retry_screen\<close>: the next configuration, none when the user quits, or an error of the screen.\<close>

fun retry_screen :: "(ScreenAnswer \<times> Config option option) list \<Rightarrow> ReloadAction list \<times> (Config option) option \<times> bool" where
  "retry_screen [] = ([], None, True)"
| "retry_screen ((w, candidate) # as) = (case w of ScreenFailed \<Rightarrow> ([AskUser], None, False)
   | Quit \<Rightarrow> ([AskUser], Some None, True)
   | Again \<Rightarrow> (case candidate of Some next \<Rightarrow> ([AskUser], Some next, True)
       | None \<Rightarrow> (case retry_screen as of (tr, r, ok) \<Rightarrow> (AskUser # tr, r, ok))))"

definition adopt :: "Session \<Rightarrow> Session" where
  "adopt s = s\<lparr>sn_restore := None, sn_notice := Some ''Config reloaded successfully''\<rparr>"

text \<open>The decision after a generation that has been cleaned up: how the loop ends, or the configuration of the next generation and whether it is a roll back.\<close>

definition after_generation :: "Generation \<Rightarrow> Backup option \<Rightarrow> bool \<Rightarrow> Session \<Rightarrow> ReloadAction list \<times> Session \<times> (ReloadEnd + Config \<times> bool)" where
  "after_generation g good restoring s = (case gn_error g of
     None \<Rightarrow> (case sn_pending s of Some cfg \<Rightarrow> ([], adopt (s\<lparr>sn_pending := None\<rparr>), Inr (cfg, False)) | None \<Rightarrow> ([], s, Inl ReturnOk))
   | Some e \<Rightarrow> (case good of None \<Rightarrow> ([], s, Inl ReturnErr)
     | Some b \<Rightarrow> if sn_ready s then ([], s, Inl ReturnErr)
         else if \<not> restoring
         then ([], s\<lparr>sn_restore := Some (bk_targets b), sn_notice := Some (''Previous configuration restored. Config reload failed: '' @ e)\<rparr>, Inr (bk_config b, True))
         else (case retry_screen (gn_screen g) of
             (tr, _, False) \<Rightarrow> (tr, s, Inl ReturnErr)
           | (tr, None, True) \<Rightarrow> (tr, s, Inl Waiting)
           | (tr, Some None, True) \<Rightarrow> (tr, s, Inl ReturnOk)
           | (tr, Some (Some cfg), True) \<Rightarrow> (tr, adopt s, Inr (cfg, False)))))"

fun reload_loop :: "Config \<Rightarrow> Backup option \<Rightarrow> bool \<Rightarrow> Session \<Rightarrow> Generation list \<Rightarrow> ReloadAction list \<times> Session \<times> ReloadEnd" where
  "reload_loop cfg last_good restoring s [] = ([], s, Waiting)"
| "reload_loop cfg last_good restoring s (g # gs) = (let
       s1 = after_execute g (start_generation s);
       good = (if sn_ready s1 then Some (backup_of cfg s1) else last_good) in
     case close_loop (gn_closes g) s1 of
       (tr, s2, None) \<Rightarrow> (Execute cfg (sn_restore s) g # tr, s2, Waiting)
     | (tr, s2, Some False) \<Rightarrow> (Execute cfg (sn_restore s) g # tr, s2, ReturnErr)
     | (tr, s2, Some True) \<Rightarrow> (case after_generation g good restoring s2 of
         (tr1, s3, Inl r) \<Rightarrow> (Execute cfg (sn_restore s) g # tr @ tr1, s3, r)
       | (tr1, s3, Inr (cfg', restoring')) \<Rightarrow> (case reload_loop cfg' good restoring' s3 gs of
           (tr2, s4, r) \<Rightarrow> (Execute cfg (sn_restore s) g # tr @ tr1 @ tr2, s4, r))))"

definition new_session :: Session where
  "new_session = \<lparr>sn_plane = False, sn_monitor = False, sn_pool = None, sn_pending = None, sn_restore = None, sn_notice = None, sn_ready = False, sn_discovered = None\<rparr>"

text \<open>\<^verbatim>\<open>run_loop\<close> on a fresh session.\<close>

definition reload_run :: "Config \<Rightarrow> Generation list \<Rightarrow> ReloadAction list \<times> Session \<times> ReloadEnd" where
  "reload_run cfg gs = reload_loop cfg None False new_session gs"

text \<open>
  \<^verbatim>\<open>run_with\<close>: the loop, a last clean up, and the shutdown of a helper that is still connected (\<open>helper_ok\<close> is its answer, \<open>None\<close> without such a helper).
  The flag says whether the program ends without an error.
\<close>

definition run_with :: "Config \<Rightarrow> Generation list \<Rightarrow> bool \<Rightarrow> bool option \<Rightarrow> ReloadAction list \<times> Session \<times> bool option" where
  "run_with cfg gs close_ok helper_ok = (case reload_run cfg gs of
     (tr, s, Waiting) \<Rightarrow> (tr, s, None)
   | (tr, s, r) \<Rightarrow> (case close_generation close_ok s of
       (tr', s', stopped) \<Rightarrow> (tr @ tr', s', Some (r = ReturnOk \<and> stopped \<and> helper_ok \<noteq> Some False))))"

lemma run_with_ok_closed: "run_with cfg gs close_ok helper_ok = (tr, s, Some True) \<Longrightarrow> \<not> sn_plane s \<and> \<not> sn_monitor s"
  by (auto simp: run_with_def close_generation_def Let_def split: prod.splits ReloadEnd.splits if_splits)

section \<open>Generations do not overlap\<close>

text \<open>
  Whether an interceptor is live after a run of actions, and that no generation starts while one is. It is live from the generation that opened it
  until a data plane that was asked to stop has confirmed it; what the session believes to own plays no part.
\<close>

fun live_after :: "bool \<Rightarrow> ReloadAction list \<Rightarrow> bool" where
  "live_after live [] = live"
| "live_after live (Execute _ _ g # as) = live_after (live \<or> gn_plane g) as"
| "live_after live (StopPlane confirmed # as) = live_after (live \<and> \<not> confirmed) as"
| "live_after live (AskUser # as) = live_after live as"

fun never_over_live :: "bool \<Rightarrow> ReloadAction list \<Rightarrow> bool" where
  "never_over_live live [] \<longleftrightarrow> True"
| "never_over_live live (Execute _ _ g # as) \<longleftrightarrow> \<not> live \<and> never_over_live (gn_plane g) as"
| "never_over_live live (StopPlane confirmed # as) \<longleftrightarrow> never_over_live (live \<and> \<not> confirmed) as"
| "never_over_live live (AskUser # as) \<longleftrightarrow> never_over_live live as"

lemma live_after_append: "live_after live (xs @ ys) = live_after (live_after live xs) ys"
  by (induction live xs rule: live_after.induct) auto

lemma never_over_live_append: "never_over_live live (xs @ ys) \<longleftrightarrow> never_over_live live xs \<and> never_over_live (live_after live xs) ys"
  by (induction live xs rule: never_over_live.induct) auto

fun is_execute :: "ReloadAction \<Rightarrow> bool" where
  "is_execute (Execute _ _ _) = True"
| "is_execute _ = False"

lemma no_execute_ok: "\<forall>a \<in> set tr. \<not> is_execute a \<Longrightarrow> never_over_live live tr \<and> (\<not> live \<longrightarrow> \<not> live_after live tr)"
  by (induction live tr rule: never_over_live.induct) auto

text \<open>Closing keeps track of a live interceptor: the session owns it until its stop is confirmed.\<close>

lemma close_generation_props:
  assumes "close_generation answer s = (tr, s', ok)"
  shows "(\<forall>a \<in> set tr. \<not> is_execute a) \<and> (live \<and> \<not> sn_plane s \<or> (live_after live tr \<longrightarrow> sn_plane s')) \<and> (ok \<longrightarrow> \<not> sn_plane s')
    \<and> sn_restore s' = sn_restore s \<and> sn_ready s' = sn_ready s \<and> sn_pending s' = sn_pending s"
  using assms by (auto simp: close_generation_def Let_def split: if_splits)

lemma close_loop_props: "close_loop as s = (tr, s', r) \<Longrightarrow> (live \<longrightarrow> sn_plane s) \<Longrightarrow> (\<forall>a \<in> set tr. \<not> is_execute a)
    \<and> (live_after live tr \<longrightarrow> sn_plane s') \<and> (r = Some True \<longrightarrow> \<not> sn_plane s')
    \<and> sn_restore s' = sn_restore s \<and> sn_ready s' = sn_ready s \<and> sn_pending s' = sn_pending s"
proof (induction as arbitrary: s tr s' r live)
  case Nil
  then show ?case by (auto simp: close_generation_def Let_def split: if_splits)
next
  case (Cons a as)
  obtain tr1 s1 ok where c: "close_generation (a = Confirmed) s = (tr1, s1, ok)" by (rule prod_cases3)
  have p: "\<forall>a \<in> set tr1. \<not> is_execute a" "live_after live tr1 \<longrightarrow> sn_plane s1" "ok \<longrightarrow> \<not> sn_plane s1"
    "sn_restore s1 = sn_restore s" "sn_ready s1 = sn_ready s" "sn_pending s1 = sn_pending s"
    using close_generation_props [OF c, of live] Cons.prems(2) by auto
  show ?case
  proof (cases "\<not> ok \<and> a = Unconfirmed Again")
    case True
    obtain tr2 s2 r2 where rec: "close_loop as s1 = (tr2, s2, r2)" by (rule prod_cases3)
    from Cons.IH [OF rec p(2)] show ?thesis using Cons.prems(1) c rec True p by (auto simp: live_after_append)
  next
    case False
    then show ?thesis using Cons.prems(1) c p by (cases ok) (auto simp: live_after_append)
  qed
qed

lemma retry_screen_props: "retry_screen as = (tr, r, ok) \<Longrightarrow> (\<forall>a \<in> set tr. \<not> is_execute a)
    \<and> (\<forall>c. r = Some (Some c) \<longrightarrow> (\<exists>refusals rest. as = refusals @ (Again, Some (Some c)) # rest \<and> (\<forall>x \<in> set refusals. x = (Again, None))))"
proof (induction as arbitrary: tr r ok rule: retry_screen.induct)
  case (2 w candidate as)
  show ?case
  proof (cases "w = Again \<and> candidate = None")
    case True
    obtain tr1 r1 ok1 where rec: "retry_screen as = (tr1, r1, ok1)" by (rule prod_cases3)
    have "w = Again" "candidate = None" using True by auto
    from "2.IH" [OF this rec] have ih: "\<forall>a \<in> set tr1. \<not> is_execute a"
      "\<forall>c. r1 = Some (Some c) \<longrightarrow> (\<exists>refusals rest. as = refusals @ (Again, Some (Some c)) # rest \<and> (\<forall>x \<in> set refusals. x = (Again, None)))" by auto
    have e: "tr = AskUser # tr1" "r = r1" using "2.prems" True rec by auto
    have "\<exists>refusals rest. (w, candidate) # as = refusals @ (Again, Some (Some c)) # rest \<and> (\<forall>x \<in> set refusals. x = (Again, None))" if rc: "r = Some (Some c)" for c
    proof -
      obtain refusals rest where "as = refusals @ (Again, Some (Some c)) # rest" "\<forall>x \<in> set refusals. x = (Again, None)" using ih(2) rc e by blast
      then show ?thesis using True by (intro exI [of _ "(w, candidate) # refusals"] exI [of _ rest]) auto
    qed
    then show ?thesis using ih(1) e by auto
  next
    case False
    then show ?thesis using "2.prems" by (cases w; cases candidate) (fastforce intro: exI [of _ "[]"])+
  qed
qed auto

lemma after_generation_quiet:
  "after_generation g good restoring s = (tr, s', r) \<Longrightarrow> (\<forall>a \<in> set tr. \<not> is_execute a) \<and> sn_plane s' = sn_plane s"
  using retry_screen_props [of "gn_screen g"]
  by (auto simp: after_generation_def adopt_def split: option.splits if_splits prod.splits bool.splits)

lemma reload_loop_no_overlap:
  "reload_loop cfg good restoring s gs = (tr, s', r) \<Longrightarrow> \<not> sn_plane s \<Longrightarrow> never_over_live False tr \<and> (live_after False tr \<longrightarrow> sn_plane s')"
proof (induction gs arbitrary: cfg good restoring s tr s' r)
  case (Cons g gs)
  let ?s1 = "after_execute g (start_generation s)"
  define good' where "good' = (if sn_ready ?s1 then Some (backup_of cfg ?s1) else good)"
  obtain tr1 s2 c where cl: "close_loop (gn_closes g) ?s1 = (tr1, s2, c)" by (rule prod_cases3)
  have "gn_plane g \<longrightarrow> sn_plane ?s1" by (simp add: after_execute_def)
  note p = close_loop_props [OF cl this]
  have ne: "never_over_live (gn_plane g) tr1" using no_execute_ok [of tr1] p by blast
  show ?case
  proof (cases "c = Some True")
    case True
    obtain tr2 s3 d where ag: "after_generation g good' restoring s2 = (tr2, s3, d)" by (rule prod_cases3)
    note q = after_generation_quiet [OF ag]
    have live: "\<not> live_after (gn_plane g) tr1" "\<not> sn_plane s3" using p q True by auto
    have quiet: "never_over_live False tr2" "\<not> live_after False tr2" using q no_execute_ok [of tr2 False] by auto
    show ?thesis
    proof (cases d)
      case (Inl r')
      then show ?thesis using Cons.prems cl ag True ne quiet live
        by (auto simp: Let_def good'_def [symmetric] never_over_live_append live_after_append)
    next
      case (Inr x)
      obtain cfg' rb where x: "x = (cfg', rb)" by fastforce
      obtain tr3 s4 r3 where rec: "reload_loop cfg' good' rb s3 gs = (tr3, s4, r3)" by (rule prod_cases3)
      note Cons.IH [OF rec live(2)]
      then show ?thesis using Cons.prems cl ag True Inr x rec ne quiet live
        by (auto simp: Let_def good'_def [symmetric] never_over_live_append live_after_append)
    qed
  next
    case False
    then show ?thesis using Cons.prems cl ne p by (cases c) (auto simp: Let_def)
  qed
qed simp

lemma run_with_closed:
  assumes "run_with cfg gs close_ok helper_ok = (tr, s, r)"
  shows "never_over_live False tr \<and> \<not> (r = Some True \<and> live_after False tr)"
proof -
  obtain tr1 s1 r1 where run: "reload_run cfg gs = (tr1, s1, r1)" by (rule prod_cases3)
  then have p: "never_over_live False tr1" "live_after False tr1 \<longrightarrow> sn_plane s1"
    using reload_loop_no_overlap [of cfg None False new_session gs tr1 s1 r1] by (auto simp: reload_run_def new_session_def)
  obtain tr2 s2 ok where c: "close_generation close_ok s1 = (tr2, s2, ok)" by (rule prod_cases3)
  note q = close_generation_props [OF c, of "live_after False tr1"]
  have "never_over_live (live_after False tr1) tr2" using q no_execute_ok [of tr2] by blast
  then show ?thesis using assms run c p q
    by (cases r1) (auto simp: run_with_def never_over_live_append live_after_append)
qed

text \<open>
  C30. Generations of the service do not overlap: over every sequence of reloads, failures, roll backs and user answers, a generation is started only
  when no interceptor of an earlier one is live, that is after a data plane that was asked to stop has confirmed it; a close that asked none does not count.
  Nor does the program end without an error while an interceptor is live.
\<close>

theorem generations_do_not_overlap:
  "never_over_live False (fst (run_with cfg gs close_ok helper_ok))
   \<and> \<not> (snd (snd (run_with cfg gs close_ok helper_ok)) = Some True \<and> live_after False (fst (run_with cfg gs close_ok helper_ok)))"
  using run_with_closed [of cfg gs close_ok helper_ok] by (cases "run_with cfg gs close_ok helper_ok") simp


section \<open>Roll back\<close>

text \<open>
  What a roll back has to bring back, said of the generation that came up and not of the code's \<^verbatim>\<open>Backup\<close>: the targets of its pool, each one as it was,
  except that without load balancing a TTL discovered for the first one replaces the TTL it had.
\<close>

definition kept_targets :: "Config \<Rightarrow> Generation \<Rightarrow> Target list \<Rightarrow> bool" where
  "kept_targets cfg g ts = (case gn_pool g of None \<Rightarrow> ts = []
   | Some ps \<Rightarrow> length ts = length ps \<and> (\<forall>i < length ps. ts ! i =
       (if i = 0 \<and> \<not> LOAD_BALANCE_ENABLED cfg \<and> gn_discovered g \<noteq> None then (ps ! i)\<lparr>tg_low_ttl := gn_discovered g\<rparr> else ps ! i)))"

text \<open>
  Which generation may follow: \<open>prev\<close> is the one before, with whether it was itself a roll back, and \<open>good\<close> the latest one that came up. The first
  one is the configuration of the session. After a generation that ended without an error it is the configuration the user reloaded in it. After one
  that failed before it was ready it is the latest that came up, with its targets; and when that was already the roll back, the configuration that
  the user's first successful reload on the error screen gave. Nothing follows a generation that failed after it was ready.
\<close>

definition may_start :: "Config \<Rightarrow> (bool \<times> Generation) option \<Rightarrow> (Config \<times> Generation) option \<Rightarrow> Config \<Rightarrow> Target list option \<Rightarrow> bool" where
  "may_start first prev good cfg restore = (case prev of None \<Rightarrow> cfg = first \<and> restore = None
   | Some (rolled_back, g) \<Rightarrow> if gn_error g = None then gn_pending g = Some cfg \<and> restore = None
       else \<not> gn_ready g \<and> (\<exists>good_cfg good_gen. good = Some (good_cfg, good_gen) \<and>
         (if rolled_back then restore = None \<and> (\<exists>refusals rest. gn_screen g = refusals @ (Again, Some (Some cfg)) # rest \<and> (\<forall>x \<in> set refusals. x = (Again, None)))
          else cfg = good_cfg \<and> (\<exists>ts. restore = Some ts \<and> kept_targets good_cfg good_gen ts))))"

text \<open>And the loop may give up with an error only when the user refused to wait for a stop, or after a failure that cannot be rolled back.\<close>

definition may_give_up :: "(bool \<times> Generation) option \<Rightarrow> (Config \<times> Generation) option \<Rightarrow> bool" where
  "may_give_up prev good = (\<exists>rolled_back g. prev = Some (rolled_back, g) \<and> ((\<exists>w. w \<noteq> Again \<and> Unconfirmed w \<in> set (gn_closes g))
     \<or> gn_error g \<noteq> None \<and> (good = None \<or> gn_ready g \<or> rolled_back)))"

fun starts_ok :: "Config \<Rightarrow> (bool \<times> Generation) option \<Rightarrow> (Config \<times> Generation) option \<Rightarrow> ReloadAction list \<Rightarrow> ReloadEnd \<Rightarrow> bool" where
  "starts_ok first prev good [] r \<longleftrightarrow> r \<noteq> ReturnErr \<or> may_give_up prev good"
| "starts_ok first prev good (Execute cfg restore g # as) r \<longleftrightarrow> may_start first prev good cfg restore
     \<and> starts_ok first (Some (restore \<noteq> None, g)) (if gn_ready g then Some (cfg, g) else good) as r"
| "starts_ok first prev good (_ # as) r \<longleftrightarrow> starts_ok first prev good as r"

lemma starts_ok_skip: "\<forall>a \<in> set xs. \<not> is_execute a \<Longrightarrow> starts_ok first prev good (xs @ ys) r = starts_ok first prev good ys r"
  by (induction first prev good xs r rule: starts_ok.induct) auto

text \<open>The code's backup stands for the latest generation that came up.\<close>

definition backs_up :: "Backup option \<Rightarrow> (Config \<times> Generation) option \<Rightarrow> bool" where
  "backs_up b good = (case b of None \<Rightarrow> good = None | Some k \<Rightarrow> (\<exists>g. good = Some (bk_config k, g) \<and> kept_targets (bk_config k) g (bk_targets k)))"

lemma backup_of_keeps: "kept_targets cfg g (bk_targets (backup_of cfg (after_execute g s)))"
  by (auto simp: kept_targets_def backup_of_def after_execute_def nth_Cons' Let_def split: option.splits list.splits)

lemma close_loop_gives_up: "close_loop as s = (tr, s', Some False) \<Longrightarrow> \<exists>w. w \<noteq> Again \<and> Unconfirmed w \<in> set as"
proof (induction as arbitrary: s tr s')
  case (Cons a as)
  then show ?case by (cases a) (auto simp: close_generation_def Let_def split: if_splits prod.splits, blast)
qed (auto simp: close_generation_def split: if_splits)

lemma after_generation_next:
  assumes "after_generation g good restoring s = (tr, s', r)" "sn_pending s = gn_pending g" "sn_ready s = gn_ready g" "backs_up good latest"
  shows "(\<forall>c rb. r = Inr (c, rb) \<longrightarrow> may_start first (Some (restoring, g)) latest c (sn_restore s') \<and> rb = (sn_restore s' \<noteq> None))
    \<and> (r = Inl ReturnErr \<longrightarrow> may_give_up (Some (restoring, g)) latest)"
proof (cases "gn_error g")
  case None
  then show ?thesis using assms by (auto simp: after_generation_def may_start_def adopt_def split: option.splits)
next
  case (Some e)
  show ?thesis
  proof (cases "good \<noteq> None \<and> \<not> gn_ready g")
    case True
    then obtain b where b: "good = Some b" by blast
    then obtain k where k: "latest = Some (bk_config b, k)" "kept_targets (bk_config b) k (bk_targets b)" using assms(4) by (auto simp: backs_up_def)
    obtain tr1 x ok where scr: "retry_screen (gn_screen g) = (tr1, x, ok)" by (rule prod_cases3)
    show ?thesis using assms(1,3) Some True b k scr retry_screen_props [OF scr]
      by (auto simp: after_generation_def may_start_def may_give_up_def adopt_def split: if_splits bool.splits option.splits)
  next
    case False
    then show ?thesis using assms Some by (auto simp: after_generation_def may_give_up_def backs_up_def split: option.splits if_splits)
  qed
qed

lemma reload_loop_starts:
  assumes "reload_loop cfg good restoring s gs = (tr, s', r)" "may_start first prev latest cfg (sn_restore s)"
    "restoring = (sn_restore s \<noteq> None)" "backs_up good latest"
  shows "starts_ok first prev latest tr r"
  using assms
proof (induction gs arbitrary: cfg good restoring s tr s' r prev latest)
  case (Cons g gs)
  let ?s1 = "after_execute g (start_generation s)"
  define good' where "good' = (if sn_ready ?s1 then Some (backup_of cfg ?s1) else good)"
  define latest' where "latest' = (if gn_ready g then Some (cfg, g) else latest)"
  have bk: "backs_up good' latest'" using Cons.prems(4) backup_of_keeps [of cfg g "start_generation s"]
    by (auto simp: backs_up_def good'_def latest'_def after_execute_def) (simp_all add: backup_of_def Let_def)
  obtain tr1 s2 c where cl: "close_loop (gn_closes g) ?s1 = (tr1, s2, c)" by (rule prod_cases3)
  have p: "\<forall>a \<in> set tr1. \<not> is_execute a" "sn_pending s2 = gn_pending g" "sn_ready s2 = gn_ready g"
    using close_loop_props [OF cl, of False] by (auto simp: after_execute_def)
  note skip1 = starts_ok_skip [OF p(1)]
  show ?case
  proof (cases "c = Some True")
    case True
    obtain tr2 s3 d where ag: "after_generation g good' restoring s2 = (tr2, s3, d)" by (rule prod_cases3)
    note q = after_generation_next [OF ag p(2,3) bk, of first]
    have "\<forall>a \<in> set tr2. \<not> is_execute a" using after_generation_quiet [OF ag] by blast
    note skip2 = starts_ok_skip [OF this]
    show ?thesis
    proof (cases d)
      case (Inl r')
      then show ?thesis using Cons.prems cl ag True q skip1 [of _ _ _ tr2] skip2 [of _ _ _ "[]"]
        by (auto simp: Let_def good'_def [symmetric] latest'_def [symmetric])
    next
      case (Inr x)
      obtain cfg' rb where x: "x = (cfg', rb)" by fastforce
      obtain tr3 s4 r3 where rec: "reload_loop cfg' good' rb s3 gs = (tr3, s4, r3)" by (rule prod_cases3)
      have "starts_ok first (Some (restoring, g)) latest' tr3 r3"
        by (rule Cons.IH [OF rec]) (use q Inr x bk in auto)
      then show ?thesis using Cons.prems cl ag True Inr x rec skip1 [of _ _ _ "tr2 @ tr3"] skip2 [of _ _ _ tr3]
        by (auto simp: Let_def good'_def [symmetric] latest'_def [symmetric])
    qed
  next
    case False
    have "may_give_up (Some (sn_restore s \<noteq> None, g)) latest'" if "c = Some False"
      using close_loop_gives_up [of "gn_closes g" ?s1 tr1 s2] cl that by (auto simp: may_give_up_def)
    then show ?thesis using False Cons.prems cl skip1 [of _ _ _ "[]"] by (cases c) (auto simp: Let_def latest'_def [symmetric])
  qed
qed simp

text \<open>
  C31. A failed reload rolls back to what worked. Over every sequence of generations, the configuration and the targets of the next one are fixed by the
  one before and by the latest that came up: after a generation without an error, the configuration the user reloaded in it, with fresh targets; after one
  that failed before it was ready, the configuration of the latest generation that came up, with exactly the targets of that generation's pool (and the TTL
  discovered for the first one, without load balancing); after a failed roll back, what the user's reload on the error screen gave. The session gives up
  with an error only when the user refuses to wait for a stop, or when a generation fails that was ready, that is itself the roll back, or before any came up.
\<close>

theorem rollback_restores_last_good:
  "starts_ok cfg None None (fst (reload_run cfg gs)) (snd (snd (reload_run cfg gs)))"
  using reload_loop_starts [of cfg None False new_session gs _ _ _ cfg None None]
  by (cases "reload_run cfg gs") (simp add: reload_run_def new_session_def may_start_def backs_up_def)


end
