(* ===== verification/Helper_Protocol.thy ===== *)
theory Helper_Protocol
  imports Flow Config
begin

text \<open>
  The wire protocol between the data plane and the privileged helper, src/crates/zerodpi-helper-protocol/src/lib.rs: messages,
  their checks, the 20-byte frame header and the states of the helper. The JSON encoding of a message is done by
  \<^verbatim>\<open>serde_json\<close>: \<open>to_vec\<close> and \<open>from_slice\<close> are arguments. A reader is the list of bytes still to come and
  a writer the list of bytes written; a read past the end is the I/O error.
\<close>

section \<open>Constants\<close>

definition MAGIC :: bytes where
  "MAGIC = [0x5A, 0x44, 0x48, 0x50]"

definition PROTOCOL_MAJOR :: u16 where
  "PROTOCOL_MAJOR = 1"

definition PROTOCOL_MINOR :: u16 where
  "PROTOCOL_MINOR = 3"

definition HEADER_LEN :: nat where
  "HEADER_LEN = 20"

definition MAX_FRAME_SIZE :: nat where
  "MAX_FRAME_SIZE = 256 * 1024"

definition MAX_FAKE_DATA_SIZE :: nat where
  "MAX_FAKE_DATA_SIZE = 64 * 1024"

definition MAX_LIVE_FLOWS :: nat where
  "MAX_LIVE_FLOWS = 4096"

definition SESSION_PROOF_SIZE :: nat where
  "SESSION_PROOF_SIZE = 32"

section \<open>Messages\<close>

datatype MessageType = THello | THelloAccepted | TConfigureInterceptor | TConfigured | TOpenInterceptor
  | TInterceptorReady | TCloseInterceptor | TInterceptorClosed | TRegisterFlow | TFlowRegistered | TRemoveFlow
  | TFlowRemoved | TFlowProgress | TPing | TPong | TShutdown | TShutdownComplete | THelperWarning | THelperFatal
  | TSetLowTtlValue | TSetLowTtlAck

text \<open>The discriminants of the \<^verbatim>\<open>repr(u16)\<close> enum, and the conversion back.\<close>

fun message_type_code :: "MessageType \<Rightarrow> u16" where
  "message_type_code THello = 1"
| "message_type_code THelloAccepted = 2"
| "message_type_code TConfigureInterceptor = 3"
| "message_type_code TConfigured = 4"
| "message_type_code TOpenInterceptor = 5"
| "message_type_code TInterceptorReady = 6"
| "message_type_code TCloseInterceptor = 7"
| "message_type_code TInterceptorClosed = 8"
| "message_type_code TRegisterFlow = 9"
| "message_type_code TFlowRegistered = 10"
| "message_type_code TRemoveFlow = 11"
| "message_type_code TFlowRemoved = 12"
| "message_type_code TFlowProgress = 13"
| "message_type_code TPing = 14"
| "message_type_code TPong = 15"
| "message_type_code TShutdown = 16"
| "message_type_code TShutdownComplete = 17"
| "message_type_code THelperWarning = 18"
| "message_type_code THelperFatal = 19"
| "message_type_code TSetLowTtlValue = 20"
| "message_type_code TSetLowTtlAck = 21"

datatype ProtocolError = PIo | PInvalidMagic | PUnsupportedVersion u16 u16 | PUnknownMessageType u16
  | POversizedFrame nat | PMessageTypeMismatch | PInvalidField string | PInvalidPayload

definition from_u16 :: "u16 \<Rightarrow> ProtocolError + MessageType" where
  "from_u16 v = (
     if v = 1 then Inr THello else if v = 2 then Inr THelloAccepted else if v = 3 then Inr TConfigureInterceptor
     else if v = 4 then Inr TConfigured else if v = 5 then Inr TOpenInterceptor else if v = 6 then Inr TInterceptorReady
     else if v = 7 then Inr TCloseInterceptor else if v = 8 then Inr TInterceptorClosed
     else if v = 9 then Inr TRegisterFlow else if v = 10 then Inr TFlowRegistered
     else if v = 11 then Inr TRemoveFlow else if v = 12 then Inr TFlowRemoved else if v = 13 then Inr TFlowProgress
     else if v = 14 then Inr TPing else if v = 15 then Inr TPong else if v = 16 then Inr TShutdown
     else if v = 17 then Inr TShutdownComplete else if v = 18 then Inr THelperWarning
     else if v = 19 then Inr THelperFatal else if v = 20 then Inr TSetLowTtlValue
     else if v = 21 then Inr TSetLowTtlAck else Inl (PUnknownMessageType v))"

record Hello =
  session_proof :: bytes
  data_plane_pid :: u32
  build_version :: string

record HelloAccepted =
  peer_uid :: u32
  helper_pid :: u32
  helper_uid :: u32
  protocol_major :: u16
  protocol_minor :: u16
  capabilities :: "string list"

record MethodConfig =
  mc_methods :: "string list"
  mc_wrong_seq_extra_offset :: u32
  mc_wrong_seq_set_psh :: bool
  mc_wrong_seq_bump_ip_ident :: bool
  mc_wrong_checksum_delta :: u16
  mc_wrong_checksum_set_psh :: bool
  mc_wrong_checksum_bump_ip_ident :: bool
  mc_wrong_checksum_complete_immediately :: bool
  mc_wrong_md5_set_psh :: bool
  mc_wrong_md5_bump_ip_ident :: bool
  mc_wrong_md5_complete_immediately :: bool
  mc_wrong_ack_offset :: u32
  mc_wrong_ack_set_psh :: bool
  mc_wrong_ack_bump_ip_ident :: bool
  mc_wrong_ack_complete_immediately :: bool
  mc_wrong_timestamp_offset :: u32
  mc_wrong_timestamp_set_psh :: bool
  mc_wrong_timestamp_bump_ip_ident :: bool
  mc_wrong_timestamp_complete_immediately :: bool
  mc_tls_record_frag_size :: nat
  mc_tls_record_frag_set_psh :: bool
  mc_tls_record_frag_bump_ip_ident :: bool
  mc_low_ttl_value :: u8
  mc_low_ttl_set_psh :: bool
  mc_low_ttl_bump_ip_ident :: bool
  mc_low_ttl_complete_immediately :: bool

text \<open>The wire's firewall backend and flow key have the shape of \<^typ>\<open>LinuxFirewallBackend\<close> and \<^typ>\<open>FlowKey\<close>.\<close>

record InterceptorConfig =
  ic_interface_ip :: ipv4
  ic_remote_ip :: "ipv4 option"
  ic_remote_port :: u16
  ic_queue_num :: u16
  ic_firewall_backend :: LinuxFirewallBackend
  ic_method :: MethodConfig

datatype Progress = PReadyForData | PFakeDataAcked | PUnexpectedClose

datatype ErrorCode = AuthenticationFailed | ProtocolMismatch | InvalidState | InvalidConfig | InterceptorFailed
  | FlowLimitReached | Internal

datatype Message = MHello Hello
  | MHelloAccepted HelloAccepted
  | MConfigureInterceptor InterceptorConfig
  | MConfigured
  | MOpenInterceptor
  | MInterceptorReady
  | MCloseInterceptor
  | MInterceptorClosed
  | MRegisterFlow u64 FlowKey bytes "u8 option"
  | MFlowRegistered u64
  | MRemoveFlow u64
  | MFlowRemoved u64
  | MFlowProgress u64 Progress
  | MPing
  | MPong
  | MShutdown
  | MShutdownComplete
  | MHelperWarning ErrorCode string
  | MHelperFatal ErrorCode string
  | MSetLowTtlValue u8
  | MSetLowTtlAck

fun message_type :: "Message \<Rightarrow> MessageType" where
  "message_type (MHello _) = THello"
| "message_type (MHelloAccepted _) = THelloAccepted"
| "message_type (MConfigureInterceptor _) = TConfigureInterceptor"
| "message_type MConfigured = TConfigured"
| "message_type MOpenInterceptor = TOpenInterceptor"
| "message_type MInterceptorReady = TInterceptorReady"
| "message_type MCloseInterceptor = TCloseInterceptor"
| "message_type MInterceptorClosed = TInterceptorClosed"
| "message_type (MRegisterFlow _ _ _ _) = TRegisterFlow"
| "message_type (MFlowRegistered _) = TFlowRegistered"
| "message_type (MRemoveFlow _) = TRemoveFlow"
| "message_type (MFlowRemoved _) = TFlowRemoved"
| "message_type (MFlowProgress _ _) = TFlowProgress"
| "message_type MPing = TPing"
| "message_type MPong = TPong"
| "message_type MShutdown = TShutdown"
| "message_type MShutdownComplete = TShutdownComplete"
| "message_type (MHelperWarning _ _) = THelperWarning"
| "message_type (MHelperFatal _ _) = THelperFatal"
| "message_type (MSetLowTtlValue _) = TSetLowTtlValue"
| "message_type MSetLowTtlAck = TSetLowTtlAck"

section \<open>Checks\<close>

text \<open>\<^verbatim>\<open>Ipv4Addr::is_unspecified\<close>, \<^verbatim>\<open>is_multicast\<close> (224.0.0.0/4) and \<^verbatim>\<open>is_broadcast\<close>.\<close>

definition invalid_endpoint_address :: "ipv4 \<Rightarrow> bool" where
  "invalid_endpoint_address a = (a = 0 \<or> drop_bit 28 a = 14 \<or> a = 0xFFFFFFFF)"

definition SUPPORTED :: "string list" where
  "SUPPORTED = [''wrong_seq'', ''wrong_ack'', ''wrong_checksum'', ''wrong_md5'', ''wrong_timestamp'', ''low_ttl'',
     ''tls_record_frag'', ''fake_tls'', ''ip_frag'', ''disorder'', ''tls_frag'', ''ccs_prefix'', ''tls_padding'',
     ''mixed_case_sni'', ''urg_sni_split'', ''sni_boundary_frag'']"

text \<open>The first failing check of a list; \<open>None\<close> is \<^verbatim>\<open>Ok(())\<close>.\<close>

fun first_invalid :: "(bool \<times> string) list \<Rightarrow> ProtocolError option" where
  "first_invalid [] = None"
| "first_invalid ((bad, field) # cs) = (if bad then Some (PInvalidField field) else first_invalid cs)"

definition method_config_validate :: "MethodConfig \<Rightarrow> ProtocolError option" where
  "method_config_validate c = first_invalid [
     (mc_methods c = [] \<or> list_ex (\<lambda>m. m \<notin> set SUPPORTED) (mc_methods c), ''method names''),
     (mc_wrong_checksum_delta c = 0, ''wrong checksum delta''),
     (mc_wrong_ack_offset c = 0, ''wrong ACK offset''),
     (mc_wrong_timestamp_offset c = 0, ''wrong timestamp offset''),
     (mc_low_ttl_value c = 0, ''low TTL value''),
     (64 < mc_low_ttl_value c, ''low TTL value''),
     (mc_tls_record_frag_size c = 0 \<or> 65535 < mc_tls_record_frag_size c, ''TLS record fragment size'')]"

definition interceptor_config_validate :: "InterceptorConfig \<Rightarrow> ProtocolError option" where
  "interceptor_config_validate c = (case first_invalid [
     (invalid_endpoint_address (ic_interface_ip c), ''interface address''),
     (case ic_remote_ip c of None \<Rightarrow> False | Some a \<Rightarrow> invalid_endpoint_address a, ''remote address''),
     (ic_remote_port c = 0, ''remote port''),
     (ic_queue_num c = 0, ''queue number'')] of
     Some e \<Rightarrow> Some e | None \<Rightarrow> method_config_validate (ic_method c))"

definition flow_key_validate :: "FlowKey \<Rightarrow> ProtocolError option" where
  "flow_key_validate k = first_invalid [
     (invalid_endpoint_address (fk_src_ip k) \<or> invalid_endpoint_address (fk_dst_ip k), ''flow address''),
     (fk_src_port k = 0 \<or> fk_dst_port k = 0, ''flow port'')]"

fun message_validate :: "Message \<Rightarrow> ProtocolError option" where
  "message_validate (MHello h) = first_invalid [
     (length (session_proof h) \<noteq> SESSION_PROOF_SIZE, ''session proof''),
     (data_plane_pid h = 0 \<or> build_version h = [] \<or> 64 < length (build_version h), ''hello metadata'')]"
| "message_validate (MConfigureInterceptor c) = interceptor_config_validate c"
| "message_validate (MRegisterFlow fid k fd ttl) =
     (if fid = 0 \<or> MAX_FAKE_DATA_SIZE < length fd then Some (PInvalidField ''flow registration'')
      else (case flow_key_validate k of Some e \<Rightarrow> Some e
        | None \<Rightarrow> if (case ttl of None \<Rightarrow> False | Some v \<Rightarrow> v = 0 \<or> 64 < v)
            then Some (PInvalidField ''low TTL override'') else None))"
| "message_validate (MFlowRegistered fid) = first_invalid [(fid = 0, ''flow id'')]"
| "message_validate (MRemoveFlow fid) = first_invalid [(fid = 0, ''flow id'')]"
| "message_validate (MFlowRemoved fid) = first_invalid [(fid = 0, ''flow id'')]"
| "message_validate (MFlowProgress fid _) = first_invalid [(fid = 0, ''flow id'')]"
| "message_validate (MHelloAccepted a) = first_invalid [
     (peer_uid a = 0 \<or> helper_pid a = 0 \<or> helper_uid a \<noteq> 0 \<or> protocol_major a \<noteq> PROTOCOL_MAJOR
        \<or> PROTOCOL_MINOR < protocol_minor a, ''accepted helper identity''),
     (32 < length (capabilities a) \<or> list_ex (\<lambda>c. c = [] \<or> 32 < length c) (capabilities a), ''capabilities'')]"
| "message_validate (MHelperWarning _ msg) = first_invalid [(512 < length msg, ''diagnostic message'')]"
| "message_validate (MHelperFatal _ msg) = first_invalid [(512 < length msg, ''diagnostic message'')]"
| "message_validate (MSetLowTtlValue v) = first_invalid [(v = 0 \<or> 64 < v, ''low TTL value'')]"
| "message_validate _ = None"

section \<open>Frames\<close>

record Frame =
  fr_request_id :: u32
  fr_flags :: u16
  fr_message :: Message

definition frame_new :: "u32 \<Rightarrow> Message \<Rightarrow> Frame" where
  "frame_new rid msg = \<lparr>fr_request_id = rid, fr_flags = 0, fr_message = msg\<rparr>"

definition write_frame :: "(Message \<Rightarrow> bytes option) \<Rightarrow> Frame \<Rightarrow> ProtocolError + bytes" where
  "write_frame to_vec f =
     (if fr_flags f \<noteq> 0 then Inl (PInvalidField ''frame flags'')
      else (case message_validate (fr_message f) of Some e \<Rightarrow> Inl e
      | None \<Rightarrow> (case to_vec (fr_message f) of None \<Rightarrow> Inl PInvalidPayload
      | Some pl \<Rightarrow>
          if MAX_FRAME_SIZE < length pl then Inl (POversizedFrame (length pl))
          else Inr (MAGIC @ u16_to_be PROTOCOL_MAJOR @ u16_to_be PROTOCOL_MINOR
            @ u16_to_be (message_type_code (message_type (fr_message f))) @ u16_to_be (fr_flags f)
            @ u32_to_be (fr_request_id f) @ u32_to_be (word_of_nat (length pl)) @ pl))))"

text \<open>\<^verbatim>\<open>read_frame\<close> returns the frame and the bytes that follow it.\<close>

definition read_frame :: "(bytes \<Rightarrow> Message option) \<Rightarrow> bytes \<Rightarrow> ProtocolError + (Frame \<times> bytes)" where
  "read_frame from_slice input =
     (if length input < HEADER_LEN then Inl PIo
      else (let header = take HEADER_LEN input; rest = drop HEADER_LEN input;
                major = u16_from_be (header ! 4) (header ! 5); minor = u16_from_be (header ! 6) (header ! 7) in
        if take 4 header \<noteq> MAGIC then Inl PInvalidMagic
        else if major \<noteq> PROTOCOL_MAJOR \<or> PROTOCOL_MINOR < minor then Inl (PUnsupportedVersion major minor)
        else (case from_u16 (u16_from_be (header ! 8) (header ! 9)) of Inl e \<Rightarrow> Inl e
        | Inr mtype \<Rightarrow>
          (let fl = u16_from_be (header ! 10) (header ! 11);
               rid = u32_from_be (header ! 12) (header ! 13) (header ! 14) (header ! 15);
               payload_length = unat (u32_from_be (header ! 16) (header ! 17) (header ! 18) (header ! 19)) in
           if fl \<noteq> 0 then Inl (PInvalidField ''frame flags'')
           else if MAX_FRAME_SIZE < payload_length then Inl (POversizedFrame payload_length)
           else if length rest < payload_length then Inl PIo
           else (case from_slice (take payload_length rest) of None \<Rightarrow> Inl PInvalidPayload
           | Some msg \<Rightarrow>
             if message_type msg \<noteq> mtype then Inl PMessageTypeMismatch
             else (case message_validate msg of Some e \<Rightarrow> Inl e
             | None \<Rightarrow> Inr (\<lparr>fr_request_id = rid, fr_flags = fl, fr_message = msg\<rparr>, drop payload_length rest)))))))"

section \<open>Helper states\<close>

datatype HelperState = Created | Authenticated | Configured | InterceptorOpen | ShuttingDown | Exited

fun accepts :: "HelperState \<Rightarrow> Message \<Rightarrow> bool" where
  "accepts s (MHello _) = (s = Created)"
| "accepts s (MConfigureInterceptor _) = (s \<in> {Authenticated, Configured})"
| "accepts s MOpenInterceptor = (s = Configured)"
| "accepts s (MRegisterFlow _ _ _ _) = (s = InterceptorOpen)"
| "accepts s (MRemoveFlow _) = (s \<in> {Authenticated, Configured, InterceptorOpen})"
| "accepts s MCloseInterceptor = (s \<in> {Configured, InterceptorOpen})"
| "accepts s (MSetLowTtlValue _) = (s = InterceptorOpen)"
| "accepts s MPing = (s \<notin> {Created, Exited})"
| "accepts s MShutdown = (s \<noteq> Exited)"
| "accepts s _ = False"

section \<open>Lemmas\<close>

lemma from_u16_code [simp]: "from_u16 (message_type_code t) = Inr t"
  by (cases t) (simp_all add: from_u16_def)

lemma from_u16_Inr: "from_u16 v = Inr t \<Longrightarrow> message_type_code t = v"
  by (auto simp: from_u16_def split: if_splits)

text \<open>The fields of a frame at their offsets.\<close>

lemma frame_fields:
  fixes rid :: u32
  assumes "h = MAGIC @ u16_to_be a @ u16_to_be b @ u16_to_be c @ u16_to_be d @ u32_to_be rid @ u32_to_be n"
  shows "length h = 20" "take 4 h = MAGIC" "u16_from_be (h ! 4) (h ! 5) = a" "u16_from_be (h ! 6) (h ! 7) = b"
    "u16_from_be (h ! 8) (h ! 9) = c" "u16_from_be (h ! 10) (h ! 11) = d"
    "u32_from_be (h ! 12) (h ! 13) (h ! 14) (h ! 15) = rid"
    "u32_from_be (h ! 16) (h ! 17) (h ! 18) (h ! 19) = n"
proof -
  have m: "length MAGIC = 4" by (simp add: MAGIC_def)
  show "length h = 20" "take 4 h = MAGIC" by (simp_all add: assms m)
  show "u16_from_be (h ! 4) (h ! 5) = a" "u16_from_be (h ! 6) (h ! 7) = b"
    "u16_from_be (h ! 8) (h ! 9) = c" "u16_from_be (h ! 10) (h ! 11) = d"
    using u16_from_to_be [of a] u16_from_to_be [of b] u16_from_to_be [of c] u16_from_to_be [of d]
    by (simp_all add: assms nth_append m)
  show "u32_from_be (h ! 12) (h ! 13) (h ! 14) (h ! 15) = rid"
    "u32_from_be (h ! 16) (h ! 17) (h ! 18) (h ! 19) = n"
    using u32_from_to_be [of rid] u32_from_to_be [of n] by (simp_all add: assms nth_append m)
qed

lemma read_written_frame:
  assumes "write_frame to_vec f = Inr out"
    and "\<And>pl. to_vec (fr_message f) = Some pl \<Longrightarrow> from_slice pl = Some (fr_message f)"
  shows "read_frame from_slice (out @ rest) = Inr (f, rest)"
proof -
  obtain pl where pl: "to_vec (fr_message f) = Some pl"
    using assms(1) by (auto simp: write_frame_def split: if_splits option.splits)
  define h where "h = MAGIC @ u16_to_be PROTOCOL_MAJOR @ u16_to_be PROTOCOL_MINOR
      @ u16_to_be (message_type_code (message_type (fr_message f))) @ u16_to_be (fr_flags f)
      @ u32_to_be (fr_request_id f) @ u32_to_be (word_of_nat (length pl))"
  note hf = frame_fields [OF h_def]
  have w: "fr_flags f = 0" "message_validate (fr_message f) = None" "length pl \<le> MAX_FRAME_SIZE" "out = h @ pl"
    using assms(1) by (auto simp: write_frame_def pl h_def split: if_splits option.splits)
  have n: "unat (word_of_nat (length pl) :: u32) = length pl"
    using w(3) by (simp add: unat_u32_of_nat MAX_FRAME_SIZE_def)
  have hd: "take HEADER_LEN (out @ rest) = h" "drop HEADER_LEN (out @ rest) = pl @ rest" "\<not> length (out @ rest) < HEADER_LEN"
    using hf(1) by (simp_all add: w(4) HEADER_LEN_def)
  have "f = \<lparr>fr_request_id = fr_request_id f, fr_flags = 0, fr_message = fr_message f\<rparr>" using w(1) by simp
  then show ?thesis using w(1-3) hd(3) assms(2) [OF pl] unfolding read_frame_def Let_def hd hf n by (simp add: n)
qed

text \<open>
  C19. Frames round-trip. Whatever the writer accepts, the reader at the other end turns back into the same frame, and it stops
  exactly at the end of the frame, so that frames can follow each other on the stream. The only assumption is that the JSON
  decoder inverts the encoder on the message of the frame.
\<close>

theorem frame_roundtrip:
  assumes "write_frame to_vec f = Inr out"
    and "\<And>pl. to_vec (fr_message f) = Some pl \<Longrightarrow> from_slice pl = Some (fr_message f)"
  shows "read_frame from_slice (out @ rest) = Inr (f, rest)"
  using assms by (rule read_written_frame)

lemma frame_roundtrip_witness:
  "\<exists>out. write_frame (\<lambda>_. Some [123, 125]) (frame_new 7 MPing) = Inr out
     \<and> read_frame (\<lambda>_. Some MPing) (out @ [1, 2]) = Inr (frame_new 7 MPing, [1, 2])"
proof -
  obtain out where "write_frame (\<lambda>_. Some [123, 125]) (frame_new 7 MPing) = Inr out"
    by (simp add: write_frame_def frame_new_def MAX_FRAME_SIZE_def)
  then show ?thesis
    using frame_roundtrip [of "\<lambda>_. Some [123, 125]" "frame_new 7 MPing" out "\<lambda>_. Some MPing" "[1, 2]"]
    by (simp add: frame_new_def)
qed

text \<open>
  C20. What the reader lets through, whatever the bytes and whatever the JSON decoder: a returned frame has no flags, its message has passed every check
  and is of the type in the header, and at most 256 KiB follow the header; less than a header, a wrong magic or an unknown version is always refused.
\<close>

theorem read_frame_only_valid:
  assumes "read_frame from_slice input = Inr (f, rest)"
  shows "fr_flags f = 0 \<and> message_validate (fr_message f) = None
    \<and> take 4 input = MAGIC \<and> u16_from_be (input ! 4) (input ! 5) = PROTOCOL_MAJOR
    \<and> u16_from_be (input ! 8) (input ! 9) = message_type_code (message_type (fr_message f))
    \<and> (\<exists>n \<le> MAX_FRAME_SIZE. HEADER_LEN + n \<le> length input \<and> rest = drop (HEADER_LEN + n) input
         \<and> from_slice (slice input HEADER_LEN (HEADER_LEN + n)) = Some (fr_message f))"
proof -
  let ?n = "unat (u32_from_be (input ! 16) (input ! 17) (input ! 18) (input ! 19))"
  have len: "HEADER_LEN \<le> length input" using assms by (auto simp: read_frame_def split: if_splits)
  have nth: "take HEADER_LEN input ! i = input ! i" if "i < 20" for i using that by (simp add: HEADER_LEN_def)
  have tk: "take 4 (take HEADER_LEN input) = take 4 input" by (simp add: HEADER_LEN_def)
  note un = assms [unfolded read_frame_def Let_def tk]
  have ok: "take 4 input = MAGIC" "u16_from_be (input ! 4) (input ! 5) = PROTOCOL_MAJOR"
    "from_u16 (u16_from_be (input ! 8) (input ! 9)) = Inr (message_type (fr_message f))"
    "fr_flags f = 0" "message_validate (fr_message f) = None" "?n \<le> MAX_FRAME_SIZE"
    "?n \<le> length (drop HEADER_LEN input)" "from_slice (take ?n (drop HEADER_LEN input)) = Some (fr_message f)"
    "rest = drop ?n (drop HEADER_LEN input)"
    using un by (simp_all add: nth split: if_splits sum.splits option.splits) (auto simp: not_less)
  have "HEADER_LEN + ?n \<le> length input" using ok(7) len by simp
  moreover have "rest = drop (HEADER_LEN + ?n) input" using ok(9) by (simp add: add.commute)
  moreover have "from_slice (slice input HEADER_LEN (HEADER_LEN + ?n)) = Some (fr_message f)"
    using ok(8) by (simp add: slice_def)
  ultimately show ?thesis using ok(1-6) from_u16_Inr [OF ok(3)] by (intro conjI exI [of _ ?n]) simp_all
qed

lemma read_frame_only_valid_witness:
  "let input = [0x5A, 0x44, 0x48, 0x50, 0, 1, 0, 3, 0, 14, 0, 0, 0, 0, 0, 7, 0, 0, 0, 1, 55, 9] in
     read_frame (\<lambda>_. Some MPing) input = Inr (frame_new 7 MPing, [9])
     \<and> u16_from_be (input ! 8) (input ! 9) = message_type_code (message_type MPing)"
proof -
  let ?i = "[0x5A, 0x44, 0x48, 0x50, 0, 1, 0, 3, 0, 14, 0, 0, 0, 0, 0, 7, 0, 0, 0, 1, 55, 9] :: bytes"
  have r: "read_frame (\<lambda>_. Some MPing) ?i = Inr (frame_new 7 MPing, [9])"
    by (simp add: read_frame_def HEADER_LEN_def MAGIC_def PROTOCOL_MAJOR_def PROTOCOL_MINOR_def MAX_FRAME_SIZE_def
        from_u16_def frame_new_def u16_from_be_def u32_from_be_def)
  then show ?thesis using read_frame_only_valid [OF r] by (simp add: frame_new_def)
qed

end
