(* ===== verification/Root_Helper.thy ===== *)
theory Root_Helper
  imports Flow_Machine Helper_Protocol
begin

text \<open>
  The privileged helper, src/crates/zerodpi-root-helper/src/unix.rs: the loop \<^verbatim>\<open>serve\<close> over its local variables, one
  function per request. Each turn of the loop is two steps, the poll of the interceptor and the receipt of a frame, because
  the interceptor thread changes the flows between them. What the helper asks the system (the socket, the firewall, the
  queue, its process identity) is in the record \<open>HelperEnv\<close>, which may differ from step to step.

  Also the request side of the data plane that feeds it, \<^verbatim>\<open>interceptor_config\<close> of src/crates/zerodpi/src/helper\_client.rs.
\<close>

section \<open>State\<close>

record RegisteredFlow =
  rg_key :: FlowKey
  rg_entry :: nat
  last_progress :: "Progress option"

text \<open>
  The variables of \<^verbatim>\<open>serve\<close>: an open interceptor is its flow table with the method its handler runs, the TTL handle is the
  value behind it, \<open>hs_sent\<close> is what went out on the socket.
\<close>

record HelperSession =
  hs_state :: HelperState
  hs_config :: "InterceptorConfig option"
  hs_interceptor :: "(FlowStore \<times> CompositeMethod) option"
  hs_low_ttl :: "u8 option"
  hs_registered :: "(u64 \<times> RegisteredFlow) list"
  hs_sent :: "Frame list"

definition serve_start :: HelperSession where
  "serve_start = \<lparr>hs_state = Created, hs_config = None, hs_interceptor = None, hs_low_ttl = None,
     hs_registered = [], hs_sent = []\<rparr>"

text \<open>
  \<open>he_write\<close> says which frames the socket takes, \<open>he_recover\<close> is \<^verbatim>\<open>recover_stale_firewall_state\<close> (\<open>None\<close> when it fails),
  \<open>he_open\<close> whether \<^verbatim>\<open>DefaultInterceptor::open\<close> succeeds, \<open>he_close\<close> the error with which the interceptor thread ends.
\<close>

record HelperEnv =
  he_proof :: bytes
  he_peer_pid :: u32
  he_peer_uid :: u32
  he_pid :: u32
  he_uid :: u32
  he_to_vec :: "Message \<Rightarrow> bytes option"
  he_write :: "Frame \<Rightarrow> bool"
  he_recover :: "LinuxFirewallBackend \<Rightarrow> nat option"
  he_open :: "FilterSpec \<Rightarrow> bool"
  he_spawn :: bool
  he_close :: "string option"
  he_seed :: u64

text \<open>
  How a step ends: the loop goes on, \<^verbatim>\<open>serve\<close> returns \<^verbatim>\<open>Ok\<close>, it returns an error, or it hits the \<^verbatim>\<open>unreachable!\<close> arm.
\<close>

datatype serve_result = Running HelperSession | Exit HelperSession | Bail HelperSession | Unreachable

section \<open>Building the method\<close>

definition method_list_of :: "string list \<Rightarrow> string list" where
  "method_list_of names = concat (map expand_method_alias names)"

definition wire_config :: "MethodConfig \<Rightarrow> Config" where
  "wire_config w = (default_config 1)\<lparr>
     BYPASS_METHOD := method_list_of (mc_methods w),
     WRONG_SEQ_EXTRA_OFFSET := mc_wrong_seq_extra_offset w,
     WRONG_SEQ_SET_PSH := mc_wrong_seq_set_psh w,
     WRONG_SEQ_BUMP_IP_IDENT := mc_wrong_seq_bump_ip_ident w,
     WRONG_CHECKSUM_DELTA := mc_wrong_checksum_delta w,
     WRONG_CHECKSUM_SET_PSH := mc_wrong_checksum_set_psh w,
     WRONG_CHECKSUM_BUMP_IP_IDENT := mc_wrong_checksum_bump_ip_ident w,
     WRONG_CHECKSUM_COMPLETE_IMMEDIATELY := mc_wrong_checksum_complete_immediately w,
     WRONG_MD5_SET_PSH := mc_wrong_md5_set_psh w,
     WRONG_MD5_BUMP_IP_IDENT := mc_wrong_md5_bump_ip_ident w,
     WRONG_MD5_COMPLETE_IMMEDIATELY := mc_wrong_md5_complete_immediately w,
     WRONG_ACK_OFFSET := mc_wrong_ack_offset w,
     WRONG_ACK_SET_PSH := mc_wrong_ack_set_psh w,
     WRONG_ACK_BUMP_IP_IDENT := mc_wrong_ack_bump_ip_ident w,
     WRONG_ACK_COMPLETE_IMMEDIATELY := mc_wrong_ack_complete_immediately w,
     WRONG_TIMESTAMP_OFFSET := mc_wrong_timestamp_offset w,
     WRONG_TIMESTAMP_SET_PSH := mc_wrong_timestamp_set_psh w,
     WRONG_TIMESTAMP_BUMP_IP_IDENT := mc_wrong_timestamp_bump_ip_ident w,
     WRONG_TIMESTAMP_COMPLETE_IMMEDIATELY := mc_wrong_timestamp_complete_immediately w,
     TLS_RECORD_FRAG_SIZE := mc_tls_record_frag_size w,
     TLS_RECORD_FRAG_SET_PSH := mc_tls_record_frag_set_psh w,
     TLS_RECORD_FRAG_BUMP_IP_IDENT := mc_tls_record_frag_bump_ip_ident w,
     LOW_TTL_VALUE := mc_low_ttl_value w,
     LOW_TTL_SET_PSH := mc_low_ttl_set_psh w,
     LOW_TTL_BUMP_IP_IDENT := mc_low_ttl_bump_ip_ident w,
     LOW_TTL_COMPLETE_IMMEDIATELY := mc_low_ttl_complete_immediately w\<rparr>"

definition build_wire_method :: "u64 \<Rightarrow> MethodConfig \<Rightarrow> CompositeMethod option" where
  "build_wire_method seed w = build_method seed (wire_config w)"

text \<open>
  \<^verbatim>\<open>CompositeMethod::low_ttl_handle\<close>: the handle of the first member that has one. A fresh handle holds \<^verbatim>\<open>LOW_TTL_VALUE\<close>.
\<close>

definition has_low_ttl :: "CompositeMethod \<Rightarrow> bool" where
  "has_low_ttl m = list_ex (\<lambda>x. case x of MLowTtl _ \<Rightarrow> True | _ \<Rightarrow> False) (handshake_methods m)"

definition low_ttl_handle :: "CompositeMethod \<Rightarrow> u8 \<Rightarrow> u8 option" where
  "low_ttl_handle m v = (if has_low_ttl m then Some v else None)"

text \<open>The configuration message of the data plane.\<close>

definition linux_firewall_backend :: "Config \<Rightarrow> LinuxFirewallBackend" where
  "linux_firewall_backend c = (case parse_firewall_backend (LINUX_FIREWALL_BACKEND c) of Some b \<Rightarrow> b | None \<Rightarrow> Iptables)"

definition interceptor_config :: "Config \<Rightarrow> ipv4 \<Rightarrow> ipv4 option \<Rightarrow> u16 \<Rightarrow> InterceptorConfig" where
  "interceptor_config c iface remote port = \<lparr>ic_interface_ip = iface, ic_remote_ip = remote,
     ic_remote_port = port, ic_queue_num = NFQUEUE_NUM c, ic_firewall_backend = linux_firewall_backend c,
     ic_method = \<lparr>mc_methods = BYPASS_METHOD c,
       mc_wrong_seq_extra_offset = WRONG_SEQ_EXTRA_OFFSET c,
       mc_wrong_seq_set_psh = WRONG_SEQ_SET_PSH c,
       mc_wrong_seq_bump_ip_ident = WRONG_SEQ_BUMP_IP_IDENT c,
       mc_wrong_checksum_delta = WRONG_CHECKSUM_DELTA c,
       mc_wrong_checksum_set_psh = WRONG_CHECKSUM_SET_PSH c,
       mc_wrong_checksum_bump_ip_ident = WRONG_CHECKSUM_BUMP_IP_IDENT c,
       mc_wrong_checksum_complete_immediately = WRONG_CHECKSUM_COMPLETE_IMMEDIATELY c,
       mc_wrong_md5_set_psh = WRONG_MD5_SET_PSH c,
       mc_wrong_md5_bump_ip_ident = WRONG_MD5_BUMP_IP_IDENT c,
       mc_wrong_md5_complete_immediately = WRONG_MD5_COMPLETE_IMMEDIATELY c,
       mc_wrong_ack_offset = WRONG_ACK_OFFSET c,
       mc_wrong_ack_set_psh = WRONG_ACK_SET_PSH c,
       mc_wrong_ack_bump_ip_ident = WRONG_ACK_BUMP_IP_IDENT c,
       mc_wrong_ack_complete_immediately = WRONG_ACK_COMPLETE_IMMEDIATELY c,
       mc_wrong_timestamp_offset = WRONG_TIMESTAMP_OFFSET c,
       mc_wrong_timestamp_set_psh = WRONG_TIMESTAMP_SET_PSH c,
       mc_wrong_timestamp_bump_ip_ident = WRONG_TIMESTAMP_BUMP_IP_IDENT c,
       mc_wrong_timestamp_complete_immediately = WRONG_TIMESTAMP_COMPLETE_IMMEDIATELY c,
       mc_tls_record_frag_size = TLS_RECORD_FRAG_SIZE c,
       mc_tls_record_frag_set_psh = TLS_RECORD_FRAG_SET_PSH c,
       mc_tls_record_frag_bump_ip_ident = TLS_RECORD_FRAG_BUMP_IP_IDENT c,
       mc_low_ttl_value = LOW_TTL_VALUE c,
       mc_low_ttl_set_psh = LOW_TTL_SET_PSH c,
       mc_low_ttl_bump_ip_ident = LOW_TTL_BUMP_IP_IDENT c,
       mc_low_ttl_complete_immediately = LOW_TTL_COMPLETE_IMMEDIATELY c\<rparr>\<rparr>"

section \<open>Sending\<close>

definition send_frame :: "HelperEnv \<Rightarrow> u32 \<Rightarrow> Message \<Rightarrow> HelperSession \<Rightarrow> HelperSession option" where
  "send_frame env rid msg h = (let f = frame_new rid msg in
     case write_frame (he_to_vec env) f of Inl _ \<Rightarrow> None
     | Inr _ \<Rightarrow> if he_write env f then Some (h\<lparr>hs_sent := hs_sent h @ [f]\<rparr>) else None)"

text \<open>\<^verbatim>\<open>send(...)?\<close> at the end of a request, and \<^verbatim>\<open>send(HelperFatal)?; bail!\<close>.\<close>

definition reply :: "HelperEnv \<Rightarrow> u32 \<Rightarrow> Message \<Rightarrow> HelperSession \<Rightarrow> serve_result" where
  "reply env rid msg h = (case send_frame env rid msg h of None \<Rightarrow> Bail h | Some h' \<Rightarrow> Running h')"

definition fatal :: "HelperEnv \<Rightarrow> u32 \<Rightarrow> ErrorCode \<Rightarrow> string \<Rightarrow> HelperSession \<Rightarrow> serve_result" where
  "fatal env rid code msg h = Bail (case send_frame env rid (MHelperFatal code msg) h of None \<Rightarrow> h | Some h' \<Rightarrow> h')"

section \<open>Progress\<close>

definition flow_progress :: "FlowEntry \<Rightarrow> Progress option" where
  "flow_progress e = (case outcome (fe_state e) of
     Some FakeDataAcked \<Rightarrow> Some PFakeDataAcked
   | Some UnexpectedClose \<Rightarrow> Some PUnexpectedClose
   | None \<Rightarrow> if waiting_for_data (fe_state e) then Some PReadyForData else None)"

text \<open>
  The loop over the registered flows, in the order of the list for the map's own order. The flag tells whether every
  \<^verbatim>\<open>send\<close> succeeded; the first failure ends the loop.
\<close>

fun publish_loop :: "HelperEnv \<Rightarrow> FlowEntry list \<Rightarrow> (u64 \<times> RegisteredFlow) list \<Rightarrow> HelperSession
    \<Rightarrow> (u64 \<times> RegisteredFlow) list \<times> HelperSession \<times> bool" where
  "publish_loop env heap [] h = ([], h, True)"
| "publish_loop env heap ((fid, r) # rs) h =
     (let p = flow_progress (heap ! rg_entry r) in
      if p \<noteq> None \<and> p \<noteq> last_progress r
      then (let r' = r\<lparr>last_progress := p\<rparr> in
        case send_frame env 0 (MFlowProgress fid (the p)) h of
          None \<Rightarrow> ((fid, r') # rs, h, False)
        | Some h' \<Rightarrow> (case publish_loop env heap rs h' of (rs', h'', ok) \<Rightarrow> ((fid, r') # rs', h'', ok)))
      else (case publish_loop env heap rs h of (rs', h'', ok) \<Rightarrow> ((fid, r) # rs', h'', ok)))"

definition publish_progress :: "HelperEnv \<Rightarrow> FlowEntry list \<Rightarrow> HelperSession \<Rightarrow> serve_result" where
  "publish_progress env heap h = (case publish_loop env heap (hs_registered h) h of
     (rs, h', ok) \<Rightarrow> (let h'' = h'\<lparr>hs_registered := rs\<rparr> in if ok then Running h'' else Bail h''))"

section \<open>The loop\<close>

definition serve_poll :: "HelperEnv \<Rightarrow> bool \<Rightarrow> HelperSession \<Rightarrow> serve_result" where
  "serve_poll env finished h = (case hs_interceptor h of None \<Rightarrow> Running h
   | Some (flows, m) \<Rightarrow>
       if finished then fatal env 0 InterceptorFailed
         (case he_close env of Some e \<Rightarrow> e | None \<Rightarrow> ''interceptor stopped unexpectedly'') (h\<lparr>hs_interceptor := None\<rparr>)
       else publish_progress env (fl_heap flows) h)"

text \<open>\<^verbatim>\<open>close_interceptor\<close>, with whether it succeeded.\<close>

definition close_interceptor :: "HelperEnv \<Rightarrow> HelperSession \<Rightarrow> HelperSession \<times> bool" where
  "close_interceptor env h = (h\<lparr>hs_registered := [], hs_interceptor := None\<rparr>,
     hs_interceptor h = None \<or> he_close env = None)"

definition on_hello :: "HelperEnv \<Rightarrow> u32 \<Rightarrow> Hello \<Rightarrow> HelperSession \<Rightarrow> serve_result" where
  "on_hello env rid hello h =
     (if session_proof hello \<noteq> he_proof env
      then fatal env rid AuthenticationFailed ''session authentication failed'' h
      else if data_plane_pid hello \<noteq> he_peer_pid env
      then fatal env rid AuthenticationFailed ''data-plane PID did not match peer credentials'' h
      else reply env rid (MHelloAccepted \<lparr>peer_uid = he_peer_uid env, helper_pid = he_pid env, helper_uid = he_uid env,
        protocol_major = PROTOCOL_MAJOR, protocol_minor = PROTOCOL_MINOR,
        capabilities = [''nfqueue'', ''flow_progress'']\<rparr>) (h\<lparr>hs_state := Authenticated\<rparr>))"

definition on_configure :: "HelperEnv \<Rightarrow> u32 \<Rightarrow> InterceptorConfig \<Rightarrow> HelperSession \<Rightarrow> serve_result" where
  "on_configure env rid v h =
     (if interceptor_config_validate v \<noteq> None then Bail h
      else (case he_recover env (ic_firewall_backend v) of None \<Rightarrow> Bail h
      | Some recovered \<Rightarrow>
         (let warned = (if 0 < recovered then send_frame env 0 (MHelperWarning Internal
                (''recovered '' @ show_nat recovered @ '' stale firewall object(s)'')) h else Some h) in
          case warned of None \<Rightarrow> Bail h
          | Some h' \<Rightarrow> reply env rid MConfigured (h'\<lparr>hs_config := Some v, hs_state := Configured\<rparr>))))"

definition filter_spec :: "HelperEnv \<Rightarrow> InterceptorConfig \<Rightarrow> FilterSpec" where
  "filter_spec env v = \<lparr>fs_interface_ip = ic_interface_ip v, fs_remote_ip = ic_remote_ip v,
     fs_remote_port = ic_remote_port v, fs_queue_num = ic_queue_num v, fs_linux_firewall_backend = ic_firewall_backend v,
     fs_firewall_owner = Some (''zerodpi-'' @ show_nat (unat (he_pid env)))\<rparr>"

definition on_open :: "HelperEnv \<Rightarrow> u32 \<Rightarrow> HelperSession \<Rightarrow> serve_result" where
  "on_open env rid h = (case hs_config h of None \<Rightarrow> Bail h
   | Some v \<Rightarrow> (case build_wire_method (he_seed env) (ic_method v) of None \<Rightarrow> Bail h
   | Some m \<Rightarrow>
      (let h' = h\<lparr>hs_low_ttl := low_ttl_handle m (mc_low_ttl_value (ic_method v))\<rparr> in
       if \<not> he_open env (filter_spec env v) then Bail h'
       else if \<not> he_spawn env then Bail h'
       else reply env rid MInterceptorReady
         (h'\<lparr>hs_interceptor := Some (new_flow_table, m), hs_state := InterceptorOpen\<rparr>))))"

text \<open>\<^verbatim>\<open>DashMap::insert\<close> of a fresh entry: the handle is its place in the heap.\<close>

definition insert_flow :: "FlowStore \<Rightarrow> FlowKey \<Rightarrow> bytes \<Rightarrow> u8 option \<Rightarrow> FlowStore" where
  "insert_flow s k data ttl = s\<lparr>fl_table := AList.update k (length (fl_heap s)) (fl_table s),
     fl_heap := fl_heap s @ [new_flow_entry data ttl]\<rparr>"

definition on_register :: "HelperEnv \<Rightarrow> u32 \<Rightarrow> u64 \<Rightarrow> FlowKey \<Rightarrow> bytes \<Rightarrow> u8 option \<Rightarrow> HelperSession \<Rightarrow> serve_result" where
  "on_register env rid fid k data ttl h =
     (if map_of (hs_registered h) fid \<noteq> None then fatal env rid InvalidState ''duplicate flow identifier'' h
      else if MAX_LIVE_FLOWS \<le> length (hs_registered h) then fatal env rid FlowLimitReached ''live flow limit reached'' h
      else if list_ex (\<lambda>(_, r). rg_key r = k) (hs_registered h) then fatal env rid InvalidState ''duplicate flow key'' h
      else (case hs_interceptor h of None \<Rightarrow> Bail h
      | Some (flows, m) \<Rightarrow> reply env rid (MFlowRegistered fid)
          (h\<lparr>hs_interceptor := Some (insert_flow flows k data ttl, m),
             hs_registered := (fid, \<lparr>rg_key = k, rg_entry = length (fl_heap flows), last_progress = None\<rparr>)
               # hs_registered h\<rparr>)))"

definition on_remove :: "HelperEnv \<Rightarrow> u32 \<Rightarrow> u64 \<Rightarrow> HelperSession \<Rightarrow> serve_result" where
  "on_remove env rid fid h = reply env rid (MFlowRemoved fid) (case map_of (hs_registered h) fid of None \<Rightarrow> h
     | Some r \<Rightarrow> h\<lparr>hs_registered := AList.delete fid (hs_registered h),
         hs_interceptor := map_option (\<lambda>(flows, m). (remove_flow flows (rg_key r), m)) (hs_interceptor h)\<rparr>)"

definition on_set_low_ttl :: "HelperEnv \<Rightarrow> u32 \<Rightarrow> u8 \<Rightarrow> HelperSession \<Rightarrow> serve_result" where
  "on_set_low_ttl env rid v h = reply env rid MSetLowTtlAck (h\<lparr>hs_low_ttl := map_option (\<lambda>_. v) (hs_low_ttl h)\<rparr>)"

definition on_close :: "HelperEnv \<Rightarrow> u32 \<Rightarrow> HelperSession \<Rightarrow> serve_result" where
  "on_close env rid h = (case close_interceptor env h of (h', ok) \<Rightarrow>
     if ok then reply env rid MInterceptorClosed (h'\<lparr>hs_state := Configured\<rparr>) else Bail h')"

definition serve_end :: "HelperEnv \<Rightarrow> HelperSession \<Rightarrow> serve_result" where
  "serve_end env h = (case close_interceptor env h of (h', ok) \<Rightarrow> if ok then Exit h' else Bail h')"

definition on_shutdown :: "HelperEnv \<Rightarrow> u32 \<Rightarrow> HelperSession \<Rightarrow> serve_result" where
  "on_shutdown env rid h = (case close_interceptor env (h\<lparr>hs_state := ShuttingDown\<rparr>) of (h', ok) \<Rightarrow>
     if \<not> ok then Bail h'
     else (case send_frame env rid MShutdownComplete h' of None \<Rightarrow> Bail h'
       | Some h'' \<Rightarrow> serve_end env (h''\<lparr>hs_state := Exited\<rparr>)))"

fun serve_message :: "HelperEnv \<Rightarrow> u32 \<Rightarrow> Message \<Rightarrow> HelperSession \<Rightarrow> serve_result" where
  "serve_message env rid (MHello hello) h = on_hello env rid hello h"
| "serve_message env rid (MConfigureInterceptor v) h = on_configure env rid v h"
| "serve_message env rid MOpenInterceptor h = on_open env rid h"
| "serve_message env rid (MRegisterFlow fid k data ttl) h = on_register env rid fid k data ttl h"
| "serve_message env rid (MRemoveFlow fid) h = on_remove env rid fid h"
| "serve_message env rid (MSetLowTtlValue v) h = on_set_low_ttl env rid v h"
| "serve_message env rid MCloseInterceptor h = on_close env rid h"
| "serve_message env rid MPing h = reply env rid MPong h"
| "serve_message env rid MShutdown h = on_shutdown env rid h"
| "serve_message env rid _ h = Unreachable"

text \<open>What \<^verbatim>\<open>recv_timeout\<close> returns; a timeout carries \<^verbatim>\<open>last_activity.elapsed() < HEARTBEAT_TIMEOUT\<close>.\<close>

datatype Recv = RFrame Frame | RTimeout bool | RDisconnected

fun serve_request :: "HelperEnv \<Rightarrow> Recv \<Rightarrow> HelperSession \<Rightarrow> serve_result" where
  "serve_request env (RTimeout recent) h =
     (if recent then Running h else fatal env 0 Internal ''data-plane heartbeat timed out'' h)"
| "serve_request env RDisconnected h = serve_end env h"
| "serve_request env (RFrame f) h =
     (if \<not> accepts (hs_state h) (fr_message f)
      then fatal env (fr_request_id f) InvalidState ''request is invalid in the current helper state'' h
      else serve_message env (fr_request_id f) (fr_message f) h)"

section \<open>The invariant\<close>

text \<open>The key and the entry of each registered flow: what the flow table has to hold.\<close>

definition links :: "(u64 \<times> RegisteredFlow) list \<Rightarrow> (FlowKey \<times> nat) list" where
  "links rs = map (\<lambda>(_, r). (rg_key r, rg_entry r)) rs"

text \<open>An open interceptor tracks exactly the registered flows; a closed one leaves none registered.\<close>

fun flows_ok :: "(u64 \<times> RegisteredFlow) list \<Rightarrow> u8 option \<Rightarrow> (FlowStore \<times> CompositeMethod) option \<Rightarrow> bool" where
  "flows_ok rs ttl None = (rs = [])"
| "flows_ok rs ttl (Some (flows, m)) = (composite_ok m \<and> store_inv flows \<and> set (fl_table flows) = set (links rs)
     \<and> distinct (map fst (links rs)) \<and> (ttl \<noteq> None \<longleftrightarrow> has_low_ttl m))"

definition config_ok :: "HelperState \<Rightarrow> InterceptorConfig option \<Rightarrow> bool" where
  "config_ok st c = (st \<in> {Created, Authenticated, Configured, InterceptorOpen}
     \<and> (c \<noteq> None \<longleftrightarrow> st \<in> {Configured, InterceptorOpen})
     \<and> (\<forall>v. c = Some v \<longrightarrow> interceptor_config_validate v = None))"

definition session_ok :: "HelperSession \<Rightarrow> bool" where
  "session_ok h = (config_ok (hs_state h) (hs_config h)
     \<and> (hs_interceptor h \<noteq> None \<longleftrightarrow> hs_state h = InterceptorOpen)
     \<and> length (hs_registered h) \<le> MAX_LIVE_FLOWS \<and> distinct (map fst (hs_registered h))
     \<and> flows_ok (hs_registered h) (hs_low_ttl h) (hs_interceptor h))"

lemma session_ok_sent [simp]: "session_ok (h\<lparr>hs_sent := x\<rparr>) = session_ok h"
  by (simp add: session_ok_def)

lemma send_frame_Some: "send_frame env rid msg h = Some h' \<Longrightarrow> h' = h\<lparr>hs_sent := hs_sent h @ [frame_new rid msg]\<rparr>"
  by (simp add: send_frame_def Let_def split: sum.splits if_splits)

lemma reply_Running: "reply env rid msg h = Running h' \<Longrightarrow> h' = h\<lparr>hs_sent := hs_sent h @ [frame_new rid msg]\<rparr>"
  by (auto simp: reply_def split: option.splits dest: send_frame_Some)

lemma not_running [simp]: "fatal env rid code msg h \<noteq> Running h'" "serve_end env h \<noteq> Running h'"
  "on_shutdown env rid h \<noteq> Running h'"
  by (simp_all add: fatal_def serve_end_def on_shutdown_def close_interceptor_def split: option.splits prod.splits if_splits)

text \<open>The table operations on the links.\<close>

lemma alist_update_new: "k \<notin> fst ` set xs \<Longrightarrow> AList.update k v xs = xs @ [(k, v)]"
  by (induction xs) auto

lemma links_keys: "map fst (links rs) = map (rg_key \<circ> snd) rs"
  by (induction rs) (auto simp: links_def)

lemma links_delete:
  assumes "distinct (map fst rs)" "distinct (map fst (links rs))" "map_of rs fid = Some r"
  shows "set (links (AList.delete fid rs)) = {x \<in> set (links rs). fst x \<noteq> rg_key r}"
proof -
  have mem: "(fid, r) \<in> set rs" using assms(3) by (rule map_of_SomeD)
  have inj: "inj_on (rg_key \<circ> snd) (set rs)" using assms(2) by (simp add: links_keys distinct_map)
  have "x = fid \<longleftrightarrow> rg_key r' = rg_key r" if "(x, r') \<in> set rs" for x r'
    using inj_onD [OF inj _ that mem] eq_key_imp_eq_value [OF assms(1) mem] that by auto
  then show ?thesis by (force simp: AList.delete_eq links_def image_iff)
qed

lemma links_delete_distinct: "distinct (map fst (links rs)) \<Longrightarrow> distinct (map fst (links (AList.delete fid rs)))"
  by (simp add: links_keys AList.delete_eq distinct_map inj_on_def)

lemma publish_loop_keeps:
  "publish_loop env heap rs h = (rs', h', ok) \<Longrightarrow>
   map fst rs' = map fst rs \<and> links rs' = links rs \<and> (\<exists>x. h' = h\<lparr>hs_sent := x\<rparr>)"
proof (induction rs arbitrary: h rs' h' ok)
  case Nil
  then show ?case by (auto intro: exI [of _ "hs_sent h"])
next
  case (Cons q rs)
  obtain fid r where q: "q = (fid, r)" by force
  let ?p = "flow_progress (heap ! rg_entry r)"
  show ?case
  proof (cases "?p \<noteq> None \<and> ?p \<noteq> last_progress r")
    case False
    then show ?thesis using Cons.prems Cons.IH [of h] by (auto simp: q links_def split: prod.splits)
  next
    case True
    then show ?thesis
    proof (cases "send_frame env 0 (MFlowProgress fid (the ?p)) h")
      case None
      then show ?thesis using Cons.prems True by (auto simp: q links_def Let_def intro: exI [of _ "hs_sent h"])
    next
      case (Some h1)
      then show ?thesis using Cons.prems Cons.IH [of h1] True send_frame_Some [OF Some]
        by (auto simp: q links_def Let_def split: prod.splits)
    qed
  qed
qed

section \<open>Every step keeps the invariant\<close>

lemma on_hello_ok: "session_ok h \<Longrightarrow> hs_state h = Created \<Longrightarrow> on_hello env rid hello h = Running h' \<Longrightarrow>
    session_ok h' \<and> session_proof hello = he_proof env \<and> data_plane_pid hello = he_peer_pid env"
  by (auto simp: on_hello_def session_ok_def config_ok_def split: if_splits dest!: reply_Running)

lemma on_configure_ok:
  assumes "session_ok h" "hs_state h \<in> {Authenticated, Configured}" "on_configure env rid v h = Running h'"
  shows "session_ok h'"
proof -
  have "\<exists>x. h' = h\<lparr>hs_config := Some v, hs_state := Configured, hs_sent := x\<rparr>" "interceptor_config_validate v = None"
    using assms(3) by (auto simp: on_configure_def Let_def split: if_splits option.splits dest!: reply_Running send_frame_Some)
  then show ?thesis using assms(1,2) by (auto simp: session_ok_def config_ok_def)
qed

lemma wire_method_ok: "method_config_validate w = None \<Longrightarrow> build_wire_method seed w = Some m \<Longrightarrow> composite_ok m"
proof -
  assume v: "method_config_validate w = None" and b: "build_wire_method seed w = Some m"
  have "0 < TLS_RECORD_FRAG_SIZE (wire_config w)"
    using v by (simp add: method_config_validate_def wire_config_def split: if_splits)
  moreover have "i32_range (FAKE_TLS_CHAIN_DELAY_MS (wire_config w))"
    by (simp add: wire_config_def default_config_def exact_def i32_range_def)
  ultimately show ?thesis using build_members_ok [OF build_method_Some(1)] b
    by (simp add: build_wire_method_def composite_ok_def)
qed

lemma config_method_ok: "interceptor_config_validate v = None \<Longrightarrow> method_config_validate (ic_method v) = None"
  by (simp add: interceptor_config_validate_def split: option.splits)

lemma on_open_ok:
  assumes "session_ok h" "hs_state h = Configured" "on_open env rid h = Running h'"
  shows "session_ok h'"
proof -
  obtain v where v: "hs_config h = Some v" "interceptor_config_validate v = None"
    using assms(1,2) by (auto simp: session_ok_def config_ok_def)
  obtain m where m: "build_wire_method (he_seed env) (ic_method v) = Some m"
    using assms(3) v by (auto simp: on_open_def split: option.splits)
  have "composite_ok m" using wire_method_ok [OF config_method_ok [OF v(2)] m] .
  moreover have "hs_registered h = []" using assms(1,2) by (cases "hs_interceptor h") (simp_all add: session_ok_def)
  moreover have "store_inv new_flow_table" by (simp add: new_flow_table_def store_inv_def store_ok_def)
  ultimately show ?thesis using assms v m
    by (auto simp: on_open_def Let_def session_ok_def config_ok_def links_def new_flow_table_def low_ttl_handle_def
        MAX_LIVE_FLOWS_def split: if_splits dest!: reply_Running)
qed

lemma insert_flow_inv: "store_inv s \<Longrightarrow> k \<notin> fst ` set (fl_table s) \<Longrightarrow> store_inv (insert_flow s k d t)"
  by (fastforce simp: store_inv_def store_ok_def insert_flow_def alist_update_new less_Suc_eq)

lemma on_register_ok:
  assumes "session_ok h" "hs_state h = InterceptorOpen" "on_register env rid fid k d t h = Running h'"
  shows "session_ok h'"
proof -
  let ?rs = "hs_registered h"
  obtain flows m where f: "hs_interceptor h = Some (flows, m)" using assms(1,2) by (auto simp: session_ok_def)
  have new: "map_of ?rs fid = None" "length ?rs < MAX_LIVE_FLOWS" "\<not> list_ex (\<lambda>(_, r). rg_key r = k) ?rs"
    using assms(3) by (auto simp: on_register_def not_le split: if_splits)
  have tbl: "set (fl_table flows) = set (links ?rs)" using assms(1) f by (simp add: session_ok_def)
  let ?r = "(fid, \<lparr>rg_key = k, rg_entry = length (fl_heap flows), last_progress = None\<rparr>)"
  have lk: "links (?r # ?rs) = (k, length (fl_heap flows)) # links ?rs" by (simp add: links_def)
  have k: "k \<notin> fst ` set (links ?rs)" using new(3) by (auto simp: links_def list_ex_iff)
  have "set (fl_table (insert_flow flows k d t)) = set (links (?r # ?rs))"
    unfolding lk using k tbl by (simp add: insert_flow_def alist_update_new)
  moreover have "store_inv (insert_flow flows k d t)"
    using insert_flow_inv [of flows k d t] k tbl assms(1) f by (simp add: session_ok_def)
  moreover have "distinct (map fst (links (?r # ?rs)))" unfolding lk using k assms(1) f by (simp add: session_ok_def)
  moreover have "fid \<notin> fst ` set ?rs" using new(1) by (simp add: map_of_eq_None_iff)
  moreover have "h' = h\<lparr>hs_interceptor := Some (insert_flow flows k d t, m), hs_registered := ?r # ?rs,
      hs_sent := hs_sent h @ [frame_new rid (MFlowRegistered fid)]\<rparr>"
    using assms(3) new f by (auto simp: on_register_def dest!: reply_Running)
  ultimately show ?thesis using assms(1,2) f new(2) by (simp add: session_ok_def)
qed

lemma on_remove_ok:
  assumes "session_ok h" "on_remove env rid fid h = Running h'"
  shows "session_ok h'"
proof (cases "map_of (hs_registered h) fid")
  case None
  then show ?thesis using assms by (auto simp: on_remove_def dest!: reply_Running)
next
  case (Some r)
  let ?rs = "hs_registered h"
  have "?rs \<noteq> []" using Some by auto
  then obtain flows m where f: "hs_interceptor h = Some (flows, m)"
    using assms(1) by (cases "hs_interceptor h") (auto simp: session_ok_def)
  have ok: "distinct (map fst ?rs)" "distinct (map fst (links ?rs))" "set (fl_table flows) = set (links ?rs)" "store_inv flows"
    using assms(1) f by (simp_all add: session_ok_def)
  have "store_inv (remove_flow flows (rg_key r))"
    using ok(4) store_ok_remove by (auto simp: store_inv_def remove_flow_def)
  moreover have "set (fl_table (remove_flow flows (rg_key r))) = set (links (AList.delete fid ?rs))"
    unfolding links_delete [OF ok(1,2) Some] by (auto simp: remove_flow_def AList.delete_eq ok(3))
  moreover have "length (AList.delete fid ?rs) \<le> length ?rs" by (simp add: AList.delete_eq)
  ultimately show ?thesis using assms f Some links_delete_distinct [OF ok(2)] AList.distinct_delete [OF ok(1)]
    by (auto simp: on_remove_def session_ok_def dest!: reply_Running)
qed

lemma on_set_low_ttl_ok: "session_ok h \<Longrightarrow> on_set_low_ttl env rid v h = Running h' \<Longrightarrow> session_ok h'"
  by (cases "hs_interceptor h") (auto simp: on_set_low_ttl_def session_ok_def dest!: reply_Running)

lemma on_close_ok: "session_ok h \<Longrightarrow> hs_state h \<in> {Configured, InterceptorOpen} \<Longrightarrow>
    on_close env rid h = Running h' \<Longrightarrow> session_ok h'"
  by (auto simp: on_close_def close_interceptor_def session_ok_def config_ok_def split: if_splits dest!: reply_Running)

lemma serve_message_ok:
  assumes "session_ok h" "accepts (hs_state h) msg" "serve_message env rid msg h = Running h'"
  shows "session_ok h'"
proof (cases msg)
  case (MHello x)
  then show ?thesis using on_hello_ok assms by simp
next
  case (MConfigureInterceptor v)
  then show ?thesis using on_configure_ok [OF assms(1)] assms(2,3) by simp
next
  case MOpenInterceptor
  then show ?thesis using on_open_ok [OF assms(1)] assms(2,3) by simp
next
  case (MRegisterFlow fid k d t)
  then show ?thesis using on_register_ok [OF assms(1)] assms(2,3) by simp
next
  case (MRemoveFlow fid)
  then show ?thesis using on_remove_ok [OF assms(1)] assms(3) by simp
next
  case (MSetLowTtlValue v)
  then show ?thesis using on_set_low_ttl_ok [OF assms(1)] assms(3) by simp
next
  case MCloseInterceptor
  then show ?thesis using on_close_ok [OF assms(1)] assms(2,3) by simp
next
  case MPing
  then show ?thesis using assms(1,3) by (auto dest: reply_Running)
qed (use assms(2,3) in simp_all)

lemma serve_request_ok: "session_ok h \<Longrightarrow> serve_request env r h = Running h' \<Longrightarrow> session_ok h'"
  by (cases r) (auto split: if_splits dest: serve_message_ok)

lemma serve_poll_ok: "session_ok h \<Longrightarrow> serve_poll env fin h = Running h' \<Longrightarrow> session_ok h'"
  by (auto simp: serve_poll_def publish_progress_def session_ok_def Let_def split: option.splits prod.splits if_splits
      dest!: publish_loop_keeps dest: map_eq_imp_length_eq)

lemma packet_ok:
  assumes "session_ok h" "hs_interceptor h = Some (flows, m)"
    and "on_packet (composite_handshake e m) (composite_data e m) flows p = Ok (v, p', flows')"
  shows "session_ok (h\<lparr>hs_interceptor := Some (flows', m)\<rparr>)"
proof -
  have "composite_ok m" "store_inv flows" using assms(1,2) by (simp_all add: session_ok_def)
  then have "store_inv flows'" using on_packet_total [of m flows e p] assms(3) by auto
  moreover have "fl_table flows' = fl_table flows"
    using assms(3) by (auto simp: on_packet_def split: option.splits res.splits)
  ultimately show ?thesis using assms(1,2) by (auto simp: session_ok_def)
qed

section \<open>Runs\<close>

text \<open>
  The sessions a helper can be in, with the frames it has accepted so far: frames come out of \<^const>\<open>read_frame\<close>, the
  interceptor thread runs its handler on any packet between any two steps, and only the secret and the peer's process are the
  same throughout.
\<close>

inductive helper_run :: "bytes \<Rightarrow> u32 \<Rightarrow> Frame list \<Rightarrow> HelperSession \<Rightarrow> bool" for secret pid where
  start: "helper_run secret pid [] serve_start"
| poll: "helper_run secret pid tr h \<Longrightarrow> serve_poll env fin h = Running h' \<Longrightarrow> helper_run secret pid tr h'"
| idle: "helper_run secret pid tr h \<Longrightarrow> serve_request env (RTimeout b) h = Running h' \<Longrightarrow> helper_run secret pid tr h'"
| request: "helper_run secret pid tr h \<Longrightarrow> he_proof env = secret \<Longrightarrow> he_peer_pid env = pid \<Longrightarrow>
    read_frame dec inp = Inr (f, rest) \<Longrightarrow> serve_request env (RFrame f) h = Running h' \<Longrightarrow>
    helper_run secret pid (tr @ [f]) h'"
| packet: "helper_run secret pid tr h \<Longrightarrow> hs_interceptor h = Some (flows, m) \<Longrightarrow>
    on_packet (composite_handshake e m) (composite_data e m) flows p = Ok (v, p', flows') \<Longrightarrow>
    helper_run secret pid tr (h\<lparr>hs_interceptor := Some (flows', m)\<rparr>)"

lemma serve_start_ok: "session_ok serve_start"
  by (simp add: serve_start_def session_ok_def config_ok_def MAX_LIVE_FLOWS_def)

lemma helper_run_ok: "helper_run secret pid tr h \<Longrightarrow> session_ok h"
  by (induction rule: helper_run.induct)
    (blast intro: serve_start_ok serve_poll_ok serve_request_ok packet_ok)+

lemma accepted_reachable: "accepts (hs_state h) msg \<Longrightarrow> serve_message env rid msg h \<noteq> Unreachable"
  by (cases msg) (simp_all add: on_hello_def on_configure_def on_open_def on_register_def on_remove_def on_set_low_ttl_def
      on_close_def on_shutdown_def serve_end_def reply_def fatal_def close_interceptor_def Let_def
      split: option.splits prod.splits if_splits)

lemma accepted_leaves_created:
  assumes "accepts (hs_state h) msg" "serve_message env rid msg h = Running h'"
  shows "hs_state h' \<noteq> Created"
  using assms by (cases msg) (auto simp: on_hello_def on_configure_def on_open_def on_register_def on_remove_def on_set_low_ttl_def
      on_close_def Let_def split: option.splits prod.splits if_splits dest!: reply_Running send_frame_Some)

text \<open>
  C14. The invariant of the helper process. In every state it can reach, an interceptor is running exactly in the state
  InterceptorOpen, a checked configuration is present whenever it can be needed, at most 4096 flows are registered under
  distinct identifiers and distinct keys, and the flow table of the interceptor holds exactly the registered flows, each of its
  entries satisfying the flow invariant. No request of any kind reaches the arm the code declares unreachable.
\<close>

theorem helper_session_invariant:
  assumes "helper_run secret pid tr h"
  shows "(hs_interceptor h \<noteq> None \<longleftrightarrow> hs_state h = InterceptorOpen)
    \<and> (hs_state h \<in> {Configured, InterceptorOpen} \<longrightarrow>
         (\<exists>v. hs_config h = Some v \<and> interceptor_config_validate v = None))
    \<and> length (hs_registered h) \<le> MAX_LIVE_FLOWS \<and> distinct (map fst (hs_registered h))
    \<and> distinct (map (rg_key \<circ> snd) (hs_registered h))
    \<and> (\<forall>flows m. hs_interceptor h = Some (flows, m) \<longrightarrow> store_inv flows \<and>
         (\<forall>k i. map_of (fl_table flows) k = Some i
            \<longleftrightarrow> (\<exists>fid r. (fid, r) \<in> set (hs_registered h) \<and> rg_key r = k \<and> rg_entry r = i)))
    \<and> (hs_interceptor h = None \<longrightarrow> hs_registered h = [])
    \<and> serve_request env r h \<noteq> Unreachable"
proof -
  note ok = helper_run_ok [OF assms]
  have "map_of (fl_table flows) k = Some i \<longleftrightarrow> (\<exists>fid r. (fid, r) \<in> set (hs_registered h) \<and> rg_key r = k \<and> rg_entry r = i)"
    if "hs_interceptor h = Some (flows, m)" for flows m k i
  proof -
    have "distinct (map fst (fl_table flows))" "set (fl_table flows) = set (links (hs_registered h))"
      using ok that by (simp_all add: session_ok_def store_inv_def store_ok_def)
    then show ?thesis by (force simp: links_def)
  qed
  moreover have "distinct (map (rg_key \<circ> snd) (hs_registered h))"
    using ok by (cases "hs_interceptor h") (auto simp: session_ok_def links_keys)
  moreover have "serve_request env r h \<noteq> Unreachable"
    using accepted_reachable by (cases r) (simp_all add: serve_end_def fatal_def close_interceptor_def)
  ultimately show ?thesis using ok by (auto simp: session_ok_def config_ok_def)
qed

text \<open>
  C15. Nobody drives the helper without the session secret. A helper that has left its initial state, in particular one that holds a
  configuration or an open interceptor, has received as its very first frame a Hello with the session proof and the process id
  the kernel reported for the peer; until then no frame has changed anything.
\<close>

theorem helper_authenticated_first:
  assumes "helper_run secret pid tr h"
  shows "tr = [] \<and> h = serve_start
    \<or> hs_state h \<noteq> Created \<and> (\<exists>hello. fr_message (hd tr) = MHello hello \<and> tr \<noteq> [] \<and> session_proof hello = secret
          \<and> data_plane_pid hello = pid)"
  using assms
proof (induction rule: helper_run.induct)
  case (poll tr h env fin h')
  then show ?case by (auto simp: serve_poll_def publish_progress_def serve_start_def Let_def
      split: option.splits prod.splits if_splits dest!: publish_loop_keeps)
next
  case (idle tr h env b h')
  then show ?case by (auto split: if_splits)
next
  case (request tr h env dec inp f rest h')
  then have acc: "accepts (hs_state h) (fr_message f)"
    and step: "serve_message env (fr_request_id f) (fr_message f) h = Running h'"
    by (auto split: if_splits)
  have left: "hs_state h' \<noteq> Created" using accepted_leaves_created [OF acc step] .
  show ?case
  proof (cases "tr = []")
    case True
    then have "hs_state h = Created" using request.IH by (auto simp: serve_start_def)
    with acc step obtain hello where "fr_message f = MHello hello" "on_hello env (fr_request_id f) hello h = Running h'"
      by (cases "fr_message f") auto
    then show ?thesis using left True request.hyps(2,3) by (auto simp: on_hello_def split: if_splits)
  next
    case False
    then show ?thesis using left request.IH by auto
  qed
next
  case (packet tr h flows m e p v p' flows')
  then show ?case by (auto simp: serve_start_def)
qed simp

section \<open>Progress reports\<close>

text \<open>What the data plane has not been told yet.\<close>

definition due_progress :: "FlowEntry list \<Rightarrow> (u64 \<times> RegisteredFlow) list \<Rightarrow> (u64 \<times> Progress) list" where
  "due_progress heap rs = concat (map (\<lambda>(fid, r). case flow_progress (heap ! rg_entry r) of None \<Rightarrow> []
     | Some p \<Rightarrow> if last_progress r = Some p then [] else [(fid, p)]) rs)"

definition progress_frame :: "u64 \<times> Progress \<Rightarrow> Frame" where
  "progress_frame x = frame_new 0 (MFlowProgress (fst x) (snd x))"

lemma due_progress_simps [simp]:
  "due_progress heap [] = []"
  "due_progress heap ((fid, r) # rs) = (let p = flow_progress (heap ! rg_entry r) in
     if p \<noteq> None \<and> p \<noteq> last_progress r then [(fid, the p)] else []) @ due_progress heap rs"
  by (auto simp: due_progress_def split: option.splits)

lemma publish_loop_sends:
  "publish_loop env heap rs h = (rs', h', True) \<Longrightarrow>
   hs_sent h' = hs_sent h @ map progress_frame (due_progress heap rs) \<and> due_progress heap rs' = []"
proof (induction rs arbitrary: h rs' h')
  case (Cons q rs)
  obtain fid r where q: "q = (fid, r)" by force
  let ?p = "flow_progress (heap ! rg_entry r)"
  show ?case
  proof (cases "?p \<noteq> None \<and> ?p \<noteq> last_progress r")
    case True
    then obtain pr where pr: "?p = Some pr" "last_progress r \<noteq> Some pr" by auto
    then obtain h1 where h1: "send_frame env 0 (MFlowProgress fid pr) h = Some h1"
      using Cons.prems by (auto simp: q Let_def split: option.splits)
    then show ?thesis using Cons.prems Cons.IH [of h1] pr send_frame_Some [OF h1]
      by (auto simp: q Let_def progress_frame_def split: prod.splits)
  next
    case False
    then show ?thesis using Cons.prems Cons.IH [of h] by (auto simp: q Let_def split: prod.splits)
  qed
qed simp

text \<open>A reported outcome stays the progress of its flow.\<close>

definition report_ok :: "FlowEntry list \<Rightarrow> RegisteredFlow \<Rightarrow> bool" where
  "report_ok heap r = (\<forall>p. last_progress r = Some p \<longrightarrow> p \<noteq> PReadyForData \<longrightarrow>
     flow_progress (heap ! rg_entry r) = Some p)"

definition reports_ok :: "FlowEntry list \<Rightarrow> (u64 \<times> RegisteredFlow) list \<Rightarrow> bool" where
  "reports_ok heap rs = (\<forall>x \<in> set rs. report_ok heap (snd x))"

lemma reports_ok_simps [simp]: "reports_ok heap []"
  "reports_ok heap (x # rs) \<longleftrightarrow> report_ok heap (snd x) \<and> reports_ok heap rs"
  by (simp_all add: reports_ok_def)

lemma report_ok_new [simp]: "flow_progress (heap ! rg_entry r) = p \<Longrightarrow> report_ok heap (r\<lparr>last_progress := p\<rparr>)"
  by (simp add: report_ok_def)

fun session_reports_ok :: "(FlowStore \<times> CompositeMethod) option \<Rightarrow> (u64 \<times> RegisteredFlow) list \<Rightarrow> bool" where
  "session_reports_ok None rs = True"
| "session_reports_ok (Some (flows, m)) rs = reports_ok (fl_heap flows) rs"

lemma publish_loop_reports:
  "publish_loop env heap rs h = (rs', h', ok) \<Longrightarrow> reports_ok heap rs \<Longrightarrow> reports_ok heap rs'"
proof (induction rs arbitrary: h rs' h' ok)
  case (Cons q rs)
  obtain fid r where q: "q = (fid, r)" by force
  let ?p = "flow_progress (heap ! rg_entry r)"
  show ?case
  proof (cases "?p \<noteq> None \<and> ?p \<noteq> last_progress r")
    case False
    then show ?thesis using Cons.prems Cons.IH [of h] by (auto simp: q split: prod.splits)
  next
    case True
    then show ?thesis
      using Cons.prems Cons.IH [of "the (send_frame env 0 (MFlowProgress fid (the ?p)) h)"]
      by (auto simp: q Let_def split: prod.splits option.splits)
  qed
qed simp

lemma flow_progress_outcome:
  "p \<noteq> PReadyForData \<Longrightarrow> flow_progress e = Some p \<longleftrightarrow>
     outcome (fe_state e) = Some (case p of PFakeDataAcked \<Rightarrow> FakeDataAcked | _ \<Rightarrow> UnexpectedClose)"
  by (cases p) (auto simp: flow_progress_def split: option.splits BypassOutcome.splits)

lemma keeps_progress: "keeps_outcome e e' \<Longrightarrow> p \<noteq> PReadyForData \<Longrightarrow> flow_progress e = Some p \<Longrightarrow> flow_progress e' = Some p"
  by (simp add: flow_progress_outcome keeps_outcome_def)

text \<open>Entries of registered flows are in the heap, so that appending to it and stepping its flows keep the reports.\<close>

lemma registered_bound:
  assumes "session_ok h" "hs_interceptor h = Some (flows, m)" "(fid, r) \<in> set (hs_registered h)"
  shows "rg_entry r < length (fl_heap flows)"
proof -
  have "(rg_key r, rg_entry r) \<in> set (fl_table flows)"
    using assms by (force simp: session_ok_def links_def)
  then show ?thesis using assms(1,2) by (force simp: session_ok_def store_inv_def store_ok_def)
qed

lemma reports_step:
  assumes "reports_ok heap rs" "\<And>fid r. (fid, r) \<in> set rs \<Longrightarrow> keeps_outcome (heap ! rg_entry r) (heap' ! rg_entry r)"
  shows "reports_ok heap' rs"
  using assms keeps_progress by (fastforce simp: reports_ok_def report_ok_def)

lemma register_reports:
  assumes "session_ok h" "session_reports_ok (hs_interceptor h) (hs_registered h)" "on_register env rid fid k d t h = Running h'"
  shows "session_reports_ok (hs_interceptor h') (hs_registered h')"
proof -
  obtain flows m where f: "hs_interceptor h = Some (flows, m)"
    "h' = h\<lparr>hs_interceptor := Some (insert_flow flows k d t, m),
       hs_registered := (fid, \<lparr>rg_key = k, rg_entry = length (fl_heap flows), last_progress = None\<rparr>) # hs_registered h,
       hs_sent := hs_sent h @ [frame_new rid (MFlowRegistered fid)]\<rparr>"
    using assms(3) by (auto simp: on_register_def split: if_splits option.splits dest!: reply_Running)
  have "reports_ok (fl_heap (insert_flow flows k d t)) (hs_registered h)"
  proof (rule reports_step)
    show "reports_ok (fl_heap flows) (hs_registered h)" using assms(2) f(1) by simp
    show "keeps_outcome (fl_heap flows ! rg_entry r) (fl_heap (insert_flow flows k d t) ! rg_entry r)"
      if "(x, r) \<in> set (hs_registered h)" for x r
      using registered_bound [OF assms(1) f(1) that] by (simp add: insert_flow_def nth_append)
  qed
  then show ?thesis by (simp add: f(2) report_ok_def)
qed

lemma remove_reports:
  assumes "session_reports_ok (hs_interceptor h) (hs_registered h)" "on_remove env rid fid h = Running h'"
  shows "session_reports_ok (hs_interceptor h') (hs_registered h')"
  using assms by (cases "hs_interceptor h"; cases "map_of (hs_registered h) fid")
    (auto simp: on_remove_def reports_ok_def remove_flow_def AList.delete_eq dest!: reply_Running)

text \<open>The other requests leave the flows alone or have none.\<close>

lemma other_reports:
  assumes "serve_message env rid msg h = Running h'" "\<And>fid k d t. msg \<noteq> MRegisterFlow fid k d t" "\<And>fid. msg \<noteq> MRemoveFlow fid"
    and "accepts (hs_state h) msg" "session_ok h"
  shows "hs_registered h' = hs_registered h \<and> hs_interceptor h' = hs_interceptor h \<or> hs_registered h' = []"
proof (cases msg)
  case MOpenInterceptor
  have "hs_registered h = []" using assms(4,5) MOpenInterceptor by (cases "hs_interceptor h") (auto simp: session_ok_def)
  then show ?thesis using assms(1) MOpenInterceptor
    by (auto simp: on_open_def Let_def split: if_splits option.splits dest!: reply_Running)
next
  case (MConfigureInterceptor v)
  then show ?thesis using assms(1)
    by (auto simp: on_configure_def Let_def split: if_splits option.splits dest!: reply_Running send_frame_Some)
next
  case (MHello x)
  then show ?thesis using assms(1) by (auto simp: on_hello_def split: if_splits dest!: reply_Running)
next
  case (MSetLowTtlValue x)
  then show ?thesis using assms(1) by (auto simp: on_set_low_ttl_def dest!: reply_Running)
next
  case MCloseInterceptor
  then show ?thesis using assms(1) by (auto simp: on_close_def close_interceptor_def split: if_splits dest!: reply_Running)
next
  case MPing
  then show ?thesis using assms(1) by (auto dest!: reply_Running)
qed (use assms in simp_all)

lemma no_reports [simp]: "session_reports_ok i []"
  by (cases i) auto

lemma request_reports:
  assumes "session_ok h" "session_reports_ok (hs_interceptor h) (hs_registered h)" "serve_request env r h = Running h'"
  shows "session_reports_ok (hs_interceptor h') (hs_registered h')"
proof (cases r)
  case (RFrame f)
  then have acc: "accepts (hs_state h) (fr_message f)"
    and step: "serve_message env (fr_request_id f) (fr_message f) h = Running h'"
    using assms(3) by (auto split: if_splits)
  consider fid k d t where "fr_message f = MRegisterFlow fid k d t" | fid where "fr_message f = MRemoveFlow fid"
    | "\<And>fid k d t. fr_message f \<noteq> MRegisterFlow fid k d t" "\<And>fid. fr_message f \<noteq> MRemoveFlow fid" by blast
  then show ?thesis
  proof cases
    case 1
    then show ?thesis using register_reports [OF assms(1,2)] step by simp
  next
    case 2
    then show ?thesis using remove_reports [OF assms(2)] step by simp
  next
    case 3
    then show ?thesis using other_reports [OF step 3 acc assms(1)] assms(2) by auto
  qed
qed (use assms in \<open>auto split: if_splits\<close>)

lemma serve_poll_open:
  assumes "hs_interceptor h = Some (flows, m)" "serve_poll env fin h = Running h'"
  shows "\<exists>rs x. publish_loop env (fl_heap flows) (hs_registered h) h = (rs, h\<lparr>hs_sent := x\<rparr>, True)
    \<and> h' = h\<lparr>hs_sent := x, hs_registered := rs\<rparr>"
proof -
  obtain rs h1 where "publish_loop env (fl_heap flows) (hs_registered h) h = (rs, h1, True)" "h' = h1\<lparr>hs_registered := rs\<rparr>"
    using assms by (auto simp: serve_poll_def publish_progress_def Let_def split: prod.splits if_splits)
  then show ?thesis using publish_loop_keeps by fastforce
qed

lemma due_progress_mem: "(fid, p) \<in> set (due_progress heap rs) \<Longrightarrow>
    \<exists>r. (fid, r) \<in> set rs \<and> flow_progress (heap ! rg_entry r) = Some p \<and> last_progress r \<noteq> Some p"
  by (auto simp: due_progress_def split: option.splits if_splits)

lemma helper_run_reports: "helper_run secret pid tr h \<Longrightarrow> session_reports_ok (hs_interceptor h) (hs_registered h)"
proof (induction rule: helper_run.induct)
  case (poll tr h env fin h')
  show ?case
  proof (cases "hs_interceptor h")
    case None
    then show ?thesis using poll by (simp add: serve_poll_def)
  next
    case (Some i)
    obtain flows m where f: "hs_interceptor h = Some (flows, m)" using Some by (cases i) simp
    obtain rs x where "publish_loop env (fl_heap flows) (hs_registered h) h = (rs, h\<lparr>hs_sent := x\<rparr>, True)"
      "h' = h\<lparr>hs_sent := x, hs_registered := rs\<rparr>"
      using serve_poll_open [OF f poll.hyps(2)] by blast
    then show ?thesis using f poll.IH publish_loop_reports by fastforce
  qed
next
  case (idle tr h env b h')
  then show ?case using request_reports [OF helper_run_ok] by blast
next
  case (request tr h env dec inp f rest h')
  then show ?case using request_reports [OF helper_run_ok] by blast
next
  case (packet tr h flows m e p v p' flows')
  note ok = helper_run_ok [OF packet.hyps(1)]
  have "reports_ok (fl_heap flows') (hs_registered h)"
  proof (rule reports_step)
    show "reports_ok (fl_heap flows) (hs_registered h)" using packet.IH packet.hyps(2) by simp
    show "keeps_outcome (fl_heap flows ! rg_entry r) (fl_heap flows' ! rg_entry r)"
      if "(x, r) \<in> set (hs_registered h)" for x r
      using flow_step_keeps_outcome [OF flow_step.packet [OF packet.hyps(3)] _ registered_bound [OF ok packet.hyps(2) that]]
        ok packet.hyps(2) by (simp add: session_ok_def store_inv_def)
  qed
  then show ?case by simp
qed (simp add: serve_start_def)

text \<open>
  Progress reports. When the helper polls its flows, it sends for every registered flow whose progress the data plane has not
  been told exactly one report, and afterwards nothing is left to report. Over the life of a registration at most two reports are
  made, ReadyForData only as the first of them, and nothing follows the report of an outcome.
\<close>

theorem progress_reported_once:
  assumes "helper_run secret pid tr h" "hs_interceptor h = Some (flows, m)" "serve_poll env False h = Running h'"
  shows "hs_sent h' = hs_sent h @ map progress_frame (due_progress (fl_heap flows) (hs_registered h))
    \<and> due_progress (fl_heap flows) (hs_registered h') = []
    \<and> (\<forall>(fid, p) \<in> set (due_progress (fl_heap flows) (hs_registered h)).
         \<exists>r. (fid, r) \<in> set (hs_registered h) \<and> flow_progress (fl_heap flows ! rg_entry r) = Some p
           \<and> (last_progress r = None \<or> last_progress r = Some PReadyForData \<and> p \<noteq> PReadyForData))"
proof -
  obtain rs x where pub: "publish_loop env (fl_heap flows) (hs_registered h) h = (rs, h\<lparr>hs_sent := x\<rparr>, True)"
    "h' = h\<lparr>hs_sent := x, hs_registered := rs\<rparr>"
    using serve_poll_open [OF assms(2,3)] by blast
  have rep: "reports_ok (fl_heap flows) (hs_registered h)" using helper_run_reports [OF assms(1)] assms(2) by simp
  have "last_progress r = None \<or> last_progress r = Some PReadyForData \<and> p \<noteq> PReadyForData"
    if "(fid, r) \<in> set (hs_registered h)" "flow_progress (fl_heap flows ! rg_entry r) = Some p" "last_progress r \<noteq> Some p" for fid r p
    using rep that by (cases "last_progress r") (force simp: reports_ok_def report_ok_def)+
  then have "\<exists>r. (fid, r) \<in> set (hs_registered h) \<and> flow_progress (fl_heap flows ! rg_entry r) = Some p
      \<and> (last_progress r = None \<or> last_progress r = Some PReadyForData \<and> p \<noteq> PReadyForData)"
    if "(fid, p) \<in> set (due_progress (fl_heap flows) (hs_registered h))" for fid p
    using due_progress_mem [OF that] by blast
  then show ?thesis using publish_loop_sends [OF pub(1)] pub(2) by auto
qed

section \<open>The configuration on the wire\<close>

text \<open>
  The methods whose parameters are carried by the message, and those that need none in the helper because they act on the
  socket of the data plane.
\<close>

definition carried_methods :: "string list" where
  "carried_methods = [''wrong_seq'', ''wrong_ack'', ''wrong_checksum'', ''wrong_md5'', ''wrong_timestamp'', ''low_ttl'',
     ''tls_record_frag'', ''tls_frag'', ''ccs_prefix'', ''tls_padding'', ''mixed_case_sni'', ''sni_boundary_frag'',
     ''tls_record_split'']"

lemma carried_expand: "set ns \<subseteq> set carried_methods \<Longrightarrow> method_list_of ns = ns"
  by (induction ns) (auto simp: method_list_of_def carried_methods_def expand_method_alias_def)

lemma carried_records:
  assumes "w = wire_config (ic_method (interceptor_config c i r p))"
  shows "wrong_seq_new w = wrong_seq_new c" "wrong_ack_new w = wrong_ack_new c"
    "wrong_checksum_new w = wrong_checksum_new c" "wrong_md5_new w = wrong_md5_new c"
    "wrong_timestamp_new w = wrong_timestamp_new c" "low_ttl_new w = low_ttl_new c"
    "tls_record_frag_new w = tls_record_frag_new c"
  by (simp_all add: assms wire_config_def interceptor_config_def wrong_seq_new_def wrong_ack_new_def
      wrong_checksum_new_def wrong_md5_new_def wrong_timestamp_new_def low_ttl_new_def tls_record_frag_new_def)

lemma carried_member:
  assumes "n \<in> set carried_methods"
  shows "build_member seed (wire_config (ic_method (interceptor_config c i r p))) ch n = build_member seed c ch n"
proof -
  have "n \<noteq> ''fake_tls''" "n \<noteq> ''ip_frag''" "n \<noteq> ''disorder''" "n \<noteq> ''seqovl''" "n \<noteq> ''urg_sni_split''"
    using assms by (auto simp: carried_methods_def)
  then show ?thesis by (simp add: build_member_def carried_records [OF refl])
qed

lemma carried_members:
  assumes "set ns \<subseteq> set carried_methods"
  shows "build_members seed (wire_config (ic_method (interceptor_config c i r p))) ch ns = build_members seed c ch ns"
  using assms
proof (induction ns)
  case (Cons n ns)
  then have "n \<in> set carried_methods" "set ns \<subseteq> set carried_methods" by simp_all
  then show ?case using Cons.IH by (simp only: build_members.simps carried_member)
qed simp

lemma wire_method_carried:
  assumes "set (BYPASS_METHOD c) \<subseteq> set carried_methods"
  shows "build_wire_method seed (ic_method (interceptor_config c i r p)) = build_method seed c"
proof -
  have "BYPASS_METHOD (wire_config (ic_method (interceptor_config c i r p))) = BYPASS_METHOD c"
    using carried_expand [OF assms] by (simp add: wire_config_def interceptor_config_def)
  then show ?thesis unfolding build_wire_method_def build_method_def Let_def by (simp only: carried_members [OF assms])
qed

text \<open>The parameters of the other methods are lost: the helper runs \<^verbatim>\<open>fake_tls\<close> with one decoy whatever the configuration says.\<close>

definition fake_tls_config :: Config where
  "fake_tls_config = (default_config 44444)\<lparr>BYPASS_METHOD := [''fake_tls''], FAKE_TLS_REPEATS := 3\<rparr>"

lemma wire_method_drops_fake_tls:
  "validate_methods fake_tls_config = None" "validate_interceptor_params fake_tls_config = None"
  "set (BYPASS_METHOD fake_tls_config) \<subseteq> set SUPPORTED"
  "build_wire_method seed (ic_method (interceptor_config fake_tls_config i r p)) \<noteq> build_method seed fake_tls_config"
proof -
  show "validate_methods fake_tls_config = None"
    by (simp add: fake_tls_config_def validate_methods_def Let_def BASE_BYPASS_METHODS_def shapers_def EMISSION_SHAPERS_def)
  show "validate_interceptor_params fake_tls_config = None"
    by (simp add: fake_tls_config_def validate_interceptor_params_def first_error_None default_config_def validate_at_least_def exact_def)
  show "set (BYPASS_METHOD fake_tls_config) \<subseteq> set SUPPORTED"
    by (simp add: fake_tls_config_def SUPPORTED_def)
  show "build_wire_method seed (ic_method (interceptor_config fake_tls_config i r p)) \<noteq> build_method seed fake_tls_config"
    by (simp add: fake_tls_config_def build_wire_method_def build_method_def build_member_def wire_config_def interceptor_config_def
        method_list_of_def expand_method_alias_def is_socket_only_def socket_side_def fake_tls_new_def default_config_def)
qed

text \<open>
  C21. The helper runs the chain the data plane asks for, as far as the message carries it. For every configuration whose methods are
  among the carried ones, the method the helper rebuilds from the configuration message equals, member by member and parameter by parameter,
  the method the data plane would build in its own process. The restriction is needed: there is an accepted configuration,
  of a method the helper supports, for which the two differ.
\<close>

theorem wire_method_equivalent:
  assumes "set (BYPASS_METHOD c) \<subseteq> set carried_methods"
  shows "build_wire_method seed (ic_method (interceptor_config c iface remote port)) = build_method seed c
    \<and> (\<exists>c'. validate_methods c' = None \<and> validate_interceptor_params c' = None \<and> set (BYPASS_METHOD c') \<subseteq> set SUPPORTED
         \<and> build_wire_method seed (ic_method (interceptor_config c' iface remote port)) \<noteq> build_method seed c')"
  using wire_method_carried [OF assms] wire_method_drops_fake_tls by blast

lemma wire_method_equivalent_witness:
  "build_wire_method 3 (ic_method (interceptor_config (default_config 44444) 1 None 443)) = build_method 3 (default_config 44444)"
proof -
  have "set (BYPASS_METHOD (default_config 44444)) \<subseteq> set carried_methods"
    by (simp add: default_config_def default_methods carried_methods_def)
  then show ?thesis using wire_method_equivalent by blast
qed

section \<open>A sample session\<close>

definition sample_secret :: bytes where
  "sample_secret = replicate 32 7"

definition sample_env :: HelperEnv where
  "sample_env = \<lparr>he_proof = sample_secret, he_peer_pid = 5, he_peer_uid = 1000, he_pid = 9, he_uid = 0,
     he_to_vec = (\<lambda>_. Some []), he_write = (\<lambda>_. True), he_recover = (\<lambda>_. Some 0), he_open = (\<lambda>_. True),
     he_spawn = True, he_close = None, he_seed = 0\<rparr>"

definition sample_hello :: Hello where
  "sample_hello = \<lparr>session_proof = sample_secret, data_plane_pid = 5, build_version = ''1''\<rparr>"

definition sample_config :: InterceptorConfig where
  "sample_config = interceptor_config (default_config 44444) 0x0A000001 None 443"

definition helper_key :: FlowKey where
  "helper_key = \<lparr>fk_src_ip = 0x0A000001, fk_src_port = 40000, fk_dst_ip = 0x01020304, fk_dst_port = 443\<rparr>"

lemma sample_env_simps [simp]: "he_proof sample_env = sample_secret" "he_peer_pid sample_env = 5" "he_peer_uid sample_env = 1000"
  "he_pid sample_env = 9" "he_uid sample_env = 0" "he_recover sample_env b = Some 0" "he_open sample_env f"
  "he_spawn sample_env" "he_close sample_env = None" "he_seed sample_env = 0"
  by (simp_all add: sample_env_def)

lemma sample_reply: "message_validate msg = None \<Longrightarrow>
    reply sample_env rid msg h = Running (h\<lparr>hs_sent := hs_sent h @ [frame_new rid msg]\<rparr>)"
  by (simp add: reply_def send_frame_def write_frame_def frame_new_def sample_env_def)

text \<open>A checked message reaches the helper over the wire.\<close>

lemma sample_request:
  assumes "helper_run sample_secret 5 tr h" "message_validate msg = None" "accepts (hs_state h) msg"
    and "serve_message sample_env rid msg h = Running h'"
  shows "helper_run sample_secret 5 (tr @ [frame_new rid msg]) h'"
proof -
  obtain out where "write_frame (\<lambda>_. Some []) (frame_new rid msg) = Inr out"
    using assms(2) by (simp add: write_frame_def frame_new_def)
  then have "read_frame (\<lambda>_. Some msg) (out @ []) = Inr (frame_new rid msg, [])"
    by (rule read_written_frame) (simp add: frame_new_def)
  from helper_run.request [OF assms(1) _ _ this, of sample_env h'] show ?thesis
    using assms(3,4) by (simp add: frame_new_def)
qed

lemma sample_checks:
  "message_validate (MHello sample_hello) = None" "message_validate (MConfigureInterceptor sample_config) = None"
  "message_validate (MRegisterFlow 1 helper_key [] None) = None"
  by (simp_all add: sample_hello_def sample_secret_def SESSION_PROOF_SIZE_def sample_config_def helper_key_def
      interceptor_config_validate_def interceptor_config_def method_config_validate_def default_config_def default_methods
      SUPPORTED_def invalid_endpoint_address_def flow_key_validate_def MAX_FAKE_DATA_SIZE_def)

definition authenticated_session :: HelperSession where
  "authenticated_session = serve_start\<lparr>hs_state := Authenticated, hs_sent := [frame_new 1 (MHelloAccepted
     \<lparr>peer_uid = 1000, helper_pid = 9, helper_uid = 0, protocol_major = PROTOCOL_MAJOR, protocol_minor = PROTOCOL_MINOR,
      capabilities = [''nfqueue'', ''flow_progress'']\<rparr>)]\<rparr>"

lemma sample_authenticated: "helper_run sample_secret 5 [frame_new 1 (MHello sample_hello)] authenticated_session"
proof -
  have "serve_message sample_env 1 (MHello sample_hello) serve_start = Running authenticated_session"
    by (simp add: on_hello_def sample_reply sample_hello_def authenticated_session_def serve_start_def
        PROTOCOL_MAJOR_def PROTOCOL_MINOR_def)
  then show ?thesis using sample_request [OF helper_run.start sample_checks(1), of 1 authenticated_session]
    by (simp add: serve_start_def)
qed

lemma helper_session_invariant_witness:
  "length (hs_registered authenticated_session) \<le> MAX_LIVE_FLOWS
   \<and> serve_request sample_env (RFrame (frame_new 2 MOpenInterceptor)) authenticated_session \<noteq> Unreachable"
  using helper_session_invariant [OF sample_authenticated] by blast

lemma helper_authenticated_first_witness:
  "\<exists>hello. fr_message (hd [frame_new 1 (MHello sample_hello)]) = MHello hello \<and> session_proof hello = sample_secret"
  using helper_authenticated_first [OF sample_authenticated] by auto

text \<open>The same session with an open interceptor and one flow.\<close>

lemma sample_chain: "\<exists>m. build_wire_method 0 (ic_method sample_config) = Some m"
proof -
  have ms: "BYPASS_METHOD (default_config 44444) = [''wrong_seq'', ''tls_frag'']"
    by (simp add: default_config_def default_methods)
  then have "build_wire_method 0 (ic_method sample_config) = build_method 0 (default_config 44444)"
    unfolding sample_config_def by (intro wire_method_carried) (simp add: carried_methods_def)
  then show ?thesis by (simp add: build_method_def ms is_socket_only_def socket_side_def build_member_def)
qed

lemma sample_tracked:
  "\<exists>tr h flows m. helper_run sample_secret 5 tr h \<and> hs_interceptor h = Some (flows, m)
     \<and> fl_heap flows = [new_flow_entry [] None] \<and> fl_table flows = [(helper_key, 0)]
     \<and> hs_registered h = [(1, \<lparr>rg_key = helper_key, rg_entry = 0, last_progress = None\<rparr>)]"
proof -
  obtain m where m: "build_wire_method 0 (ic_method sample_config) = Some m" using sample_chain by blast
  define h2 where "h2 = authenticated_session\<lparr>hs_config := Some sample_config, hs_state := Configured,
    hs_sent := hs_sent authenticated_session @ [frame_new 2 MConfigured]\<rparr>"
  define h3 where "h3 = h2\<lparr>hs_low_ttl := low_ttl_handle m (mc_low_ttl_value (ic_method sample_config)),
    hs_interceptor := Some (new_flow_table, m), hs_state := InterceptorOpen,
    hs_sent := hs_sent h2 @ [frame_new 3 MInterceptorReady]\<rparr>"
  define h4 where "h4 = h3\<lparr>hs_interceptor := Some (insert_flow new_flow_table helper_key [] None, m),
    hs_registered := [(1, \<lparr>rg_key = helper_key, rg_entry = 0, last_progress = None\<rparr>)],
    hs_sent := hs_sent h3 @ [frame_new 4 (MFlowRegistered 1)]\<rparr>"
  have "serve_message sample_env 2 (MConfigureInterceptor sample_config) authenticated_session = Running h2"
    using sample_checks(2) by (simp add: on_configure_def sample_reply h2_def)
  from sample_request [OF sample_authenticated sample_checks(2) _ this]
  obtain tr2 where r2: "helper_run sample_secret 5 tr2 h2" by (auto simp: authenticated_session_def)
  have "serve_message sample_env 3 MOpenInterceptor h2 = Running h3"
    using m by (simp add: on_open_def sample_reply h3_def h2_def)
  from sample_request [OF r2 _ _ this] obtain tr3 where r3: "helper_run sample_secret 5 tr3 h3" by (auto simp: h2_def)
  have "hs_registered h3 = []" "hs_interceptor h3 = Some (new_flow_table, m)" "fl_heap new_flow_table = []"
    by (simp_all add: h3_def h2_def authenticated_session_def serve_start_def new_flow_table_def)
  then have "serve_message sample_env 4 (MRegisterFlow 1 helper_key [] None) h3 = Running h4"
    by (simp add: on_register_def sample_reply h4_def MAX_LIVE_FLOWS_def)
  from sample_request [OF r3 sample_checks(3) _ this] obtain tr4 where "helper_run sample_secret 5 tr4 h4" by (auto simp: h3_def)
  then show ?thesis by (intro exI [of _ tr4] exI [of _ h4]) (simp add: h4_def insert_flow_def new_flow_table_def)
qed

lemma progress_reported_once_witness:
  "\<exists>tr h h'. helper_run sample_secret 5 tr h \<and> serve_poll sample_env False h = Running h' \<and> hs_sent h' = hs_sent h"
proof -
  obtain tr h flows m where h: "helper_run sample_secret 5 tr h" "hs_interceptor h = Some (flows, m)"
    "fl_heap flows = [new_flow_entry [] None]"
    "hs_registered h = [(1, \<lparr>rg_key = helper_key, rg_entry = 0, last_progress = None\<rparr>)]"
    using sample_tracked by blast
  have none: "flow_progress (new_flow_entry [] None) = None"
    by (simp add: flow_progress_def new_flow_entry_def new_flow_state_def)
  then obtain h' where "serve_poll sample_env False h = Running h'"
    by (simp add: serve_poll_def publish_progress_def h(2-4) Let_def)
  moreover from progress_reported_once [OF h(1,2) this] have "hs_sent h' = hs_sent h"
    by (simp add: h(3,4) none Let_def)
  ultimately show ?thesis using h(1) by blast
qed

end
