(* ===== verification/Helper_Client.thy ===== *)
theory Helper_Client
  imports Root_Helper
begin

text \<open>
  The data plane's end of the helper connection, src/crates/zerodpi/src/helper\_client.rs: the tables of outstanding requests and
  remote flows, the reader thread's \<^verbatim>\<open>handle_frame\<close>, \<^verbatim>\<open>disconnect\<close> and the flow controller. A request is two steps, what
  happens before the wait for the answer and what happens after it, because the reader thread runs in between. Entries are
  kept in a heap as in the flow store. The connection set-up with its checks is in \<open>Helper_Bootstrap\<close>.
\<close>

section \<open>State\<close>

record HelperClient =
  cl_pending :: "u32 list"
  cl_answers :: "(u32 \<times> (string + Message)) list"
  cl_flows :: "(u64 \<times> nat) list"
  cl_flow_ids :: "(FlowKey \<times> u64) list"
  cl_heap :: "FlowEntry list"
  cl_next_request_id :: u32
  cl_next_flow_id :: u64
  cl_disconnected :: bool
  cl_sent :: "Frame list"

definition client_start :: HelperClient where
  "client_start = \<lparr>cl_pending = [], cl_answers = [], cl_flows = [], cl_flow_ids = [], cl_heap = [],
     cl_next_request_id = 2, cl_next_flow_id = 1, cl_disconnected = False, cl_sent = []\<rparr>"

definition MAX_PENDING_REQUESTS :: nat where
  "MAX_PENDING_REQUESTS = 1024"

section \<open>Requests\<close>

text \<open>\<^verbatim>\<open>fetch_update\<close> with \<^verbatim>\<open>checked_add\<close>: the old value, or an error at the end of the space.\<close>

definition allocate_request_id :: "HelperClient \<Rightarrow> (u32 \<times> HelperClient) option" where
  "allocate_request_id c = (let r = cl_next_request_id c in
     if r = 0xFFFFFFFF then None else Some (r, c\<lparr>cl_next_request_id := r + 1\<rparr>))"

definition client_write :: "(Message \<Rightarrow> bytes option) \<Rightarrow> (Frame \<Rightarrow> bool) \<Rightarrow> u32 \<Rightarrow> Message \<Rightarrow> HelperClient \<Rightarrow> HelperClient option" where
  "client_write to_vec wr rid msg c = (let f = frame_new rid msg in
     case write_frame to_vec f of Inl _ \<Rightarrow> None
     | Inr _ \<Rightarrow> if wr f then Some (c\<lparr>cl_sent := cl_sent c @ [f]\<rparr>) else None)"

text \<open>
  \<^verbatim>\<open>request\<close> up to the wait: the identifier to wait for, or \<open>None\<close> for an error. It is one step: in the code a disconnect can fall
  between the check and the insertion, and such a request ends with its timeout.
\<close>

definition request_start :: "(Message \<Rightarrow> bytes option) \<Rightarrow> (Frame \<Rightarrow> bool) \<Rightarrow> Message \<Rightarrow> HelperClient
    \<Rightarrow> u32 option \<times> HelperClient" where
  "request_start to_vec wr msg c =
     (if cl_disconnected c then (None, c)
      else (case allocate_request_id c of None \<Rightarrow> (None, c)
      | Some (rid, c1) \<Rightarrow>
          if MAX_PENDING_REQUESTS \<le> length (cl_pending c1) then (None, c1)
          else (let c2 = c1\<lparr>cl_pending := rid # cl_pending c1\<rparr> in
            case client_write to_vec wr rid msg c2 of
              None \<Rightarrow> (None, c2\<lparr>cl_pending := removeAll rid (cl_pending c2)\<rparr>)
            | Some c3 \<Rightarrow> (Some rid, c3))))"

text \<open>What the wait returned: an answer, the error of a disconnect, a dropped channel, or the timeout.\<close>

datatype Waited = WAnswer Message | WError string | WClosed | WTimeout

definition request_end :: "u32 \<Rightarrow> Waited \<Rightarrow> HelperClient \<Rightarrow> HelperClient" where
  "request_end rid w c = (if w = WTimeout then c\<lparr>cl_pending := removeAll rid (cl_pending c)\<rparr> else c)"

section \<open>The reader\<close>

definition update_entry :: "nat \<Rightarrow> (FlowEntry \<Rightarrow> FlowEntry) \<Rightarrow> HelperClient \<Rightarrow> HelperClient" where
  "update_entry i f c = c\<lparr>cl_heap := (cl_heap c)[i := f (cl_heap c ! i)]\<rparr>"

fun apply_progress :: "Progress \<Rightarrow> FlowEntry \<Rightarrow> FlowEntry" where
  "apply_progress PReadyForData e =
     e\<lparr>fe_state := (fe_state e)\<lparr>waiting_for_data := True\<rparr>, ready_for_data := Suc (ready_for_data e)\<rparr>"
| "apply_progress PFakeDataAcked e = finish FakeDataAcked e"
| "apply_progress PUnexpectedClose e = finish UnexpectedClose e"

text \<open>\<^verbatim>\<open>disconnect\<close>; the order in which the maps are walked does not matter.\<close>

definition disconnect :: "string \<Rightarrow> HelperClient \<Rightarrow> HelperClient" where
  "disconnect reason c = (if cl_disconnected c then c
     else c\<lparr>cl_disconnected := True,
       cl_answers := cl_answers c @ map (\<lambda>r. (r, Inl (''root helper disconnected: '' @ reason))) (cl_pending c),
       cl_pending := [],
       cl_heap := fold (\<lambda>(k, i) h. h[i := finish UnexpectedClose (h ! i)]) (cl_flows c) (cl_heap c)\<rparr>)"

definition handle_frame :: "Frame \<Rightarrow> HelperClient \<Rightarrow> HelperClient" where
  "handle_frame f c = (case fr_message f of
     MFlowProgress fid p \<Rightarrow> (case map_of (cl_flows c) fid of None \<Rightarrow> c | Some i \<Rightarrow> update_entry i (apply_progress p) c)
   | MHelperWarning _ _ \<Rightarrow> c
   | MHelperFatal _ msg \<Rightarrow> disconnect msg c
   | msg \<Rightarrow> if fr_request_id f \<in> set (cl_pending c)
       then c\<lparr>cl_pending := removeAll (fr_request_id f) (cl_pending c), cl_answers := cl_answers c @ [(fr_request_id f, Inr msg)]\<rparr>
       else c)"

section \<open>The flow controller\<close>

definition client_remove_flow :: "(Message \<Rightarrow> bytes option) \<Rightarrow> (Frame \<Rightarrow> bool) \<Rightarrow> FlowKey \<Rightarrow> HelperClient \<Rightarrow> HelperClient" where
  "client_remove_flow to_vec wr k c = (case map_of (cl_flow_ids c) k of None \<Rightarrow> c
   | Some fid \<Rightarrow> (let c1 = c\<lparr>cl_flow_ids := AList.delete k (cl_flow_ids c), cl_flows := AList.delete fid (cl_flows c)\<rparr> in
       case client_write to_vec wr 0 (MRemoveFlow fid) c1 of None \<Rightarrow> c1 | Some c2 \<Rightarrow> c2))"

text \<open>
  \<^verbatim>\<open>register_flow\<close> up to the wait: the flow's identifier and handle with the request's identifier, or \<open>None\<close> for an error
  before the flow is in the tables. The flow is in the tables before the request is sent.
\<close>

definition client_register_start :: "(Message \<Rightarrow> bytes option) \<Rightarrow> (Frame \<Rightarrow> bool) \<Rightarrow> FlowKey \<Rightarrow> bytes \<Rightarrow> u8 option \<Rightarrow> HelperClient
    \<Rightarrow> (u64 \<times> nat \<times> u32 option) option \<times> HelperClient" where
  "client_register_start to_vec wr k data ttl c = (let fid = cl_next_flow_id c; c1 = c\<lparr>cl_next_flow_id := fid + 1\<rparr> in
     if fid = 0 then (None, c1)
     else (let i = length (cl_heap c1);
               c2 = c1\<lparr>cl_heap := cl_heap c1 @ [new_flow_entry [] ttl], cl_flows := AList.update fid i (cl_flows c1),
                 cl_flow_ids := AList.update k fid (cl_flow_ids c1)\<rparr>;
               (rid, c3) = request_start to_vec wr (MRegisterFlow fid k data ttl) c2 in
           (Some (fid, i, rid), c3)))"

text \<open>The rest of \<^verbatim>\<open>register_flow\<close>: whether the caller gets the entry.\<close>

definition client_register_end :: "(Message \<Rightarrow> bytes option) \<Rightarrow> (Frame \<Rightarrow> bool) \<Rightarrow> FlowKey \<Rightarrow> u64 \<Rightarrow> u32 option \<Rightarrow> Waited \<Rightarrow> HelperClient
    \<Rightarrow> bool \<times> HelperClient" where
  "client_register_end to_vec wr k fid rid w c =
     (case rid of None \<Rightarrow> (False, client_remove_flow to_vec wr k c)
      | Some r \<Rightarrow> (let c1 = request_end r w c in
          if w = WAnswer (MFlowRegistered fid) then (True, c1) else (False, client_remove_flow to_vec wr k c1)))"

definition client_reset :: "HelperClient \<Rightarrow> HelperClient" where
  "client_reset c = c\<lparr>cl_heap := fold (\<lambda>(k, i) h. h[i := finish UnexpectedClose (h ! i)]) (cl_flows c) (cl_heap c),
     cl_flows := [], cl_flow_ids := []\<rparr>"

definition client_flow_exists :: "FlowKey \<Rightarrow> HelperClient \<Rightarrow> bool" where
  "client_flow_exists k c = (map_of (cl_flow_ids c) k \<noteq> None)"

section \<open>The tables\<close>

text \<open>The identifiers handed out so far are below the next ones, and the flow table points to distinct entries of the heap.\<close>

definition client_ok :: "HelperClient \<Rightarrow> bool" where
  "client_ok c = (distinct (cl_pending c) \<and> (\<forall>r \<in> set (cl_pending c). 2 \<le> r \<and> r < cl_next_request_id c)
     \<and> 2 \<le> cl_next_request_id c
     \<and> distinct (map fst (cl_flows c)) \<and> distinct (map snd (cl_flows c))
     \<and> (\<forall>i \<in> set (map snd (cl_flows c)). i < length (cl_heap c))
     \<and> (cl_disconnected c \<longrightarrow> cl_pending c = [])
     \<and> length (cl_pending c) \<le> MAX_PENDING_REQUESTS)"

inductive client_step :: "HelperClient \<Rightarrow> HelperClient \<Rightarrow> bool" where
  cs_request: "request_start to_vec wr msg c = (r, c') \<Longrightarrow> client_step c c'"
| cs_waited: "client_step c (request_end rid w c)"
| cs_frame: "client_step c (handle_frame f c)"
| cs_disconnect: "client_step c (disconnect reason c)"
| cs_register: "client_register_start to_vec wr k data ttl c = (r, c') \<Longrightarrow> client_step c c'"
| cs_registered: "client_register_end to_vec wr k fid rid w c = (b, c') \<Longrightarrow> client_step c c'"
| cs_remove: "client_step c (client_remove_flow to_vec wr k c)"
| cs_reset: "client_step c (client_reset c)"

lemma alist_update_snd:
  assumes "distinct (map snd xs)" "i \<notin> snd ` set xs"
  shows "distinct (map snd (AList.update k i xs)) \<and> set (map snd (AList.update k i xs)) \<subseteq> insert i (set (map snd xs))"
  using assms by (induction xs) auto

lemma alist_delete_snd: "distinct (map snd xs) \<Longrightarrow> distinct (map snd (AList.delete k xs))
    \<and> set (map snd (AList.delete k xs)) \<subseteq> set (map snd xs)"
  by (induction xs) auto

text \<open>The flow table of the client, and the table of requests.\<close>

definition flows_part :: "HelperClient \<Rightarrow> bool" where
  "flows_part c = (distinct (map fst (cl_flows c)) \<and> distinct (map snd (cl_flows c))
     \<and> (\<forall>i \<in> set (map snd (cl_flows c)). i < length (cl_heap c)))"

definition requests_part :: "HelperClient \<Rightarrow> bool" where
  "requests_part c = (distinct (cl_pending c) \<and> (\<forall>r \<in> set (cl_pending c). 2 \<le> r \<and> r < cl_next_request_id c)
     \<and> 2 \<le> cl_next_request_id c \<and> (cl_disconnected c \<longrightarrow> cl_pending c = [])
     \<and> length (cl_pending c) \<le> MAX_PENDING_REQUESTS)"

lemma client_ok_parts: "client_ok c \<longleftrightarrow> flows_part c \<and> requests_part c"
  by (auto simp: client_ok_def flows_part_def requests_part_def)

lemma flows_part_keep [simp]:
  "flows_part (c\<lparr>cl_pending := a\<rparr>) = flows_part c" "flows_part (c\<lparr>cl_answers := b\<rparr>) = flows_part c"
  "flows_part (c\<lparr>cl_next_request_id := r\<rparr>) = flows_part c" "flows_part (c\<lparr>cl_next_flow_id := n\<rparr>) = flows_part c"
  "flows_part (c\<lparr>cl_disconnected := d\<rparr>) = flows_part c" "flows_part (c\<lparr>cl_sent := s\<rparr>) = flows_part c"
  "flows_part (c\<lparr>cl_flow_ids := i\<rparr>) = flows_part c"
  by (simp_all add: flows_part_def)

lemma requests_part_keep [simp]:
  "requests_part (c\<lparr>cl_flows := a\<rparr>) = requests_part c" "requests_part (c\<lparr>cl_answers := b\<rparr>) = requests_part c"
  "requests_part (c\<lparr>cl_heap := h\<rparr>) = requests_part c" "requests_part (c\<lparr>cl_next_flow_id := n\<rparr>) = requests_part c"
  "requests_part (c\<lparr>cl_sent := s\<rparr>) = requests_part c" "requests_part (c\<lparr>cl_flow_ids := i\<rparr>) = requests_part c"
  by (simp_all add: requests_part_def)

lemma requests_part_remove:
  assumes "requests_part c"
  shows "requests_part (c\<lparr>cl_pending := removeAll r (cl_pending c)\<rparr>)"
proof -
  have "length (removeAll r (cl_pending c)) \<le> length (cl_pending c)" by (simp add: removeAll_filter_not_eq)
  also have "length (cl_pending c) \<le> MAX_PENDING_REQUESTS" using assms by (simp add: requests_part_def)
  finally show ?thesis using assms by (auto simp: requests_part_def distinct_removeAll)
qed

lemma client_write_Some: "client_write to_vec wr rid msg c = Some c' \<Longrightarrow> c' = c\<lparr>cl_sent := cl_sent c @ [frame_new rid msg]\<rparr>"
  by (auto simp: client_write_def Let_def split: sum.splits if_splits)

lemma allocated_requests_part:
  assumes "requests_part c" "allocate_request_id c = Some (rid, c1)"
  shows "requests_part c1" "cl_pending c1 = cl_pending c" "cl_disconnected c1 = cl_disconnected c" "2 \<le> rid"
    "rid < cl_next_request_id c1" "\<forall>r \<in> set (cl_pending c). r < rid"
proof -
  have a: "rid = cl_next_request_id c" "rid \<noteq> 0xFFFFFFFF" "c1 = c\<lparr>cl_next_request_id := rid + 1\<rparr>"
    using assms(2) by (auto simp: allocate_request_id_def Let_def split: if_splits)
  have "1 + rid \<noteq> 0" using a(2) by (auto simp: add_eq_0_iff)
  then have lt: "rid < rid + 1" using unatSuc [of rid] by (simp add: word_less_nat_alt add.commute)
  show "requests_part c1" using assms(1) a lt
    unfolding requests_part_def by (auto intro: order.strict_trans order.trans less_imp_le)
  show "cl_pending c1 = cl_pending c" "cl_disconnected c1 = cl_disconnected c" "rid < cl_next_request_id c1"
    using a lt by simp_all
  show "2 \<le> rid" "\<forall>r \<in> set (cl_pending c). r < rid" using assms(1) a by (auto simp: requests_part_def)
qed

lemma requests_part_add:
  assumes "requests_part c" "\<not> cl_disconnected c" "allocate_request_id c = Some (rid, c1)"
    and "\<not> MAX_PENDING_REQUESTS \<le> length (cl_pending c1)"
  shows "requests_part (c1\<lparr>cl_pending := rid # cl_pending c1\<rparr>)"
  using allocated_requests_part [OF assms(1,3)] assms(2,4) by (auto simp: requests_part_def)

section \<open>Every step keeps the tables\<close>

lemma request_start_ok:
  assumes "client_ok c" "request_start to_vec wr msg c = (r, c')"
  shows "client_ok c'" "cl_flows c' = cl_flows c \<and> cl_heap c' = cl_heap c"
proof -
  have fp: "flows_part c" "requests_part c" using assms(1) by (simp_all add: client_ok_parts)
  have "client_ok c' \<and> cl_flows c' = cl_flows c \<and> cl_heap c' = cl_heap c"
  proof (cases "cl_disconnected c \<or> allocate_request_id c = None")
    case True
    then show ?thesis using assms by (auto simp: request_start_def split: if_splits)
  next
    case False
    then obtain rid c1 where a: "\<not> cl_disconnected c" "allocate_request_id c = Some (rid, c1)" by auto
    then have c1: "c1 = c\<lparr>cl_next_request_id := rid + 1\<rparr>"
      by (auto simp: allocate_request_id_def Let_def split: if_splits)
    show ?thesis
    proof (cases "MAX_PENDING_REQUESTS \<le> length (cl_pending c1)")
      case True
      then have "c' = c1" using assms(2) a by (simp add: request_start_def)
      then show ?thesis using c1 fp(1) allocated_requests_part(1) [OF fp(2) a(2)] by (simp add: client_ok_parts)
    next
      case less: False
      let ?c2 = "c1\<lparr>cl_pending := rid # cl_pending c1\<rparr>"
      note add = requests_part_add [OF fp(2) a less]
      have "c' = ?c2\<lparr>cl_pending := removeAll rid (cl_pending ?c2)\<rparr> \<or> c' = ?c2\<lparr>cl_sent := cl_sent ?c2 @ [frame_new rid msg]\<rparr>"
        using assms(2) a less by (auto simp: request_start_def Let_def split: option.splits dest!: client_write_Some)
      then show ?thesis using add requests_part_remove [OF add, of rid] fp(1) c1 by (auto simp: client_ok_parts)
    qed
  qed
  then show "client_ok c'" "cl_flows c' = cl_flows c \<and> cl_heap c' = cl_heap c" by simp_all
qed

lemma update_entry_flows [simp]: "flows_part (update_entry i f c) = flows_part c" "requests_part (update_entry i f c) = requests_part c"
  by (simp_all add: flows_part_def requests_part_def update_entry_def)

lemma fold_finish_length: "length (fold (\<lambda>(k, i) h. h[i := finish o' (h ! i)]) xs h) = length h"
  by (induction xs arbitrary: h) auto

lemma disconnect_ok: "client_ok c \<Longrightarrow> client_ok (disconnect reason c)"
  by (auto simp: client_ok_def disconnect_def fold_finish_length)

lemma handle_frame_ok: "client_ok c \<Longrightarrow> client_ok (handle_frame f c)"
  by (auto simp: handle_frame_def client_ok_parts requests_part_remove disconnect_ok [unfolded client_ok_parts]
      split: Message.splits option.splits)

lemma client_remove_flow_ok: "client_ok c \<Longrightarrow> client_ok (client_remove_flow to_vec wr k c)"
proof -
  assume ok: "client_ok c"
  have "flows_part (c\<lparr>cl_flow_ids := x, cl_flows := AList.delete fid (cl_flows c)\<rparr>)" for x fid
    using ok alist_delete_snd [of "cl_flows c" fid]
    by (fastforce simp: client_ok_parts flows_part_def AList.distinct_delete)
  then show ?thesis using ok
    by (auto simp: client_remove_flow_def client_ok_parts Let_def split: option.splits dest!: client_write_Some)
qed

lemma client_register_start_ok:
  assumes "client_ok c" "client_register_start to_vec wr k data ttl c = (r, c')"
  shows "client_ok c'"
proof (cases "cl_next_flow_id c = 0")
  case True
  then show ?thesis using assms by (auto simp: client_register_start_def client_ok_parts)
next
  case False
  let ?fid = "cl_next_flow_id c"
  let ?c2 = "c\<lparr>cl_next_flow_id := ?fid + 1, cl_heap := cl_heap c @ [new_flow_entry [] ttl],
    cl_flows := AList.update ?fid (length (cl_heap c)) (cl_flows c), cl_flow_ids := AList.update k ?fid (cl_flow_ids c)\<rparr>"
  have "length (cl_heap c) \<notin> snd ` set (cl_flows c)" using assms(1) by (auto simp: client_ok_def)
  then have "flows_part ?c2" using assms(1) alist_update_snd [of "cl_flows c" "length (cl_heap c)" ?fid]
    by (fastforce simp: client_ok_def flows_part_def AList.distinct_update less_Suc_eq)
  then have "client_ok ?c2" using assms(1) by (simp add: client_ok_parts)
  moreover obtain rid where "request_start to_vec wr (MRegisterFlow ?fid k data ttl) ?c2 = (rid, c')"
    using assms(2) False by (auto simp: client_register_start_def Let_def split: prod.splits)
  ultimately show ?thesis using request_start_ok by blast
qed

lemma client_step_ok: "client_step c c' \<Longrightarrow> client_ok c \<Longrightarrow> client_ok c'"
proof (induction rule: client_step.induct)
  case (cs_registered to_vec wr k fid rid w c b c')
  then show ?case using client_remove_flow_ok requests_part_remove
    by (auto simp: client_register_end_def request_end_def Let_def client_ok_parts split: option.splits if_splits)
next
  case (cs_reset c)
  then show ?case by (simp add: client_ok_def client_reset_def)
next
  case (cs_waited c rid w)
  then show ?case using requests_part_remove by (simp add: request_end_def client_ok_parts)
qed (auto dest: request_start_ok client_register_start_ok intro: handle_frame_ok disconnect_ok client_remove_flow_ok)

lemma client_start_ok: "client_ok client_start"
  by (simp add: client_ok_def client_start_def)

text \<open>
  C18. Losing the helper strands nobody. The first disconnect answers every outstanding request with an error, forgets none of
  them, gives every tracked flow without an outcome the outcome UnexpectedClose and wakes its waiters; a second disconnect
  changes nothing. Whatever the client does, its tables keep their invariant: outstanding identifiers are distinct and never those of
  events, there are at most 1024 of them, and each flow has its own entry.
\<close>

theorem disconnect_releases_all:
  assumes "client_step\<^sup>*\<^sup>* client_start c" "\<not> cl_disconnected c" "c' = disconnect reason c"
  shows "client_ok c'
    \<and> cl_pending c' = [] \<and> (\<forall>r \<in> set (cl_pending c). \<exists>e. (r, Inl e) \<in> set (cl_answers c'))
    \<and> (\<forall>(fid, i) \<in> set (cl_flows c). cl_heap c' ! i = finish UnexpectedClose (cl_heap c ! i)
         \<and> outcome (fe_state (cl_heap c' ! i)) \<noteq> None)
    \<and> disconnect reason' c' = c'"
proof -
  have ok: "client_ok c" using assms(1)
    by (induction rule: rtranclp_induct) (auto simp: client_start_ok intro: client_step_ok)
  have "cl_heap c' ! i = finish UnexpectedClose (cl_heap c ! i)" if "(fid, i) \<in> set (cl_flows c)" for fid i
    using fold_finish_nth [of "cl_flows c" "cl_heap c" UnexpectedClose i] ok that assms(2)
    by (force simp: assms(3) disconnect_def client_ok_def)
  then show ?thesis using disconnect_ok [OF ok] assms(2) by (auto simp: assms(3) disconnect_def)
qed

lemma disconnect_releases_all_witness:
  "\<exists>c. cl_pending c \<noteq> [] \<and> cl_flows c \<noteq> [] \<and> cl_pending (disconnect ''lost'' c) = []
     \<and> outcome (fe_state (cl_heap (disconnect ''lost'' c) ! 0)) \<noteq> None"
proof -
  obtain r c where reg: "client_register_start (\<lambda>_. Some []) (\<lambda>_. True) helper_key [] None client_start = (r, c)" by force
  have c: "cl_pending c = [2]" "cl_flows c = [(1, 0)]" "\<not> cl_disconnected c"
    using reg sample_checks(3) by (auto simp: client_register_start_def client_start_def request_start_def allocate_request_id_def
        client_write_def write_frame_def frame_new_def MAX_PENDING_REQUESTS_def MAX_FRAME_SIZE_def Let_def)
  have "client_step\<^sup>*\<^sup>* client_start c" using cs_register [OF reg] by blast
  from disconnect_releases_all [OF this c(3) refl, of "''lost''"] show ?thesis using c by (intro exI [of _ c]) auto
qed

section \<open>Remote flows follow the helper\<close>

text \<open>What the client's entry looks like when the last report about its flow has arrived.\<close>

fun mirrors :: "Progress option \<Rightarrow> FlowEntry \<Rightarrow> bool" where
  "mirrors None e = (outcome (fe_state e) = None)"
| "mirrors (Some PReadyForData) e = (outcome (fe_state e) = None \<and> waiting_for_data (fe_state e))"
| "mirrors (Some PFakeDataAcked) e = (outcome (fe_state e) = Some FakeDataAcked)"
| "mirrors (Some PUnexpectedClose) e = (outcome (fe_state e) = Some UnexpectedClose)"

definition in_sync :: "HelperClient \<Rightarrow> (u64 \<times> RegisteredFlow) list \<Rightarrow> bool" where
  "in_sync c rs = (\<forall>fid r i. (fid, r) \<in> set rs \<longrightarrow> map_of (cl_flows c) fid = Some i \<longrightarrow> mirrors (last_progress r) (cl_heap c ! i))"

definition deliver :: "Frame list \<Rightarrow> HelperClient \<Rightarrow> HelperClient" where
  "deliver fs c = fold handle_frame fs c"

lemma mirrors_apply: "mirrors q e \<Longrightarrow> q = None \<or> q = Some PReadyForData \<and> p \<noteq> PReadyForData \<Longrightarrow> mirrors (Some p) (apply_progress p e)"
  by (cases p) (auto simp: finish_def)

lemma handle_progress:
  "handle_frame (progress_frame (fid, p)) c = (case map_of (cl_flows c) fid of None \<Rightarrow> c | Some i \<Rightarrow> update_entry i (apply_progress p) c)"
  by (simp add: handle_frame_def progress_frame_def frame_new_def)

lemma deliver_progress:
  assumes "flows_part c" "distinct (map fst ps)"
  shows "cl_flows (deliver (map progress_frame ps) c) = cl_flows c
    \<and> (map_of (cl_flows c) fid = Some i \<longrightarrow> cl_heap (deliver (map progress_frame ps) c) ! i
        = (case map_of ps fid of None \<Rightarrow> cl_heap c ! i | Some p \<Rightarrow> apply_progress p (cl_heap c ! i)))"
  using assms
proof (induction ps arbitrary: c)
  case (Cons q ps)
  obtain fid' p where q: "q = (fid', p)" by force
  let ?c1 = "handle_frame (progress_frame q) c"
  have fl: "cl_flows ?c1 = cl_flows c" "flows_part ?c1"
    using Cons.prems(1) by (auto simp: q handle_progress update_entry_def flows_part_def split: option.splits)
  have heap: "cl_heap ?c1 ! i = (if fid' = fid then apply_progress p (cl_heap c ! i) else cl_heap c ! i)"
    if fid: "map_of (cl_flows c) fid = Some i"
  proof (cases "map_of (cl_flows c) fid'")
    case None
    then show ?thesis using fid by (auto simp: q handle_progress)
  next
    case (Some j)
    have "i < length (cl_heap c)" using Cons.prems(1) map_of_snd_in [OF fid] by (auto simp: flows_part_def)
    moreover have "fid' = fid" if "i = j"
      using Cons.prems(1) map_of_inj_snd [of "cl_flows c" fid i fid'] Some fid that by (simp add: flows_part_def)
    moreover have "i = j" if "fid' = fid" using that Some fid by simp
    ultimately show ?thesis using Some by (cases "i = j") (auto simp: q handle_progress update_entry_def)
  qed
  have "fid' \<notin> fst ` set ps" using Cons.prems(2) by (simp add: q)
  then have none: "map_of ps fid' = None" by (simp add: map_of_eq_None_iff)
  have step: "deliver (map progress_frame (q # ps)) c = deliver (map progress_frame ps) ?c1" by (simp add: deliver_def)
  have ih: "cl_flows (deliver (map progress_frame ps) ?c1) = cl_flows c"
    "map_of (cl_flows c) fid = Some i \<Longrightarrow> cl_heap (deliver (map progress_frame ps) ?c1) ! i
        = (case map_of ps fid of None \<Rightarrow> cl_heap ?c1 ! i | Some p \<Rightarrow> apply_progress p (cl_heap ?c1 ! i))"
    using Cons.IH [OF fl(2)] Cons.prems(2) fl(1) by simp_all
  show ?case unfolding step ih(1) using ih(2) heap none
    by (cases "fid' = fid"; cases "map_of ps fid") (simp_all add: q)
qed (simp add: deliver_def)

text \<open>The registrations after a complete publication.\<close>

definition refreshed :: "FlowEntry list \<Rightarrow> RegisteredFlow \<Rightarrow> RegisteredFlow" where
  "refreshed heap r = (let p = flow_progress (heap ! rg_entry r) in
     if p \<noteq> None \<and> p \<noteq> last_progress r then r\<lparr>last_progress := p\<rparr> else r)"

lemma publish_loop_refreshes:
  "publish_loop env heap rs h = (rs', h', True) \<Longrightarrow> rs' = map (\<lambda>(fid, r). (fid, refreshed heap r)) rs"
proof (induction rs arbitrary: h rs')
  case (Cons q rs)
  obtain fid r where q: "q = (fid, r)" by force
  show ?case using Cons by (auto simp: q refreshed_def Let_def split: prod.splits option.splits if_splits)
qed simp

lemma due_progress_distinct:
  "distinct (map fst rs) \<Longrightarrow> distinct (map fst (due_progress heap rs)) \<and> fst ` set (due_progress heap rs) \<subseteq> fst ` set rs"
proof (induction rs)
  case (Cons q rs)
  then show ?case by (cases q) (auto simp: Let_def)
qed simp

lemma map_of_due:
  assumes "distinct (map fst rs)" "(fid, r) \<in> set rs"
  shows "map_of (due_progress heap rs) fid = (let p = flow_progress (heap ! rg_entry r) in if p \<noteq> last_progress r then p else None)"
  using assms
proof (induction rs)
  case (Cons q rs)
  obtain fid' r' where q: "q = (fid', r')" by force
  have "map_of (due_progress heap rs) fid' = None"
    using due_progress_distinct [of rs heap] Cons.prems(1) by (auto simp: q map_of_eq_None_iff)
  moreover have "fid' \<notin> fst ` set rs" using Cons.prems(1) by (simp add: q)
  ultimately show ?case using Cons by (force simp: q Let_def)
qed simp

lemma in_sync_deliver:
  assumes "flows_part c" "in_sync c rs" "distinct (map fst rs)" "reports_ok heap rs"
  shows "in_sync (deliver (map progress_frame (due_progress heap rs)) c) (map (\<lambda>(fid, r). (fid, refreshed heap r)) rs)"
proof -
  let ?c' = "deliver (map progress_frame (due_progress heap rs)) c"
  have "mirrors (last_progress (refreshed heap r)) (cl_heap ?c' ! i)"
    if r: "(fid, r) \<in> set rs" and i: "map_of (cl_flows c) fid = Some i" for fid r i
  proof -
    let ?p = "flow_progress (heap ! rg_entry r)"
    have m: "mirrors (last_progress r) (cl_heap c ! i)" using assms(2) r i by (auto simp: in_sync_def)
    have rep: "report_ok heap r" using assms(4) r by (auto simp: reports_ok_def)
    have heap': "cl_heap ?c' ! i = (case map_of (due_progress heap rs) fid of None \<Rightarrow> cl_heap c ! i
        | Some p \<Rightarrow> apply_progress p (cl_heap c ! i))"
      using deliver_progress [OF assms(1), of "due_progress heap rs" fid i] due_progress_distinct [OF assms(3)] i by blast
    show ?thesis
    proof (cases "?p = None \<or> ?p = last_progress r")
      case True
      then show ?thesis using m heap' map_of_due [OF assms(3) r, of heap] by (auto simp: refreshed_def Let_def split: if_splits)
    next
      case False
      then obtain p where p: "?p = Some p" "last_progress r \<noteq> Some p" by auto
      then have "last_progress r = None \<or> last_progress r = Some PReadyForData \<and> p \<noteq> PReadyForData"
        using rep by (cases "last_progress r") (force simp: report_ok_def)+
      then show ?thesis using mirrors_apply [OF m] heap' map_of_due [OF assms(3) r, of heap] p
        by (auto simp: refreshed_def Let_def)
    qed
  qed
  then show ?thesis using deliver_progress [OF assms(1), of "due_progress heap rs"] due_progress_distinct [OF assms(3)]
    by (auto simp: in_sync_def)
qed

text \<open>What a matched entry tells about the helper's entry.\<close>

definition mirrors_entry :: "FlowEntry \<Rightarrow> FlowEntry \<Rightarrow> bool" where
  "mirrors_entry e e' = ((outcome (fe_state e) \<noteq> None \<longrightarrow> outcome (fe_state e') = outcome (fe_state e))
     \<and> (outcome (fe_state e) = None \<and> waiting_for_data (fe_state e) \<longrightarrow>
          outcome (fe_state e') = None \<and> waiting_for_data (fe_state e')))"

lemma mirrors_progress: "(flow_progress e \<noteq> None \<Longrightarrow> mirrors (flow_progress e) e') \<Longrightarrow> mirrors_entry e e'"
proof (cases "outcome (fe_state e)")
  case (Some o')
  assume "flow_progress e \<noteq> None \<Longrightarrow> mirrors (flow_progress e) e'"
  then show ?thesis using Some by (cases o') (simp_all add: flow_progress_def mirrors_entry_def)
next
  case None
  assume "flow_progress e \<noteq> None \<Longrightarrow> mirrors (flow_progress e) e'"
  then show ?thesis using None by (cases "waiting_for_data (fe_state e)") (simp_all add: flow_progress_def mirrors_entry_def)
qed

text \<open>
  C17. The data plane sees what the helper sees. A client whose entries match the reports it has received stays matched through every
  poll of the helper whose frames it reads; and once it has read them, each flow it still tracks has exactly the outcome the
  flow has in the helper's interceptor, and is waiting for data when the helper's is.
\<close>

theorem remote_flows_follow_helper:
  assumes "helper_run secret pid tr h" "hs_interceptor h = Some (flows, m)" "serve_poll env False h = Running h'"
    and "client_ok c" "in_sync c (hs_registered h)"
    and "c' = deliver (drop (length (hs_sent h)) (hs_sent h')) c"
  shows "in_sync c' (hs_registered h')
    \<and> (\<forall>fid r i. (fid, r) \<in> set (hs_registered h') \<longrightarrow> map_of (cl_flows c') fid = Some i \<longrightarrow>
         (outcome (fe_state (fl_heap flows ! rg_entry r)) \<noteq> None \<longrightarrow>
            outcome (fe_state (cl_heap c' ! i)) = outcome (fe_state (fl_heap flows ! rg_entry r)))
         \<and> (outcome (fe_state (fl_heap flows ! rg_entry r)) = None \<and> waiting_for_data (fe_state (fl_heap flows ! rg_entry r)) \<longrightarrow>
            outcome (fe_state (cl_heap c' ! i)) = None \<and> waiting_for_data (fe_state (cl_heap c' ! i))))"
proof -
  obtain rs x where pub: "publish_loop env (fl_heap flows) (hs_registered h) h = (rs, h\<lparr>hs_sent := x\<rparr>, True)"
    "h' = h\<lparr>hs_sent := x, hs_registered := rs\<rparr>"
    using serve_poll_open [OF assms(2,3)] by blast
  note sends = publish_loop_sends [OF pub(1)]
  have rs: "rs = map (\<lambda>(fid, r). (fid, refreshed (fl_heap flows) r)) (hs_registered h)"
    using publish_loop_refreshes [OF pub(1)] .
  have d: "distinct (map fst (hs_registered h))" using helper_run_ok [OF assms(1)] by (simp add: session_ok_def)
  have "reports_ok (fl_heap flows) (hs_registered h)" using helper_run_reports [OF assms(1)] assms(2) by simp
  then have sync: "in_sync c' rs" using in_sync_deliver [OF _ assms(5) d] assms(4) sends pub(2)
    by (simp add: rs assms(6) client_ok_parts)
  have told: "last_progress r = flow_progress (fl_heap flows ! rg_entry r)"
    if "(fid, r) \<in> set rs" "flow_progress (fl_heap flows ! rg_entry r) \<noteq> None" for fid r
    using that sends by (fastforce simp: due_progress_def split: option.splits if_splits)
  have "mirrors (flow_progress (fl_heap flows ! rg_entry r)) (cl_heap c' ! i)"
    if "(fid, r) \<in> set rs" "map_of (cl_flows c') fid = Some i" "flow_progress (fl_heap flows ! rg_entry r) \<noteq> None" for fid r i
    using sync told [OF that(1,3)] that unfolding in_sync_def by metis
  then have "mirrors_entry (fl_heap flows ! rg_entry r) (cl_heap c' ! i)"
    if "(fid, r) \<in> set rs" "map_of (cl_flows c') fid = Some i" for fid r i
    using mirrors_progress [of "fl_heap flows ! rg_entry r" "cl_heap c' ! i"] that by blast
  then show ?thesis using sync pub(2) unfolding mirrors_entry_def by simp
qed

text \<open>A flow that is reset in the helper's interceptor, and the client after the poll that reports it.\<close>

definition reset_packet :: PacketView where
  "reset_packet = blank_packet\<lparr>src_ip := 0x0A000001, src_port := 40000, dst_ip := 0x01020304, dst_port := 443, flags := no_flags\<lparr>f_rst := True\<rparr>\<rparr>"

lemma reset_packet_closes:
  "entry_packet hs dat reset_packet (new_flow_entry [] None) = Ok (Accept, reset_packet, unexpected (new_flow_entry [] None))"
  "flow_key_for reset_packet = helper_key" "outcome (fe_state (unexpected (new_flow_entry [] None))) = Some UnexpectedClose"
  by (simp_all add: entry_packet_def outbound_packet_def outbound_other_def reset_packet_def blank_packet_def no_flags_def is_bare_syn_def is_bare_ack_def
      new_flow_entry_def new_flow_state_def unexpected_def flow_key_for_def helper_key_def Let_def)

lemma remote_flows_follow_helper_witness:
  "\<exists>h c h' c'. serve_poll sample_env False h = Running h' \<and> outcome (fe_state (cl_heap c ! 0)) = None \<and> in_sync c (hs_registered h)
     \<and> c' = deliver (drop (length (hs_sent h)) (hs_sent h')) c \<and> in_sync c' (hs_registered h')
     \<and> outcome (fe_state (cl_heap c' ! 0)) = Some UnexpectedClose"
proof -
  obtain tr h flows m where h: "helper_run sample_secret 5 tr h" "hs_interceptor h = Some (flows, m)"
    "fl_heap flows = [new_flow_entry [] None]" "fl_table flows = [(helper_key, 0)]"
    "hs_registered h = [(1, \<lparr>rg_key = helper_key, rg_entry = 0, last_progress = None\<rparr>)]"
    using sample_tracked by blast
  let ?e = "unexpected (new_flow_entry [] None)"
  let ?flows = "flows\<lparr>fl_heap := [?e]\<rparr>"
  let ?h = "h\<lparr>hs_interceptor := Some (?flows, m)\<rparr>"
  have "on_packet (composite_handshake \<lparr>env_ttl = 5, env_seed = 1\<rparr> m) (composite_data \<lparr>env_ttl = 5, env_seed = 1\<rparr> m) flows reset_packet
      = Ok (Accept, reset_packet, ?flows)"
    by (simp add: on_packet_def h(3,4) reset_packet_closes)
  then have run: "helper_run sample_secret 5 tr ?h" using helper_run.packet [OF h(1,2)] by blast
  have prog: "flow_progress ?e = Some PUnexpectedClose" by (simp add: flow_progress_def reset_packet_closes(3))
  have "\<exists>h'. serve_poll sample_env False ?h = Running h' \<and> hs_sent h' = hs_sent ?h @ [progress_frame (1, PUnexpectedClose)]
      \<and> hs_registered h' = [(1, \<lparr>rg_key = helper_key, rg_entry = 0, last_progress = Some PUnexpectedClose\<rparr>)]"
    by (simp add: serve_poll_def publish_progress_def h(5) prog Let_def send_frame_def write_frame_def frame_new_def progress_frame_def sample_env_def)
  then obtain h' where poll: "serve_poll sample_env False ?h = Running h'" "hs_sent h' = hs_sent ?h @ [progress_frame (1, PUnexpectedClose)]"
    "hs_registered h' = [(1, \<lparr>rg_key = helper_key, rg_entry = 0, last_progress = Some PUnexpectedClose\<rparr>)]" by blast
  let ?c = "client_start\<lparr>cl_flows := [(1, 0)], cl_heap := [new_flow_entry [] None]\<rparr>"
  let ?c' = "deliver (drop (length (hs_sent ?h)) (hs_sent h')) ?c"
  have sync: "in_sync ?c (hs_registered ?h)" "client_ok ?c" "outcome (fe_state (cl_heap ?c ! 0)) = None"
    by (simp_all add: in_sync_def h(5) new_flow_entry_def new_flow_state_def client_ok_def client_start_def)
  have flows': "map_of (cl_flows ?c') 1 = Some 0" using poll(2) by (simp add: deliver_def handle_progress update_entry_def)
  have "hs_interceptor ?h = Some (?flows, m)" by simp
  from remote_flows_follow_helper [OF run this poll(1) sync(2,1) refl]
  have "in_sync ?c' (hs_registered h')" "outcome (fe_state (cl_heap ?c' ! 0)) = Some UnexpectedClose"
    using flows' poll(3) reset_packet_closes(3) by auto
  then show ?thesis using poll(1) sync by blast
qed

end
