(* ===== verification/Helper_Bootstrap.thy ===== *)
theory Helper_Bootstrap
  imports Helper_Client
begin

unbundle bit_operations_syntax

text \<open>
  How the two ends of the helper connection come to trust each other: \<^verbatim>\<open>run\<close> of src/crates/zerodpi-root-helper/src/unix.rs with
  its checks of the process, the files and the peer, and \<^verbatim>\<open>RemoteHelperClient::connect\<close> of
  src/crates/zerodpi/src/helper\_client.rs. The file system is a map from paths to files that nobody else changes while a function
  runs; what the kernel answers to the other calls is given in records. The last theorem runs the two functions against each other.
\<close>

section \<open>Files\<close>

text \<open>
  A path is the list of its components, so \<^verbatim>\<open>Path::parent\<close> drops the last one. A symbolic link says whether it resolves; a mode
  has the permissions in its low bits; the content is \<open>None\<close> when \<^verbatim>\<open>fs::read\<close> fails.
\<close>

type_synonym path = "string list"

datatype FileType = FDir | FFile | FSocket | FSymlink bool | FOther

record File =
  f_type :: FileType
  f_uid :: u32
  f_mode :: u32
  f_content :: "bytes option"

type_synonym Fs = "path \<rightharpoonup> File"

definition path_parent :: "path \<Rightarrow> path option" where
  "path_parent p = (if p = [] then None else Some (butlast p))"

definition path_exists :: "Fs \<Rightarrow> path \<Rightarrow> bool" where
  "path_exists fs p = (case fs p of None \<Rightarrow> False | Some f \<Rightarrow> (case f_type f of FSymlink ok \<Rightarrow> ok | _ \<Rightarrow> True))"

definition remove_file :: "Fs \<Rightarrow> path \<Rightarrow> Fs option" where
  "remove_file fs p = (case fs p of None \<Rightarrow> None | Some f \<Rightarrow> if f_type f = FDir then None else Some (fs(p := None)))"

text \<open>The check both ends make on the directory, the proof and the socket: \<^verbatim>\<open>symlink_metadata\<close> with \<^verbatim>\<open>mode & 0o077 == 0\<close>.\<close>

definition private_file :: "FileType \<Rightarrow> u32 \<Rightarrow> File \<Rightarrow> bool" where
  "private_file t uid f = (f_type f = t \<and> f_uid f = uid \<and> f_mode f AND 63 = 0)"

section \<open>The helper\<close>

record Args =
  ar_socket :: path
  expected_uid :: u32
  ar_session_file :: path
  parent_pid :: "u32 option"

record PeerCredentials =
  pc_pid :: u32
  pc_uid :: u32

text \<open>
  What the kernel answers: the three user ids, the raw peer credentials with a signed process id, whether a change of the socket
  works, the mode a new socket gets, and the results of \<^verbatim>\<open>accept\<close>, each with the time in milliseconds since the first.
\<close>

datatype Accept = Accepted | WouldBlock | AcceptFailed

record BootAnswers =
  ba_uids :: "(u32 \<times> u32 \<times> u32) option"
  ba_bind :: bool
  ba_bind_mode :: u32
  ba_chown :: bool
  ba_chmod :: bool
  ba_nonblocking :: bool
  ba_accepts :: "(nat \<times> Accept) list"
  ba_peer :: "(int \<times> u32) option"

definition require_root :: "(u32 \<times> u32 \<times> u32) option \<Rightarrow> string option" where
  "require_root uids = (case uids of None \<Rightarrow> Some ''read helper process UIDs''
   | Some (ruid, euid, suid) \<Rightarrow>
      if ruid \<noteq> 0 \<or> euid \<noteq> 0 \<or> suid \<noteq> 0
      then Some ''root helper must run with real, effective, and saved UID 0'' else None)"

definition validate_bootstrap_paths :: "Args \<Rightarrow> Fs \<Rightarrow> string option" where
  "validate_bootstrap_paths a fs =
     (if expected_uid a = 0 then Some ''expected app UID must not be root''
      else (case path_parent (ar_socket a) of None \<Rightarrow> Some ''helper socket has no parent''
      | Some sp \<Rightarrow> (case path_parent (ar_session_file a) of None \<Rightarrow> Some ''session file has no parent''
      | Some pp \<Rightarrow>
         if sp \<noteq> pp then Some ''helper socket and session metadata must share one private directory''
         else (case fs sp of None \<Rightarrow> Some ''inspect helper runtime directory''
         | Some d \<Rightarrow> if \<not> private_file FDir (expected_uid a) d
             then Some ''helper runtime directory is not private and owned by the expected app UID'' else None))))"

definition read_session_proof :: "path \<Rightarrow> u32 \<Rightarrow> Fs \<Rightarrow> string + bytes" where
  "read_session_proof p uid fs = (case fs p of None \<Rightarrow> Inl ''inspect session proof''
   | Some f \<Rightarrow>
      if \<not> private_file FFile uid f then Inl ''session proof must be a private regular file''
      else (case f_content f of None \<Rightarrow> Inl ''read session proof''
      | Some proof \<Rightarrow> if length proof \<noteq> SESSION_PROOF_SIZE then Inl ''session proof has invalid length'' else Inr proof))"

definition set_socket_owner :: "BootAnswers \<Rightarrow> path \<Rightarrow> u32 \<Rightarrow> Fs \<Rightarrow> string option \<times> Fs" where
  "set_socket_owner an p uid fs =
     (if \<not> ba_chown an then (Some ''chown helper socket'', fs)
      else (let fs1 = fs(p := map_option (\<lambda>f. f\<lparr>f_uid := uid\<rparr>) (fs p)) in
        if \<not> ba_chmod an then (Some ''chmod helper socket'', fs1)
        else (None, fs1(p := map_option (\<lambda>f. f\<lparr>f_mode := (f_mode f AND NOT 4095) OR 384\<rparr>) (fs1 p)))))"

text \<open>\<^verbatim>\<open>bind\<close> creates the socket, owned by root, at a free path.\<close>

definition bind_socket :: "BootAnswers \<Rightarrow> path \<Rightarrow> Fs \<Rightarrow> Fs option" where
  "bind_socket an p fs = (if ba_bind an \<and> fs p = None
     then Some (fs(p \<mapsto> \<lparr>f_type = FSocket, f_uid = 0, f_mode = ba_bind_mode an, f_content = None\<rparr>)) else None)"

text \<open>The part of \<^verbatim>\<open>run\<close> that prepares the socket: an error, and the files as it leaves them.\<close>

definition open_socket :: "Args \<Rightarrow> BootAnswers \<Rightarrow> Fs \<Rightarrow> string option \<times> Fs" where
  "open_socket a an fs = (let p = ar_socket a in
     case (if path_exists fs p then remove_file fs p else Some fs) of
       None \<Rightarrow> (Some ''remove stale helper socket path'', fs)
     | Some fs1 \<Rightarrow> (case bind_socket an p fs1 of None \<Rightarrow> (Some ''bind helper Unix socket'', fs1)
     | Some fs2 \<Rightarrow> (case set_socket_owner an p (expected_uid a) fs2 of
         (Some e, fs3) \<Rightarrow> (Some e, fs3)
       | (None, fs3) \<Rightarrow> if ba_nonblocking an then (None, fs3) else (Some ''set_nonblocking'', fs3))))"

definition ACCEPT_TIMEOUT :: nat where
  "ACCEPT_TIMEOUT = 10000"

text \<open>\<open>None\<close>: no more answers are given, the loop is still running.\<close>

fun accept_before :: "(nat \<times> Accept) list \<Rightarrow> nat \<Rightarrow> (string + unit) option" where
  "accept_before [] deadline = None"
| "accept_before ((now, Accepted) # as) deadline = Some (Inr ())"
| "accept_before ((now, WouldBlock) # as) deadline =
     (if now < deadline then accept_before as deadline
      else Some (Inl ''timed out waiting for authenticated data-plane peer''))"
| "accept_before ((now, AcceptFailed) # as) deadline = Some (Inl ''accept helper peer'')"

text \<open>The two ends have the same function up to a word in the messages.\<close>

definition peer_credentials :: "string \<Rightarrow> (int \<times> u32) option \<Rightarrow> string + PeerCredentials" where
  "peer_credentials whose raw = (case raw of None \<Rightarrow> Inl (''read '' @ whose @ ''Unix peer credentials'')
   | Some (pid, uid) \<Rightarrow> if pid \<le> 0 then Inl (whose @ ''Unix peer credentials contained an invalid PID'')
       else Inr \<lparr>pc_pid = word_of_int pid, pc_uid = uid\<rparr>)"

text \<open>\<^verbatim>\<open>SocketCleanup::drop\<close>: an error is only logged.\<close>

definition socket_cleanup :: "path \<Rightarrow> Fs \<Rightarrow> Fs" where
  "socket_cleanup p fs = (case remove_file fs p of None \<Rightarrow> fs | Some fs' \<Rightarrow> fs')"

text \<open>
  \<^verbatim>\<open>run\<close> returns with an error, waits for a peer, or is about to call \<^verbatim>\<open>serve\<close>; the files are those of that moment, after
  the clean-up in case of an error. \<open>run_end\<close> is the clean-up when \<^verbatim>\<open>serve\<close> has returned.
\<close>

datatype run_result = RunErr string | RunWaiting | RunServe PeerCredentials bytes

definition run :: "Args \<Rightarrow> BootAnswers \<Rightarrow> Fs \<Rightarrow> run_result \<times> Fs" where
  "run a an fs = (case require_root (ba_uids an) of Some e \<Rightarrow> (RunErr e, fs)
   | None \<Rightarrow> (case validate_bootstrap_paths a fs of Some e \<Rightarrow> (RunErr e, fs)
   | None \<Rightarrow> (case read_session_proof (ar_session_file a) (expected_uid a) fs of Inl e \<Rightarrow> (RunErr e, fs)
   | Inr proof \<Rightarrow> (case open_socket a an fs of (Some e, fs1) \<Rightarrow> (RunErr e, socket_cleanup (ar_socket a) fs1)
   | (None, fs1) \<Rightarrow> (case accept_before (ba_accepts an) ACCEPT_TIMEOUT of None \<Rightarrow> (RunWaiting, fs1)
   | Some (Inl e) \<Rightarrow> (RunErr e, socket_cleanup (ar_socket a) fs1)
   | Some (Inr _) \<Rightarrow> (case peer_credentials [] (ba_peer an) of Inl e \<Rightarrow> (RunErr e, socket_cleanup (ar_socket a) fs1)
   | Inr peer \<Rightarrow> if pc_uid peer \<noteq> expected_uid a
       then (RunErr ''helper peer UID did not match expected app UID'', socket_cleanup (ar_socket a) fs1)
       else (RunServe peer proof, fs1)))))))"

definition run_end :: "Args \<Rightarrow> Fs \<Rightarrow> Fs" where
  "run_end a fs = socket_cleanup (ar_socket a) fs"

section \<open>The client\<close>

datatype Connect = Connected | NotYet | ConnectFailed

definition CONNECT_TIMEOUT :: nat where
  "CONNECT_TIMEOUT = 10000"

text \<open>\<open>NotYet\<close> stands for \<^verbatim>\<open>NotFound\<close> and \<^verbatim>\<open>ConnectionRefused\<close>.\<close>

fun connect_before :: "(nat \<times> Connect) list \<Rightarrow> nat \<Rightarrow> (string + unit) option" where
  "connect_before [] deadline = None"
| "connect_before ((now, Connected) # cs) deadline = Some (Inr ())"
| "connect_before ((now, NotYet) # cs) deadline =
     (if now < deadline then connect_before cs deadline else Some (Inl ''connect to root helper''))"
| "connect_before ((now, ConnectFailed) # cs) deadline = Some (Inl ''connect to root helper'')"

text \<open>
  \<open>ca_fs\<close> are the files once the connection stands, \<open>ca_input\<close> is what the helper sends on it, the last three say whether the stream is cloned and the threads start.
\<close>

record ConnectAnswers =
  ca_connects :: "(nat \<times> Connect) list"
  ca_fs :: Fs
  ca_peer :: "(int \<times> u32) option"
  ca_pid :: u32
  ca_version :: string
  ca_write :: "Frame \<Rightarrow> bool"
  ca_input :: bytes
  ca_clone :: bool
  ca_spawn_reader :: bool
  ca_spawn_heartbeat :: bool

record ConnectedHelper =
  ch_client :: HelperClient
  ch_helper_pid :: u32
  ch_helper_uid :: u32
  ch_protocol :: "u16 \<times> u16"
  ch_capabilities :: "string list"
  ch_unread :: bytes

definition client_hello :: "ConnectAnswers \<Rightarrow> bytes \<Rightarrow> Frame" where
  "client_hello ca proof = frame_new 1 (MHello \<lparr>session_proof = proof, data_plane_pid = ca_pid ca, build_version = ca_version ca\<rparr>)"

text \<open>The checks of the files before the connection is made: the proof, or an error.\<close>

definition connect_files :: "path \<Rightarrow> path \<Rightarrow> u32 \<Rightarrow> Fs \<Rightarrow> string + bytes" where
  "connect_files socket session uid fs = (case path_parent socket of
     None \<Rightarrow> Inl ''root-helper socket has no parent directory''
   | Some d \<Rightarrow>
      if path_parent session \<noteq> Some d then Inl ''root-helper socket and proof do not share a runtime directory''
      else (case fs d of None \<Rightarrow> Inl ''inspect root-helper runtime directory''
      | Some dir \<Rightarrow>
         if \<not> private_file FDir uid dir then Inl ''root-helper runtime directory is not private and app-owned''
         else (case fs session of None \<Rightarrow> Inl ''inspect helper session proof''
         | Some f \<Rightarrow>
            if \<not> private_file FFile uid f then Inl ''helper session proof is not a private app-owned regular file''
            else (case f_content f of None \<Rightarrow> Inl ''read helper session proof''
            | Some proof \<Rightarrow> if length proof \<noteq> SESSION_PROOF_SIZE then Inl ''helper session proof has invalid length''
                else Inr proof))))"

text \<open>The exchange on the new stream: the \<^verbatim>\<open>Hello\<close>, and the checks of the answer.\<close>

definition connect_hello :: "(Message \<Rightarrow> bytes option) \<Rightarrow> (bytes \<Rightarrow> Message option) \<Rightarrow> u32 \<Rightarrow> ConnectAnswers \<Rightarrow> bytes
    \<Rightarrow> PeerCredentials \<Rightarrow> string + ConnectedHelper" where
  "connect_hello to_vec from_slice uid ca proof peer =
     (case write_frame to_vec (client_hello ca proof) of Inl _ \<Rightarrow> Inl ''send helper hello''
      | Inr _ \<Rightarrow>
     if \<not> ca_write ca (client_hello ca proof) then Inl ''send helper hello''
     else (case read_frame from_slice (ca_input ca) of Inl _ \<Rightarrow> Inl ''read helper hello response''
      | Inr (f, rest) \<Rightarrow>
        if fr_request_id f \<noteq> 1 then Inl ''root helper returned a mismatched hello request identifier''
        else (case fr_message f of
          MHelloAccepted acc \<Rightarrow>
            if peer_uid acc \<noteq> uid then Inl ''root helper authenticated an unexpected data-plane UID''
            else if helper_uid acc \<noteq> 0 then Inl ''root helper did not report UID 0''
            else if helper_pid acc \<noteq> pc_pid peer then Inl ''root helper PID did not match Unix peer credentials''
            else if \<not> ca_clone ca then Inl ''clone helper control socket''
            else if \<not> ca_spawn_reader ca then Inl ''spawn helper event reader''
            else if \<not> ca_spawn_heartbeat ca then Inl ''spawn helper heartbeat''
            else Inr \<lparr>ch_client = client_start, ch_helper_pid = helper_pid acc, ch_helper_uid = helper_uid acc,
              ch_protocol = (protocol_major acc, protocol_minor acc), ch_capabilities = capabilities acc, ch_unread = rest\<rparr>
        | MHelperFatal _ msg \<Rightarrow> Inl (''root helper rejected session: '' @ msg)
        | _ \<Rightarrow> Inl ''root helper returned an unexpected hello response'')))"

definition connect :: "(Message \<Rightarrow> bytes option) \<Rightarrow> (bytes \<Rightarrow> Message option) \<Rightarrow> path \<Rightarrow> path \<Rightarrow> u32 \<Rightarrow> Fs \<Rightarrow> ConnectAnswers
    \<Rightarrow> (string + ConnectedHelper) option" where
  "connect to_vec from_slice socket session uid fs ca = (case connect_files socket session uid fs of Inl e \<Rightarrow> Some (Inl e)
   | Inr proof \<Rightarrow> (case connect_before (ca_connects ca) CONNECT_TIMEOUT of None \<Rightarrow> None
   | Some (Inl e) \<Rightarrow> Some (Inl e)
   | Some (Inr _) \<Rightarrow> (case ca_fs ca socket of None \<Rightarrow> Some (Inl ''inspect helper socket'')
   | Some s \<Rightarrow> if \<not> private_file FSocket uid s then Some (Inl ''helper socket is not a private app-owned Unix socket'')
      else (case peer_credentials ''root-helper '' (ca_peer ca) of Inl e \<Rightarrow> Some (Inl e)
      | Inr peer \<Rightarrow> if pc_uid peer \<noteq> 0 then Some (Inl ''helper Unix socket peer is not UID 0'')
          else Some (connect_hello to_vec from_slice uid ca proof peer)))))"

text \<open>One turn of the heartbeat thread, after its sleep: whether it goes on, and the client.\<close>

definition heartbeat_turn :: "(Message \<Rightarrow> bytes option) \<Rightarrow> (Frame \<Rightarrow> bool) \<Rightarrow> string \<Rightarrow> HelperClient \<Rightarrow> bool \<times> HelperClient" where
  "heartbeat_turn to_vec wr err c = (if cl_disconnected c then (False, c)
     else (case client_write to_vec wr 0 MPing c of None \<Rightarrow> (False, disconnect err c) | Some c' \<Rightarrow> (True, c')))"

section \<open>The checks\<close>

lemma path_parent_neq: "path_parent p = Some d \<Longrightarrow> d \<noteq> p"
proof -
  assume "path_parent p = Some d"
  then have "length d < length p" by (auto simp: path_parent_def split: if_splits)
  then show ?thesis by auto
qed

lemma mode_600_private: "(m AND - 4096 OR 384) AND 63 = (0 :: u32)"
proof -
  have "- 4096 AND 63 = (0 :: u32)" "384 AND 63 = (0 :: u32)" by simp_all
  then show ?thesis by (simp add: bit.conj_disj_distrib2 and.assoc)
qed

text \<open>A socket that was opened without an error is private to the app, and no other file has changed.\<close>

lemma open_socket_ok:
  assumes "open_socket a an fs = (None, fs1)"
  shows "\<exists>s. fs1 = fs(ar_socket a \<mapsto> s) \<and> private_file FSocket (expected_uid a) s"
proof -
  let ?p = "ar_socket a"
  obtain fs0 fs2 where fs0: "fs0 = fs \<or> fs0 = fs(?p := None)" and b: "bind_socket an ?p fs0 = Some fs2"
    and o: "set_socket_owner an ?p (expected_uid a) fs2 = (None, fs1)"
    using assms by (auto simp: open_socket_def remove_file_def Let_def split: option.splits if_splits prod.splits)
  let ?s = "\<lparr>f_type = FSocket, f_uid = expected_uid a, f_mode = ba_bind_mode an AND NOT 4095 OR 384, f_content = None\<rparr>"
  have "fs1 = fs(?p \<mapsto> ?s)" using b o fs0 by (auto simp: bind_socket_def set_socket_owner_def Let_def split: if_splits)
  moreover have "private_file FSocket (expected_uid a) ?s" by (simp add: private_file_def mode_600_private)
  ultimately show ?thesis by blast
qed

lemma open_socket_touches:
  "snd (open_socket a an fs) = fs \<or> (\<exists>v. snd (open_socket a an fs) = fs(ar_socket a := v))"
  by (auto simp: open_socket_def remove_file_def bind_socket_def set_socket_owner_def Let_def split: option.splits if_splits prod.splits)

lemma socket_cleanup_upd: "socket_cleanup p (fs(p := v)) = fs(p := (case v of Some f \<Rightarrow> if f_type f = FDir then v else None | None \<Rightarrow> None))"
  by (auto simp: socket_cleanup_def remove_file_def split: option.splits)

text \<open>
  The two loops come to an end: once an attempt is made at or after the deadline, no further one is needed.
\<close>

lemma accept_before_ends: "\<exists>x \<in> set as. deadline \<le> fst x \<Longrightarrow> accept_before as deadline \<noteq> None"
  by (induction as deadline rule: accept_before.induct) auto

lemma connect_before_ends: "\<exists>x \<in> set cs. deadline \<le> fst x \<Longrightarrow> connect_before cs deadline \<noteq> None"
  by (induction cs deadline rule: connect_before.induct) auto

lemma require_root_None: "require_root uids = None \<longleftrightarrow> uids = Some (0, 0, 0)"
  by (auto simp: require_root_def split: option.splits)

lemma validate_bootstrap_paths_None:
  "validate_bootstrap_paths a fs = None \<longleftrightarrow> expected_uid a \<noteq> 0
     \<and> (\<exists>d dir. path_parent (ar_socket a) = Some d \<and> path_parent (ar_session_file a) = Some d
          \<and> fs d = Some dir \<and> private_file FDir (expected_uid a) dir)"
  by (auto simp: validate_bootstrap_paths_def split: option.splits)

lemma read_session_proof_Inr:
  "read_session_proof p uid fs = Inr proof \<longleftrightarrow>
     (\<exists>f. fs p = Some f \<and> private_file FFile uid f \<and> f_content f = Some proof \<and> length proof = SESSION_PROOF_SIZE)"
  by (auto simp: read_session_proof_def split: option.splits)

lemma connect_files_Inr:
  "connect_files socket session uid fs = Inr proof \<longleftrightarrow>
     (\<exists>d dir. path_parent socket = Some d \<and> path_parent session = Some d \<and> fs d = Some dir \<and> private_file FDir uid dir)
     \<and> read_session_proof session uid fs = Inr proof"
  by (auto simp: connect_files_def read_session_proof_Inr split: option.splits)

lemma peer_credentials_Inr:
  "peer_credentials whose raw = Inr peer \<longleftrightarrow> (\<exists>pid uid. raw = Some (pid, uid) \<and> 0 < pid \<and> peer = \<lparr>pc_pid = word_of_int pid, pc_uid = uid\<rparr>)"
  by (auto simp: peer_credentials_def split: option.splits)

lemmas bootstrap_checks = require_root_None validate_bootstrap_paths_None read_session_proof_Inr connect_files_Inr peer_credentials_Inr

text \<open>What is true when the helper starts to serve, from the cases of \<^verbatim>\<open>run\<close>.\<close>

lemma run_serveD:
  assumes "run a an fs = (RunServe peer proof, fs1)"
  shows "require_root (ba_uids an) = None" "validate_bootstrap_paths a fs = None"
    "read_session_proof (ar_session_file a) (expected_uid a) fs = Inr proof" "open_socket a an fs = (None, fs1)"
    "peer_credentials [] (ba_peer an) = Inr peer" "pc_uid peer = expected_uid a"
  using assms by (auto simp: run_def split: option.splits sum.splits prod.splits if_splits)

text \<open>
  The helper serves only as root, a peer that runs under the expected user, which is not root; the secret has 32 bytes and comes
  from a private regular file of that user, in a private directory of that user that also holds the socket; the socket
  is private to that user, and nothing else on disk has changed. A run that ends with an error leaves at most the socket's path changed.
\<close>

theorem helper_bootstrap_safe:
  assumes "run a an fs = (RunServe peer proof, fs1)"
  shows "ba_uids an = Some (0, 0, 0) \<and> expected_uid a \<noteq> 0 \<and> pc_uid peer = expected_uid a \<and> length proof = 32
    \<and> (\<exists>d dir pf s. path_parent (ar_socket a) = Some d \<and> path_parent (ar_session_file a) = Some d
         \<and> fs d = Some dir \<and> private_file FDir (expected_uid a) dir
         \<and> fs (ar_session_file a) = Some pf \<and> private_file FFile (expected_uid a) pf \<and> f_content pf = Some proof
         \<and> fs1 = fs(ar_socket a \<mapsto> s) \<and> private_file FSocket (expected_uid a) s
         \<and> run_end a fs1 = fs(ar_socket a := None))"
proof -
  note d = run_serveD [OF assms]
  obtain s where s: "fs1 = fs(ar_socket a \<mapsto> s)" "private_file FSocket (expected_uid a) s"
    using open_socket_ok [OF d(4)] by blast
  have "run_end a fs1 = fs(ar_socket a := None)"
    using s(2) by (simp add: s(1) run_end_def socket_cleanup_upd private_file_def)
  with d(1-3) d(6) s show ?thesis by (auto simp: bootstrap_checks SESSION_PROOF_SIZE_def)
qed

lemma run_error_local:
  assumes "run a an fs = (RunErr e, fs1)"
  shows "q \<noteq> ar_socket a \<Longrightarrow> fs1 q = fs q"
  using assms open_socket_touches [of a an fs]
  by (auto simp: run_def socket_cleanup_def remove_file_def split: option.splits sum.splits prod.splits if_splits)

text \<open>The heartbeat keeps the client well formed, ends only on a client that is disconnected, and its ping is answered in every state after the first.\<close>

lemma heartbeat_turn_ok:
  assumes "client_ok c" "heartbeat_turn to_vec wr err c = (goes_on, c')"
  shows "client_ok c' \<and> (goes_on \<longleftrightarrow> \<not> cl_disconnected c')"
proof (cases "client_write to_vec wr 0 MPing c")
  case None
  then show ?thesis using assms client_step_ok [OF cs_disconnect assms(1), of err]
    by (auto simp: heartbeat_turn_def disconnect_def split: if_splits)
next
  case (Some c1)
  then have "c1 = c\<lparr>cl_sent := cl_sent c @ [frame_new 0 MPing]\<rparr>"
    by (auto simp: client_write_def Let_def split: sum.splits if_splits)
  moreover from this have "client_ok c1" using assms(1) by (simp add: client_ok_def)
  ultimately show ?thesis using assms Some by (auto simp: heartbeat_turn_def split: if_splits)
qed

lemma heartbeat_answered:
  assumes "hs_state h \<notin> {Created, Exited}" "write_frame (he_to_vec env) (frame_new 0 MPong) = Inr out" "he_write env (frame_new 0 MPong)"
  shows "\<exists>h'. serve_request env (RFrame (frame_new 0 MPing)) h = Running h' \<and> last (hs_sent h') = frame_new 0 MPong"
  using assms by (simp add: frame_new_def reply_def send_frame_def)

text \<open>The client trusts only a root process whose identity the kernel and the answer to its \<^verbatim>\<open>Hello\<close> agree on.\<close>

theorem client_bootstrap_safe:
  assumes "connect to_vec from_slice socket session uid fs ca = Some (Inr c)"
  shows "\<exists>pid proof s f acc rest. ca_peer ca = Some (pid, 0) \<and> 0 < pid \<and> ch_helper_pid c = word_of_int pid \<and> ch_helper_uid c = 0
    \<and> connect_files socket session uid fs = Inr proof \<and> ca_fs ca socket = Some s \<and> private_file FSocket uid s
    \<and> read_frame from_slice (ca_input ca) = Inr (f, rest) \<and> fr_request_id f = 1 \<and> fr_message f = MHelloAccepted acc
    \<and> peer_uid acc = uid \<and> ch_client c = client_start \<and> ch_unread c = rest"
  using assms by (auto simp: connect_def connect_hello_def peer_credentials_Inr split: option.splits sum.splits prod.splits if_splits Message.splits)

section \<open>The two ends together\<close>

text \<open>
  What the JSON codec promises on one message, and the two ends of one connection: each is told the credentials of the other by
  the kernel, and the helper's environment is the one \<^verbatim>\<open>run\<close> passes to \<^verbatim>\<open>serve\<close>.
\<close>

definition codec_ok :: "(Message \<Rightarrow> bytes option) \<Rightarrow> (bytes \<Rightarrow> Message option) \<Rightarrow> Message \<Rightarrow> bool" where
  "codec_ok to_vec from_slice msg = (case to_vec msg of None \<Rightarrow> False
     | Some pl \<Rightarrow> length pl \<le> MAX_FRAME_SIZE \<and> from_slice pl = Some msg)"

definition linked :: "PeerCredentials \<Rightarrow> bytes \<Rightarrow> HelperEnv \<Rightarrow> int \<Rightarrow> ConnectAnswers \<Rightarrow> bool" where
  "linked peer proof env pid ca = (he_proof env = proof \<and> he_peer_pid env = pc_pid peer \<and> he_peer_uid env = pc_uid peer
     \<and> he_uid env = 0 \<and> he_pid env = word_of_int pid \<and> he_pid env \<noteq> 0 \<and> ca_peer ca = Some (pid, 0) \<and> 0 < pid
     \<and> ca_pid ca = pc_pid peer \<and> ca_pid ca \<noteq> 0)"

definition hello_accepted :: "HelperEnv \<Rightarrow> Message" where
  "hello_accepted env = MHelloAccepted \<lparr>peer_uid = he_peer_uid env, helper_pid = he_pid env, helper_uid = he_uid env,
     protocol_major = PROTOCOL_MAJOR, protocol_minor = PROTOCOL_MINOR, capabilities = [''nfqueue'', ''flow_progress'']\<rparr>"

lemma write_frame_new:
  assumes "message_validate msg = None" "codec_ok to_vec from_slice msg"
  shows "\<exists>out. write_frame to_vec (frame_new rid msg) = Inr out \<and> (\<forall>rest. read_frame from_slice (out @ rest) = Inr (frame_new rid msg, rest))"
proof -
  obtain pl where pl: "to_vec msg = Some pl" "length pl \<le> MAX_FRAME_SIZE" "from_slice pl = Some msg"
    using assms(2) by (auto simp: codec_ok_def split: option.splits)
  then obtain out where w: "write_frame to_vec (frame_new rid msg) = Inr out"
    using assms(1) by (auto simp: write_frame_def frame_new_def)
  then have "read_frame from_slice (out @ rest) = Inr (frame_new rid msg, rest)" for rest
    using pl by (intro read_written_frame) (auto simp: frame_new_def)
  with w show ?thesis by blast
qed

lemma hello_valid:
  assumes "length proof = SESSION_PROOF_SIZE" "ca_pid ca \<noteq> 0" "ca_version ca \<noteq> []" "length (ca_version ca) \<le> 64"
  shows "message_validate (fr_message (client_hello ca proof)) = None"
  using assms by (simp add: client_hello_def frame_new_def)

lemma hello_accepted_valid:
  assumes "he_peer_uid env \<noteq> 0" "he_pid env \<noteq> 0" "he_uid env = 0"
  shows "message_validate (hello_accepted env) = None"
  using assms by (simp add: hello_accepted_def)

lemma serve_hello:
  assumes "session_proof hello = he_proof env" "data_plane_pid hello = he_peer_pid env"
    and "write_frame (he_to_vec env) (frame_new rid (hello_accepted env)) = Inr out" "he_write env (frame_new rid (hello_accepted env))"
  shows "serve_request env (RFrame (frame_new rid (MHello hello))) serve_start
    = Running (serve_start\<lparr>hs_state := Authenticated, hs_sent := [frame_new rid (hello_accepted env)]\<rparr>)"
  using assms by (simp add: serve_start_def frame_new_def on_hello_def reply_def send_frame_def hello_accepted_def)

text \<open>The files the client checks are the same before and after the helper has made its socket.\<close>

lemma connect_files_same:
  assumes "run a an fs = (RunServe peer proof, fs1)" "ar_socket a \<noteq> ar_session_file a" "fs' = fs \<or> fs' = fs1"
  shows "connect_files (ar_socket a) (ar_session_file a) (expected_uid a) fs' = Inr proof"
proof -
  note d = run_serveD [OF assms(1)]
  obtain s where s: "fs1 = fs(ar_socket a \<mapsto> s)" using open_socket_ok [OF d(4)] by blast
  then have "fs' q = fs q" if "q \<noteq> ar_socket a" for q using that assms(3) by auto
  then show ?thesis using d(2,3) assms(2) path_parent_neq by (fastforce simp: bootstrap_checks)
qed

text \<open>
  C16. The helper and its client find each other. When the helper has come as far as serving and its peer is the client, the
  client's \<^verbatim>\<open>Hello\<close> reaches it unchanged, is accepted in the helper's first state, and the answer makes \<^verbatim>\<open>connect\<close> succeed: every check
  of the client on the files, on the socket the helper has just made and on the answer holds because of what the helper has done.
  The client may look at the files before or after the helper makes its socket.
\<close>

theorem bootstrap_handshake:
  assumes "run a an fs = (RunServe peer proof, fs1)" "ar_socket a \<noteq> ar_session_file a"
    and "linked peer proof env pid ca" "ca_fs ca = fs1" "fs' = fs \<or> fs' = fs1"
    and "connect_before (ca_connects ca) CONNECT_TIMEOUT = Some (Inr ())" "ca_version ca \<noteq> []" "length (ca_version ca) \<le> 64"
    and "codec_ok to_vec from_slice (fr_message (client_hello ca proof))" "codec_ok to_vec from_slice (hello_accepted env)"
    and "ca_write ca (client_hello ca proof)" "he_write env (frame_new 1 (hello_accepted env))" "he_to_vec env = to_vec"
    and "ca_clone ca" "ca_spawn_reader ca" "ca_spawn_heartbeat ca"
  shows "\<exists>hello answer h. write_frame to_vec (client_hello ca proof) = Inr hello
      \<and> read_frame from_slice hello = Inr (client_hello ca proof, [])
      \<and> serve_request env (RFrame (client_hello ca proof)) serve_start = Running h \<and> hs_state h = Authenticated
      \<and> hs_sent h = [frame_new 1 (hello_accepted env)] \<and> write_frame to_vec (frame_new 1 (hello_accepted env)) = Inr answer
      \<and> (\<forall>rest. connect to_vec from_slice (ar_socket a) (ar_session_file a) (expected_uid a) fs' (ca\<lparr>ca_input := answer @ rest\<rparr>)
           = Some (Inr \<lparr>ch_client = client_start, ch_helper_pid = he_pid env, ch_helper_uid = 0,
               ch_protocol = (PROTOCOL_MAJOR, PROTOCOL_MINOR), ch_capabilities = [''nfqueue'', ''flow_progress''], ch_unread = rest\<rparr>))"
proof -
  note d = run_serveD [OF assms(1)] and l = assms(3) [unfolded linked_def]
  have len: "length proof = SESSION_PROOF_SIZE" and uid: "expected_uid a \<noteq> 0" using d(2,3) by (auto simp: bootstrap_checks)
  obtain s where s: "fs1 = fs(ar_socket a \<mapsto> s)" "private_file FSocket (expected_uid a) s"
    using open_socket_ok [OF d(4)] by blast
  have ch: "client_hello ca proof = frame_new 1 (fr_message (client_hello ca proof))" by (simp add: client_hello_def frame_new_def)
  obtain hello where hello: "write_frame to_vec (client_hello ca proof) = Inr hello"
      "read_frame from_slice hello = Inr (client_hello ca proof, [])"
    using write_frame_new [OF hello_valid assms(9), of 1] len l assms(7,8) unfolding ch [symmetric] by (metis append_Nil2)
  obtain answer where answer: "write_frame to_vec (frame_new 1 (hello_accepted env)) = Inr answer"
      "\<And>rest. read_frame from_slice (answer @ rest) = Inr (frame_new 1 (hello_accepted env), rest)"
    using write_frame_new [OF hello_accepted_valid assms(10), of 1] l uid d(6) by auto
  have srv: "serve_request env (RFrame (client_hello ca proof)) serve_start
      = Running (serve_start\<lparr>hs_state := Authenticated, hs_sent := [frame_new 1 (hello_accepted env)]\<rparr>)"
    unfolding client_hello_def using l answer(1) assms(12,13) by (intro serve_hello) auto
  have "connect to_vec from_slice (ar_socket a) (ar_session_file a) (expected_uid a) fs' (ca\<lparr>ca_input := answer @ rest\<rparr>)
      = Some (Inr \<lparr>ch_client = client_start, ch_helper_pid = he_pid env, ch_helper_uid = 0,
          ch_protocol = (PROTOCOL_MAJOR, PROTOCOL_MINOR), ch_capabilities = [''nfqueue'', ''flow_progress''], ch_unread = rest\<rparr>)" for rest
    using l s hello(1) answer(2) assms(4,6,11,14-16) d(6) connect_files_same [OF assms(1,2,5)]
    by (simp add: connect_def connect_hello_def peer_credentials_def client_hello_def hello_accepted_def frame_new_def)
  with hello answer(1) srv show ?thesis by simp
qed

text \<open>
  A client with another secret is turned away: the helper ends with an error, and the client reports the reason the helper sent.
\<close>

lemma foreign_session_rejected:
  assumes "serve_request env (RFrame (client_hello ca proof)) serve_start = r" "proof \<noteq> he_proof env"
    and "codec_ok (he_to_vec env) from_slice (MHelperFatal AuthenticationFailed ''session authentication failed'')"
    and "\<And>f. he_write env f"
  shows "\<exists>h answer. r = Bail h \<and> hs_state h = Created \<and> write_frame (he_to_vec env) (last (hs_sent h)) = Inr answer
    \<and> (\<forall>to_vec uid peer rest x. connect_hello to_vec from_slice uid (ca\<lparr>ca_input := answer @ rest\<rparr>) proof peer = x \<longrightarrow>
         x = Inl ''send helper hello'' \<or> x = Inl ''root helper rejected session: session authentication failed'')"
proof -
  let ?f = "frame_new 1 (MHelperFatal AuthenticationFailed ''session authentication failed'')"
  obtain answer where answer: "write_frame (he_to_vec env) ?f = Inr answer"
      "\<And>rest. read_frame from_slice (answer @ rest) = Inr (?f, rest)"
    using write_frame_new [OF _ assms(3), of 1] by auto
  have "r = Bail (serve_start\<lparr>hs_sent := [?f]\<rparr>)"
    using assms(1,2,4) answer(1)
    by (simp add: client_hello_def frame_new_def serve_start_def on_hello_def fatal_def send_frame_def)
  with answer show ?thesis
    by (auto simp: connect_hello_def serve_start_def frame_new_def split: sum.splits if_splits)
qed

text \<open>A bootstrap that works: the app has user id 10100 and process id 77, the helper process id 88.\<close>

definition boot_args :: Args where
  "boot_args = \<lparr>ar_socket = [''run'', ''s''], expected_uid = 10100, ar_session_file = [''run'', ''p''], parent_pid = Some 77\<rparr>"

definition boot_fs :: Fs where
  "boot_fs = [[''run''] \<mapsto> \<lparr>f_type = FDir, f_uid = 10100, f_mode = 448, f_content = None\<rparr>,
     [''run'', ''p''] \<mapsto> \<lparr>f_type = FFile, f_uid = 10100, f_mode = 384, f_content = Some sample_secret\<rparr>,
     [''run'', ''s''] \<mapsto> \<lparr>f_type = FSocket, f_uid = 0, f_mode = 384, f_content = None\<rparr>]"

definition boot_answers :: BootAnswers where
  "boot_answers = \<lparr>ba_uids = Some (0, 0, 0), ba_bind = True, ba_bind_mode = 493, ba_chown = True, ba_chmod = True,
     ba_nonblocking = True, ba_accepts = [(0, WouldBlock), (25, Accepted)], ba_peer = Some (77, 10100)\<rparr>"

definition boot_socket :: File where
  "boot_socket = \<lparr>f_type = FSocket, f_uid = 10100, f_mode = 384, f_content = None\<rparr>"

lemma boot_run:
  "run boot_args boot_answers boot_fs = (RunServe \<lparr>pc_pid = 77, pc_uid = 10100\<rparr> sample_secret, boot_fs([''run'', ''s''] \<mapsto> boot_socket))"
  by (simp add: run_def require_root_def validate_bootstrap_paths_def read_session_proof_def open_socket_def remove_file_def bind_socket_def
      set_socket_owner_def path_exists_def path_parent_def private_file_def peer_credentials_def boot_args_def boot_fs_def boot_answers_def
      boot_socket_def sample_secret_def SESSION_PROOF_SIZE_def ACCEPT_TIMEOUT_def Let_def)

definition boot_env :: HelperEnv where
  "boot_env = sample_env\<lparr>he_proof := sample_secret, he_peer_pid := 77, he_peer_uid := 10100, he_pid := 88, he_uid := 0,
     he_to_vec := (\<lambda>m. Some [word_of_nat (unat (message_type_code (message_type m)))]), he_write := (\<lambda>_. True)\<rparr>"

definition boot_connect :: ConnectAnswers where
  "boot_connect = \<lparr>ca_connects = [(0, NotYet), (25, Connected)], ca_fs = boot_fs([''run'', ''s''] \<mapsto> boot_socket), ca_peer = Some (88, 0),
     ca_pid = 77, ca_version = ''1'', ca_write = (\<lambda>_. True), ca_input = [], ca_clone = True, ca_spawn_reader = True, ca_spawn_heartbeat = True\<rparr>"

lemma bootstrap_handshake_witness:
  "\<exists>answer. connect (he_to_vec boot_env) (\<lambda>pl. if pl = [1] then Some (fr_message (client_hello boot_connect sample_secret)) else Some (hello_accepted boot_env))
     [''run'', ''s''] [''run'', ''p''] 10100 boot_fs (boot_connect\<lparr>ca_input := answer\<rparr>)
   = Some (Inr \<lparr>ch_client = client_start, ch_helper_pid = 88, ch_helper_uid = 0, ch_protocol = (PROTOCOL_MAJOR, PROTOCOL_MINOR),
       ch_capabilities = [''nfqueue'', ''flow_progress''], ch_unread = []\<rparr>)"
proof -
  have a: "ar_socket boot_args = [''run'', ''s'']" "ar_session_file boot_args = [''run'', ''p'']" "expected_uid boot_args = 10100"
    by (simp_all add: boot_args_def)
  have p: "he_pid boot_env = 88" by (simp add: boot_env_def)
  show ?thesis
    using bootstrap_handshake [OF boot_run, of boot_env 88 boot_connect boot_fs "he_to_vec boot_env"
      "\<lambda>pl. if pl = [1] then Some (fr_message (client_hello boot_connect sample_secret)) else Some (hello_accepted boot_env)"]
    unfolding a p
    by (simp add: linked_def codec_ok_def boot_env_def boot_connect_def CONNECT_TIMEOUT_def client_hello_def hello_accepted_def
        frame_new_def MAX_FRAME_SIZE_def) (metis append_Nil2)
qed

end
