(* ===== verification/Scan_List.thy ===== *)
theory Scan_List
  imports Target_Pool
begin

text \<open>
  What a scan reads and measures: the list files with the removal of duplicates (scan\_list.rs), the address lists (ip\_scanner.rs), the Cloudflare filter
  (cloudflare.rs), name resolution (dns.rs) and the two HTTP measurements (scanner\_http.rs). The parsers and networks of the \<^verbatim>\<open>ipnet\<close> crate, the parsing of
  addresses, and the answers of files, name servers and streams are arguments. Rates are quotients of floating-point numbers and are left out; the sizes
  and times they are made of are here.
\<close>

section \<open>Lines\<close>

definition newline :: char where "newline = char_of (10 :: nat)"

definition carriage_return :: char where "carriage_return = char_of (13 :: nat)"

text \<open>\<^verbatim>\<open>split_inclusive('\n')\<close> and \<^verbatim>\<open>lines()\<close>.\<close>

fun split_inclusive :: "string \<Rightarrow> string list" where
  "split_inclusive [] = []"
| "split_inclusive (c # cs) = (if c = newline then [c] # split_inclusive cs
     else (case split_inclusive cs of [] \<Rightarrow> [[c]] | l # ls \<Rightarrow> (c # l) # ls))"

definition strip_line :: "string \<Rightarrow> string" where
  "strip_line l = (if l \<noteq> [] \<and> last l = newline
     then (let m = butlast l in if m \<noteq> [] \<and> last m = carriage_return then butlast m else m) else l)"

definition lines_of :: "string \<Rightarrow> string list" where
  "lines_of s = map strip_line (split_inclusive s)"

definition is_entry :: "string \<Rightarrow> bool" where
  "is_entry l = (case l of [] \<Rightarrow> False | c # _ \<Rightarrow> c \<noteq> CHR ''#'')"

text \<open>The entries of a file: its trimmed lines without blank lines and comments.\<close>

definition entries_of :: "string \<Rightarrow> string list" where
  "entries_of content = filter is_entry (map trim (lines_of content))"

section \<open>Duplicates\<close>

fun dedup_lines :: "(string \<Rightarrow> string option) \<Rightarrow> string list \<Rightarrow> string list \<Rightarrow> string list \<times> nat" where
  "dedup_lines entry_key seen [] = ([], 0)"
| "dedup_lines entry_key seen (line # ls) = (case (if is_entry (trim line) then entry_key (trim line) else None) of
     Some k \<Rightarrow> if k \<in> set seen then (case dedup_lines entry_key seen ls of (kept, removed) \<Rightarrow> (kept, Suc removed))
       else (case dedup_lines entry_key (k # seen) ls of (kept, removed) \<Rightarrow> (line # kept, removed))
   | None \<Rightarrow> (case dedup_lines entry_key seen ls of (kept, removed) \<Rightarrow> (line # kept, removed)))"

text \<open>
  \<^verbatim>\<open>read_scan_list\<close>: what it returns (\<open>None\<close> is an error) and the file afterwards. \<open>replaced\<close> is whether the replacement file could be written, given the
  permissions of the original and moved over it.
\<close>

definition read_scan_list :: "bool \<Rightarrow> (string \<Rightarrow> string option) \<Rightarrow> bool \<Rightarrow> string option \<Rightarrow> string option \<times> string option" where
  "read_scan_list deduplicate entry_key replaced file = (case file of None \<Rightarrow> (None, None)
   | Some content \<Rightarrow> if \<not> deduplicate then (Some content, Some content)
       else (case dedup_lines entry_key [] (split_inclusive content) of (kept, removed) \<Rightarrow> let cleaned = concat kept in
         if removed > 0 then (if replaced then (Some cleaned, Some cleaned) else (None, Some content)) else (Some cleaned, Some content)))"

definition hostname_key :: "string \<Rightarrow> string option" where
  "hostname_key entry = Some (map to_ascii_lowercase_char entry)"

text \<open>The names of \<^verbatim>\<open>scan_sni_list\<close>; an empty list is an error.\<close>

definition load_hostnames :: "bool \<Rightarrow> bool \<Rightarrow> string option \<Rightarrow> string list option" where
  "load_hostnames deduplicate replaced file = (case fst (read_scan_list deduplicate hostname_key replaced file) of None \<Rightarrow> None
   | Some content \<Rightarrow> let hostnames = entries_of content in if hostnames = [] then None else Some hostnames)"

section \<open>Address lists\<close>

text \<open>The crate \<^verbatim>\<open>ipnet\<close> and the address parser of the library: \<open>np_hosts\<close> enumerates the hosts of a network, \<open>np_v6\<close> says whether it is an IPv6 network.\<close>

record 'n NetParser =
  np_ip :: "string \<Rightarrow> IpAddr option"
  np_net :: "string \<Rightarrow> 'n option"
  np_v6 :: "'n \<Rightarrow> bool"
  np_hosts :: "'n \<Rightarrow> IpAddr list"
  np_contains :: "'n \<Rightarrow> IpAddr \<Rightarrow> bool"
  np_show_ip :: "IpAddr \<Rightarrow> string"
  np_show_trunc :: "'n \<Rightarrow> string"

definition address_key :: "'n NetParser \<Rightarrow> string \<Rightarrow> string option" where
  "address_key np entry = (case np_ip np entry of Some ip \<Rightarrow> Some (np_show_ip np ip) | None \<Rightarrow> map_option (np_show_trunc np) (np_net np entry))"

definition expand_net :: "'n NetParser \<Rightarrow> u64 \<Rightarrow> 'n \<Rightarrow> IpAddr list" where
  "expand_net np ipv6_max_hosts n = (if np_v6 np n then take (unat ipv6_max_hosts) (np_hosts np n) else np_hosts np n)"

definition expand_entry :: "'n NetParser \<Rightarrow> u64 \<Rightarrow> string \<Rightarrow> IpAddr list" where
  "expand_entry np ipv6_max_hosts line = (case np_ip np line of Some ip \<Rightarrow> [ip]
   | None \<Rightarrow> (case np_net np line of Some n \<Rightarrow> expand_net np ipv6_max_hosts n | None \<Rightarrow> []))"

definition load_ip_list_with_options :: "'n NetParser \<Rightarrow> u64 \<Rightarrow> bool \<Rightarrow> bool \<Rightarrow> string option \<Rightarrow> IpAddr list option" where
  "load_ip_list_with_options np ipv6_max_hosts deduplicate replaced file =
     map_option (\<lambda>text. concat (map (expand_entry np ipv6_max_hosts) (entries_of text))) (fst (read_scan_list deduplicate (address_key np) replaced file))"

section \<open>The Cloudflare filter\<close>

fun parse_all :: "(string \<Rightarrow> 'n option) \<Rightarrow> string list \<Rightarrow> 'n list option" where
  "parse_all p [] = Some []"
| "parse_all p (l # ls) = (case p l of None \<Rightarrow> None | Some n \<Rightarrow> map_option ((#) n) (parse_all p ls))"

text \<open>\<^verbatim>\<open>ScanFilter::load\<close>: the outer \<open>None\<close> is an error, the inner one a filter that is off; \<open>file\<close> is the text of \<^verbatim>\<open>cf.txt\<close>.\<close>

definition filter_load :: "'n NetParser \<Rightarrow> bool \<Rightarrow> string option \<Rightarrow> 'n list option option" where
  "filter_load np enabled file = (if \<not> enabled then Some None
     else (case file of None \<Rightarrow> None | Some text \<Rightarrow> (case parse_all (np_net np) (entries_of text) of None \<Rightarrow> None
       | Some ranges \<Rightarrow> if ranges = [] then None else Some (Some ranges))))"

definition filter_allows :: "'n NetParser \<Rightarrow> 'n list option \<Rightarrow> IpAddr \<Rightarrow> bool" where
  "filter_allows np ranges ip = (case ranges of Some rs \<Rightarrow> list_ex (\<lambda>n. np_contains np n ip) rs | None \<Rightarrow> True)"

definition filter_retain :: "'n NetParser \<Rightarrow> 'n list option \<Rightarrow> IpAddr list \<Rightarrow> IpAddr list" where
  "filter_retain np ranges ips = filter (filter_allows np ranges) ips"

section \<open>Name resolution\<close>

fun only_v4 :: "IpAddr list \<Rightarrow> ipv4 list" where
  "only_v4 [] = []"
| "only_v4 (V4 ip # ips) = ip # only_v4 ips"
| "only_v4 (V6 ip # ips) = only_v4 ips"

text \<open>
  The custom servers in order; \<open>None\<close> stands for an error or a time-out of the server. The result comes with the servers that were asked.
\<close>

fun ask_servers :: "('srv \<Rightarrow> IpAddr list option) \<Rightarrow> 'srv list \<Rightarrow> ipv4 list option \<times> 'srv list" where
  "ask_servers answer [] = (None, [])"
| "ask_servers answer (s # ss) = (case answer s of
     Some ips \<Rightarrow> if only_v4 ips \<noteq> [] then (Some (only_v4 ips), [s]) else (case ask_servers answer ss of (r, asked) \<Rightarrow> (r, s # asked))
   | None \<Rightarrow> (case ask_servers answer ss of (r, asked) \<Rightarrow> (r, s # asked)))"

text \<open>\<^verbatim>\<open>lookup_ipv4\<close>; the flag is whether the resolver of the system was asked.\<close>

definition lookup_ipv4 :: "'srv list \<Rightarrow> ('srv \<Rightarrow> IpAddr list option) \<Rightarrow> IpAddr list option \<Rightarrow> ipv4 list option \<times> bool" where
  "lookup_ipv4 custom_servers answer system_answer = (if custom_servers = [] then (map_option only_v4 system_answer, True)
     else (fst (ask_servers answer custom_servers), False))"

definition DEFAULT_DNS_PORT :: u16 where "DEFAULT_DNS_PORT = 53"

datatype DnsServerError = DnsEmpty | DnsZeroPort | DnsNotLiteral string

definition parse_custom_dns_server :: "(string \<Rightarrow> (IpAddr \<times> u16) option) \<Rightarrow> (string \<Rightarrow> IpAddr option) \<Rightarrow> string \<Rightarrow> DnsServerError + (IpAddr \<times> u16)" where
  "parse_custom_dns_server socket_addr ip_addr value = (let value = trim value in
     if value = [] then Inl DnsEmpty
     else (case socket_addr value of Some (ip, port) \<Rightarrow> if port = 0 then Inl DnsZeroPort else Inr (ip, port)
       | None \<Rightarrow> (case ip_addr value of Some ip \<Rightarrow> Inr (ip, DEFAULT_DNS_PORT) | None \<Rightarrow> Inl (DnsNotLiteral value))))"

section \<open>HTTP measurements\<close>

text \<open>\<^verbatim>\<open>std::str::from_utf8\<close>.\<close>

definition utf8_tail :: "u8 \<Rightarrow> bool" where
  "utf8_tail b = (0x80 \<le> b \<and> b \<le> 0xBF)"

fun utf8_valid :: "bytes \<Rightarrow> bool" where
  "utf8_valid [] = True"
| "utf8_valid (b # bs) = (if b < 0x80 then utf8_valid bs
     else if 0xC2 \<le> b \<and> b \<le> 0xDF then (case bs of c1 # r \<Rightarrow> utf8_tail c1 \<and> utf8_valid r | _ \<Rightarrow> False)
     else if 0xE0 \<le> b \<and> b \<le> 0xEF then (case bs of c1 # c2 # r \<Rightarrow>
         utf8_tail c1 \<and> (b = 0xE0 \<longrightarrow> 0xA0 \<le> c1) \<and> (b = 0xED \<longrightarrow> c1 \<le> 0x9F) \<and> utf8_tail c2 \<and> utf8_valid r | _ \<Rightarrow> False)
     else if 0xF0 \<le> b \<and> b \<le> 0xF4 then (case bs of c1 # c2 # c3 # r \<Rightarrow>
         utf8_tail c1 \<and> (b = 0xF0 \<longrightarrow> 0x90 \<le> c1) \<and> (b = 0xF4 \<longrightarrow> c1 \<le> 0x8F) \<and> utf8_tail c2 \<and> utf8_tail c3 \<and> utf8_valid r | _ \<Rightarrow> False)
     else False)"

definition text_of :: "bytes \<Rightarrow> string" where
  "text_of bs = map (\<lambda>b. char_of (unat b)) bs"

definition parse_u16 :: "string \<Rightarrow> u16 option" where
  "parse_u16 s = (case parse_u32 s of Some n \<Rightarrow> if n < 2 ^ 16 then Some (word_of_nat n) else None | None \<Rightarrow> None)"

definition parse_http_status :: "string \<Rightarrow> u16 option" where
  "parse_http_status text = (case lines_of text of [] \<Rightarrow> None | line # _ \<Rightarrow>
     (case split_once (CHR '' '') line of None \<Rightarrow> None
      | Some (version, rest) \<Rightarrow> if take 5 version \<noteq> ''HTTP/'' then None
          else parse_u16 (case split_once (CHR '' '') rest of Some (status, _) \<Rightarrow> status | None \<Rightarrow> rest)))"

definition status_of_bytes :: "bytes \<Rightarrow> u16 option" where
  "status_of_bytes line = (if utf8_valid line then parse_http_status (text_of line) else None)"

text \<open>The state of \<^verbatim>\<open>measure_download\<close>; each read comes with its time, and an empty one is the end of the stream, an error or the deadline.\<close>

record Download =
  dl_total :: nat
  dl_ttfb :: "nat option"
  dl_status :: "u16 option"
  dl_line :: bytes
  dl_complete :: bool

fun position :: "('a \<Rightarrow> bool) \<Rightarrow> 'a list \<Rightarrow> nat option" where
  "position p [] = None"
| "position p (x # xs) = (if p x then Some 0 else map_option Suc (position p xs))"

definition status_step :: "bytes \<Rightarrow> Download \<Rightarrow> Download" where
  "status_step chunk d = (if dl_complete d then d
     else (let e = position ((=) 10) chunk;
         line = dl_line d @ take (min (case e of Some i \<Rightarrow> i | None \<Rightarrow> length chunk) (1024 - length (dl_line d))) chunk in
       if e \<noteq> None \<or> length line = 1024
       then d\<lparr>dl_line := line, dl_complete := True, dl_status := (if e \<noteq> None then status_of_bytes line else dl_status d)\<rparr>
       else d\<lparr>dl_line := line\<rparr>))"

fun download_loop :: "nat \<Rightarrow> (nat \<times> bytes) list \<Rightarrow> Download \<Rightarrow> Download" where
  "download_loop cap [] d = d"
| "download_loop cap ((t, chunk) # rs) d = (if dl_total d \<ge> cap \<or> chunk = [] then d
     else download_loop cap rs (status_step chunk (d\<lparr>dl_total := dl_total d + length chunk, dl_ttfb := Some (case dl_ttfb d of Some t0 \<Rightarrow> t0 | None \<Rightarrow> t)\<rparr>)))"

definition measure_download :: "nat \<Rightarrow> (nat \<times> bytes) list \<Rightarrow> nat option \<times> nat \<times> u16 option" where
  "measure_download cap reads = (let d = download_loop cap reads \<lparr>dl_total = 0, dl_ttfb = None, dl_status = None, dl_line = [], dl_complete = False\<rparr> in
     (dl_ttfb d, dl_total d, dl_status d))"

text \<open>\<^verbatim>\<open>measure_upload\<close>: the request, the sizes of the writes of the body, and the reading of the answer into a buffer of 1024 bytes.\<close>

definition crlf :: string where "crlf = [carriage_return, newline]"

definition upload_request :: "string \<Rightarrow> string \<Rightarrow> nat \<Rightarrow> string" where
  "upload_request host upload_path upload_bytes = ''POST '' @ upload_path @ '' HTTP/1.1'' @ crlf @ ''Host: '' @ host @ crlf @ ''Connection: close'' @ crlf
     @ ''User-Agent: zerodpi-scanner/0.1'' @ crlf @ ''Content-Type: application/octet-stream'' @ crlf @ ''Content-Length: '' @ show_nat upload_bytes @ crlf @ crlf"

function upload_writes :: "nat \<Rightarrow> nat \<Rightarrow> nat list" where
  "upload_writes chunk remaining = (if remaining = 0 \<or> chunk = 0 then [] else min remaining chunk # upload_writes chunk (remaining - min remaining chunk))"
  by pat_completeness auto
termination by (relation "measure snd") auto

declare upload_writes.simps [simp del]

fun read_response :: "bytes list \<Rightarrow> bytes \<Rightarrow> bytes" where
  "read_response [] response = response"
| "read_response (chunk # rs) response = (if length response \<ge> 1024 \<or> chunk = [] then response
     else (let response = response @ chunk in if 10 \<in> set response then response else read_response rs response))"

definition response_line :: "bytes \<Rightarrow> bytes" where
  "response_line response = (let line = (case position ((=) 10) response of Some i \<Rightarrow> take i response | None \<Rightarrow> response) in
     if line \<noteq> [] \<and> last line = 13 then butlast line else line)"

definition measure_upload :: "nat \<Rightarrow> bytes list \<Rightarrow> nat list \<times> bool" where
  "measure_upload upload_bytes reads = (let response = read_response reads [] in
     (upload_writes (min upload_bytes 16384) upload_bytes, response \<noteq> [] \<and> status_of_bytes (response_line response) \<noteq> None))"

section \<open>Properties of lines\<close>

lemma concat_split_inclusive [simp]: "concat (split_inclusive s) = s"
  by (induction s) (auto split: list.splits)

text \<open>What the lines of a text look like: only the last may lack its newline.\<close>

fun wf_lines :: "string list \<Rightarrow> bool" where
  "wf_lines [] = True"
| "wf_lines (l # ls) = (l \<noteq> [] \<and> newline \<notin> set (butlast l) \<and> (ls \<noteq> [] \<longrightarrow> last l = newline) \<and> wf_lines ls)"

lemma wf_split_inclusive: "wf_lines (split_inclusive s)"
  by (induction s) (auto split: list.splits)

lemma split_line:
  "l \<noteq> [] \<Longrightarrow> newline \<notin> set (butlast l) \<Longrightarrow> last l = newline \<Longrightarrow> split_inclusive (l @ s) = l # split_inclusive s"
  by (induction l) (auto split: if_splits list.splits)

lemma split_last_line: "l \<noteq> [] \<Longrightarrow> newline \<notin> set (butlast l) \<Longrightarrow> split_inclusive l = [l]"
  by (induction l) (auto split: if_splits list.splits)

lemma split_concat_lines: "wf_lines ls \<Longrightarrow> split_inclusive (concat ls) = ls"
proof (induction ls)
  case (Cons l ls)
  then show ?case using split_line [of l "concat ls"] split_last_line [of l] by (cases "ls = []") auto
qed simp

lemma dropWhile_all: "\<forall>x \<in> set m. P x \<Longrightarrow> dropWhile P m = []"
  by (simp add: dropWhile_eq_Nil_conv)

lemma trim_snoc_ws:
  assumes "is_ws c" shows "trim (l @ [c]) = trim l"
proof (cases "\<forall>x \<in> set l. is_ws x")
  case True
  then have "dropWhile is_ws (l @ [c]) = []" "dropWhile is_ws l = []" using assms by (intro dropWhile_all; simp)+
  then show ?thesis unfolding trim_def by (simp only:)
next
  case False
  then have "dropWhile is_ws (l @ [c]) = dropWhile is_ws l @ [c]" by (auto simp: dropWhile_append1)
  then show ?thesis using assms by (simp add: trim_def)
qed

lemma trim_strip_line [simp]: "trim (strip_line l) = trim l"
proof -
  have ws: "is_ws newline" "is_ws carriage_return" by code_simp+
  have "trim (butlast m) = trim m" if "m \<noteq> []" "is_ws (last m)" for m
    using trim_snoc_ws [OF that(2), of "butlast m"] that(1) by simp
  then show ?thesis using ws by (auto simp: strip_line_def Let_def)
qed

lemma entries_of_lines: "wf_lines ls \<Longrightarrow> entries_of (concat ls) = filter is_entry (map trim ls)"
  by (simp add: entries_of_def lines_of_def split_concat_lines comp_def)

section \<open>Duplicates are removed\<close>

text \<open>The specification: of the entries with the same key only the first stays; an entry without a key stays.\<close>

fun first_entries :: "(string \<Rightarrow> string option) \<Rightarrow> string list \<Rightarrow> string list \<Rightarrow> string list" where
  "first_entries entry_key seen [] = []"
| "first_entries entry_key seen (e # es) = (case entry_key e of
     Some k \<Rightarrow> if k \<in> set seen then first_entries entry_key seen es else e # first_entries entry_key (k # seen) es
   | None \<Rightarrow> e # first_entries entry_key seen es)"

definition other_lines :: "string list \<Rightarrow> string list" where
  "other_lines ls = filter (\<lambda>l. \<not> is_entry (trim l)) ls"

lemma dedup_lines_spec:
  "dedup_lines f seen ls = (kept, removed) \<Longrightarrow> filter is_entry (map trim kept) = first_entries f seen (filter is_entry (map trim ls))
     \<and> other_lines kept = other_lines ls \<and> (removed = 0 \<longrightarrow> kept = ls) \<and> (ls = [] \<longrightarrow> kept = []) \<and> (wf_lines ls \<longrightarrow> wf_lines kept)"
proof (induction ls arbitrary: seen kept removed)
  case (Cons line ls)
  let ?key = "if is_entry (trim line) then f (trim line) else None"
  obtain a ra where a: "dedup_lines f seen ls = (a, ra)" by fastforce
  note IH = Cons.IH [OF a]
  show ?case
  proof (cases ?key)
    case None
    then have "kept = line # a" "removed = ra" using Cons.prems a by simp_all
    then show ?thesis using IH None by (cases "is_entry (trim line)") (auto simp: other_lines_def)
  next
    case (Some k)
    then have k: "is_entry (trim line)" "f (trim line) = Some k" by (simp_all split: if_splits)
    obtain b rb where b: "dedup_lines f (k # seen) ls = (b, rb)" by fastforce
    show ?thesis
    proof (cases "k \<in> set seen")
      case True
      then have "kept = a" "removed = Suc ra" using Cons.prems a k by simp_all
      then show ?thesis using IH k True by (auto simp: other_lines_def)
    next
      case False
      then have "kept = line # b" "removed = rb" using Cons.prems b k by simp_all
      then show ?thesis using Cons.IH [OF b] k False by (auto simp: other_lines_def)
    qed
  qed
qed (simp add: other_lines_def)

lemma first_entries_fresh: "e \<in> set (first_entries f seen es) \<Longrightarrow> f e = Some k \<Longrightarrow> k \<notin> set seen"
  by (induction f seen es rule: first_entries.induct) (auto split: option.splits if_splits)

lemma first_entries_distinct: "distinct (map f (filter (\<lambda>e. f e \<noteq> None) (first_entries f seen es)))"
proof (induction es arbitrary: seen)
  case (Cons e es)
  show ?case
  proof (cases "f e")
    case (Some k)
    have "f e \<notin> f ` set (first_entries f (k # seen) es)" using first_entries_fresh [of _ f "k # seen" es k] Some by force
    then show ?thesis using Cons Some by auto
  qed (use Cons in simp)
qed simp

lemma dedup_again:
  "dedup_lines f seen ls = (kept, removed) \<Longrightarrow> dedup_lines f seen kept = (kept, 0)"
proof (induction ls arbitrary: seen kept removed)
  case (Cons line ls)
  obtain a ra where a: "dedup_lines f seen ls = (a, ra)" by fastforce
  show ?case
  proof (cases "if is_entry (trim line) then f (trim line) else None")
    case None
    then show ?thesis using Cons.IH [OF a] Cons.prems a by auto
  next
    case (Some k)
    obtain b rb where b: "dedup_lines f (k # seen) ls = (b, rb)" by fastforce
    show ?thesis using Some Cons.IH [OF a] Cons.IH [OF b] Cons.prems a b by (cases "k \<in> set seen") auto
  qed
qed simp

text \<open>
  Preparing a scan list removes exactly the repeated entries: the entries of the prepared text are the entries of the file of which no earlier one
  has the same key, in their order; comments, blank lines and entries without a key stay as they are; the keys are distinct afterwards, and preparing
  the text again changes nothing. A file whose replacement fails is left as it was, and the scan ends with an error.
\<close>

theorem scan_list_deduplicated:
  assumes "read_scan_list True f replaced (Some content) = (result, file)"
  shows "(case result of None \<Rightarrow> \<not> replaced \<and> file = Some content
    | Some cleaned \<Rightarrow> file = Some cleaned \<and> entries_of cleaned = first_entries f [] (entries_of content)
        \<and> other_lines (split_inclusive cleaned) = other_lines (split_inclusive content)
        \<and> distinct (map f (filter (\<lambda>e. f e \<noteq> None) (entries_of cleaned)))
        \<and> read_scan_list True f replaced (Some cleaned) = (Some cleaned, Some cleaned))"
proof -
  obtain kept removed where d: "dedup_lines f [] (split_inclusive content) = (kept, removed)" by fastforce
  note spec = dedup_lines_spec [OF d]
  have wf: "wf_lines kept" using spec wf_split_inclusive by blast
  have entries: "entries_of (concat kept) = first_entries f [] (entries_of content)"
    using spec entries_of_lines [OF wf] entries_of_lines [OF wf_split_inclusive, of content] by simp
  have again: "read_scan_list True f replaced (Some (concat kept)) = (Some (concat kept), Some (concat kept))"
    using dedup_again [OF d] by (simp add: read_scan_list_def split_concat_lines [OF wf] Let_def)
  have same: "removed = 0 \<Longrightarrow> concat kept = content" using spec by simp
  have r: "(result, file) = (if removed > 0 then (if replaced then (Some (concat kept), Some (concat kept)) else (None, Some content)) else (Some (concat kept), Some content))"
    using assms d by (simp add: read_scan_list_def Let_def)
  have "file = Some cleaned \<and> cleaned = concat kept" if "result = Some cleaned" for cleaned
    using r that same by (auto split: if_splits)
  moreover have "other_lines (split_inclusive (concat kept)) = other_lines (split_inclusive content)" using spec split_concat_lines [OF wf] by simp
  ultimately show ?thesis using entries again first_entries_distinct [of f "[]" "entries_of content"] r
    by (cases result) (auto simp del: split_paired_All split: if_splits)
qed

theorem scan_list_deduplicated_witness:
  "read_scan_list True hostname_key True (Some (''a.com'' @ [newline] @ ''#x'' @ [newline] @ ''A.com''))
     = (Some (''a.com'' @ [newline] @ ''#x'' @ [newline]), Some (''a.com'' @ [newline] @ ''#x'' @ [newline]))
   \<and> distinct (map hostname_key (filter (\<lambda>e. hostname_key e \<noteq> None) (entries_of (''a.com'' @ [newline] @ ''#x'' @ [newline]))))"
proof -
  have r: "read_scan_list True hostname_key True (Some (''a.com'' @ [newline] @ ''#x'' @ [newline] @ ''A.com''))
     = (Some (''a.com'' @ [newline] @ ''#x'' @ [newline]), Some (''a.com'' @ [newline] @ ''#x'' @ [newline]))" by code_simp
  note t = scan_list_deduplicated [OF r, unfolded option.case]
  show ?thesis by (intro conjI r) (rule t [THEN conjunct2, THEN conjunct2, THEN conjunct2, THEN conjunct1])
qed

section \<open>Measurements\<close>

lemma position_None: "position p xs = None \<longleftrightarrow> (\<forall>x \<in> set xs. \<not> p x)"
  by (induction xs) auto

lemma position_append: "\<forall>x \<in> set xs. \<not> p x \<Longrightarrow> p y \<Longrightarrow> position p (xs @ y # ys) = Some (length xs)"
  by (induction xs) auto

lemma line_position: "(10 :: u8) \<notin> set bs \<Longrightarrow> position ((=) 10) (bs @ 10 # ys) = Some (length bs)"
  by (rule position_append) auto

lemma download_complete: "dl_complete d \<Longrightarrow> dl_status (download_loop cap rs d) = dl_status d"
proof (induction cap rs d rule: download_loop.induct)
  case (2 cap t chunk rs d)
  then show ?case by (simp add: status_step_def)
qed simp

lemma first_split: "xs @ x # ys = xs' @ x # ys' \<Longrightarrow> x \<notin> set xs \<Longrightarrow> x \<notin> set xs' \<Longrightarrow> xs = xs' \<and> ys = ys'"
proof (induction xs arbitrary: xs')
  case Nil
  then show ?case by (cases xs') auto
next
  case (Cons a xs)
  then show ?case by (cases xs') auto
qed

lemma no_newline_prefix:
  assumes "xs @ zs = line @ x # rest" "x \<notin> set xs" shows "length xs \<le> length line"
proof (rule ccontr)
  assume "\<not> length xs \<le> length line"
  then have "xs ! length line = (xs @ zs) ! length line" "length line < length xs" by (simp_all add: nth_append)
  then have "x \<in> set xs" unfolding assms(1) by (metis nth_append_length nth_mem)
  then show False using assms(2) by blast
qed

lemma status_step_found:
  assumes "\<not> dl_complete d" "dl_line d @ chunk = line @ 10 # rest" "10 \<notin> set line" "length line < 1024" "10 \<notin> set (dl_line d)"
  shows "dl_complete (status_step chunk d) \<and> dl_status (status_step chunk d) = status_of_bytes line"
proof -
  have "10 \<in> set (dl_line d @ chunk)" unfolding assms(2) by simp
  then obtain pre post where c: "chunk = pre @ 10 # post" "10 \<notin> set pre" using assms(5) by (auto dest: split_list_first)
  then have pre: "line = dl_line d @ pre" "chunk = pre @ 10 # rest"
    using first_split [of "dl_line d @ pre" 10 post line rest] assms(2, 3, 5) by auto
  then have "position ((=) 10) chunk = Some (length pre)" using assms(3) by (auto intro: position_append)
  then show ?thesis using assms(1, 4) pre by (simp add: status_step_def Let_def)
qed

lemma status_step_more:
  assumes "\<not> dl_complete d" "10 \<notin> set chunk" "length (dl_line d @ chunk) < 1024"
  shows "status_step chunk d = d\<lparr>dl_line := dl_line d @ chunk\<rparr>"
proof -
  have "position ((=) 10) chunk = None" using assms(2) by (auto simp: position_None)
  then show ?thesis using assms(1, 3) by (simp add: status_step_def Let_def)
qed

lemma download_status_chunks:
  "\<lbrakk>\<not> dl_complete d; dl_line d @ concat (map snd rs) = line @ 10 # rest; 10 \<notin> set line; length line < 1024; 10 \<notin> set (dl_line d); \<forall>r \<in> set rs. snd r \<noteq> [];
    dl_total d + length (concat (map snd rs)) \<le> cap\<rbrakk> \<Longrightarrow> dl_status (download_loop cap rs d) = status_of_bytes line"
proof (induction rs arbitrary: d)
  case Nil
  then show ?case by (metis append_Nil2 concat.simps(1) in_set_conv_decomp list.simps(8))
next
  case (Cons r rs)
  obtain t chunk where r: "r = (t, chunk)" by fastforce
  let ?d = "d\<lparr>dl_total := dl_total d + length chunk, dl_ttfb := Some (case dl_ttfb d of Some t0 \<Rightarrow> t0 | None \<Rightarrow> t)\<rparr>"
  have loop: "download_loop cap (r # rs) d = download_loop cap rs (status_step chunk ?d)" using Cons.prems r by (cases chunk) auto
  show ?case
  proof (cases "10 \<in> set chunk")
    case True
    then obtain pre post where "chunk = pre @ 10 # post" "10 \<notin> set pre" by (meson split_list_first)
    then have "dl_line d @ chunk = line @ 10 # post"
      using first_split [of "dl_line d @ pre" 10 "post @ concat (map snd rs)" line rest] Cons.prems(2, 3, 5) r by auto
    then have "dl_complete (status_step chunk ?d) \<and> dl_status (status_step chunk ?d) = status_of_bytes line"
      using Cons.prems by (intro status_step_found) auto
    then show ?thesis using loop download_complete by simp
  next
    case False
    have "length (dl_line d @ chunk) \<le> length line"
      using no_newline_prefix [of "dl_line d @ chunk" "concat (map snd rs)" line 10 rest] False Cons.prems(2, 5) r by simp
    then have step: "status_step chunk ?d = ?d\<lparr>dl_line := dl_line d @ chunk\<rparr>" using False Cons.prems by (subst status_step_more) auto
    show ?thesis unfolding loop step using Cons.prems r False by (intro Cons.IH) auto
  qed
qed

text \<open>
  The status of a download does not depend on how the response is cut into reads: whenever the first line is shorter than the buffer of 1024 bytes and
  lies within the amount to download, the result is the status of that line, and the first read gives the time to the first byte.
\<close>

theorem download_status_of_first_line:
  assumes "concat (map snd reads) = line @ 10 # rest" "10 \<notin> set line" "length line < 1024" "\<forall>r \<in> set reads. snd r \<noteq> []" "length (concat (map snd reads)) \<le> cap"
  shows "snd (snd (measure_download cap reads)) = (if utf8_valid line then parse_http_status (text_of line) else None)"
  using download_status_chunks [of "\<lparr>dl_total = 0, dl_ttfb = None, dl_status = None, dl_line = [], dl_complete = False\<rparr>" reads line rest cap] assms
  by (simp add: measure_download_def Let_def status_of_bytes_def)

definition bytes_of :: "string \<Rightarrow> bytes" where
  "bytes_of s = map (\<lambda>c. word_of_nat (of_char c)) s"

theorem download_status_of_first_line_witness:
  "snd (snd (measure_download 100 [(3, bytes_of ''HTTP/1.1 2''), (5, bytes_of ''04 No'' @ [13, 10, 13]), (6, [10])])) = Some 204"
proof -
  have "lines_of (text_of (bytes_of ''HTTP/1.1 204 No'' @ [13])) = [''HTTP/1.1 204 No'' @ [carriage_return]]"
    "split_once (CHR '' '') (''HTTP/1.1 204 No'' @ [carriage_return]) = Some (''HTTP/1.1'', ''204 No'' @ [carriage_return])"
    "split_once (CHR '' '') (''204 No'' @ [carriage_return]) = Some (''204'', ''No'' @ [carriage_return])" by code_simp+
  moreover have "parse_u16 ''204'' = Some 204" by (simp add: parse_u16_def parse_u32_def parse_nat_def digit_val_def)
  ultimately have s: "parse_http_status (text_of (bytes_of ''HTTP/1.1 204 No'' @ [13])) = Some 204" by (simp add: parse_http_status_def)
  have l: "utf8_valid (bytes_of ''HTTP/1.1 204 No'' @ [13])" by code_simp
  let ?reads = "[(3, bytes_of ''HTTP/1.1 2''), (5, bytes_of ''04 No'' @ [13, 10, 13]), (6, [10])] :: (nat \<times> bytes) list"
  have c: "concat (map snd ?reads) = (bytes_of ''HTTP/1.1 204 No'' @ [13]) @ 10 # [13, 10]" by code_simp
  have h: "10 \<notin> set (bytes_of ''HTTP/1.1 204 No'' @ [13])" "length (bytes_of ''HTTP/1.1 204 No'' @ [13]) < 1024" "\<forall>r \<in> set ?reads. snd r \<noteq> []"
    "length (concat (map snd ?reads)) \<le> 100" by code_simp+
  show ?thesis unfolding download_status_of_first_line [OF c h] by (simp only: l s if_True)
qed


lemma upload_writes_0 [simp]: "upload_writes chunk 0 = []"
  by (subst upload_writes.simps) simp

lemma upload_writes_sum: "0 < chunk \<Longrightarrow> sum_list (upload_writes chunk n) = n \<and> (\<forall>w \<in> set (upload_writes chunk n). 0 < w \<and> w \<le> chunk)"
proof (induction chunk n rule: upload_writes.induct)
  case (1 chunk n)
  show ?case
  proof (cases "n = 0")
    case False
    then have eq: "upload_writes chunk n = min n chunk # upload_writes chunk (n - min n chunk)" using 1(2) by (subst upload_writes.simps) simp
    have IH: "sum_list (upload_writes chunk (n - min n chunk)) = n - min n chunk
      \<and> (\<forall>w \<in> set (upload_writes chunk (n - min n chunk)). 0 < w \<and> w \<le> chunk)" by (rule "1.IH") (use 1(2) False in simp_all)
    have "0 < min n chunk" "min n chunk \<le> chunk" "min n chunk + (n - min n chunk) = n" using 1(2) False by auto
    then show ?thesis unfolding eq using IH by (simp only: sum_list.Cons list.set ball_simps simp_thms) blast
  qed simp
qed

lemma upload_body_complete: "sum_list (fst (measure_upload n reads)) = n"
proof (cases "n = 0")
  case False
  then have "0 < min n 16384" by simp
  then have "sum_list (upload_writes (min n 16384) n) = n" by (rule upload_writes_sum [THEN conjunct1])
  then show ?thesis by (simp only: measure_upload_def Let_def fst_conv)
qed (simp add: measure_upload_def Let_def)

section \<open>Custom name servers\<close>

definition no_v4_answer :: "IpAddr list option \<Rightarrow> bool" where
  "no_v4_answer a = (case a of None \<Rightarrow> True | Some ips \<Rightarrow> only_v4 ips = [])"

lemma ask_servers_first: "ask_servers answer ss = (r, asked) \<Longrightarrow> (case r of
     None \<Rightarrow> asked = ss \<and> (\<forall>s \<in> set ss. no_v4_answer (answer s))
   | Some ips \<Rightarrow> \<exists>before s rest a. ss = before @ s # rest \<and> asked = before @ [s] \<and> (\<forall>b \<in> set before. no_v4_answer (answer b))
       \<and> answer s = Some a \<and> ips = only_v4 a \<and> ips \<noteq> [])"
proof (induction ss arbitrary: r asked)
  case (Cons s ss)
  obtain r' asked' where rec: "ask_servers answer ss = (r', asked')" by fastforce
  show ?case
  proof (cases "no_v4_answer (answer s)")
    case False
    then obtain a where "answer s = Some a" "only_v4 a \<noteq> []" by (auto simp: no_v4_answer_def split: option.splits)
    then show ?thesis using Cons.prems by (auto intro!: exI [of _ "[]"])
  next
    case True
    then have "(r, asked) = (r', s # asked')" using Cons.prems rec by (auto simp: no_v4_answer_def split: option.splits)
    then show ?thesis using Cons.IH [OF rec] True
      by (auto split: option.splits)
  qed
qed auto

lemma custom_dns_only_custom: "ss \<noteq> [] \<Longrightarrow> lookup_ipv4 ss answer system = lookup_ipv4 ss answer system' \<and> \<not> snd (lookup_ipv4 ss answer system)"
  by (simp add: lookup_ipv4_def)

section \<open>A status line without a reason\<close>

lemma text_of_bytes_of: "text_of (bytes_of s) = s"
proof -
  have "char_of (unat (word_of_nat (of_char c) :: u8)) = c" for c
  proof -
    have "of_char c < (256 :: nat)" by simp
    then show ?thesis by (simp add: unat_of_nat)
  qed
  then show ?thesis by (simp add: text_of_def bytes_of_def comp_def)
qed

lemma utf8_ascii: "\<forall>b \<in> set bs. b < 0x80 \<Longrightarrow> utf8_valid bs"
  by (induction bs) auto

lemma digit_char: "digit_val c \<noteq> None \<Longrightarrow> 48 \<le> (of_char c :: nat) \<and> (of_char c :: nat) \<le> 57"
  by (simp add: digit_val_def Let_def split: if_splits)

lemma digit_byte:
  assumes "digit_val c \<noteq> None" shows "(word_of_nat (of_char c) :: u8) < 0x80" "(word_of_nat (of_char c) :: u8) \<noteq> 10" "c \<noteq> newline" "c \<noteq> CHR '' ''"
proof -
  have u: "unat (word_of_nat (of_char c) :: u8) = of_char c" using digit_char [OF assms] by (simp add: unat_of_nat)
  show "(word_of_nat (of_char c) :: u8) < 0x80" using u digit_char [OF assms] by (simp add: word_less_nat_alt)
  show "(word_of_nat (of_char c) :: u8) \<noteq> 10" using u digit_char [OF assms] by auto
  show "c \<noteq> newline" "c \<noteq> CHR '' ''" using digit_char [OF assms] by (auto simp: newline_def)
qed

lemma parse_digits_bad: "digit_val c = None \<Longrightarrow> parse_digits acc (xs @ [c]) = None"
  by (induction xs arbitrary: acc) (auto split: option.splits)

lemma parse_u16_show: "n < 65536 \<Longrightarrow> parse_u16 (show_nat n) = Some (word_of_nat n)"
proof -
  assume n: "n < 65536"
  obtain c cs where c: "show_nat n = c # cs" by (cases "show_nat n") auto
  then have "c \<noteq> CHR ''+''" using digit_not_ws show_nat_digits [of c n] by auto
  then show ?thesis using n c parse_nat_show [of n] by (simp add: parse_u16_def parse_u32_def)
qed

lemma parse_u16_cr: "parse_u16 (show_nat n @ [carriage_return]) = None"
proof -
  obtain c cs where c: "show_nat n = c # cs" by (cases "show_nat n") auto
  then have "c \<noteq> CHR ''+''" using digit_not_ws show_nat_digits [of c n] by auto
  moreover have "digit_val carriage_return = None" by code_simp
  then have "parse_nat (show_nat n @ [carriage_return]) = None" by (simp add: parse_nat_def parse_digits_bad)
  ultimately show ?thesis using c by (simp add: parse_u16_def parse_u32_def)
qed

text \<open>A line ''HTTP/1.1'', a space and \<open>x\<close> without a space or newline.\<close>

lemma status_of_line:
  assumes "newline \<notin> set x" "CHR '' '' \<notin> set x"
  shows "parse_http_status (''HTTP/1.1 '' @ x) = parse_u16 x"
proof -
  have "newline \<notin> set ''HTTP/1.1 ''" by code_simp
  then have nl: "newline \<notin> set (''HTTP/1.1 '' @ x)" using assms(1) unfolding set_append by blast
  then have "split_inclusive (''HTTP/1.1 '' @ x) = [''HTTP/1.1 '' @ x]" by (intro split_last_line) (auto dest: in_set_butlastD)
  moreover have "strip_line (''HTTP/1.1 '' @ x) = ''HTTP/1.1 '' @ x" using nl last_in_set [of "''HTTP/1.1 '' @ x"] by (auto simp: strip_line_def)
  moreover have "split_once (CHR '' '') (''HTTP/1.1 '' @ x) = Some (''HTTP/1.1'', x)" by simp
  ultimately show ?thesis using split_once_None [OF assms(2)] by (simp add: parse_http_status_def lines_of_def)
qed

lemma bytes_of_cr: "bytes_of s @ [13] = bytes_of (s @ [carriage_return])"
proof -
  have "word_of_nat (of_char carriage_return) = (13 :: u8)" by code_simp
  then show ?thesis by (simp add: bytes_of_def)
qed

lemma status_line_bytes: "utf8_valid (bytes_of (''HTTP/1.1 '' @ show_nat n))" "10 \<notin> set (bytes_of (''HTTP/1.1 '' @ show_nat n))"
    "utf8_valid (bytes_of (''HTTP/1.1 '' @ show_nat n @ [carriage_return]))"
proof -
  have p: "\<forall>b \<in> set (bytes_of ''HTTP/1.1 ''). b < 0x80 \<and> b \<noteq> 10" "word_of_nat (of_char carriage_return) < (0x80 :: u8)" by code_simp+
  have d: "\<forall>b \<in> set (bytes_of (show_nat n)). b < 0x80 \<and> b \<noteq> 10" using digit_byte show_nat_digits by (auto simp: bytes_of_def)
  have split: "bytes_of (xs @ ys) = bytes_of xs @ bytes_of ys" for xs ys by (simp add: bytes_of_def)
  have cr: "bytes_of [carriage_return] = [word_of_nat (of_char carriage_return)]" by (simp add: bytes_of_def)
  show "utf8_valid (bytes_of (''HTTP/1.1 '' @ show_nat n))" unfolding split using p d by (intro utf8_ascii) (simp only: set_append, blast)
  show "10 \<notin> set (bytes_of (''HTTP/1.1 '' @ show_nat n))" unfolding split using p d by (simp only: set_append) blast
  show "utf8_valid (bytes_of (''HTTP/1.1 '' @ show_nat n @ [carriage_return]))" unfolding split cr using p d
    by (intro utf8_ascii) (simp only: set_append list.set ball_Un, blast)
qed

lemma show_nat_length: "n < 10 ^ k \<Longrightarrow> 0 < k \<Longrightarrow> length (show_nat n) \<le> k"
proof (induction k arbitrary: n)
  case (Suc k)
  show ?case
  proof (cases "n < 10")
    case False
    then have "0 < k" using Suc.prems by (cases k) auto
    moreover have "n div 10 < 10 ^ k" using Suc.prems(1) by (simp add: div_less_iff_less_mult mult.commute)
    ultimately show ?thesis using Suc.IH [of "n div 10"] False by (simp add: show_nat.simps [of n])
  qed (simp add: show_nat.simps [of n])
qed simp

text \<open>
  A status line without a reason phrase is read in two ways: the download sample keeps the carriage return and finds no status, while the upload sample of the
  same response strips it and counts the response as an answer.
\<close>

theorem status_without_reason_lost:
  assumes "n < 65536" "16 \<le> cap"
  shows "snd (snd (measure_download cap [(t, bytes_of (''HTTP/1.1 '' @ show_nat n) @ [13, 10])])) = None
    \<and> snd (measure_upload u [bytes_of (''HTTP/1.1 '' @ show_nat n) @ [13, 10]])"
proof
  let ?s = "''HTTP/1.1 '' @ show_nat n"
  have x: "newline \<notin> set (show_nat n)" "CHR '' '' \<notin> set (show_nat n)" using digit_byte show_nat_digits by blast+
  have cr: "carriage_return \<noteq> newline" "carriage_return \<noteq> CHR '' ''" by code_simp+
  have len: "length (show_nat n) \<le> 5" using show_nat_length [of n 5] assms(1) by simp
  then have l: "length (bytes_of ?s @ [13]) < 1024" "length (bytes_of ?s @ [13, 10]) \<le> cap" using assms(2) by (simp_all add: bytes_of_def)
  have none: "parse_http_status (text_of (bytes_of ?s @ [13])) = None"
    unfolding bytes_of_cr text_of_bytes_of append_assoc using status_of_line [of "show_nat n @ [carriage_return]"] x cr parse_u16_cr by simp
  have nl: "(10 :: u8) \<notin> set (bytes_of ?s @ [13])" using status_line_bytes(2) [of n] by simp
  have "dl_status (download_loop cap [(t, bytes_of ?s @ [13, 10])] \<lparr>dl_total = 0, dl_ttfb = None, dl_status = None, dl_line = [], dl_complete = False\<rparr>)
      = status_of_bytes (bytes_of ?s @ [13])"
    using nl l by (intro download_status_chunks [where rest = "[]"]) simp_all
  then show "snd (snd (measure_download cap [(t, bytes_of ?s @ [13, 10])])) = None"
    using none by (simp add: measure_download_def Let_def status_of_bytes_def del: append_assoc)
  have "position ((=) 10) (bytes_of ?s @ [13, 10]) = Some (length (bytes_of ?s @ [13]))"
    using line_position [OF nl, of "[]"] by simp
  then have "response_line (bytes_of ?s @ [13, 10]) = bytes_of ?s" by (simp add: response_line_def Let_def)
  moreover have "status_of_bytes (bytes_of ?s) \<noteq> None"
    using status_line_bytes(1) [of n] status_of_line [OF x] parse_u16_show [OF assms(1)] unfolding status_of_bytes_def text_of_bytes_of by simp
  ultimately show "snd (measure_upload u [bytes_of ?s @ [13, 10]])" by (simp add: measure_upload_def Let_def)
qed

theorem status_without_reason_lost_witness:
  "snd (snd (measure_download 10240 [(4, bytes_of (''HTTP/1.1 '' @ show_nat 200) @ [13, 10])])) = None
    \<and> snd (measure_upload 10240 [bytes_of (''HTTP/1.1 '' @ show_nat 200) @ [13, 10]])"
  by (rule status_without_reason_lost) simp_all

end
