(* ===== verification/Config_Addresses.thy ===== *)
theory Config_Addresses
  imports Scan_List
begin

text \<open>
  The checks of the configuration that parse addresses, src/crates/zerodpi-core/src/config.rs: the DNS servers and the selected address. The
  parsers of the standard library for socket and IP addresses are arguments; with these two checks the model of \<^verbatim>\<open>validate\<close> is complete.
\<close>

datatype AddressError = DnsServersEmpty | DnsServer nat DnsServerError | SelectedIpInvalid string | SelectedIpV6 string

fun parse_servers :: "(string \<Rightarrow> DnsServerError + 'a) \<Rightarrow> nat \<Rightarrow> string list \<Rightarrow> AddressError + 'a list" where
  "parse_servers p i [] = Inr []"
| "parse_servers p i (s # ss) = (case p s of Inl e \<Rightarrow> Inl (DnsServer i e)
     | Inr a \<Rightarrow> (case parse_servers p (Suc i) ss of Inl e \<Rightarrow> Inl e | Inr as \<Rightarrow> Inr (a # as)))"

definition custom_dns_servers :: "(string \<Rightarrow> (IpAddr \<times> u16) option) \<Rightarrow> (string \<Rightarrow> IpAddr option) \<Rightarrow> Config \<Rightarrow> AddressError + (IpAddr \<times> u16) list" where
  "custom_dns_servers socket_addr ip_addr c = (if \<not> CUSTOM_DNS_ENABLED c then Inr []
     else if CUSTOM_DNS_SERVERS c = [] then Inl DnsServersEmpty
     else parse_servers (parse_custom_dns_server socket_addr ip_addr) 0 (CUSTOM_DNS_SERVERS c))"

text \<open>\<open>selected_ip\<close> is the field \<^verbatim>\<open>SELECTED_IP\<close>.\<close>

definition validate_selected_ip :: "(string \<Rightarrow> IpAddr option) \<Rightarrow> string option \<Rightarrow> Config \<Rightarrow> AddressError option" where
  "validate_selected_ip ip_addr selected_ip c = (case selected_ip of None \<Rightarrow> None
   | Some s \<Rightarrow> (case ip_addr s of None \<Rightarrow> Some (SelectedIpInvalid s)
     | Some (V6 _) \<Rightarrow> if MODE c = ''ip_bypass_plus'' then Some (SelectedIpV6 s) else None
     | Some (V4 _) \<Rightarrow> None))"

text \<open>\<^verbatim>\<open>Config::validate\<close>: the checks in the order of the source.\<close>

definition lift_error :: "ConfigError option \<Rightarrow> (ConfigError + AddressError) option" where
  "lift_error e = map_option Inl e"

fun first_failure :: "'e option list \<Rightarrow> 'e option" where
  "first_failure [] = None"
| "first_failure (c # cs) = (case c of Some e \<Rightarrow> Some e | None \<Rightarrow> first_failure cs)"

definition validate :: "nat \<Rightarrow> (string \<Rightarrow> (IpAddr \<times> u16) option) \<Rightarrow> (string \<Rightarrow> IpAddr option) \<Rightarrow> string option \<Rightarrow> Config
    \<Rightarrow> (ConfigError + AddressError) option" where
  "validate max_permits socket_addr ip_addr selected_ip c = first_failure [
     lift_error (validate_caps max_permits c),
     (case custom_dns_servers socket_addr ip_addr c of Inl e \<Rightarrow> Some (Inr e) | Inr _ \<Rightarrow> None),
     lift_error (validate_scan c), lift_error (validate_methods c), lift_error (validate_interceptor_params c),
     lift_error (validate_seqovl_pattern c), lift_error (validate_socket_params c), lift_error (validate_mode c),
     map_option Inr (validate_selected_ip ip_addr selected_ip c)]"

lemma parse_servers_Inr:
  "parse_servers p i ss = Inr as \<longleftrightarrow> list_all2 (\<lambda>s a. p s = Inr a) ss as"
  by (induction p i ss arbitrary: as rule: parse_servers.induct) (auto split: sum.splits simp: list_all2_Cons1)

text \<open>The first server that does not parse is the one that is reported.\<close>

lemma parse_servers_Inl:
  assumes "parse_servers p i ss = Inl e"
  shows "\<exists>j d. e = DnsServer (i + j) d \<and> j < length ss \<and> p (ss ! j) = Inl d \<and> (\<forall>k < j. \<exists>a. p (ss ! k) = Inr a)"
  using assms
proof (induction p i ss rule: parse_servers.induct)
  case (2 p i s ss)
  show ?case
  proof (cases "p s")
    case (Inl d)
    then show ?thesis using 2(2) by (intro exI [of _ 0]) auto
  next
    case (Inr a)
    then have "parse_servers p (Suc i) ss = Inl e" using 2(2) by (auto split: sum.splits)
    then obtain j d where "e = DnsServer (Suc i + j) d" "j < length ss" "p (ss ! j) = Inl d" "\<forall>k < j. \<exists>a. p (ss ! k) = Inr a"
      using 2(1) Inr by blast
    moreover have "\<exists>a. p ((s # ss) ! k) = Inr a" if "k < Suc j" for k using that calculation(4) Inr by (cases k) auto
    ultimately show ?thesis by (intro exI [of _ "Suc j"] exI [of _ d]) auto
  qed
qed simp

lemma validate_None:
  "validate max_permits socket_addr ip_addr selected_ip c = None \<longleftrightarrow> validate_caps max_permits c = None
     \<and> (\<exists>as. custom_dns_servers socket_addr ip_addr c = Inr as) \<and> validate_scan c = None \<and> validate_methods c = None
     \<and> validate_interceptor_params c = None \<and> validate_seqovl_pattern c = None \<and> validate_socket_params c = None \<and> validate_mode c = None
     \<and> validate_selected_ip ip_addr selected_ip c = None"
  by (auto simp: validate_def lift_error_def split: option.splits sum.splits)

text \<open>The default configuration is accepted, whatever the address parsers do.\<close>

lemma default_config_accepted:
  "128 \<le> max_permits \<Longrightarrow> validate max_permits socket_addr ip_addr None (default_config port) = None"
  using default_config_valid [of max_permits port]
  by (simp add: validate_None custom_dns_servers_def validate_selected_ip_def default_config_def)

text \<open>
  The effective DNS servers: in the configured order, one address with a port other than zero for each entry, and none at all when the option is off.
  An accepted configuration never asks a server with port zero, provided the parser of the library is not at fault.
\<close>

theorem custom_dns_servers_usable:
  assumes "custom_dns_servers socket_addr ip_addr c = Inr as"
  shows "(CUSTOM_DNS_ENABLED c \<longrightarrow> as \<noteq> [] \<and> length as = length (CUSTOM_DNS_SERVERS c)) \<and> (\<not> CUSTOM_DNS_ENABLED c \<longrightarrow> as = []) \<and> (\<forall>a \<in> set as. snd a \<noteq> 0)"
proof (cases "CUSTOM_DNS_ENABLED c")
  case True
  then have l: "list_all2 (\<lambda>s a. parse_custom_dns_server socket_addr ip_addr s = Inr a) (CUSTOM_DNS_SERVERS c) as" "CUSTOM_DNS_SERVERS c \<noteq> []"
    using assms by (auto simp: custom_dns_servers_def parse_servers_Inr split: if_splits)
  have port: "snd a \<noteq> 0" if "parse_custom_dns_server socket_addr ip_addr s = Inr a" for s a
    using that by (auto simp: parse_custom_dns_server_def DEFAULT_DNS_PORT_def Let_def split: if_splits option.splits)
  have "snd (as ! i) \<noteq> 0" if "i < length as" for i
    using list_all2_nthD2 [OF l(1) that] by (rule port)
  then have "\<forall>a \<in> set as. snd a \<noteq> 0" by (metis in_set_conv_nth)
  then show ?thesis using True l list_all2_lengthD [OF l(1)] by auto
qed (use assms in \<open>simp add: custom_dns_servers_def\<close>)

end
