(* ===== verification/Scanner.thy ===== *)
theory Scanner
  imports Scan_List "HOL-Library.Product_Lexorder" "HOL-Library.Multiset"
begin

text \<open>
  The two scanners (sni\_scanner.rs, ip\_scanner.rs): one probe of a name at an address, one probe of an address, the pipelines that run probes in
  parallel, and the ranking. The score is an argument: it is a sum of floating-point quotients. Of an entry the fields of the pool's model appear,
  and the measurements behind its score. A run is the list of the completed tasks in the order in which they finish.
\<close>

section \<open>Probes\<close>

text \<open>What a probe has measured, with the rates as values of an unspecified type.\<close>

record 'f Measures =
  ms_tls_ok :: bool
  ms_tls_latency :: "u64 option"
  ms_cert_valid :: bool
  ms_ttfb :: "u64 option"
  ms_download :: "'f option"
  ms_upload :: "'f option"
  ms_status :: "u16 option"

definition no_measures :: "'f Measures" where
  "no_measures = \<lparr>ms_tls_ok = False, ms_tls_latency = None, ms_cert_valid = False, ms_ttfb = None, ms_download = None, ms_upload = None, ms_status = None\<rparr>"

type_synonym 'f score_fn = "u64 option \<Rightarrow> 'f Measures \<Rightarrow> u8"

text \<open>
  The answers of the network to one probe: the time of the TCP connect, whether the name is a valid server name, the time of the TLS handshake, whether the
  request could be written, and the results of the two samples.
\<close>

record 'f ProbeNet =
  pn_tcp :: "u64 option"
  pn_name_ok :: bool
  pn_tls :: "u64 option"
  pn_request_ok :: bool
  pn_sample :: "u64 option \<times> 'f option \<times> u16 option"
  pn_upload :: "'f option"

definition http_phase :: "'f ProbeNet \<Rightarrow> u64 \<Rightarrow> 'f Measures" where
  "http_phase a tls = (let (ttfb, download, status) = (if pn_request_ok a then pn_sample a else (None, None, None)) in
     \<lparr>ms_tls_ok = True, ms_tls_latency = Some tls, ms_cert_valid = True, ms_ttfb = ttfb, ms_download = download,
      ms_upload = (if ttfb \<noteq> None then pn_upload a else None), ms_status = status\<rparr>)"

definition sni_measures :: "'f ProbeNet \<Rightarrow> 'f Measures" where
  "sni_measures a = (if pn_tcp a = None \<or> \<not> pn_name_ok a then no_measures
     else (case pn_tls a of None \<Rightarrow> no_measures | Some tls \<Rightarrow> http_phase a tls))"

definition probe_sni_ip :: "'f score_fn \<Rightarrow> string \<Rightarrow> ipv4 \<Rightarrow> 'f ProbeNet \<Rightarrow> SniProbeEntry" where
  "probe_sni_ip score sni ip a = \<lparr>se_sni = sni, se_ip = ip, se_tcp_latency_ms = pn_tcp a, se_score = score (pn_tcp a) (sni_measures a)\<rparr>"

definition tcp_only_entry :: "'f score_fn \<Rightarrow> IpAddr \<Rightarrow> u64 option \<Rightarrow> IpProbeEntry" where
  "tcp_only_entry score ip tcp = \<lparr>ie_ip = ip, ie_tcp_latency_ms = tcp, ie_score = score tcp no_measures\<rparr>"

text \<open>The second connection of an address probe; \<open>pn_tcp\<close> is here the answer to the second connect.\<close>

definition probe_tls_ttfb :: "'f score_fn \<Rightarrow> IpAddr \<Rightarrow> u64 \<Rightarrow> 'f ProbeNet \<Rightarrow> IpProbeEntry" where
  "probe_tls_ttfb score ip tcp a = (if pn_tcp a = None \<or> \<not> pn_name_ok a then tcp_only_entry score ip (Some tcp)
     else (case pn_tls a of None \<Rightarrow> tcp_only_entry score ip (Some tcp)
       | Some tls \<Rightarrow> \<lparr>ie_ip = ip, ie_tcp_latency_ms = Some tcp, ie_score = score (Some tcp) (http_phase a tls)\<rparr>))"

definition probe_ip_candidate :: "'f score_fn \<Rightarrow> IpAddr \<Rightarrow> u64 option \<Rightarrow> 'f ProbeNet \<Rightarrow> IpProbeEntry" where
  "probe_ip_candidate score ip tcp a = (case tcp of Some ms \<Rightarrow> probe_tls_ttfb score ip ms a | None \<Rightarrow> tcp_only_entry score ip None)"

section \<open>Ranking\<close>

definition latency_rank :: "u64 option \<Rightarrow> nat" where
  "latency_rank l = (case l of Some ms \<Rightarrow> unat ms | None \<Rightarrow> 2 ^ 64 - 1)"

definition score_rank :: "u8 \<Rightarrow> nat" where
  "score_rank s = 255 - unat s"

definition rank_sni :: "SniProbeEntry list \<Rightarrow> SniProbeEntry list" where
  "rank_sni = sort_key (\<lambda>e. (score_rank (se_score e), latency_rank (se_tcp_latency_ms e)))"

definition rank_ip :: "IpProbeEntry list \<Rightarrow> IpProbeEntry list" where
  "rank_ip = sort_key (\<lambda>e. (score_rank (ie_score e), latency_rank (ie_tcp_latency_ms e)))"

section \<open>The pipeline of the address scanner\<close>

datatype IpScanEvent = TcpDone nat | ProbeComplete IpProbeEntry

record IpScan =
  sc_ips :: "IpAddr list"
  sc_p1 :: "IpAddr list"
  sc_pending :: "(IpAddr \<times> u64) list"
  sc_p2 :: "(IpAddr \<times> u64) list"
  sc_all :: "IpProbeEntry list"
  sc_tested :: nat
  sc_events :: "IpScanEvent list"

text \<open>The two filling loops at the head of a turn.\<close>

definition fill_p2 :: "nat \<Rightarrow> IpScan \<Rightarrow> IpScan" where
  "fill_p2 p2_limit s = (let n = p2_limit - length (sc_p2 s) in s\<lparr>sc_p2 := sc_p2 s @ take n (sc_pending s), sc_pending := drop n (sc_pending s)\<rparr>)"

definition fill_p1 :: "nat \<Rightarrow> nat \<Rightarrow> IpScan \<Rightarrow> IpScan" where
  "fill_p1 p1_limit p2_limit s = (if length (sc_pending s) < p2_limit
     then (let n = p1_limit - length (sc_p1 s) in s\<lparr>sc_p1 := sc_p1 s @ take n (sc_ips s), sc_ips := drop n (sc_ips s)\<rparr>) else s)"

definition fill_tasks :: "nat \<Rightarrow> nat \<Rightarrow> IpScan \<Rightarrow> IpScan" where
  "fill_tasks p1_limit p2_limit s = fill_p1 p1_limit p2_limit (fill_p2 p2_limit s)"

definition scan_idle :: "IpScan \<Rightarrow> bool" where
  "scan_idle s = (sc_p1 s = [] \<and> sc_p2 s = [] \<and> sc_pending s = [] \<and> sc_ips s = [])"

text \<open>
  A completed task: which of the running tasks it is, the answer if it is a TCP task, and the answers if it is a TLS task; \<open>None\<close> is a task that failed
  itself.
\<close>

record 'f TaskDone =
  td_pick :: nat
  td_tcp :: "u64 option option"
  td_tls :: "'f ProbeNet option"

definition remove_nth :: "nat \<Rightarrow> 'a list \<Rightarrow> 'a list" where
  "remove_nth i xs = take i xs @ drop (Suc i) xs"

definition tcp_joined :: "'f score_fn \<Rightarrow> nat \<Rightarrow> u64 option option \<Rightarrow> IpScan \<Rightarrow> IpScan" where
  "tcp_joined score i answer s = (let ip = sc_p1 s ! i; s = s\<lparr>sc_p1 := remove_nth i (sc_p1 s)\<rparr> in
     case answer of None \<Rightarrow> s
     | Some tcp \<Rightarrow> (let s = s\<lparr>sc_tested := sc_tested s + 1, sc_events := sc_events s @ [TcpDone (sc_tested s + 1)]\<rparr> in
         case tcp of Some ms \<Rightarrow> s\<lparr>sc_pending := sc_pending s @ [(ip, ms)]\<rparr>
         | None \<Rightarrow> s\<lparr>sc_all := sc_all s @ [tcp_only_entry score ip None]\<rparr>))"

definition tls_joined :: "'f score_fn \<Rightarrow> nat \<Rightarrow> 'f ProbeNet option \<Rightarrow> IpScan \<Rightarrow> IpScan" where
  "tls_joined score i answer s = (case sc_p2 s ! i of (ip, ms) \<Rightarrow> let s = s\<lparr>sc_p2 := remove_nth i (sc_p2 s)\<rparr> in
     case answer of None \<Rightarrow> s
     | Some a \<Rightarrow> (let e = probe_tls_ttfb score ip ms a in s\<lparr>sc_all := sc_all s @ [e], sc_events := sc_events s @ [ProbeComplete e]\<rparr>))"

text \<open>
  \<^verbatim>\<open>select!\<close> takes the completed task from the sets that are not empty; with both empty it panics. \<open>Ok None\<close> is a scan that waits for more tasks.
\<close>

fun ip_scan_loop :: "'f score_fn \<Rightarrow> nat \<Rightarrow> nat \<Rightarrow> 'f TaskDone list \<Rightarrow> IpScan \<Rightarrow> IpScan option res" where
  "ip_scan_loop score p1_limit p2_limit ts s = (let s = fill_tasks p1_limit p2_limit s in
     if scan_idle s then Ok (Some s)
     else if sc_p1 s = [] \<and> sc_p2 s = [] then Panic
     else (case ts of [] \<Rightarrow> Ok None
       | t # ts' \<Rightarrow> (let i = td_pick t mod (length (sc_p1 s) + length (sc_p2 s)) in
           if i < length (sc_p1 s) then ip_scan_loop score p1_limit p2_limit ts' (tcp_joined score i (td_tcp t) s)
           else ip_scan_loop score p1_limit p2_limit ts' (tls_joined score (i - length (sc_p1 s)) (td_tls t) s))))"

declare ip_scan_loop.simps [simp del]

definition start_scan :: "IpAddr list \<Rightarrow> IpScan" where
  "start_scan ips = \<lparr>sc_ips = ips, sc_p1 = [], sc_pending = [], sc_p2 = [], sc_all = [], sc_tested = 0, sc_events = []\<rparr>"

definition scan_ip_list :: "'n NetParser \<Rightarrow> 'n list option \<Rightarrow> 'f score_fn \<Rightarrow> nat \<Rightarrow> nat \<Rightarrow> 'f TaskDone list \<Rightarrow> IpAddr list \<Rightarrow> (IpProbeEntry list \<times> IpScanEvent list) option res" where
  "scan_ip_list np ranges score max_p1 max_p2 ts ips = (let ips = filter_retain np ranges ips in
     if ips = [] then Ok (Some ([], []))
     else (case ip_scan_loop score (max max_p1 1) (max max_p2 1) ts (start_scan ips) of Panic \<Rightarrow> Panic
       | Ok r \<Rightarrow> Ok (map_option (\<lambda>s. (rank_ip (sc_all s), sc_events s)) r)))"

section \<open>The scanner of names\<close>

text \<open>
  One name: its addresses that the filter allows are probed with at most \<open>limit\<close> tasks at a time; \<open>picks\<close> says which running task finishes next. An
  answer of \<open>None\<close> is a task that failed itself.
\<close>

fun probe_addresses :: "nat \<Rightarrow> (ipv4 \<Rightarrow> SniProbeEntry option) \<Rightarrow> (nat \<Rightarrow> nat) \<Rightarrow> ipv4 list \<Rightarrow> ipv4 list \<Rightarrow> SniProbeEntry list \<Rightarrow> SniProbeEntry list" where
  "probe_addresses limit probe pick (ip # ips) tasks out = (let tasks = tasks @ [ip] in
     if length tasks \<ge> limit
     then (let i = pick (length ips) mod length tasks in
       probe_addresses limit probe pick ips (remove_nth i tasks) (out @ (case probe (tasks ! i) of Some e \<Rightarrow> [e] | None \<Rightarrow> [])))
     else probe_addresses limit probe pick ips tasks out)"
| "probe_addresses limit probe pick [] tasks out = out @ concat (map (\<lambda>ip. case probe ip of Some e \<Rightarrow> [e] | None \<Rightarrow> []) tasks)"

definition probe_sni :: "'n NetParser \<Rightarrow> 'n list option \<Rightarrow> nat \<Rightarrow> (ipv4 \<Rightarrow> SniProbeEntry option) \<Rightarrow> (nat \<Rightarrow> nat) \<Rightarrow> ipv4 list option \<Rightarrow> SniProbeEntry list" where
  "probe_sni np ranges max_concurrent probe pick addrs = (case addrs of None \<Rightarrow> []
   | Some ips \<Rightarrow> probe_addresses (max max_concurrent 1) probe pick (filter (\<lambda>ip. filter_allows np ranges (V4 ip)) ips) [] [])"

text \<open>The outer loop over the names; a completed task brings the entries of its name.\<close>

fun sni_scan_loop :: "nat \<Rightarrow> (string \<Rightarrow> SniProbeEntry list option) \<Rightarrow> nat list \<Rightarrow> string list \<Rightarrow> string list \<Rightarrow> SniProbeEntry list \<Rightarrow> SniProbeEntry list option" where
  "sni_scan_loop limit probe picks tasks names results = (let n = limit - length tasks; tasks = tasks @ take n names; names = drop n names in
     if tasks = [] then Some results
     else (case picks of [] \<Rightarrow> None
       | p # picks' \<Rightarrow> (let i = p mod length tasks in
           sni_scan_loop limit probe picks' (remove_nth i tasks) names (results @ (case probe (tasks ! i) of Some es \<Rightarrow> es | None \<Rightarrow> [])))))"

declare sni_scan_loop.simps [simp del]

definition scan_sni_list :: "nat \<Rightarrow> (string \<Rightarrow> SniProbeEntry list option) \<Rightarrow> nat list \<Rightarrow> string list \<Rightarrow> SniProbeEntry list option" where
  "scan_sni_list max_concurrent probe picks names = map_option rank_sni (sni_scan_loop (max max_concurrent 1) probe picks [] names [])"

section \<open>Accounting\<close>

lemma length_remove_nth: "i < length xs \<Longrightarrow> length (remove_nth i xs) = length xs - 1"
  by (simp add: remove_nth_def)

lemma mset_remove_nth: "i < length xs \<Longrightarrow> mset xs = add_mset (xs ! i) (mset (remove_nth i xs))"
  by (metis id_take_nth_drop mset.simps(2) mset_append remove_nth_def union_mset_add_mset_right)

lemma mset_take_drop: "mset (take n xs) + mset (drop n xs) = mset xs"
  by (metis append_take_drop_id mset_append)

lemma mset_map_take_drop: "mset (map f (take n xs)) + mset (map f (drop n xs)) = mset (map f xs)"
  by (metis append_take_drop_id map_append mset_append)

text \<open>The addresses a scan is still responsible for or has an entry of, and the tasks it has still to run.\<close>

definition accounted :: "IpScan \<Rightarrow> IpAddr multiset" where
  "accounted s = mset (sc_ips s) + mset (sc_p1 s) + mset (map fst (sc_pending s)) + mset (map fst (sc_p2 s)) + mset (map ie_ip (sc_all s))"

definition tasks_left :: "IpScan \<Rightarrow> nat" where
  "tasks_left s = 2 * length (sc_ips s) + 2 * length (sc_p1 s) + length (sc_pending s) + length (sc_p2 s)"

lemma accounted_fill [simp]: "accounted (fill_tasks a b s) = accounted s"
proof -
  have "accounted (fill_p2 b s) = accounted s"
    using mset_map_take_drop [of fst "b - length (sc_p2 s)" "sc_pending s"] by (simp add: fill_p2_def accounted_def Let_def ac_simps)
  moreover have "accounted (fill_p1 a b s') = accounted s'" for s'
    using mset_take_drop [of "a - length (sc_p1 s')" "sc_ips s'"] by (simp add: fill_p1_def accounted_def Let_def ac_simps)
  ultimately show ?thesis by (simp add: fill_tasks_def)
qed

lemma tasks_left_fill [simp]: "tasks_left (fill_tasks a b s) = tasks_left s"
  by (auto simp: fill_tasks_def fill_p1_def fill_p2_def tasks_left_def Let_def min_def)

lemma fill_runs:
  assumes "0 < p1_limit" "0 < p2_limit" "\<not> scan_idle (fill_tasks p1_limit p2_limit s)"
  shows "sc_p1 (fill_tasks p1_limit p2_limit s) \<noteq> [] \<or> sc_p2 (fill_tasks p1_limit p2_limit s) \<noteq> []"
  using assms by (cases "sc_p2 s"; cases "sc_p1 s") (auto simp: fill_tasks_def fill_p1_def fill_p2_def scan_idle_def Let_def split: if_splits)

lemma probe_tls_ip [simp]: "ie_ip (probe_tls_ttfb score ip ms a) = ip"
  by (simp add: probe_tls_ttfb_def tcp_only_entry_def split: option.splits)

lemma tcp_joined_left: "i < length (sc_p1 s) \<Longrightarrow> tasks_left (tcp_joined score i answer s) < tasks_left s"
  by (auto simp: tcp_joined_def tasks_left_def length_remove_nth Let_def split: option.splits)

lemma tls_joined_left: "i < length (sc_p2 s) \<Longrightarrow> tasks_left (tls_joined score i answer s) < tasks_left s"
  by (auto simp: tls_joined_def tasks_left_def length_remove_nth Let_def split: option.splits prod.splits)

lemma tcp_joined_accounted:
  "i < length (sc_p1 s) \<Longrightarrow> accounted (tcp_joined score i answer s) \<subseteq># accounted s \<and> (answer \<noteq> None \<longrightarrow> accounted (tcp_joined score i answer s) = accounted s)"
  using mset_remove_nth [of i "sc_p1 s"]
  by (auto simp: tcp_joined_def accounted_def tcp_only_entry_def Let_def split: option.splits)

lemma tls_joined_accounted:
  assumes "i < length (sc_p2 s)"
  shows "accounted (tls_joined score i answer s) \<subseteq># accounted s \<and> (answer \<noteq> None \<longrightarrow> accounted (tls_joined score i answer s) = accounted s)"
proof -
  have "mset (map fst (sc_p2 s)) = add_mset (fst (sc_p2 s ! i)) (mset (map fst (remove_nth i (sc_p2 s))))"
    using mset_remove_nth [OF assms] by simp
  then show ?thesis by (auto simp: tls_joined_def accounted_def Let_def split: option.splits prod.splits)
qed

lemma ip_scan_completes:
  assumes "0 < p1_limit" "0 < p2_limit"
  shows "tasks_left s \<le> length ts \<Longrightarrow> \<exists>s'. ip_scan_loop score p1_limit p2_limit ts s = Ok (Some s') \<and> scan_idle s' \<and> accounted s' \<subseteq># accounted s
    \<and> ((\<forall>t \<in> set ts. td_tcp t \<noteq> None \<and> td_tls t \<noteq> None) \<longrightarrow> accounted s' = accounted s)"
proof (induction ts arbitrary: s)
  case Nil
  let ?s = "fill_tasks p1_limit p2_limit s"
  have "tasks_left ?s = 0" using Nil by simp
  then have "scan_idle ?s" by (simp add: tasks_left_def scan_idle_def)
  then show ?case by (intro exI [of _ ?s]) (simp add: ip_scan_loop.simps Let_def)
next
  case (Cons t ts)
  let ?s = "fill_tasks p1_limit p2_limit s"
  show ?case
  proof (cases "scan_idle ?s")
    case True
    then show ?thesis by (intro exI [of _ ?s]) (simp add: ip_scan_loop.simps Let_def)
  next
    case False
    note runs = fill_runs [OF assms False]
    define i where "i = td_pick t mod (length (sc_p1 ?s) + length (sc_p2 ?s))"
    define s1 where "s1 = (if i < length (sc_p1 ?s) then tcp_joined score i (td_tcp t) ?s else tls_joined score (i - length (sc_p1 ?s)) (td_tls t) ?s)"
    have "0 < length (sc_p1 ?s) + length (sc_p2 ?s)" using runs by auto
    then have i: "i < length (sc_p1 ?s) + length (sc_p2 ?s)" by (simp add: i_def)
    have loop: "ip_scan_loop score p1_limit p2_limit (t # ts) s = ip_scan_loop score p1_limit p2_limit ts s1"
      using False runs unfolding s1_def i_def by (subst ip_scan_loop.simps) (auto simp: Let_def)
    have "tasks_left s1 < tasks_left ?s"
      using i tcp_joined_left [of i ?s score "td_tcp t"] tls_joined_left [of "i - length (sc_p1 ?s)" ?s score "td_tls t"] by (auto simp: s1_def)
    then have "tasks_left s1 \<le> length ts" using Cons.prems by simp
    from Cons.IH [OF this] obtain s' where s': "ip_scan_loop score p1_limit p2_limit ts s1 = Ok (Some s')" "scan_idle s'" "accounted s' \<subseteq># accounted s1"
      "(\<forall>t \<in> set ts. td_tcp t \<noteq> None \<and> td_tls t \<noteq> None) \<longrightarrow> accounted s' = accounted s1" by blast
    have "accounted s1 \<subseteq># accounted s \<and> (td_tcp t \<noteq> None \<and> td_tls t \<noteq> None \<longrightarrow> accounted s1 = accounted s)"
      using i tcp_joined_accounted [of i ?s score "td_tcp t"] tls_joined_accounted [of "i - length (sc_p1 ?s)" ?s score "td_tls t"] by (auto simp: s1_def)
    then show ?thesis using s' loop by (auto intro: subset_mset.order_trans)
  qed
qed

text \<open>The numbers of running tasks and of addresses that wait for the second phase.\<close>

definition scan_bounded :: "nat \<Rightarrow> nat \<Rightarrow> IpScan \<Rightarrow> bool" where
  "scan_bounded p1_limit p2_limit s = (length (sc_p1 s) \<le> p1_limit \<and> length (sc_p2 s) \<le> p2_limit \<and> length (sc_p1 s) + length (sc_pending s) < p1_limit + p2_limit)"

lemma scan_bounded_start: "0 < p1_limit \<Longrightarrow> scan_bounded p1_limit p2_limit (start_scan ips)"
  by (simp add: scan_bounded_def start_scan_def)

lemma scan_bounded_fill: "scan_bounded a b s \<Longrightarrow> scan_bounded a b (fill_tasks a b s)"
  by (auto simp: scan_bounded_def fill_tasks_def fill_p1_def fill_p2_def Let_def)

lemma scan_bounded_joined:
  "scan_bounded a b s \<Longrightarrow> i < length (sc_p1 s) \<Longrightarrow> scan_bounded a b (tcp_joined score i answer s)"
  "scan_bounded a b s \<Longrightarrow> j < length (sc_p2 s) \<Longrightarrow> scan_bounded a b (tls_joined score j tls s)"
  by (auto simp: scan_bounded_def tcp_joined_def tls_joined_def length_remove_nth Let_def split: option.splits prod.splits)


text \<open>
  C40. The scan of an address list ends and loses nothing. However the probes finish, after at most two completed tasks for each address the scan is over,
  its \<^verbatim>\<open>select!\<close> never finds both task sets empty, and the result is ranked: the score falls, and among equal scores the latency rises. If no task is
  lost, the result has exactly one entry for each occurrence of a candidate that the Cloudflare filter allows, and for no other address.
\<close>

theorem ip_scan_covers_candidates:
  assumes "2 * length ips \<le> length ts"
  shows "\<exists>es evs. scan_ip_list np ranges score max_p1 max_p2 ts ips = Ok (Some (es, evs))
    \<and> sorted (map (\<lambda>e. (score_rank (ie_score e), latency_rank (ie_tcp_latency_ms e))) es)
    \<and> mset (map ie_ip es) \<subseteq># mset (filter (filter_allows np ranges) ips)
    \<and> ((\<forall>t \<in> set ts. td_tcp t \<noteq> None \<and> td_tls t \<noteq> None) \<longrightarrow> mset (map ie_ip es) = mset (filter (filter_allows np ranges) ips))"
proof (cases "filter_retain np ranges ips = []")
  case True
  then show ?thesis by (simp add: scan_ip_list_def filter_retain_def)
next
  case False
  let ?ips = "filter_retain np ranges ips"
  have "length ?ips \<le> length ips" by (simp add: filter_retain_def)
  then have "tasks_left (start_scan ?ips) \<le> length ts" using assms by (simp add: tasks_left_def start_scan_def)
  then obtain s' where s': "ip_scan_loop score (max max_p1 1) (max max_p2 1) ts (start_scan ?ips) = Ok (Some s')" "scan_idle s'"
      "accounted s' \<subseteq># accounted (start_scan ?ips)"
      "(\<forall>t \<in> set ts. td_tcp t \<noteq> None \<and> td_tls t \<noteq> None) \<longrightarrow> accounted s' = accounted (start_scan ?ips)"
    using ip_scan_completes [of "max max_p1 1" "max max_p2 1" "start_scan ?ips" ts score] by (auto simp: less_max_iff_disj)
  moreover have "accounted s' = mset (map ie_ip (rank_ip (sc_all s')))" using s'(2) by (simp add: accounted_def scan_idle_def rank_ip_def)
  moreover have "accounted (start_scan ?ips) = mset ?ips" by (simp add: accounted_def start_scan_def)
  ultimately show ?thesis using False by (simp add: scan_ip_list_def filter_retain_def rank_ip_def)
qed

text \<open>Two addresses, one of which does not answer.\<close>

definition sample_net :: "nat ProbeNet" where
  "sample_net = \<lparr>pn_tcp = Some 20, pn_name_ok = True, pn_tls = Some 30, pn_request_ok = True, pn_sample = (Some 40, Some 1000, Some 200), pn_upload = None\<rparr>"

definition sample_tasks :: "nat TaskDone list" where
  "sample_tasks = [\<lparr>td_pick = 1, td_tcp = Some (Some 9), td_tls = Some sample_net\<rparr>, \<lparr>td_pick = 0, td_tcp = Some None, td_tls = Some sample_net\<rparr>,
     \<lparr>td_pick = 0, td_tcp = Some None, td_tls = Some sample_net\<rparr>, \<lparr>td_pick = 0, td_tcp = Some None, td_tls = Some sample_net\<rparr>]"

definition any_net :: "unit NetParser" where
  "any_net = \<lparr>np_ip = (\<lambda>_. None), np_net = (\<lambda>_. None), np_v6 = (\<lambda>_. False), np_hosts = (\<lambda>_. []), np_contains = (\<lambda>_ _. True), np_show_ip = (\<lambda>_. []), np_show_trunc = (\<lambda>_. [])\<rparr>"

theorem ip_scan_covers_candidates_witness:
  "\<exists>es evs. scan_ip_list any_net None (\<lambda>tcp m. if ms_tls_ok m then 80 else 0) 2 1 sample_tasks [V4 1, V4 2] = Ok (Some (es, evs)) \<and> mset (map ie_ip es) = {#V4 1, V4 2#}"
  using ip_scan_covers_candidates [of "[V4 1, V4 2]" sample_tasks any_net None "\<lambda>tcp m. if ms_tls_ok m then 80 else 0" 2 1]
  by (fastforce simp: sample_tasks_def filter_allows_def)

section \<open>Names\<close>

lemma mset_concat_remove:
  assumes "i < length xs" shows "mset (concat (map f xs)) = mset (f (xs ! i)) + mset (concat (map f (remove_nth i xs)))"
proof -
  have "concat (map f xs) = concat (map f (take i xs)) @ f (xs ! i) @ concat (map f (drop (Suc i) xs))"
    using id_take_nth_drop [OF assms] by (metis concat.simps(2) concat_append list.simps(9) map_append)
  then show ?thesis by (simp add: remove_nth_def ac_simps)
qed

lemma probe_addresses_mset:
  "mset (probe_addresses limit probe pick ips tasks out)
   = mset out + mset (concat (map (\<lambda>ip. case probe ip of Some e \<Rightarrow> [e] | None \<Rightarrow> []) (tasks @ ips)))"
proof (induction limit probe pick ips tasks out rule: probe_addresses.induct)
  case (1 limit probe pick ip ips tasks out)
  let ?tasks = "tasks @ [ip]" and ?f = "\<lambda>ip. case probe ip of Some e \<Rightarrow> [e] | None \<Rightarrow> []"
  define i where "i = pick (length ips) mod length ?tasks"
  have "i < length ?tasks" by (simp add: i_def)
  then have "mset (concat (map ?f ?tasks)) = mset (?f (?tasks ! i)) + mset (concat (map ?f (remove_nth i ?tasks)))"
    by (rule mset_concat_remove)
  then show ?case using 1 by (cases "limit \<le> length ?tasks") (simp_all add: Let_def i_def ac_simps)
qed simp

lemma sni_scan_mset:
  assumes "0 < limit"
  shows "length tasks + length names \<le> length picks \<Longrightarrow> \<exists>es. sni_scan_loop limit probe picks tasks names results = Some es
    \<and> mset es = mset results + mset (concat (map (\<lambda>n. case probe n of Some es \<Rightarrow> es | None \<Rightarrow> []) (tasks @ names)))"
proof (induction picks arbitrary: tasks names results)
  case Nil
  then show ?case by (simp add: sni_scan_loop.simps)
next
  case (Cons p picks)
  let ?f = "\<lambda>n. case probe n of Some es \<Rightarrow> es | None \<Rightarrow> []"
  define n where "n = limit - length tasks"
  define tasks' where "tasks' = tasks @ take n names"
  have all: "tasks' @ drop n names = tasks @ names" by (simp add: tasks'_def)
  show ?case
  proof (cases "tasks' = []")
    case True
    then have "names = []" "tasks = []" using assms by (auto simp: tasks'_def n_def)
    then show ?thesis by (simp add: sni_scan_loop.simps)
  next
    case False
    define i where "i = p mod length tasks'"
    have i: "i < length tasks'" using False by (simp add: i_def)
    have loop: "sni_scan_loop limit probe (p # picks) tasks names results = sni_scan_loop limit probe picks (remove_nth i tasks') (drop n names) (results @ ?f (tasks' ! i))"
      using False by (subst sni_scan_loop.simps) (auto simp: Let_def tasks'_def n_def i_def)
    have "length (remove_nth i tasks') + length (drop n names) = length (tasks @ names) - 1"
      using i unfolding all [symmetric] by (simp add: length_remove_nth)
    then have "length (remove_nth i tasks') + length (drop n names) \<le> length picks" using Cons.prems by simp
    from Cons.IH [OF this, of "results @ ?f (tasks' ! i)"]
    obtain es where es: "sni_scan_loop limit probe (p # picks) tasks names results = Some es"
      "mset es = mset (results @ ?f (tasks' ! i)) + mset (concat (map ?f (remove_nth i tasks' @ drop n names)))" unfolding loop by blast
    have "mset (concat (map ?f tasks')) = mset (?f (tasks' ! i)) + mset (concat (map ?f (remove_nth i tasks')))"
      using i by (rule mset_concat_remove)
    then have "mset es = mset results + mset (concat (map ?f (tasks' @ drop n names)))" using es(2) by (simp add: ac_simps)
    then show ?thesis using es(1) all by simp
  qed
qed


text \<open>
  The scan of a name list ends and loses nothing: after one completed task for each name it returns the ranked entries of all names, those of a name being
  one for each of its addresses that the Cloudflare filter allows, whatever the limits of parallel tasks and the order in which the probes finish.
\<close>

theorem sni_scan_covers_names:
  assumes "length names \<le> length picks" "\<And>n. n \<in> set names \<Longrightarrow> probe n = Some (probe_sni np ranges limit (\<lambda>ip. Some (entry n ip)) (pick n) (addrs n))"
  shows "\<exists>es. scan_sni_list max_concurrent probe picks names = Some es \<and> sorted (map (\<lambda>e. (score_rank (se_score e), latency_rank (se_tcp_latency_ms e))) es)
    \<and> mset es = mset (concat (map (\<lambda>n. case addrs n of None \<Rightarrow> [] | Some ips \<Rightarrow> map (entry n) (filter (\<lambda>ip. filter_allows np ranges (V4 ip)) ips)) names))"
proof -
  have one: "mset (probe_sni np ranges limit (\<lambda>ip. Some (entry n ip)) (pick n) (addrs n))
      = mset (case addrs n of None \<Rightarrow> [] | Some ips \<Rightarrow> map (entry n) (filter (\<lambda>ip. filter_allows np ranges (V4 ip)) ips))" for n
    by (simp add: probe_sni_def probe_addresses_mset split: option.splits)
  have "mset (concat (map (\<lambda>n. case probe n of Some es \<Rightarrow> es | None \<Rightarrow> []) names))
      = mset (concat (map (\<lambda>n. case addrs n of None \<Rightarrow> [] | Some ips \<Rightarrow> map (entry n) (filter (\<lambda>ip. filter_allows np ranges (V4 ip)) ips)) names))"
    using assms(2) by (induction names) (auto simp: one)
  then show ?thesis using sni_scan_mset [of "max max_concurrent 1" "[]" names picks probe "[]"] assms(1)
    by (auto simp: scan_sni_list_def rank_sni_def less_max_iff_disj)
qed

theorem sni_scan_covers_names_witness:
  "\<exists>es. scan_sni_list 1 (\<lambda>n. Some (probe_sni any_net None 1 (\<lambda>ip. Some (probe_sni_ip (\<lambda>_ _. 7) n ip sample_net)) (\<lambda>k. k) (Some [1, 2]))) [0, 0] [''a'', ''b''] = Some es
     \<and> mset es = mset (concat (map (\<lambda>n. map (\<lambda>ip. probe_sni_ip (\<lambda>_ _. 7) n ip sample_net) [1, 2]) [''a'', ''b'']))"
  using sni_scan_covers_names [of "[''a'', ''b'']" "[0, 0]"
      "\<lambda>n. Some (probe_sni any_net None 1 (\<lambda>ip. Some (probe_sni_ip (\<lambda>_ _. 7) n ip sample_net)) (\<lambda>k. k) (Some [1, 2]))" any_net None 1
      "\<lambda>n ip. probe_sni_ip (\<lambda>_ _. 7) n ip sample_net" "\<lambda>_ k. k" "\<lambda>_. Some [1, 2]" 1]
  by (fastforce simp: filter_allows_def)

end
