(* ===== verification/Startup.thy ===== *)
theory Startup
  imports Reload Helper_Bootstrap Config_Addresses Scanner
begin

text \<open>
  From the command line to a running mode, src/crates/zerodpi/src/main.rs: the overrides, the loading of the configuration, the privileges a mode needs, the
  choice of the mode, and the loop of the background rescans. The file, the user ids, the access to packet interception and the connection to the helper are
  answers; the modes themselves are wiring of the other components.
\<close>

section \<open>Overrides\<close>

record CliArgs =
  cli_listen_port :: "u16 option"
  cli_auto_select :: bool
  cli_no_tui :: bool
  cli_json_events :: bool
  cli_sni :: "string option"
  cli_method :: "string option"
  cli_queue_num :: "u16 option"
  cli_scan_timeout :: "nat option"
  cli_rescan_interval :: "nat option"
  cli_sni_switch_min_score :: "nat option"
  cli_wrong_seq_extra_offset :: "u32 option"
  cli_wrong_seq_no_psh :: bool
  cli_wrong_seq_no_bump_ident :: bool
  cli_bypass_timeout :: "nat option"
  cli_relay_max_lifetime :: "nat option"
  cli_root_helper_socket :: "path option"
  cli_root_helper_session_file :: "path option"
  cli_expected_uid :: "u32 option"

definition override :: "'a option \<Rightarrow> 'a \<Rightarrow> 'a" where
  "override v old = (case v of Some new \<Rightarrow> new | None \<Rightarrow> old)"

text \<open>\<^verbatim>\<open>Args::apply\<close>; the host of the listener is not a field of the model.\<close>

definition apply_args :: "CliArgs \<Rightarrow> Config \<Rightarrow> Config" where
  "apply_args a c = c\<lparr>
     LISTEN_PORT := override (cli_listen_port a) (LISTEN_PORT c),
     AUTO_SELECT := cli_auto_select a \<or> AUTO_SELECT c,
     SELECTED_SNI := (case cli_sni a of Some v \<Rightarrow> Some v | None \<Rightarrow> SELECTED_SNI c),
     BYPASS_METHOD := (case cli_method a of Some v \<Rightarrow> from_delimited v | None \<Rightarrow> BYPASS_METHOD c),
     NFQUEUE_NUM := override (cli_queue_num a) (NFQUEUE_NUM c),
     SCAN_TIMEOUT_SECS := override (cli_scan_timeout a) (SCAN_TIMEOUT_SECS c),
     RESCAN_INTERVAL_SECS := override (cli_rescan_interval a) (RESCAN_INTERVAL_SECS c),
     SNI_SWITCH_MIN_SCORE := override (cli_sni_switch_min_score a) (SNI_SWITCH_MIN_SCORE c),
     WRONG_SEQ_EXTRA_OFFSET := override (cli_wrong_seq_extra_offset a) (WRONG_SEQ_EXTRA_OFFSET c),
     WRONG_SEQ_SET_PSH := \<not> cli_wrong_seq_no_psh a \<and> WRONG_SEQ_SET_PSH c,
     WRONG_SEQ_BUMP_IP_IDENT := \<not> cli_wrong_seq_no_bump_ident a \<and> WRONG_SEQ_BUMP_IP_IDENT c,
     BYPASS_TIMEOUT_SECS := override (cli_bypass_timeout a) (BYPASS_TIMEOUT_SECS c),
     RELAY_MAX_LIFETIME_SECS := override (cli_relay_max_lifetime a) (RELAY_MAX_LIFETIME_SECS c)\<rparr>"

section \<open>Privileges\<close>

text \<open>
  The answers: the configuration in the file (\<open>None\<close> when it does not parse), the check of the loaded configuration, the user ids of this process, whether
  packet interception is open to it, and what a connection to the helper comes to (\<open>None\<close> while it is waiting).
\<close>

record StartAnswers =
  sa_file :: "Config option"
  sa_validate :: "Config \<Rightarrow> (ConfigError + AddressError) option"
  sa_uids :: "(u32 \<times> u32 \<times> u32) option"
  sa_access :: bool
  sa_connect :: "path \<Rightarrow> path \<Rightarrow> u32 \<Rightarrow> (string + ConnectedHelper) option"

datatype StartError = ConfigUnreadable | ConfigInvalid "ConfigError + AddressError" | HelperNotNeeded | HelperArgsIncomplete | UidUnknown | UidMismatch
  | HelperFailed string | RootMissing

definition load_config :: "CliArgs \<Rightarrow> StartAnswers \<Rightarrow> StartError + Config" where
  "load_config a s = (case sa_file s of None \<Rightarrow> Inl ConfigUnreadable
   | Some c \<Rightarrow> (let c' = apply_args a c in case sa_validate s c' of Some e \<Rightarrow> Inl (ConfigInvalid e) | None \<Rightarrow> Inr c'))"

definition requires_packet_interception :: "Config \<Rightarrow> bool" where
  "requires_packet_interception c = mode_requires_packet_interception (MODE c) (BYPASS_METHOD c)"

definition verify_data_plane_uid :: "(u32 \<times> u32 \<times> u32) option \<Rightarrow> u32 \<Rightarrow> StartError option" where
  "verify_data_plane_uid uids expected = (case uids of None \<Rightarrow> Some UidUnknown
   | Some (r, e, s) \<Rightarrow> if r \<noteq> expected \<or> e \<noteq> expected \<or> s \<noteq> expected then Some UidMismatch else None)"

definition connect_external_helper :: "CliArgs \<Rightarrow> bool \<Rightarrow> StartAnswers \<Rightarrow> (StartError + ConnectedHelper option) option" where
  "connect_external_helper a root_required s =
     (case (cli_root_helper_socket a, cli_root_helper_session_file a, cli_expected_uid a) of
       (None, None, None) \<Rightarrow> Some (Inr None)
     | (Some socket, Some session, Some uid) \<Rightarrow>
         if \<not> root_required then Some (Inl HelperNotNeeded)
         else (case verify_data_plane_uid (sa_uids s) uid of Some e \<Rightarrow> Some (Inl e)
         | None \<Rightarrow> (case sa_connect s socket session uid of None \<Rightarrow> None
           | Some (Inl e) \<Rightarrow> Some (Inl (HelperFailed e))
           | Some (Inr h) \<Rightarrow> Some (Inr (Some h))))
     | _ \<Rightarrow> Some (Inl HelperArgsIncomplete))"

section \<open>The modes\<close>

datatype ModeMain = SniSpoofMain | IpBypassMain | IpBypassPlusMain | SniScanMain | IpScanMain | ProxyScanMain | SniMethodScanMain | IpMethodScanMain

text \<open>\<^verbatim>\<open>run_config\<close> tests the modes one after the other; what remains is the rewriting of names.\<close>

definition mode_main :: "string \<Rightarrow> ModeMain" where
  "mode_main mode = (if mode = ''ip_bypass'' then IpBypassMain else if mode = ''ip_bypass_plus'' then IpBypassPlusMain
     else if mode = ''sni_scan'' then SniScanMain else if mode = ''ip_scan'' then IpScanMain else if mode = ''proxy_scan'' then ProxyScanMain
     else if mode = ''sni_method_scan'' then SniMethodScanMain else if mode = ''ip_method_scan'' then IpMethodScanMain else SniSpoofMain)"

text \<open>\<open>run_start\<close> is \<^verbatim>\<open>run\<close>: the mode it enters with its configuration and helper, and whether that is under the session of reloads.\<close>

datatype StartResult = StartFailed StartError | StartWaiting | Started ModeMain Config "ConnectedHelper option" bool

definition run_start :: "CliArgs \<Rightarrow> StartAnswers \<Rightarrow> StartResult" where
  "run_start a s = (case load_config a s of Inl e \<Rightarrow> StartFailed e
   | Inr c \<Rightarrow> (let root_required = requires_packet_interception c in
      case connect_external_helper a root_required s of None \<Rightarrow> StartWaiting
      | Some (Inl e) \<Rightarrow> StartFailed e
      | Some (Inr helper) \<Rightarrow>
          if root_required \<and> helper = None \<and> \<not> sa_access s then StartFailed RootMissing
          else Started (mode_main (MODE c)) c helper (\<not> (cli_no_tui a \<or> cli_json_events a) \<and> is_proxy_mode (MODE c))))"

section \<open>Background rescans\<close>

definition resolve_single_sni :: "string \<Rightarrow> ipv4 list option \<Rightarrow> SniProbeEntry list option" where
  "resolve_single_sni sni addrs = (case addrs of None \<Rightarrow> None
   | Some as \<Rightarrow> if as = [] then None else Some (map (\<lambda>ip. \<lparr>se_sni = sni, se_ip = ip, se_tcp_latency_ms = None, se_score = 0\<rparr>) as))"

text \<open>
  \<^verbatim>\<open>background_rescan\<close> over its turns: what wakes it, and the answers to the rescan. The result is the state, how many rescans ran, and whether the
  loop has ended.
\<close>

fun background_rescan :: "bool \<Rightarrow> Config \<Rightarrow> nat \<Rightarrow> bool \<Rightarrow> (RescanWake list \<times> SniProbeEntry RescanAnswers) list \<Rightarrow> RescanState \<Rightarrow> nat
    \<Rightarrow> (RescanState \<times> nat \<times> bool) res" where
  "background_rescan discovery c interval worker [] st n = Ok (st, n, False)"
| "background_rescan discovery c interval worker ((wakes, a) # ts) st n = (case wait_for_rescan worker interval wakes of
     (_, None) \<Rightarrow> Ok (st, n, False)
   | (_, Some None) \<Rightarrow> Ok (st, n, True)
   | (worker', Some (Some manual)) \<Rightarrow> (case rescan_sni_once discovery manual c a st of Panic \<Rightarrow> Panic
       | Ok (_, st') \<Rightarrow> background_rescan discovery c interval worker' ts st' (Suc n)))"

fun background_ip_rescan :: "bool \<Rightarrow> bool \<Rightarrow> Config \<Rightarrow> nat \<Rightarrow> bool \<Rightarrow> (RescanWake list \<times> IpAddr list option \<times> IpProbeEntry RescanAnswers) list \<Rightarrow> RescanState \<Rightarrow> nat
    \<Rightarrow> (RescanState \<times> nat \<times> bool) res" where
  "background_ip_rescan pinned ipv4_only c interval worker [] st n = Ok (st, n, False)"
| "background_ip_rescan pinned ipv4_only c interval worker ((wakes, ips, a) # ts) st n = (case wait_for_rescan worker interval wakes of
     (_, None) \<Rightarrow> Ok (st, n, False)
   | (_, Some None) \<Rightarrow> Ok (st, n, True)
   | (worker', Some (Some manual)) \<Rightarrow> (case rescan_ip_once pinned ipv4_only manual c ips a st of Panic \<Rightarrow> Panic
       | Ok (_, st') \<Rightarrow> background_ip_rescan pinned ipv4_only c interval worker' ts st' (Suc n)))"

section \<open>Scans without a screen\<close>

text \<open>The runtime events of \<^verbatim>\<open>scan_sni_list_headless\<close> and \<^verbatim>\<open>scan_ip_list_headless\<close>; \<open>enabled\<close> is whether events are written at all.\<close>

datatype ScanNotice = ScanStarted nat | ScanProgress "string option" nat "u8 option" | ScanCompleted nat

fun sni_progress :: "nat \<Rightarrow> SniProbeEntry list \<Rightarrow> ScanNotice list" where
  "sni_progress done [] = []"
| "sni_progress done (e # es) = ScanProgress None (Suc done) (Some (se_score e)) # sni_progress (Suc done) es"

definition scan_sni_headless :: "bool \<Rightarrow> nat \<Rightarrow> SniProbeEntry list \<Rightarrow> SniProbeEntry list \<Rightarrow> ScanNotice list" where
  "scan_sni_headless enabled total_names progress entries =
     [ScanStarted total_names] @ (if enabled then sni_progress 0 progress else []) @ [ScanCompleted (length entries)]"

fun ip_progress :: "nat \<Rightarrow> IpScanEvent list \<Rightarrow> ScanNotice list" where
  "ip_progress probed [] = []"
| "ip_progress probed (TcpDone tested # evs) = ScanProgress (Some ''tcp'') tested None # ip_progress probed evs"
| "ip_progress probed (ProbeComplete e # evs) = ScanProgress (Some ''probe'') (Suc probed) (Some (ie_score e)) # ip_progress (Suc probed) evs"

definition scan_ip_headless :: "bool \<Rightarrow> nat \<Rightarrow> IpScanEvent list \<Rightarrow> IpProbeEntry list \<Rightarrow> ScanNotice list" where
  "scan_ip_headless enabled total_ips evs entries =
     [ScanStarted total_ips] @ (if enabled then ip_progress 0 evs else []) @ [ScanCompleted (length entries)]"

section \<open>Properties\<close>

text \<open>The overrides leave everything else of the configuration alone, and applying them twice changes nothing more.\<close>

lemma apply_args_idem: "apply_args a (apply_args a c) = apply_args a c"
  by (simp add: apply_args_def override_def split: option.splits)

lemma mode_main_of_valid:
  assumes "validate_mode c = None"
  shows "mode_main (MODE c) = SniSpoofMain \<longleftrightarrow> MODE c = ''sni_spoof''"
proof -
  have "MODE c \<in> {''sni_spoof'', ''ip_bypass'', ''ip_bypass_plus'', ''sni_scan'', ''ip_scan'', ''proxy_scan'', ''sni_method_scan'', ''ip_method_scan''}"
    using assms by (auto simp: validate_mode_def split: if_splits)
  then show ?thesis by (auto simp: mode_main_def)
qed

text \<open>
  A mode is entered only with a configuration that passed its checks after the overrides. A mode that rewrites packets is entered only with a helper or with
  access of its own. A helper is used only when it is needed, and then this process runs under the expected user in every respect, while the helper has shown
  itself, by the credentials of its socket, to run as root.
\<close>

theorem start_privileges:
  assumes "run_start a s = Started m c helper reloads"
    and "\<And>so se u r. sa_connect s so se u = Some r \<Longrightarrow> \<exists>fs ca. connect to_vec from_slice so se u fs ca = Some r"
  shows "sa_validate s c = None" "m = mode_main (MODE c)" "requires_packet_interception c \<Longrightarrow> helper \<noteq> None \<or> sa_access s"
    "helper = Some h \<Longrightarrow> requires_packet_interception c \<and> ch_helper_uid h = 0 \<and> (\<exists>uid. cli_expected_uid a = Some uid \<and> sa_uids s = Some (uid, uid, uid))"
proof -
  obtain e: "load_config a s = Inr c" and x: "connect_external_helper a (requires_packet_interception c) s = Some (Inr helper)"
    and g: "\<not> (requires_packet_interception c \<and> helper = None \<and> \<not> sa_access s)" "m = mode_main (MODE c)"
    using assms(1) by (auto simp: run_start_def Let_def split: sum.splits option.splits if_splits)
  show "sa_validate s c = None" using e by (auto simp: load_config_def Let_def split: option.splits)
  show "m = mode_main (MODE c)" by (rule g)
  show "requires_packet_interception c \<Longrightarrow> helper \<noteq> None \<or> sa_access s" using g(1) by auto
  assume "helper = Some h"
  then obtain so se u where h: "requires_packet_interception c" "cli_expected_uid a = Some u" "verify_data_plane_uid (sa_uids s) u = None"
      "sa_connect s so se u = Some (Inr h)"
    using x by (auto simp: connect_external_helper_def split: option.splits sum.splits if_splits)
  have "ch_helper_uid h = 0" using assms(2) [OF h(4)] client_bootstrap_safe by blast
  moreover have "sa_uids s = Some (u, u, u)" using h(3) by (auto simp: verify_data_plane_uid_def split: option.splits if_splits)
  ultimately show "requires_packet_interception c \<and> ch_helper_uid h = 0 \<and> (\<exists>uid. cli_expected_uid a = Some uid \<and> sa_uids s = Some (uid, uid, uid))"
    using h(1,2) by blast
qed

text \<open>A rootless mode never asks for privileges, and a helper supplied for one is refused.\<close>

lemma rootless_start:
  assumes "load_config a s = Inr c" "\<not> requires_packet_interception c"
  shows "run_start a s = (case (cli_root_helper_socket a, cli_root_helper_session_file a, cli_expected_uid a) of
      (None, None, None) \<Rightarrow> Started (mode_main (MODE c)) c None (\<not> (cli_no_tui a \<or> cli_json_events a) \<and> is_proxy_mode (MODE c))
    | (Some _, Some _, Some _) \<Rightarrow> StartFailed HelperNotNeeded | _ \<Rightarrow> StartFailed HelperArgsIncomplete)"
  using assms by (auto simp: run_start_def connect_external_helper_def Let_def split: option.splits)

text \<open>
  The background task over any number of turns: it never panics and keeps the pool well formed and in step with the monitor; it ends only when neither
  the timer nor a request can wake it again.
\<close>

lemma wait_ends_only_idle: "wait_for_rescan worker interval ws = (w', Some None) \<Longrightarrow> interval = 0 \<and> \<not> w'"
proof (induction ws arbitrary: worker)
  case (Cons w ws)
  show ?case
  proof (cases "\<not> worker \<and> interval = 0")
    case False
    then show ?thesis using Cons.prems Cons.IH by (cases w) (auto split: if_splits)
  qed (use Cons.prems in simp)
qed (simp split: if_splits)

theorem background_rescan_keeps_pool:
  assumes "sni_pool_ok (rs_pool st)" "in_step st"
  shows "\<exists>st' k ended. background_rescan discovery c interval worker ts st n = Ok (st', n + k, ended) \<and> k \<le> length ts
    \<and> sni_pool_ok (rs_pool st') \<and> in_step st' \<and> (ended \<longrightarrow> interval = 0)"
  using assms
proof (induction discovery c interval worker ts st n rule: background_rescan.induct)
  case (2 discovery c interval worker wakes a ts st n)
  obtain w' r where w: "wait_for_rescan worker interval wakes = (w', r)" by force
  consider "r = None" | "r = Some None" | manual where "r = Some (Some manual)" by (cases r) auto
  then show ?case
  proof cases
    case (3 manual)
    obtain out st1 where o: "rescan_sni_once discovery manual c a st = Ok (out, st1)" "sni_pool_ok (rs_pool st1)" "in_step st1"
      using rescan_ok [OF 2(2,3), of discovery manual c a] by blast
    then obtain st' k ended where "background_rescan discovery c interval w' ts st1 (Suc n) = Ok (st', Suc n + k, ended)" "k \<le> length ts"
        "sni_pool_ok (rs_pool st')" "in_step st'" "ended \<longrightarrow> interval = 0"
      using 2(1) [OF w [symmetric], of "Some manual" manual "(out, st1)" out st1] 3 by auto
    then show ?thesis using w 3 o(1) by (intro exI [of _ st'] exI [of _ "Suc k"] exI [of _ ended]) simp
  qed (use 2 w wait_ends_only_idle in \<open>auto intro: exI [of _ 0]\<close>)
qed auto

lemma replaced_in_step:
  assumes "pool_ok (rs_pool st)" "ts \<noteq> []"
  shows "pool_ok (rs_pool (snd (replace_pool ts st)))" "in_step (store_probe_target (tg_ip (hd ts)) (snd (replace_pool ts st)))"
  using replace_pool_ok [OF assms(1)] replace_pool_simps(1) [OF assms(2)] by (simp_all add: in_step_def)

lemma in_step_simps [simp]: "in_step (send_rescan_event e st) = in_step st" "in_step (announce_target_pool t st) = in_step st"
  "in_step (snd (rescan_finished sm sw st)) = in_step st"
  by (simp_all add: in_step_def)

lemma rescan_ip_ok:
  assumes "pool_ok (rs_pool st)" "in_step st"
  shows "\<exists>p. rescan_ip_once pinned ipv4_only manual c ips a st = Ok p \<and> pool_ok (rs_pool (snd p)) \<and> in_step (snd p)"
proof -
  define st0 where "st0 = send_rescan_event RescanStarted st"
  have st0: "pool_ok (rs_pool st0)" "in_step st0" using assms by (simp_all add: st0_def)
  obtain t where t: "representative (rs_pool st) = Ok t" "representative (rs_pool st0) = Ok t" using assms(2) by (auto simp: in_step_def st0_def)
  define es where "es = (case ips of None \<Rightarrow> [] | Some l \<Rightarrow> if ipv4_only \<and> list_ex (\<lambda>x. case x of V4 _ \<Rightarrow> False | V6 _ \<Rightarrow> True) l then []
    else (case ra_scan a of None \<Rightarrow> [] | Some es \<Rightarrow> es))"
  define cs where "cs = ip_candidates es (LOAD_BALANCE_TARGET_COUNT c)"
  define sel where "sel = (if manual then worker_select (AUTO_SELECT c) (ra_user a) es else (case es of [] \<Rightarrow> None | e # _ \<Rightarrow> Some e))"
  note eq = rescan_ip_once_def [of pinned ipv4_only manual c ips a st, unfolded Let_def, folded st0_def es_def cs_def sel_def]
  consider "LOAD_BALANCE_ENABLED c" "pinned" | "\<not> (LOAD_BALANCE_ENABLED c \<and> pinned)" "es = []"
    | "LOAD_BALANCE_ENABLED c" "\<not> pinned" "es \<noteq> []" | "\<not> LOAD_BALANCE_ENABLED c" "es \<noteq> []" by blast
  then show ?thesis
  proof cases
    case 1
    then show ?thesis unfolding eq using t assms by (simp del: split_paired_Ex)
  next
    case 2
    then show ?thesis unfolding eq if_not_P [OF 2(1)] using st0 by (simp del: split_paired_Ex)
  next
    case 3
    show ?thesis
    proof (cases cs)
      case (Cons u us)
      then show ?thesis unfolding eq using 3 t st0 replaced_in_step [OF st0(1), of cs] replace_pool_simps(1) [of cs st0]
        by (cases "find (\<lambda>e. ie_ip e = tg_ip u) es") (simp_all add: case_prod_unfold del: split_paired_Ex)
    next
      case Nil
      then show ?thesis unfolding eq using 3 st0 by (simp del: split_paired_Ex)
    qed
  next
    case 4
    have "tg_ip (from_ip e) = ie_ip e" for e by (simp add: from_ip_def target_of_ip_def)
    with 4 show ?thesis unfolding eq using t st0 replaced_in_step [OF st0(1), of "[from_ip e]" for e]
      by (cases sel) (simp_all del: split_paired_Ex)
  qed
qed

theorem background_ip_rescan_keeps_pool:
  assumes "pool_ok (rs_pool st)" "in_step st"
  shows "\<exists>st' k ended. background_ip_rescan pinned ipv4_only c interval worker ts st n = Ok (st', n + k, ended) \<and> k \<le> length ts
    \<and> pool_ok (rs_pool st') \<and> in_step st' \<and> (ended \<longrightarrow> interval = 0)"
  using assms
proof (induction pinned ipv4_only c interval worker ts st n rule: background_ip_rescan.induct)
  case (2 pinned ipv4_only c interval worker wakes ips a ts st n)
  obtain w' r where w: "wait_for_rescan worker interval wakes = (w', r)" by force
  consider "r = None" | "r = Some None" | manual where "r = Some (Some manual)" by (cases r) auto
  then show ?case
  proof cases
    case (3 manual)
    obtain out st1 where o: "rescan_ip_once pinned ipv4_only manual c ips a st = Ok (out, st1)" "pool_ok (rs_pool st1)" "in_step st1"
      using rescan_ip_ok [OF 2(2,3), of pinned ipv4_only manual c ips a] by auto
    then obtain st' k ended where "background_ip_rescan pinned ipv4_only c interval w' ts st1 (Suc n) = Ok (st', Suc n + k, ended)" "k \<le> length ts"
        "pool_ok (rs_pool st')" "in_step st'" "ended \<longrightarrow> interval = 0"
      using 2(1) [OF w [symmetric], of "Some manual" manual "(out, st1)" out st1] 3 by auto
    then show ?thesis using w 3 o(1) by (intro exI [of _ st'] exI [of _ "Suc k"] exI [of _ ended]) simp
  qed (use 2 w wait_ends_only_idle in \<open>auto intro: exI [of _ 0]\<close>)
qed auto

text \<open>The progress of a scan counts the entries one by one, so the last notice before the end names their number.\<close>

lemma sni_progress_counts: "i < length es \<Longrightarrow> sni_progress n es ! i = ScanProgress None (Suc (n + i)) (Some (se_score (es ! i)))"
  by (induction es arbitrary: n i) (auto simp: nth_Cons split: nat.splits)

lemma ip_progress_counts:
  "filter (\<lambda>x. case x of ScanProgress (Some p) _ _ \<Rightarrow> p = ''probe'' | _ \<Rightarrow> False) (ip_progress n evs)
     = map (\<lambda>(i, e). ScanProgress (Some ''probe'') (Suc i) (Some (ie_score e)))
         (enumerate n (List.map_filter (\<lambda>ev. case ev of ProbeComplete e \<Rightarrow> Some e | _ \<Rightarrow> None) evs))"
  by (induction n evs rule: ip_progress.induct) (auto simp: map_filter_simps)

end
