(* ===== verification/Network_Monitor.thy ===== *)
theory Network_Monitor
  imports Prelude
begin

text \<open>
  Network changes: the interface bindings of src/crates/zerodpi-core/src/net.rs and the monitor of
  src/crates/zerodpi-platform/src/netmon/mod.rs. The platform source, the clock and the probe are given as a list of turns; an exhausted list
  means that the loop is still running. Times are milliseconds.
\<close>

section \<open>Bindings and events\<close>

record InterfaceBinding =
  ib_ip :: ipv4
  ib_if_index :: u32
  ib_if_name :: string

datatype NetworkChangeSource = Address | Route | Link | Poll

definition classify_nlmsg :: "u16 \<Rightarrow> NetworkChangeSource option" where
  "classify_nlmsg t = (if t \<in> {20, 21} then Some Address else if t \<in> {24, 25} then Some Route else if t \<in> {16, 17} then Some Link else None)"

section \<open>The monitor\<close>

record SettleState =
  ss_settle :: nat
  ss_pending :: "(NetworkChangeSource \<times> nat) option"

definition settle_record :: "NetworkChangeSource \<Rightarrow> nat \<Rightarrow> SettleState \<Rightarrow> SettleState" where
  "settle_record kind now st = st\<lparr>ss_pending := Some (kind, now + ss_settle st)\<rparr>"

definition settle_timeout :: "nat \<Rightarrow> SettleState \<Rightarrow> nat option" where
  "settle_timeout now st = map_option (\<lambda>(_, deadline). deadline - now) (ss_pending st)"

definition settle_due :: "nat \<Rightarrow> SettleState \<Rightarrow> NetworkChangeSource option \<times> SettleState" where
  "settle_due now st = (case ss_pending st of
     Some (kind, deadline) \<Rightarrow> if deadline \<le> now then (Some kind, st\<lparr>ss_pending := None\<rparr>) else (None, st)
   | None \<Rightarrow> (None, st))"

text \<open>\<^verbatim>\<open>ChangeFilter::observe\<close>: whether to emit, and the remembered value.\<close>

definition observe :: "InterfaceBinding option \<Rightarrow> InterfaceBinding option \<Rightarrow> bool \<times> InterfaceBinding option" where
  "observe v seen = (if v \<noteq> seen then (True, v) else (False, seen))"

datatype SourceEvent = Change NetworkChangeSource | Timeout | Shutdown

text \<open>One turn of the loop: whether it may run, what the source reports, the time then and what a probe would see.\<close>

record Turn =
  tn_should_run :: bool
  tn_event :: SourceEvent
  tn_now :: nat
  tn_probe :: "InterfaceBinding option"

fun monitor_loop :: "SettleState \<Rightarrow> InterfaceBinding option \<Rightarrow> Turn list \<Rightarrow> NetworkChangeSource list \<times> InterfaceBinding option" where
  "monitor_loop st seen [] = ([], seen)"
| "monitor_loop st seen (t # ts) =
     (if \<not> tn_should_run t then ([], seen)
      else (case tn_event t of
        Change kind \<Rightarrow> monitor_loop (settle_record kind (tn_now t) st) seen ts
      | Shutdown \<Rightarrow> ([], seen)
      | Timeout \<Rightarrow> (case settle_due (tn_now t) st of (kind, st') \<Rightarrow> (case observe (tn_probe t) seen of
          (changed, seen') \<Rightarrow> (case monitor_loop st' seen' ts of (out, final) \<Rightarrow>
            (if changed then (case kind of Some k \<Rightarrow> k | None \<Rightarrow> Poll) # out else out, final))))))"

section \<open>Monitor: what is emitted\<close>

text \<open>The values a running monitor sees at its timeouts.\<close>

definition observed :: "Turn list \<Rightarrow> InterfaceBinding option list" where
  "observed ts = map tn_probe (filter (\<lambda>t. tn_event t = Timeout) (takeWhile (\<lambda>t. tn_should_run t \<and> tn_event t \<noteq> Shutdown) ts))"

fun transitions :: "'a \<Rightarrow> 'a list \<Rightarrow> nat" where
  "transitions seen [] = 0"
| "transitions seen (v # vs) = (if v \<noteq> seen then Suc (transitions v vs) else transitions seen vs)"

lemma monitor_emits:
  "length (fst (monitor_loop st seen ts)) = transitions seen (observed ts)
    \<and> snd (monitor_loop st seen ts) = last (seen # observed ts)"
proof (induction ts arbitrary: st seen)
  case (Cons t ts)
  show ?case
  proof (cases "tn_should_run t \<and> tn_event t \<noteq> Shutdown")
    case True
    note ih = Cons.IH
    show ?thesis
    proof (cases "tn_event t")
      case (Change k)
      then show ?thesis using True ih by (simp add: observed_def)
    next
      case Timeout
      obtain k st' where due: "settle_due (tn_now t) st = (k, st')" by fastforce
      obtain out fin where rest: "monitor_loop st' (tn_probe t) ts = (out, fin)" by fastforce
      show ?thesis using Timeout True due rest ih [of st' "tn_probe t"]
        by (cases "tn_probe t = seen") (simp_all add: observed_def observe_def)
    qed (use True in simp)
  next
    case False
    then show ?thesis by (cases "tn_event t") (auto simp: observed_def)
  qed
qed (simp add: observed_def)

text \<open>
  The network monitor reports a change exactly when the outbound binding changed: over every sequence of platform events and timeouts, however
  bursty, the number of events it emits is the number of times the binding seen at a timeout differs from the one remembered, and what it remembers
  at the end is the binding last seen.
\<close>

theorem monitor_reports_each_change: "case monitor_loop \<lparr>ss_settle = settle, ss_pending = None\<rparr> initial turns of (out, final) \<Rightarrow>
    length out = transitions initial (observed turns) \<and> final = last (initial # observed turns)"
  using monitor_emits [of "\<lparr>ss_settle = settle, ss_pending = None\<rparr>" initial turns] by (simp add: case_prod_unfold)

end
