(* ===== verification/Ping_Monitor.thy ===== *)
theory Ping_Monitor
  imports Target_Pool Network_Monitor "HOL-Library.Multiset"
begin

text \<open>
  Live latency of the targets, src/crates/zerodpi-core/src/target\_pool/ping.rs with the watch channel of
  src/crates/zerodpi-core/src/net.rs: one round probes every member of the pool, a bounded number at a time, and writes a result back unless the pool
  or the network has changed since the round began. A round is driven by a list of events, the ends of probes and the changes others make, in any order.
\<close>

section \<open>The channel of interface bindings\<close>

record BindingChannel =
  bc_binding :: InterfaceBinding
  bc_version :: nat

definition binding_set :: "InterfaceBinding \<Rightarrow> BindingChannel \<Rightarrow> BindingChannel" where
  "binding_set b ch = ch\<lparr>bc_binding := b, bc_version := bc_version ch + 1\<rparr>"

text \<open>The binding and the version a receiver has then seen.\<close>

definition mark_current :: "BindingChannel \<Rightarrow> InterfaceBinding \<times> nat" where
  "mark_current ch = (bc_binding ch, bc_version ch)"

definition binding_unchanged :: "nat \<Rightarrow> BindingChannel \<Rightarrow> bool" where
  "binding_unchanged seen ch = (bc_version ch = seen)"

section \<open>The monitor\<close>

text \<open>When \<^verbatim>\<open>start\<close> starts a monitor: the interval and the timeout in seconds, and the number of probes at a time.\<close>

definition ping_start :: "Config \<Rightarrow> (nat \<times> nat \<times> nat) option" where
  "ping_start c =
     (if \<not> LOAD_BALANCE_ENABLED c \<or> LOAD_BALANCE_STRATEGY c \<noteq> LeastPing
         \<or> MODE c \<notin> {''sni_spoof'', ''ip_bypass'', ''ip_bypass_plus''} then None
      else Some (LOAD_BALANCE_PING_INTERVAL_SECS c, SCAN_TIMEOUT_SECS c,
        if MODE c = ''sni_spoof'' then SNI_MAX_CONCURRENT c else IP_MAX_P1_CONCURRENT c))"

text \<open>
  The locals of a round beside the shared pool and channel; \<open>mo_done\<close> records the targets whose task has ended.
\<close>

record PingRound =
  mo_pool :: PoolState
  mo_channel :: BindingChannel
  mo_generation :: u64
  mo_binding :: InterfaceBinding
  mo_seen :: nat
  mo_remaining :: "Target list"
  mo_tasks :: "Target list"
  mo_done :: "Target list"

fun fill_probes :: "nat \<Rightarrow> Target list \<Rightarrow> Target list \<Rightarrow> Target list \<times> Target list" where
  "fill_probes limit tasks [] = (tasks, [])"
| "fill_probes limit tasks (t # ts) =
     (if length tasks < max limit 1 then fill_probes limit (tasks @ [t]) ts else (tasks, t # ts))"

definition spawn_tasks :: "nat \<Rightarrow> PingRound \<Rightarrow> PingRound" where
  "spawn_tasks limit m = (let (tasks, remaining) = fill_probes limit (mo_tasks m) (mo_remaining m) in
     m\<lparr>mo_tasks := tasks, mo_remaining := remaining\<rparr>)"

definition begin_round :: "nat \<Rightarrow> PoolState \<Rightarrow> BindingChannel \<Rightarrow> PingRound" where
  "begin_round limit pool ch = (let (generation, targets) = probe_snapshot pool; (binding, seen) = mark_current ch in
     spawn_tasks limit \<lparr>mo_pool = pool, mo_channel = ch, mo_generation = generation, mo_binding = binding, mo_seen = seen,
       mo_remaining = targets, mo_tasks = [], mo_done = []\<rparr>)"

text \<open>\<^verbatim>\<open>timeout(...)\<close> of a connect that would take \<open>elapsed\<close>.\<close>

definition ping_result :: "nat \<Rightarrow> nat \<Rightarrow> bool \<Rightarrow> nat option" where
  "ping_result timeout elapsed answered = (if timeout < elapsed \<or> \<not> answered then None else Some elapsed)"

text \<open>
  The task at a place of the join set ends with a connect or with a panic; the pool is replaced by another of its states, or the binding is set.
\<close>

datatype PingEvent = PDone nat nat bool | PPanicked nat | PPool PoolState | PBinding InterfaceBinding

definition end_task :: "nat \<Rightarrow> nat \<Rightarrow> PingRound \<Rightarrow> PingRound" where
  "end_task limit i m = spawn_tasks limit (m\<lparr>mo_tasks := take i (mo_tasks m) @ drop (Suc i) (mo_tasks m),
     mo_done := mo_done m @ [mo_tasks m ! i]\<rparr>)"

fun ping_step :: "nat \<Rightarrow> nat \<Rightarrow> PingEvent \<Rightarrow> PingRound \<Rightarrow> PingRound res" where
  "ping_step limit timeout (PDone i elapsed answered) m =
     (if length (mo_tasks m) \<le> i then Ok m
      else if binding_unchanged (mo_seen m) (mo_channel m)
      then (case update_ping (mo_generation m) (mo_tasks m ! i) (ping_result timeout elapsed answered) (mo_pool m) of
          Panic \<Rightarrow> Panic | Ok pool \<Rightarrow> Ok (end_task limit i (m\<lparr>mo_pool := pool\<rparr>)))
      else Ok (end_task limit i m))"
| "ping_step limit timeout (PPanicked i) m = Ok (if length (mo_tasks m) \<le> i then m else end_task limit i m)"
| "ping_step limit timeout (PPool pool) m = Ok (m\<lparr>mo_pool := pool\<rparr>)"
| "ping_step limit timeout (PBinding b) m = Ok (m\<lparr>mo_channel := binding_set b (mo_channel m)\<rparr>)"

fun ping_run :: "nat \<Rightarrow> nat \<Rightarrow> PingEvent list \<Rightarrow> PingRound \<Rightarrow> PingRound res" where
  "ping_run limit timeout [] m = Ok m"
| "ping_run limit timeout (ev # evs) m = (case ping_step limit timeout ev m of Panic \<Rightarrow> Panic
     | Ok m' \<Rightarrow> ping_run limit timeout evs m')"

section \<open>Lemmas\<close>

lemma fill_probes_spec:
  assumes "fill_probes limit tasks ts = (tasks', ts')"
  shows "tasks' @ ts' = tasks @ ts" "length tasks \<le> max limit 1 \<Longrightarrow> length tasks' \<le> max limit 1"
    "ts' \<noteq> [] \<Longrightarrow> max limit 1 \<le> length tasks'"
  using assms by (induction limit tasks ts rule: fill_probes.induct) (auto split: if_splits)

text \<open>
  The invariant of a round over the targets \<open>ts\<close> of its snapshot: every target is ended, running or waiting, the running ones are at most the limit,
  and nobody waits while there is room.
\<close>

definition round_ok :: "nat \<Rightarrow> Target list \<Rightarrow> PingRound \<Rightarrow> bool" where
  "round_ok limit ts m = (pool_ok (mo_pool m) \<and> length (mo_tasks m) \<le> max limit 1
     \<and> (mo_remaining m \<noteq> [] \<longrightarrow> max limit 1 \<le> length (mo_tasks m))
     \<and> mset (mo_done m) + mset (mo_tasks m) + mset (mo_remaining m) = mset ts)"

lemma spawn_tasks_ok:
  assumes "pool_ok (mo_pool m)" "length (mo_tasks m) \<le> max limit 1"
    and "mset (mo_done m) + mset (mo_tasks m) + mset (mo_remaining m) = mset ts"
  shows "round_ok limit ts (spawn_tasks limit m)"
proof -
  obtain tasks ts' where f: "fill_probes limit (mo_tasks m) (mo_remaining m) = (tasks, ts')" by force
  note s = fill_probes_spec [OF f]
  have "mset tasks + mset ts' = mset (mo_tasks m) + mset (mo_remaining m)" using s(1) by (metis mset_append)
  then show ?thesis using assms s(2,3) by (auto simp: round_ok_def spawn_tasks_def f add.assoc)
qed

lemma begin_round_ok: "pool_ok pool \<Longrightarrow> round_ok limit (map pm_target (ps_members pool)) (begin_round limit pool ch)"
  unfolding begin_round_def by (simp add: probe_snapshot_def mark_current_def spawn_tasks_ok)

lemma end_task_ok:
  assumes "round_ok limit ts m" "i < length (mo_tasks m)" "pool_ok pool"
  shows "round_ok limit ts (end_task limit i (m\<lparr>mo_pool := pool\<rparr>))"
proof -
  let ?t = "mo_tasks m"
  have "mset ?t = mset (take i ?t @ ?t ! i # drop (Suc i) ?t)" using id_take_nth_drop [OF assms(2)] by simp
  then have "mset ?t = add_mset (?t ! i) (mset (take i ?t) + mset (drop (Suc i) ?t))" by simp
  then show ?thesis unfolding end_task_def using assms by (intro spawn_tasks_ok) (auto simp: round_ok_def)
qed

lemma end_task_same_pool: "end_task limit i m = end_task limit i (m\<lparr>mo_pool := mo_pool m\<rparr>)"
  by simp

definition event_ok :: "PingEvent \<Rightarrow> bool" where
  "event_ok ev = (case ev of PPool pool \<Rightarrow> pool_ok pool | _ \<Rightarrow> True)"

lemma ping_step_ok:
  assumes "round_ok limit ts m" "event_ok ev"
  shows "\<exists>m'. ping_step limit timeout ev m = Ok m' \<and> round_ok limit ts m'"
proof (cases ev)
  case (PDone i elapsed answered)
  have p: "history_ok (mo_pool m)" "members_ok (mo_pool m)" "pool_ok (mo_pool m)" using assms(1) by (auto simp: round_ok_def pool_ok_def)
  obtain pool where u: "update_ping (mo_generation m) (mo_tasks m ! i) (ping_result timeout elapsed answered) (mo_pool m) = Ok pool"
    using update_ping_total [OF p(1,2)] by blast
  have "pool_ok pool" using update_ping_ok [OF p(1,2) u] by simp
  then show ?thesis using assms(1) p(3) end_task_ok [OF assms(1), of i] end_task_ok [OF assms(1), of i "mo_pool m"]
    by (auto simp: PDone u)
next
  case (PPanicked i)
  then show ?thesis using assms(1) end_task_ok [OF assms(1), of i "mo_pool m"] by (auto simp: round_ok_def)
qed (use assms in \<open>auto simp: round_ok_def event_ok_def\<close>)

lemma ping_run_ok:
  assumes "round_ok limit ts m" "\<forall>ev \<in> set evs. event_ok ev"
  shows "\<exists>m'. ping_run limit timeout evs m = Ok m' \<and> round_ok limit ts m'"
  using assms
proof (induction evs arbitrary: m)
  case (Cons ev evs)
  then obtain m1 where "ping_step limit timeout ev m = Ok m1" "round_ok limit ts m1" using ping_step_ok by (metis list.set_intros(1))
  then show ?case using Cons by simp
qed simp

text \<open>A stale round stays stale, and a stale round changes the pool no more.\<close>

lemma spawn_tasks_keeps [simp]: "mo_pool (spawn_tasks limit m) = mo_pool m" "mo_channel (spawn_tasks limit m) = mo_channel m"
  "mo_seen (spawn_tasks limit m) = mo_seen m" "mo_generation (spawn_tasks limit m) = mo_generation m" "mo_done (spawn_tasks limit m) = mo_done m"
  by (simp_all add: spawn_tasks_def split: prod.splits)

definition stale :: "PingRound \<Rightarrow> bool" where
  "stale m = (mo_seen m < bc_version (mo_channel m))"

lemma ping_step_stale:
  assumes "stale m" "ping_step limit timeout ev m = Ok m'"
  shows "stale m' \<and> (case ev of PPool pool \<Rightarrow> mo_pool m' = pool | _ \<Rightarrow> mo_pool m' = mo_pool m)"
  using assms by (cases ev) (auto simp: stale_def end_task_def binding_unchanged_def binding_set_def split: if_splits)

text \<open>
  One round of the monitor, whatever ends first and whatever others do to the pool and the network meanwhile: it never panics, keeps the pool well formed
  and never has more probes running than the limit; every target of the snapshot has ended, runs or waits exactly once, and when no probe
  runs all have ended.
\<close>

theorem ping_round_covers:
  assumes "pool_ok pool" "\<forall>ev \<in> set evs. event_ok ev"
  shows "\<exists>m. ping_run limit timeout evs (begin_round limit pool ch) = Ok m \<and> pool_ok (mo_pool m) \<and> length (mo_tasks m) \<le> max limit 1
    \<and> mset (mo_done m) + mset (mo_tasks m) + mset (mo_remaining m) = mset (map pm_target (ps_members pool))
    \<and> (mo_tasks m = [] \<longrightarrow> mset (mo_done m) = mset (map pm_target (ps_members pool)))"
proof -
  obtain m where m: "ping_run limit timeout evs (begin_round limit pool ch) = Ok m" "round_ok limit (map pm_target (ps_members pool)) m"
    using ping_run_ok [OF begin_round_ok [OF assms(1)] assms(2)] by blast
  moreover have "mo_remaining m = []" if "mo_tasks m = []" using m(2) that by (auto simp: round_ok_def)
  ultimately show ?thesis by (auto simp: round_ok_def)
qed

text \<open>
  A result measured over another network is never stored: once the binding has been set, even to the same value, the rest of the round leaves
  the pool as it is, up to the changes others make.
\<close>

theorem stale_results_discarded:
  assumes "stale m" "ping_run limit timeout evs m = Ok m'" "\<forall>ev \<in> set evs. case ev of PPool _ \<Rightarrow> False | _ \<Rightarrow> True"
  shows "mo_pool m' = mo_pool m"
  using assms
proof (induction evs arbitrary: m)
  case (Cons ev evs)
  then obtain m1 where m1: "ping_step limit timeout ev m = Ok m1" "ping_run limit timeout evs m1 = Ok m'" by (auto split: res.splits)
  have "stale m1" "mo_pool m1 = mo_pool m" using ping_step_stale [OF Cons.prems(1) m1(1)] Cons.prems(3) by (auto split: PingEvent.splits)
  then show ?case using Cons.IH [OF _ m1(2)] Cons.prems(3) by simp
qed simp

lemma binding_set_stale:
  assumes "mo_seen m \<le> bc_version (mo_channel m)"
  shows "\<exists>m'. ping_step limit timeout (PBinding b) m = Ok m' \<and> stale m'"
  using assms by (simp add: stale_def binding_set_def)

text \<open>A new generation of the pool discards the results in the same way.\<close>

lemma new_generation_discards:
  assumes "ps_generation (mo_pool m) \<noteq> mo_generation m" "ping_step limit timeout (PDone i elapsed answered) m = Ok m'"
  shows "mo_pool m' = mo_pool m"
  using assms by (auto simp: update_ping_def end_task_def split: if_splits)

text \<open>The monitor runs only in the modes that relay, with load balancing by latency.\<close>

lemma ping_start_iff: "ping_start c \<noteq> None \<longleftrightarrow> LOAD_BALANCE_ENABLED c \<and> LOAD_BALANCE_STRATEGY c = LeastPing
    \<and> (MODE c = ''sni_spoof'' \<or> MODE c = ''ip_bypass'' \<or> MODE c = ''ip_bypass_plus'')"
  by (auto simp: ping_start_def)

end
