(* ===== verification/Socket_Side.thy ===== *)
theory Socket_Side
  imports Flow Tls_Padding Mixed_Case Tls_Records
begin

text \<open>
  The proxy's side of a connection, src/crates/zerodpi-core/src/proxy.rs with the writers of methods/tcp\_segmentation.rs,
  methods/sni\_boundary\_frag.rs and methods/tls\_record\_split.rs. A flushed write is its bytes with the delay that follows it.
  The client's stream is the list of bytes it sends before it closes. The handler of an intercepted connection is a function of what
  the world answers (the record \<open>ConnEnv\<close>) to the trace of what it does; seeds of the generators are in that record too.
\<close>

section \<open>Reading\<close>

definition MAX_TLS_RECORD_BODY :: nat where
  "MAX_TLS_RECORD_BODY = 16384"

datatype ReadError = HeaderEof | BodyTooLong nat | BodyEof | ClientClosed | ReadTimeout

definition read_one_tls_record :: "bytes \<Rightarrow> ReadError + (bytes \<times> bytes)" where
  "read_one_tls_record src =
     (if length src < 5 then Inl HeaderEof
      else (let body_len = unat (u16_from_be (src ! 3) (src ! 4)) in
        if MAX_TLS_RECORD_BODY < body_len then Inl (BodyTooLong body_len)
        else if length (drop 5 src) < body_len then Inl BodyEof
        else Inr (take (5 + body_len) src, drop (5 + body_len) src)))"

text \<open>One \<^verbatim>\<open>read\<close> into a buffer of 64 KiB: \<open>n\<close> is how much of the stream has arrived.\<close>

definition read_one_client_write :: "nat \<Rightarrow> bytes \<Rightarrow> ReadError + (bytes \<times> bytes)" where
  "read_one_client_write n src = (let k = min n (64 * 1024) in
     if take k src = [] then Inl ClientClosed else Inr (take k src, drop k src))"

section \<open>Writing\<close>

type_synonym flushed_write = "bytes \<times> nat"

record TcpSegmentation =
  sg_packets :: TlsFragPackets
  sg_length :: Int32Range
  sg_interval_ms :: Int32Range
  sg_nodelay :: bool

definition tcp_segmentation_new :: "Config \<Rightarrow> TcpSegmentation res" where
  "tcp_segmentation_new c = (case parse_tls_frag_packets (TLS_FRAG_PACKETS c) of Inl _ \<Rightarrow> Panic
   | Inr packets \<Rightarrow> (case tls_frag_length_range c of None \<Rightarrow> Panic
     | Some len \<Rightarrow> Ok \<lparr>sg_packets = packets, sg_length = len, sg_interval_ms = TLS_FRAG_INTERVAL_MS c, sg_nodelay = TCP_SEG_NODELAY c\<rparr>))"

definition fragments_write :: "TcpSegmentation \<Rightarrow> nat \<Rightarrow> bool" where
  "fragments_write s write_index = includes_write (sg_packets s) write_index"

text \<open>
  The loop of \<^verbatim>\<open>write_fragmented\<close> on the data not yet sent: \<open>None\<close> would be a loop that never ends, which a chunk length of
  zero causes. The casts to \<^verbatim>\<open>usize\<close> and \<^verbatim>\<open>u64\<close> are taken modulo \<open>2 ^ 64\<close>.
\<close>

partial_function (option) fragment_writes :: "Int32Range \<Rightarrow> Int32Range \<Rightarrow> u64 \<Rightarrow> bytes \<Rightarrow> flushed_write list res option" where
  "fragment_writes len interval rng data =
     (if data = [] then Some (Ok [])
      else (case sample_i32 len rng of Panic \<Rightarrow> Some Panic
      | Ok (v, rng1) \<Rightarrow>
         (let chunk_len = min (nat (v mod 2 ^ 64)) (length data); rest = drop chunk_len data in
          if rest = [] then Some (Ok [(take chunk_len data, 0)])
          else (case sample_i32 interval rng1 of Panic \<Rightarrow> Some Panic
          | Ok (d, rng2) \<Rightarrow> Option.bind (fragment_writes len interval rng2 rest)
              (\<lambda>r. Some (case r of Panic \<Rightarrow> Panic | Ok ws \<Rightarrow> Ok ((take chunk_len data, nat (d mod 2 ^ 64)) # ws)))))))"

definition write_fragmented :: "u64 \<Rightarrow> bytes \<Rightarrow> Int32Range \<Rightarrow> Int32Range \<Rightarrow> flushed_write list res option" where
  "write_fragmented seed data len interval =
     (if range_min len < 1 \<or> range_min interval < 0 then Some Panic else fragment_writes len interval seed data)"

definition write_client_data :: "u64 \<Rightarrow> bytes \<Rightarrow> TcpSegmentation \<Rightarrow> nat \<Rightarrow> flushed_write list res option" where
  "write_client_data seed data s write_index =
     (if fragments_write s write_index then write_fragmented seed data (sg_length s) (sg_interval_ms s)
      else Some (Ok [(data, 0)]))"

text \<open>The delay between the two writes of a split; \<^verbatim>\<open>max(0)\<close> before the cast.\<close>

definition split_delay :: "u64 \<Rightarrow> Int32Range \<Rightarrow> nat res" where
  "split_delay seed delay = (case sample_i32 delay seed of Panic \<Rightarrow> Panic | Ok (d, _) \<Rightarrow> Ok (nat (max d 0)))"

definition write_boundary_split :: "u64 \<Rightarrow> bytes \<Rightarrow> nat \<Rightarrow> Int32Range \<Rightarrow> flushed_write list res" where
  "write_boundary_split seed data split delay =
     (if \<not> (0 < split \<and> split < length data) \<or> range_min delay < 0 then Panic
      else (case split_delay seed delay of Panic \<Rightarrow> Panic | Ok d \<Rightarrow> Ok [(take split data, d), (drop split data, 0)]))"

definition write_record_split :: "u64 \<Rightarrow> bytes \<Rightarrow> bytes \<Rightarrow> Int32Range \<Rightarrow> flushed_write list res" where
  "write_record_split seed first second delay =
     (if range_min delay < 0 then Panic
      else (case split_delay seed delay of Panic \<Rightarrow> Panic | Ok d \<Rightarrow> Ok [(first, d), (second, 0)]))"

section \<open>Settings of a connection\<close>

record ConnectionSettings =
  cs_upstream_nodelay :: bool
  cs_bypass_timeout :: nat
  cs_max_lifetime :: "nat option"
  cs_segment_first_client_hello :: bool
  cs_tls_padding :: "TlsPadding option"
  cs_ccs_prefix :: "bytes option"
  cs_mixed_case_sni :: "bool option"
  cs_sni_boundary_frag :: "(SniBoundarySplitPoint \<times> Int32Range) option"
  cs_tls_record_split :: "(SniBoundarySplitPoint \<times> Int32Range) option"
  cs_tcp_segmentation :: TcpSegmentation
  cs_fragment_all_data :: bool

definition configured_relay_max_lifetime :: "Config \<Rightarrow> nat option" where
  "configured_relay_max_lifetime c = (if 0 < RELAY_MAX_LIFETIME_SECS c then Some (RELAY_MAX_LIFETIME_SECS c) else None)"

definition configured_upstream_nodelay :: "Config \<Rightarrow> bool" where
  "configured_upstream_nodelay c = (let ms = set (BYPASS_METHOD c) in
     TCP_NODELAY c \<or> (''tls_frag'' \<in> ms \<and> TCP_SEG_NODELAY c) \<or> ''sni_boundary_frag'' \<in> ms
     \<or> ''tls_record_split'' \<in> ms \<or> ''ccs_prefix'' \<in> ms)"

text \<open>The \<^verbatim>\<open>expect\<close> calls of \<^verbatim>\<open>TlsPadding::new\<close> and \<^verbatim>\<open>CcsPrefix::new\<close>.\<close>

definition tls_padding_new :: "Config \<Rightarrow> TlsPadding res" where
  "tls_padding_new c = (case parse_padding_position (TLS_PADDING_POSITION c) of None \<Rightarrow> Panic
     | Some p \<Rightarrow> Ok \<lparr>pad_size = TLS_PADDING_SIZE c, pad_position = p\<rparr>)"

definition ccs_prefix_new :: "Config \<Rightarrow> bytes res" where
  "ccs_prefix_new c = (case parse_record_version (CCS_PREFIX_RECORD_VERSION c) of Inl _ \<Rightarrow> Panic | Inr v \<Rightarrow> Ok v)"

definition when_listed :: "string list \<Rightarrow> string \<Rightarrow> 'a res \<Rightarrow> ('a option \<Rightarrow> 'b res) \<Rightarrow> 'b res" where
  "when_listed ms name r k = (if name \<in> set ms then (case r of Panic \<Rightarrow> Panic | Ok v \<Rightarrow> k (Some v)) else k None)"

definition settings_from_config :: "Config \<Rightarrow> ConnectionSettings res" where
  "settings_from_config c = (let ms = BYPASS_METHOD c in
     case tcp_segmentation_new c of Panic \<Rightarrow> Panic
     | Ok segmentation \<Rightarrow>
       when_listed ms ''tls_padding'' (tls_padding_new c) (\<lambda>padding.
       when_listed ms ''ccs_prefix'' (ccs_prefix_new c) (\<lambda>ccs.
       when_listed ms ''mixed_case_sni'' (Ok (MIXED_CASE_SNI_FLIP_ALL c)) (\<lambda>mixed.
       when_listed ms ''sni_boundary_frag'' (Ok (SNI_BOUNDARY_FRAG_SPLIT_POINT c, SNI_BOUNDARY_FRAG_DELAY_MS c)) (\<lambda>boundary.
       when_listed ms ''tls_record_split'' (Ok (TLS_RECORD_SPLIT_POINT c, TLS_RECORD_SPLIT_DELAY_MS c)) (\<lambda>split.
         Ok \<lparr>cs_upstream_nodelay = configured_upstream_nodelay c, cs_bypass_timeout = BYPASS_TIMEOUT_SECS c,
            cs_max_lifetime = configured_relay_max_lifetime c, cs_segment_first_client_hello = (''tls_frag'' \<in> set ms),
            cs_tls_padding = padding, cs_ccs_prefix = ccs, cs_mixed_case_sni = mixed, cs_sni_boundary_frag = boundary,
            cs_tls_record_split = split, cs_tcp_segmentation = segmentation,
            cs_fragment_all_data = (''ip_frag'' \<in> set ms \<and> \<not> IP_FRAG_ONLY_FIRST_PACKET c
              \<or> ''disorder'' \<in> set ms \<and> \<not> DISORDER_ONLY_FIRST_PACKET c)\<rparr>))))))"

text \<open>\<^verbatim>\<open>unwrap_or(out)\<close> after each transform.\<close>

definition or_unchanged :: "bytes \<Rightarrow> bytes option res \<Rightarrow> bytes res" where
  "or_unchanged out r = (case r of Panic \<Rightarrow> Panic | Ok None \<Rightarrow> Ok out | Ok (Some b) \<Rightarrow> Ok b)"

definition apply_socket_transforms :: "ConnectionSettings \<Rightarrow> u64 \<Rightarrow> u64 \<Rightarrow> bytes \<Rightarrow> bytes res" where
  "apply_socket_transforms s pad_seed case_seed r =
     (case (case cs_tls_padding s of None \<Rightarrow> Ok r | Some p \<Rightarrow> or_unchanged r (padding_apply p r pad_seed)) of
        Panic \<Rightarrow> Panic
      | Ok out \<Rightarrow> (case cs_mixed_case_sni s of None \<Rightarrow> Ok out
          | Some flip_all \<Rightarrow> or_unchanged out (mixed_case_apply flip_all out case_seed)))"

section \<open>An intercepted connection\<close>

datatype BypassProgress = ReadyForData | Complete BypassOutcome

definition current_bypass_progress :: "FlowEntry \<Rightarrow> BypassProgress option" where
  "current_bypass_progress e = (case outcome (fe_state e) of Some o' \<Rightarrow> Some (Complete o')
   | None \<Rightarrow> if waiting_for_data (fe_state e) then Some ReadyForData else None)"

text \<open>
  What the connection meets: whether the target is an IPv4 address and the socket is bound (\<open>ce_bound\<close>: both failures return
  before anything happens), the flow registered and the upstream connected; what the two waits return (\<open>None\<close> for the timeout);
  the client's bytes, how many arrive with the first read and whether they do in time; which
  upstream writes succeed.
\<close>

record ConnEnv =
  ce_pad_seed :: u64
  ce_case_seed :: u64
  ce_frag_seed :: u64
  ce_delay_seed :: u64
  ce_bound :: bool
  ce_registered :: bool
  ce_connected :: bool
  ce_progress :: "BypassProgress option"
  ce_client :: bytes
  ce_read_len :: nat
  ce_in_time :: bool
  ce_write_ok :: "nat \<Rightarrow> bool"
  ce_completion :: "BypassOutcome option"

datatype ProxyEvent = ConnectionAccepted | ConnectionError | BypassComplete BypassOutcome | RelayFinished

datatype ConnAction = ARegister FlowKey | AConnect | AWrite bytes nat | AFinish BypassOutcome | AEvent ProxyEvent
  | ARelay bytes "(TcpSegmentation \<times> nat) option" | ARemove FlowKey

text \<open>What is written for the first client data, what is left of the client's stream, and how the relay goes on.\<close>

type_synonym first_data = "(ReadError + (flushed_write list \<times> bytes \<times> (TcpSegmentation \<times> nat) option)) res option"

definition with_client_hello :: "ConnectionSettings \<Rightarrow> ConnEnv \<Rightarrow> (bytes \<Rightarrow> bytes \<Rightarrow> first_data) \<Rightarrow> first_data" where
  "with_client_hello s env k =
     (if \<not> ce_in_time env then Some (Ok (Inl ReadTimeout))
      else (case read_one_tls_record (ce_client env) of Inl e \<Rightarrow> Some (Ok (Inl e))
      | Inr (r, rest) \<Rightarrow> (case apply_socket_transforms s (ce_pad_seed env) (ce_case_seed env) r of
          Panic \<Rightarrow> Some Panic | Ok hello \<Rightarrow> k hello rest)))"

definition planned :: "bytes \<Rightarrow> (TcpSegmentation \<times> nat) option \<Rightarrow> flushed_write list res \<Rightarrow> first_data" where
  "planned rest frag ws = Some (case ws of Panic \<Rightarrow> Panic | Ok l \<Rightarrow> Ok (Inr (l, rest, frag)))"

definition later_fragmentation :: "ConnectionSettings \<Rightarrow> (TcpSegmentation \<times> nat) option" where
  "later_fragmentation s = (if cs_segment_first_client_hello s then Some (cs_tcp_segmentation s, 1) else None)"

definition boundary_first_data :: "ConnectionSettings \<Rightarrow> ConnEnv \<Rightarrow> SniBoundarySplitPoint \<Rightarrow> Int32Range \<Rightarrow> first_data" where
  "boundary_first_data s env sp delay = with_client_hello s env (\<lambda>hello rest.
     planned rest (later_fragmentation s) (case split_offset sp hello of Panic \<Rightarrow> Panic
       | Ok (Some split) \<Rightarrow> write_boundary_split (ce_delay_seed env) hello split delay
       | Ok None \<Rightarrow> Ok [(hello, 0)]))"

definition record_split_first_data :: "ConnectionSettings \<Rightarrow> ConnEnv \<Rightarrow> SniBoundarySplitPoint \<Rightarrow> Int32Range \<Rightarrow> first_data" where
  "record_split_first_data s env sp delay = with_client_hello s env (\<lambda>hello rest.
     planned rest (later_fragmentation s) (case split_record sp hello of Panic \<Rightarrow> Panic
       | Ok (Some (first, second)) \<Rightarrow> write_record_split (ce_delay_seed env) first second delay
       | Ok None \<Rightarrow> Ok [(hello, 0)]))"

definition segmented_first_data :: "ConnectionSettings \<Rightarrow> ConnEnv \<Rightarrow> first_data" where
  "segmented_first_data s env = (let seg = cs_tcp_segmentation s in
     case sg_packets seg of
       TlsHello \<Rightarrow> with_client_hello s env (\<lambda>hello rest.
         Option.bind (write_fragmented (ce_frag_seed env) hello (sg_length seg) (sg_interval_ms seg)) (planned rest None))
     | WriteRange _ _ \<Rightarrow>
         (if \<not> ce_in_time env then Some (Ok (Inl ReadTimeout))
          else (case read_one_client_write (ce_read_len env) (ce_client env) of Inl e \<Rightarrow> Some (Ok (Inl e))
          | Inr (d, rest) \<Rightarrow> (case apply_socket_transforms s (ce_pad_seed env) (ce_case_seed env) d of Panic \<Rightarrow> Some Panic
            | Ok d' \<Rightarrow> Option.bind (write_client_data (ce_frag_seed env) d' seg 1) (planned rest (Some (seg, 1)))))))"

definition plain_first_data :: "ConnectionSettings \<Rightarrow> ConnEnv \<Rightarrow> first_data" where
  "plain_first_data s env = with_client_hello s env (\<lambda>hello rest. planned rest None (Ok [(hello, 0)]))"

definition first_data_plan :: "ConnectionSettings \<Rightarrow> ConnEnv \<Rightarrow> first_data" where
  "first_data_plan s env = (case cs_sni_boundary_frag s of
     Some (sp, delay) \<Rightarrow> boundary_first_data s env sp delay
   | None \<Rightarrow> (case cs_tls_record_split s of
       Some (sp, delay) \<Rightarrow> record_split_first_data s env sp delay
     | None \<Rightarrow> if cs_segment_first_client_hello s then segmented_first_data s env else plain_first_data s env))"

text \<open>The writes up to the first that fails.\<close>

fun perform :: "(nat \<Rightarrow> bool) \<Rightarrow> nat \<Rightarrow> flushed_write list \<Rightarrow> ConnAction list \<times> bool" where
  "perform ok n [] = ([], True)"
| "perform ok n ((b, d) # ws) =
     (if ok n then (case perform ok (Suc n) ws of (tr, r) \<Rightarrow> (AWrite b d # tr, r)) else ([], False))"

definition failed_bypass :: "ConnAction list" where
  "failed_bypass = [AFinish UnexpectedClose, AEvent (BypassComplete UnexpectedClose)]"

definition finish_bypass_or_error :: "BypassOutcome option \<Rightarrow> ConnAction list \<times> bool" where
  "finish_bypass_or_error o' = (case o' of
     Some FakeDataAcked \<Rightarrow> ([AEvent (BypassComplete FakeDataAcked)], True)
   | Some UnexpectedClose \<Rightarrow> ([AEvent (BypassComplete UnexpectedClose)], False)
   | None \<Rightarrow> (failed_bypass, False))"

definition ccs_writes :: "ConnectionSettings \<Rightarrow> flushed_write list" where
  "ccs_writes s = (case cs_ccs_prefix s of None \<Rightarrow> [] | Some v \<Rightarrow> [(ccs_record v, 0)])"

text \<open>The branch for \<^verbatim>\<open>ReadyForData\<close>: what it does, and, if it succeeds, what the relay starts with.\<close>

definition ready_phase :: "ConnectionSettings \<Rightarrow> ConnEnv \<Rightarrow> (ConnAction list \<times> (bytes \<times> (TcpSegmentation \<times> nat) option) option) res option" where
  "ready_phase s env = (case perform (ce_write_ok env) 0 (ccs_writes s) of
     (tr1, False) \<Rightarrow> Some (Ok (tr1 @ failed_bypass, None))
   | (tr1, True) \<Rightarrow> (case first_data_plan s env of None \<Rightarrow> None | Some Panic \<Rightarrow> Some Panic
     | Some (Ok (Inl e)) \<Rightarrow> Some (Ok (tr1 @ failed_bypass, None))
     | Some (Ok (Inr (ws, rest, frag))) \<Rightarrow> (case perform (ce_write_ok env) (length (ccs_writes s)) ws of
         (tr2, False) \<Rightarrow> Some (Ok (tr1 @ tr2 @ failed_bypass, None))
       | (tr2, True) \<Rightarrow> (case finish_bypass_or_error (ce_completion env) of
           (tr3, ok) \<Rightarrow> Some (Ok (tr1 @ tr2 @ tr3, if ok then Some (rest, frag) else None))))))"

text \<open>From the connect to the end of the bypass.\<close>

definition bypass_phase :: "ConnectionSettings \<Rightarrow> ConnEnv \<Rightarrow> (ConnAction list \<times> (bytes \<times> (TcpSegmentation \<times> nat) option) option) res option" where
  "bypass_phase s env =
     (if \<not> ce_connected env then Some (Ok ([AFinish UnexpectedClose, AEvent ConnectionError], None))
      else (case ce_progress env of
        Some ReadyForData \<Rightarrow> map_option (\<lambda>r. case r of Panic \<Rightarrow> Panic | Ok (tr, res) \<Rightarrow> Ok (AConnect # tr, res)) (ready_phase s env)
      | p \<Rightarrow> (case finish_bypass_or_error (case p of Some (Complete o') \<Rightarrow> Some o' | _ \<Rightarrow> None) of
          (tr, ok) \<Rightarrow> Some (Ok (AConnect # tr, if ok then Some (ce_client env, None) else None)))))"

text \<open>The whole handler; the flag is whether it returns \<^verbatim>\<open>Ok\<close>. The guard removes the flow on every exit after the registration.\<close>

definition intercept_connection :: "ConnectionSettings \<Rightarrow> ConnEnv \<Rightarrow> FlowKey \<Rightarrow> (ConnAction list \<times> bool) res option" where
  "intercept_connection s env key =
     (if \<not> ce_bound env then Some (Ok ([], False))
      else if \<not> ce_registered env then Some (Ok ([AEvent ConnectionAccepted], False))
      else (case bypass_phase s env of None \<Rightarrow> None | Some Panic \<Rightarrow> Some Panic
      | Some (Ok (tr, None)) \<Rightarrow> Some (Ok (AEvent ConnectionAccepted # ARegister key # tr @ [ARemove key], False))
      | Some (Ok (tr, Some (rest, frag))) \<Rightarrow> Some (Ok (AEvent ConnectionAccepted # ARegister key # tr
          @ (if cs_fragment_all_data s then [ARelay rest frag, AEvent RelayFinished, ARemove key]
             else [ARemove key, ARelay rest frag, AEvent RelayFinished]), True))))"

section \<open>Fragmented writes\<close>

text \<open>Whatever the ranges, a run that returns has written the data.\<close>

lemma fragment_writes_concat:
  assumes "fragment_writes len interval rng data = Some r" "r = Ok ws"
  shows "concat (map fst ws) = data"
proof -
  have "\<forall>ws. r = Ok ws \<longrightarrow> concat (map fst ws) = data"
    using assms(1)
  proof (rule fragment_writes.raw_induct [rotated])
    fix f len interval rng data and y :: "flushed_write list res"
    assume ih: "\<And>len interval rng data y. f len interval rng data = Some y \<Longrightarrow> \<forall>ws. y = Ok ws \<longrightarrow> concat (map fst ws) = data"
      and eq: "(if data = [] then Some (Ok []) else (case sample_i32 len rng of Panic \<Rightarrow> Some Panic
        | Ok (v, rng1) \<Rightarrow> (let chunk_len = min (nat (v mod 2 ^ 64)) (length data); rest = drop chunk_len data in
          if rest = [] then Some (Ok [(take chunk_len data, 0)])
          else (case sample_i32 interval rng1 of Panic \<Rightarrow> Some Panic
          | Ok (d, rng2) \<Rightarrow> Option.bind (f len interval rng2 rest)
              (\<lambda>r. Some (case r of Panic \<Rightarrow> Panic | Ok ws \<Rightarrow> Ok ((take chunk_len data, nat (d mod 2 ^ 64)) # ws))))))) = Some y"
    show "\<forall>ws. y = Ok ws \<longrightarrow> concat (map fst ws) = data"
    proof (cases "sample_i32 len rng")
      case Panic
      then show ?thesis using eq by (auto split: if_splits)
    next
      case (Ok a)
      let ?n = "min (nat (fst a mod 2 ^ 64)) (length data)"
      have eq': "(if data = [] then Some (Ok []) else if drop ?n data = [] then Some (Ok [(take ?n data, 0)])
          else (case sample_i32 interval (snd a) of Panic \<Rightarrow> Some Panic
          | Ok (d, rng2) \<Rightarrow> Option.bind (f len interval rng2 (drop ?n data))
              (\<lambda>r. Some (case r of Panic \<Rightarrow> Panic | Ok ws \<Rightarrow> Ok ((take ?n data, nat (d mod 2 ^ 64)) # ws))))) = Some y"
        using eq unfolding Ok by (simp only: res.case case_prod_beta Let_def)
      have tl: "take ?n data @ drop ?n data = data" by (rule append_take_drop_id)
      show ?thesis
      proof (cases "data = [] \<or> drop ?n data = []")
        case True
        then show ?thesis using eq' tl by (auto split: if_splits)
      next
        case False
        show ?thesis
        proof (cases "sample_i32 interval (snd a)")
          case Panic
          then show ?thesis using eq' False by simp
        next
          case (Ok b)
          obtain r' where r': "f len interval (snd b) (drop ?n data) = Some r'"
            "y = (case r' of Panic \<Rightarrow> Panic | Ok ws \<Rightarrow> Ok ((take ?n data, nat (fst b mod 2 ^ 64)) # ws))"
            using eq' False Ok by (auto simp: case_prod_beta bind_eq_Some_conv)
          show ?thesis using ih [OF r'(1)] r'(2) tl by (cases r') auto
        qed
      qed
    qed
  qed
  then show ?thesis using assms(2) by blast
qed

definition in_range :: "Int32Range \<Rightarrow> nat \<Rightarrow> bool" where
  "in_range r n = (range_min r \<le> int n \<and> int n \<le> range_max r)"

lemma sampled_nat:
  assumes "i32_range r" "0 \<le> range_min r" "sample_i32 r rng = Ok (v, rng')"
  shows "in_range r (nat (v mod 2 ^ 64))"
proof -
  have "range_min r \<le> v" "v \<le> range_max r" using sample_i32_ordered [OF assms(1), of rng] assms(3) by auto
  moreover from this have "v mod 2 ^ 64 = v" using assms(1,2) by (intro mod_pos_pos_trivial) (auto simp: i32_range_def)
  ultimately show ?thesis using assms(2) by (simp add: in_range_def)
qed

lemma fragment_writes_total:
  assumes "i32_range len" "1 \<le> range_min len" "i32_range interval" "0 \<le> range_min interval"
  shows "\<exists>ws. fragment_writes len interval rng data = Some (Ok ws)
    \<and> (\<forall>w \<in> set (butlast ws). in_range len (length (fst w)) \<and> in_range interval (snd w))
    \<and> (ws \<noteq> [] \<longrightarrow> int (length (fst (last ws))) \<le> range_max len \<and> fst (last ws) \<noteq> [])"
proof (induction "length data" arbitrary: data rng rule: less_induct)
  case less
  show ?case
  proof (cases "data = []")
    case True
    then show ?thesis by (subst fragment_writes.simps) simp
  next
    case False
    obtain v rng1 where v: "sample_i32 len rng = Ok (v, rng1)" using sample_i32_ordered [OF assms(1), of rng] by blast
    obtain d rng2 where d: "sample_i32 interval rng1 = Ok (d, rng2)" using sample_i32_ordered [OF assms(3), of rng1] by blast
    let ?n = "nat (v mod 2 ^ 64)"
    have n: "in_range len ?n" using sampled_nat [OF assms(1) _ v] assms(2) by simp
    then have pos: "0 < ?n" using assms(2) by (simp add: in_range_def)
    show ?thesis
    proof (cases "length data \<le> ?n")
      case True
      then have "fragment_writes len interval rng data = Some (Ok [(data, 0)])"
        using False v by (subst fragment_writes.simps) (simp add: Let_def)
      moreover have "int (length data) \<le> range_max len" using True n unfolding in_range_def by linarith
      ultimately show ?thesis using False by simp
    next
      case small: False
      let ?rest = "drop ?n data"
      have "length ?rest < length data" using small pos by simp
      from less [OF this, of rng2] obtain ws where ws: "fragment_writes len interval rng2 ?rest = Some (Ok ws)"
        "\<forall>w \<in> set (butlast ws). in_range len (length (fst w)) \<and> in_range interval (snd w)"
        "ws \<noteq> [] \<longrightarrow> int (length (fst (last ws))) \<le> range_max len \<and> fst (last ws) \<noteq> []" by blast
      have "ws \<noteq> []" using fragment_writes_concat [OF ws(1) refl] small by auto
      have "fragment_writes len interval rng data = Some (Ok ((take ?n data, nat (d mod 2 ^ 64)) # ws))"
        using False v d small ws(1) by (subst fragment_writes.simps) (simp add: Let_def min_absorb1)
      moreover have "in_range len (length (take ?n data))" using n small by simp
      moreover have "in_range interval (nat (d mod 2 ^ 64))" using sampled_nat [OF assms(3,4) d] .
      ultimately show ?thesis using ws(2,3) \<open>ws \<noteq> []\<close> by auto
    qed
  qed
qed

text \<open>
  Fragmented writing ends and delivers. With the ranges an accepted configuration has, the writer always returns; the pieces it
  flushes are, in order, exactly the data; every piece but the last has a length from the configured range, the last is not empty and not longer
  than the range allows, and the pause after every piece but the last comes from the configured interval.
\<close>

theorem write_fragmented_delivers:
  assumes "i32_range len" "validate_at_least len 1" "i32_range interval" "validate_at_least interval 0"
  shows "\<exists>ws. write_fragmented seed data len interval = Some (Ok ws) \<and> concat (map fst ws) = data
    \<and> (\<forall>w \<in> set (butlast ws). in_range len (length (fst w)) \<and> in_range interval (snd w))
    \<and> (data \<noteq> [] \<longrightarrow> fst (last ws) \<noteq> [] \<and> int (length (fst (last ws))) \<le> range_max len)"
proof -
  have r: "1 \<le> range_min len" "0 \<le> range_min interval" using assms(2,4) by (simp_all add: validate_at_least_def)
  obtain ws where ws: "fragment_writes len interval seed data = Some (Ok ws)"
    "\<forall>w \<in> set (butlast ws). in_range len (length (fst w)) \<and> in_range interval (snd w)"
    "ws \<noteq> [] \<longrightarrow> int (length (fst (last ws))) \<le> range_max len \<and> fst (last ws) \<noteq> []"
    using fragment_writes_total [OF assms(1) r(1) assms(3) r(2)] by blast
  have c: "concat (map fst ws) = data" using fragment_writes_concat [OF ws(1) refl] .
  then have "data \<noteq> [] \<longrightarrow> ws \<noteq> []" by auto
  then show ?thesis using ws c r by (simp add: write_fragmented_def)
qed

lemma write_fragmented_delivers_witness:
  "\<exists>ws. write_fragmented 5 [1, 2, 3] (exact 2) (exact 0) = Some (Ok ws) \<and> concat (map fst ws) = [1, 2, 3]"
proof -
  have "i32_range (exact 2)" "validate_at_least (exact 2) 1" "i32_range (exact 0)" "validate_at_least (exact 0) 0"
    by (simp_all add: i32_range_def exact_def validate_at_least_def)
  from write_fragmented_delivers [OF this] show ?thesis by blast
qed

section \<open>The connection as a whole\<close>

definition writes_of :: "flushed_write list \<Rightarrow> ConnAction list" where
  "writes_of ws = map (\<lambda>(b, d). AWrite b d) ws"

lemma perform_prefix: "perform ok n ws = (tr, r) \<Longrightarrow> \<exists>k. tr = writes_of (take k ws) \<and> (r \<longrightarrow> tr = writes_of ws)"
proof (induction ok n ws arbitrary: tr r rule: perform.induct)
  case (2 ok n b d ws)
  show ?case
  proof (cases "ok n")
    case True
    obtain tr' r' where p: "perform ok (Suc n) ws = (tr', r')" by fastforce
    with 2 True obtain k where "tr' = writes_of (take k ws)" "r' \<longrightarrow> tr' = writes_of ws" by blast
    moreover have "tr = AWrite b d # tr'" "r = r'" using 2(2) True p by auto
    ultimately show ?thesis by (intro exI [of _ "Suc k"]) (simp add: writes_of_def)
  next
    case False
    then show ?thesis using 2(2) by (intro exI [of _ 0]) (simp add: writes_of_def)
  qed
qed (simp add: writes_of_def)

text \<open>The bytes a trace puts on the upstream socket, and what the first client data become.\<close>

fun action_bytes :: "ConnAction \<Rightarrow> bytes" where
  "action_bytes (AWrite b d) = b"
| "action_bytes _ = []"

definition upstream_bytes :: "ConnAction list \<Rightarrow> bytes" where
  "upstream_bytes tr = concat (map action_bytes tr)"

lemma upstream_bytes_simps [simp]:
  "upstream_bytes [] = []" "upstream_bytes (a # tr) = action_bytes a @ upstream_bytes tr"
  "upstream_bytes (tr @ tr') = upstream_bytes tr @ upstream_bytes tr'"
  by (simp_all add: upstream_bytes_def)

lemma upstream_bytes_writes [simp]: "upstream_bytes (writes_of ws) = concat (map fst ws)"
  by (induction ws) (auto simp: writes_of_def)

definition carries_hello :: "ConnectionSettings \<Rightarrow> bytes \<Rightarrow> bytes \<Rightarrow> bool" where
  "carries_hello s hello sent = (sent = hello \<or> (cs_sni_boundary_frag s = None \<and> (case cs_tls_record_split s of None \<Rightarrow> False
     | Some (sp, delay) \<Rightarrow> (case split_record sp hello of Ok (Some (first, second)) \<Rightarrow> sent = first @ second | _ \<Rightarrow> False))))"

definition delivers :: "ConnectionSettings \<Rightarrow> ConnEnv \<Rightarrow> bytes \<Rightarrow> bytes \<Rightarrow> bool" where
  "delivers s env sent rest = (\<exists>r hello. ce_client env = r @ rest \<and> r \<noteq> []
     \<and> apply_socket_transforms s (ce_pad_seed env) (ce_case_seed env) r = Ok hello \<and> carries_hello s hello sent)"

lemma read_one_tls_record_splits:
  assumes "read_one_tls_record src = Inr (r, rest)"
  shows "src = r @ rest" "r \<noteq> []"
  using assms by (auto simp: read_one_tls_record_def Let_def split: if_splits)

lemma read_one_client_write_splits:
  assumes "read_one_client_write n src = Inr (r, rest)"
  shows "src = r @ rest" "r \<noteq> []"
  using assms by (auto simp: read_one_client_write_def Let_def split: if_splits)

lemma with_client_hello_planned:
  assumes "with_client_hello s env k = Some (Ok (Inr p))"
  obtains r hello rest where "ce_client env = r @ rest" "r \<noteq> []"
    "apply_socket_transforms s (ce_pad_seed env) (ce_case_seed env) r = Ok hello" "k hello rest = Some (Ok (Inr p))"
  using assms read_one_tls_record_splits [of "ce_client env"]
  by (auto simp: with_client_hello_def split: if_splits sum.splits res.splits prod.splits)

lemma planned_eq: "planned rest frag ws = Some (Ok (Inr (l, rest', frag'))) \<longleftrightarrow> ws = Ok l \<and> rest' = rest \<and> frag' = frag"
  by (auto simp: planned_def split: res.splits)

lemma bind_planned_eq:
  "Option.bind w (planned rest frag) = Some (Ok (Inr (l, rest', frag'))) \<longleftrightarrow> w = Some (Ok l) \<and> rest' = rest \<and> frag' = frag"
  by (cases w) (auto simp: planned_eq)

lemma write_fragmented_concat: "write_fragmented seed data len interval = Some (Ok l) \<Longrightarrow> concat (map fst l) = data"
  using fragment_writes_concat by (auto simp: write_fragmented_def split: if_splits)

lemma write_client_data_concat: "write_client_data seed data g i = Some (Ok l) \<Longrightarrow> concat (map fst l) = data"
  using write_fragmented_concat by (auto simp: write_client_data_def split: if_splits)

lemma write_boundary_split_concat: "write_boundary_split seed data k delay = Ok l \<Longrightarrow> concat (map fst l) = data"
  by (auto simp: write_boundary_split_def split: if_splits res.splits)

lemma write_record_split_concat: "write_record_split seed a b delay = Ok l \<Longrightarrow> concat (map fst l) = a @ b"
  by (auto simp: write_record_split_def split: if_splits res.splits)

lemma first_data_plan_delivers:
  assumes "first_data_plan s env = Some (Ok (Inr (ws, rest, frag)))"
  shows "delivers s env (concat (map fst ws)) rest"
proof (cases "cs_sni_boundary_frag s")
  case (Some b)
  obtain sp delay where b: "b = (sp, delay)" by fastforce
  with Some assms have "boundary_first_data s env sp delay = Some (Ok (Inr (ws, rest, frag)))" by (simp add: first_data_plan_def)
  then obtain r hello where h: "ce_client env = r @ rest" "r \<noteq> []" "apply_socket_transforms s (ce_pad_seed env) (ce_case_seed env) r = Ok hello"
    "(case split_offset sp hello of Panic \<Rightarrow> Panic | Ok (Some split) \<Rightarrow> write_boundary_split (ce_delay_seed env) hello split delay
       | Ok None \<Rightarrow> Ok [(hello, 0)]) = Ok ws"
    by (auto simp: boundary_first_data_def planned_eq elim!: with_client_hello_planned)
  have "concat (map fst ws) = hello" using h(4) write_boundary_split_concat by (auto split: res.splits option.splits)
  then show ?thesis using h(1-3) by (auto simp: delivers_def carries_hello_def)
next
  case no_boundary: None
  show ?thesis
  proof (cases "cs_tls_record_split s")
    case (Some b)
    obtain sp delay where b: "b = (sp, delay)" by fastforce
    with Some no_boundary assms have "record_split_first_data s env sp delay = Some (Ok (Inr (ws, rest, frag)))" by (simp add: first_data_plan_def)
    then obtain r hello where h: "ce_client env = r @ rest" "r \<noteq> []" "apply_socket_transforms s (ce_pad_seed env) (ce_case_seed env) r = Ok hello"
      "(case split_record sp hello of Panic \<Rightarrow> Panic | Ok (Some (first, second)) \<Rightarrow> write_record_split (ce_delay_seed env) first second delay
         | Ok None \<Rightarrow> Ok [(hello, 0)]) = Ok ws"
      by (auto simp: record_split_first_data_def planned_eq elim!: with_client_hello_planned)
    have "carries_hello s hello (concat (map fst ws))"
      using h(4) write_record_split_concat Some b no_boundary by (auto simp: carries_hello_def split: res.splits option.splits)
    then show ?thesis using h(1-3) by (auto simp: delivers_def)
  next
    case no_split: None
    consider (plain) "\<not> cs_segment_first_client_hello s" | (hello) "cs_segment_first_client_hello s" "sg_packets (cs_tcp_segmentation s) = TlsHello"
      | (range) f t where "cs_segment_first_client_hello s" "sg_packets (cs_tcp_segmentation s) = WriteRange f t"
      by (cases "sg_packets (cs_tcp_segmentation s)") auto
    then have "\<exists>r hello. ce_client env = r @ rest \<and> r \<noteq> [] \<and> apply_socket_transforms s (ce_pad_seed env) (ce_case_seed env) r = Ok hello
      \<and> concat (map fst ws) = hello"
    proof cases
      case plain
      with assms no_boundary no_split have "plain_first_data s env = Some (Ok (Inr (ws, rest, frag)))" by (simp add: first_data_plan_def)
      then show ?thesis unfolding plain_first_data_def by (rule with_client_hello_planned) (auto simp: planned_eq)
    next
      case hello
      with assms no_boundary no_split have "segmented_first_data s env = Some (Ok (Inr (ws, rest, frag)))" by (simp add: first_data_plan_def)
      then show ?thesis using hello(2) write_fragmented_concat
        by (auto simp: segmented_first_data_def bind_planned_eq Let_def elim!: with_client_hello_planned)
    next
      case range
      with assms no_boundary no_split have "segmented_first_data s env = Some (Ok (Inr (ws, rest, frag)))" by (simp add: first_data_plan_def)
      then show ?thesis using range(2) write_client_data_concat read_one_client_write_splits [of "ce_read_len env" "ce_client env"]
        by (auto simp: segmented_first_data_def bind_planned_eq Let_def split: if_splits sum.splits res.splits)
    qed
    then show ?thesis by (auto simp: delivers_def carries_hello_def)
  qed
qed

text \<open>The shapes of a trace between the registration and the relay.\<close>

definition bypass_tail :: "'a option \<Rightarrow> ConnAction list \<Rightarrow> bool" where
  "bypass_tail res tail = (case res of
     None \<Rightarrow> tail = failed_bypass \<or> tail = [AEvent (BypassComplete UnexpectedClose)]
   | Some _ \<Rightarrow> tail = [AEvent (BypassComplete FakeDataAcked)])"

lemma finish_bypass_tail: "finish_bypass_or_error o' = (tr, ok) \<Longrightarrow> bypass_tail (if ok then Some x else None) tr"
  by (auto simp: finish_bypass_or_error_def bypass_tail_def split: option.splits BypassOutcome.splits)

lemma ready_phase_shape:
  assumes "ready_phase s env = Some (Ok (tr, res))"
  shows "\<exists>ws tail. tr = writes_of ws @ tail \<and> bypass_tail res tail"
    and "res = Some (rest, frag) \<Longrightarrow> \<exists>ws tail. tr = writes_of (ccs_writes s @ ws) @ tail \<and> bypass_tail res tail
      \<and> first_data_plan s env = Some (Ok (Inr (ws, rest, frag)))"
proof -
  obtain tr1 b1 where p1: "perform (ce_write_ok env) 0 (ccs_writes s) = (tr1, b1)" by fastforce
  obtain ws1 where ws1: "tr1 = writes_of ws1" "b1 \<longrightarrow> tr1 = writes_of (ccs_writes s)" using perform_prefix [OF p1] by blast
  have "(res = None \<and> (\<exists>ws. tr = writes_of ws @ failed_bypass)) \<or> (\<exists>ws r f tail. tr = writes_of (ccs_writes s @ ws) @ tail \<and> bypass_tail res tail
      \<and> first_data_plan s env = Some (Ok (Inr (ws, r, f))) \<and> (res \<noteq> None \<longrightarrow> res = Some (r, f)))"
  proof (cases b1)
    case False
    then show ?thesis using assms p1 ws1 by (auto simp: ready_phase_def)
  next
    case True
    note ready = assms [unfolded ready_phase_def p1, simplified True, simplified]
    show ?thesis
    proof (cases "\<exists>ws r f. first_data_plan s env = Some (Ok (Inr (ws, r, f)))")
      case False
      then show ?thesis using ready ws1 by (auto split: option.splits res.splits sum.splits)
    next
      case True
      then obtain ws r f where plan: "first_data_plan s env = Some (Ok (Inr (ws, r, f)))" by blast
      obtain tr2 b2 where p2: "perform (ce_write_ok env) (length (ccs_writes s)) ws = (tr2, b2)" by fastforce
      obtain ws2 where ws2: "tr2 = writes_of ws2" "b2 \<longrightarrow> tr2 = writes_of ws" using perform_prefix [OF p2] by blast
      obtain tr3 b3 where f3: "finish_bypass_or_error (ce_completion env) = (tr3, b3)" by fastforce
      show ?thesis
      proof (cases b2)
        case False
        then have "tr = writes_of (ws1 @ ws2) @ failed_bypass" "res = None"
          using ready plan p2 ws1 ws2 by (auto simp: writes_of_def)
        then show ?thesis by blast
      next
        case b2: True
        then have "tr = writes_of (ccs_writes s @ ws) @ tr3" "res = (if b3 then Some (r, f) else None)"
          using ready plan p2 ws1 ws2 f3 \<open>b1\<close> by (auto simp: writes_of_def)
        moreover have "bypass_tail (if b3 then Some (r, f) else None) tr3" using finish_bypass_tail [OF f3] .
        ultimately show ?thesis using plan by (intro disjI2 exI [of _ ws] exI [of _ r] exI [of _ f] exI [of _ tr3]) auto
      qed
    qed
  qed
  moreover have "bypass_tail (None :: (bytes \<times> (TcpSegmentation \<times> nat) option) option) failed_bypass" by (simp add: bypass_tail_def)
  ultimately show "\<exists>ws tail. tr = writes_of ws @ tail \<and> bypass_tail res tail"
    and "res = Some (rest, frag) \<Longrightarrow> \<exists>ws tail. tr = writes_of (ccs_writes s @ ws) @ tail \<and> bypass_tail res tail
      \<and> first_data_plan s env = Some (Ok (Inr (ws, rest, frag)))"
    by (blast, auto)
qed

definition connect_failed :: "ConnAction list" where
  "connect_failed = [AFinish UnexpectedClose, AEvent ConnectionError]"

lemma bypass_phase_shape:
  assumes "bypass_phase s env = Some (Ok (tr, res))"
  shows "res = None \<and> tr = connect_failed \<or> (\<exists>ws tail. tr = AConnect # writes_of ws @ tail \<and> bypass_tail res tail)"
proof (cases "ce_connected env \<and> ce_progress env = Some ReadyForData")
  case True
  then obtain z where z: "ready_phase s env = Some z" "(case z of Panic \<Rightarrow> Panic | Ok (t, r) \<Rightarrow> Ok (AConnect # t, r)) = Ok (tr, res)"
    using assms by (auto simp: bypass_phase_def)
  then obtain tr' where "ready_phase s env = Some (Ok (tr', res))" "tr = AConnect # tr'" by (cases z) auto
  then show ?thesis using ready_phase_shape(1) by blast
next
  case False
  show ?thesis
  proof (cases "ce_connected env")
    case True
    obtain tr' ok where f: "finish_bypass_or_error (case ce_progress env of Some (Complete o') \<Rightarrow> Some o' | _ \<Rightarrow> None) = (tr', ok)" by fastforce
    have "bypass_phase s env = Some (Ok (AConnect # tr', if ok then Some (ce_client env, None) else None))"
    proof (cases "ce_progress env")
      case None
      then show ?thesis using True f by (simp add: bypass_phase_def)
    next
      case (Some p)
      then show ?thesis using True False f by (cases p) (simp_all add: bypass_phase_def)
    qed
    then have "tr = AConnect # writes_of [] @ tr'" "res = (if ok then Some (ce_client env, None) else None)"
      using assms by (simp_all add: writes_of_def)
    moreover have "bypass_tail (if ok then Some (ce_client env, None) else None) tr'" using finish_bypass_tail [OF f] .
    ultimately show ?thesis by (intro disjI2 exI [of _ "[]"] exI [of _ tr']) simp
  next
    case False
    then show ?thesis using assms by (simp add: bypass_phase_def connect_failed_def)
  qed
qed

lemma bypass_phase_ready:
  assumes "bypass_phase s env = Some (Ok (tr, Some (rest, frag)))" "ce_progress env = Some ReadyForData"
  shows "\<exists>ws tail. tr = AConnect # writes_of (ccs_writes s @ ws) @ tail \<and> bypass_tail (Some ()) tail
    \<and> first_data_plan s env = Some (Ok (Inr (ws, rest, frag)))"
proof -
  have c: "ce_connected env" using assms(1) by (auto simp: bypass_phase_def split: if_splits)
  then obtain z where z: "ready_phase s env = Some z" "(case z of Panic \<Rightarrow> Panic | Ok (t, r) \<Rightarrow> Ok (AConnect # t, r)) = Ok (tr, Some (rest, frag))"
    using assms by (auto simp: bypass_phase_def)
  then obtain tr' where tr': "ready_phase s env = Some (Ok (tr', Some (rest, frag)))" "tr = AConnect # tr'" by (cases z) auto
  then show ?thesis using ready_phase_shape(2) [OF tr'(1) refl] by (auto simp: bypass_tail_def)
qed

lemma intercept_connection_ok:
  assumes "intercept_connection s env key = Some (Ok (tr, True))"
  obtains tr' rest frag where "bypass_phase s env = Some (Ok (tr', Some (rest, frag)))"
    "tr = AEvent ConnectionAccepted # ARegister key # tr'
      @ (if cs_fragment_all_data s then [ARelay rest frag, AEvent RelayFinished, ARemove key] else [ARemove key, ARelay rest frag, AEvent RelayFinished])"
  using assms by (auto simp: intercept_connection_def split: if_splits option.splits res.splits)

text \<open>
  C23. Nothing of the client's stream is lost, repeated or reordered on the way upstream. When an intercepted connection whose bypass waits for data
  succeeds, the client's stream is a non-empty first part and the rest that the relay starts with, and what has been written upstream is the dummy
  ChangeCipherSpec record if one is configured, followed by the transformed first part: byte for byte, or, with record splitting, as its two records.
\<close>

theorem intercept_forwards_client_stream:
  assumes "intercept_connection s env key = Some (Ok (tr, True))" "ce_progress env = Some ReadyForData"
  shows "\<exists>sent rest frag. delivers s env sent rest \<and> ARelay rest frag \<in> set tr
    \<and> upstream_bytes tr = (case cs_ccs_prefix s of None \<Rightarrow> [] | Some v \<Rightarrow> ccs_record v) @ sent"
  using assms(1)
proof (rule intercept_connection_ok)
  fix tr' rest frag
  assume b: "bypass_phase s env = Some (Ok (tr', Some (rest, frag)))"
    and tr: "tr = AEvent ConnectionAccepted # ARegister key # tr'
      @ (if cs_fragment_all_data s then [ARelay rest frag, AEvent RelayFinished, ARemove key] else [ARemove key, ARelay rest frag, AEvent RelayFinished])"
  obtain ws tail where w: "tr' = AConnect # writes_of (ccs_writes s @ ws) @ tail" "bypass_tail (Some ()) tail"
    "first_data_plan s env = Some (Ok (Inr (ws, rest, frag)))" using bypass_phase_ready [OF b assms(2)] by blast
  have "upstream_bytes tr = concat (map fst (ccs_writes s)) @ concat (map fst ws)"
    using tr w(1,2) by (auto simp: bypass_tail_def)
  moreover have "concat (map fst (ccs_writes s)) = (case cs_ccs_prefix s of None \<Rightarrow> [] | Some v \<Rightarrow> ccs_record v)"
    by (simp add: ccs_writes_def split: option.splits)
  moreover have "ARelay rest frag \<in> set tr" using tr by simp
  ultimately show ?thesis using first_data_plan_delivers [OF w(3)] by metis
qed

definition sample_settings :: ConnectionSettings where
  "sample_settings = \<lparr>cs_upstream_nodelay = False, cs_bypass_timeout = 5, cs_max_lifetime = None, cs_segment_first_client_hello = True,
     cs_tls_padding = None, cs_ccs_prefix = Some [3, 1], cs_mixed_case_sni = None, cs_sni_boundary_frag = None,
     cs_tls_record_split = Some (PointMiddle, exact 0), cs_tcp_segmentation = \<lparr>sg_packets = TlsHello, sg_length = exact 2, sg_interval_ms = exact 0, sg_nodelay = False\<rparr>,
     cs_fragment_all_data = False\<rparr>"

definition sample_env :: ConnEnv where
  "sample_env = \<lparr>ce_pad_seed = 1, ce_case_seed = 2, ce_frag_seed = 3, ce_delay_seed = 4, ce_bound = True, ce_registered = True,
     ce_connected = True, ce_progress = Some ReadyForData, ce_client = [0x17, 3, 1, 0, 1, 9, 8], ce_read_len = 7, ce_in_time = True,
     ce_write_ok = (\<lambda>_. True), ce_completion = Some FakeDataAcked\<rparr>"

lemma sample_connection:
  "intercept_connection sample_settings sample_env key = Some (Ok ([AEvent ConnectionAccepted, ARegister key, AConnect,
     AWrite [0x14, 3, 1, 0, 1, 1] 0, AWrite [0x17, 3, 1, 0, 1, 9] 0, AEvent (BypassComplete FakeDataAcked), ARemove key,
     ARelay [8] (Some (cs_tcp_segmentation sample_settings, 1)), AEvent RelayFinished], True))"
proof -
  have "bypass_phase sample_settings sample_env = Some (Ok ([AConnect, AWrite [0x14, 3, 1, 0, 1, 1] 0, AWrite [0x17, 3, 1, 0, 1, 9] 0,
      AEvent (BypassComplete FakeDataAcked)], Some ([8], Some (cs_tcp_segmentation sample_settings, 1))))" by code_simp
  then show ?thesis by (simp add: intercept_connection_def sample_env_def sample_settings_def)
qed

lemma intercept_forwards_client_stream_witness:
  "\<exists>sent rest. delivers sample_settings sample_env sent rest \<and> ce_progress sample_env = Some ReadyForData"
proof -
  have "ce_progress sample_env = Some ReadyForData" by (simp add: sample_env_def)
  with intercept_forwards_client_stream [OF sample_connection this] show ?thesis by blast
qed

section \<open>The discipline of a connection\<close>

text \<open>No action of the second kind until one of the first.\<close>

fun precedes :: "(ConnAction \<Rightarrow> bool) \<Rightarrow> (ConnAction \<Rightarrow> bool) \<Rightarrow> ConnAction list \<Rightarrow> bool" where
  "precedes P Q [] = True"
| "precedes P Q (a # tr) = (P a \<or> (\<not> Q a \<and> precedes P Q tr))"

lemma precedes_append: "precedes P Q (xs @ ys) \<longleftrightarrow> precedes P Q xs \<and> ((\<exists>a \<in> set xs. P a) \<or> precedes P Q ys)"
  by (induction xs) auto

fun is_write :: "ConnAction \<Rightarrow> bool" where
  "is_write (AWrite b d) = True"
| "is_write _ = False"

fun is_relay :: "ConnAction \<Rightarrow> bool" where
  "is_relay (ARelay rest frag) = True"
| "is_relay _ = False"

lemma precedes_writes [simp]: "(\<And>b d. \<not> Q (AWrite b d)) \<Longrightarrow> precedes P Q (writes_of ws)"
  by (induction ws) (auto simp: writes_of_def)

lemma in_writes_of [simp]: "a \<in> set (writes_of ws) \<Longrightarrow> is_write a"
  by (auto simp: writes_of_def)

lemma count_writes_of [simp]: "\<not> is_write a \<Longrightarrow> count_list (writes_of ws) a = 0"
  by (induction ws) (auto simp: writes_of_def)

definition disciplined :: "ConnectionSettings \<Rightarrow> FlowKey \<Rightarrow> ConnAction list \<Rightarrow> bool \<Rightarrow> bool" where
  "disciplined s key tr ok =
     (precedes ((=) (ARegister key)) ((=) AConnect) tr \<and> precedes ((=) AConnect) is_write tr
      \<and> precedes ((=) (AEvent (BypassComplete FakeDataAcked))) is_relay tr
      \<and> count_list tr (ARegister key) \<le> 1 \<and> count_list tr (ARemove key) = count_list tr (ARegister key)
      \<and> precedes ((=) (ARegister key)) ((=) (ARemove key)) tr
      \<and> (ok \<longleftrightarrow> (\<exists>a \<in> set tr. is_relay a))
      \<and> (if cs_fragment_all_data s then ok \<longrightarrow> precedes is_relay ((=) (ARemove key)) tr else precedes ((=) (ARemove key)) is_relay tr))"

lemma precedes_without: "\<forall>a \<in> set xs. \<not> Q a \<Longrightarrow> precedes P Q xs"
  by (induction xs) auto

lemma body_actions:
  assumes "res = None \<and> tr = connect_failed \<or> (\<exists>ws tail. tr = AConnect # writes_of ws @ tail \<and> bypass_tail res tail)"
  shows "\<forall>a \<in> set tr. \<not> is_relay a \<and> a \<noteq> ARegister key \<and> a \<noteq> ARemove key" "precedes ((=) AConnect) is_write tr"
    "res \<noteq> None \<Longrightarrow> AEvent (BypassComplete FakeDataAcked) \<in> set tr"
  using assms by (auto simp: connect_failed_def bypass_tail_def failed_bypass_def writes_of_def split: option.splits)

lemma disciplined_body:
  assumes "\<forall>a \<in> set tr. \<not> is_relay a \<and> a \<noteq> ARegister key \<and> a \<noteq> ARemove key" "precedes ((=) AConnect) is_write tr"
  shows "disciplined s key (AEvent ConnectionAccepted # ARegister key # tr @ [ARemove key]) False"
    and "AEvent (BypassComplete FakeDataAcked) \<in> set tr \<Longrightarrow> disciplined s key (AEvent ConnectionAccepted # ARegister key # tr
      @ (if cs_fragment_all_data s then [ARelay rest frag, AEvent RelayFinished, ARemove key]
         else [ARemove key, ARelay rest frag, AEvent RelayFinished])) True"
proof -
  have none: "precedes P is_relay tr" "precedes P ((=) (ARemove key)) tr" "count_list tr (ARegister key) = 0" "count_list tr (ARemove key) = 0" for P
    using assms(1) by (auto intro!: precedes_without simp: count_list_0_iff)
  show "disciplined s key (AEvent ConnectionAccepted # ARegister key # tr @ [ARemove key]) False"
    using assms none by (auto simp: disciplined_def precedes_append)
  show "disciplined s key (AEvent ConnectionAccepted # ARegister key # tr
      @ (if cs_fragment_all_data s then [ARelay rest frag, AEvent RelayFinished, ARemove key]
         else [ARemove key, ARelay rest frag, AEvent RelayFinished])) True" if "AEvent (BypassComplete FakeDataAcked) \<in> set tr"
    using that assms none by (auto simp: disciplined_def precedes_append)
qed

lemma intercept_connection_disciplined:
  assumes "intercept_connection s env key = Some (Ok (tr, ok))"
  shows "disciplined s key tr ok"
proof -
  consider (unbound) "tr = [] \<or> tr = [AEvent ConnectionAccepted]" "\<not> ok"
    | (failed) tr' where "bypass_phase s env = Some (Ok (tr', None))" "tr = AEvent ConnectionAccepted # ARegister key # tr' @ [ARemove key]" "\<not> ok"
    | (ok) "ok"
    using assms by (auto simp: intercept_connection_def split: if_splits option.splits res.splits)
  then show ?thesis
  proof cases
    case unbound
    then show ?thesis by (auto simp: disciplined_def)
  next
    case failed
    note shape = bypass_phase_shape [OF failed(1)]
    show ?thesis using disciplined_body(1) [OF body_actions(1) [OF shape] body_actions(2) [OF shape]] failed(2,3) by simp
  next
    case ok
    with assms have "intercept_connection s env key = Some (Ok (tr, True))" by simp
    then obtain tr' rest frag where b: "bypass_phase s env = Some (Ok (tr', Some (rest, frag)))" and
      tr: "tr = AEvent ConnectionAccepted # ARegister key # tr' @ (if cs_fragment_all_data s
        then [ARelay rest frag, AEvent RelayFinished, ARemove key] else [ARemove key, ARelay rest frag, AEvent RelayFinished])"
      by (rule intercept_connection_ok)
    note shape = bypass_phase_shape [OF b]
    show ?thesis using disciplined_body(2) [OF body_actions(1) [OF shape] body_actions(2) [OF shape]] body_actions(3) [OF shape] tr ok by simp
  qed
qed

text \<open>Every wait and every loop of the handler ends.\<close>

lemma write_fragmented_returns:
  assumes "i32_range len" "i32_range interval"
  shows "\<exists>r. write_fragmented seed data len interval = Some r"
proof (cases "range_min len < 1 \<or> range_min interval < 0")
  case False
  then show ?thesis using fragment_writes_total [OF assms(1) _ assms(2), of seed data] by (auto simp: write_fragmented_def)
qed (simp add: write_fragmented_def)

lemma with_client_hello_returns: "(\<And>hello rest. \<exists>r. k hello rest = Some r) \<Longrightarrow> \<exists>r. with_client_hello s env k = Some r"
  by (auto simp: with_client_hello_def split: sum.splits res.splits)

lemma bind_planned_returns: "\<exists>r. w = Some r \<Longrightarrow> \<exists>r. Option.bind w (planned rest frag) = Some r"
  by (auto simp: planned_def)

lemma first_data_plan_returns:
  assumes "i32_range (sg_length (cs_tcp_segmentation s))" "i32_range (sg_interval_ms (cs_tcp_segmentation s))"
  shows "\<exists>r. first_data_plan s env = Some r"
proof -
  note frag = write_fragmented_returns [OF assms]
  have plan: "\<exists>r. planned rest f ws = Some r" for rest f ws by (simp add: planned_def)
  have "\<exists>r. boundary_first_data s env sp d = Some r" for sp d unfolding boundary_first_data_def by (intro with_client_hello_returns plan)
  moreover have "\<exists>r. record_split_first_data s env sp d = Some r" for sp d unfolding record_split_first_data_def by (intro with_client_hello_returns plan)
  moreover have "\<exists>r. plain_first_data s env = Some r" unfolding plain_first_data_def by (intro with_client_hello_returns plan)
  moreover have "\<exists>r. segmented_first_data s env = Some r"
  proof (cases "sg_packets (cs_tcp_segmentation s)")
    case TlsHello
    then show ?thesis using frag by (simp add: segmented_first_data_def Let_def with_client_hello_returns bind_planned_returns)
  next
    case (WriteRange f t)
    have "\<exists>r. write_client_data (ce_frag_seed env) d (cs_tcp_segmentation s) 1 = Some r" for d using frag by (simp add: write_client_data_def)
    then show ?thesis using WriteRange
      by (auto simp: segmented_first_data_def Let_def bind_planned_returns split: sum.splits res.splits)
  qed
  ultimately show ?thesis by (auto simp: first_data_plan_def split: option.splits)
qed

lemma intercept_connection_returns:
  assumes "i32_range (sg_length (cs_tcp_segmentation s))" "i32_range (sg_interval_ms (cs_tcp_segmentation s))"
  shows "\<exists>r. intercept_connection s env key = Some r"
proof -
  obtain r where "first_data_plan s env = Some r" using first_data_plan_returns [OF assms] by blast
  then have "\<exists>r. ready_phase s env = Some r"
    by (auto simp: ready_phase_def split: res.splits sum.splits prod.splits bool.splits)
  then have "\<exists>r. bypass_phase s env = Some r"
    by (auto simp: bypass_phase_def split: option.splits BypassProgress.splits prod.splits)
  then show ?thesis by (auto simp: intercept_connection_def split: res.splits option.splits)
qed

text \<open>
  C22. An intercepted connection returns and keeps its order. Whatever the client, the upstream and the interceptor do, the handler ends; unless it panics,
  the flow is registered before the upstream connect and nothing is written before the connection stands; the relay starts only after the
  bypass was reported as acknowledged, and the handler reports success exactly when it relays; the flow is registered at most once and removed exactly
  as often as it was registered, before the relay, or after it when every data packet stays intercepted.
\<close>

theorem intercept_connection_keeps_order:
  assumes "i32_range (sg_length (cs_tcp_segmentation s))" "i32_range (sg_interval_ms (cs_tcp_segmentation s))"
  shows "\<exists>r. intercept_connection s env key = Some r \<and> (\<forall>tr ok. r = Ok (tr, ok) \<longrightarrow> disciplined s key tr ok)"
  using intercept_connection_returns [OF assms] intercept_connection_disciplined by blast

lemma intercept_connection_keeps_order_witness:
  "\<exists>r. intercept_connection sample_settings sample_env \<lparr>fk_src_ip = 1, fk_src_port = 2, fk_dst_ip = 3, fk_dst_port = 4\<rparr> = Some r
    \<and> (\<forall>tr ok. r = Ok (tr, ok) \<longrightarrow> disciplined sample_settings \<lparr>fk_src_ip = 1, fk_src_port = 2, fk_dst_ip = 3, fk_dst_port = 4\<rparr> tr ok)"
  by (rule intercept_connection_keeps_order) (simp_all add: sample_settings_def i32_range_def exact_def)

end
