(* ===== verification/Packet_Codec.thy ===== *)
theory Packet_Codec
  imports Interceptor Ip_Fragment Tcp_Segment
begin

text \<open>
  From captured bytes to the packet view and back, src/crates/zerodpi-platform/src/linux.rs and windows.rs: \<^verbatim>\<open>parse_view\<close>,
  \<^verbatim>\<open>build_modified\<close>, \<^verbatim>\<open>append_tcp_options\<close>. The headers are read and written by the crate \<^verbatim>\<open>etherparse\<close>, which
  is an argument of the model, the record \<open>Etherparse\<close>; what its documentation promises is the locale \<open>etherparse\<close>. A byte-level codec of the
  two header formats shows that the promises can be kept together.
\<close>

section \<open>The header library\<close>

text \<open>The fields the backends use; \<open>ih_other\<close> and \<open>th_other\<close> stand for the ones they only carry along.\<close>

record 'i Ipv4Header =
  ih_total_len :: u16
  ih_identification :: u16
  ih_time_to_live :: u8
  ih_protocol :: u8
  ih_checksum :: u16
  ih_source :: ipv4
  ih_destination :: ipv4
  ih_other :: 'i

record 't TcpHeader =
  th_source_port :: u16
  th_destination_port :: u16
  th_sequence_number :: u32
  th_acknowledgment_number :: u32
  th_flags :: TcpFlags
  th_checksum :: u16
  th_urgent_pointer :: u16
  th_options :: bytes
  th_other :: 't

text \<open>The functions of the library: a header with its length, or \<open>None\<close> for an error.\<close>

record ('i, 't) Etherparse =
  ep_ipv4_from_slice :: "bytes \<Rightarrow> ('i Ipv4Header \<times> nat) option"
  ep_tcp_from_slice :: "bytes \<Rightarrow> ('t TcpHeader \<times> nat) option"
  ep_tcp_header_len :: "'t TcpHeader \<Rightarrow> nat"
  ep_set_options_raw :: "bytes \<Rightarrow> 't TcpHeader \<Rightarrow> 't TcpHeader option"
  ep_set_payload_len :: "nat \<Rightarrow> 'i Ipv4Header \<Rightarrow> 'i Ipv4Header option"
  ep_calc_header_checksum :: "'i Ipv4Header \<Rightarrow> u16"
  ep_calc_checksum_ipv4 :: "'t TcpHeader \<Rightarrow> 'i Ipv4Header \<Rightarrow> bytes \<Rightarrow> u16 option"
  ep_write_ipv4 :: "'i Ipv4Header \<Rightarrow> bytes"
  ep_write_tcp :: "'t TcpHeader \<Rightarrow> bytes"

section \<open>The code\<close>

record PacketLayout =
  ly_ip_hdr_len :: nat
  ly_tcp_hdr_len :: nat
  ly_payload_off :: nat
  ly_total_len :: nat

definition TCP_MIN_LEN :: nat where
  "TCP_MIN_LEN = 20"

definition TCP_MAX_LEN :: nat where
  "TCP_MAX_LEN = 60"

text \<open>A range index \<^verbatim>\<open>&xs[a..b]\<close>: out of range it panics.\<close>

definition index_range :: "'a list \<Rightarrow> nat \<Rightarrow> nat \<Rightarrow> ('a list \<Rightarrow> 'b res) \<Rightarrow> 'b res" where
  "index_range xs a b k = (if a \<le> b \<and> b \<le> length xs then k (slice xs a b) else Panic)"

definition fresh_view :: "Direction \<Rightarrow> 'i Ipv4Header \<Rightarrow> 't TcpHeader \<Rightarrow> bytes \<Rightarrow> bytes \<Rightarrow> PacketView" where
  "fresh_view dir ip tcp data options = \<lparr>
     direction = dir, src_ip = ih_source ip, dst_ip = ih_destination ip,
     src_port = th_source_port tcp, dst_port = th_destination_port tcp,
     seq = th_sequence_number tcp, ack = th_acknowledgment_number tcp, flags = th_flags tcp,
     payload_len = length data, payload = data, tcp_options = options,
     new_seq = None, new_ack = None, new_flags = None, new_urgent_pointer = None, new_payload = None,
     replace_tcp_options = None, append_tcp_options = [], bump_ipv4_ident = False,
     corrupt_tcp_checksum_delta = None, emit_original_after = False, decoy = None,
     ip_frag_payload_size = None, disorder_spec = None, new_ipv4_ttl = None\<rparr>"

definition parse_view :: "('i, 't) Etherparse \<Rightarrow> Direction \<Rightarrow> bytes \<Rightarrow> (PacketView \<times> PacketLayout) option res" where
  "parse_view ep dir buf = ques (ep_ipv4_from_slice ep buf) (\<lambda>(ip, ip_hdr_len).
     if ih_protocol ip \<noteq> 6 then Ok None
     else index_range buf ip_hdr_len (length buf) (\<lambda>tail. ques (ep_tcp_from_slice ep tail) (\<lambda>(tcp, tcp_hdr_len). let
         total_len = unat (ih_total_len ip);
         payload_off = ip_hdr_len + tcp_hdr_len;
         payload_len = total_len - payload_off in
       index_range buf payload_off (payload_off + payload_len) (\<lambda>data.
       index_range buf (ip_hdr_len + TCP_MIN_LEN) payload_off (\<lambda>options.
         Ok (Some (fresh_view dir ip tcp data options,
           \<lparr>ly_ip_hdr_len = ip_hdr_len, ly_tcp_hdr_len = tcp_hdr_len, ly_payload_off = payload_off, ly_total_len = total_len\<rparr>)))))))"

text \<open>\<^verbatim>\<open>(raw_len + 3) & !3\<close>.\<close>

definition padded_len :: "nat \<Rightarrow> nat" where
  "padded_len raw_len = (raw_len + 3) div 4 * 4"

definition append_options :: "('i, 't) Etherparse \<Rightarrow> bytes \<Rightarrow> 't TcpHeader \<Rightarrow> 't TcpHeader option" where
  "append_options ep extra tcp =
     (if extra = [] then Some tcp
      else if TCP_MAX_LEN - TCP_MIN_LEN < padded_len (length (th_options tcp) + length extra) then None
      else ep_set_options_raw ep (th_options tcp @ extra) tcp)"

text \<open>The staged changes of a view on the two headers, without the options.\<close>

definition stage_tcp :: "PacketView \<Rightarrow> 't TcpHeader \<Rightarrow> 't TcpHeader" where
  "stage_tcp v tcp = tcp\<lparr>
     th_sequence_number := (case new_seq v of Some s \<Rightarrow> s | None \<Rightarrow> th_sequence_number tcp),
     th_acknowledgment_number := (case new_ack v of Some a \<Rightarrow> a | None \<Rightarrow> th_acknowledgment_number tcp),
     th_flags := (case new_flags v of Some f \<Rightarrow> f | None \<Rightarrow> th_flags tcp),
     th_urgent_pointer := (case new_urgent_pointer v of Some p \<Rightarrow> p | None \<Rightarrow> th_urgent_pointer tcp)\<rparr>"

definition stage_ip :: "PacketView \<Rightarrow> 'i Ipv4Header \<Rightarrow> 'i Ipv4Header" where
  "stage_ip v ip = ip\<lparr>
     ih_identification := (if bump_ipv4_ident v then ih_identification ip + 1 else ih_identification ip),
     ih_time_to_live := (case new_ipv4_ttl v of Some t \<Rightarrow> t | None \<Rightarrow> ih_time_to_live ip)\<rparr>"

definition stage_options :: "('i, 't) Etherparse \<Rightarrow> PacketView \<Rightarrow> 't TcpHeader \<Rightarrow> 't TcpHeader option" where
  "stage_options ep v tcp =
     Option.bind (case replace_tcp_options v of None \<Rightarrow> Some tcp | Some options \<Rightarrow> ep_set_options_raw ep options tcp)
       (append_options ep (append_tcp_options v))"

text \<open>Both backends up to the checksums: the headers to write and the payload.\<close>

definition rebuild :: "('i, 't) Etherparse \<Rightarrow> bytes \<Rightarrow> PacketLayout \<Rightarrow> PacketView
    \<Rightarrow> ('i Ipv4Header \<times> 't TcpHeader \<times> bytes) option res" where
  "rebuild ep orig ly v =
     index_range orig 0 (ly_ip_hdr_len ly) (\<lambda>ip_slice. ques (ep_ipv4_from_slice ep ip_slice) (\<lambda>(ip, _).
     index_range orig (ly_ip_hdr_len ly) (ly_ip_hdr_len ly + ly_tcp_hdr_len ly) (\<lambda>tcp_slice.
     ques (ep_tcp_from_slice ep tcp_slice) (\<lambda>(tcp, _).
     (case new_payload v of Some p \<Rightarrow> (\<lambda>k. k p) | None \<Rightarrow> index_range orig (ly_payload_off ly) (ly_total_len ly)) (\<lambda>data.
     ques (stage_options ep v (stage_tcp v tcp)) (\<lambda>tcp.
     ques (ep_set_payload_len ep (ep_tcp_header_len ep tcp + length data) (stage_ip v ip)) (\<lambda>ip. let
       ip = ip\<lparr>ih_checksum := ep_calc_header_checksum ep ip\<rparr> in
     ques (ep_calc_checksum_ipv4 ep tcp ip data) (\<lambda>sum. Ok (Some (ip, tcp\<lparr>th_checksum := sum\<rparr>, data))))))))))"

definition write_packet :: "('i, 't) Etherparse \<Rightarrow> 'i Ipv4Header \<Rightarrow> 't TcpHeader \<Rightarrow> bytes \<Rightarrow> bytes" where
  "write_packet ep ip tcp data = ep_write_ipv4 ep ip @ ep_write_tcp ep tcp @ data"

text \<open>The Windows backend leaves the checksum valid here; the Linux backend adds the staged delta.\<close>

definition windows_build_modified :: "('i, 't) Etherparse \<Rightarrow> bytes \<Rightarrow> PacketLayout \<Rightarrow> PacketView \<Rightarrow> bytes option res" where
  "windows_build_modified ep orig ly v = (case rebuild ep orig ly v of Panic \<Rightarrow> Panic | Ok None \<Rightarrow> Ok None
   | Ok (Some (ip, tcp, data)) \<Rightarrow> Ok (Some (write_packet ep ip tcp data)))"

definition linux_build_modified :: "('i, 't) Etherparse \<Rightarrow> bytes \<Rightarrow> PacketLayout \<Rightarrow> PacketView \<Rightarrow> bytes option res" where
  "linux_build_modified ep orig ly v = (case rebuild ep orig ly v of Panic \<Rightarrow> Panic | Ok None \<Rightarrow> Ok None
   | Ok (Some (ip, tcp, data)) \<Rightarrow> Ok (Some (write_packet ep ip
       (case corrupt_tcp_checksum_delta v of None \<Rightarrow> tcp | Some delta \<Rightarrow> tcp\<lparr>th_checksum := th_checksum tcp + delta\<rparr>) data)))"

section \<open>What the library promises\<close>

lemma index_range_in: "a \<le> b \<Longrightarrow> b \<le> length xs \<Longrightarrow> index_range xs a b k = k (slice xs a b)"
  by (simp add: index_range_def)

definition pad4 :: "bytes \<Rightarrow> bytes" where
  "pad4 opts = opts @ replicate (padded_len (length opts) - length opts) 0"

definition options_fit :: "bytes \<Rightarrow> bool" where
  "options_fit opts = (length opts \<le> 40 \<and> length opts mod 4 = 0)"

text \<open>The fields a program cannot build itself come from a header that was read.\<close>

definition read_ip :: "('i, 't) Etherparse \<Rightarrow> 'i \<Rightarrow> bool" where
  "read_ip ep x = (\<exists>buf h n. ep_ipv4_from_slice ep buf = Some (h, n) \<and> ih_other h = x)"

definition read_tcp :: "('i, 't) Etherparse \<Rightarrow> 't \<Rightarrow> bool" where
  "read_tcp ep x = (\<exists>buf t n. ep_tcp_from_slice ep buf = Some (t, n) \<and> th_other t = x)"

definition staged_options :: "PacketView \<Rightarrow> bytes \<Rightarrow> bytes" where
  "staged_options v opts = (let base = (case replace_tcp_options v of None \<Rightarrow> opts | Some r \<Rightarrow> pad4 r) in
     if append_tcp_options v = [] then base else pad4 (base @ append_tcp_options v))"

lemma padded_len_bounds: "n \<le> padded_len n" "padded_len n mod 4 = 0"
  by (simp_all add: padded_len_def)

lemma pad4_fits: "padded_len (length opts) \<le> 40 \<Longrightarrow> options_fit (pad4 opts)"
  using padded_len_bounds [of "length opts"] by (simp add: options_fit_def pad4_def)

text \<open>The packet a receiver sees when a view with its staged changes has been written.\<close>

definition staged_view :: "PacketView \<Rightarrow> PacketView \<Rightarrow> PacketView" where
  "staged_view v view = (let data = (case new_payload v of Some p \<Rightarrow> p | None \<Rightarrow> payload view) in view\<lparr>
     seq := (case new_seq v of Some s \<Rightarrow> s | None \<Rightarrow> seq view),
     ack := (case new_ack v of Some a \<Rightarrow> a | None \<Rightarrow> ack view),
     flags := (case new_flags v of Some f \<Rightarrow> f | None \<Rightarrow> flags view),
     payload_len := length data, payload := data, tcp_options := staged_options v (tcp_options view)\<rparr>)"

text \<open>The options a view asks for fit into a TCP header.\<close>

definition staging_fits :: "PacketView \<Rightarrow> bytes \<Rightarrow> bool" where
  "staging_fits v opts = (let base = (case replace_tcp_options v of None \<Rightarrow> opts | Some r \<Rightarrow> pad4 r) in
     (case replace_tcp_options v of None \<Rightarrow> True | Some r \<Rightarrow> length r \<le> 40)
     \<and> (append_tcp_options v = [] \<or> padded_len (length base + length (append_tcp_options v)) \<le> 40 \<and> length base + length (append_tcp_options v) \<le> 40))"

locale etherparse =
  fixes ep :: "('i, 't) Etherparse"
  assumes ipv4_slice: "ep_ipv4_from_slice ep buf = Some (h, n) \<Longrightarrow>
      20 \<le> n \<and> n \<le> length buf \<and> n = length (ep_write_ipv4 ep h) \<and> ep_ipv4_from_slice ep (take n buf) = Some (h, n)"
    and tcp_slice: "ep_tcp_from_slice ep buf = Some (t, n) \<Longrightarrow>
      n \<le> length buf \<and> n = ep_tcp_header_len ep t \<and> options_fit (th_options t) \<and> slice buf 20 n = th_options t
      \<and> ep_tcp_from_slice ep (take n buf) = Some (t, n)"
    and header_len: "ep_tcp_header_len ep t = 20 + length (th_options t)"
    and set_options: "ep_set_options_raw ep opts t = (if length opts \<le> 40 then Some (t\<lparr>th_options := pad4 opts\<rparr>) else None)"
    and set_payload: "read_ip ep (ih_other h) \<Longrightarrow> ep_set_payload_len ep k h =
      (if length (ep_write_ipv4 ep h) + k \<le> 65535 then Some (h\<lparr>ih_total_len := word_of_nat (length (ep_write_ipv4 ep h) + k)\<rparr>) else None)"
    and tcp_checksum: "length data \<le> 65535 - ep_tcp_header_len ep t \<Longrightarrow> ep_calc_checksum_ipv4 ep t h data \<noteq> None"
    and ipv4_len: "ih_other h = ih_other h' \<Longrightarrow> length (ep_write_ipv4 ep h) = length (ep_write_ipv4 ep h')"
    and ipv4_write: "read_ip ep (ih_other h) \<Longrightarrow> ih_checksum h = ep_calc_header_checksum ep h \<Longrightarrow>
      ep_ipv4_from_slice ep (ep_write_ipv4 ep h @ rest) = Some (h, length (ep_write_ipv4 ep h))"
    and tcp_write: "read_tcp ep (th_other t) \<Longrightarrow> options_fit (th_options t) \<Longrightarrow>
      ep_tcp_from_slice ep (ep_write_tcp ep t @ rest) = Some (t, ep_tcp_header_len ep t)
      \<and> length (ep_write_tcp ep t) = ep_tcp_header_len ep t"
    and tcp_checksum_field: "ep_write_tcp ep (t\<lparr>th_checksum := c\<rparr>) = splice (ep_write_tcp ep t) 16 (u16_to_be c)"
    and checksum_field: "ep_calc_header_checksum ep (h\<lparr>ih_checksum := c\<rparr>) = ep_calc_header_checksum ep h"
begin

text \<open>What a successful parse says about the bytes.\<close>

lemma parse_view_headers:
  assumes "parse_view ep dir buf = Ok (Some (view, ly))"
  obtains ip tcp where "ep_ipv4_from_slice ep buf = Some (ip, ly_ip_hdr_len ly)" "ih_protocol ip = 6"
    "ep_tcp_from_slice ep (drop (ly_ip_hdr_len ly) buf) = Some (tcp, ly_tcp_hdr_len ly)"
    "ly_payload_off ly = ly_ip_hdr_len ly + ly_tcp_hdr_len ly" "ly_total_len ly = unat (ih_total_len ip)"
    "view = fresh_view dir ip tcp (slice buf (ly_payload_off ly) (ly_payload_off ly + (ly_total_len ly - ly_payload_off ly))) (th_options tcp)"
proof -
  obtain ip n where ip: "ep_ipv4_from_slice ep buf = Some (ip, n)"
    using assms by (cases "ep_ipv4_from_slice ep buf") (auto simp: parse_view_def)
  have n: "n \<le> length buf" using ipv4_slice [OF ip] by blast
  have proto: "ih_protocol ip = 6" using assms ip by (auto simp: parse_view_def split: if_splits)
  obtain tcp m where tcp: "ep_tcp_from_slice ep (drop n buf) = Some (tcp, m)"
    using assms ip proto n by (cases "ep_tcp_from_slice ep (drop n buf)") (auto simp: parse_view_def index_range_def slice_to_end)
  have opts: "slice (drop n buf) 20 m = th_options tcp" using tcp_slice [OF tcp] by blast
  have "slice buf (n + 20) (n + m) = th_options tcp" using opts by (simp add: slice_def add.commute)
  then show thesis using assms ip proto n tcp
    by (intro that [of ip tcp]) (auto simp: parse_view_def index_range_def slice_to_end Let_def TCP_MIN_LEN_def split: if_splits)
qed

lemma append_options_spec:
  assumes "append_options ep extra t = Some t'" "options_fit (th_options t)"
  shows "t' = t\<lparr>th_options := (if extra = [] then th_options t else pad4 (th_options t @ extra))\<rparr> \<and> options_fit (th_options t')"
proof (cases "extra = []")
  case True
  then show ?thesis using assms by (simp add: append_options_def)
next
  case False
  let ?o = "th_options t @ extra"
  have "padded_len (length ?o) \<le> 40" using assms(1) False by (auto simp: append_options_def TCP_MAX_LEN_def TCP_MIN_LEN_def split: if_splits)
  then have "options_fit (pad4 ?o)" by (rule pad4_fits)
  moreover have "t' = t\<lparr>th_options := pad4 ?o\<rparr>"
    using assms(1) False by (auto simp: append_options_def set_options split: if_splits)
  ultimately show ?thesis using False by simp
qed

lemma stage_options_spec:
  assumes "stage_options ep v t = Some t'" "options_fit (th_options t)"
  shows "t' = t\<lparr>th_options := staged_options v (th_options t)\<rparr>" "options_fit (th_options t')"
proof -
  obtain t1 where t1: "(case replace_tcp_options v of None \<Rightarrow> Some t | Some r \<Rightarrow> ep_set_options_raw ep r t) = Some t1"
    and a: "append_options ep (append_tcp_options v) t1 = Some t'"
    using assms(1) by (auto simp: stage_options_def bind_eq_Some_conv)
  have 1: "t1 = t\<lparr>th_options := (case replace_tcp_options v of None \<Rightarrow> th_options t | Some r \<Rightarrow> pad4 r)\<rparr> \<and> options_fit (th_options t1)"
  proof (cases "replace_tcp_options v")
    case None
    then show ?thesis using t1 assms(2) by simp
  next
    case (Some r)
    then have "length r \<le> 40" "t1 = t\<lparr>th_options := pad4 r\<rparr>" using t1 by (auto simp: set_options split: if_splits)
    moreover have "padded_len (length r) \<le> 40" using \<open>length r \<le> 40\<close> by (simp add: padded_len_def)
    ultimately show ?thesis using Some pad4_fits by simp
  qed
  show "t' = t\<lparr>th_options := staged_options v (th_options t)\<rparr>" "options_fit (th_options t')"
    using append_options_spec [OF a] 1 by (auto simp: staged_options_def Let_def)
qed

text \<open>What a successful rebuild writes.\<close>

lemma rebuild_spec:
  assumes "parse_view ep dir buf = Ok (Some (view, ly))" "rebuild ep buf ly v = Ok (Some (ip', tcp', data))"
  obtains ip tcp where "ep_ipv4_from_slice ep buf = Some (ip, ly_ip_hdr_len ly)"
    "ep_tcp_from_slice ep (drop (ly_ip_hdr_len ly) buf) = Some (tcp, ly_tcp_hdr_len ly)"
    "view = fresh_view dir ip tcp (payload view) (th_options tcp)" "ih_protocol ip = 6"
    "data = (case new_payload v of Some p \<Rightarrow> p | None \<Rightarrow> payload view)"
    "tcp' = (stage_tcp v tcp)\<lparr>th_options := staged_options v (th_options tcp), th_checksum := th_checksum tcp'\<rparr>" "options_fit (th_options tcp')"
    "length (ep_write_ipv4 ep ip) + (ep_tcp_header_len ep tcp' + length data) \<le> 65535"
    "ip' = (stage_ip v ip)\<lparr>ih_total_len := word_of_nat (length (ep_write_ipv4 ep ip) + (ep_tcp_header_len ep tcp' + length data)), ih_checksum := ih_checksum ip'\<rparr>"
    "ih_checksum ip' = ep_calc_header_checksum ep ip'"
proof -
  obtain ip tcp where h: "ep_ipv4_from_slice ep buf = Some (ip, ly_ip_hdr_len ly)" "ih_protocol ip = 6"
    "ep_tcp_from_slice ep (drop (ly_ip_hdr_len ly) buf) = Some (tcp, ly_tcp_hdr_len ly)"
    "ly_payload_off ly = ly_ip_hdr_len ly + ly_tcp_hdr_len ly" "ly_total_len ly = unat (ih_total_len ip)"
    "view = fresh_view dir ip tcp (slice buf (ly_payload_off ly) (ly_payload_off ly + (ly_total_len ly - ly_payload_off ly))) (th_options tcp)"
    by (rule parse_view_headers [OF assms(1)])
  let ?n = "ly_ip_hdr_len ly" and ?m = "ly_tcp_hdr_len ly"
  have n: "?n \<le> length buf" "ep_ipv4_from_slice ep (take ?n buf) = Some (ip, ?n)" using ipv4_slice [OF h(1)] by auto
  have m: "?m \<le> length buf - ?n" "ep_tcp_from_slice ep (take ?m (drop ?n buf)) = Some (tcp, ?m)" "options_fit (th_options tcp)"
    using tcp_slice [OF h(3)] by auto
  have nm: "?n + ?m \<le> length buf" using n(1) m(1) by linarith
  have sl: "slice buf ?n (?n + ?m) = take ?m (drop ?n buf)" "slice buf 0 ?n = take ?n buf" by (simp_all add: slice_def)
  have read: "read_ip ep (ih_other (stage_ip v ip))" using h(1) by (auto simp: read_ip_def stage_ip_def)
  have len: "length (ep_write_ipv4 ep (stage_ip v ip)) = length (ep_write_ipv4 ep ip)" by (rule ipv4_len) (simp add: stage_ip_def)
  have unfolded: "(case new_payload v of Some p \<Rightarrow> (\<lambda>k. k p) | None \<Rightarrow> index_range buf (ly_payload_off ly) (ly_total_len ly)) (\<lambda>data.
     ques (stage_options ep v (stage_tcp v tcp)) (\<lambda>tcp.
     ques (ep_set_payload_len ep (ep_tcp_header_len ep tcp + length data) (stage_ip v ip)) (\<lambda>ip. let
       ip = ip\<lparr>ih_checksum := ep_calc_header_checksum ep ip\<rparr> in
     ques (ep_calc_checksum_ipv4 ep tcp ip data) (\<lambda>sum. Ok (Some (ip, tcp\<lparr>th_checksum := sum\<rparr>, data)))))) = Ok (Some (ip', tcp', data))"
    using assms(2) n m sl nm by (simp add: rebuild_def index_range_in)
  have data: "data = (case new_payload v of Some p \<Rightarrow> p | None \<Rightarrow> payload view)"
    and rest: "ques (stage_options ep v (stage_tcp v tcp)) (\<lambda>tcp.
     ques (ep_set_payload_len ep (ep_tcp_header_len ep tcp + length data) (stage_ip v ip)) (\<lambda>ip. let
       ip = ip\<lparr>ih_checksum := ep_calc_header_checksum ep ip\<rparr> in
     ques (ep_calc_checksum_ipv4 ep tcp ip data) (\<lambda>sum. Ok (Some (ip, tcp\<lparr>th_checksum := sum\<rparr>, data))))) = Ok (Some (ip', tcp', data))"
    using unfolded h(6)
    by (auto simp: index_range_def fresh_view_def Let_def ques_def split: option.splits if_splits)
  obtain t1 where t1: "stage_options ep v (stage_tcp v tcp) = Some t1" using rest by (cases "stage_options ep v (stage_tcp v tcp)") auto
  have fit: "options_fit (th_options (stage_tcp v tcp))" using m(3) by (simp add: stage_tcp_def)
  note so = stage_options_spec [OF t1 fit]
  let ?k = "length (ep_write_ipv4 ep ip) + (ep_tcp_header_len ep t1 + length data)"
  have k: "?k \<le> 65535" using rest t1 set_payload [OF read] len by (auto split: if_splits)
  let ?ip = "(stage_ip v ip)\<lparr>ih_total_len := word_of_nat ?k\<rparr>"
  obtain sum where s: "ip' = ?ip\<lparr>ih_checksum := ep_calc_header_checksum ep ?ip\<rparr>" "tcp' = t1\<lparr>th_checksum := sum\<rparr>"
    using rest t1 set_payload [OF read] len k by (auto simp: Let_def ques_def split: option.splits)
  have hl: "ep_tcp_header_len ep tcp' = ep_tcp_header_len ep t1" using s(2) by (simp add: header_len)
  have t': "tcp' = (stage_tcp v tcp)\<lparr>th_options := staged_options v (th_options tcp), th_checksum := th_checksum tcp'\<rparr>"
    using s(2) so(1) by (simp add: stage_tcp_def)
  have fit': "options_fit (th_options tcp')" using so(2) s(2) by simp
  have k': "length (ep_write_ipv4 ep ip) + (ep_tcp_header_len ep tcp' + length data) \<le> 65535" using k hl by simp
  have i': "ip' = (stage_ip v ip)\<lparr>ih_total_len := word_of_nat (length (ep_write_ipv4 ep ip) + (ep_tcp_header_len ep tcp' + length data)), ih_checksum := ih_checksum ip'\<rparr>"
    unfolding hl s(1) by simp
  have c': "ih_checksum ip' = ep_calc_header_checksum ep ip'" unfolding s(1) by (simp add: checksum_field)
  have "view = fresh_view dir ip tcp (payload view) (th_options tcp)" using h(6) by (simp add: fresh_view_def)
  from that [OF h(1) h(3) this h(2) data t' fit' k' i' c'] show thesis .
qed

text \<open>A written packet parses back to the headers and the data it was written from.\<close>

lemma parse_write_packet:
  assumes "read_ip ep (ih_other ip)" "ih_checksum ip = ep_calc_header_checksum ep ip" "ih_protocol ip = 6"
    and "read_tcp ep (th_other tcp)" "options_fit (th_options tcp)"
    and "unat (ih_total_len ip) = length (ep_write_ipv4 ep ip) + (ep_tcp_header_len ep tcp + length data)"
  shows "\<exists>ly. parse_view ep dir (write_packet ep ip tcp data) = Ok (Some (fresh_view dir ip tcp data (th_options tcp), ly))
    \<and> ly_total_len ly = length (write_packet ep ip tcp data)"
proof -
  let ?W = "write_packet ep ip tcp data" and ?n = "length (ep_write_ipv4 ep ip)" and ?m = "ep_tcp_header_len ep tcp"
  have ip: "ep_ipv4_from_slice ep ?W = Some (ip, ?n)" unfolding write_packet_def by (rule ipv4_write [OF assms(1,2)])
  have d: "drop ?n ?W = ep_write_tcp ep tcp @ data" by (simp add: write_packet_def)
  have tcp: "ep_tcp_from_slice ep (drop ?n ?W) = Some (tcp, ?m)" "length (ep_write_tcp ep tcp) = ?m"
    unfolding d using tcp_write [OF assms(4,5)] by auto
  have len: "length ?W = ?n + ?m + length data" using tcp(2) by (simp add: write_packet_def)
  have data: "slice ?W (?n + ?m) (?n + ?m + length data) = data" using tcp(2) by (simp add: write_packet_def slice_def)
  have "slice (drop ?n ?W) 20 ?m = th_options tcp" using tcp_slice [OF tcp(1)] by blast
  then have opts: "slice ?W (?n + 20) (?n + ?m) = th_options tcp" by (simp add: slice_def add.commute)
  have m: "20 \<le> ?m" by (simp add: header_len)
  show ?thesis unfolding parse_view_def ip using assms(3,6) tcp(1) len data opts m
    by (simp add: index_range_in slice_to_end Let_def TCP_MIN_LEN_def)
qed

lemma rebuilt_parses_back:
  assumes "parse_view ep dir buf = Ok (Some (view, ly))" "rebuild ep buf ly v = Ok (Some (ip, tcp, data))"
  shows "\<exists>ly'. parse_view ep dir (write_packet ep ip (tcp\<lparr>th_checksum := c\<rparr>) data) = Ok (Some (staged_view v view, ly'))
    \<and> ly_total_len ly' = length (write_packet ep ip (tcp\<lparr>th_checksum := c\<rparr>) data)"
proof (rule rebuild_spec [OF assms])
  fix ip0 tcp0
  assume h: "ep_ipv4_from_slice ep buf = Some (ip0, ly_ip_hdr_len ly)"
    "ep_tcp_from_slice ep (drop (ly_ip_hdr_len ly) buf) = Some (tcp0, ly_tcp_hdr_len ly)"
    "view = fresh_view dir ip0 tcp0 (payload view) (th_options tcp0)" "ih_protocol ip0 = 6"
    "data = (case new_payload v of Some p \<Rightarrow> p | None \<Rightarrow> payload view)"
    "tcp = (stage_tcp v tcp0)\<lparr>th_options := staged_options v (th_options tcp0), th_checksum := th_checksum tcp\<rparr>" "options_fit (th_options tcp)"
    "length (ep_write_ipv4 ep ip0) + (ep_tcp_header_len ep tcp + length data) \<le> 65535"
    "ip = (stage_ip v ip0)\<lparr>ih_total_len := word_of_nat (length (ep_write_ipv4 ep ip0) + (ep_tcp_header_len ep tcp + length data)), ih_checksum := ih_checksum ip\<rparr>"
    "ih_checksum ip = ep_calc_header_checksum ep ip"
  let ?t = "tcp\<lparr>th_checksum := c\<rparr>"
  have oip: "ih_other ip = ih_other ip0" "ih_protocol ip = 6" "ih_source ip = ih_source ip0" "ih_destination ip = ih_destination ip0"
    by (subst h(9), simp add: stage_ip_def h(4))+
  have otcp: "th_other ?t = th_other tcp0" "th_options ?t = staged_options v (th_options tcp0)"
    "th_source_port ?t = th_source_port tcp0" "th_destination_port ?t = th_destination_port tcp0"
    "th_sequence_number ?t = th_sequence_number (stage_tcp v tcp0)" "th_acknowledgment_number ?t = th_acknowledgment_number (stage_tcp v tcp0)"
    "th_flags ?t = th_flags (stage_tcp v tcp0)"
    by (simp, subst h(6), simp add: stage_tcp_def)+
  have len: "length (ep_write_ipv4 ep ip) = length (ep_write_ipv4 ep ip0)" by (rule ipv4_len) (rule oip)
  have hl: "ep_tcp_header_len ep ?t = ep_tcp_header_len ep tcp" by (simp add: header_len)
  have total: "unat (ih_total_len ip) = length (ep_write_ipv4 ep ip) + (ep_tcp_header_len ep ?t + length data)"
  proof -
    have "ih_total_len ip = word_of_nat (length (ep_write_ipv4 ep ip0) + (ep_tcp_header_len ep tcp + length data))" by (subst h(9)) simp
    then show ?thesis unfolding len hl using h(8) by (simp only: unat_u16_of_nat) simp
  qed
  have read: "read_ip ep (ih_other ip)" "read_tcp ep (th_other ?t)" using h(1,2) oip(1) otcp(1) by (auto simp: read_ip_def read_tcp_def)
  have fit: "options_fit (th_options ?t)" using h(7) by simp
  have "fresh_view dir ip ?t data (th_options ?t) = staged_view v view"
    by (subst h(3)) (simp add: fresh_view_def staged_view_def oip otcp h(5) stage_tcp_def Let_def cong: option.case_cong)
  then show ?thesis using parse_write_packet [OF read(1) h(10) oip(2) read(2) fit total, of dir] by simp
qed

text \<open>When the buffer holds the whole packet, no index is out of range.\<close>

lemma parse_view_total:
  assumes "\<And>ip n. ep_ipv4_from_slice ep buf = Some (ip, n) \<Longrightarrow> unat (ih_total_len ip) \<le> length buf"
  shows "parse_view ep dir buf \<noteq> Panic"
proof (cases "ep_ipv4_from_slice ep buf")
  case None
  then show ?thesis by (simp add: parse_view_def)
next
  case (Some a)
  obtain ip n where ip: "ep_ipv4_from_slice ep buf = Some (ip, n)" using Some by (cases a) auto
  have n: "n \<le> length buf" using ipv4_slice [OF ip] by blast
  show ?thesis
  proof (cases "ep_tcp_from_slice ep (drop n buf)")
    case None
    then show ?thesis using ip n by (simp add: parse_view_def index_range_in slice_to_end)
  next
    case (Some b)
    obtain tcp m where tcp: "ep_tcp_from_slice ep (drop n buf) = Some (tcp, m)" using Some by (cases b) auto
    have m: "n + m \<le> length buf" "20 \<le> m" using tcp_slice [OF tcp] n by (auto simp: header_len)
    have "n + m + (unat (ih_total_len ip) - (n + m)) \<le> length buf" using assms [OF ip] m(1) by linarith
    then show ?thesis using ip n tcp m by (simp add: parse_view_def index_range_in slice_to_end Let_def TCP_MIN_LEN_def)
  qed
qed

lemma rebuild_total:
  assumes "parse_view ep dir buf = Ok (Some (view, ly))" "length buf = ly_total_len ly"
  shows "rebuild ep buf ly v \<noteq> Panic"
proof (rule parse_view_headers [OF assms(1)])
  fix ip tcp
  assume h: "ep_ipv4_from_slice ep buf = Some (ip, ly_ip_hdr_len ly)" "ep_tcp_from_slice ep (drop (ly_ip_hdr_len ly) buf) = Some (tcp, ly_tcp_hdr_len ly)"
    "ly_payload_off ly = ly_ip_hdr_len ly + ly_tcp_hdr_len ly"
  have n: "ly_ip_hdr_len ly \<le> length buf" using ipv4_slice [OF h(1)] by blast
  have m: "ly_ip_hdr_len ly + ly_tcp_hdr_len ly \<le> length buf" using tcp_slice [OF h(2)] n by auto
  show ?thesis using n m h(3) assms(2)
    by (auto simp: rebuild_def index_range_in ques_def Let_def split: option.splits)
qed

text \<open>A rewrite fails only for options or a packet that the formats cannot hold.\<close>

lemma stage_options_total:
  assumes "staging_fits v (th_options t)"
  shows "\<exists>t'. stage_options ep v t = Some t'"
  using assms by (auto simp: stage_options_def append_options_def staging_fits_def set_options TCP_MAX_LEN_def TCP_MIN_LEN_def Let_def split: option.splits)

lemma rebuild_succeeds:
  assumes "parse_view ep dir buf = Ok (Some (view, ly))" "length buf = ly_total_len ly" "staging_fits v (tcp_options view)"
    and "ly_ip_hdr_len ly + 20 + length (staged_options v (tcp_options view))
      + length (case new_payload v of Some p \<Rightarrow> p | None \<Rightarrow> payload view) \<le> 65535"
  shows "\<exists>r. rebuild ep buf ly v = Ok (Some r)"
proof (rule parse_view_headers [OF assms(1)])
  fix ip tcp
  assume h: "ep_ipv4_from_slice ep buf = Some (ip, ly_ip_hdr_len ly)" "ep_tcp_from_slice ep (drop (ly_ip_hdr_len ly) buf) = Some (tcp, ly_tcp_hdr_len ly)"
    "ly_payload_off ly = ly_ip_hdr_len ly + ly_tcp_hdr_len ly"
    "view = fresh_view dir ip tcp (slice buf (ly_payload_off ly) (ly_payload_off ly + (ly_total_len ly - ly_payload_off ly))) (th_options tcp)"
  let ?n = "ly_ip_hdr_len ly" and ?m = "ly_tcp_hdr_len ly"
  have n: "?n \<le> length buf" "ep_ipv4_from_slice ep (take ?n buf) = Some (ip, ?n)" "?n = length (ep_write_ipv4 ep ip)" using ipv4_slice [OF h(1)] by auto
  have m: "?m \<le> length buf - ?n" "ep_tcp_from_slice ep (take ?m (drop ?n buf)) = Some (tcp, ?m)" "options_fit (th_options tcp)"
    using tcp_slice [OF h(2)] by auto
  have nm: "?n + ?m \<le> length buf" using n(1) m(1) by linarith
  have sl: "slice buf ?n (?n + ?m) = take ?m (drop ?n buf)" "slice buf 0 ?n = take ?n buf" by (simp_all add: slice_def)
  have opts: "tcp_options view = th_options tcp" using h(4) by (simp add: fresh_view_def)
  obtain t1 where t1: "stage_options ep v (stage_tcp v tcp) = Some t1"
    using stage_options_total [of v "stage_tcp v tcp"] assms(3) opts by (auto simp: stage_tcp_def)
  have hl: "ep_tcp_header_len ep t1 = 20 + length (staged_options v (tcp_options view))"
    using stage_options_spec(1) [OF t1] m(3) opts by (simp add: stage_tcp_def header_len)
  let ?data = "case new_payload v of Some p \<Rightarrow> p | None \<Rightarrow> payload view"
  have pay: "slice buf (ly_payload_off ly) (ly_total_len ly) = payload view" using h(3,4) nm assms(2) by (simp add: fresh_view_def)
  have read: "read_ip ep (ih_other (stage_ip v ip))" using h(1) by (auto simp: read_ip_def stage_ip_def)
  have len: "length (ep_write_ipv4 ep (stage_ip v ip)) = ?n" using n(3) ipv4_len [of "stage_ip v ip" ip] by (simp add: stage_ip_def)
  obtain i1 where i1: "ep_set_payload_len ep (ep_tcp_header_len ep t1 + length ?data) (stage_ip v ip) = Some i1"
    using set_payload [OF read] len hl assms(4) by simp
  have "length ?data \<le> 65535 - ep_tcp_header_len ep t1" using hl assms(4) by simp
  then obtain c where "ep_calc_checksum_ipv4 ep t1 (i1\<lparr>ih_checksum := ep_calc_header_checksum ep i1\<rparr>) ?data = Some c" using tcp_checksum by blast
  then show ?thesis using n m nm sl t1 i1 pay h(3) assms(2)
    by (cases "new_payload v") (simp_all add: rebuild_def index_range_in)
qed

end

end
