(* ===== verification/Wire_Codec.thy ===== *)
theory Wire_Codec
  imports Packet_Codec
begin

text \<open>
  A codec of the IPv4 and TCP headers on bytes, as RFC 791 and RFC 9293 lay them out. It keeps every promise of the locale \<open>etherparse\<close>, so
  the properties of the packet rewriting are not vacuous, and it is the instance the examples run on.
\<close>

section \<open>IPv4\<close>

text \<open>Version and header length, type of service, flags and fragment offset, options.\<close>

type_synonym ip_other = "u8 \<times> u8 \<times> u8 \<times> u8 \<times> bytes"

definition wire_ipv4_from_slice :: "bytes \<Rightarrow> (ip_other Ipv4Header \<times> nat) option" where
  "wire_ipv4_from_slice buf =
     (if length buf < 20 then None
      else (let n = ipv4_header_len (buf ! 0) in
        if drop_bit 4 (buf ! 0) \<noteq> 4 \<or> n < 20 \<or> length buf < n then None
        else Some (\<lparr>ih_total_len = u16_from_be (buf ! 2) (buf ! 3), ih_identification = u16_from_be (buf ! 4) (buf ! 5),
            ih_time_to_live = buf ! 8, ih_protocol = buf ! 9, ih_checksum = u16_from_be (buf ! 10) (buf ! 11),
            ih_source = u32_from_be (buf ! 12) (buf ! 13) (buf ! 14) (buf ! 15),
            ih_destination = u32_from_be (buf ! 16) (buf ! 17) (buf ! 18) (buf ! 19),
            ih_other = (buf ! 0, buf ! 1, buf ! 6, buf ! 7, slice buf 20 n)\<rparr>, n)))"

definition wire_write_ipv4 :: "ip_other Ipv4Header \<Rightarrow> bytes" where
  "wire_write_ipv4 h = (case ih_other h of (vl, tos, f6, f7, opts) \<Rightarrow>
     [vl, tos] @ u16_to_be (ih_total_len h) @ u16_to_be (ih_identification h) @ [f6, f7, ih_time_to_live h, ih_protocol h]
     @ u16_to_be (ih_checksum h) @ u32_to_be (ih_source h) @ u32_to_be (ih_destination h) @ opts)"

definition wire_header_checksum :: "ip_other Ipv4Header \<Rightarrow> u16" where
  "wire_header_checksum h = ipv4_header_checksum (wire_write_ipv4 (h\<lparr>ih_checksum := 0\<rparr>))"

definition wire_set_payload_len :: "nat \<Rightarrow> ip_other Ipv4Header \<Rightarrow> ip_other Ipv4Header option" where
  "wire_set_payload_len k h = (let n = length (wire_write_ipv4 h) + k in
     if n \<le> 65535 then Some (h\<lparr>ih_total_len := word_of_nat n\<rparr>) else None)"

section \<open>TCP\<close>

text \<open>The low nibble of the offset byte, the two flags the program does not use, the window.\<close>

type_synonym tcp_other = "nat \<times> bool \<times> bool \<times> u16"

definition flag_bit :: "nat \<Rightarrow> u8 \<Rightarrow> bool" where
  "flag_bit i b = odd (unat b div 2 ^ i)"

definition wire_tcp_from_slice :: "bytes \<Rightarrow> (tcp_other TcpHeader \<times> nat) option" where
  "wire_tcp_from_slice buf =
     (if length buf < 20 then None
      else (let n = tcp_data_offset (buf ! 12); b = buf ! 13 in
        if n < 20 \<or> length buf < n then None
        else Some (\<lparr>th_source_port = u16_from_be (buf ! 0) (buf ! 1), th_destination_port = u16_from_be (buf ! 2) (buf ! 3),
            th_sequence_number = u32_from_be (buf ! 4) (buf ! 5) (buf ! 6) (buf ! 7),
            th_acknowledgment_number = u32_from_be (buf ! 8) (buf ! 9) (buf ! 10) (buf ! 11),
            th_flags = \<lparr>f_syn = flag_bit 1 b, f_ack = flag_bit 4 b, f_psh = flag_bit 3 b, f_rst = flag_bit 2 b, f_fin = flag_bit 0 b, f_urg = flag_bit 5 b\<rparr>,
            th_checksum = u16_from_be (buf ! 16) (buf ! 17), th_urgent_pointer = u16_from_be (buf ! 18) (buf ! 19),
            th_options = slice buf 20 n,
            th_other = (unat (buf ! 12) mod 16, flag_bit 7 b, flag_bit 6 b, u16_from_be (buf ! 14) (buf ! 15))\<rparr>, n)))"

definition flags_byte :: "bool \<Rightarrow> bool \<Rightarrow> TcpFlags \<Rightarrow> u8" where
  "flags_byte cwr ece f = word_of_nat (128 * of_bool cwr + 64 * of_bool ece + 32 * of_bool (f_urg f) + 16 * of_bool (f_ack f)
     + 8 * of_bool (f_psh f) + 4 * of_bool (f_rst f) + 2 * of_bool (f_syn f) + of_bool (f_fin f))"

definition wire_write_tcp :: "tcp_other TcpHeader \<Rightarrow> bytes" where
  "wire_write_tcp t = (case th_other t of (low, cwr, ece, window) \<Rightarrow>
     u16_to_be (th_source_port t) @ u16_to_be (th_destination_port t) @ u32_to_be (th_sequence_number t) @ u32_to_be (th_acknowledgment_number t)
     @ [word_of_nat ((20 + length (th_options t)) div 4 * 16 + low), flags_byte cwr ece (th_flags t)]
     @ u16_to_be window @ u16_to_be (th_checksum t) @ u16_to_be (th_urgent_pointer t) @ th_options t)"

definition wire_tcp_checksum :: "tcp_other TcpHeader \<Rightarrow> ip_other Ipv4Header \<Rightarrow> bytes \<Rightarrow> u16 option" where
  "wire_tcp_checksum t h data = Some (tcp_checksum (wire_write_ipv4 h @ wire_write_tcp (t\<lparr>th_checksum := 0\<rparr>) @ data)
     (length (wire_write_ipv4 h)) (20 + length (th_options t)))"

definition wire_codec :: "(ip_other, tcp_other) Etherparse" where
  "wire_codec = \<lparr>ep_ipv4_from_slice = wire_ipv4_from_slice, ep_tcp_from_slice = wire_tcp_from_slice,
     ep_tcp_header_len = (\<lambda>t. 20 + length (th_options t)),
     ep_set_options_raw = (\<lambda>opts t. if length opts \<le> 40 then Some (t\<lparr>th_options := pad4 opts\<rparr>) else None),
     ep_set_payload_len = wire_set_payload_len, ep_calc_header_checksum = wire_header_checksum, ep_calc_checksum_ipv4 = wire_tcp_checksum,
     ep_write_ipv4 = wire_write_ipv4, ep_write_tcp = wire_write_tcp\<rparr>"

section \<open>The promises\<close>

lemma u16_bytes: obtains a b where "u16_to_be w = [a, b]" "u16_from_be a b = w"
proof -
  have "u16_to_be w = [u16_to_be w ! 0, u16_to_be w ! 1]" by (simp add: u16_to_be_def)
  then show thesis using that u16_from_to_be by blast
qed

lemma u32_bytes: obtains a b c d where "u32_to_be w = [a, b, c, d]" "u32_from_be a b c d = w"
proof -
  have "u32_to_be w = [u32_to_be w ! 0, u32_to_be w ! 1, u32_to_be w ! 2, u32_to_be w ! 3]" by (simp add: u32_to_be_def)
  then show thesis using that u32_from_to_be by blast
qed

definition ip_other_ok :: "ip_other \<Rightarrow> bool" where
  "ip_other_ok x = (case x of (vl, tos, f6, f7, opts) \<Rightarrow>
     drop_bit 4 vl = 4 \<and> 20 \<le> ipv4_header_len vl \<and> length opts = ipv4_header_len vl - 20)"

lemma read_ip_ok: "read_ip wire_codec x \<Longrightarrow> ip_other_ok x"
  by (auto simp: read_ip_def wire_codec_def wire_ipv4_from_slice_def ip_other_ok_def Let_def split: if_splits)

lemma wire_write_ipv4_length: "length (wire_write_ipv4 h) = 20 + length (snd (snd (snd (snd (ih_other h)))))"
  by (cases "ih_other h") (auto simp: wire_write_ipv4_def)

lemma wire_ipv4_roundtrip:
  assumes "ip_other_ok (ih_other h)"
  shows "wire_ipv4_from_slice (wire_write_ipv4 h @ rest) = Some (h, length (wire_write_ipv4 h))"
proof -
  obtain vl tos f6 f7 opts where o: "ih_other h = (vl, tos, f6, f7, opts)" by (metis prod.exhaust)
  obtain t1 t2 where t: "u16_to_be (ih_total_len h) = [t1, t2]" "u16_from_be t1 t2 = ih_total_len h" by (rule u16_bytes)
  obtain i1 i2 where i: "u16_to_be (ih_identification h) = [i1, i2]" "u16_from_be i1 i2 = ih_identification h" by (rule u16_bytes)
  obtain c1 c2 where c: "u16_to_be (ih_checksum h) = [c1, c2]" "u16_from_be c1 c2 = ih_checksum h" by (rule u16_bytes)
  obtain s1 s2 s3 s4 where s: "u32_to_be (ih_source h) = [s1, s2, s3, s4]" "u32_from_be s1 s2 s3 s4 = ih_source h" by (rule u32_bytes)
  obtain d1 d2 d3 d4 where d: "u32_to_be (ih_destination h) = [d1, d2, d3, d4]" "u32_from_be d1 d2 d3 d4 = ih_destination h" by (rule u32_bytes)
  have w: "wire_write_ipv4 h @ rest = [vl, tos, t1, t2, i1, i2, f6, f7, ih_time_to_live h, ih_protocol h, c1, c2, s1, s2, s3, s4, d1, d2, d3, d4] @ opts @ rest"
    by (simp add: wire_write_ipv4_def o t i c s d)
  have "slice ([vl, tos, t1, t2, i1, i2, f6, f7, ih_time_to_live h, ih_protocol h, c1, c2, s1, s2, s3, s4, d1, d2, d3, d4] @ opts @ rest) 20 (ipv4_header_len vl) = opts"
    using assms o by (simp add: slice_def ip_other_ok_def)
  then show ?thesis unfolding wire_ipv4_from_slice_def w
    using assms o t i c s d by (auto simp: ip_other_ok_def wire_write_ipv4_length Let_def)
qed

lemma flags_byte_bits:
  "flag_bit 7 (flags_byte cwr ece f) = cwr" "flag_bit 6 (flags_byte cwr ece f) = ece" "flag_bit 5 (flags_byte cwr ece f) = f_urg f"
  "flag_bit 4 (flags_byte cwr ece f) = f_ack f" "flag_bit 3 (flags_byte cwr ece f) = f_psh f" "flag_bit 2 (flags_byte cwr ece f) = f_rst f"
  "flag_bit 1 (flags_byte cwr ece f) = f_syn f" "flag_bit 0 (flags_byte cwr ece f) = f_fin f"
proof -
  let ?n = "128 * of_bool cwr + 64 * of_bool ece + 32 * of_bool (f_urg f) + 16 * of_bool (f_ack f)
     + 8 * of_bool (f_psh f) + 4 * of_bool (f_rst f) + 2 * of_bool (f_syn f) + of_bool (f_fin f) :: nat"
  have "?n < 256" by (simp add: of_bool_def)
  then have n: "unat (flags_byte cwr ece f) = ?n" unfolding flags_byte_def unat_u8_of_nat by (rule mod_less)
  show "flag_bit 7 (flags_byte cwr ece f) = cwr" "flag_bit 6 (flags_byte cwr ece f) = ece" "flag_bit 5 (flags_byte cwr ece f) = f_urg f"
  "flag_bit 4 (flags_byte cwr ece f) = f_ack f" "flag_bit 3 (flags_byte cwr ece f) = f_psh f" "flag_bit 2 (flags_byte cwr ece f) = f_rst f"
  "flag_bit 1 (flags_byte cwr ece f) = f_syn f" "flag_bit 0 (flags_byte cwr ece f) = f_fin f"
    unfolding flag_bit_def n
    by (cases cwr; cases ece; cases "f_urg f"; cases "f_ack f"; cases "f_psh f"; cases "f_rst f"; cases "f_syn f"; cases "f_fin f"; simp)+
qed

lemma offset_byte:
  assumes "k \<le> 15" "low < 16"
  shows "tcp_data_offset (word_of_nat (k * 16 + low)) = k * 4" "unat (word_of_nat (k * 16 + low) :: u8) mod 16 = low"
proof -
  have "k * 16 + low < 256" using assms by linarith
  then have n: "unat (word_of_nat (k * 16 + low) :: u8) = k * 16 + low" unfolding unat_u8_of_nat by (rule mod_less)
  have "unat (drop_bit 4 (word_of_nat (k * 16 + low) :: u8)) = (k * 16 + low) div 16"
    using n by (simp add: drop_bit_eq_div unat_div)
  then show "tcp_data_offset (word_of_nat (k * 16 + low)) = k * 4" using assms(2) by (simp add: tcp_data_offset_def)
  show "unat (word_of_nat (k * 16 + low) :: u8) mod 16 = low" using n assms(2) by simp
qed

lemma wire_write_tcp_length: "length (wire_write_tcp t) = 20 + length (th_options t)"
  by (cases "th_other t") (auto simp: wire_write_tcp_def)

lemma read_tcp_low: "read_tcp wire_codec x \<Longrightarrow> fst x < 16"
  by (auto simp: read_tcp_def wire_codec_def wire_tcp_from_slice_def Let_def split: if_splits)

lemma wire_tcp_roundtrip:
  assumes "fst (th_other t) < 16" "options_fit (th_options t)"
  shows "wire_tcp_from_slice (wire_write_tcp t @ rest) = Some (t, 20 + length (th_options t))"
proof -
  obtain low cwr ece window where o: "th_other t = (low, cwr, ece, window)" by (metis prod.exhaust)
  obtain p1 p2 where p: "u16_to_be (th_source_port t) = [p1, p2]" "u16_from_be p1 p2 = th_source_port t" by (rule u16_bytes)
  obtain q1 q2 where q: "u16_to_be (th_destination_port t) = [q1, q2]" "u16_from_be q1 q2 = th_destination_port t" by (rule u16_bytes)
  obtain s1 s2 s3 s4 where s: "u32_to_be (th_sequence_number t) = [s1, s2, s3, s4]" "u32_from_be s1 s2 s3 s4 = th_sequence_number t" by (rule u32_bytes)
  obtain a1 a2 a3 a4 where a: "u32_to_be (th_acknowledgment_number t) = [a1, a2, a3, a4]" "u32_from_be a1 a2 a3 a4 = th_acknowledgment_number t" by (rule u32_bytes)
  obtain w1 w2 where w: "u16_to_be window = [w1, w2]" "u16_from_be w1 w2 = window" by (rule u16_bytes)
  obtain c1 c2 where c: "u16_to_be (th_checksum t) = [c1, c2]" "u16_from_be c1 c2 = th_checksum t" by (rule u16_bytes)
  obtain u1 u2 where u: "u16_to_be (th_urgent_pointer t) = [u1, u2]" "u16_from_be u1 u2 = th_urgent_pointer t" by (rule u16_bytes)
  let ?k = "(20 + length (th_options t)) div 4"
  let ?b = "word_of_nat (?k * 16 + low) :: u8" and ?f = "flags_byte cwr ece (th_flags t)"
  have "20 + length (th_options t) \<le> 60" "(20 + length (th_options t)) mod 4 = 0" using assms(2) unfolding options_fit_def by presburger+
  then have k: "?k \<le> 15" "?k * 4 = 20 + length (th_options t)" by presburger+
  have off: "tcp_data_offset ?b = 20 + length (th_options t)" "unat ?b mod 16 = low"
    using offset_byte [OF k(1), of low] assms(1) o k(2) by auto
  have wr: "wire_write_tcp t @ rest = [p1, p2, q1, q2, s1, s2, s3, s4, a1, a2, a3, a4, ?b, ?f, w1, w2, c1, c2, u1, u2] @ th_options t @ rest"
    by (simp add: wire_write_tcp_def o p q s a w c u)
  have sl: "slice ([p1, p2, q1, q2, s1, s2, s3, s4, a1, a2, a3, a4, ?b, ?f, w1, w2, c1, c2, u1, u2] @ th_options t @ rest) 20 (20 + length (th_options t)) = th_options t"
    by (simp add: slice_def)
  have nth: "([p1, p2, q1, q2, s1, s2, s3, s4, a1, a2, a3, a4, ?b, ?f, w1, w2, c1, c2, u1, u2] @ th_options t @ rest) ! 12 = ?b" by simp
  show ?thesis unfolding wire_tcp_from_slice_def wr nth off Let_def sl
    using o p q s a w c u by (simp add: flags_byte_bits flags_byte_bits(7) [unfolded One_nat_def])
qed

interpretation wire: etherparse wire_codec
proof
  fix buf and h :: "ip_other Ipv4Header" and n
  assume a: "ep_ipv4_from_slice wire_codec buf = Some (h, n)"
  then have n: "20 \<le> n" "n \<le> length buf" "n = ipv4_header_len (buf ! 0)"
    by (auto simp: wire_codec_def wire_ipv4_from_slice_def Let_def split: if_splits)
  then have "wire_ipv4_from_slice (take n buf) = wire_ipv4_from_slice buf"
    by (auto simp: wire_ipv4_from_slice_def Let_def slice_def drop_take)
  moreover have "length (wire_write_ipv4 h) = n"
    using a n by (auto simp: wire_codec_def wire_ipv4_from_slice_def wire_write_ipv4_length Let_def split: if_splits)
  ultimately show "20 \<le> n \<and> n \<le> length buf \<and> n = length (ep_write_ipv4 wire_codec h) \<and> ep_ipv4_from_slice wire_codec (take n buf) = Some (h, n)"
    using a n by (simp add: wire_codec_def)
next
  fix buf and t :: "tcp_other TcpHeader" and n
  assume a: "ep_tcp_from_slice wire_codec buf = Some (t, n)"
  then have n: "20 \<le> n" "n \<le> length buf" "n = tcp_data_offset (buf ! 12)" "th_options t = slice buf 20 n"
    by (auto simp: wire_codec_def wire_tcp_from_slice_def Let_def split: if_splits)
  then have "wire_tcp_from_slice (take n buf) = wire_tcp_from_slice buf"
    by (auto simp: wire_tcp_from_slice_def Let_def slice_def drop_take)
  moreover have "n mod 4 = 0" "n \<le> 60" using n(3) tcp_data_offset_bound by (auto simp: tcp_data_offset_def)
  moreover from this have "options_fit (th_options t)" using n unfolding options_fit_def n(4) by (simp, presburger)
  ultimately show "n \<le> length buf \<and> n = ep_tcp_header_len wire_codec t \<and> options_fit (th_options t) \<and> slice buf 20 n = th_options t
      \<and> ep_tcp_from_slice wire_codec (take n buf) = Some (t, n)"
    using a n by (simp add: wire_codec_def)
next
  fix h :: "ip_other Ipv4Header" and rest
  assume "read_ip wire_codec (ih_other h)"
  then show "ep_ipv4_from_slice wire_codec (ep_write_ipv4 wire_codec h @ rest) = Some (h, length (ep_write_ipv4 wire_codec h))"
    using wire_ipv4_roundtrip read_ip_ok by (simp add: wire_codec_def)
next
  fix t :: "tcp_other TcpHeader" and rest
  assume "read_tcp wire_codec (th_other t)" "options_fit (th_options t)"
  then show "ep_tcp_from_slice wire_codec (ep_write_tcp wire_codec t @ rest) = Some (t, ep_tcp_header_len wire_codec t)
      \<and> length (ep_write_tcp wire_codec t) = ep_tcp_header_len wire_codec t"
    using wire_tcp_roundtrip read_tcp_low wire_write_tcp_length by (simp add: wire_codec_def)
next
  fix t :: "tcp_other TcpHeader" and c
  show "ep_write_tcp wire_codec (t\<lparr>th_checksum := c\<rparr>) = splice (ep_write_tcp wire_codec t) 16 (u16_to_be c)"
    by (cases "th_other t") (simp add: wire_codec_def wire_write_tcp_def splice_def u16_to_be_def u32_to_be_def)
qed (auto simp: wire_codec_def wire_set_payload_len_def wire_write_ipv4_length wire_header_checksum_def wire_tcp_checksum_def Let_def)

section \<open>Properties\<close>

definition build_modified_of :: "bool \<Rightarrow> ('i, 't) Etherparse \<Rightarrow> bytes \<Rightarrow> PacketLayout \<Rightarrow> PacketView \<Rightarrow> bytes option res" where
  "build_modified_of linux = (if linux then linux_build_modified else windows_build_modified)"

lemma build_modified_written:
  assumes "build_modified_of linux ep buf ly v = Ok (Some out)"
  obtains ip tcp c data where "rebuild ep buf ly v = Ok (Some (ip, tcp, data))" "out = write_packet ep ip (tcp\<lparr>th_checksum := c\<rparr>) data"
proof -
  obtain ip tcp data where r: "rebuild ep buf ly v = Ok (Some (ip, tcp, data))"
    using assms by (auto simp: build_modified_of_def linux_build_modified_def windows_build_modified_def split: if_splits res.splits option.splits)
  have "\<exists>c. out = write_packet ep ip (tcp\<lparr>th_checksum := c\<rparr>) data"
  proof (cases "linux \<and> corrupt_tcp_checksum_delta v \<noteq> None")
    case True
    then show ?thesis using assms r by (auto simp: build_modified_of_def linux_build_modified_def)
  next
    case False
    then have "out = write_packet ep ip (tcp\<lparr>th_checksum := th_checksum tcp\<rparr>) data"
      using assms r by (auto simp: build_modified_of_def linux_build_modified_def windows_build_modified_def split: if_splits)
    then show ?thesis by blast
  qed
  then show thesis using that r by blast
qed

lemma build_modified_succeeds:
  assumes "etherparse ep" "parse_view ep dir buf = Ok (Some (view, ly))" "length buf = ly_total_len ly" "staging_fits v (tcp_options view)"
    and "ly_ip_hdr_len ly + 20 + length (staged_options v (tcp_options view))
      + length (case new_payload v of Some p \<Rightarrow> p | None \<Rightarrow> payload view) \<le> 65535"
  shows "\<exists>out. build_modified_of linux ep buf ly v = Ok (Some out)"
  using etherparse.rebuild_succeeds [OF assms]
  by (auto simp: build_modified_of_def linux_build_modified_def windows_build_modified_def)

text \<open>
  C7. A rewritten packet says what was staged. On either platform, when a complete captured packet parses and the staged options and the
  new size fit the header formats, the rewrite succeeds, and the rewritten bytes parse again, to the captured packet with exactly the staged sequence and
  acknowledgement numbers, flags, payload and options in place; addresses and ports are the captured ones, and the announced length is the length of
  the bytes.
\<close>

theorem rewritten_packet_parses_back:
  assumes "etherparse ep" "parse_view ep dir buf = Ok (Some (view, ly))" "length buf = ly_total_len ly" "staging_fits v (tcp_options view)"
    and "ly_ip_hdr_len ly + 20 + length (staged_options v (tcp_options view))
      + length (case new_payload v of Some p \<Rightarrow> p | None \<Rightarrow> payload view) \<le> 65535"
  shows "\<exists>out ly'. build_modified_of linux ep buf ly v = Ok (Some out)
    \<and> parse_view ep dir out = Ok (Some (staged_view v view, ly')) \<and> ly_total_len ly' = length out"
proof -
  obtain out where out: "build_modified_of linux ep buf ly v = Ok (Some out)" using build_modified_succeeds [OF assms] by blast
  show ?thesis
  proof (rule build_modified_written [OF out])
    fix ip tcp c data
    assume "rebuild ep buf ly v = Ok (Some (ip, tcp, data))" "out = write_packet ep ip (tcp\<lparr>th_checksum := c\<rparr>) data"
    with etherparse.rebuilt_parses_back [OF assms(1,2)] out show ?thesis by blast
  qed
qed

definition sample_ip :: "ip_other Ipv4Header" where
  "sample_ip = (let h = \<lparr>ih_total_len = 41, ih_identification = 7, ih_time_to_live = 64, ih_protocol = 6, ih_checksum = 0,
     ih_source = 1, ih_destination = 2, ih_other = (0x45, 0, 0, 0, [])\<rparr> in h\<lparr>ih_checksum := wire_header_checksum h\<rparr>)"

definition sample_tcp :: "tcp_other TcpHeader" where
  "sample_tcp = \<lparr>th_source_port = 3, th_destination_port = 443, th_sequence_number = 10, th_acknowledgment_number = 20,
     th_flags = no_flags\<lparr>f_ack := True\<rparr>, th_checksum = 0, th_urgent_pointer = 0, th_options = [], th_other = (0, False, False, 1024)\<rparr>"

definition sample_packet :: bytes where
  "sample_packet = write_packet wire_codec sample_ip sample_tcp [9]"

lemma sample_packet_length: "length sample_packet = 41"
  by (simp add: sample_packet_def write_packet_def wire_codec_def wire_write_ipv4_length wire_write_tcp_length sample_ip_def sample_tcp_def Let_def)

lemma sample_parses:
  "\<exists>ly. parse_view wire_codec Outbound sample_packet = Ok (Some (fresh_view Outbound sample_ip sample_tcp [9] [], ly)) \<and> ly_total_len ly = length sample_packet"
proof -
  have ok: "ip_other_ok (ih_other sample_ip)" by (simp add: sample_ip_def ip_other_ok_def ipv4_header_len_def Let_def)
  have ip: "read_ip wire_codec (ih_other sample_ip)"
    using wire_ipv4_roundtrip [OF ok, of "[]"] unfolding read_ip_def by (auto simp: wire_codec_def)
  have "fst (th_other sample_tcp) < 16" "options_fit (th_options sample_tcp)" by (simp_all add: sample_tcp_def options_fit_def)
  from wire_tcp_roundtrip [OF this, of "[]"] have tcp: "read_tcp wire_codec (th_other sample_tcp)"
    unfolding read_tcp_def by (auto simp: wire_codec_def)
  have sum: "ih_checksum sample_ip = ep_calc_header_checksum wire_codec sample_ip"
    by (simp add: sample_ip_def Let_def wire_codec_def wire_header_checksum_def)
  have total: "unat (ih_total_len sample_ip) = length (ep_write_ipv4 wire_codec sample_ip) + (ep_tcp_header_len wire_codec sample_tcp + length [9 :: u8])"
    by (simp add: wire_codec_def wire_write_ipv4_length sample_ip_def sample_tcp_def Let_def)
  have "ih_protocol sample_ip = 6" by (simp add: sample_ip_def Let_def)
  moreover have "options_fit (th_options sample_tcp)" "th_options sample_tcp = []" by (simp_all add: sample_tcp_def options_fit_def)
  ultimately show ?thesis unfolding sample_packet_def using wire.parse_write_packet [OF ip sum _ tcp _ total, where dir = Outbound] by metis
qed

lemma rewritten_packet_parses_back_witness:
  "\<exists>ly out ly'. build_modified_of True wire_codec sample_packet ly (blank_packet\<lparr>new_seq := Some 77, new_payload := Some [7, 8], append_tcp_options := [1]\<rparr>) = Ok (Some out)
    \<and> parse_view wire_codec Outbound out = Ok (Some ((fresh_view Outbound sample_ip sample_tcp [7, 8] [1, 0, 0, 0])\<lparr>seq := 77\<rparr>, ly'))"
proof -
  let ?v = "blank_packet\<lparr>new_seq := Some 77, new_payload := Some [7, 8], append_tcp_options := [1]\<rparr>"
  let ?w = "fresh_view Outbound sample_ip sample_tcp [9] []"
  obtain ly where ly: "parse_view wire_codec Outbound sample_packet = Ok (Some (?w, ly))" "length sample_packet = ly_total_len ly"
    using sample_parses by auto
  have n: "ly_ip_hdr_len ly \<le> length sample_packet"
    by (rule wire.parse_view_headers [OF ly(1)]) (use wire.ipv4_slice in blast)
  note len = sample_packet_length
  have pad: "pad4 [1] = [1, 0, 0, 0]" by code_simp
  have s: "staged_options ?v (tcp_options ?w) = [1, 0, 0, 0]" "staging_fits ?v (tcp_options ?w)"
    by (simp_all add: staged_options_def staging_fits_def blank_packet_def fresh_view_def pad padded_len_def Let_def)
  have "staged_view ?v ?w = (fresh_view Outbound sample_ip sample_tcp [7, 8] [1, 0, 0, 0])\<lparr>seq := 77\<rparr>"
    using s(1) by (simp add: staged_view_def fresh_view_def blank_packet_def Let_def)
  moreover have "ly_ip_hdr_len ly + 20 + length (staged_options ?v (tcp_options ?w))
      + length (case new_payload ?v of Some p \<Rightarrow> p | None \<Rightarrow> payload ?w) \<le> 65535" using n len s(1) by simp
  ultimately show ?thesis using rewritten_packet_parses_back [OF wire.etherparse_axioms ly s(2), of True] by metis
qed

text \<open>
  C8. A complete captured packet never makes a backend panic. When the buffer is as long as the IPv4 header announces, parsing it does not
  index out of range, and neither does rewriting it, whatever is staged.
\<close>

theorem complete_packet_never_panics:
  assumes "etherparse ep" "\<And>ip n. ep_ipv4_from_slice ep buf = Some (ip, n) \<Longrightarrow> unat (ih_total_len ip) = length buf"
  shows "parse_view ep dir buf \<noteq> Panic \<and> (\<forall>view ly v linux. parse_view ep dir buf = Ok (Some (view, ly)) \<longrightarrow> build_modified_of linux ep buf ly v \<noteq> Panic)"
proof (intro conjI allI impI)
  show "parse_view ep dir buf \<noteq> Panic" by (rule etherparse.parse_view_total [OF assms(1)]) (simp add: assms(2))
  fix view ly v linux
  assume p: "parse_view ep dir buf = Ok (Some (view, ly))"
  have "length buf = ly_total_len ly" by (rule etherparse.parse_view_headers [OF assms(1) p]) (simp add: assms(2))
  from etherparse.rebuild_total [OF assms(1) p this, of v] show "build_modified_of linux ep buf ly v \<noteq> Panic"
    by (auto simp: build_modified_of_def linux_build_modified_def windows_build_modified_def split: res.splits option.splits)
qed

lemma complete_packet_never_panics_witness: "parse_view wire_codec Outbound sample_packet \<noteq> Panic"
proof -
  obtain ly where ly: "parse_view wire_codec Outbound sample_packet = Ok (Some (fresh_view Outbound sample_ip sample_tcp [9] [], ly))"
    "ly_total_len ly = length sample_packet" using sample_parses by blast
  have "unat (ih_total_len ip) = length sample_packet" if "ep_ipv4_from_slice wire_codec sample_packet = Some (ip, n)" for ip n
    by (rule wire.parse_view_headers [OF ly(1)]) (use that ly(2) in auto)
  from complete_packet_never_panics [OF wire.etherparse_axioms this, where dir = Outbound] show ?thesis by simp
qed

end
