(* ===== verification/Linux_Backend.thy ===== *)
theory Linux_Backend
  imports Wire_Codec Flow_Machine "HOL-Library.Multiset"
begin

text \<open>
  The NFQUEUE backend, src/crates/zerodpi-platform/src/linux.rs, with the emission workers of emission.rs. One queued packet is a function from the
  bytes, the handler's state and what the raw socket answers to the packets injected, the pauses, the delayed segments and the verdict; the loop is a
  function of the events it receives. The handler is an argument. Whether the \<open>k\<close>-th raw send for a message succeeds is given by a function.
\<close>

section \<open>One packet\<close>

datatype Emission = Inject bytes | Pause nat | Spawn "(nat \<times> bytes) list"

datatype NfqVerdict = NfAccept | NfReplace bytes | NfDrop

record SendEnv =
  se_raw :: bool
  se_ok :: "nat \<Rightarrow> bool"
  se_dup :: bool

definition send_raw_packet :: "SendEnv \<Rightarrow> nat \<Rightarrow> bytes \<Rightarrow> bool" where
  "send_raw_packet env k b = (\<not> length b < 20 \<and> se_ok env k)"

text \<open>The loops that send a list of packets and stop at the first failure: what was injected, whether all were, the next send.\<close>

fun send_each :: "SendEnv \<Rightarrow> nat \<Rightarrow> bytes list \<Rightarrow> Emission list \<times> bool \<times> nat" where
  "send_each env k [] = ([], True, k)"
| "send_each env k (b # bs) =
     (if send_raw_packet env k b then (case send_each env (Suc k) bs of (es, ok, n) \<Rightarrow> (Inject b # es, ok, n)) else ([], False, Suc k))"

definition linux_decoys :: "('i, 't) Etherparse \<Rightarrow> SendEnv \<Rightarrow> bytes \<Rightarrow> PacketLayout \<Rightarrow> PacketView \<Rightarrow> (Emission list \<times> nat) res" where
  "linux_decoys ep env data ly v = (case decoy v of None \<Rightarrow> Ok ([], 0)
   | Some d \<Rightarrow> (case linux_build_modified ep data ly (decoy_view v d) of Panic \<Rightarrow> Panic | Ok None \<Rightarrow> Ok ([], 0)
     | Ok (Some b) \<Rightarrow> if \<not> se_raw env then Ok ([], 0)
         else (case send_each env 0 (replicate (max (dp_repeats d) 1) b) of
           (es, _, n) \<Rightarrow> Ok (es @ (if 0 < dp_delay_ms d then [Pause (dp_delay_ms d)] else []), n))))"

text \<open>The thread for delayed segments: segment \<open>i\<close> follows after a pause of \<open>i + 1\<close> times the delay.\<close>

definition delayed :: "nat \<Rightarrow> bytes list \<Rightarrow> (nat \<times> bytes) list" where
  "delayed delay segs = map (\<lambda>i. (delay * (i + 1), segs ! i)) [0..<length segs]"

definition emit_fragments :: "SendEnv \<Rightarrow> nat \<Rightarrow> bytes \<Rightarrow> nat \<Rightarrow> Emission list \<times> NfqVerdict" where
  "emit_fragments env k new_bytes frag_size = (let fragments = fragment_ipv4_packet new_bytes frag_size in
     if se_raw env \<and> 1 < length fragments
     then (case send_each env k fragments of (es, injected, _) \<Rightarrow> (es, if injected then NfDrop else NfReplace new_bytes))
     else ([], NfReplace new_bytes))"

definition emit_segments :: "SendEnv \<Rightarrow> nat \<Rightarrow> bytes \<Rightarrow> DisorderSpec \<Rightarrow> Emission list \<times> NfqVerdict" where
  "emit_segments env k new_bytes spec = (let segments = split_tcp_payload new_bytes spec in
     if se_raw env \<and> 1 < length segments
     then (if send_raw_packet env k (hd segments)
           then (Inject (hd segments) # (if 0 < ds_delay_ms spec \<and> se_dup env then [Spawn (delayed (ds_delay_ms spec) (tl segments))]
               else fst (send_each env (Suc k) (tl segments))), NfDrop)
           else ([], NfReplace new_bytes))
     else ([], NfReplace new_bytes))"

definition emit_original_too :: "SendEnv \<Rightarrow> nat \<Rightarrow> bytes \<Rightarrow> Emission list \<times> NfqVerdict" where
  "emit_original_too env k new_bytes =
     (if se_raw env \<and> send_raw_packet env k new_bytes then ([Inject new_bytes], NfAccept) else ([], NfReplace new_bytes))"

definition emit_modified :: "SendEnv \<Rightarrow> nat \<Rightarrow> bytes \<Rightarrow> PacketView \<Rightarrow> Emission list \<times> NfqVerdict" where
  "emit_modified env k new_bytes v = (case ip_frag_payload_size v of Some frag_size \<Rightarrow> emit_fragments env k new_bytes frag_size
   | None \<Rightarrow> (case disorder_spec v of Some spec \<Rightarrow> emit_segments env k new_bytes spec
     | None \<Rightarrow> if emit_original_after v then emit_original_too env k new_bytes else ([], NfReplace new_bytes)))"

definition accept_modified :: "('i, 't) Etherparse \<Rightarrow> SendEnv \<Rightarrow> bytes \<Rightarrow> PacketLayout \<Rightarrow> PacketView \<Rightarrow> (Emission list \<times> NfqVerdict) res" where
  "accept_modified ep env data ly v = (case linux_decoys ep env data ly v of Panic \<Rightarrow> Panic
   | Ok (es, k) \<Rightarrow> (case linux_build_modified ep data ly v of Panic \<Rightarrow> Panic
     | Ok None \<Rightarrow> Ok (es, NfAccept)
     | Ok (Some new_bytes) \<Rightarrow> (case emit_modified env k new_bytes v of (es', verdict) \<Rightarrow> Ok (es @ es', verdict))))"

definition HOOK_LOCAL_IN :: u8 where "HOOK_LOCAL_IN = 1"
definition HOOK_LOCAL_OUT :: u8 where "HOOK_LOCAL_OUT = 3"

definition hook_direction :: "u8 \<Rightarrow> Direction option" where
  "hook_direction hook = (if hook = HOOK_LOCAL_OUT then Some Outbound else if hook = HOOK_LOCAL_IN then Some Inbound else None)"

type_synonym 's packet_handler = "'s \<Rightarrow> PacketView \<Rightarrow> (Verdict \<times> PacketView \<times> 's) res"

definition linux_packet :: "('i, 't) Etherparse \<Rightarrow> 's packet_handler \<Rightarrow> SendEnv \<Rightarrow> u8 \<Rightarrow> bytes \<Rightarrow> 's
    \<Rightarrow> (Emission list \<times> NfqVerdict \<times> 's) res" where
  "linux_packet ep h env hook data s = (case hook_direction hook of None \<Rightarrow> Ok ([], NfAccept, s)
   | Some dir \<Rightarrow> (case parse_view ep dir data of Panic \<Rightarrow> Panic | Ok None \<Rightarrow> Ok ([], NfAccept, s)
     | Ok (Some (view, ly)) \<Rightarrow> (case h s view of Panic \<Rightarrow> Panic
       | Ok (verdict, v, s') \<Rightarrow> (case verdict of Accept \<Rightarrow> Ok ([], NfAccept, s') | Drop \<Rightarrow> Ok ([], NfDrop, s')
         | AcceptModified \<Rightarrow> (case accept_modified ep env data ly v of Panic \<Rightarrow> Panic | Ok (es, r) \<Rightarrow> Ok (es, r, s'))))))"

section \<open>The loop\<close>

datatype NfqRecv = RInterrupted | RWouldBlock | RStale bool | RFailed | RMessage u8 bytes SendEnv

text \<open>An event: whether a shutdown was requested when the loop looked, and what \<^verbatim>\<open>recv\<close> returned. \<open>RStale\<close> carries the second look.\<close>

datatype LoopEnd = Running | Returned bool | Panicked

fun nfq_loop :: "('i, 't) Etherparse \<Rightarrow> 's packet_handler \<Rightarrow> 's \<Rightarrow> (bool \<times> NfqRecv) list
    \<Rightarrow> (Emission list \<times> NfqVerdict) list \<times> 's \<times> LoopEnd" where
  "nfq_loop ep h s [] = ([], s, Running)"
| "nfq_loop ep h s ((shutdown, r) # evs) =
     (if shutdown then ([], s, Returned True)
      else (case r of RInterrupted \<Rightarrow> nfq_loop ep h s evs | RWouldBlock \<Rightarrow> nfq_loop ep h s evs
        | RStale shutdown' \<Rightarrow> if shutdown' then ([], s, Returned True) else nfq_loop ep h s evs
        | RFailed \<Rightarrow> ([], s, Returned False)
        | RMessage hook data env \<Rightarrow> (case linux_packet ep h env hook data s of Panic \<Rightarrow> ([], s, Panicked)
          | Ok (es, v, s') \<Rightarrow> (case nfq_loop ep h s' evs of (outs, s'', e) \<Rightarrow> ((es, v) # outs, s'', e)))))"

text \<open>After the loop the workers are joined and the firewall rules removed; the result is \<^verbatim>\<open>result.and(cleanup)\<close>.\<close>

datatype NfqAction = Packet "Emission list" NfqVerdict | JoinWorkers | RemoveRules bool

definition nfq_run_until :: "('i, 't) Etherparse \<Rightarrow> 's packet_handler \<Rightarrow> 's \<Rightarrow> (bool \<times> NfqRecv) list \<Rightarrow> bool \<Rightarrow> NfqAction list \<times> LoopEnd" where
  "nfq_run_until ep h s evs cleanup_ok = (case nfq_loop ep h s evs of (outs, _, e) \<Rightarrow>
     let tr = map (\<lambda>(es, v). Packet es v) outs in
     case e of Returned ok \<Rightarrow> (tr @ [JoinWorkers, RemoveRules cleanup_ok], Returned (ok \<and> cleanup_ok)) | _ \<Rightarrow> (tr, e))"

section \<open>Emission workers\<close>

text \<open>\<^verbatim>\<open>swap_remove\<close>, and the loop of \<^verbatim>\<open>push\<close> that joins the finished workers.\<close>

definition swap_remove :: "nat \<Rightarrow> 'a list \<Rightarrow> 'a list" where
  "swap_remove i xs = (if i = length xs - 1 then butlast xs else (butlast xs)[i := last xs])"

function reap :: "('a \<Rightarrow> bool) \<Rightarrow> nat \<Rightarrow> 'a list \<Rightarrow> 'a list" where
  "reap finished i xs = (if i < length xs
     then (if finished (xs ! i) then reap finished i (swap_remove i xs) else reap finished (Suc i) xs)
     else xs)"
  by pat_completeness auto
termination
  by (relation "measure (\<lambda>(f, i, xs). 2 * length xs - i)") (auto simp: swap_remove_def)

declare reap.simps [simp del]

definition emission_push :: "('a \<Rightarrow> bool) \<Rightarrow> 'a \<Rightarrow> 'a list \<Rightarrow> 'a list" where
  "emission_push finished w workers = reap finished 0 workers @ [w]"

section \<open>What reaches the wire\<close>

lemma join_fragments_headers: "join_fragments bufid off fs = Some p \<Longrightarrow> f \<in> set fs \<Longrightarrow> ipv4_header_ok f"
  by (induction bufid off fs arbitrary: p rule: join_fragments.induct) (auto split: if_splits)

lemma reassemble_headers:
  assumes "reassemble fs = Some p" "f \<in> set fs"
  shows "ipv4_header_ok f"
proof -
  have "\<exists>bufid q. join_fragments bufid 0 fs = Some q"
    using assms(1) by (cases fs) (auto simp: reassemble_def simp del: join_fragments.simps simp flip: split_paired_Ex)
  then show ?thesis using assms(2) join_fragments_headers by blast
qed

lemma ipv4_header_ok_length: "ipv4_header_ok f \<Longrightarrow> 20 \<le> length f"
  by (simp add: ipv4_header_ok_def)

lemma fragment_cases:
  assumes "length bytes \<le> 65535"
  shows "fragment_ipv4_packet bytes n = [bytes] \<or> reassemble (fragment_ipv4_packet bytes n) = Some (unfragmented bytes)"
proof (cases "is_fragmented bytes n")
  case True
  then show ?thesis using reassemble_fragments assms by blast
next
  case False
  then show ?thesis by (cases bytes) (auto simp: fragment_ipv4_packet_def is_fragmented_def Let_def)
qed

lemma not_split: "\<not> is_split bytes spec \<Longrightarrow> split_tcp_payload bytes spec = [bytes]"
  by (cases bytes) (auto simp: split_tcp_payload_def is_split_def tcp_hdr_of_def tcp_payload_def Let_def)

lemma split_at_least_two:
  assumes "is_split bytes spec"
  shows "1 < length (split_tcp_payload bytes spec)"
proof -
  let ?n = "length (tcp_payload bytes)" and ?s = "ds_segments spec" and ?c = "seg_chunk bytes spec"
  have ns: "2 \<le> ?s" "?s \<le> ?n" using assms by (auto simp: is_split_def)
  obtain a b where ab: "?n = a + 2" "?s = b + 2" using ns by (metis add.commute le_Suc_ex le_trans)
  have "?n + ?s - 1 < ?n * ?s" unfolding ab by (simp add: algebra_simps)
  then have "?c < ?n" unfolding seg_chunk_def div_ceil_def by (simp add: less_mult_imp_div_less)
  then have "?c div ?c < seg_count bytes spec" by (rule seg_count_covers [OF assms])
  then have c: "1 < seg_count bytes spec" using seg_chunk_pos [OF assms] by simp
  obtain k0 ks where ks: "split_tcp_payload bytes spec = map (seg_nth bytes spec) (k0 # ks)" "set (k0 # ks) = {..< seg_count bytes spec}"
    by (rule emission_order [OF assms])
  have "seg_count bytes spec \<le> length (k0 # ks)" using card_length [of "k0 # ks"] ks(2) by simp
  then show ?thesis using c ks(1) by (cases ks) auto
qed

lemma segments_long:
  assumes "length bytes \<le> 65535" "20 \<le> length bytes" "f \<in> set (split_tcp_payload bytes spec)"
  shows "20 \<le> length f"
proof (cases "is_split bytes spec")
  case True
  obtain k0 ks where "split_tcp_payload bytes spec = map (seg_nth bytes spec) (k0 # ks)" "set (k0 # ks) = {..< seg_count bytes spec}"
    by (rule emission_order [OF True])
  then obtain k where "k < seg_count bytes spec" "f = seg_nth bytes spec k" using assms(3) by (metis imageE lessThan_iff set_map)
  then have "tcp_segment_ok f" using seg_nth_facts [OF True assms(1)] by blast
  then show ?thesis by (simp add: tcp_segment_ok_def ipv4_header_ok_length)
qed (use assms not_split in auto)

lemma fragments_long:
  assumes "length bytes \<le> 65535" "20 \<le> length bytes" "f \<in> set (fragment_ipv4_packet bytes n)"
  shows "20 \<le> length f"
  using fragment_cases [OF assms(1), of n] assms reassemble_headers ipv4_header_ok_length by fastforce

text \<open>The packets an emission puts on the wire, in the order of their sending; the verdict decides on the queued packet.\<close>

fun injected1 :: "Emission \<Rightarrow> bytes list" where
  "injected1 (Inject b) = [b]"
| "injected1 (Pause n) = []"
| "injected1 (Spawn later) = map snd later"

definition injected :: "Emission list \<Rightarrow> bytes list" where
  "injected es = concat (map injected1 es)"

lemma injected_simps [simp]: "injected [] = []" "injected (e # es) = injected1 e @ injected es" "injected (es @ es') = injected es @ injected es'"
  by (simp_all add: injected_def)

definition on_wire :: "bytes \<Rightarrow> Emission list \<Rightarrow> NfqVerdict \<Rightarrow> bytes list" where
  "on_wire original es v = injected es @ (case v of NfAccept \<Rightarrow> [original] | NfReplace b \<Rightarrow> [b] | NfDrop \<Rightarrow> [])"

text \<open>What a rewritten packet is replaced by.\<close>

definition wire_plan :: "PacketView \<Rightarrow> bytes \<Rightarrow> bytes \<Rightarrow> bytes list" where
  "wire_plan v new_bytes original = (case ip_frag_payload_size v of Some n \<Rightarrow> fragment_ipv4_packet new_bytes n
   | None \<Rightarrow> (case disorder_spec v of Some spec \<Rightarrow> split_tcp_payload new_bytes spec
     | None \<Rightarrow> if emit_original_after v then [new_bytes, original] else [new_bytes]))"

lemma send_each_injected: "send_each env k bs = (es, ok, n) \<Longrightarrow> \<exists>m. injected es = take m bs \<and> (ok \<longrightarrow> injected es = bs)"
proof (induction env k bs arbitrary: es ok n rule: send_each.induct)
  case (2 env k b bs)
  show ?case
  proof (cases "send_raw_packet env k b")
    case True
    obtain es' ok' n' where r: "send_each env (Suc k) bs = (es', ok', n')" by (metis prod.exhaust)
    from 2(1) [OF True r] obtain m where "injected es' = take m bs" "ok' \<longrightarrow> injected es' = bs" by blast
    then show ?thesis using 2(2) True r by (intro exI [of _ "Suc m"]) auto
  next
    case False
    then show ?thesis using 2(2) by (intro exI [of _ 0]) auto
  qed
qed simp

definition all_sent :: "SendEnv \<Rightarrow> bool" where
  "all_sent env = (se_raw env \<and> (\<forall>k. se_ok env k))"

lemma send_each_all:
  assumes "all_sent env" "\<forall>b \<in> set bs. 20 \<le> length b"
  shows "\<exists>es n. send_each env k bs = (es, True, n) \<and> injected es = bs"
  using assms(2)
proof (induction bs arbitrary: k)
  case (Cons b bs)
  then obtain es n where "send_each env (Suc k) bs = (es, True, n)" "injected es = bs" by force
  then show ?case using Cons assms(1) by (simp add: send_raw_packet_def all_sent_def)
qed simp

lemma delayed_packets: "map snd (delayed d segs) = segs"
  by (simp add: delayed_def comp_def map_nth)

lemma emit_modified_on_wire:
  assumes "all_sent env" "20 \<le> length new_bytes" "length new_bytes \<le> 65535" "emit_modified env k new_bytes v = (es, verdict)"
  shows "on_wire original es verdict = wire_plan v new_bytes original"
proof -
  have raw: "se_raw env" "send_raw_packet env j b = (20 \<le> length b)" for j b
    using assms(1) by (auto simp: all_sent_def send_raw_packet_def)
  show ?thesis
  proof (cases "ip_frag_payload_size v")
    case (Some n)
    let ?fs = "fragment_ipv4_packet new_bytes n"
    obtain es' m where "send_each env k ?fs = (es', True, m)" "injected es' = ?fs"
      using send_each_all [OF assms(1)] fragments_long [OF assms(3,2)] by blast
    moreover have "\<not> 1 < length ?fs \<Longrightarrow> ?fs = [new_bytes]"
    proof -
      assume l: "\<not> 1 < length ?fs"
      show "?fs = [new_bytes]"
      proof (cases "is_fragmented new_bytes n")
        case True
        then have "length ?fs = length (chunks (n div 8 * 8) (ipv4_payload new_bytes))" "0 < n div 8 * 8" "n div 8 * 8 < length (ipv4_payload new_bytes)"
          by (auto simp: fragment_ipv4_packet_def is_fragmented_def ipv4_payload_def length_fragment_parts Let_def split: list.splits)
        moreover have "1 < length (chunks c xs)" if "0 < c" "c < length xs" for c and xs :: bytes
          using that chunks_Cons [of c xs] chunks_Cons [of c "drop c xs"] by (cases "xs = []") auto
        ultimately show ?thesis using l by simp
      next
        case False
        then show ?thesis by (cases new_bytes) (auto simp: fragment_ipv4_packet_def is_fragmented_def Let_def)
      qed
    qed
    ultimately show ?thesis using assms(4) Some raw(1)
      by (auto simp: emit_modified_def emit_fragments_def wire_plan_def on_wire_def Let_def split: if_splits)
  next
    case no_frag: None
    show ?thesis
    proof (cases "disorder_spec v")
      case (Some spec)
      let ?ss = "split_tcp_payload new_bytes spec"
      have long: "\<forall>b \<in> set ?ss. 20 \<le> length b" using segments_long [OF assms(3,2)] by blast
      show ?thesis
      proof (cases "1 < length ?ss")
        case True
        then obtain s0 ss where ss: "?ss = s0 # ss" by (cases ?ss) auto
        obtain es' m where "send_each env (Suc k) ss = (es', True, m)" "injected es' = ss"
          using send_each_all [OF assms(1), of ss "Suc k"] long ss by auto
        then show ?thesis using assms(4) Some no_frag raw long ss True
          by (auto simp: emit_modified_def emit_segments_def wire_plan_def on_wire_def delayed_packets Let_def split: if_splits)
      next
        case False
        then have "\<not> is_split new_bytes spec" using split_at_least_two by blast
        then have "?ss = [new_bytes]" by (rule not_split)
        then show ?thesis using assms(4) Some no_frag
          by (auto simp: emit_modified_def emit_segments_def wire_plan_def on_wire_def Let_def)
      qed
    next
      case None
      then show ?thesis using assms(2,4) no_frag raw
        by (auto simp: emit_modified_def emit_original_too_def wire_plan_def on_wire_def split: if_splits)
    qed
  qed
qed

definition decoy_copies :: "('i, 't) Etherparse \<Rightarrow> bytes \<Rightarrow> PacketLayout \<Rightarrow> PacketView \<Rightarrow> bytes list" where
  "decoy_copies ep data ly v = (case decoy v of None \<Rightarrow> []
   | Some d \<Rightarrow> (case linux_build_modified ep data ly (decoy_view v d) of Ok (Some b) \<Rightarrow> replicate (max (dp_repeats d) 1) b | _ \<Rightarrow> []))"

text \<open>A captured packet that is complete in its buffer.\<close>

definition complete_capture :: "('i, 't) Etherparse \<Rightarrow> Direction \<Rightarrow> bytes \<Rightarrow> PacketView \<Rightarrow> PacketLayout \<Rightarrow> bool" where
  "complete_capture ep dir data view ly = (etherparse ep \<and> parse_view ep dir data = Ok (Some (view, ly)) \<and> length data = ly_total_len ly)"

lemma build_modified_total: "complete_capture ep dir data view ly \<Longrightarrow> build_modified_of linux ep data ly v \<noteq> Panic"
  using etherparse.rebuild_total [of ep dir data view ly v]
  by (auto simp: complete_capture_def build_modified_of_def linux_build_modified_def windows_build_modified_def split: res.splits option.splits)

lemmas linux_build_total = build_modified_total [of _ _ _ _ _ True, unfolded build_modified_of_def if_True]

lemma build_modified_length:
  assumes "complete_capture ep dir data view ly" "build_modified_of linux ep data ly v = Ok (Some out)"
  shows "20 \<le> length out" "length out \<le> 65535"
proof -
  have ep: "etherparse ep" "parse_view ep dir data = Ok (Some (view, ly))" using assms(1) by (auto simp: complete_capture_def)
  obtain ly' view' where p: "parse_view ep dir out = Ok (Some (view', ly'))" "ly_total_len ly' = length out"
    by (rule build_modified_written [OF assms(2)]) (use etherparse.rebuilt_parses_back [OF ep] in blast)
  show "20 \<le> length out"
    by (rule etherparse.parse_view_headers [OF ep(1) p(1)]) (use etherparse.ipv4_slice [OF ep(1)] in fastforce)
  show "length out \<le> 65535"
  proof (rule etherparse.parse_view_headers [OF ep(1) p(1)])
    fix ip :: "'a Ipv4Header"
    assume "ly_total_len ly' = unat (ih_total_len ip)"
    then show ?thesis using p(2) unat_u16_bound [of "ih_total_len ip"] by linarith
  qed
qed

lemmas linux_build_length = build_modified_length [where linux = True, unfolded build_modified_of_def if_True]

lemma linux_decoys_on_wire:
  assumes "complete_capture ep dir data view ly" "all_sent env"
  shows "\<exists>es k. linux_decoys ep env data ly v = Ok (es, k) \<and> injected es = decoy_copies ep data ly v"
proof (cases "decoy v")
  case None
  then show ?thesis by (simp add: linux_decoys_def decoy_copies_def)
next
  case (Some d)
  show ?thesis
  proof (cases "linux_build_modified ep data ly (decoy_view v d)")
    case Panic
    then show ?thesis using linux_build_total [OF assms(1)] by blast
  next
    case (Ok r)
    show ?thesis
    proof (cases r)
      case None
      then show ?thesis using Some Ok by (simp add: linux_decoys_def decoy_copies_def)
    next
      case (Some b)
      then have "20 \<le> length b" using linux_build_length [OF assms(1)] Ok by blast
      then obtain es n where "send_each env 0 (replicate (max (dp_repeats d) 1) b) = (es, True, n)" "injected es = replicate (max (dp_repeats d) 1) b"
        using send_each_all [OF assms(2)] by (metis in_set_replicate)
      then show ?thesis using \<open>decoy v = Some d\<close> Ok Some assms(2) by (simp add: linux_decoys_def decoy_copies_def all_sent_def)
    qed
  qed
qed

lemma accept_modified_on_wire:
  assumes "complete_capture ep dir data view ly" "all_sent env"
  shows "\<exists>es r. accept_modified ep env data ly v = Ok (es, r) \<and> on_wire data es r = decoy_copies ep data ly v
    @ (case linux_build_modified ep data ly v of Ok (Some new_bytes) \<Rightarrow> wire_plan v new_bytes data | _ \<Rightarrow> [data])"
proof -
  obtain es k where d: "linux_decoys ep env data ly v = Ok (es, k)" "injected es = decoy_copies ep data ly v"
    using linux_decoys_on_wire [OF assms] by blast
  show ?thesis
  proof (cases "linux_build_modified ep data ly v")
    case Panic
    then show ?thesis using linux_build_total [OF assms(1)] by blast
  next
    case (Ok r)
    show ?thesis
    proof (cases r)
      case None
      then show ?thesis using d Ok by (simp add: accept_modified_def on_wire_def)
    next
      case (Some b)
      obtain es' v' where e: "emit_modified env k b v = (es', v')" by fastforce
      have "on_wire data es' v' = wire_plan v b data"
        using emit_modified_on_wire [OF assms(2) _ _ e] linux_build_length [OF assms(1)] Ok Some by blast
      then show ?thesis using d Ok Some e by (simp add: accept_modified_def on_wire_def)
    qed
  qed
qed

section \<open>No packet is lost\<close>

lemma emit_modified_keeps:
  assumes "emit_modified env k new_bytes v = (es, verdict)"
  shows "(case verdict of NfReplace b \<Rightarrow> b = new_bytes | NfAccept \<Rightarrow> emit_original_after v \<and> injected es = [new_bytes]
    | NfDrop \<Rightarrow> (\<exists>n. ip_frag_payload_size v = Some n \<and> injected es = fragment_ipv4_packet new_bytes n \<and> 1 < length (injected es))
        \<or> (\<exists>spec. disorder_spec v = Some spec \<and> (\<exists>m. 0 < m \<and> injected es = take m (split_tcp_payload new_bytes spec)) \<and> 1 < length (split_tcp_payload new_bytes spec)))"
proof (cases "ip_frag_payload_size v")
  case (Some n)
  obtain es' ok j where s: "send_each env k (fragment_ipv4_packet new_bytes n) = (es', ok, j)" by (metis prod.exhaust)
  show ?thesis using assms Some s send_each_injected [OF s]
    by (auto simp: emit_modified_def emit_fragments_def Let_def split: if_splits)
next
  case no_frag: None
  show ?thesis
  proof (cases "disorder_spec v")
    case (Some spec)
    let ?ss = "split_tcp_payload new_bytes spec"
    obtain es' ok j where s: "send_each env (Suc k) (tl ?ss) = (es', ok, j)" by (metis prod.exhaust)
    obtain m where m: "injected es' = take m (tl ?ss)" using send_each_injected [OF s] by blast
    have drop: "\<exists>m. 0 < m \<and> injected es = take m ?ss" if v: "verdict = NfDrop"
    proof -
      obtain s0 ss where ss: "?ss = s0 # ss" using assms Some no_frag v
        by (cases ?ss) (auto simp: emit_modified_def emit_segments_def Let_def)
      have "injected es = s0 # ss \<or> injected es = s0 # take m ss" using assms Some no_frag v ss s m
        by (auto simp: emit_modified_def emit_segments_def delayed_packets Let_def split: if_splits)
      then show ?thesis using ss by (auto intro: exI [of _ "Suc m"] exI [of _ "Suc (length ss)"])
    qed
    have "verdict = NfDrop \<and> 1 < length ?ss \<or> verdict = NfReplace new_bytes"
      using assms Some no_frag by (auto simp: emit_modified_def emit_segments_def Let_def split: if_splits)
    then show ?thesis using drop Some by auto
  next
    case None
    then show ?thesis using assms no_frag
      by (auto simp: emit_modified_def emit_original_too_def split: if_splits)
  qed
qed

text \<open>
  C9. A rewritten packet is never lost. Whatever raw sends fail, either the queued packet is replaced by the rewritten one; or it passes as it
  is, which happens only when the method asked for the original after its decoy and the decoy has been injected; or it is dropped, and then all
  fragments of the rewritten packet have been injected and reassemble to it, or an initial part of its segments, at least the first
  (segments handed to the worker that sends them after their delay count as sent).
\<close>

theorem modified_packet_not_lost:
  assumes "complete_capture ep dir data view ly" "accept_modified ep env data ly v = Ok (es, verdict)"
    and "linux_build_modified ep data ly v = Ok (Some new_bytes)"
  shows "\<exists>before sent. injected es = before @ sent \<and> (case verdict of NfReplace b \<Rightarrow> b = new_bytes
    | NfAccept \<Rightarrow> emit_original_after v \<and> sent = [new_bytes]
    | NfDrop \<Rightarrow> reassemble sent = Some (unfragmented new_bytes)
        \<or> (\<exists>spec m. disorder_spec v = Some spec \<and> is_split new_bytes spec \<and> 0 < m \<and> sent = take m (split_tcp_payload new_bytes spec)))"
proof -
  obtain es1 k es2 where d: "linux_decoys ep env data ly v = Ok (es1, k)" "emit_modified env k new_bytes v = (es2, verdict)" "es = es1 @ es2"
    using assms(2,3) by (auto simp: accept_modified_def split: res.splits prod.splits)
  have len: "length new_bytes \<le> 65535" using linux_build_length [OF assms(1,3)] by blast
  have "(case verdict of NfReplace b \<Rightarrow> b = new_bytes | NfAccept \<Rightarrow> emit_original_after v \<and> injected es2 = [new_bytes]
    | NfDrop \<Rightarrow> reassemble (injected es2) = Some (unfragmented new_bytes)
        \<or> (\<exists>spec m. disorder_spec v = Some spec \<and> is_split new_bytes spec \<and> 0 < m \<and> injected es2 = take m (split_tcp_payload new_bytes spec)))"
  proof (cases verdict)
    case NfDrop
    have "fragment_ipv4_packet new_bytes n \<noteq> [new_bytes] \<Longrightarrow> reassemble (fragment_ipv4_packet new_bytes n) = Some (unfragmented new_bytes)" for n
      using fragment_cases [OF len] by blast
    moreover have "is_split new_bytes spec" if "1 < length (split_tcp_payload new_bytes spec)" for spec
      using that not_split [of new_bytes spec] by (cases "is_split new_bytes spec") auto
    moreover have "(\<exists>n. injected es2 = fragment_ipv4_packet new_bytes n \<and> 1 < length (injected es2)) \<or> (\<exists>spec m. disorder_spec v = Some spec \<and> 0 < m
        \<and> injected es2 = take m (split_tcp_payload new_bytes spec) \<and> 1 < length (split_tcp_payload new_bytes spec))"
      using emit_modified_keeps [OF d(2)] NfDrop by auto
    ultimately have "reassemble (injected es2) = Some (unfragmented new_bytes)
        \<or> (\<exists>spec m. disorder_spec v = Some spec \<and> is_split new_bytes spec \<and> 0 < m \<and> injected es2 = take m (split_tcp_payload new_bytes spec))"
      by (metis length_Cons less_irrefl list.size(3) One_nat_def)
    then show ?thesis using NfDrop by simp
  qed (use emit_modified_keeps [OF d(2)] in auto)
  then show ?thesis using d(3) by auto
qed

lemma modified_packet_not_lost_witness:
  "\<exists>ly new_bytes before sent. accept_modified wire_codec \<lparr>se_raw = False, se_ok = (\<lambda>_. True), se_dup = True\<rparr> sample_packet ly
      (blank_packet\<lparr>new_seq := Some 77\<rparr>) = Ok ([], NfReplace new_bytes) \<and> injected [] = before @ sent \<and> 20 \<le> length new_bytes"
proof -
  let ?env = "\<lparr>se_raw = False, se_ok = (\<lambda>_. True), se_dup = True\<rparr>" and ?v = "blank_packet\<lparr>new_seq := Some 77\<rparr>"
  let ?w = "fresh_view Outbound sample_ip sample_tcp [9] []"
  obtain ly where ly: "parse_view wire_codec Outbound sample_packet = Ok (Some (?w, ly))" "length sample_packet = ly_total_len ly"
    using sample_parses by auto
  have c: "complete_capture wire_codec Outbound sample_packet ?w ly" using ly wire.etherparse_axioms by (simp add: complete_capture_def)
  have n: "ly_ip_hdr_len ly \<le> 41"
    by (rule wire.parse_view_headers [OF ly(1)]) (use wire.ipv4_slice sample_packet_length in fastforce)
  have s: "staged_options ?v (tcp_options ?w) = []" "staging_fits ?v (tcp_options ?w)" "new_payload ?v = None" "payload ?w = [9]"
    by (simp_all add: staged_options_def staging_fits_def blank_packet_def fresh_view_def Let_def)
  obtain b where b: "linux_build_modified wire_codec sample_packet ly ?v = Ok (Some b)"
    using build_modified_succeeds [OF wire.etherparse_axioms ly s(2), of True] n s by (auto simp: build_modified_of_def)
  have a: "accept_modified wire_codec ?env sample_packet ly ?v = Ok ([], NfReplace b)"
    using b by (simp add: accept_modified_def linux_decoys_def emit_modified_def blank_packet_def)
  from modified_packet_not_lost [OF c a b] show ?thesis using a linux_build_length(1) [OF c b] by blast
qed

section \<open>The capture loop with the packet handler\<close>

definition stops :: "bool \<times> NfqRecv \<Rightarrow> bool" where
  "stops ev = (fst ev \<or> snd ev = RStale True \<or> snd ev = RFailed)"

fun is_message :: "bool \<times> NfqRecv \<Rightarrow> bool" where
  "is_message (shutdown, RMessage hook data env) = True"
| "is_message _ = False"

text \<open>The kernel hands over whole packets.\<close>

definition whole_packet :: "('i, 't) Etherparse \<Rightarrow> bool \<times> NfqRecv \<Rightarrow> bool" where
  "whole_packet ep ev = (case snd ev of RMessage hook data env \<Rightarrow>
     (\<forall>ip n. ep_ipv4_from_slice ep data = Some (ip, n) \<longrightarrow> unat (ih_total_len ip) = length data) | _ \<Rightarrow> True)"

definition method_handler :: "Env \<Rightarrow> CompositeMethod \<Rightarrow> FlowStore packet_handler" where
  "method_handler env m = on_packet (composite_handshake env m) (composite_data env m)"

lemma accept_modified_total:
  assumes "complete_capture ep dir data view ly"
  shows "accept_modified ep env data ly v \<noteq> Panic"
  using linux_build_total [OF assms]
  by (auto simp: accept_modified_def linux_decoys_def split: res.splits option.splits prod.splits)

lemma method_handler_total:
  assumes "reachable m s" "composite_ok m"
  shows "\<exists>v p' s'. method_handler menv m s p = Ok (v, p', s') \<and> reachable m s'"
proof -
  obtain v p' s' where o: "on_packet (composite_handshake menv m) (composite_data menv m) s p = Ok (v, p', s')"
    using on_packet_total [OF assms(2) reachable_store_inv [OF assms]] by blast
  then show ?thesis using reachable.step [OF assms(1) flow_step.packet [OF o]] by (auto simp: method_handler_def)
qed

lemma linux_packet_total:
  assumes "etherparse ep" "whole_packet ep (b, RMessage hook data env)" "reachable m s" "composite_ok m"
  shows "\<exists>es v s'. linux_packet ep (method_handler menv m) env hook data s = Ok (es, v, s') \<and> reachable m s'"
proof (cases "hook_direction hook")
  case None
  then show ?thesis using assms(3) by (simp add: linux_packet_def)
next
  case (Some dir)
  have whole: "unat (ih_total_len ip) = length data" if "ep_ipv4_from_slice ep data = Some (ip, n)" for ip n
    using assms(2) that by (simp add: whole_packet_def)
  have np: "parse_view ep dir data \<noteq> Panic" by (rule etherparse.parse_view_total [OF assms(1)]) (simp add: whole)
  show ?thesis
  proof (cases "\<exists>view ly. parse_view ep dir data = Ok (Some (view, ly))")
    case True
    then obtain view ly where p: "parse_view ep dir data = Ok (Some (view, ly))" by blast
    have "length data = ly_total_len ly" by (rule etherparse.parse_view_headers [OF assms(1) p]) (simp add: whole)
    then have c: "complete_capture ep dir data view ly" using assms(1) p by (simp add: complete_capture_def)
    obtain vd v s' where h: "method_handler menv m s view = Ok (vd, v, s')" "reachable m s'" using method_handler_total [OF assms(3,4)] by blast
    obtain es r where a: "accept_modified ep env data ly v = Ok (es, r)"
      using accept_modified_total [OF c, of env v] by (cases "accept_modified ep env data ly v") auto
    show ?thesis using Some p h a by (cases vd) (auto simp: linux_packet_def)
  next
    case False
    then have "parse_view ep dir data = Ok None" using np by (metis option.exhaust prod.exhaust res.exhaust)
    then show ?thesis using Some assms(3) by (simp add: linux_packet_def)
  qed
qed

lemma nfq_loop_end:
  assumes "etherparse ep" "composite_ok m" "reachable m s" "\<forall>ev \<in> set evs. whole_packet ep ev"
  shows "\<exists>outs s' e. nfq_loop ep (method_handler menv m) s evs = (outs, s', e) \<and> reachable m s'
    \<and> length outs = length (filter is_message (takeWhile (\<lambda>ev. \<not> stops ev) evs))
    \<and> e = (case dropWhile (\<lambda>ev. \<not> stops ev) evs of [] \<Rightarrow> Running | ev # _ \<Rightarrow> Returned (fst ev \<or> snd ev \<noteq> RFailed))"
  using assms(3,4)
proof (induction evs arbitrary: s)
  case Nil
  then show ?case by simp
next
  case (Cons ev evs)
  obtain sh r where ev: "ev = (sh, r)" by fastforce
  note ih = Cons.IH
  show ?case
  proof (cases "\<exists>hook data env. r = RMessage hook data env \<and> \<not> sh")
    case True
    then obtain hook data env where r: "r = RMessage hook data env" "\<not> sh" by blast
    obtain es v s' where p: "linux_packet ep (method_handler menv m) env hook data s = Ok (es, v, s')" "reachable m s'"
      using linux_packet_total [OF assms(1) _ Cons.prems(1) assms(2), of sh hook data env menv] Cons.prems(2) ev r by auto
    with ih [OF p(2)] Cons.prems(2) show ?thesis using ev r p(1) by (auto simp: stops_def)
  next
    case False
    with ih [OF Cons.prems(1)] Cons.prems ev show ?thesis
      by (cases r) (auto simp: stops_def)
  qed
qed

text \<open>
  C10. The capture loop never panics and answers every packet. With the packet handler in a reachable state and whole packets from the kernel, the
  loop gives exactly one verdict to every message it receives, keeps the flow table reachable, and returns exactly at the first shutdown request or
  failed receive; before it returns it joins the emission workers and then removes the firewall rules, and it reports success only if they are gone.
\<close>

theorem capture_loop_answers_every_packet:
  assumes "etherparse ep" "composite_ok m" "reachable m s" "\<forall>ev \<in> set evs. whole_packet ep ev"
  shows "\<exists>outs. length outs = length (filter is_message (takeWhile (\<lambda>ev. \<not> stops ev) evs))
    \<and> nfq_run_until ep (method_handler menv m) s evs cleanup_ok = (case dropWhile (\<lambda>ev. \<not> stops ev) evs of
        [] \<Rightarrow> (map (\<lambda>(es, v). Packet es v) outs, Running)
      | ev # _ \<Rightarrow> (map (\<lambda>(es, v). Packet es v) outs @ [JoinWorkers, RemoveRules cleanup_ok], Returned ((fst ev \<or> snd ev \<noteq> RFailed) \<and> cleanup_ok)))"
proof -
  define rest where "rest = dropWhile (\<lambda>ev. \<not> stops ev) evs"
  obtain outs s' where l: "nfq_loop ep (method_handler menv m) s evs = (outs, s', (case rest of [] \<Rightarrow> Running
      | ev # _ \<Rightarrow> Returned (fst ev \<or> snd ev \<noteq> RFailed)))"
    "length outs = length (filter is_message (takeWhile (\<lambda>ev. \<not> stops ev) evs))"
    using nfq_loop_end [OF assms, of menv] unfolding rest_def by blast
  have "nfq_run_until ep (method_handler menv m) s evs cleanup_ok = (case rest of [] \<Rightarrow> (map (\<lambda>(es, v). Packet es v) outs, Running)
      | ev # _ \<Rightarrow> (map (\<lambda>(es, v). Packet es v) outs @ [JoinWorkers, RemoveRules cleanup_ok], Returned ((fst ev \<or> snd ev \<noteq> RFailed) \<and> cleanup_ok)))"
    unfolding nfq_run_until_def l(1) by (cases rest) (simp_all add: Let_def)
  then show ?thesis using l(2) unfolding rest_def by blast
qed

lemma capture_loop_answers_every_packet_witness:
  "\<exists>outs. length outs = 1 \<and> nfq_run_until wire_codec (method_handler \<lparr>env_ttl = 5, env_seed = 1\<rparr> idle_chain) new_flow_table
     [(False, RMessage HOOK_LOCAL_OUT [] \<lparr>se_raw = False, se_ok = (\<lambda>_. True), se_dup = True\<rparr>), (True, RWouldBlock)] True
     = (map (\<lambda>(es, v). Packet es v) outs @ [JoinWorkers, RemoveRules True], Returned True)"
proof -
  let ?evs = "[(False, RMessage HOOK_LOCAL_OUT [] \<lparr>se_raw = False, se_ok = (\<lambda>_. True), se_dup = True\<rparr>), (True, RWouldBlock)]"
  have "\<forall>ev \<in> set ?evs. whole_packet wire_codec ev" by (simp add: whole_packet_def wire_codec_def wire_ipv4_from_slice_def)
  from capture_loop_answers_every_packet [OF wire.etherparse_axioms idle_chain_ok reachable.start this, of "\<lparr>env_ttl = 5, env_seed = 1\<rparr>" True]
  show ?thesis by (simp add: stops_def)
qed

section \<open>Emission workers\<close>

lemma swap_remove_mset: "i < length xs \<Longrightarrow> mset (swap_remove i xs) = mset xs - {#xs ! i#}"
proof -
  assume i: "i < length xs"
  then have xs: "xs = butlast xs @ [last xs]" by (metis append_butlast_last_id length_0_conv not_less_zero)
  show ?thesis
  proof (cases "i = length xs - 1")
    case True
    then have "xs ! i = last xs" using i by (metis last_conv_nth length_0_conv not_less_zero)
    moreover have "mset xs = add_mset (last xs) (mset (butlast xs))" by (subst xs) simp
    ultimately show ?thesis using True by (simp add: swap_remove_def)
  next
    case False
    then have i': "i < length (butlast xs)" using i by simp
    have n: "xs ! i = butlast xs ! i" using i' by (simp add: nth_butlast)
    have "mset xs = add_mset (last xs) (mset (butlast xs))" by (subst xs) simp
    moreover have "mset ((butlast xs)[i := last xs]) = add_mset (last xs) (mset (butlast xs) - {#butlast xs ! i#})" by (rule mset_update [OF i'])
    ultimately show ?thesis using False n i' by (simp add: swap_remove_def)
  qed
qed

lemma reap_mset: "\<forall>j < i. j < length xs \<longrightarrow> \<not> finished (xs ! j) \<Longrightarrow> mset (reap finished i xs) = filter_mset (\<lambda>w. \<not> finished w) (mset xs)"
proof (induction finished i xs rule: reap.induct)
  case (1 finished i xs)
  show ?case
  proof (cases "i < length xs")
    case True
    show ?thesis
    proof (cases "finished (xs ! i)")
      case f: True
      have "\<forall>j < i. j < length (swap_remove i xs) \<longrightarrow> \<not> finished (swap_remove i xs ! j)"
        using 1(3) True by (auto simp: swap_remove_def nth_butlast nth_list_update)
      with 1(1) [OF True f] have "mset (reap finished i xs) = filter_mset (\<lambda>w. \<not> finished w) (mset xs - {#xs ! i#})"
        using True f by (simp add: reap.simps [of finished i xs] swap_remove_mset)
      also have "\<dots> = filter_mset (\<lambda>w. \<not> finished w) (mset xs)"
        using f True by (metis (mono_tags, lifting) diff_empty filter_diff_mset filter_empty_mset filter_single_mset)
      finally show ?thesis .
    next
      case f: False
      then have "\<forall>j < Suc i. j < length xs \<longrightarrow> \<not> finished (xs ! j)" using 1(3) less_Suc_eq by auto
      with 1(2) [OF True f] show ?thesis using True f by (simp add: reap.simps [of finished i xs])
    qed
  next
    case False
    then have "\<forall>w \<in> set xs. \<not> finished w" using 1(3) by (metis in_set_conv_nth leI less_le_trans)
    then have "filter_mset (\<lambda>w. \<not> finished w) (mset xs) = mset xs" by (simp add: filter_mset_eq_conv)
    then show ?thesis using False by (simp add: reap.simps [of finished i xs])
  qed
qed

text \<open>Registering a worker forgets only finished ones: a shutdown joins every worker that may still inject.\<close>

lemma emission_push_keeps_running:
  "mset (emission_push finished w workers) = add_mset w (filter_mset (\<lambda>x. \<not> finished x) (mset workers))"
  by (simp add: emission_push_def reap_mset)

end
