(* ===== verification/Windows_Backend.thy ===== *)
theory Windows_Backend
  imports Linux_Backend
begin

text \<open>
  The WinDivert backend, src/crates/zerodpi-platform/src/windows.rs. A captured packet reaches the wire only if it is sent again; the model gives the list
  of what is sent. \<^verbatim>\<open>recalculate_checksums\<close> of the WinDivert library is an argument. The properties compare the backend with the NFQUEUE one.
\<close>

section \<open>The code\<close>

definition divert_send :: "SendEnv \<Rightarrow> nat \<Rightarrow> bytes \<Rightarrow> Emission list" where
  "divert_send env k b = (if se_ok env k then [Inject b] else [])"

text \<open>Sending a list, stopping at the first failure or going on.\<close>

fun divert_each :: "SendEnv \<Rightarrow> nat \<Rightarrow> bytes list \<Rightarrow> Emission list \<times> nat" where
  "divert_each env k [] = ([], k)"
| "divert_each env k (b # bs) = (if se_ok env k then (case divert_each env (Suc k) bs of (es, n) \<Rightarrow> (Inject b # es, n)) else ([], Suc k))"

fun divert_all :: "SendEnv \<Rightarrow> nat \<Rightarrow> bytes list \<Rightarrow> Emission list" where
  "divert_all env k [] = []"
| "divert_all env k (b # bs) = divert_send env k b @ divert_all env (Suc k) bs"

definition windows_decoys :: "('i, 't) Etherparse \<Rightarrow> SendEnv \<Rightarrow> bytes \<Rightarrow> PacketLayout \<Rightarrow> PacketView \<Rightarrow> (Emission list \<times> nat) res" where
  "windows_decoys ep env data ly v = (case decoy v of None \<Rightarrow> Ok ([], 0)
   | Some d \<Rightarrow> (case windows_build_modified ep data ly (decoy_view v d) of Panic \<Rightarrow> Panic | Ok None \<Rightarrow> Ok ([], 0)
     | Ok (Some b) \<Rightarrow> (case divert_each env 0 (replicate (max (dp_repeats d) 1) b) of
         (es, n) \<Rightarrow> Ok (es @ (if 0 < dp_delay_ms d then [Pause (dp_delay_ms d)] else []), n))))"

text \<open>\<^verbatim>\<open>corrupt_tcp_checksum\<close>; a packet that is too short is sent as it is.\<close>

definition corrupt_tcp_checksum :: "PacketLayout \<Rightarrow> u16 \<Rightarrow> bytes \<Rightarrow> bytes" where
  "corrupt_tcp_checksum ly delta buf = (let checksum_off = ly_ip_hdr_len ly + 16 in
     if length buf < checksum_off + 2 then buf
     else splice buf checksum_off (u16_to_be (u16_from_be (buf ! checksum_off) (buf ! (checksum_off + 1)) + delta)))"

definition divert_segments :: "(bytes \<Rightarrow> bytes) \<Rightarrow> SendEnv \<Rightarrow> nat \<Rightarrow> bytes \<Rightarrow> bytes \<Rightarrow> DisorderSpec \<Rightarrow> Emission list" where
  "divert_segments recalc env k data new_bytes spec = (let segments = split_tcp_payload new_bytes spec in
     if 1 < length segments
     then (if \<not> se_ok env k then divert_send env (Suc k) data
           else Inject (hd segments) # (if 0 < ds_delay_ms spec
             then (if se_dup env then [Spawn (delayed (ds_delay_ms spec) (tl segments))] else [])
             else fst (divert_each env (Suc k) (tl segments))))
     else divert_send env k (recalc new_bytes))"

definition divert_modified :: "(bytes \<Rightarrow> bytes) \<Rightarrow> SendEnv \<Rightarrow> nat \<Rightarrow> bytes \<Rightarrow> PacketLayout \<Rightarrow> PacketView \<Rightarrow> bytes \<Rightarrow> Emission list" where
  "divert_modified recalc env k data ly v new_bytes = (case ip_frag_payload_size v of
     Some n \<Rightarrow> divert_all env k (fragment_ipv4_packet new_bytes n)
   | None \<Rightarrow> (case disorder_spec v of Some spec \<Rightarrow> divert_segments recalc env k data new_bytes spec
     | None \<Rightarrow> (let pkt = recalc new_bytes;
           pkt = (case corrupt_tcp_checksum_delta v of None \<Rightarrow> pkt | Some delta \<Rightarrow> corrupt_tcp_checksum ly delta pkt) in
         divert_send env k pkt @ (if emit_original_after v then divert_send env (Suc k) data else []))))"

definition windows_packet :: "('i, 't) Etherparse \<Rightarrow> (bytes \<Rightarrow> bytes) \<Rightarrow> 's packet_handler \<Rightarrow> SendEnv \<Rightarrow> Direction \<Rightarrow> bytes \<Rightarrow> 's
    \<Rightarrow> (Emission list \<times> 's) res" where
  "windows_packet ep recalc h env dir data s = (case parse_view ep dir data of Panic \<Rightarrow> Panic | Ok None \<Rightarrow> Ok (divert_send env 0 data, s)
   | Ok (Some (view, ly)) \<Rightarrow> (case h s view of Panic \<Rightarrow> Panic
     | Ok (verdict, v, s') \<Rightarrow> (case verdict of Accept \<Rightarrow> Ok (divert_send env 0 data, s') | Drop \<Rightarrow> Ok ([], s')
       | AcceptModified \<Rightarrow> (case windows_decoys ep env data ly v of Panic \<Rightarrow> Panic
         | Ok (es, k) \<Rightarrow> (case windows_build_modified ep data ly v of Panic \<Rightarrow> Panic
           | Ok None \<Rightarrow> Ok (es @ divert_send env k data, s')
           | Ok (Some new_bytes) \<Rightarrow> Ok (es @ divert_modified recalc env k data ly v new_bytes, s'))))))"

text \<open>
  The loop: a failed receive ends it, successfully after a shutdown request; packets received after the request are sent on unchanged.
\<close>

datatype DivertRecv = DFailed | DPacket Direction bytes SendEnv

fun divert_loop :: "('i, 't) Etherparse \<Rightarrow> (bytes \<Rightarrow> bytes) \<Rightarrow> 's packet_handler \<Rightarrow> 's \<Rightarrow> (DivertRecv \<times> bool) list
    \<Rightarrow> Emission list list \<times> 's \<times> LoopEnd" where
  "divert_loop ep recalc h s [] = ([], s, Running)"
| "divert_loop ep recalc h s ((DFailed, shutdown) # evs) = ([], s, Returned shutdown)"
| "divert_loop ep recalc h s ((DPacket dir data env, shutdown) # evs) =
     (if shutdown then (case divert_loop ep recalc h s evs of (outs, s', e) \<Rightarrow> (divert_send env 0 data # outs, s', e))
      else (case windows_packet ep recalc h env dir data s of Panic \<Rightarrow> ([], s, Panicked)
        | Ok (es, s') \<Rightarrow> (case divert_loop ep recalc h s' evs of (outs, s'', e) \<Rightarrow> (es # outs, s'', e))))"

section \<open>Checksums\<close>

lemma splice_middle: "i + length ys \<le> length t \<Longrightarrow> splice (a @ t @ d) (length a + i) ys = a @ splice t i ys @ d"
  by (simp add: splice_def)

context etherparse
begin

lemma written_checksum:
  assumes "20 \<le> length (ep_write_tcp ep t)"
  shows "u16_from_be (ep_write_tcp ep t ! 16) (ep_write_tcp ep t ! 17) = th_checksum t"
proof -
  let ?T = "ep_write_tcp ep t"
  have "?T = splice ?T 16 (u16_to_be (th_checksum t))" using tcp_checksum_field [where t = t and c = "th_checksum t"] by simp
  then have "?T ! 16 = splice ?T 16 (u16_to_be (th_checksum t)) ! 16" "?T ! 17 = splice ?T 16 (u16_to_be (th_checksum t)) ! 17" by simp_all
  then have "?T ! 16 = u16_to_be (th_checksum t) ! 0" "?T ! 17 = u16_to_be (th_checksum t) ! 1"
    using assms by (simp_all add: nth_splice)
  then show ?thesis by (simp only: u16_from_to_be)
qed

lemma corrupt_written:
  assumes "ly_ip_hdr_len ly = length (ep_write_ipv4 ep ip)" "20 \<le> length (ep_write_tcp ep t)"
  shows "corrupt_tcp_checksum ly delta (write_packet ep ip t data) = write_packet ep ip (t\<lparr>th_checksum := th_checksum t + delta\<rparr>) data"
proof -
  let ?A = "ep_write_ipv4 ep ip" and ?T = "ep_write_tcp ep t"
  have nth: "write_packet ep ip t data ! (length ?A + 16) = ?T ! 16" "write_packet ep ip t data ! (length ?A + 17) = ?T ! 17"
    using assms(2) by (simp_all add: write_packet_def nth_append)
  have "splice (write_packet ep ip t data) (length ?A + 16) (u16_to_be (th_checksum t + delta)) = ?A @ splice ?T 16 (u16_to_be (th_checksum t + delta)) @ data"
    unfolding write_packet_def using assms(2) by (intro splice_middle) simp
  moreover have "\<not> length (write_packet ep ip t data) < length ?A + 18" using assms(2) by (simp add: write_packet_def)
  ultimately show ?thesis
    using written_checksum [OF assms(2)] nth
    by (simp add: corrupt_tcp_checksum_def assms(1) Let_def write_packet_def tcp_checksum_field add.commute)
qed

lemma rebuilt_sizes:
  assumes "parse_view ep dir buf = Ok (Some (view, ly))" "rebuild ep buf ly v = Ok (Some (ip, tcp, data))"
  shows "ly_ip_hdr_len ly = length (ep_write_ipv4 ep ip)" "20 \<le> length (ep_write_tcp ep tcp)"
proof -
  obtain ip0 tcp0 where h: "ep_ipv4_from_slice ep buf = Some (ip0, ly_ip_hdr_len ly)" "ep_tcp_from_slice ep (drop (ly_ip_hdr_len ly) buf) = Some (tcp0, ly_tcp_hdr_len ly)"
    "tcp = (stage_tcp v tcp0)\<lparr>th_options := staged_options v (th_options tcp0), th_checksum := th_checksum tcp\<rparr>" "options_fit (th_options tcp)"
    "ip = (stage_ip v ip0)\<lparr>ih_total_len := word_of_nat (length (ep_write_ipv4 ep ip0) + (ep_tcp_header_len ep tcp + length data)), ih_checksum := ih_checksum ip\<rparr>"
    by (rule rebuild_spec [OF assms])
  have "ih_other ip = ih_other ip0" by (subst h(5)) (simp add: stage_ip_def)
  then show "ly_ip_hdr_len ly = length (ep_write_ipv4 ep ip)" using ipv4_slice [OF h(1)] ipv4_len [of ip ip0] by simp
  have "th_other tcp = th_other tcp0" by (subst h(3)) (simp add: stage_tcp_def)
  then have "read_tcp ep (th_other tcp)" using h(2) by (auto simp: read_tcp_def)
  then show "20 \<le> length (ep_write_tcp ep tcp)" using tcp_write [OF _ h(4)] by (simp add: header_len)
qed

end

lemma linux_windows_build:
  assumes "complete_capture ep dir data view ly"
  shows "linux_build_modified ep data ly v = (case windows_build_modified ep data ly v of Panic \<Rightarrow> Panic | Ok None \<Rightarrow> Ok None
    | Ok (Some b) \<Rightarrow> Ok (Some (case corrupt_tcp_checksum_delta v of None \<Rightarrow> b | Some delta \<Rightarrow> corrupt_tcp_checksum ly delta b)))"
proof -
  have ep: "etherparse ep" "parse_view ep dir data = Ok (Some (view, ly))" using assms(1) by (auto simp: complete_capture_def)
  show ?thesis
  proof (cases "\<exists>ip tcp d. rebuild ep data ly v = Ok (Some (ip, tcp, d))")
    case True
    then obtain ip tcp d where r: "rebuild ep data ly v = Ok (Some (ip, tcp, d))" by blast
    note sizes = etherparse.rebuilt_sizes [OF ep r]
    show ?thesis using r etherparse.corrupt_written [OF ep(1) sizes]
      by (auto simp: linux_build_modified_def windows_build_modified_def split: option.splits)
  next
    case False
    then show ?thesis by (auto simp: linux_build_modified_def windows_build_modified_def split: res.splits option.splits)
  qed
qed

section \<open>Both backends emit the same packets\<close>

lemma divert_each_all: "\<forall>k. se_ok env k \<Longrightarrow> injected (fst (divert_each env k bs)) = bs"
  by (induction env k bs rule: divert_each.induct) (auto split: prod.splits)

lemma divert_all_all: "\<forall>k. se_ok env k \<Longrightarrow> injected (divert_all env k bs) = bs"
  by (induction env k bs rule: divert_all.induct) (auto simp: divert_send_def)

lemma divert_segments_plan:
  assumes "\<forall>k. se_ok env k" "se_dup env" "recalc b = b"
  shows "injected (divert_segments recalc env k data b spec) = split_tcp_payload b spec"
proof (cases "1 < length (split_tcp_payload b spec)")
  case True
  then obtain s0 ss where "split_tcp_payload b spec = s0 # ss" by (cases "split_tcp_payload b spec") auto
  then show ?thesis using assms True
    by (simp add: divert_segments_def Let_def divert_each_all delayed_packets)
next
  case False
  then have "\<not> is_split b spec" using split_at_least_two by blast
  then have "split_tcp_payload b spec = [b]" by (rule not_split)
  then show ?thesis using assms by (simp add: divert_segments_def divert_send_def)
qed

text \<open>With a staged checksum error no fragmentation or segmentation is staged.\<close>

definition plain_corruption :: "PacketView \<Rightarrow> bool" where
  "plain_corruption v = (corrupt_tcp_checksum_delta v = None \<or> ip_frag_payload_size v = None \<and> disorder_spec v = None)"

lemma divert_modified_plan:
  assumes "\<forall>k. se_ok env k" "se_dup env" "recalc b = b" "plain_corruption v"
  shows "injected (divert_modified recalc env k data ly v b)
    = wire_plan v (case corrupt_tcp_checksum_delta v of None \<Rightarrow> b | Some delta \<Rightarrow> corrupt_tcp_checksum ly delta b) data"
proof (cases "ip_frag_payload_size v")
  case (Some n)
  then show ?thesis using assms by (auto simp: divert_modified_def wire_plan_def divert_all_all plain_corruption_def)
next
  case no_frag: None
  show ?thesis
  proof (cases "disorder_spec v")
    case (Some spec)
    then show ?thesis using assms no_frag by (auto simp: divert_modified_def wire_plan_def divert_segments_plan plain_corruption_def)
  next
    case None
    then show ?thesis using assms no_frag by (auto simp: divert_modified_def wire_plan_def divert_send_def Let_def)
  qed
qed

lemma windows_decoys_copies:
  assumes "complete_capture ep dir data view ly" "\<forall>k. se_ok env k"
  shows "\<exists>es k. windows_decoys ep env data ly v = Ok (es, k) \<and> injected es = decoy_copies ep data ly v"
proof (cases "decoy v")
  case None
  then show ?thesis by (simp add: windows_decoys_def decoy_copies_def)
next
  case (Some d)
  have "corrupt_tcp_checksum_delta (decoy_view v d) = None" by (simp add: decoy_view_def)
  then have eq: "linux_build_modified ep data ly (decoy_view v d) = windows_build_modified ep data ly (decoy_view v d)"
    using linux_windows_build [OF assms(1), of "decoy_view v d"] by (auto split: res.splits option.splits)
  have np: "windows_build_modified ep data ly (decoy_view v d) \<noteq> Panic" using linux_build_total [OF assms(1)] eq by metis
  show ?thesis
  proof (cases "\<exists>b. windows_build_modified ep data ly (decoy_view v d) = Ok (Some b)")
    case True
    then obtain b where b: "windows_build_modified ep data ly (decoy_view v d) = Ok (Some b)" by blast
    obtain es n where s: "divert_each env 0 (replicate (max (dp_repeats d) 1) b) = (es, n)" by fastforce
    have "injected es = replicate (max (dp_repeats d) 1) b" using divert_each_all [OF assms(2), of 0 "replicate (max (dp_repeats d) 1) b"] s by simp
    then show ?thesis using Some b s eq by (simp add: windows_decoys_def decoy_copies_def)
  next
    case False
    then have "windows_build_modified ep data ly (decoy_view v d) = Ok None" using np by (metis option.exhaust res.exhaust)
    then show ?thesis using Some eq by (simp add: windows_decoys_def decoy_copies_def)
  qed
qed

text \<open>For any handler that does not combine the two, both backends send the same.\<close>

lemma backends_agree:
  assumes "complete_capture ep dir data view ly" "hook_direction hook = Some dir" "h s view = Ok (verdict, v, s')"
    and "all_sent env" "\<forall>k. se_ok env' k" "se_dup env'" "plain_corruption v"
    and "\<And>b. windows_build_modified ep data ly v = Ok (Some b) \<Longrightarrow> recalc b = b"
  shows "\<exists>es r es'. linux_packet ep h env hook data s = Ok (es, r, s') \<and> windows_packet ep recalc h env' dir data s = Ok (es', s')
    \<and> on_wire data es r = injected es'"
proof -
  have parse: "parse_view ep dir data = Ok (Some (view, ly))" using assms(1) by (simp add: complete_capture_def)
  show ?thesis
  proof (cases verdict)
    case AcceptModified
    obtain es r where l: "accept_modified ep env data ly v = Ok (es, r)" "on_wire data es r = decoy_copies ep data ly v
        @ (case linux_build_modified ep data ly v of Ok (Some new_bytes) \<Rightarrow> wire_plan v new_bytes data | _ \<Rightarrow> [data])"
      using accept_modified_on_wire [OF assms(1,4)] by blast
    obtain es1 k where d: "windows_decoys ep env' data ly v = Ok (es1, k)" "injected es1 = decoy_copies ep data ly v"
      using windows_decoys_copies [OF assms(1,5)] by blast
    have lp: "linux_packet ep h env hook data s = Ok (es, r, s')" using assms(2,3) parse AcceptModified l(1) by (simp add: linux_packet_def)
    note b = linux_windows_build [OF assms(1), of v]
    show ?thesis
    proof (cases "\<exists>b. windows_build_modified ep data ly v = Ok (Some b)")
      case True
      then obtain nb where nb: "windows_build_modified ep data ly v = Ok (Some nb)" by blast
      have "injected (divert_modified recalc env' k data ly v nb)
          = wire_plan v (case corrupt_tcp_checksum_delta v of None \<Rightarrow> nb | Some delta \<Rightarrow> corrupt_tcp_checksum ly delta nb) data"
        by (rule divert_modified_plan) (use assms nb in auto)
      then show ?thesis using lp l(2) d nb b assms(3) parse AcceptModified by (auto simp: windows_packet_def)
    next
      case False
      have "windows_build_modified ep data ly v \<noteq> Panic" using b linux_build_total [OF assms(1), of v] by (auto split: res.splits)
      then have "windows_build_modified ep data ly v = Ok None" using False by (metis option.exhaust res.exhaust)
      then show ?thesis using lp l(2) d b assms(3,5) parse AcceptModified by (auto simp: windows_packet_def divert_send_def)
    qed
  qed (use assms parse in \<open>auto simp: linux_packet_def windows_packet_def on_wire_def divert_send_def\<close>)
qed

text \<open>
  No chain of methods combines them: the checksum error is staged on the ACK of the handshake, fragmentation and segmentation on data packets, and each
  packet goes through one of the two stages.
\<close>

lemma member_handshake_shape: "member_handshake env m fs p = Ok (a, p') \<Longrightarrow> ip_frag_payload_size p' = ip_frag_payload_size p \<and> disorder_spec p' = disorder_spec p"
  by (cases m) (auto simp: handshake_defs Let_def split: if_splits option.splits res.splits)

lemma handshake_loop_shape:
  "handshake_loop env fs ms l p = Ok (l', p') \<Longrightarrow> ip_frag_payload_size p' = ip_frag_payload_size p \<and> disorder_spec p' = disorder_spec p"
proof (induction ms arbitrary: l p)
  case (Cons m ms)
  obtain a p1 where "member_handshake env m fs p = Ok (a, p1)" using Cons.prems by (auto split: res.splits)
  then show ?case using Cons member_handshake_shape [of env m fs p a p1] by fastforce
qed simp

lemma member_data_shape: "member_data env m fs p = Ok (a, p') \<Longrightarrow> corrupt_tcp_checksum_delta p' = corrupt_tcp_checksum_delta p"
  by (cases m) (auto simp: data_defs urg_sni_split_data_def Let_def split: if_splits option.splits res.splits prod.splits)

lemma data_loop_shape:
  "data_loop env fs ms e i c p = Ok (a, p') \<Longrightarrow> corrupt_tcp_checksum_delta p' = corrupt_tcp_checksum_delta p"
proof (induction ms arbitrary: e i c p)
  case (Cons m ms)
  obtain a1 p1 where m: "member_data env m fs p = Ok (a1, p1)" using Cons.prems by (auto split: res.splits)
  note same = member_data_shape [OF m]
  show ?case using Cons.IH [of _ _ _ p1] Cons.prems m same by (cases a1) auto
qed simp

lemma after_stage_packet: "fst (snd (after_handshake a p e)) = p" "fst (snd (after_data a p e)) = p"
  by (cases a; simp)+

lemma method_handler_plain:
  assumes "method_handler menv m s view = Ok (verdict, v, s')" "unstaged view"
  shows "plain_corruption v"
proof -
  have hs: "plain_corruption p'" if "composite_handshake menv m fs view = Ok (a, p')" for fs a p'
    using that assms(2) handshake_loop_shape [of menv fs "handshake_methods m" loop_start view]
    by (auto simp: composite_handshake_def plain_corruption_def unstaged_def Let_def split: res.splits if_splits)
  have dat: "plain_corruption p'" if "composite_data menv m fs view = Ok (a, p')" for fs a p'
    using that assms(2) data_loop_shape [of menv fs "data_methods m" False True False view a p']
    by (auto simp: composite_data_def plain_corruption_def unstaged_def split: if_splits)
  have v: "plain_corruption view" using assms(2) by (simp add: plain_corruption_def unstaged_def)
  have ack: "plain_corruption p'" if "outbound_ack (composite_handshake menv m) view e = Ok (vd, p', e')" for e vd p' e'
    using that hs v after_stage_packet(1)
    by (auto simp: outbound_ack_def Let_def split: if_splits option.splits res.splits) (metis fst_conv snd_conv)+
  have "plain_corruption p'" if "entry_packet (composite_handshake menv m) (composite_data menv m) view e = Ok (vd, p', e')" for e vd p' e'
    using that dat v ack after_stage_packet(2)
    by (auto simp: entry_packet_def outbound_packet_def outbound_syn_def Let_def split: if_splits res.splits Direction.splits) (metis fst_conv snd_conv)+
  then show ?thesis using assms(1) v by (auto simp: method_handler_def on_packet_def split: option.splits res.splits)
qed

lemma unstaged_fresh: "unstaged (fresh_view dir ip tcp data options)"
  by (simp add: unstaged_def fresh_view_def)

lemma captured_unstaged:
  assumes "complete_capture ep dir data view ly"
  shows "unstaged view"
proof -
  have "etherparse ep" "parse_view ep dir data = Ok (Some (view, ly))" using assms by (auto simp: complete_capture_def)
  from etherparse.parse_view_headers [OF this] show ?thesis by (metis unstaged_fresh)
qed

text \<open>
  C11. Both platforms put the same packets on the wire, when nothing fails and WinDivert finds the checksums right. For the packet handler with any chain of
  methods, in any state, and any packet captured whole: if every send of both backends succeeds, the WinDivert handle can be duplicated for delayed
  segments, and recalculating the checksums leaves the rewritten packet as it is, the NFQUEUE and the WinDivert backend emit the same packets in the same
  order, decoys included, and leave the handler in the same state. Nothing is said of failed sends, on which the backends fall back differently.
\<close>

theorem backends_emit_same_packets:
  assumes "complete_capture ep dir data view ly" "hook_direction hook = Some dir" "method_handler menv m s view = Ok (verdict, v, s')"
    and "all_sent env" "\<forall>k. se_ok env' k" "se_dup env'"
    and "\<And>b. windows_build_modified ep data ly v = Ok (Some b) \<Longrightarrow> recalc b = b"
  shows "\<exists>es r es'. linux_packet ep (method_handler menv m) env hook data s = Ok (es, r, s')
    \<and> windows_packet ep recalc (method_handler menv m) env' dir data s = Ok (es', s') \<and> on_wire data es r = injected es'"
proof -
  have "plain_corruption v" by (rule method_handler_plain [OF assms(3) captured_unstaged [OF assms(1)]])
  then show ?thesis using backends_agree [where h = "method_handler menv m", OF assms(1-6) _ assms(7)] by blast
qed

text \<open>A flow whose first data packet is the sample packet, under a chain that sends a fake ClientHello before it.\<close>

definition waiting_store :: FlowStore where
  "waiting_store = \<lparr>fl_table = [(\<lparr>fk_src_ip = 1, fk_src_port = 3, fk_dst_ip = 2, fk_dst_port = 443\<rparr>, 0)],
     fl_heap = [set_state (\<lambda>st. st\<lparr>syn_seq := Some 9, syn_ack_seq := Some 19, fake_sent := True, waiting_for_data := True\<rparr>) (new_flow_entry [1, 2, 3] None)]\<rparr>"

lemma backends_emit_same_packets_witness:
  "\<exists>v s' es r es'. method_handler \<lparr>env_ttl = 5, env_seed = 1\<rparr> waiting_fake_tls waiting_store (fresh_view Outbound sample_ip sample_tcp [9] []) = Ok (AcceptModified, v, s')
    \<and> linux_packet wire_codec (method_handler \<lparr>env_ttl = 5, env_seed = 1\<rparr> waiting_fake_tls)
      \<lparr>se_raw = True, se_ok = (\<lambda>_. True), se_dup = True\<rparr> HOOK_LOCAL_OUT sample_packet waiting_store = Ok (es, r, s')
    \<and> windows_packet wire_codec id (method_handler \<lparr>env_ttl = 5, env_seed = 1\<rparr> waiting_fake_tls)
      \<lparr>se_raw = False, se_ok = (\<lambda>_. True), se_dup = True\<rparr> Outbound sample_packet waiting_store = Ok (es', s')
    \<and> on_wire sample_packet es r = injected es'"
proof -
  let ?w = "fresh_view Outbound sample_ip sample_tcp [9] []" and ?h = "method_handler \<lparr>env_ttl = 5, env_seed = 1\<rparr> waiting_fake_tls"
  obtain ly where ly: "parse_view wire_codec Outbound sample_packet = Ok (Some (?w, ly))" "length sample_packet = ly_total_len ly"
    using sample_parses by auto
  have c: "complete_capture wire_codec Outbound sample_packet ?w ly" using ly wire.etherparse_axioms by (simp add: complete_capture_def)
  obtain v s' where h: "?h waiting_store ?w = Ok (AcceptModified, v, s')"
    by (simp add: method_handler_def run_simps waiting_fake_tls_def waiting_store_def fresh_view_def sample_ip_def sample_tcp_def)
  have d: "hook_direction HOOK_LOCAL_OUT = Some Outbound" by (simp add: hook_direction_def)
  have "\<exists>es r es'. linux_packet wire_codec ?h \<lparr>se_raw = True, se_ok = (\<lambda>_. True), se_dup = True\<rparr> HOOK_LOCAL_OUT sample_packet waiting_store = Ok (es, r, s')
    \<and> windows_packet wire_codec id ?h \<lparr>se_raw = False, se_ok = (\<lambda>_. True), se_dup = True\<rparr> Outbound sample_packet waiting_store = Ok (es', s')
    \<and> on_wire sample_packet es r = injected es'"
    by (rule backends_emit_same_packets [OF c d h]) (simp_all add: all_sent_def)
  then show ?thesis using h by blast
qed

end
