(* ===== verification/Firewall.thy ===== *)
theory Firewall
  imports Interceptor Config "HOL-Library.Multiset"
begin

text \<open>
  The firewall rules of the NFQUEUE backend, src/crates/zerodpi-platform/src/linux.rs: installing, rolling back and removing the rules of one filter, and
  the recovery of rules that a dead helper left behind. The commands \<^verbatim>\<open>iptables\<close> and \<^verbatim>\<open>nft\<close> are arguments: a function from the
  state of the kernel's rules and the command line to the new state and whether the command succeeded. The locale \<open>iptables_tool\<close> says what
  \<^verbatim>\<open>-I\<close> and \<^verbatim>\<open>-D\<close> do to the rules.
\<close>

section \<open>Filters and rules\<close>

type_synonym rule = "string list"

definition show_ipv4 :: "ipv4 \<Rightarrow> string" where
  "show_ipv4 ip = (let n = unat ip in show_nat (n div 16777216 mod 256) @ ''.'' @ show_nat (n div 65536 mod 256)
     @ ''.'' @ show_nat (n div 256 mod 256) @ ''.'' @ show_nat (n mod 256))"

definition strip_prefix :: "string \<Rightarrow> string \<Rightarrow> string option" where
  "strip_prefix p s = (if take (length p) s = p then Some (drop (length p) s) else None)"

definition valid_firewall_owner :: "string \<Rightarrow> bool" where
  "valid_firewall_owner owner = (case strip_prefix ''zerodpi-'' owner of None \<Rightarrow> False
     | Some pid \<Rightarrow> pid \<noteq> [] \<and> list_all (\<lambda>c. digit_val c \<noteq> None) pid)"

text \<open>\<^verbatim>\<open>rule.splice(jump..jump, ...)\<close> at the position of \<^verbatim>\<open>-j\<close>; a rule without one would panic.\<close>

fun tag_owner :: "string \<Rightarrow> rule \<Rightarrow> rule res" where
  "tag_owner owner [] = Panic"
| "tag_owner owner (a # as) = (if a = ''-j'' then Ok ([''-m'', ''comment'', ''--comment'', owner] @ a # as)
     else (case tag_owner owner as of Panic \<Rightarrow> Panic | Ok r \<Rightarrow> Ok (a # r)))"

definition untagged_rules :: "FilterSpec \<Rightarrow> rule list" where
  "untagged_rules f = (let iface = show_ipv4 (fs_interface_ip f); port = show_nat (unat (fs_remote_port f)); q = show_nat (unat (fs_queue_num f));
     queue = [''-j'', ''NFQUEUE'', ''--queue-num'', q, ''--queue-bypass''] in
     case fs_remote_ip f of
       Some remote_ip \<Rightarrow> (let remote = show_ipv4 remote_ip in
         [[''OUTPUT'', ''-p'', ''tcp'', ''-s'', iface, ''-d'', remote, ''--dport'', port] @ queue,
          [''INPUT'', ''-p'', ''tcp'', ''-s'', remote, ''-d'', iface, ''--sport'', port] @ queue])
     | None \<Rightarrow>
         [[''OUTPUT'', ''-p'', ''tcp'', ''-s'', iface, ''--dport'', port] @ queue,
          [''INPUT'', ''-p'', ''tcp'', ''-d'', iface, ''--sport'', port] @ queue])"

fun tag_all :: "string \<Rightarrow> rule list \<Rightarrow> rule list res" where
  "tag_all owner [] = Ok []"
| "tag_all owner (r # rs) = (case tag_owner owner r of Panic \<Rightarrow> Panic
     | Ok r' \<Rightarrow> (case tag_all owner rs of Panic \<Rightarrow> Panic | Ok rs' \<Rightarrow> Ok (r' # rs')))"

definition iptables_rules :: "FilterSpec \<Rightarrow> rule list res" where
  "iptables_rules f = (case fs_firewall_owner f of None \<Rightarrow> Ok (untagged_rules f)
   | Some owner \<Rightarrow> if valid_firewall_owner owner then tag_all owner (untagged_rules f) else Panic)"

section \<open>Installing and removing\<close>

type_synonym 'w command = "'w \<Rightarrow> string list \<Rightarrow> 'w \<times> bool"

definition run_iptables :: "'w command \<Rightarrow> string \<Rightarrow> rule \<Rightarrow> 'w \<Rightarrow> 'w \<times> bool" where
  "run_iptables ipt action r w = ipt w (action # r)"

fun roll_back :: "'w command \<Rightarrow> rule list \<Rightarrow> 'w \<Rightarrow> 'w" where
  "roll_back ipt [] w = w"
| "roll_back ipt (r # rs) w = roll_back ipt rs (fst (run_iptables ipt ''-D'' r w))"

fun install_rules :: "'w command \<Rightarrow> rule list \<Rightarrow> rule list \<Rightarrow> 'w \<Rightarrow> 'w \<times> rule list option" where
  "install_rules ipt installed [] w = (w, Some installed)"
| "install_rules ipt installed (r # rs) w = (case run_iptables ipt ''-I'' r w of
     (w', True) \<Rightarrow> install_rules ipt (installed @ [r]) rs w'
   | (w', False) \<Rightarrow> (roll_back ipt (rev installed) w', None))"

definition iptables_install :: "'w command \<Rightarrow> FilterSpec \<Rightarrow> 'w \<Rightarrow> ('w \<times> rule list option) res" where
  "iptables_install ipt f w = (case iptables_rules f of Panic \<Rightarrow> Panic | Ok rs \<Rightarrow> Ok (install_rules ipt [] rs w))"

text \<open>\<^verbatim>\<open>remove_owned_rules\<close>: the rules that could not be deleted stay owned; the flag is whether all were.\<close>

fun remove_owned_rules :: "'w command \<Rightarrow> rule list \<Rightarrow> 'w \<Rightarrow> 'w \<times> rule list \<times> bool" where
  "remove_owned_rules ipt [] w = (w, [], True)"
| "remove_owned_rules ipt (r # rs) w = (case run_iptables ipt ''-D'' r w of (w', deleted) \<Rightarrow>
     (case remove_owned_rules ipt rs w' of (w'', failed, ok) \<Rightarrow> if deleted then (w'', failed, ok) else (w'', r # failed, False)))"

section \<open>nftables\<close>

definition nft_table_name :: "nat \<Rightarrow> nat \<Rightarrow> string" where
  "nft_table_name pid i = ''zerodpi_'' @ show_nat pid @ ''_'' @ show_nat i"

definition nft_add_chain_args :: "string \<Rightarrow> string \<Rightarrow> string \<Rightarrow> rule" where
  "nft_add_chain_args table chain hook = [''add'', ''chain'', ''inet'', table, chain, ''{'', ''type'', ''filter'', ''hook'', hook,
     ''priority'', ''0'', '';'', ''policy'', ''accept'', '';'', ''}'']"

definition nft_add_rule_args :: "string \<Rightarrow> Direction \<Rightarrow> FilterSpec \<Rightarrow> rule" where
  "nft_add_rule_args table dir f = (let iface = show_ipv4 (fs_interface_ip f); port = show_nat (unat (fs_remote_port f)); q = show_nat (unat (fs_queue_num f)) in
     [''add'', ''rule'', ''inet'', table] @ (case dir of
       Outbound \<Rightarrow> [''output'', ''ip'', ''saddr'', iface] @ (case fs_remote_ip f of None \<Rightarrow> [] | Some r \<Rightarrow> [''ip'', ''daddr'', show_ipv4 r])
         @ [''tcp'', ''dport'', port, ''queue'', ''num'', q, ''bypass'']
     | Inbound \<Rightarrow> [''input''] @ (case fs_remote_ip f of None \<Rightarrow> [] | Some r \<Rightarrow> [''ip'', ''saddr'', show_ipv4 r])
         @ [''ip'', ''daddr'', iface] @ [''tcp'', ''sport'', port, ''queue'', ''num'', q, ''bypass'']))"

definition nft_install_commands :: "string \<Rightarrow> FilterSpec \<Rightarrow> rule list" where
  "nft_install_commands table f = [[''add'', ''table'', ''inet'', table], nft_add_chain_args table ''output'' ''output'',
     nft_add_chain_args table ''input'' ''input'', nft_add_rule_args table Outbound f, nft_add_rule_args table Inbound f]"

definition delete_nft_table :: "'w command \<Rightarrow> string \<Rightarrow> 'w \<Rightarrow> 'w \<times> bool" where
  "delete_nft_table nft table w = nft w [''delete'', ''table'', ''inet'', table]"

fun run_nft_commands :: "'w command \<Rightarrow> string \<Rightarrow> rule list \<Rightarrow> 'w \<Rightarrow> 'w \<times> bool" where
  "run_nft_commands nft table [] w = (w, True)"
| "run_nft_commands nft table (c # cs) w = (case nft w c of
     (w', True) \<Rightarrow> run_nft_commands nft table cs w' | (w', False) \<Rightarrow> (fst (delete_nft_table nft table w'), False))"

definition nftables_install :: "'w command \<Rightarrow> nat \<Rightarrow> nat \<Rightarrow> FilterSpec \<Rightarrow> 'w \<Rightarrow> 'w \<times> string option" where
  "nftables_install nft pid i f w = (let table = nft_table_name pid i in
     case run_nft_commands nft table (nft_install_commands table f) w of (w', ok) \<Rightarrow> (w', if ok then Some table else None))"

definition remove_owned_table :: "'w command \<Rightarrow> string option \<Rightarrow> 'w \<Rightarrow> 'w \<times> string option \<times> bool" where
  "remove_owned_table nft table w = (case table of None \<Rightarrow> (w, None, True)
   | Some name \<Rightarrow> (case delete_nft_table nft name w of (w', True) \<Rightarrow> (w', None, True) | (w', False) \<Rightarrow> (w', Some name, False)))"

section \<open>Recovery\<close>

definition is_ascii_ws :: "char \<Rightarrow> bool" where
  "is_ascii_ws c = (of_char c \<in> {9, 10, 12, 13, 32 :: nat})"

text \<open>\<^verbatim>\<open>split_ascii_whitespace\<close>, with the current word.\<close>

fun ascii_words :: "string \<Rightarrow> string \<Rightarrow> string list" where
  "ascii_words cur [] = (if cur = [] then [] else [cur])"
| "ascii_words cur (c # cs) = (if is_ascii_ws c then (if cur = [] then ascii_words [] cs else cur # ascii_words [] cs) else ascii_words (cur @ [c]) cs)"

definition is_quote :: "char \<Rightarrow> bool" where
  "is_quote c = (of_char c \<in> {34, 39 :: nat})"

definition trim_quotes :: "string \<Rightarrow> string" where
  "trim_quotes s = rev (dropWhile is_quote (rev (dropWhile is_quote s)))"

fun has_pair :: "string \<Rightarrow> string \<Rightarrow> string list \<Rightarrow> bool" where
  "has_pair a b (x # y # zs) = (x = a \<and> y = b \<or> has_pair a b (y # zs))"
| "has_pair a b _ = False"

fun after_word :: "string \<Rightarrow> string list \<Rightarrow> string option" where
  "after_word a (x # y # zs) = (if x = a then Some y else after_word a (y # zs))"
| "after_word a _ = None"

definition parse_owned_iptables_rule :: "string \<Rightarrow> (nat \<times> rule) option" where
  "parse_owned_iptables_rule line = (let tokens = ascii_words [] line in
     if length tokens < 8 \<or> tokens ! 0 \<noteq> ''-A'' \<or> tokens ! 1 \<notin> {''INPUT'', ''OUTPUT''} \<or> \<not> has_pair ''-j'' ''NFQUEUE'' tokens then None
     else Option.bind (after_word ''--comment'' tokens) (\<lambda>comment.
       Option.bind (strip_prefix ''zerodpi-'' (trim_quotes comment)) (\<lambda>pid.
       map_option (\<lambda>owner_pid. (owner_pid, tokens ! 1 # map trim_quotes (drop 2 tokens))) (parse_u32 pid))))"

definition parse_owned_nftables_table :: "string \<Rightarrow> (nat \<times> string) option" where
  "parse_owned_nftables_table line = (case ascii_words [] line of
     [kind, family, table] \<Rightarrow> if kind \<noteq> ''table'' \<or> family \<noteq> ''inet'' then None
       else Option.bind (strip_prefix ''zerodpi_'' table) (\<lambda>remainder.
         Option.bind (split_once (CHR ''_'') remainder) (\<lambda>(pid, counter).
           if counter = [] \<or> \<not> list_all (\<lambda>c. digit_val c \<noteq> None) counter then None
           else map_option (\<lambda>p. (p, table)) (parse_u32 pid)))
   | _ \<Rightarrow> None)"

text \<open>
  Deleting what dead owners left: the number removed, or \<open>None\<close> for an error. \<open>live\<close> is \<^verbatim>\<open>helper_owner_is_live\<close>, \<open>del\<close> the deleting command.
\<close>

fun recover_lines :: "(nat \<Rightarrow> bool) \<Rightarrow> ('a \<Rightarrow> 'w \<Rightarrow> 'w \<times> bool) \<Rightarrow> (string \<Rightarrow> (nat \<times> 'a) option) \<Rightarrow> string list \<Rightarrow> nat \<Rightarrow> 'w \<Rightarrow> 'w \<times> nat option" where
  "recover_lines live del parse [] removed w = (w, Some removed)"
| "recover_lines live del parse (line # lines) removed w = (case parse line of None \<Rightarrow> recover_lines live del parse lines removed w
   | Some (pid, r) \<Rightarrow> if live pid then (w, None)
       else (case del r w of (w', True) \<Rightarrow> recover_lines live del parse lines (Suc removed) w' | (w', False) \<Rightarrow> (w', None)))"

definition recover_stale_iptables_rules :: "(nat \<Rightarrow> bool) \<Rightarrow> 'w command \<Rightarrow> ('w \<Rightarrow> string \<Rightarrow> string list option) \<Rightarrow> 'w \<Rightarrow> 'w \<times> nat option" where
  "recover_stale_iptables_rules live ipt listing w = (let del = run_iptables ipt ''-D'' in
     case listing w ''OUTPUT'' of None \<Rightarrow> (w, None)
     | Some out_lines \<Rightarrow> (case recover_lines live del parse_owned_iptables_rule out_lines 0 w of (w', None) \<Rightarrow> (w', None)
       | (w', Some n) \<Rightarrow> (case listing w' ''INPUT'' of None \<Rightarrow> (w', None)
         | Some in_lines \<Rightarrow> recover_lines live del parse_owned_iptables_rule in_lines n w')))"

definition recover_stale_nftables_tables :: "(nat \<Rightarrow> bool) \<Rightarrow> 'w command \<Rightarrow> ('w \<Rightarrow> string list option) \<Rightarrow> 'w \<Rightarrow> 'w \<times> nat option" where
  "recover_stale_nftables_tables live nft listing w = (case listing w of None \<Rightarrow> (w, None)
   | Some lines \<Rightarrow> recover_lines live (delete_nft_table nft) parse_owned_nftables_table lines 0 w)"

text \<open>\<open>own\<close> is the id of this process; \<open>proc\<close> gives the command line of a process, if it exists and can be read.\<close>

datatype ProcEntry = NoProcess | CommandLine string | Unreadable

definition contains :: "string \<Rightarrow> string \<Rightarrow> bool" where
  "contains needle s = (\<exists>i \<le> length s. take (length needle) (drop i s) = needle)"

definition helper_owner_is_live :: "nat \<Rightarrow> (nat \<Rightarrow> ProcEntry) \<Rightarrow> nat \<Rightarrow> bool" where
  "helper_owner_is_live own proc pid = (if pid = own then False else (case proc pid of NoProcess \<Rightarrow> False
     | CommandLine c \<Rightarrow> contains ''zerodpi-root-helper'' c \<or> contains ''zerodpi_root_helper_exec'' c | Unreadable \<Rightarrow> True))"

section \<open>What the commands promise\<close>

text \<open>
  Running command lines one after another, with the tool's answers, and the rules among the arguments that it refused: the vocabulary in which the effect of
  a failed installation is stated.
\<close>

fun run_all :: "'w command \<Rightarrow> string list list \<Rightarrow> 'w \<Rightarrow> 'w \<times> bool list" where
  "run_all ipt [] w = (w, [])"
| "run_all ipt (c # cs) w = (case ipt w c of (w', ok) \<Rightarrow> (case run_all ipt cs w' of (w'', answers) \<Rightarrow> (w'', ok # answers)))"

definition refused :: "rule list \<Rightarrow> bool list \<Rightarrow> rule list" where
  "refused rs answers = map fst (filter (\<lambda>(r, ok). \<not> ok) (zip rs answers))"

locale iptables_tool =
  fixes ipt :: "'w command" and rules :: "'w \<Rightarrow> rule multiset"
  assumes inserted: "ipt w (''-I'' # r) = (w', True) \<Longrightarrow> rules w' = add_mset r (rules w)"
    and deleted: "ipt w (''-D'' # r) = (w', True) \<Longrightarrow> r \<in># rules w \<and> rules w' = rules w - {#r#}"
    and not_inserted: "ipt w (''-I'' # r) = (w', False) \<Longrightarrow> rules w' = rules w"
    and not_deleted: "ipt w (''-D'' # r) = (w', False) \<Longrightarrow> rules w' = rules w"
begin

lemma roll_back_left:
  "rules w = base + mset rs \<Longrightarrow> \<exists>answers. run_all ipt (map ((#) ''-D'') rs) w = (roll_back ipt rs w, answers)
     \<and> length answers = length rs \<and> rules (roll_back ipt rs w) = base + mset (refused rs answers)"
proof (induction rs arbitrary: w base)
  case (Cons r rs)
  obtain w' ok where d: "ipt w (''-D'' # r) = (w', ok)" by fastforce
  have "rules w' = (if ok then base else base + {#r#}) + mset rs"
    using deleted not_deleted d Cons.prems by (cases ok) auto
  from Cons.IH [OF this] obtain as where "run_all ipt (map ((#) ''-D'') rs) w' = (roll_back ipt rs w', as)" "length as = length rs"
    "rules (roll_back ipt rs w') = (if ok then base else base + {#r#}) + mset (refused rs as)" by blast
  then show ?case using d by (intro exI [of _ "ok # as"]) (simp add: run_iptables_def refused_def)
qed (simp add: refused_def)

lemma install_rules_result:
  assumes "rules w = base + mset installed" "install_rules ipt installed rs w = (w', g)"
  shows "case g of Some guard \<Rightarrow> guard = installed @ rs \<and> rules w' = base + mset guard
    | None \<Rightarrow> \<exists>k wk answers. k < length rs \<and> run_all ipt (map ((#) ''-I'') (take (Suc k) rs)) w = (wk, replicate k True @ [False])
        \<and> run_all ipt (map ((#) ''-D'') (rev (installed @ take k rs))) wk = (w', answers)
        \<and> length answers = length installed + k \<and> rules w' = base + mset (refused (rev (installed @ take k rs)) answers)"
  using assms
proof (induction rs arbitrary: installed w)
  case (Cons r rs)
  obtain w1 ok where i: "ipt w (''-I'' # r) = (w1, ok)" by fastforce
  show ?case
  proof (cases ok)
    case True
    then have w1: "rules w1 = base + mset (installed @ [r])" using inserted i Cons.prems(1) by simp
    have g: "install_rules ipt (installed @ [r]) rs w1 = (w', g)" using Cons.prems(2) i True by (simp add: run_iptables_def)
    show ?thesis
    proof (cases g)
      case None
      with Cons.IH [OF w1 g] obtain k wk as where k: "k < length rs"
        "run_all ipt (map ((#) ''-I'') (take (Suc k) rs)) w1 = (wk, replicate k True @ [False])"
        "run_all ipt (map ((#) ''-D'') (rev ((installed @ [r]) @ take k rs))) wk = (w', as)" "length as = length (installed @ [r]) + k"
        "rules w' = base + mset (refused (rev ((installed @ [r]) @ take k rs)) as)" by auto
      then show ?thesis using None i True by (auto intro!: exI [of _ "Suc k"] exI [of _ wk] exI [of _ as])
    qed (use Cons.IH [OF w1 g] in simp)
  next
    case False
    then have "rules w1 = base + mset (rev installed)" using not_inserted i Cons.prems(1) by simp
    from roll_back_left [OF this] obtain as where "run_all ipt (map ((#) ''-D'') (rev installed)) w1 = (roll_back ipt (rev installed) w1, as)"
      "length as = length installed" "rules (roll_back ipt (rev installed) w1) = base + mset (refused (rev installed) as)" by auto
    then show ?thesis using Cons.prems(2) i False by (auto simp: run_iptables_def intro!: exI [of _ "0 :: nat"] exI [of _ w1] exI [of _ as])
  qed
qed auto

lemma remove_owned_rules_result:
  assumes "rules w = base + mset rs" "remove_owned_rules ipt rs w = (w', failed, ok)"
  shows "rules w' = base + mset failed \<and> (ok \<longleftrightarrow> failed = [])"
  using assms
proof (induction rs arbitrary: w base failed ok)
  case Nil
  then show ?case by simp
next
  case (Cons r rs)
  obtain w1 d where i: "ipt w (''-D'' # r) = (w1, d)" by fastforce
  obtain f2 ok2 where r2: "remove_owned_rules ipt rs w1 = (w', f2, ok2)"
    using Cons.prems(2) i by (auto simp: run_iptables_def split: prod.splits if_splits)
  show ?case
  proof (cases d)
    case True
    then have "rules w1 = base + mset rs" using deleted i Cons.prems(1) by simp
    from Cons.IH [OF this r2] show ?thesis using Cons.prems(2) i r2 True by (auto simp: run_iptables_def)
  next
    case False
    then have "rules w1 = (base + {#r#}) + mset rs" using not_deleted i Cons.prems(1) by simp
    from Cons.IH [OF this r2] show ?thesis using Cons.prems(2) i r2 False by (auto simp: run_iptables_def)
  qed
qed

end

text \<open>A tool that works on a list of rules and fails when its next answer says so.\<close>

record ToolState =
  tool_rules :: "rule list"
  tool_answers :: "bool list"

fun list_tool :: "ToolState command" where
  "list_tool w (a # r) = (let w' = w\<lparr>tool_answers := tl (tool_answers w)\<rparr> in
     if tool_answers w \<noteq> [] \<and> \<not> hd (tool_answers w) then (w', False)
     else if a = ''-I'' then (w'\<lparr>tool_rules := r # tool_rules w\<rparr>, True)
     else if a = ''-D'' \<and> r \<in> set (tool_rules w) then (w'\<lparr>tool_rules := remove1 r (tool_rules w)\<rparr>, True)
     else (w', False))"
| "list_tool w [] = (w, False)"

interpretation list_tool: iptables_tool list_tool "\<lambda>w. mset (tool_rules w)"
  by unfold_locales (auto simp: Let_def split: if_splits)

lemma refused_none: "list_all id answers \<Longrightarrow> refused rs answers = []"
  by (auto simp: refused_def list_all_iff filter_empty_conv dest: set_zip_rightD)

text \<open>
  C24. The guard owns exactly the rules it has put into the firewall. If installing succeeds, the firewall has all rules of the filter on top of what it had,
  and the guard holds them. If it fails, it fails at the first rule the tool refuses to insert; each rule inserted before it is then asked to be deleted, the
  last one first, and what is left of them in the firewall are exactly those whose deletion the tool refused: none if it refused none. From any later state
  that still has the guard's rules, removing them leaves exactly those the guard still holds, so that a retry can finish, and it reports success exactly when
  none is left.
\<close>

theorem firewall_guard_owns_its_rules:
  assumes "iptables_tool ipt rules" "iptables_install ipt f w = Ok (w1, g)"
  shows "\<exists>rs. iptables_rules f = Ok rs \<and> (case g of
      None \<Rightarrow> \<exists>k wk answers. k < length rs
        \<and> run_all ipt (map ((#) ''-I'') (take (Suc k) rs)) w = (wk, replicate k True @ [False])
        \<and> run_all ipt (map ((#) ''-D'') (rev (take k rs))) wk = (w1, answers) \<and> length answers = k
        \<and> rules w1 = rules w + mset (refused (rev (take k rs)) answers) \<and> (list_all id answers \<longrightarrow> rules w1 = rules w)
    | Some guard \<Rightarrow> guard = rs \<and> rules w1 = rules w + mset guard)
    \<and> (\<forall>guard base w2 w3 failed ok. rules w2 = base + mset guard \<longrightarrow> remove_owned_rules ipt guard w2 = (w3, failed, ok)
        \<longrightarrow> rules w3 = base + mset failed \<and> (ok \<longleftrightarrow> failed = []))"
proof -
  obtain rs where rs: "iptables_rules f = Ok rs" "install_rules ipt [] rs w = (w1, g)"
    using assms(2) by (auto simp: iptables_install_def split: res.splits)
  have "rules w = rules w + mset []" by simp
  note r = iptables_tool.install_rules_result [OF assms(1) this rs(2)]
  have "case g of None \<Rightarrow> \<exists>k wk answers. k < length rs
        \<and> run_all ipt (map ((#) ''-I'') (take (Suc k) rs)) w = (wk, replicate k True @ [False])
        \<and> run_all ipt (map ((#) ''-D'') (rev (take k rs))) wk = (w1, answers) \<and> length answers = k
        \<and> rules w1 = rules w + mset (refused (rev (take k rs)) answers) \<and> (list_all id answers \<longrightarrow> rules w1 = rules w)
    | Some guard \<Rightarrow> guard = rs \<and> rules w1 = rules w + mset guard"
  proof (cases g)
    case None
    with r obtain k wk as where "k < length rs" "run_all ipt (map ((#) ''-I'') (take (Suc k) rs)) w = (wk, replicate k True @ [False])"
      "run_all ipt (map ((#) ''-D'') (rev (take k rs))) wk = (w1, as)" "length as = k"
      "rules w1 = rules w + mset (refused (rev (take k rs)) as)" by auto
    then show ?thesis using None refused_none by (auto intro!: exI [of _ k] exI [of _ wk] exI [of _ as])
  qed (use r in simp)
  then show ?thesis using iptables_tool.remove_owned_rules_result [OF assms(1)] rs(1) by blast
qed

definition sample_filter :: FilterSpec where
  "sample_filter = \<lparr>fs_interface_ip = 0x0A000001, fs_remote_ip = None, fs_remote_port = 443, fs_queue_num = 7,
     fs_linux_firewall_backend = Iptables, fs_firewall_owner = Some ''zerodpi-12''\<rparr>"

lemma firewall_guard_owns_its_rules_witness:
  "\<exists>rs. iptables_rules sample_filter = Ok rs \<and> length rs = 2
    \<and> (\<exists>w1. iptables_install list_tool sample_filter \<lparr>tool_rules = [], tool_answers = []\<rparr> = Ok (w1, Some rs) \<and> mset (tool_rules w1) = mset rs)"
proof -
  have "valid_firewall_owner ''zerodpi-12''" by code_simp
  then have r: "iptables_rules sample_filter = Ok (map (\<lambda>r. case tag_owner ''zerodpi-12'' r of Ok x \<Rightarrow> x | Panic \<Rightarrow> []) (untagged_rules sample_filter))"
    by (simp add: iptables_rules_def sample_filter_def untagged_rules_def Let_def)
  define rs where "rs = map (\<lambda>r. case tag_owner ''zerodpi-12'' r of Ok x \<Rightarrow> x | Panic \<Rightarrow> []) (untagged_rules sample_filter)"
  have l: "length rs = 2" by (simp add: rs_def untagged_rules_def sample_filter_def Let_def)
  obtain a b where "rs = [a, b]" using l by (metis (no_types, lifting) length_0_conv length_Suc_conv numeral_2_eq_2)
  then have "install_rules list_tool [] rs \<lparr>tool_rules = [], tool_answers = []\<rparr> = (\<lparr>tool_rules = [b, a], tool_answers = []\<rparr>, Some rs)"
    by (simp add: run_iptables_def Let_def)
  then have w1: "iptables_install list_tool sample_filter \<lparr>tool_rules = [], tool_answers = []\<rparr> = Ok (\<lparr>tool_rules = [b, a], tool_answers = []\<rparr>, Some rs)"
    using r by (simp add: iptables_install_def rs_def)
  obtain rs' where rs': "iptables_rules sample_filter = Ok rs'" "rs = rs'"
    "mset (tool_rules \<lparr>tool_rules = [b, a], tool_answers = []\<rparr>) = mset (tool_rules \<lparr>tool_rules = [], tool_answers = []\<rparr>) + mset rs"
    using firewall_guard_owns_its_rules [OF list_tool.iptables_tool_axioms w1] unfolding option.case by blast
  show ?thesis using rs' w1 l by (intro exI [of _ rs] conjI exI [of _ "\<lparr>tool_rules = [b, a], tool_answers = []\<rparr>"]) simp_all
qed

section \<open>Recognising owned rules\<close>

text \<open>A listing line: \<^verbatim>\<open>-A\<close> and the arguments of the rule, or the line of a table.\<close>

fun join_words :: "string list \<Rightarrow> string" where
  "join_words [] = []"
| "join_words [w] = w"
| "join_words (w # v # ws) = w @ '' '' @ join_words (v # ws)"

definition plain_word :: "string \<Rightarrow> bool" where
  "plain_word w = (w \<noteq> [] \<and> list_all (\<lambda>c. \<not> is_ascii_ws c) w \<and> \<not> is_quote (hd w) \<and> \<not> is_quote (last w))"

lemma ascii_words_word: "list_all (\<lambda>c. \<not> is_ascii_ws c) w \<Longrightarrow> ascii_words cur (w @ s) = ascii_words (cur @ w) s"
  by (induction w arbitrary: cur) auto

lemma ascii_words_join: "\<forall>w \<in> set ws. plain_word w \<Longrightarrow> ascii_words [] (join_words ws) = ws"
proof (induction ws rule: join_words.induct)
  case (2 w)
  then show ?case using ascii_words_word [of w "[]" "[]"] by (simp add: plain_word_def)
next
  case (3 w v ws)
  have "ascii_words [] (w @ '' '' @ join_words (v # ws)) = w # ascii_words [] (join_words (v # ws))"
    using 3(2) ascii_words_word [of w "[]" "'' '' @ join_words (v # ws)"] by (simp add: plain_word_def is_ascii_ws_def)
  then show ?case using 3 by simp
qed simp

lemma trim_quotes_plain: "plain_word w \<Longrightarrow> trim_quotes w = w"
proof -
  assume "plain_word w"
  then obtain a w' b w'' where "w = a # w'" "\<not> is_quote a" "w = w'' @ [b]" "\<not> is_quote b"
    by (metis append_butlast_last_id list.collapse plain_word_def)
  then show ?thesis by (metis dropWhile.simps(2) rev.simps(2) rev_rev_ident trim_quotes_def rev_append append_Cons append_Nil)
qed

lemma digit_plain: "digit_val c \<noteq> None \<Longrightarrow> \<not> is_ascii_ws c \<and> \<not> is_quote c"
  by (auto simp: digit_val_def is_ascii_ws_def is_quote_def Let_def split: if_splits)

lemma show_nat_plain: "plain_word (show_nat n)"
  using show_nat_digits [of _ n] digit_plain by (auto simp: plain_word_def list_all_iff)

lemma show_nat_hd_digit: "digit_val (hd (show_nat n)) \<noteq> None"
  using show_nat_digits [of "hd (show_nat n)" n] by simp

lemma show_ipv4_plain: "plain_word (show_ipv4 ip)" "digit_val (hd (show_ipv4 ip)) \<noteq> None"
proof -
  have dot: "\<not> is_ascii_ws (CHR ''.'')" by (simp add: is_ascii_ws_def)
  show "digit_val (hd (show_ipv4 ip)) \<noteq> None" by (simp add: show_ipv4_def Let_def show_nat_hd_digit)
  then have q: "\<not> is_quote (hd (show_ipv4 ip))" using digit_plain by blast
  have l: "\<not> is_quote (last (show_ipv4 ip))"
    using show_nat_plain by (simp add: show_ipv4_def Let_def plain_word_def)
  have "list_all (\<lambda>c. \<not> is_ascii_ws c) (show_nat n)" for n using show_nat_plain by (simp add: plain_word_def)
  then show "plain_word (show_ipv4 ip)" using q l dot by (simp add: plain_word_def show_ipv4_def Let_def)
qed

lemma parse_u32_show: "n < 2 ^ 32 \<Longrightarrow> parse_u32 (show_nat n) = Some n"
proof -
  assume n: "n < 2 ^ 32"
  obtain c cs where c: "show_nat n = c # cs" by (cases "show_nat n") auto
  then have "c \<noteq> CHR ''+''" using digit_not_ws show_nat_digits [of c n] by auto
  then show ?thesis using n c parse_nat_show [of n] by (simp add: parse_u32_def)
qed

definition owner_tag :: "nat \<Rightarrow> string" where
  "owner_tag pid = ''zerodpi-'' @ show_nat pid"

lemma owner_tag_plain: "plain_word (owner_tag pid)"
  using show_nat_plain [of pid] by (auto simp: plain_word_def owner_tag_def is_ascii_ws_def is_quote_def)

lemma digit_word_neq: "digit_val (hd w) \<noteq> None \<Longrightarrow> w \<noteq> ''--comment'' \<and> w \<noteq> ''-j''"
  by (auto simp: digit_val_def Let_def)

lemma after_word_first: "a \<notin> set xs \<Longrightarrow> after_word a (xs @ a # y # zs) = Some y"
proof (induction xs)
  case (Cons x xs)
  then show ?case by (cases xs) auto
qed simp

lemma has_pair_inside: "has_pair a b (xs @ a # b # zs)"
proof (induction xs)
  case (Cons x xs)
  then show ?case by (cases xs) auto
qed simp

lemma parse_tagged_rule:
  assumes "chain \<in> {''INPUT'', ''OUTPUT''}" "\<forall>w \<in> set pre. plain_word w \<and> w \<noteq> ''--comment''" "pid < 2 ^ 32" "plain_word q"
  shows "parse_owned_iptables_rule (join_words (''-A'' # chain # pre @ [''-m'', ''comment'', ''--comment'', owner_tag pid,
      ''-j'', ''NFQUEUE'', ''--queue-num'', q, ''--queue-bypass'']))
    = Some (pid, chain # pre @ [''-m'', ''comment'', ''--comment'', owner_tag pid, ''-j'', ''NFQUEUE'', ''--queue-num'', q, ''--queue-bypass''])"
proof -
  let ?post = "[''-j'', ''NFQUEUE'', ''--queue-num'', q, ''--queue-bypass'']"
  let ?r = "pre @ [''-m'', ''comment'', ''--comment'', owner_tag pid] @ ?post"
  have lit: "plain_word ''-A''" "plain_word ''-m''" "plain_word ''comment''" "plain_word ''--comment''" "plain_word ''-j''" "plain_word ''NFQUEUE''"
    "plain_word ''--queue-num''" "plain_word ''--queue-bypass''" "plain_word ''INPUT''" "plain_word ''OUTPUT''"
    by (simp_all add: plain_word_def is_ascii_ws_def is_quote_def)
  have r: "\<forall>w \<in> set ?r. plain_word w" using assms(2,4) lit owner_tag_plain by auto
  moreover have "plain_word chain" using assms(1) lit by auto
  ultimately have "ascii_words [] (join_words (''-A'' # chain # ?r)) = ''-A'' # chain # ?r" using lit(1) by (intro ascii_words_join) simp
  moreover have "after_word ''--comment'' (''-A'' # chain # ?r) = Some (owner_tag pid)"
    using after_word_first [of "''--comment''" "''-A'' # chain # pre @ [''-m'', ''comment'']" "owner_tag pid" ?post] assms(1,2) by auto
  moreover have "has_pair ''-j'' ''NFQUEUE'' (''-A'' # chain # ?r)"
    using has_pair_inside [of "''-j''" "''NFQUEUE''" "''-A'' # chain # pre @ [''-m'', ''comment'', ''--comment'', owner_tag pid]" "[''--queue-num'', q, ''--queue-bypass'']"]
    by simp
  moreover have "map trim_quotes ?r = ?r" using r by (intro map_idI trim_quotes_plain) blast
  moreover have "strip_prefix ''zerodpi-'' (trim_quotes (owner_tag pid)) = Some (show_nat pid)"
    using trim_quotes_plain [OF owner_tag_plain] by (simp add: strip_prefix_def owner_tag_def)
  ultimately show ?thesis using assms(1) parse_u32_show [OF assms(3)]
    by (simp add: parse_owned_iptables_rule_def Let_def del: map_append)
qed

lemma parse_owned_table:
  assumes "pid < 2 ^ 32"
  shows "parse_owned_nftables_table (join_words [''table'', ''inet'', nft_table_name pid i]) = Some (pid, nft_table_name pid i)"
proof -
  have ws: "list_all (\<lambda>c. \<not> is_ascii_ws c) (show_nat n)" for n using show_nat_plain by (simp add: plain_word_def)
  have "plain_word (nft_table_name pid i)" using ws show_nat_plain [of i]
    by (simp add: plain_word_def nft_table_name_def is_ascii_ws_def is_quote_def)
  moreover have "plain_word ''table''" "plain_word ''inet''" by (simp_all add: plain_word_def is_ascii_ws_def is_quote_def)
  ultimately have "ascii_words [] (join_words [''table'', ''inet'', nft_table_name pid i]) = [''table'', ''inet'', nft_table_name pid i]"
    by (intro ascii_words_join) simp
  moreover have "strip_prefix ''zerodpi_'' (nft_table_name pid i) = Some (show_nat pid @ ''_'' @ show_nat i)"
    by (simp add: strip_prefix_def nft_table_name_def)
  moreover have "CHR ''_'' \<notin> set (show_nat pid)" using show_nat_digits [of "CHR ''_''" pid] by (auto simp: digit_val_def)
  then have "split_once (CHR ''_'') (show_nat pid @ ''_'' @ show_nat i) = Some (show_nat pid, show_nat i)"
    using split_once_first [of "CHR ''_''" "show_nat pid" "show_nat i"] by simp
  moreover have "list_all (\<lambda>c. digit_val c \<noteq> None) (show_nat i)" using show_nat_digits by (simp add: list_all_iff)
  ultimately show ?thesis using parse_u32_show [OF assms] by (simp add: parse_owned_nftables_table_def)
qed

text \<open>
  What this program installs for an owner is recognised as that owner's. For a filter tagged with a process id, the rules are built without panic, and
  a listing line that shows the arguments of one of them is parsed back to exactly that process id and that rule; so is the line of every table the nftables
  variant creates.
\<close>

theorem owned_rules_recognised:
  assumes "pid < 2 ^ 32" "fs_firewall_owner f = Some (owner_tag pid)"
  shows "\<exists>rs. iptables_rules f = Ok rs \<and> length rs = 2 \<and> (\<forall>r \<in> set rs. parse_owned_iptables_rule (join_words (''-A'' # r)) = Some (pid, r))
    \<and> (\<forall>i. parse_owned_nftables_table (join_words [''table'', ''inet'', nft_table_name pid i]) = Some (pid, nft_table_name pid i))"
proof -
  have valid: "valid_firewall_owner (owner_tag pid)"
    using show_nat_digits by (simp add: valid_firewall_owner_def strip_prefix_def owner_tag_def list_all_iff)
  let ?iface = "show_ipv4 (fs_interface_ip f)" and ?port = "show_nat (unat (fs_remote_port f))" and ?q = "show_nat (unat (fs_queue_num f))"
  have neq: "show_ipv4 ip \<noteq> ''-j''" "show_ipv4 ip \<noteq> ''--comment''" "show_nat n \<noteq> ''-j''" "show_nat n \<noteq> ''--comment''" for ip n
    using digit_word_neq show_ipv4_plain(2) show_nat_hd_digit by blast+
  have lit: "plain_word ''-p''" "plain_word ''tcp''" "plain_word ''-s''" "plain_word ''-d''" "plain_word ''--dport''" "plain_word ''--sport''"
    by (simp_all add: plain_word_def is_ascii_ws_def is_quote_def)
  note parse = parse_tagged_rule [OF _ _ assms(1), of "''OUTPUT''" _ ?q, simplified] parse_tagged_rule [OF _ _ assms(1), of "''INPUT''" _ ?q, simplified]
  show ?thesis
  proof (cases "fs_remote_ip f")
    case None
    show ?thesis using assms(2) None valid neq lit show_ipv4_plain(1) show_nat_plain
        parse(1) [of "[''-p'', ''tcp'', ''-s'', ?iface, ''--dport'', ?port]"] parse(2) [of "[''-p'', ''tcp'', ''-d'', ?iface, ''--sport'', ?port]"]
        parse_owned_table [OF assms(1)]
      by (simp add: iptables_rules_def untagged_rules_def Let_def)
  next
    case (Some remote)
    show ?thesis using assms(2) Some valid neq lit show_ipv4_plain(1) show_nat_plain
        parse(1) [of "[''-p'', ''tcp'', ''-s'', ?iface, ''-d'', show_ipv4 remote, ''--dport'', ?port]"]
        parse(2) [of "[''-p'', ''tcp'', ''-s'', show_ipv4 remote, ''-d'', ?iface, ''--sport'', ?port]"]
        parse_owned_table [OF assms(1)]
      by (simp add: iptables_rules_def untagged_rules_def Let_def)
  qed
qed

lemma owned_rules_recognised_witness:
  "\<exists>rs. iptables_rules sample_filter = Ok rs \<and> (\<forall>r \<in> set rs. parse_owned_iptables_rule (join_words (''-A'' # r)) = Some (12, r))"
proof -
  have "owner_tag 12 = ''zerodpi-12''" by code_simp
  then have "fs_firewall_owner sample_filter = Some (owner_tag 12)" by (simp add: sample_filter_def)
  from owned_rules_recognised [OF _ this] show ?thesis by auto
qed

end
