(* ===== verification/Divert_Filter.thy ===== *)
theory Divert_Filter
  imports Windows_Backend Firewall
begin

text \<open>
  The ends of the WinDivert backend, src/crates/zerodpi-platform/src/windows.rs: the text of the capture filter and the worker that interrupts a blocking
  receive. The filter language is read the way the WinDivert documentation describes it: comparisons of header fields under \<^verbatim>\<open>and\<close> and
  \<^verbatim>\<open>or\<close>, fully bracketed here.
\<close>

section \<open>The filter\<close>

definition build_filter :: "FilterSpec \<Rightarrow> string" where
  "build_filter f = (let iface = show_ipv4 (fs_interface_ip f); port = show_nat (unat (fs_remote_port f)) in
     case fs_remote_ip f of
       Some r \<Rightarrow> (let remote = show_ipv4 r in
         ''tcp and ((ip.SrcAddr == '' @ iface @ '' and ip.DstAddr == '' @ remote @ '' and tcp.DstPort == '' @ port
           @ '') or (ip.SrcAddr == '' @ remote @ '' and ip.DstAddr == '' @ iface @ '' and tcp.SrcPort == '' @ port @ ''))'')
     | None \<Rightarrow> ''tcp and ((ip.SrcAddr == '' @ iface @ '' and tcp.DstPort == '' @ port
           @ '') or (ip.DstAddr == '' @ iface @ '' and tcp.SrcPort == '' @ port @ ''))'')"

text \<open>The expressions of the language that the filter uses, their text and their meaning on the addresses of a TCP packet.\<close>

datatype DivertTest = SrcAddr ipv4 | DstAddr ipv4 | SrcPort u16 | DstPort u16

fun show_test :: "DivertTest \<Rightarrow> string" where
  "show_test (SrcAddr a) = ''ip.SrcAddr == '' @ show_ipv4 a"
| "show_test (DstAddr a) = ''ip.DstAddr == '' @ show_ipv4 a"
| "show_test (SrcPort p) = ''tcp.SrcPort == '' @ show_nat (unat p)"
| "show_test (DstPort p) = ''tcp.DstPort == '' @ show_nat (unat p)"

fun show_all :: "DivertTest list \<Rightarrow> string" where
  "show_all [] = []"
| "show_all [t] = show_test t"
| "show_all (t # ts) = show_test t @ '' and '' @ show_all ts"

definition show_filter :: "DivertTest list \<times> DivertTest list \<Rightarrow> string" where
  "show_filter f = ''tcp and (('' @ show_all (fst f) @ '') or ('' @ show_all (snd f) @ ''))''"

fun test_holds :: "FlowKey \<Rightarrow> DivertTest \<Rightarrow> bool" where
  "test_holds k (SrcAddr a) = (fk_src_ip k = a)"
| "test_holds k (DstAddr a) = (fk_dst_ip k = a)"
| "test_holds k (SrcPort p) = (fk_src_port k = p)"
| "test_holds k (DstPort p) = (fk_dst_port k = p)"

definition filter_holds :: "DivertTest list \<times> DivertTest list \<Rightarrow> FlowKey \<Rightarrow> bool" where
  "filter_holds f k = (list_all (test_holds k) (fst f) \<or> list_all (test_holds k) (snd f))"

definition filter_tests :: "FilterSpec \<Rightarrow> DivertTest list \<times> DivertTest list" where
  "filter_tests f = (let i = fs_interface_ip f; p = fs_remote_port f in case fs_remote_ip f of
     Some r \<Rightarrow> ([SrcAddr i, DstAddr r, DstPort p], [SrcAddr r, DstAddr i, SrcPort p])
   | None \<Rightarrow> ([SrcAddr i, DstPort p], [DstAddr i, SrcPort p]))"

text \<open>The packets of a connection that goes out from the interface to the remote end, in the direction of the key.\<close>

definition outgoing :: "FilterSpec \<Rightarrow> FlowKey \<Rightarrow> bool" where
  "outgoing f k = (fk_src_ip k = fs_interface_ip f \<and> fk_dst_port k = fs_remote_port f
     \<and> (case fs_remote_ip f of Some r \<Rightarrow> fk_dst_ip k = r | None \<Rightarrow> True))"

lemma reversed_reversed: "reversed (reversed k) = k"
  by (simp add: reversed_def)

text \<open>
  The text is the text of those expressions, and they let exactly the packets of both directions of such connections through. With every
  connection both directions are captured, so that the handler sees the answers to what it modifies.
\<close>

theorem divert_filter_captures:
  "build_filter f = show_filter (filter_tests f)"
  "filter_holds (filter_tests f) k \<longleftrightarrow> outgoing f k \<or> outgoing f (reversed k)"
  "filter_holds (filter_tests f) (reversed k) = filter_holds (filter_tests f) k"
proof -
  show "build_filter f = show_filter (filter_tests f)"
    by (cases "fs_remote_ip f") (simp_all add: build_filter_def show_filter_def filter_tests_def Let_def)
  show h: "filter_holds (filter_tests f) k \<longleftrightarrow> outgoing f k \<or> outgoing f (reversed k)" for k
    by (cases "fs_remote_ip f") (auto simp: filter_holds_def filter_tests_def outgoing_def reversed_def Let_def)
  show "filter_holds (filter_tests f) (reversed k) = filter_holds (filter_tests f) k"
    unfolding h by (auto simp: reversed_reversed)
qed

section \<open>The stop worker\<close>

text \<open>
  One turn reads whether the capture has finished and whether a stop was requested. The worker ends without work, or with the result of
  \<^verbatim>\<open>shutdown_recv\<close>; \<open>None\<close> when no more turns are given.
\<close>

datatype StopResult = NotNeeded | Interrupted bool

fun stop_worker :: "(bool \<times> bool) list \<Rightarrow> bool \<Rightarrow> StopResult option" where
  "stop_worker [] ok = None"
| "stop_worker ((finished, requested) # ts) ok =
     (if finished then Some NotNeeded else if requested then Some (Interrupted ok) else stop_worker ts ok)"

text \<open>\<^verbatim>\<open>CaptureStopper::finish\<close>: \<open>None\<close> is a panic of the worker.\<close>

definition stopper_finish :: "StopResult option \<Rightarrow> bool" where
  "stopper_finish r = (case r of Some NotNeeded \<Rightarrow> True | Some (Interrupted ok) \<Rightarrow> ok | None \<Rightarrow> False)"

text \<open>
  The worker ends once the capture has finished or a stop is requested, and it interrupts the receive exactly when the request comes first: an idle
  link does not keep the interceptor from stopping.
\<close>

lemma stop_worker_ends:
  assumes "\<exists>t \<in> set ts. fst t \<or> snd t"
  shows "\<exists>r. stop_worker ts ok = Some r \<and> (r = Interrupted ok \<longleftrightarrow> \<not> fst (hd (dropWhile (\<lambda>t. \<not> fst t \<and> \<not> snd t) ts)))"
  using assms by (induction ts ok rule: stop_worker.induct) auto

end
