(* ===== verification/Data_Plane.thy ===== *)
theory Data_Plane
  imports Network_Monitor Helper_Client Firewall
begin

text \<open>
  The data plane of src/crates/zerodpi/src/data\_plane.rs: the interceptor in the own process and the one behind the root helper, opened, stopped
  and rebuilt for an interface binding.
\<close>

section \<open>The local plane\<close>

definition CONNECT_PORT :: u16 where "CONNECT_PORT = 443"

definition interceptor_filter :: "Config \<Rightarrow> InterfaceBinding \<Rightarrow> FilterSpec" where
  "interceptor_filter cfg b = \<lparr>fs_interface_ip = ib_ip b, fs_remote_ip = None, fs_remote_port = CONNECT_PORT, fs_queue_num = NFQUEUE_NUM cfg,
     fs_linux_firewall_backend = linux_firewall_backend cfg, fs_firewall_owner = None\<rparr>"

text \<open>
  The handles of \<^verbatim>\<open>LocalPlane\<close> as whether they are there. \<open>lp_report\<close> is the channel of a stop in progress and whether its report is still to come;
  \<open>lp_live\<close> is a ghost: the filters of the interceptors that have been opened and not confirmed as stopped, newest first.
\<close>

record LocalPlane =
  lp_cfg :: Config
  lp_flows :: FlowStore
  lp_shutdown :: bool
  lp_done :: bool
  lp_report :: "bool option"
  lp_armed :: bool
  lp_live :: "FilterSpec list"

definition new_local_plane :: "Config \<Rightarrow> FlowStore \<Rightarrow> LocalPlane" where
  "new_local_plane cfg flows = \<lparr>lp_cfg = cfg, lp_flows = flows, lp_shutdown = False, lp_done = False, lp_report = None, lp_armed = False, lp_live = []\<rparr>"

datatype StopAnswer = StoppedOk | StoppedErr | NotInTime

text \<open>\<^verbatim>\<open>wait_for_interceptor_shutdown\<close>: a report is received once; later the channel is closed.\<close>

definition wait_for_shutdown :: "StopAnswer \<Rightarrow> LocalPlane \<Rightarrow> LocalPlane \<times> bool" where
  "wait_for_shutdown a p = (if lp_report p = Some True
     then (case a of StoppedOk \<Rightarrow> (p\<lparr>lp_report := Some False, lp_live := tl (lp_live p)\<rparr>, True)
       | StoppedErr \<Rightarrow> (p\<lparr>lp_report := Some False\<rparr>, False) | NotInTime \<Rightarrow> (p, False))
     else (p, False))"

definition stop_local :: "StopAnswer \<Rightarrow> LocalPlane \<Rightarrow> LocalPlane \<times> bool" where
  "stop_local a p = (if \<not> lp_armed p then (p, True)
     else if lp_report p = None \<and> \<not> lp_shutdown p then (p, False)
     else if lp_report p = None \<and> \<not> lp_done p then (p\<lparr>lp_shutdown := False\<rparr>, False)
     else (let p = (if lp_report p = None then p\<lparr>lp_shutdown := False, lp_done := False, lp_report := Some True\<rparr> else p) in
       case wait_for_shutdown a p of (p', False) \<Rightarrow> (p', False)
       | (p', True) \<Rightarrow> (p'\<lparr>lp_report := None, lp_armed := False\<rparr>, True)))"

text \<open>\<^verbatim>\<open>LocalPlane::open\<close>; the argument says whether the interceptor opens and its thread starts.\<close>

definition open_local :: "bool \<Rightarrow> InterfaceBinding \<Rightarrow> LocalPlane \<Rightarrow> LocalPlane \<times> bool" where
  "open_local ok b p = (if ok
     then (p\<lparr>lp_shutdown := True, lp_done := True, lp_armed := True, lp_live := interceptor_filter (lp_cfg p) b # lp_live p\<rparr>, True)
     else (p, False))"

definition rebuild_local :: "StopAnswer \<Rightarrow> bool \<Rightarrow> InterfaceBinding \<Rightarrow> LocalPlane \<Rightarrow> LocalPlane \<times> bool" where
  "rebuild_local a ok b p = (case stop_local a p of (p', False) \<Rightarrow> (p', False)
     | (p', True) \<Rightarrow> open_local ok b (p'\<lparr>lp_flows := reset_flows (lp_flows p')\<rparr>))"

inductive plane_step :: "LocalPlane \<Rightarrow> LocalPlane \<Rightarrow> bool" where
  rebuild: "plane_step p (fst (rebuild_local a ok b p))"
| stop: "plane_step p (fst (stop_local a p))"
| traffic: "plane_step p (p\<lparr>lp_flows := flows\<rparr>)"

inductive plane_reachable :: "LocalPlane \<Rightarrow> bool" where
  opened: "open_local True b (new_local_plane cfg flows) = (p, True) \<Longrightarrow> plane_reachable p"
| step: "plane_reachable p \<Longrightarrow> plane_step p p' \<Longrightarrow> plane_reachable p'"

section \<open>The plane behind the helper\<close>

text \<open>
  \<open>rp_helper\<close> is the client with whatever it talks to. A request is a function that returns the answer, or \<open>None\<close> for the error of a refused write,
  a disconnect or a timeout.
\<close>

record 'h RemotePlane =
  rp_cfg :: Config
  rp_helper :: 'h
  rp_configured :: bool

type_synonym 'h request = "Message \<Rightarrow> 'h \<Rightarrow> 'h \<times> Message option"

definition helper_call :: "'h request \<Rightarrow> Message \<Rightarrow> Message \<Rightarrow> 'h \<Rightarrow> 'h \<times> bool" where
  "helper_call req msg expected h = (case req msg h of (h', r) \<Rightarrow> (h', r = Some expected))"

definition remote_config :: "'h RemotePlane \<Rightarrow> InterfaceBinding \<Rightarrow> Message" where
  "remote_config p b = MConfigureInterceptor (interceptor_config (rp_cfg p) (ib_ip b) None CONNECT_PORT)"

definition prepare_remote :: "'h request \<Rightarrow> InterfaceBinding \<Rightarrow> 'h RemotePlane \<Rightarrow> 'h RemotePlane \<times> bool" where
  "prepare_remote req b p = (case helper_call req (remote_config p b) MConfigured (rp_helper p) of
     (h1, False) \<Rightarrow> (p\<lparr>rp_helper := h1\<rparr>, False)
   | (h1, True) \<Rightarrow> (case helper_call req MOpenInterceptor MInterceptorReady h1 of
       (h2, ok) \<Rightarrow> (p\<lparr>rp_helper := h2, rp_configured := True\<rparr>, ok)))"

definition rebuild_remote :: "'h request \<Rightarrow> ('h \<Rightarrow> 'h) \<Rightarrow> InterfaceBinding \<Rightarrow> 'h RemotePlane \<Rightarrow> 'h RemotePlane \<times> bool" where
  "rebuild_remote req reset b p = (case helper_call req MCloseInterceptor MInterceptorClosed (rp_helper p) of
     (h1, False) \<Rightarrow> (p\<lparr>rp_helper := h1\<rparr>, False)
   | (h1, True) \<Rightarrow> (case helper_call req (remote_config p b) MConfigured (reset h1) of
       (h2, False) \<Rightarrow> (p\<lparr>rp_helper := h2\<rparr>, False)
     | (h2, True) \<Rightarrow> (case helper_call req MOpenInterceptor MInterceptorReady h2 of
         (h3, ok) \<Rightarrow> (p\<lparr>rp_helper := h3\<rparr>, ok))))"

definition close_for_reload_remote :: "'h request \<Rightarrow> ('h \<Rightarrow> 'h) \<Rightarrow> 'h RemotePlane \<Rightarrow> 'h RemotePlane \<times> bool" where
  "close_for_reload_remote req reset p = (if rp_configured p
     then (case helper_call req MCloseInterceptor MInterceptorClosed (rp_helper p) of
         (h1, False) \<Rightarrow> (p\<lparr>rp_helper := h1\<rparr>, False) | (h1, True) \<Rightarrow> (p\<lparr>rp_helper := reset h1\<rparr>, True))
     else (p\<lparr>rp_helper := reset (rp_helper p)\<rparr>, True))"

definition stop_remote :: "'h request \<Rightarrow> 'h RemotePlane \<Rightarrow> 'h RemotePlane \<times> bool" where
  "stop_remote req p = (case helper_call req MCloseInterceptor MInterceptorClosed (rp_helper p) of
     (h1, False) \<Rightarrow> (p\<lparr>rp_helper := h1\<rparr>, False)
   | (h1, True) \<Rightarrow> (case helper_call req MShutdown MShutdownComplete h1 of (h2, ok) \<Rightarrow> (p\<lparr>rp_helper := h2\<rparr>, ok)))"

section \<open>One interceptor at a time\<close>

definition plane_ok :: "LocalPlane \<Rightarrow> bool" where
  "plane_ok p \<longleftrightarrow> length (lp_live p) = (if lp_armed p then 1 else 0) \<and> (lp_armed p \<and> lp_report p = None \<longrightarrow> lp_shutdown p \<and> lp_done p)
     \<and> (\<not> lp_armed p \<longrightarrow> lp_report p = None)"

lemma stop_local_ok: "plane_ok p \<Longrightarrow> stop_local a p = (p', ok) \<Longrightarrow> plane_ok p' \<and> (ok \<longrightarrow> \<not> lp_armed p') \<and> lp_cfg p' = lp_cfg p"
  by (cases a; cases "lp_live p") (auto simp: plane_ok_def stop_local_def wait_for_shutdown_def Let_def split: if_splits)

lemma plane_ok_flows [simp]: "plane_ok (p\<lparr>lp_flows := f\<rparr>) = plane_ok p"
  by (simp add: plane_ok_def)

lemma open_local_ok: "plane_ok p \<Longrightarrow> \<not> lp_armed p \<Longrightarrow> plane_ok (fst (open_local ok b p))"
  by (auto simp: plane_ok_def open_local_def)

lemma rebuild_local_ok: "plane_ok p \<Longrightarrow> plane_ok (fst (rebuild_local a ok b p))"
  using stop_local_ok [of p a] open_local_ok by (cases "stop_local a p") (auto simp: rebuild_local_def split: bool.splits)

lemma reachable_plane_ok: "plane_reachable p \<Longrightarrow> plane_ok p"
proof (induction rule: plane_reachable.induct)
  case (opened b cfg flows p)
  then show ?case by (auto simp: plane_ok_def open_local_def new_local_plane_def)
next
  case (step p p')
  then show ?case using stop_local_ok rebuild_local_ok by (auto elim!: plane_step.cases) (metis fst_conv surj_pair)
qed

text \<open>
  C25. The data plane never opens an interceptor over one that is still live: in every state reached by rebuilds, stops and traffic, whatever the
  interceptor thread answers, at most one interceptor is live. A rebuild that succeeds leaves exactly one, capturing for the new binding, over a
  cleared flow table; a stop that succeeds leaves none.
\<close>

theorem single_live_interceptor:
  assumes "plane_reachable p"
  shows "length (lp_live p) \<le> 1
    \<and> (case rebuild_local a ok b p of (p', done) \<Rightarrow> done \<longrightarrow> lp_live p' = [interceptor_filter (lp_cfg p) b] \<and> fl_table (lp_flows p') = [])
    \<and> (case stop_local a p of (p', done) \<Rightarrow> done \<longrightarrow> lp_live p' = [])"
proof -
  have ok: "plane_ok p" by (rule reachable_plane_ok [OF assms])
  obtain q r where st: "stop_local a p = (q, r)" by (cases "stop_local a p")
  have q: "plane_ok q" "r \<longrightarrow> \<not> lp_armed q" "lp_cfg q = lp_cfg p" using stop_local_ok [OF ok st] by auto
  have "case rebuild_local a ok b p of (p', done) \<Rightarrow> done \<longrightarrow> lp_live p' = [interceptor_filter (lp_cfg p) b] \<and> fl_table (lp_flows p') = []"
    using st q by (cases r) (auto simp: rebuild_local_def open_local_def plane_ok_def reset_flows_def)
  then show ?thesis using ok q st by (auto simp: plane_ok_def split: if_splits)
qed

definition sample_plane :: LocalPlane where
  "sample_plane = fst (open_local True \<lparr>ib_ip = 0x0A000005, ib_if_index = 2, ib_if_name = ''wlan0''\<rparr> (new_local_plane (default_config 44444) new_flow_table))"

lemma sample_plane_reachable: "plane_reachable sample_plane"
  by (rule plane_reachable.opened) (simp add: sample_plane_def open_local_def)

theorem single_live_interceptor_witness:
  "length (lp_live sample_plane) \<le> 1 \<and> (case stop_local StoppedOk sample_plane of (p', done) \<Rightarrow> done \<longrightarrow> lp_live p' = [])"
  using single_live_interceptor [OF sample_plane_reachable, where a = StoppedOk] by simp

lemma lost_report_sticks: "lp_armed p \<Longrightarrow> lp_report p = Some False \<Longrightarrow> rebuild_local a ok b p = (p, False)"
  by (simp add: rebuild_local_def stop_local_def wait_for_shutdown_def)

text \<open>
  C26. Once an armed interceptor's thread has answered a stop with an error, the data plane stays unusable: that rebuild and every later one fails,
  whatever the interceptor would answer, and the plane no longer changes.
\<close>

theorem failed_stop_is_final:
  assumes "plane_reachable p" "lp_armed p" "lp_report p \<noteq> Some False"
  shows "case rebuild_local StoppedErr ok b p of (p', r) \<Rightarrow> \<not> r \<and> (\<forall>a ok b. rebuild_local a ok b p' = (p', False))"
proof -
  have ok: "plane_ok p" by (rule reachable_plane_ok [OF assms(1)])
  then have "\<exists>p'. stop_local StoppedErr p = (p', False) \<and> lp_armed p' \<and> lp_report p' = Some False"
    using assms(2, 3) by (cases "lp_report p") (auto simp: stop_local_def wait_for_shutdown_def plane_ok_def Let_def)
  then show ?thesis using lost_report_sticks by (auto simp: rebuild_local_def)
qed

theorem failed_stop_is_final_witness:
  "case rebuild_local StoppedErr True \<lparr>ib_ip = 0xC0A80105, ib_if_index = 3, ib_if_name = ''eth0''\<rparr> sample_plane of (p', r) \<Rightarrow> \<not> r"
  using failed_stop_is_final [OF sample_plane_reachable, of True "\<lparr>ib_ip = 0xC0A80105, ib_if_index = 3, ib_if_name = ''eth0''\<rparr>"] by (auto simp: sample_plane_def open_local_def new_local_plane_def)

section \<open>The helper at the other end\<close>

text \<open>
  The request answered by the helper process itself: one turn of its loop, and the first new frame with the identifier of the request. \<open>None\<close> is a
  helper that is gone. The identifier and the helper's surroundings are the same for all requests, which the answers do not depend on.
\<close>

fun answered_by_helper :: "HelperEnv \<Rightarrow> u32 \<Rightarrow> HelperSession option request" where
  "answered_by_helper env rid msg None = (None, None)"
| "answered_by_helper env rid msg (Some h) = (case serve_request env (RFrame (frame_new rid msg)) h of
     Running h' \<Rightarrow> (Some h', map_option fr_message (find (\<lambda>f. fr_request_id f = rid) (drop (length (hs_sent h)) (hs_sent h'))))
   | _ \<Rightarrow> (None, None))"

lemma reply_answer: "find (\<lambda>f. fr_request_id f = rid) (drop n (xs @ [frame_new rid m])) = Some (frame_new rid m)" if "length xs = n"
  using that by (simp add: frame_new_def)

lemma close_answered:
  assumes "session_ok h" "hs_state h \<in> {Configured, InterceptorOpen}" "helper_call (answered_by_helper env rid) MCloseInterceptor MInterceptorClosed (Some h) = (r, ok)"
  shows "ok \<and> (\<exists>h'. r = Some h' \<and> session_ok h' \<and> hs_state h' = Configured) \<or> \<not> ok \<and> r = None"
proof (cases "on_close env rid h")
  case (Running h')
  have ok': "session_ok h'" by (rule on_close_ok [OF assms(1, 2) Running])
  have h': "h' = h\<lparr>hs_registered := [], hs_interceptor := None, hs_state := Configured, hs_sent := hs_sent h @ [frame_new rid MInterceptorClosed]\<rparr>"
    using Running by (auto simp: on_close_def close_interceptor_def split: if_splits dest!: reply_Running)
  show ?thesis using assms(2, 3) Running ok' h' by (auto simp: helper_call_def frame_new_def)
qed (use assms(2, 3) in \<open>auto simp: helper_call_def frame_new_def\<close>)

lemma configure_answered:
  assumes "session_ok h" "hs_state h \<in> {Authenticated, Configured}" "rid \<noteq> 0"
    "helper_call (answered_by_helper env rid) (MConfigureInterceptor v) MConfigured (Some h) = (r, ok)"
  shows "ok \<and> (\<exists>h'. r = Some h' \<and> session_ok h' \<and> hs_state h' = Configured \<and> hs_config h' = Some v) \<or> \<not> ok \<and> r = None"
proof (cases "on_configure env rid v h")
  case (Running h')
  have ok': "session_ok h'" by (rule on_configure_ok [OF assms(1, 2) Running])
  define w where "w = (if the (he_recover env (ic_firewall_backend v)) = 0 then [] else
    [frame_new 0 (MHelperWarning Internal (''recovered '' @ show_nat (the (he_recover env (ic_firewall_backend v))) @ '' stale firewall object(s)''))])"
  have w: "h' = h\<lparr>hs_config := Some v, hs_state := Configured, hs_sent := hs_sent h @ w @ [frame_new rid MConfigured]\<rparr>"
    using Running unfolding w_def on_configure_def Let_def
    by (cases "he_recover env (ic_firewall_backend v)") (auto split: if_splits option.splits dest!: reply_Running send_frame_Some)
  have w0: "\<forall>f \<in> set w. fr_request_id f = 0" by (simp add: w_def frame_new_def)
  have "find (\<lambda>f. fr_request_id f = rid) (w @ [frame_new rid MConfigured]) = Some (frame_new rid MConfigured)"
    using w0 assms(3) by (cases w) (auto simp: w_def frame_new_def split: if_splits)
  then show ?thesis using assms(2, 4) Running ok' w by (auto simp: helper_call_def frame_new_def)
qed (use assms(2, 4) in \<open>auto simp: helper_call_def frame_new_def\<close>)

lemma open_answered:
  assumes "session_ok h" "hs_state h = Configured" "helper_call (answered_by_helper env rid) MOpenInterceptor MInterceptorReady (Some h) = (r, ok)"
  shows "ok \<and> (\<exists>h' m. r = Some h' \<and> session_ok h' \<and> hs_state h' = InterceptorOpen \<and> hs_config h' = hs_config h \<and> hs_registered h' = hs_registered h
      \<and> hs_interceptor h' = Some (new_flow_table, m)) \<or> \<not> ok \<and> r = None"
proof (cases "on_open env rid h")
  case (Running h')
  have ok': "session_ok h'" by (rule on_open_ok [OF assms(1, 2) Running])
  have "(\<exists>m. hs_interceptor h' = Some (new_flow_table, m)) \<and> hs_state h' = InterceptorOpen \<and> hs_config h' = hs_config h
      \<and> hs_registered h' = hs_registered h \<and> hs_sent h' = hs_sent h @ [frame_new rid MInterceptorReady]"
    using Running by (auto simp: on_open_def Let_def split: if_splits option.splits dest!: reply_Running)
  then show ?thesis using assms(2, 3) Running ok' by (auto simp: helper_call_def frame_new_def)
qed (use assms(2, 3) in \<open>auto simp: helper_call_def frame_new_def\<close>)

text \<open>
  A rebuild through the root helper is never left half done: on every helper that can be reached and has been configured, whatever the system
  answers it, the three requests of a rebuild either all succeed, and the helper then intercepts for the new binding with no flow registered, or the
  rebuild is reported as failed and the helper process is gone.
\<close>

theorem remote_rebuild_all_or_gone:
  assumes "helper_run secret pid tr h" "hs_state h \<in> {Configured, InterceptorOpen}" "rid \<noteq> 0" "rp_helper p = Some h"
  shows "case rebuild_remote (answered_by_helper env rid) id b p of (p', ok) \<Rightarrow>
    (case rp_helper p' of None \<Rightarrow> \<not> ok
     | Some h' \<Rightarrow> ok \<and> hs_state h' = InterceptorOpen \<and> hs_config h' = Some (interceptor_config (rp_cfg p) (ib_ip b) None CONNECT_PORT)
         \<and> hs_registered h' = [] \<and> (\<exists>m. hs_interceptor h' = Some (new_flow_table, m)))"
proof -
  have h: "session_ok h" by (rule helper_run_ok [OF assms(1)])
  obtain r1 k1 where c1: "helper_call (answered_by_helper env rid) MCloseInterceptor MInterceptorClosed (Some h) = (r1, k1)" by fastforce
  show ?thesis
  proof (cases k1)
    case True
    then obtain h1 where h1: "r1 = Some h1" "session_ok h1" "hs_state h1 = Configured" using close_answered [OF h assms(2) c1] by blast
    obtain r2 k2 where c2: "helper_call (answered_by_helper env rid) (remote_config p b) MConfigured (Some h1) = (r2, k2)" by fastforce
    show ?thesis
    proof (cases k2)
      case k2: True
      then obtain h2 where h2: "r2 = Some h2" "session_ok h2" "hs_state h2 = Configured"
          "hs_config h2 = Some (interceptor_config (rp_cfg p) (ib_ip b) None CONNECT_PORT)"
        using configure_answered [OF h1(2) _ assms(3) c2 [unfolded remote_config_def]] h1(3) by auto
      obtain r3 k3 where c3: "helper_call (answered_by_helper env rid) MOpenInterceptor MInterceptorReady (Some h2) = (r3, k3)" by fastforce
      have "hs_registered h2 = []" using h2(2, 3) by (cases "hs_interceptor h2") (simp_all add: session_ok_def)
      then show ?thesis using open_answered [OF h2(2, 3) c3] c1 c2 c3 assms(4) True k2 h1 h2
        by (auto simp: rebuild_remote_def)
    next
      case False
      then have "r2 = None" using configure_answered [OF h1(2) _ assms(3) c2 [unfolded remote_config_def]] h1(3) by auto
      then show ?thesis using c1 c2 assms(4) True False h1 by (simp add: rebuild_remote_def)
    qed
  next
    case False
    then have "r1 = None" using close_answered [OF h assms(2) c1] by blast
    then show ?thesis using c1 assms(4) False by (simp add: rebuild_remote_def)
  qed
qed


definition configured_session :: HelperSession where
  "configured_session = authenticated_session\<lparr>hs_config := Some sample_config, hs_state := Configured,
     hs_sent := hs_sent authenticated_session @ [frame_new 2 MConfigured]\<rparr>"

lemma sample_configured: "helper_run sample_secret 5 [frame_new 1 (MHello sample_hello), frame_new 2 (MConfigureInterceptor sample_config)] configured_session"
proof -
  have "interceptor_config_validate sample_config = None" using sample_checks(2) by simp
  then have "serve_message sample_env 2 (MConfigureInterceptor sample_config) authenticated_session = Running configured_session"
    by (simp add: on_configure_def sample_reply configured_session_def)
  then show ?thesis using sample_request [OF sample_authenticated sample_checks(2), of 2 configured_session]
    by (simp add: authenticated_session_def)
qed

theorem remote_rebuild_all_or_gone_witness:
  "case rebuild_remote (answered_by_helper sample_env 3) id \<lparr>ib_ip = 0xC0A80105, ib_if_index = 3, ib_if_name = ''eth0''\<rparr>
      \<lparr>rp_cfg = default_config 44444, rp_helper = Some configured_session, rp_configured = True\<rparr> of
     (p', ok) \<Rightarrow> rp_helper p' \<noteq> None \<longrightarrow> ok"
  using remote_rebuild_all_or_gone [OF sample_configured, where rid = 3 and p = "\<lparr>rp_cfg = default_config 44444, rp_helper = Some configured_session, rp_configured = True\<rparr>"
      and env = sample_env and b = "\<lparr>ib_ip = 0xC0A80105, ib_if_index = 3, ib_if_name = ''eth0''\<rparr>"]
  by (auto simp: configured_session_def split: option.splits)

end
