(* ===== verification/Network_Recovery.thy ===== *)
theory Network_Recovery
  imports Data_Plane
begin

text \<open>
  The recovery coordinator of src/crates/zerodpi/src/network\_recovery.rs. What the running mode answers (probes, rebuilds, waits, the check of the
  target) is given as lists of answers; an exhausted list means that the coordinator is still waiting. Times are milliseconds.
\<close>

section \<open>The coordinator\<close>

definition BACKOFF_INITIAL :: nat where "BACKOFF_INITIAL = 1000"
definition BACKOFF_MAX :: nat where "BACKOFF_MAX = 60000"
definition RECOVERY_RESCAN_MIN_INTERVAL :: nat where "RECOVERY_RESCAN_MIN_INTERVAL = 60000"

datatype NetworkStatus = Online ipv4 | Unavailable string | Changing ipv4 NetworkChangeSource
  | Recovering nat nat string | Recovered ipv4 bool bool

datatype RecoveryAction = Publish NetworkStatus | Rebuild InterfaceBinding bool | Sleep nat | Apply InterfaceBinding | Rescan nat nat

record Coordinator =
  rc_auto_select :: bool
  rc_current :: "InterfaceBinding option"
  rc_last_rescan :: "nat option"

text \<open>How the wait after a failed attempt ends: by the timer, a newer event, or at once because the channel is closed.\<close>

datatype WaitEnd = Slept | NewerEvent | ChannelClosed

datatype Attempt = Succeeds | Fails string WaitEnd

fun rebuild_with_retry :: "InterfaceBinding \<Rightarrow> nat \<Rightarrow> nat \<Rightarrow> Attempt list \<Rightarrow> RecoveryAction list \<times> bool option" where
  "rebuild_with_retry b delay attempt [] = ([], None)"
| "rebuild_with_retry b delay attempt (Succeeds # as) = ([Rebuild b True], Some True)"
| "rebuild_with_retry b delay attempt (Fails e w # as) =
     (let pre = [Rebuild b False, Publish (Recovering (Suc attempt) delay e)] in
      if w = NewerEvent then (pre, Some False)
      else (case rebuild_with_retry b (min (delay * 2) BACKOFF_MAX) (Suc attempt) as of
        (tr, r) \<Rightarrow> (pre @ (if w = Slept then [Sleep delay] else []) @ tr, r)))"

definition rescan_allowed :: "nat \<Rightarrow> Coordinator \<Rightarrow> bool" where
  "rescan_allowed now c = (case rc_last_rescan c of None \<Rightarrow> True | Some t \<Rightarrow> RECOVERY_RESCAN_MIN_INTERVAL \<le> now - t)"

text \<open>The answers of one turn of the loop in \<^verbatim>\<open>handle_change\<close>: \<open>an_now\<close> is the time of the rate limit's check and \<open>an_after\<close> the end of the rescan.\<close>

record Answers =
  an_disconnected :: bool
  an_target :: ipv4
  an_probe :: "string + InterfaceBinding"
  an_attempts :: "Attempt list"
  an_verified :: bool
  an_found :: nat
  an_switched :: bool
  an_now :: nat
  an_after :: nat

definition settle_change :: "InterfaceBinding \<Rightarrow> Answers \<Rightarrow> Coordinator \<Rightarrow> RecoveryAction list \<times> Coordinator" where
  "settle_change b a c = (let c = c\<lparr>rc_current := Some b\<rparr> in
     if \<not> an_verified a \<and> rc_auto_select c \<and> rescan_allowed (an_now a) c
     then ([Apply b, Rescan (an_now a) (an_after a)] @ (if an_found a = 0 then [Publish (Unavailable ''recovery rescan found no reachable target'')] else [])
       @ [Publish (Recovered (ib_ip b) False (an_switched a))], c\<lparr>rc_last_rescan := Some (an_after a)\<rparr>)
     else ([Apply b, Publish (Recovered (ib_ip b) (an_verified a) False)], c))"

fun handle_change :: "NetworkChangeSource \<Rightarrow> Coordinator \<Rightarrow> Answers list \<Rightarrow> RecoveryAction list \<times> Coordinator \<times> bool" where
  "handle_change source c [] = ([], c, False)"
| "handle_change source c (a # as) =
     (if an_disconnected a then ([Publish (Unavailable ''root helper disconnected'')], c\<lparr>rc_current := None\<rparr>, True)
      else if an_target a = 0 then ([Publish (Unavailable ''no active target to probe'')], c, True)
      else (case an_probe a of
        Inl e \<Rightarrow> ([Publish (Unavailable e)], c\<lparr>rc_current := None\<rparr>, True)
      | Inr b \<Rightarrow> if rc_current c = Some b then ([Publish (Online (ib_ip b))], c, True)
          else (case rebuild_with_retry b BACKOFF_INITIAL 0 (an_attempts a) of
            (tr, None) \<Rightarrow> (Publish (Changing (ib_ip b) source) # tr, c, False)
          | (tr, Some False) \<Rightarrow> (case handle_change source c as of (tr', c', fin) \<Rightarrow> (Publish (Changing (ib_ip b) source) # tr @ tr', c', fin))
          | (tr, Some True) \<Rightarrow> (case settle_change b a c of (tr', c') \<Rightarrow> (Publish (Changing (ib_ip b) source) # tr @ tr', c', True)))))"

datatype Received = Changed NetworkChangeSource | Lagged | Closed

text \<open>\<^verbatim>\<open>run\<close>: every received event is handled to its end before the next.\<close>

fun recovery_loop :: "Coordinator \<Rightarrow> (Received \<times> Answers list) list \<Rightarrow> RecoveryAction list \<times> Coordinator" where
  "recovery_loop c [] = ([], c)"
| "recovery_loop c ((Closed, as) # evs) = ([], c)"
| "recovery_loop c ((ev, as) # evs) = (case handle_change (case ev of Changed s \<Rightarrow> s | _ \<Rightarrow> Poll) c as of
     (tr, c', False) \<Rightarrow> (tr, c') | (tr, c', True) \<Rightarrow> (case recovery_loop c' evs of (tr', c'') \<Rightarrow> (tr @ tr', c'')))"

definition recovery_run :: "Coordinator \<Rightarrow> (Received \<times> Answers list) list \<Rightarrow> RecoveryAction list \<times> Coordinator" where
  "recovery_run c evs = (case recovery_loop c evs of
     (tr, c') \<Rightarrow> ((case rc_current c of Some b \<Rightarrow> [Publish (Online (ib_ip b))] | None \<Rightarrow> []) @ tr, c'))"

section \<open>Coordinator: what a recovery reports\<close>

text \<open>
  The binding for which the last rebuild attempted has succeeded. After a failed one there is none: whether the old interceptor is still live depends on
  how far that rebuild came, which \<open>replay\<close> below takes from the data plane itself.
\<close>

fun plane_after :: "InterfaceBinding option \<Rightarrow> RecoveryAction list \<Rightarrow> InterfaceBinding option" where
  "plane_after p [] = p"
| "plane_after p (Rebuild b ok # as) = plane_after (if ok then Some b else None) as"
| "plane_after p (_ # as) = plane_after p as"

lemma plane_after_append [simp]: "plane_after p (xs @ ys) = plane_after (plane_after p xs) ys"
  by (induction p xs rule: plane_after.induct) auto

lemma retry_result:
  "rebuild_with_retry b delay n as = (tr, r) \<Longrightarrow> (r = Some True \<longrightarrow> plane_after p tr = Some b) \<and> (r = Some False \<longrightarrow> plane_after p tr = None)
     \<and> (\<forall>act \<in> set tr. (\<exists>ok. act = Rebuild b ok) \<or> (\<exists>d. act = Sleep d) \<or> (\<exists>k d e. act = Publish (Recovering k d e)))"
proof (induction b delay n as arbitrary: tr r p rule: rebuild_with_retry.induct)
  case (3 b delay n e w as)
  show ?case
  proof (cases "w = NewerEvent")
    case False
    obtain tr' r' where t: "rebuild_with_retry b (min (delay * 2) BACKOFF_MAX) (Suc n) as = (tr', r')" by fastforce
    note ih = "3.IH" [OF refl False t]
    show ?thesis using "3.prems" False t ih [of None] by (auto split: if_splits)
  qed (use 3 in auto)
qed auto

text \<open>The waits before each retry: doubled up to the cap, and never longer.\<close>

lemma retry_delays: "rebuild_with_retry b delay n as = (tr, r) \<Longrightarrow> delay \<le> BACKOFF_MAX \<Longrightarrow> Sleep d \<in> set tr \<Longrightarrow> delay \<le> d \<and> d \<le> BACKOFF_MAX"
proof (induction b delay n as arbitrary: tr r rule: rebuild_with_retry.induct)
  case (3 b delay n e w as)
  show ?case
  proof (cases "w = NewerEvent")
    case False
    obtain tr' r' where t: "rebuild_with_retry b (min (delay * 2) BACKOFF_MAX) (Suc n) as = (tr', r')" by fastforce
    have "Sleep d \<in> set tr' \<Longrightarrow> min (delay * 2) BACKOFF_MAX \<le> d \<and> d \<le> BACKOFF_MAX" using "3.IH" [OF refl False t] by simp
    moreover have "delay \<le> min (delay * 2) BACKOFF_MAX" using "3.prems"(2) by simp
    ultimately show ?thesis using "3.prems" False t by (auto split: if_splits simp del: min.bounded_iff)
  qed (use 3 in auto)
qed auto

lemma settle_change_shape: "settle_change b a c = (tr, c') \<Longrightarrow> rc_current c' = Some b \<and> plane_after p tr = p
    \<and> (\<exists>pre v s. tr = Apply b # pre @ [Publish (Recovered (ib_ip b) v s)] \<and> (\<forall>ip v s. Publish (Recovered ip v s) \<notin> set pre)
        \<and> (s \<longrightarrow> (\<exists>t t'. Rescan t t' \<in> set pre)) \<and> (v \<longrightarrow> an_verified a))"
  by (auto simp: settle_change_def Let_def split: if_splits)


text \<open>The ways one turn of \<^verbatim>\<open>handle_change\<close> can go.\<close>

lemma handle_change_cases:
  assumes "handle_change source c (a # as) = (tr, c', fin)"
  obtains (no_rebuild) status where "tr = [Publish status]" "\<forall>ip v s. status \<noteq> Recovered ip v s" "rc_last_rescan c' = rc_last_rescan c"
  | (running) b rt where "tr = Publish (Changing (ib_ip b) source) # rt" "rebuild_with_retry b BACKOFF_INITIAL 0 (an_attempts a) = (rt, None)" "c' = c"
  | (again) b rt tr' where "tr = Publish (Changing (ib_ip b) source) # rt @ tr'" "rebuild_with_retry b BACKOFF_INITIAL 0 (an_attempts a) = (rt, Some False)"
      "handle_change source c as = (tr', c', fin)"
  | (rebuilt) b rt st where "tr = Publish (Changing (ib_ip b) source) # rt @ st" "rebuild_with_retry b BACKOFF_INITIAL 0 (an_attempts a) = (rt, Some True)"
      "settle_change b a c = (st, c')" fin
proof (cases "an_disconnected a \<or> an_target a = 0 \<or> (\<exists>e. an_probe a = Inl e) \<or> (\<exists>b. an_probe a = Inr b \<and> rc_current c = Some b)")
  case True
  then have "\<exists>status. tr = [Publish status] \<and> (\<forall>ip v s. status \<noteq> Recovered ip v s) \<and> rc_last_rescan c' = rc_last_rescan c"
    using assms by (auto split: if_splits)
  then show thesis using no_rebuild by blast
next
  case False
  then obtain b where b: "\<not> an_disconnected a" "an_target a \<noteq> 0" "an_probe a = Inr b" "rc_current c \<noteq> Some b"
    by (cases "an_probe a") auto
  obtain rt r where r: "rebuild_with_retry b BACKOFF_INITIAL 0 (an_attempts a) = (rt, r)" by fastforce
  consider "r = None" | "r = Some False" | "r = Some True" by (cases r) auto
  then show thesis
  proof cases
    case 1
    then show thesis using assms b r by (auto intro: running)
  next
    case 2
    then show thesis using assms b r again by (cases "handle_change source c as") auto
  next
    case 3
    then show thesis using assms b r rebuilt by (cases "settle_change b a c") auto
  qed
qed

lemma handle_recovered:
  "handle_change source c as = (tr, c', fin) \<Longrightarrow> Publish (Recovered ip v s) \<in> set tr \<Longrightarrow>
     fin \<and> last tr = Publish (Recovered ip v s) \<and> (\<exists>b. ib_ip b = ip \<and> rc_current c' = Some b \<and> plane_after p tr = Some b \<and> Apply b \<in> set tr)"
proof (induction as arbitrary: tr p)
  case (Cons a as)
  from Cons.prems(1) show ?case
  proof (cases rule: handle_change_cases)
    case (again b rt tr')
    then have tr': "Publish (Recovered ip v s) \<in> set tr'" using Cons.prems(2) retry_result [OF again(2)] by auto
    then have "tr' \<noteq> []" by auto
    then show ?thesis using Cons.IH [OF again(3) tr', of None] again(1) retry_result [OF again(2), of p] by auto
  next
    case (rebuilt b rt st)
    then show ?thesis using settle_change_shape [OF rebuilt(3), of "Some b"] Cons.prems(2) retry_result [OF rebuilt(2), of p] by auto
  next
    case (running b rt)
    then show ?thesis using Cons.prems(2) retry_result [OF running(2), of p] by auto
  qed (use Cons.prems(2) in auto)
qed simp

text \<open>
  C27. A recovery is reported only over a data plane that was rebuilt: whenever handling a change publishes that the network is recovered, that is the
  last thing it does, the last rebuild attempted is a successful one for the binding now recorded as current, the reported address is that
  binding's, and the binding has been applied.
\<close>

theorem recovered_only_after_rebuild:
  assumes "handle_change source c as = (tr, c', fin)" "Publish (Recovered ip v s) \<in> set tr"
  shows "fin \<and> last tr = Publish (Recovered ip v s)
    \<and> (\<exists>b. ib_ip b = ip \<and> rc_current c' = Some b \<and> plane_after plane tr = Some b \<and> Apply b \<in> set tr)"
  by (rule handle_recovered [OF assms])

definition wifi :: InterfaceBinding where "wifi = \<lparr>ib_ip = 0x0A000005, ib_if_index = 2, ib_if_name = ''wlan0''\<rparr>"
definition cable :: InterfaceBinding where "cable = \<lparr>ib_ip = 0xC0A80105, ib_if_index = 3, ib_if_name = ''eth0''\<rparr>"

definition probed :: "InterfaceBinding \<Rightarrow> Attempt list \<Rightarrow> Answers" where
  "probed b attempts = \<lparr>an_disconnected = False, an_target = 1, an_probe = Inr b, an_attempts = attempts, an_verified = False, an_found = 3,
     an_switched = True, an_now = 0, an_after = 5000\<rparr>"

theorem recovered_only_after_rebuild_witness:
  "case handle_change Link \<lparr>rc_auto_select = True, rc_current = Some wifi, rc_last_rescan = None\<rparr> [probed cable [Fails ''busy'' Slept, Succeeds]] of
     (tr, c', fin) \<Rightarrow> fin \<and> last tr = Publish (Recovered 0xC0A80105 False True) \<and> plane_after None tr = Some cable"
  using recovered_only_after_rebuild [where source = Link and c = "\<lparr>rc_auto_select = True, rc_current = Some wifi, rc_last_rescan = None\<rparr>"
      and as = "[probed cable [Fails ''busy'' Slept, Succeeds]]" and ip = "0xC0A80105" and v = False and s = True and plane = None]
  by (simp add: probed_def wifi_def cable_def settle_change_def rescan_allowed_def)

section \<open>The status and the live plane\<close>

text \<open>
  A run of the coordinator on the local data plane: each rebuild of the trace is carried out on the plane, with what its interceptor answers to the
  stop and whether the new one opens. \<open>None\<close> means that these answers do not give the results in the trace.
\<close>

fun replay :: "RecoveryAction list \<Rightarrow> (StopAnswer \<times> bool) list \<Rightarrow> LocalPlane \<Rightarrow> LocalPlane option" where
  "replay [] xs p = Some p"
| "replay (Rebuild b ok # as) [] p = None"
| "replay (Rebuild b ok # as) ((a, opens) # xs) p = (case rebuild_local a opens b p of (p', ok') \<Rightarrow> if ok' = ok then replay as xs p' else None)"
| "replay (Publish s # as) xs p = replay as xs p"
| "replay (Sleep d # as) xs p = replay as xs p"
| "replay (Apply b # as) xs p = replay as xs p"
| "replay (Rescan s e # as) xs p = replay as xs p"

lemma replay_append: "replay (as @ bs) xs p = Some p' \<Longrightarrow> \<exists>q ys. replay as xs p = Some q \<and> replay bs ys q = Some p'"
  by (induction as xs p rule: replay.induct) (auto split: prod.splits if_splits)

lemma rebuild_local_result:
  assumes "plane_ok p" "rebuild_local a opens b p = (p', ok)"
  shows "plane_ok p' \<and> lp_cfg p' = lp_cfg p \<and> (ok \<longrightarrow> lp_live p' = [interceptor_filter (lp_cfg p) b])"
proof -
  obtain q r where st: "stop_local a p = (q, r)" by (cases "stop_local a p")
  have q: "plane_ok q" "r \<longrightarrow> \<not> lp_armed q" "lp_cfg q = lp_cfg p" using stop_local_ok [OF assms(1) st] by auto
  have "plane_ok p'" using rebuild_local_ok [OF assms(1), of a opens b] assms(2) by simp
  then show ?thesis using assms(2) st q by (cases r) (auto simp: rebuild_local_def open_local_def plane_ok_def split: if_splits)
qed

text \<open>What the last successful rebuild was for is live.\<close>

lemma replay_live:
  assumes "replay tr xs p = Some p'" "plane_ok p" "\<And>b. q = Some b \<Longrightarrow> lp_live p = [interceptor_filter (lp_cfg p) b]"
  shows "plane_ok p' \<and> lp_cfg p' = lp_cfg p \<and> (\<forall>b. plane_after q tr = Some b \<longrightarrow> lp_live p' = [interceptor_filter (lp_cfg p) b])"
  using assms
proof (induction tr xs p arbitrary: q rule: replay.induct)
  case (3 b ok as a opens xs p)
  obtain p1 ok1 where r: "rebuild_local a opens b p = (p1, ok1)" by fastforce
  have p1: "plane_ok p1 \<and> lp_cfg p1 = lp_cfg p \<and> (ok1 \<longrightarrow> lp_live p1 = [interceptor_filter (lp_cfg p) b])"
    by (rule rebuild_local_result [OF "3.prems"(2) r])
  have ok: "ok1 = ok" "replay as xs p1 = Some p'" using "3.prems"(1) r by (auto split: if_splits)
  then show ?case using "3.IH" [OF r [symmetric] ok(1), of "if ok then Some b else None"] p1 by (auto split: if_splits)
qed auto

text \<open>Failed attempts on a plane without an interceptor leave it without one.\<close>

lemma rebuild_unarmed: "plane_ok p \<Longrightarrow> \<not> lp_armed p \<Longrightarrow> rebuild_local a opens b p = (p', False) \<Longrightarrow> plane_ok p' \<and> \<not> lp_armed p'"
  by (auto simp: rebuild_local_def stop_local_def open_local_def split: if_splits)

lemma retry_fails_unarmed:
  "rebuild_with_retry b d n as = (tr, Some False) \<Longrightarrow> replay tr xs p = Some p' \<Longrightarrow> plane_ok p \<Longrightarrow> \<not> lp_armed p \<Longrightarrow> plane_ok p' \<and> \<not> lp_armed p'"
proof (induction b d n as arbitrary: tr xs p rule: rebuild_with_retry.induct)
  case (3 b d n e w as)
  obtain tr' r' where rec: "rebuild_with_retry b (min (d * 2) BACKOFF_MAX) (Suc n) as = (tr', r')" by fastforce
  obtain a opens ys where xs: "xs = (a, opens) # ys" using "3.prems"(1,2) by (cases xs) (auto simp: Let_def split: if_splits prod.splits)
  obtain p1 ok where r: "rebuild_local a opens b p = (p1, ok)" by fastforce
  have "\<not> ok" using "3.prems"(1,2) xs r by (auto simp: Let_def split: if_splits prod.splits)
  then have p1: "plane_ok p1 \<and> \<not> lp_armed p1" using rebuild_unarmed [OF "3.prems"(3,4), of a opens b p1] r by simp
  show ?case
  proof (cases "w = NewerEvent")
    case True
    then show ?thesis using "3.prems"(1,2) xs r p1 \<open>\<not> ok\<close> by auto
  next
    case False
    have r': "r' = Some False" using "3.prems"(1) rec False by auto
    have "replay tr' ys p1 = Some p'" using "3.prems"(1,2) xs r rec False \<open>\<not> ok\<close> by (auto split: if_splits)
    then show ?thesis using "3.IH" [OF refl False rec [unfolded r']] p1 by blast
  qed
qed auto

lemma stop_confirmed: "plane_ok p \<Longrightarrow> lp_report p \<noteq> Some False \<Longrightarrow> \<exists>q. stop_local StoppedOk p = (q, True)"
  by (cases "lp_report p") (auto simp: stop_local_def wait_for_shutdown_def plane_ok_def Let_def)

text \<open>A first attempt that stops the old interceptor and fails, then any number of further failures.\<close>

lemma retry_takes_plane_down:
  assumes "rebuild_with_retry b d n as = (tr, Some False)" "replay tr ((StoppedOk, opens) # xs) p = Some p'" "plane_ok p" "lp_report p \<noteq> Some False"
  shows "lp_live p' = []"
proof (cases as)
  case (Cons att as')
  then obtain e w where at: "att = Fails e w" using assms(1) by (cases att) auto
  obtain q where q: "stop_local StoppedOk p = (q, True)" using stop_confirmed assms(3,4) by blast
  have q': "plane_ok q" "\<not> lp_armed q" using stop_local_ok [OF assms(3) q] by auto
  have eq: "rebuild_local StoppedOk opens b p = rebuild_local StoppedOk opens b q"
    using q q'(2) by (simp add: rebuild_local_def stop_local_def [of StoppedOk q])
  have "hd tr = Rebuild b False" "tr \<noteq> []" using assms(1) Cons at by (auto simp: Let_def split: if_splits prod.splits)
  then have "replay tr ((StoppedOk, opens) # xs) p = replay tr ((StoppedOk, opens) # xs) q" using eq by (cases tr) auto
  then have "plane_ok p' \<and> \<not> lp_armed p'" using retry_fails_unarmed [OF assms(1) _ q'] assms(2) by simp
  then show ?thesis by (auto simp: plane_ok_def)
qed (use assms(1) in simp)

definition finds :: "Answers \<Rightarrow> InterfaceBinding \<Rightarrow> bool" where
  "finds a b \<longleftrightarrow> \<not> an_disconnected a \<and> an_target a \<noteq> 0 \<and> an_probe a = Inr b"

lemma retry_interrupted: "snd (rebuild_with_retry b d n (map (\<lambda>e. Fails e Slept) es @ Fails e NewerEvent # ts)) = Some False"
  by (induction es arbitrary: d n) (auto simp: Let_def case_prod_unfold)

lemma online_without_rebuild:
  assumes "handle_change source c (a1 # a2 # rest) = (tr, c', fin)" "rc_current c = Some old" "finds a1 new" "finds a2 old" "new \<noteq> old"
    "rebuild_with_retry new BACKOFF_INITIAL 0 (an_attempts a1) = (rt, Some False)"
  shows "tr = Publish (Changing (ib_ip new) source) # rt @ [Publish (Online (ib_ip old))] \<and> c' = c \<and> fin"
  using assms by (auto simp: finds_def)

text \<open>
  C28. What the published status says of the local data plane, when the coordinator's rebuilds are carried out on it. A recovery that is reported is a
  live one: afterwards exactly one interceptor is live, and it captures for the binding recorded as current, whose address was reported. A status of
  "online" promises less. Whenever the network moves from one binding to another, the first attempt to rebuild stops the old interceptor, it and any
  number of retries fail, and a newer event then finds the old binding again, the coordinator reports that binding online, still records it as
  current and does not rebuild, while no interceptor is live.
\<close>

theorem status_against_live_plane:
  assumes "handle_change source c as = (tr, c', fin)" "plane_reachable p" "replay tr xs p = Some p'"
  shows "(\<forall>ip v s. Publish (Recovered ip v s) \<in> set tr \<longrightarrow> (\<exists>b. ib_ip b = ip \<and> rc_current c' = Some b \<and> lp_live p' = [interceptor_filter (lp_cfg p) b]))
    \<and> (\<forall>old new a1 a2 rest es e ts opens ys. rc_current c = Some old \<and> new \<noteq> old \<and> as = a1 # a2 # rest \<and> finds a1 new \<and> finds a2 old
        \<and> an_attempts a1 = map (\<lambda>e. Fails e Slept) es @ Fails e NewerEvent # ts \<and> xs = (StoppedOk, opens) # ys \<and> lp_report p \<noteq> Some False
        \<longrightarrow> fin \<and> last tr = Publish (Online (ib_ip old)) \<and> rc_current c' = Some old \<and> lp_live p' = [])"
proof (rule conjI; intro allI impI)
  fix ip v s assume "Publish (Recovered ip v s) \<in> set tr"
  from handle_recovered [OF assms(1) this, of None] obtain b where b: "ib_ip b = ip" "rc_current c' = Some b" "plane_after None tr = Some b" by blast
  then show "\<exists>b. ib_ip b = ip \<and> rc_current c' = Some b \<and> lp_live p' = [interceptor_filter (lp_cfg p) b]"
    using replay_live [OF assms(3) reachable_plane_ok [OF assms(2)], of None] by auto
next
  fix old new a1 a2 rest es e ts opens ys
  assume "rc_current c = Some old \<and> new \<noteq> old \<and> as = a1 # a2 # rest \<and> finds a1 new \<and> finds a2 old
        \<and> an_attempts a1 = map (\<lambda>e. Fails e Slept) es @ Fails e NewerEvent # ts \<and> xs = (StoppedOk, opens) # ys \<and> lp_report p \<noteq> Some False"
  then have h: "rc_current c = Some old" "new \<noteq> old" "as = a1 # a2 # rest" "finds a1 new" "finds a2 old"
    "an_attempts a1 = map (\<lambda>e. Fails e Slept) es @ Fails e NewerEvent # ts" "xs = (StoppedOk, opens) # ys" "lp_report p \<noteq> Some False" by simp_all
  obtain rt where rt: "rebuild_with_retry new BACKOFF_INITIAL 0 (an_attempts a1) = (rt, Some False)"
    using retry_interrupted [of new BACKOFF_INITIAL 0 es e ts] h(6) by (metis prod.collapse)
  from online_without_rebuild [OF assms(1) [unfolded h(3)] h(1,4,5,2) rt]
  have tr: "tr = Publish (Changing (ib_ip new) source) # rt @ [Publish (Online (ib_ip old))]" "c' = c" "fin" by auto
  have "\<exists>q. replay rt xs p = Some q \<and> q = p'" using replay_append [of rt "[Publish (Online (ib_ip old))]" xs p p'] assms(3) tr(1) by auto
  then have "lp_live p' = []" using retry_takes_plane_down [OF rt _ reachable_plane_ok [OF assms(2)] h(8)] h(7) by blast
  then show "fin \<and> last tr = Publish (Online (ib_ip old)) \<and> rc_current c' = Some old \<and> lp_live p' = []" using tr h(1) by simp
qed

text \<open>From the wireless to the wired interface and back.\<close>

theorem status_against_live_plane_witness:
  "\<exists>tr p'. handle_change Link \<lparr>rc_auto_select = True, rc_current = Some wifi, rc_last_rescan = None\<rparr> [probed cable [Fails ''busy'' NewerEvent], probed wifi []]
      = (tr, \<lparr>rc_auto_select = True, rc_current = Some wifi, rc_last_rescan = None\<rparr>, True)
    \<and> replay tr [(StoppedOk, False)] sample_plane = Some p' \<and> last tr = Publish (Online (ib_ip wifi)) \<and> lp_live p' = [] \<and> length (lp_live sample_plane) = 1"
proof -
  let ?c = "\<lparr>rc_auto_select = True, rc_current = Some wifi, rc_last_rescan = None\<rparr>" and ?as = "[probed cable [Fails ''busy'' NewerEvent], probed wifi []]"
  let ?tr = "[Publish (Changing (ib_ip cable) Link), Rebuild cable False, Publish (Recovering 1 BACKOFF_INITIAL ''busy''), Publish (Online (ib_ip wifi))]"
  have h: "handle_change Link ?c ?as = (?tr, ?c, True)" by (simp add: probed_def wifi_def cable_def)
  have s: "lp_report sample_plane = None" "length (lp_live sample_plane) = 1" "lp_armed sample_plane" "lp_shutdown sample_plane" "lp_done sample_plane"
    by (simp_all add: sample_plane_def open_local_def new_local_plane_def)
  obtain p' where r: "replay ?tr [(StoppedOk, False)] sample_plane = Some p'"
    using s by (simp add: rebuild_local_def stop_local_def wait_for_shutdown_def open_local_def)
  have "finds (probed cable [Fails ''busy'' NewerEvent]) cable" "finds (probed wifi []) wifi" "cable \<noteq> wifi"
    by (simp_all add: finds_def probed_def cable_def wifi_def)
  moreover have "an_attempts (probed cable [Fails ''busy'' NewerEvent]) = map (\<lambda>e. Fails e Slept) [] @ Fails ''busy'' NewerEvent # []" by (simp add: probed_def)
  moreover have "rc_current ?c = Some wifi" "lp_report sample_plane \<noteq> Some False" using s by simp_all
  ultimately have "last ?tr = Publish (Online (ib_ip wifi)) \<and> lp_live p' = []"
    using status_against_live_plane [OF h sample_plane_reachable r] by blast
  then show ?thesis using h r s by blast
qed

section \<open>Coordinator: rescans are rate limited\<close>

fun rescans :: "RecoveryAction list \<Rightarrow> (nat \<times> nat) list" where
  "rescans [] = []"
| "rescans (Rescan s e # as) = (s, e) # rescans as"
| "rescans (_ # as) = rescans as"

lemma rescans_append [simp]: "rescans (xs @ ys) = rescans xs @ rescans ys"
  by (induction xs rule: rescans.induct) auto

lemma retry_no_rescan: "rebuild_with_retry b delay n as = (tr, r) \<Longrightarrow> rescans tr = []"
  by (induction b delay n as arbitrary: tr r rule: rebuild_with_retry.induct) (auto simp: Let_def split: if_splits prod.splits)

text \<open>At most one rescan per change, and none within the interval after the one before.\<close>

definition rescan_step :: "nat option \<Rightarrow> (nat \<times> nat) list \<Rightarrow> nat option \<Rightarrow> bool" where
  "rescan_step before rs after \<longleftrightarrow> rs = [] \<and> after = before
     \<or> (\<exists>s e. rs = [(s, e)] \<and> after = Some e \<and> (\<forall>t. before = Some t \<longrightarrow> t + RECOVERY_RESCAN_MIN_INTERVAL \<le> s))"

lemma settle_change_rescans: "settle_change b a c = (tr, c') \<Longrightarrow> rescan_step (rc_last_rescan c) (rescans tr) (rc_last_rescan c')"
  by (auto simp: settle_change_def rescan_step_def rescan_allowed_def RECOVERY_RESCAN_MIN_INTERVAL_def Let_def split: if_splits option.splits)

lemma handle_rescans: "handle_change source c as = (tr, c', fin) \<Longrightarrow> rescan_step (rc_last_rescan c) (rescans tr) (rc_last_rescan c')"
proof (induction as arbitrary: tr)
  case (Cons a as)
  from Cons.prems show ?case
  proof (cases rule: handle_change_cases)
    case (again b rt tr')
    then show ?thesis using Cons.IH [OF again(3)] retry_no_rescan [OF again(2)] by simp
  next
    case (rebuilt b rt st)
    then show ?thesis using settle_change_rescans [OF rebuilt(3)] retry_no_rescan [OF rebuilt(2)] by simp
  next
    case (running b rt)
    then show ?thesis using retry_no_rescan [OF running(2)] by (simp add: rescan_step_def)
  qed (simp add: rescan_step_def)
qed (simp add: rescan_step_def)

definition spaced :: "(nat \<times> nat) list \<Rightarrow> bool" where
  "spaced rs \<longleftrightarrow> successively (\<lambda>(_, e) (s, _). e + RECOVERY_RESCAN_MIN_INTERVAL \<le> s) rs"

definition spaced_after :: "nat option \<Rightarrow> (nat \<times> nat) list \<Rightarrow> bool" where
  "spaced_after before rs \<longleftrightarrow> spaced rs \<and> (\<forall>t s e rest. before = Some t \<longrightarrow> rs = (s, e) # rest \<longrightarrow> t + RECOVERY_RESCAN_MIN_INTERVAL \<le> s)"

lemma rescan_step_spaced: "rescan_step before rs after \<Longrightarrow> spaced_after after rs' \<Longrightarrow> spaced_after before (rs @ rs')"
  by (cases rs') (auto simp: rescan_step_def spaced_after_def spaced_def)

lemma recovery_loop_spaced: "spaced_after (rc_last_rescan c) (rescans (fst (recovery_loop c evs)))"
proof (induction evs arbitrary: c)
  case (Cons ev evs)
  obtain r as where ev: "ev = (r, as)" by fastforce
  show ?case
  proof (cases "r = Closed")
    case False
    obtain tr c' fin where h: "handle_change (case r of Changed s \<Rightarrow> s | _ \<Rightarrow> Poll) c as = (tr, c', fin)" by (rule prod_cases3)
    have "spaced_after (rc_last_rescan c) (rescans tr @ (if fin then rescans (fst (recovery_loop c' evs)) else []))"
      by (rule rescan_step_spaced [OF handle_rescans [OF h]]) (use Cons.IH in \<open>auto simp: spaced_after_def spaced_def\<close>)
    then show ?thesis using h False ev by (cases r; cases fin) (auto split: prod.splits)
  qed (simp add: ev spaced_after_def spaced_def)
qed (simp add: spaced_after_def spaced_def)

text \<open>
  C29. Recovery never floods the network with scans: over a whole run of the coordinator, with any network events and any answers, each rescan starts
  at least a minute after the end of the one before.
\<close>

theorem rescans_rate_limited: "spaced (rescans (fst (recovery_run c evs)))"
  using recovery_loop_spaced [of c evs] by (auto simp: recovery_run_def spaced_after_def split: prod.splits option.splits)


end
