(* ===== verification/Relay.thy ===== *)
theory Relay
  imports Socket_Side "HOL-Library.AList"
begin

text \<open>
  The rest of a proxied connection, src/crates/zerodpi-core/src/proxy.rs: the handlers without an interceptor, the copy loops of the relay with
  their byte counters and the end of the relay, and the registry of live relays that progress is sampled from, proxy/events.rs.
\<close>

section \<open>The handler without interception\<close>

text \<open>The first record is read without a time limit here.\<close>

definition transforms_listed :: "ConnectionSettings \<Rightarrow> bool" where
  "transforms_listed s = (cs_tls_padding s \<noteq> None \<or> cs_mixed_case_sni s \<noteq> None)"

definition segment_tlshello :: "ConnectionSettings \<Rightarrow> bool" where
  "segment_tlshello s = (cs_segment_first_client_hello s \<and> sg_packets (cs_tcp_segmentation s) = TlsHello)"

definition relay_fragmentation :: "ConnectionSettings \<Rightarrow> (TcpSegmentation \<times> nat) option" where
  "relay_fragmentation s = (if cs_segment_first_client_hello s then Some (cs_tcp_segmentation s, 0) else None)"

definition socket_hello_plan :: "ConnectionSettings \<Rightarrow> ConnEnv \<Rightarrow> bytes \<Rightarrow> bytes \<Rightarrow> first_data" where
  "socket_hello_plan s env hello rest = (case cs_tls_record_split s of
     Some (sp, delay) \<Rightarrow> planned rest (later_fragmentation s) (case split_record sp hello of Panic \<Rightarrow> Panic
       | Ok (Some (first, second)) \<Rightarrow> write_record_split (ce_delay_seed env) first second delay | Ok None \<Rightarrow> Ok [(hello, 0)])
   | None \<Rightarrow> (case cs_sni_boundary_frag s of
       Some (sp, delay) \<Rightarrow> planned rest (later_fragmentation s) (case split_offset sp hello of Panic \<Rightarrow> Panic
         | Ok (Some split) \<Rightarrow> write_boundary_split (ce_delay_seed env) hello split delay | Ok None \<Rightarrow> Ok [(hello, 0)])
     | None \<Rightarrow> if segment_tlshello s
         then Option.bind (write_fragmented (ce_frag_seed env) hello (sg_length (cs_tcp_segmentation s)) (sg_interval_ms (cs_tcp_segmentation s))) (planned rest None)
         else planned rest (relay_fragmentation s) (Ok [(hello, 0)])))"

definition socket_first_data :: "ConnectionSettings \<Rightarrow> ConnEnv \<Rightarrow> first_data" where
  "socket_first_data s env =
     (if transforms_listed s \<or> cs_sni_boundary_frag s \<noteq> None \<or> cs_tls_record_split s \<noteq> None \<or> segment_tlshello s
      then (case read_one_tls_record (ce_client env) of Inl e \<Rightarrow> Some (Ok (Inl e))
        | Inr (r, rest) \<Rightarrow> (case apply_socket_transforms s (ce_pad_seed env) (ce_case_seed env) r of Panic \<Rightarrow> Some Panic
          | Ok hello \<Rightarrow> socket_hello_plan s env hello rest))
      else planned (ce_client env) (relay_fragmentation s) (Ok []))"

definition relayed :: "bytes \<Rightarrow> (TcpSegmentation \<times> nat) option \<Rightarrow> ConnAction list" where
  "relayed rest frag = [AEvent (BypassComplete FakeDataAcked), ARelay rest frag, AEvent RelayFinished]"

text \<open>\<^verbatim>\<open>handle_tcp_seg_connection_with_ip\<close>; the flag is whether it returns \<^verbatim>\<open>Ok\<close>.\<close>

definition socket_connection :: "ConnectionSettings \<Rightarrow> ConnEnv \<Rightarrow> (ConnAction list \<times> bool) res option" where
  "socket_connection s env =
     (if \<not> ce_connected env then Some (Ok ([AEvent ConnectionAccepted, AEvent ConnectionError], False))
      else (case perform (ce_write_ok env) 0 (ccs_writes s) of
        (tr1, False) \<Rightarrow> Some (Ok (AEvent ConnectionAccepted # AConnect # tr1, False))
      | (tr1, True) \<Rightarrow> (case socket_first_data s env of None \<Rightarrow> None | Some Panic \<Rightarrow> Some Panic
        | Some (Ok (Inl e)) \<Rightarrow> Some (Ok (AEvent ConnectionAccepted # AConnect # tr1, False))
        | Some (Ok (Inr (ws, rest, frag))) \<Rightarrow> (case perform (ce_write_ok env) (length (ccs_writes s)) ws of
            (tr2, False) \<Rightarrow> Some (Ok (AEvent ConnectionAccepted # AConnect # tr1 @ tr2, False))
          | (tr2, True) \<Rightarrow> Some (Ok (AEvent ConnectionAccepted # AConnect # tr1 @ tr2 @ relayed rest frag, True))))))"

text \<open>\<^verbatim>\<open>handle_ip_bypass_connection\<close>.\<close>

definition ip_bypass_connection :: "ConnEnv \<Rightarrow> ConnAction list \<times> bool" where
  "ip_bypass_connection env = (if \<not> ce_connected env then ([AEvent ConnectionAccepted, AEvent ConnectionError], False)
     else (AEvent ConnectionAccepted # AConnect # relayed (ce_client env) None, True))"

section \<open>The copy loops\<close>

text \<open>
  One turn: what \<^verbatim>\<open>read\<close> returns and whether the write that follows succeeds. The counts are numbers here: a \<^verbatim>\<open>u64\<close> overflows after more bytes than a
  connection carries. \<open>None\<close> is a loop that has not ended.
\<close>

datatype ReadResult = Received bytes | EndOfStream | ReadFailed

record CopyTurn =
  ct_read :: ReadResult
  ct_write_ok :: bool
  ct_seed :: u64

record CopyState =
  cp_written :: "flushed_write list"
  cp_total :: nat
  cp_counter :: nat
  cp_target_counter :: nat

definition counted :: "nat \<Rightarrow> flushed_write list \<Rightarrow> CopyState \<Rightarrow> CopyState" where
  "counted n ws st = (let total = cp_total st + n in
     st\<lparr>cp_written := cp_written st @ ws, cp_total := total, cp_counter := total, cp_target_counter := cp_target_counter st + n\<rparr>)"

definition u32_saturating_suc :: "nat \<Rightarrow> nat" where
  "u32_saturating_suc i = min (Suc i) (2 ^ 32 - 1)"

definition relay_write :: "TcpSegmentation option \<Rightarrow> nat \<Rightarrow> u64 \<Rightarrow> bytes \<Rightarrow> flushed_write list res option" where
  "relay_write segmentation write_index seed data = (case segmentation of Some seg \<Rightarrow> write_client_data seed data seg write_index | None \<Rightarrow> Some (Ok [(data, 0)]))"

fun copy_loop :: "TcpSegmentation option \<Rightarrow> nat \<Rightarrow> CopyState \<Rightarrow> CopyTurn list \<Rightarrow> (CopyState \<times> bool option) res option" where
  "copy_loop segmentation write_index st [] = Some (Ok (st, None))"
| "copy_loop segmentation write_index st (t # ts) = (case ct_read t of
     ReadFailed \<Rightarrow> Some (Ok (st, Some True))
   | EndOfStream \<Rightarrow> Some (Ok (st, Some False))
   | Received data \<Rightarrow> (let i = u32_saturating_suc write_index in
       case relay_write segmentation i (ct_seed t) data of None \<Rightarrow> None | Some Panic \<Rightarrow> Some Panic
       | Some (Ok ws) \<Rightarrow> if \<not> ct_write_ok t then Some (Ok (st, Some True))
           else copy_loop segmentation i (counted (length data) ws st) ts))"

definition copy_client_to_server :: "(TcpSegmentation \<times> nat) option \<Rightarrow> nat \<Rightarrow> CopyTurn list \<Rightarrow> (CopyState \<times> bool option) res option" where
  "copy_client_to_server fragmentation target_counter ts = copy_loop (map_option fst fragmentation) (case fragmentation of Some (_, i) \<Rightarrow> i | None \<Rightarrow> 0)
     \<lparr>cp_written = [], cp_total = 0, cp_counter = 0, cp_target_counter = target_counter\<rparr> ts"

definition copy_counting :: "nat \<Rightarrow> CopyTurn list \<Rightarrow> (CopyState \<times> bool option) res option" where
  "copy_counting target_counter ts = copy_client_to_server None target_counter ts"

section \<open>The end of a relay\<close>

datatype RelayEndReason = Completed | MaxLifetime | NetworkError

datatype RelayWake = Deadline | ClientDone bool | ServerDone bool

text \<open>The loop over the two copies and the deadline; a copy that is done is not polled again.\<close>

fun relay_end :: "bool \<Rightarrow> bool \<Rightarrow> RelayWake list \<Rightarrow> RelayEndReason option" where
  "relay_end c2s_done s2c_done [] = None"
| "relay_end c2s_done s2c_done (Deadline # ws) = Some MaxLifetime"
| "relay_end c2s_done s2c_done (ClientDone err # ws) = (if c2s_done then relay_end c2s_done s2c_done ws
     else if err then Some NetworkError else if s2c_done then Some Completed else relay_end True s2c_done ws)"
| "relay_end c2s_done s2c_done (ServerDone err # ws) = (if s2c_done then relay_end c2s_done s2c_done ws
     else if err then Some NetworkError else if c2s_done then Some Completed else relay_end c2s_done True ws)"

section \<open>The registry of live relays\<close>

record Registry =
  rg_generation :: u64
  rg_relays :: "(u16 \<times> u64 \<times> nat) list"

text \<open>A registration is its port, its generation and the place of its counters.\<close>

definition register_relay :: "u16 \<Rightarrow> nat \<Rightarrow> Registry \<Rightarrow> (u16 \<times> u64) \<times> Registry" where
  "register_relay port counters r = (let g = rg_generation r + 1 in
     ((port, g), r\<lparr>rg_generation := g, rg_relays := AList.update port (g, counters) (rg_relays r)\<rparr>))"

definition drop_registration :: "u16 \<times> u64 \<Rightarrow> Registry \<Rightarrow> Registry" where
  "drop_registration reg r = (case map_of (rg_relays r) (fst reg) of
     Some (g, _) \<Rightarrow> if g = snd reg then r\<lparr>rg_relays := AList.delete (fst reg) (rg_relays r)\<rparr> else r | None \<Rightarrow> r)"

definition PROGRESS_INTERVAL :: nat where "PROGRESS_INTERVAL = 500"

text \<open>\<^verbatim>\<open>sample_progress\<close>: the batch of ports with the places of their counters, and the time of the next.\<close>

definition sample_progress :: "nat \<Rightarrow> nat \<Rightarrow> Registry \<Rightarrow> (u16 \<times> nat) list option \<times> nat" where
  "sample_progress now next_progress r = (if now < next_progress then (None, next_progress)
     else (if rg_relays r = [] then None else Some (map (\<lambda>(p, _, c). (p, c)) (rg_relays r)), now + PROGRESS_INTERVAL))"

section \<open>What is forwarded\<close>

definition hello_sent :: "ConnectionSettings \<Rightarrow> bytes \<Rightarrow> bytes \<Rightarrow> bool" where
  "hello_sent s hello sent \<longleftrightarrow> sent = hello
     \<or> (\<exists>sp delay first second. cs_tls_record_split s = Some (sp, delay) \<and> split_record sp hello = Ok (Some (first, second)) \<and> sent = first @ second)"

lemma socket_hello_plan_sends:
  assumes "socket_hello_plan s env hello rest = Some (Ok (Inr (ws, rest', frag)))"
  shows "rest' = rest \<and> hello_sent s hello (concat (map fst ws))"
proof (cases "cs_tls_record_split s")
  case (Some x)
  then show ?thesis using assms write_record_split_concat
    by (cases x) (auto simp: socket_hello_plan_def planned_eq hello_sent_def split: res.splits option.splits prod.splits)
next
  case None
  show ?thesis
  proof (cases "cs_sni_boundary_frag s")
    case (Some x)
    then show ?thesis using assms None write_boundary_split_concat
      by (cases x) (auto simp: socket_hello_plan_def planned_eq hello_sent_def split: res.splits option.splits)
  next
    case b: None
    then show ?thesis using assms None write_fragmented_concat
      by (auto simp: socket_hello_plan_def planned_eq bind_planned_eq hello_sent_def split: if_splits)
  qed
qed

lemma socket_first_data_sends:
  assumes "socket_first_data s env = Some (Ok (Inr (ws, rest, frag)))"
  shows "ws = [] \<and> rest = ce_client env \<or> (\<exists>r hello. ce_client env = r @ rest \<and> apply_socket_transforms s (ce_pad_seed env) (ce_case_seed env) r = Ok hello
    \<and> hello_sent s hello (concat (map fst ws)))"
proof (cases "transforms_listed s \<or> cs_sni_boundary_frag s \<noteq> None \<or> cs_tls_record_split s \<noteq> None \<or> segment_tlshello s")
  case True
  then obtain r rest0 where r: "read_one_tls_record (ce_client env) = Inr (r, rest0)"
    using assms by (cases "read_one_tls_record (ce_client env)") (auto simp: socket_first_data_def)
  then obtain hello where h: "apply_socket_transforms s (ce_pad_seed env) (ce_case_seed env) r = Ok hello"
    using assms True by (cases "apply_socket_transforms s (ce_pad_seed env) (ce_case_seed env) r") (simp_all add: socket_first_data_def)
  then have "socket_hello_plan s env hello rest0 = Some (Ok (Inr (ws, rest, frag)))" using assms True r by (simp add: socket_first_data_def)
  from socket_hello_plan_sends [OF this] show ?thesis using h read_one_tls_record_splits(1) [OF r] by auto
next
  case False
  then show ?thesis using assms by (auto simp: socket_first_data_def planned_eq)
qed

text \<open>
  Without an interceptor the client's stream is forwarded too: a connection that comes to its relay has written upstream the change-cipher-spec
  record, when it is configured, then the client's first record as the transforms leave it, whole or in the two records of the record split, and the
  relay goes on with exactly the rest of the client's stream; or it has written nothing of the stream and the relay starts with all of it.
\<close>

theorem socket_connection_forwards_stream:
  assumes "socket_connection s env = Some (Ok (tr, True))"
  shows "\<exists>sent rest frag. upstream_bytes tr = concat (map fst (ccs_writes s)) @ sent \<and> last (butlast tr) = ARelay rest frag
    \<and> (sent = [] \<and> rest = ce_client env \<or> (\<exists>r hello. ce_client env = r @ rest
        \<and> apply_socket_transforms s (ce_pad_seed env) (ce_case_seed env) r = Ok hello \<and> hello_sent s hello sent))"
proof -
  obtain tr1 where p1: "ce_connected env" "perform (ce_write_ok env) 0 (ccs_writes s) = (tr1, True)"
    using assms by (auto simp: socket_connection_def split: if_splits prod.splits bool.splits)
  then obtain ws rest frag tr2 where d: "socket_first_data s env = Some (Ok (Inr (ws, rest, frag)))"
    "perform (ce_write_ok env) (length (ccs_writes s)) ws = (tr2, True)" "tr = AEvent ConnectionAccepted # AConnect # tr1 @ tr2 @ relayed rest frag"
    using assms by (auto simp: socket_connection_def split: option.splits res.splits sum.splits prod.splits bool.splits)
  have tr: "tr1 = writes_of (ccs_writes s)" "tr2 = writes_of ws" using perform_prefix [OF p1(2)] perform_prefix [OF d(2)] by auto
  have "upstream_bytes tr = concat (map fst (ccs_writes s)) @ concat (map fst ws)" using d(3) tr by (simp add: relayed_def)
  moreover have "last (butlast tr) = ARelay rest frag" using d(3) by (simp add: relayed_def butlast_append)
  moreover have "concat (map fst ws) = [] \<and> rest = ce_client env \<or> (\<exists>r hello. ce_client env = r @ rest
        \<and> apply_socket_transforms s (ce_pad_seed env) (ce_case_seed env) r = Ok hello \<and> hello_sent s hello (concat (map fst ws)))"
    using socket_first_data_sends [OF d(1)] by auto
  ultimately show ?thesis by blast
qed

definition socket_settings :: ConnectionSettings where
  "socket_settings = sample_settings\<lparr>cs_tls_record_split := None\<rparr>"

lemma sample_socket_connection:
  "socket_connection sample_settings sample_env = Some (Ok ([AEvent ConnectionAccepted, AConnect, AWrite [0x14, 3, 1, 0, 1, 1] 0,
     AWrite [0x17, 3, 1, 0, 1, 9] 0] @ relayed [8] (Some (cs_tcp_segmentation sample_settings, 1)), True))"
  by code_simp

theorem socket_connection_forwards_stream_witness:
  "\<exists>sent rest. sent = [] \<and> rest = ce_client sample_env \<or> (\<exists>r hello. ce_client sample_env = r @ rest
        \<and> apply_socket_transforms sample_settings (ce_pad_seed sample_env) (ce_case_seed sample_env) r = Ok hello \<and> hello_sent sample_settings hello sent)"
  using socket_connection_forwards_stream [OF sample_socket_connection] by blast

text \<open>
  A transformed ClientHello escapes fragmentation: when \<^verbatim>\<open>tls_padding\<close> or \<^verbatim>\<open>mixed_case_sni\<close> is listed beside \<^verbatim>\<open>tls_frag\<close> with a range of
  writes, and no method splits the first record, the handler without an interceptor writes the whole transformed first record as one write, whatever
  the range, and the relay then counts the client's second write as its first.
\<close>

theorem transformed_hello_not_fragmented:
  assumes "transforms_listed s" "cs_sni_boundary_frag s = None" "cs_tls_record_split s = None" "cs_segment_first_client_hello s"
    "sg_packets (cs_tcp_segmentation s) = WriteRange lo hi" "ce_connected env" "\<forall>n. ce_write_ok env n"
    "read_one_tls_record (ce_client env) = Inr (r, rest)" "apply_socket_transforms s (ce_pad_seed env) (ce_case_seed env) r = Ok hello"
  shows "socket_connection s env = Some (Ok (AEvent ConnectionAccepted # AConnect # writes_of (ccs_writes s) @ [AWrite hello 0]
    @ relayed rest (Some (cs_tcp_segmentation s, 0)), True))"
proof -
  have all: "perform (ce_write_ok env) n ws = (writes_of ws, True)" for n ws
    using assms(7) by (induction ws arbitrary: n) (auto simp: writes_of_def)
  have "socket_first_data s env = Some (Ok (Inr ([(hello, 0)], rest, Some (cs_tcp_segmentation s, 0))))"
    using assms by (simp add: socket_first_data_def socket_hello_plan_def segment_tlshello_def relay_fragmentation_def planned_def)
  then show ?thesis using assms(6) all by (simp add: socket_connection_def writes_of_def)
qed

definition padded_settings :: ConnectionSettings where
  "padded_settings = socket_settings\<lparr>cs_ccs_prefix := None, cs_mixed_case_sni := Some True,
     cs_tcp_segmentation := \<lparr>sg_packets = WriteRange 1 3, sg_length = exact 2, sg_interval_ms = exact 0, sg_nodelay = False\<rparr>\<rparr>"

theorem transformed_hello_not_fragmented_witness:
  "socket_connection padded_settings sample_env = Some (Ok ([AEvent ConnectionAccepted, AConnect, AWrite [0x17, 3, 1, 0, 1, 9] 0]
     @ relayed [8] (Some (cs_tcp_segmentation padded_settings, 0)), True))"
proof -
  have h: "apply_socket_transforms padded_settings (ce_pad_seed sample_env) (ce_case_seed sample_env) [0x17, 3, 1, 0, 1, 9] = Ok [0x17, 3, 1, 0, 1, 9]" by code_simp
  have r: "read_one_tls_record (ce_client sample_env) = Inr ([0x17, 3, 1, 0, 1, 9], [8])" by code_simp
  show ?thesis using transformed_hello_not_fragmented [OF _ _ _ _ _ _ _ r h]
    by (simp add: padded_settings_def socket_settings_def sample_settings_def sample_env_def transforms_listed_def ccs_writes_def writes_of_def)
qed

section \<open>What is copied\<close>

definition received :: "CopyTurn list \<Rightarrow> bytes list" where
  "received ts = map (\<lambda>t. case ct_read t of Received d \<Rightarrow> d | _ \<Rightarrow> [])
     (takeWhile (\<lambda>t. (case ct_read t of Received _ \<Rightarrow> True | _ \<Rightarrow> False) \<and> ct_write_ok t) ts)"

lemma relay_write_concat: "relay_write g i seed d = Some (Ok ws) \<Longrightarrow> concat (map fst ws) = d"
  using write_client_data_concat by (auto simp: relay_write_def split: option.splits)

lemma copy_loop_copies:
  assumes "copy_loop g i st ts = Some (Ok (st', r))" "cp_counter st = cp_total st"
  shows "concat (map fst (cp_written st')) = concat (map fst (cp_written st)) @ concat (received ts)
    \<and> cp_total st' = cp_total st + length (concat (received ts)) \<and> cp_counter st' = cp_total st'
    \<and> cp_target_counter st' = cp_target_counter st + length (concat (received ts))"
  using assms
proof (induction g i st ts rule: copy_loop.induct)
  case (2 g i st t ts)
  show ?case
  proof (cases "ct_read t")
    case (Received d)
    obtain ws where w: "relay_write g (u32_saturating_suc i) (ct_seed t) d = Some (Ok ws)"
      using "2.prems"(1) Received by (auto simp: Let_def split: option.splits res.splits)
    show ?thesis
    proof (cases "ct_write_ok t")
      case True
      have "copy_loop g (u32_saturating_suc i) (counted (length d) ws st) ts = Some (Ok (st', r))"
        using "2.prems"(1) Received w True by (simp add: Let_def)
      from "2.IH" [OF Received refl w refl _ this] show ?thesis
        using True Received relay_write_concat [OF w] by (simp add: counted_def Let_def received_def)
    next
      case False
      then show ?thesis using "2.prems" Received w by (auto simp: Let_def received_def)
    qed
  qed (use "2.prems" in \<open>auto simp: received_def\<close>)
qed (simp add: received_def)

text \<open>
  The relay copies faithfully: whatever arrives and however the client's writes are fragmented, what one direction has written is, in order,
  exactly what it has read and written successfully, and its counter, the counter of the connection and what it added to the counter of the target
  are the number of those bytes.
\<close>

theorem relay_copies_stream:
  assumes "copy_client_to_server fragmentation target_counter ts = Some (Ok (st, r))"
  shows "concat (map fst (cp_written st)) = concat (received ts) \<and> cp_total st = length (concat (received ts)) \<and> cp_counter st = cp_total st
    \<and> cp_target_counter st = target_counter + cp_total st"
  using copy_loop_copies [of _ _ _ ts st r] assms by (fastforce simp: copy_client_to_server_def)

theorem relay_copies_stream_witness:
  "\<exists>st. copy_client_to_server None 7 [\<lparr>ct_read = Received [1, 2], ct_write_ok = True, ct_seed = 0\<rparr>, \<lparr>ct_read = EndOfStream, ct_write_ok = True, ct_seed = 0\<rparr>]
     = Some (Ok (st, Some False)) \<and> cp_target_counter st = 9"
proof -
  obtain st where st: "copy_client_to_server None 7 [\<lparr>ct_read = Received [1, 2], ct_write_ok = True, ct_seed = 0\<rparr>, \<lparr>ct_read = EndOfStream, ct_write_ok = True, ct_seed = 0\<rparr>]
     = Some (Ok (st, Some False))" by (simp add: copy_client_to_server_def relay_write_def)
  from relay_copies_stream [OF this] show ?thesis using st by (simp add: received_def)
qed

text \<open>A relay is complete only when both directions have ended without an error.\<close>

lemma relay_completed: "relay_end c s ws = Some Completed \<Longrightarrow> (c \<or> ClientDone False \<in> set ws) \<and> (s \<or> ServerDone False \<in> set ws)"
  by (induction c s ws rule: relay_end.induct) (auto split: if_splits)


section \<open>The registry shows the live relays\<close>

text \<open>
  Runs of the registry with the registrations that are held and the newest one of each port. A registration is dropped when its relay ends or is
  cancelled. The generation does not wrap within a run.
\<close>

inductive registry_run :: "Registry \<Rightarrow> (u16 \<times> u64) set \<Rightarrow> (u16 \<rightharpoonup> u64) \<Rightarrow> bool" where
  start: "registry_run \<lparr>rg_generation = 0, rg_relays = []\<rparr> {} Map.empty"
| register: "registry_run r held newest \<Longrightarrow> rg_generation r + 1 \<noteq> 0 \<Longrightarrow> register_relay port counters r = (reg, r') \<Longrightarrow>
    registry_run r' (insert reg held) (newest(port \<mapsto> snd reg))"
| dropped: "registry_run r held newest \<Longrightarrow> reg \<in> held \<Longrightarrow> registry_run (drop_registration reg r) (held - {reg}) newest"

definition registry_ok :: "Registry \<Rightarrow> (u16 \<times> u64) set \<Rightarrow> (u16 \<rightharpoonup> u64) \<Rightarrow> bool" where
  "registry_ok r held newest \<longleftrightarrow> (\<forall>(p, g) \<in> held. g \<le> rg_generation r) \<and> (\<forall>p g. newest p = Some g \<longrightarrow> g \<le> rg_generation r)
     \<and> (\<forall>p g. map_option fst (map_of (rg_relays r) p) = Some g \<longleftrightarrow> newest p = Some g \<and> (p, g) \<in> held)"

lemma option_same: "(\<And>g. a = Some g \<longleftrightarrow> b = Some g) \<Longrightarrow> a = b"
  by (cases a) (auto, metis option.exhaust)

lemma word_less_suc: "x + 1 \<noteq> 0 \<Longrightarrow> (x :: 'a :: len word) < x + 1"
  by (metis add_neg_numeral_special(8) inc_less_eq_self_iff_eq not_le)

lemma registry_run_ok: "registry_run r held newest \<Longrightarrow> registry_ok r held newest"
proof (induction rule: registry_run.induct)
  case (register r held newest port counters reg r')
  let ?g = "rg_generation r + 1"
  have r': "reg = (port, ?g)" "rg_generation r' = ?g" "rg_relays r' = AList.update port (?g, counters) (rg_relays r)"
    using register.hyps(3) by (auto simp: register_relay_def Let_def)
  have less: "rg_generation r < ?g" by (rule word_less_suc [OF register.hyps(2)])
  have old: "\<And>p g. (p, g) \<in> held \<Longrightarrow> g \<le> rg_generation r" "\<And>p g. newest p = Some g \<Longrightarrow> g \<le> rg_generation r"
      "\<And>p g. map_option fst (map_of (rg_relays r) p) = Some g \<longleftrightarrow> newest p = Some g \<and> (p, g) \<in> held"
    using register.IH by (auto simp: registry_ok_def)
  have "g \<le> ?g" if "(p, g) \<in> held \<or> newest p = Some g" for p g using that old(1, 2) less by (meson order.trans less_imp_le)
  moreover have "(p, ?g) \<notin> held" for p using old(1) less by fastforce
  ultimately show ?case using old(3) by (auto simp: registry_ok_def r' update_conv')
next
  case (dropped r held newest reg)
  obtain p g where reg: "reg = (p, g)" by fastforce
  have old: "\<And>q h. map_option fst (map_of (rg_relays r) q) = Some h \<longleftrightarrow> newest q = Some h \<and> (q, h) \<in> held"
    using dropped.IH by (auto simp: registry_ok_def)
  have gen: "rg_generation (drop_registration reg r) = rg_generation r" by (simp add: drop_registration_def split: option.splits)
  have "map_option fst (map_of (rg_relays (drop_registration reg r)) q) = Some h \<longleftrightarrow> newest q = Some h \<and> (q, h) \<in> held - {reg}" for q h
  proof (cases "map_option fst (map_of (rg_relays r) p) = Some g")
    case True
    then have "map_of (rg_relays (drop_registration reg r)) = (map_of (rg_relays r))(p := None)"
      by (auto simp: drop_registration_def reg AList.delete_conv')
    then show ?thesis using old [of q h] old [of p g] True by (auto simp: reg)
  next
    case False
    then have "drop_registration reg r = r" by (auto simp: drop_registration_def reg split: option.splits)
    then show ?thesis using old [of q h] False by (auto simp: reg)
  qed
  then show ?case using dropped.IH by (auto simp: registry_ok_def gen)
qed (simp add: registry_ok_def)

text \<open>
  Progress is sampled from the live relays: over every interleaving of relays that start, end or are cancelled, also on the same port, the registry
  holds a relay for a port exactly when the newest relay of that port is still running, and then that one; the end of an older relay does not remove it.
\<close>

theorem registry_shows_newest_live:
  assumes "registry_run r held newest"
  shows "map_option fst (map_of (rg_relays r) port) = (case newest port of Some g \<Rightarrow> if (port, g) \<in> held then Some g else None | None \<Rightarrow> None)"
proof -
  have "\<And>g. map_option fst (map_of (rg_relays r) port) = Some g \<longleftrightarrow> newest port = Some g \<and> (port, g) \<in> held"
    using registry_run_ok [OF assms] by (simp add: registry_ok_def)
  then have "map_option fst (map_of (rg_relays r) port) = Some g \<longleftrightarrow> (case newest port of Some g \<Rightarrow> if (port, g) \<in> held then Some g else None | None \<Rightarrow> None) = Some g" for g
    by (cases "newest port") auto
  then show ?thesis by (rule option_same)
qed

theorem registry_shows_newest_live_witness:
  "map_option fst (map_of (rg_relays (drop_registration (80, 1) (snd (register_relay 80 1 (snd (register_relay 80 0 \<lparr>rg_generation = 0, rg_relays = []\<rparr>)))))) 80) = Some 2"
proof -
  let ?r1 = "snd (register_relay 80 0 \<lparr>rg_generation = 0, rg_relays = []\<rparr>)" and ?r2 = "snd (register_relay 80 1 (snd (register_relay 80 0 \<lparr>rg_generation = 0, rg_relays = []\<rparr>)))"
  have a: "register_relay 80 0 \<lparr>rg_generation = 0, rg_relays = []\<rparr> = ((80, 1), ?r1)" by (simp add: register_relay_def)
  have b: "register_relay 80 1 ?r1 = ((80, 2), ?r2)" by (simp add: register_relay_def)
  have "registry_run ?r1 {(80, 1)} [80 \<mapsto> 1]" using registry_run.register [OF registry_run.start _ a] by simp
  then have "registry_run ?r2 {(80, 2), (80, 1)} [80 \<mapsto> 2]" using registry_run.register [OF _ _ b] by (fastforce simp: register_relay_def)
  then have "registry_run (drop_registration (80, 1) ?r2) {(80, 2)} [80 \<mapsto> 2]" using registry_run.dropped [of ?r2 _ _ "(80, 1)"] by (fastforce simp: insert_Diff_if)
  from registry_shows_newest_live [OF this, of 80] show ?thesis by simp
qed


end
