(* ===== verification/Dashboard.thy ===== *)
theory Dashboard
  imports Reload Relay "HOL-Library.Product_Lexorder" "HOL-Library.Multiset"
begin

text \<open>
  The live dashboard (\<^verbatim>\<open>tui.rs\<close>, \<^verbatim>\<open>tui/targets.rs\<close>): its state, what every event of the proxy does to it, the order of the rows and one turn of its
  loop. Instants are numbers of milliseconds. Left out are the drawing, the wall-clock times and the transfer rates, floating-point numbers that are
  only drawn. The counters are numbers: a \<^verbatim>\<open>u64\<close> is never reached by counting connections or bytes.
\<close>

section \<open>State\<close>

definition MAX_RECORDS :: nat where "MAX_RECORDS = 200"

definition NON_RELAYING_TOP_GRACE :: nat where "NON_RELAYING_TOP_GRACE = 4000"

definition SAMPLE_INTERVAL :: nat where "SAMPLE_INTERVAL = 500"

datatype ConnStatus = Connecting | Relaying | Done | Rotated | Failed

datatype FilterStatus = FilterAll | FilterActive | FilterDone | FilterFailed

fun filter_next :: "FilterStatus \<Rightarrow> FilterStatus" where
  "filter_next FilterAll = FilterActive"
| "filter_next FilterActive = FilterDone"
| "filter_next FilterDone = FilterFailed"
| "filter_next FilterFailed = FilterAll"

fun filter_matches :: "FilterStatus \<Rightarrow> ConnStatus \<Rightarrow> bool" where
  "filter_matches FilterAll s = True"
| "filter_matches FilterActive s = (s \<in> {Connecting, Relaying})"
| "filter_matches FilterDone s = (s \<in> {Done, Rotated})"
| "filter_matches FilterFailed s = (s = Failed)"

record ConnectionRecord =
  cr_start :: nat
  cr_end :: "nat option"
  cr_port :: u16
  cr_peer :: string
  cr_target_ip :: IpAddr
  cr_target_sni :: "string option"
  cr_status :: ConnStatus
  cr_changed :: nat
  cr_c2s :: nat
  cr_s2c :: nat
  cr_snapshot :: "(nat \<times> nat \<times> nat) option"

definition is_active :: "ConnectionRecord \<Rightarrow> bool" where
  "is_active r = (cr_status r \<in> {Connecting, Relaying})"

definition set_status :: "ConnStatus \<Rightarrow> nat \<Rightarrow> ConnectionRecord \<Rightarrow> ConnectionRecord" where
  "set_status s now r = (if cr_status r \<noteq> s then r\<lparr>cr_status := s, cr_changed := now\<rparr> else r)"

definition connection_display_rank :: "nat \<Rightarrow> ConnectionRecord \<Rightarrow> nat" where
  "connection_display_rank now r = (if cr_status r = Relaying then 0 else if now - cr_changed r < NON_RELAYING_TOP_GRACE then 1 else 2)"

definition ordered_connection_records :: "FilterStatus \<Rightarrow> nat \<Rightarrow> ConnectionRecord list \<Rightarrow> ConnectionRecord list" where
  "ordered_connection_records f now rs = map snd (sort_key (\<lambda>(idx, r). (connection_display_rank now r, idx))
     (filter (\<lambda>(_, r). filter_matches f (cr_status r)) (enumerate 0 rs)))"

text \<open>\<^verbatim>\<open>rposition\<close> of an inactive record, and its removal; \<open>None\<close> when every record is active.\<close>

fun drop_last_inactive :: "ConnectionRecord list \<Rightarrow> ConnectionRecord list option" where
  "drop_last_inactive [] = None"
| "drop_last_inactive (r # rs) = (case drop_last_inactive rs of Some rs' \<Rightarrow> Some (r # rs')
     | None \<Rightarrow> if is_active r then None else Some rs)"

lemma drop_last_inactive_length: "drop_last_inactive rs = Some rs' \<Longrightarrow> length rs = Suc (length rs')"
  by (induction rs arbitrary: rs') (auto split: option.splits if_splits)

function prune_connection_records :: "ConnectionRecord list \<Rightarrow> ConnectionRecord list" where
  "prune_connection_records rs = (if length rs \<le> MAX_RECORDS then rs
     else (case drop_last_inactive rs of None \<Rightarrow> rs | Some rs' \<Rightarrow> prune_connection_records rs'))"
  by pat_completeness auto
termination by (relation "measure length") (auto dest: drop_last_inactive_length)

declare prune_connection_records.simps [simp del]

text \<open>\<^verbatim>\<open>TargetsState\<close>: the sampled rows of the pool, without the rates.\<close>

record TargetsState =
  tv_strategy :: SelectionStrategy
  tv_rows :: "TargetSnapshot list"
  tv_offset :: nat
  tv_sampled :: "nat option"

datatype DashboardView = Connections | Targets

record DashboardState =
  ds_reload :: "string option"
  ds_view :: DashboardView
  ds_targets :: TargetsState
  ds_pool :: "(nat \<times> SelectionStrategy) option"
  ds_records :: "ConnectionRecord list"
  ds_total :: nat
  ds_ok :: nat
  ds_failed :: nat
  ds_active :: nat
  ds_c2s :: nat
  ds_s2c :: nat
  ds_offset :: nat
  ds_auto_scroll :: bool
  ds_filter :: FilterStatus
  ds_active_sni :: "(string \<times> ipv4 \<times> u8) option"
  ds_active_ip :: "IpAddr option"
  ds_low_ttl :: "u8 option"
  ds_rescan_running :: bool
  ds_next_rescan :: "nat option"
  ds_peak :: nat
  ds_switches :: nat
  ds_last_switch :: "nat option"
  ds_rescans :: nat
  ds_last_rescan :: "(nat \<times> u8 option \<times> nat \<times> bool) option"
  ds_rescan_started :: "nat option"
  ds_last_error :: "(u16 \<times> string) option"
  ds_network :: "string option"
  ds_active_ip_score :: "u8 option"
  ds_listener :: "(string \<times> string) option"
  ds_closed :: bool

section \<open>Events\<close>

text \<open>\<^verbatim>\<open>ProxyEvent\<close> with its fields; the kind of a rescan is not used by the dashboard.\<close>

datatype NetworkText = NetOnline string | NetChanging string | NetRecovering string | NetUnavailable string

datatype DashEvent = EvTargetPool nat SelectionStrategy | EvListener string string
  | EvAccepted u16 string IpAddr "string option"
  | EvBypass u16 BypassOutcome
  | EvFinished u16 nat nat RelayEndReason
  | EvProgress u16 nat nat
  | EvProgressBatch nat "(u16 \<times> nat \<times> nat) list"
  | EvError u16 string
  | EvNetwork NetworkText
  | EvSni string ipv4 u8 | EvIp IpAddr u8 | EvLowTtl u8
  | EvNextRescan nat | EvRescanStarted | EvRescanFinished nat "u8 option" nat bool

text \<open>\<^verbatim>\<open>find_record\<close> and the change of what it found: the first record of the port.\<close>

fun at_record :: "u16 \<Rightarrow> (ConnectionRecord \<Rightarrow> ConnectionRecord) \<Rightarrow> ConnectionRecord list \<Rightarrow> ConnectionRecord list" where
  "at_record p f [] = []"
| "at_record p f (r # rs) = (if cr_port r = p then f r # rs else r # at_record p f rs)"

definition apply_relay_progress :: "nat \<times> nat \<Rightarrow> nat \<Rightarrow> ConnectionRecord \<Rightarrow> ConnectionRecord" where
  "apply_relay_progress bytes sampled_at r = (if cr_status r \<noteq> Relaying then r
     else if (case cr_snapshot r of Some (previous, _) \<Rightarrow> sampled_at \<le> previous | None \<Rightarrow> False) then r
     else r\<lparr>cr_c2s := fst bytes, cr_s2c := snd bytes, cr_snapshot := Some (sampled_at, fst bytes, snd bytes)\<rparr>)"

text \<open>The batch: each port once, at its newest relaying record. A map that is built from a list keeps the last entry of a key.\<close>

fun apply_batch :: "nat \<Rightarrow> (u16 \<rightharpoonup> nat \<times> nat) \<Rightarrow> ConnectionRecord list \<Rightarrow> ConnectionRecord list" where
  "apply_batch sampled_at m [] = []"
| "apply_batch sampled_at m (r # rs) = (case (if cr_status r = Relaying then m (cr_port r) else None) of
     None \<Rightarrow> r # apply_batch sampled_at m rs
   | Some bytes \<Rightarrow> apply_relay_progress bytes sampled_at r # apply_batch sampled_at (m(cr_port r := None)) rs)"

definition new_record :: "nat \<Rightarrow> u16 \<Rightarrow> string \<Rightarrow> IpAddr \<Rightarrow> string option \<Rightarrow> ConnectionRecord" where
  "new_record now p peer ip sni = \<lparr>cr_start = now, cr_end = None, cr_port = p, cr_peer = peer, cr_target_ip = ip, cr_target_sni = sni,
     cr_status = Connecting, cr_changed = now, cr_c2s = 0, cr_s2c = 0, cr_snapshot = None\<rparr>"

definition ended :: "ConnStatus \<Rightarrow> nat \<Rightarrow> ConnectionRecord \<Rightarrow> ConnectionRecord" where
  "ended s now r = (set_status s now r)\<lparr>cr_end := Some now\<rparr>"

fun end_status :: "RelayEndReason \<Rightarrow> ConnStatus" where
  "end_status Completed = Done"
| "end_status MaxLifetime = Rotated"
| "end_status NetworkError = Failed"

fun network_text :: "NetworkText \<Rightarrow> string" where
  "network_text (NetOnline ip) = ip"
| "network_text (NetChanging ip) = ''changing to '' @ ip"
| "network_text (NetRecovering attempt) = ''recovering (attempt '' @ attempt @ '')''"
| "network_text (NetUnavailable msg) = ''unavailable ('' @ msg @ '')''"

definition switched_at :: "nat \<Rightarrow> bool \<Rightarrow> DashboardState \<Rightarrow> DashboardState" where
  "switched_at now changed st = (if changed then st\<lparr>ds_switches := ds_switches st + 1, ds_last_switch := Some now\<rparr> else st)"

fun event_effect :: "nat \<Rightarrow> DashEvent \<Rightarrow> DashboardState \<Rightarrow> DashboardState" where
  "event_effect now (EvTargetPool n strategy) st = st\<lparr>ds_pool := Some (n, strategy)\<rparr>"
| "event_effect now (EvListener mode addr) st = st\<lparr>ds_listener := Some (mode, addr)\<rparr>"
| "event_effect now (EvAccepted p peer ip sni) st = st\<lparr>ds_total := ds_total st + 1, ds_active := ds_active st + 1,
     ds_peak := max (ds_peak st) (ds_active st + 1), ds_records := new_record now p peer ip sni # ds_records st\<rparr>"
| "event_effect now (EvBypass p FakeDataAcked) st = st\<lparr>ds_ok := ds_ok st + 1, ds_records := at_record p (set_status Relaying now) (ds_records st)\<rparr>"
| "event_effect now (EvBypass p UnexpectedClose) st = st\<lparr>ds_failed := ds_failed st + 1, ds_active := ds_active st - 1,
     ds_records := at_record p (ended Failed now) (ds_records st)\<rparr>"
| "event_effect now (EvFinished p c2s s2c reason) st = st\<lparr>ds_active := ds_active st - 1, ds_c2s := ds_c2s st + c2s, ds_s2c := ds_s2c st + s2c,
     ds_records := at_record p (\<lambda>r. (ended (end_status reason) now r)\<lparr>cr_c2s := c2s, cr_s2c := s2c\<rparr>) (ds_records st)\<rparr>"
| "event_effect now (EvProgress p c2s s2c) st = st\<lparr>ds_records := at_record p (apply_relay_progress (c2s, s2c) now) (ds_records st)\<rparr>"
| "event_effect now (EvProgressBatch sampled_at entries) st = st\<lparr>ds_records := apply_batch sampled_at (map_of (rev entries)) (ds_records st)\<rparr>"
| "event_effect now (EvError p msg) st = st\<lparr>ds_last_error := Some (p, msg), ds_failed := ds_failed st + 1, ds_active := ds_active st - 1,
     ds_records := at_record p (ended Failed now) (ds_records st)\<rparr>"
| "event_effect now (EvNetwork t) st = st\<lparr>ds_network := Some (network_text t)\<rparr>"
| "event_effect now (EvSni sni ip score) st = switched_at now (map_option (\<lambda>(s, i, _). (s, i)) (ds_active_sni st) \<noteq> Some (sni, ip))
     (st\<lparr>ds_active_sni := Some (sni, ip, score)\<rparr>)"
| "event_effect now (EvIp ip score) st = switched_at now (ds_active_ip st \<noteq> Some ip) (st\<lparr>ds_active_ip := Some ip, ds_active_ip_score := Some score\<rparr>)"
| "event_effect now (EvLowTtl v) st = st\<lparr>ds_low_ttl := Some v\<rparr>"
| "event_effect now (EvNextRescan secs) st = st\<lparr>ds_next_rescan := Some (now + 1000 * secs)\<rparr>"
| "event_effect now EvRescanStarted st = st\<lparr>ds_rescan_running := True, ds_rescan_started := Some now\<rparr>"
| "event_effect now (EvRescanFinished found best ms switched) st = st\<lparr>ds_rescan_running := False, ds_rescan_started := None,
     ds_rescans := ds_rescans st + 1, ds_last_rescan := Some (found, best, ms, switched)\<rparr>"

definition apply_event :: "nat \<Rightarrow> DashEvent \<Rightarrow> DashboardState \<Rightarrow> DashboardState" where
  "apply_event now e st = (let st' = event_effect now e st in st'\<lparr>ds_records := prune_connection_records (ds_records st')\<rparr>)"

definition live_transfer_totals :: "DashboardState \<Rightarrow> nat \<times> nat" where
  "live_transfer_totals st = (let live = filter (\<lambda>r. cr_end r = None) (ds_records st) in
     (ds_c2s st + sum_list (map cr_c2s live), ds_s2c st + sum_list (map cr_s2c live)))"

section \<open>Keys and the loop\<close>

datatype KeyCode = KChar char | KUp | KDown | KPageUp | KPageDown | KHome | KEnd | KTab | KEsc | KOther

definition key_in :: "string \<Rightarrow> KeyCode \<Rightarrow> bool" where
  "key_in cs k = (\<exists>c \<in> set cs. k = KChar c)"

definition moved_offset :: "KeyCode \<Rightarrow> nat \<Rightarrow> nat \<Rightarrow> nat \<Rightarrow> nat" where
  "moved_offset k len page offset = (
     if k = KUp \<or> key_in ''k'' k then offset - 1
     else if k = KDown \<or> key_in ''j'' k then min (offset + 1) (len - 1)
     else if k = KPageUp then offset - page
     else if k = KPageDown then min (offset + page) (len - 1)
     else if k = KHome then 0
     else if k = KEnd then len - 1
     else offset)"

definition handle_dashboard_navigation :: "KeyCode \<Rightarrow> nat \<Rightarrow> nat \<Rightarrow> DashboardState \<Rightarrow> DashboardState" where
  "handle_dashboard_navigation k len page st = (
     if key_in ''vV'' k then st\<lparr>ds_view := (case ds_view st of Connections \<Rightarrow> Targets | Targets \<Rightarrow> Connections)\<rparr>
     else if k = KTab then (if ds_view st = Connections then st\<lparr>ds_filter := filter_next (ds_filter st), ds_offset := 0\<rparr> else st)
     else if key_in '' a'' k then (if ds_view st = Connections
       then (let auto = \<not> ds_auto_scroll st in st\<lparr>ds_auto_scroll := auto, ds_offset := (if auto then 0 else ds_offset st)\<rparr>) else st)
     else if \<not> (k \<in> {KUp, KDown, KPageUp, KPageDown, KHome, KEnd} \<or> key_in ''jk'' k) then st
     else (case ds_view st of
       Connections \<Rightarrow> st\<lparr>ds_auto_scroll := ds_auto_scroll st \<and> k = KHome, ds_offset := moved_offset k len page (ds_offset st)\<rparr>
     | Targets \<Rightarrow> st\<lparr>ds_targets := (ds_targets st)\<lparr>tv_offset := moved_offset k len page (tv_offset (ds_targets st))\<rparr>\<rparr>))"

text \<open>\<^verbatim>\<open>handle_reload_key\<close>; the candidate is the answer of the session for the configuration given.\<close>

definition handle_reload_key :: "(Config option \<Rightarrow> string + Config option) \<Rightarrow> Config \<Rightarrow> bool \<Rightarrow> DashboardState \<Rightarrow> DashboardState \<times> Config option" where
  "handle_reload_key candidate cfg scan_busy st = (
     if ds_rescan_running st \<or> scan_busy then (st\<lparr>ds_reload := Some ''Config reload busy: wait for the current scan''\<rparr>, None)
     else (case candidate (if ds_closed st then None else Some cfg) of
       Inr (Some next) \<Rightarrow> (st\<lparr>ds_reload := Some ''Reloading config; closing current connections...''\<rparr>, Some next)
     | Inr None \<Rightarrow> (st\<lparr>ds_reload := Some ''Config unchanged''\<rparr>, None)
     | Inl error \<Rightarrow> (st\<lparr>ds_reload := Some (''Config reload failed: '' @ error)\<rparr>, None)))"

definition targets_update :: "SelectionStrategy \<Rightarrow> TargetSnapshot list \<Rightarrow> nat \<Rightarrow> TargetsState \<Rightarrow> TargetsState" where
  "targets_update strategy rows now t = t\<lparr>tv_strategy := strategy, tv_rows := rows, tv_offset := min (tv_offset t) (length rows - 1), tv_sampled := Some now\<rparr>"

definition targets_refresh :: "SelectionStrategy \<Rightarrow> TargetSnapshot list \<Rightarrow> nat \<Rightarrow> TargetsState \<Rightarrow> TargetsState \<times> bool" where
  "targets_refresh strategy rows now t = (if (case tv_sampled t of Some s \<Rightarrow> now - s < SAMPLE_INTERVAL | None \<Rightarrow> False) then (t, False)
     else (targets_update strategy rows now t, True))"

datatype DashboardExit = ExitQuit | ExitReload Config

text \<open>
  What one turn of the loop receives: the events that are waiting with their times, whether the channel is closed behind them, the error of a selection
  screen, the time and the pool at the sample, the page, the pressed key with its control modifier, and the answers to the key: whether the request for
  a rescan is taken, whether a scan holds the lock, and the candidate configuration.
\<close>

record DashTurn =
  dt_events :: "(nat \<times> DashEvent) list"
  dt_disconnected :: bool
  dt_selection_error :: "string option"
  dt_now :: nat
  dt_strategy :: SelectionStrategy
  dt_pool :: PoolState
  dt_page :: nat
  dt_key :: "(KeyCode \<times> bool) option"
  dt_request_taken :: bool
  dt_scan_busy :: bool
  dt_candidate :: "Config option \<Rightarrow> string + Config option"

definition drain_events :: "DashTurn \<Rightarrow> DashboardState \<Rightarrow> DashboardState \<times> bool" where
  "drain_events t st = (if ds_closed st then (st, False)
     else ((fold (\<lambda>(now, e). apply_event now e) (dt_events t) st)\<lparr>ds_closed := dt_disconnected t\<rparr>, dt_events t \<noteq> []))"

definition refresh_targets :: "Config \<Rightarrow> DashTurn \<Rightarrow> DashboardState \<Rightarrow> DashboardState" where
  "refresh_targets cfg t st = (case targets_refresh (dt_strategy t) (pool_snapshot (dt_pool t)) (dt_now t) (ds_targets st) of
     (tv, sampled) \<Rightarrow> let st = st\<lparr>ds_targets := tv\<rparr> in
       if sampled \<and> LOAD_BALANCE_ENABLED cfg
       then st\<lparr>ds_pool := Some (length (filter (\<lambda>r. ts_rank r \<noteq> None) (tv_rows tv)), tv_strategy tv)\<rparr> else st)"

definition filtered_len :: "DashboardState \<Rightarrow> nat" where
  "filtered_len st = (case ds_view st of
     Connections \<Rightarrow> length (filter (\<lambda>r. filter_matches (ds_filter st) (cr_status r)) (ds_records st))
   | Targets \<Rightarrow> length (tv_rows (ds_targets st)))"

definition handle_key :: "Config \<Rightarrow> DashTurn \<Rightarrow> KeyCode \<Rightarrow> bool \<Rightarrow> DashboardState \<Rightarrow> DashboardState \<times> DashboardExit option" where
  "handle_key cfg t k control st = (
     if key_in ''lL'' k then (case handle_reload_key (dt_candidate t) cfg (dt_scan_busy t) st of (st', next) \<Rightarrow> (st', map_option ExitReload next))
     else if key_in ''rR'' k \<and> \<not> ds_rescan_running st \<and> \<not> ds_closed st
     then (if dt_request_taken t then st\<lparr>ds_rescan_running := True, ds_rescan_started := Some (dt_now t)\<rparr> else st, None)
     else if key_in ''qQ'' k \<or> k = KEsc \<or> key_in ''c'' k \<and> control then (st, Some ExitQuit)
     else (handle_dashboard_navigation k (filtered_len st) (max 1 (dt_page t)) st, None))"

definition dashboard_turn :: "Config \<Rightarrow> DashTurn \<Rightarrow> DashboardState \<Rightarrow> DashboardState \<times> DashboardExit option" where
  "dashboard_turn cfg t st = (case drain_events t st of
     (st, got_event) \<Rightarrow> let
       st = (case dt_selection_error t of Some e \<Rightarrow> st\<lparr>ds_last_error := Some (0, ''rescan selection: '' @ e)\<rparr> | None \<Rightarrow> st);
       st = (if ds_view st = Connections \<and> ds_auto_scroll st \<and> got_event then st\<lparr>ds_offset := 0\<rparr> else st);
       st = refresh_targets cfg t st in
     (case dt_key t of None \<Rightarrow> (st, None) | Some (k, control) \<Rightarrow> handle_key cfg t k control st))"

definition new_dashboard :: "string option \<Rightarrow> (string \<times> ipv4 \<times> u8) option \<Rightarrow> IpAddr option \<Rightarrow> DashboardState" where
  "new_dashboard notice sni ip = \<lparr>ds_reload = notice, ds_view = Connections, ds_targets = \<lparr>tv_strategy = RoundRobin, tv_rows = [], tv_offset = 0, tv_sampled = None\<rparr>,
     ds_pool = None, ds_records = [], ds_total = 0, ds_ok = 0, ds_failed = 0, ds_active = 0, ds_c2s = 0, ds_s2c = 0, ds_offset = 0, ds_auto_scroll = True,
     ds_filter = FilterAll, ds_active_sni = sni, ds_active_ip = ip, ds_low_ttl = None, ds_rescan_running = False, ds_next_rescan = None, ds_peak = 0,
     ds_switches = 0, ds_last_switch = None, ds_rescans = 0, ds_last_rescan = None, ds_rescan_started = None, ds_last_error = None, ds_network = None,
     ds_active_ip_score = None, ds_listener = None, ds_closed = False\<rparr>"


section \<open>The live connections\<close>

text \<open>The status shown for a port: that of its first record, while that is active.\<close>

definition active_status :: "ConnStatus \<Rightarrow> bool" where
  "active_status s = (s \<in> {Connecting, Relaying})"

abbreviation skeleton :: "ConnectionRecord list \<Rightarrow> (u16 \<times> ConnStatus) list" where
  "skeleton \<equiv> map (\<lambda>r. (cr_port r, cr_status r))"

definition shown_live :: "(u16 \<times> ConnStatus) list \<Rightarrow> u16 \<rightharpoonup> ConnStatus" where
  "shown_live xs p = (case map_of xs p of Some s \<Rightarrow> if active_status s then Some s else None | None \<Rightarrow> None)"

text \<open>Only the first record of a port may be active.\<close>

fun front_active :: "(u16 \<times> ConnStatus) list \<Rightarrow> bool" where
  "front_active [] = True"
| "front_active ((p, s) # xs) = ((\<forall>s'. (p, s') \<in> set xs \<longrightarrow> \<not> active_status s') \<and> front_active xs)"

lemma shown_live_cons: "shown_live ((p, s) # xs) = (shown_live xs)(p := if active_status s then Some s else None)"
  by (auto simp: shown_live_def fun_eq_iff)

lemma shown_live_behind: "\<forall>s'. (p, s') \<in> set xs \<longrightarrow> \<not> active_status s' \<Longrightarrow> shown_live xs p = None"
  by (auto simp: shown_live_def split: option.splits dest: map_of_SomeD)

lemma shown_live_dom: "dom (shown_live xs) \<subseteq> fst ` set xs"
  by (auto simp: shown_live_def dom_def split: option.splits if_splits dest: map_of_SomeD intro: rev_image_eqI)

lemma finite_shown_live [simp]: "finite (dom (shown_live xs))"
  using shown_live_dom by (rule finite_subset) simp

lemma shown_live_drop:
  assumes "front_active (xs @ (p, s) # ys)" "\<not> active_status s"
  shows "front_active (xs @ ys) \<and> shown_live (xs @ ys) = shown_live (xs @ (p, s) # ys)"
  using assms
proof (induction xs)
  case Nil
  then have "shown_live ys p = None" by (intro shown_live_behind) simp
  then show ?case using Nil by (auto simp: shown_live_cons)
qed (auto simp: shown_live_cons)

lemma shown_live_all_active: "front_active xs \<Longrightarrow> \<forall>x \<in> set xs. active_status (snd x) \<Longrightarrow> card (dom (shown_live xs)) = length xs"
proof (induction xs rule: front_active.induct)
  case (2 p s xs)
  then have "shown_live xs p = None" by (intro shown_live_behind) simp
  then have "p \<notin> dom (shown_live xs)" by (simp add: domIff)
  moreover have "dom (shown_live ((p, s) # xs)) = insert p (dom (shown_live xs))" using 2 by (simp add: shown_live_cons)
  ultimately show ?case using 2 by simp
qed (simp add: shown_live_def dom_def)

lemma shown_live_update:
  "p \<in> fst ` set xs \<Longrightarrow> shown_live (AList.update p s xs) = (shown_live xs)(p := if active_status s then Some s else None)"
  by (auto simp: shown_live_def fun_eq_iff AList.update_conv')

lemma set_update_other: "q \<noteq> p \<Longrightarrow> (q, s') \<in> set (AList.update p s xs) \<longleftrightarrow> (q, s') \<in> set xs"
  by (induction xs) auto

lemma front_active_update: "front_active xs \<Longrightarrow> p \<in> fst ` set xs \<Longrightarrow> front_active (AList.update p s xs)"
  by (induction xs rule: front_active.induct) (auto simp: set_update_other)

section \<open>What the operations do to the skeleton\<close>

lemma skeleton_at_record:
  assumes "\<And>r. cr_port (f r) = cr_port r" "\<And>r. cr_status (f r) = s" "p \<in> cr_port ` set rs"
  shows "skeleton (at_record p f rs) = AList.update p s (skeleton rs)"
  using assms(3) by (induction rs) (auto simp: assms(1, 2))

lemma skeleton_at_record_same:
  assumes "\<And>r. cr_port (f r) = cr_port r" "\<And>r. cr_status (f r) = cr_status r"
  shows "skeleton (at_record p f rs) = skeleton rs"
  by (induction rs) (auto simp: assms)

lemma set_status_simps [simp]: "cr_port (set_status s now r) = cr_port r" "cr_status (set_status s now r) = s"
  by (auto simp: set_status_def)

lemma ended_simps [simp]: "cr_port (ended s now r) = cr_port r" "cr_status (ended s now r) = s"
  by (auto simp: ended_def)

lemma relay_progress_simps [simp]: "cr_port (apply_relay_progress b t r) = cr_port r" "cr_status (apply_relay_progress b t r) = cr_status r"
  by (auto simp: apply_relay_progress_def)

lemma skeleton_batch [simp]: "skeleton (apply_batch t m rs) = skeleton rs"
  by (induction rs arbitrary: m) (auto split: option.splits)

lemma active_status_of [simp]: "is_active r = active_status (cr_status r)"
  by (simp add: is_active_def active_status_def)

lemma drop_last_inactive_Some:
  "drop_last_inactive rs = Some rs' \<Longrightarrow> \<exists>xs r ys. rs = xs @ r # ys \<and> rs' = xs @ ys \<and> \<not> active_status (cr_status r)"
proof (induction rs arbitrary: rs')
  case (Cons r rs)
  show ?case
  proof (cases "drop_last_inactive rs")
    case None
    then show ?thesis using Cons.prems by (intro exI [of _ "[]"]) (auto split: if_splits)
  next
    case (Some rs1)
    then obtain xs x ys where "rs = xs @ x # ys" "rs1 = xs @ ys" "\<not> active_status (cr_status x)" using Cons.IH by blast
    then show ?thesis using Some Cons.prems by (intro exI [of _ "r # xs"]) auto
  qed
qed simp

lemma drop_last_inactive_None: "drop_last_inactive rs = None \<Longrightarrow> \<forall>r \<in> set rs. active_status (cr_status r)"
  by (induction rs) (auto split: option.splits if_splits)

lemma prune_keeps:
  "front_active (skeleton rs) \<Longrightarrow> front_active (skeleton (prune_connection_records rs)) \<and> shown_live (skeleton (prune_connection_records rs)) = shown_live (skeleton rs)
     \<and> (length (prune_connection_records rs) \<le> MAX_RECORDS \<or> (\<forall>r \<in> set (prune_connection_records rs). active_status (cr_status r)))"
proof (induction rs rule: prune_connection_records.induct)
  case (1 rs)
  show ?case
  proof (cases "length rs \<le> MAX_RECORDS")
    case True
    then show ?thesis using "1.prems" by (simp add: prune_connection_records.simps)
  next
    case False
    show ?thesis
    proof (cases "drop_last_inactive rs")
      case None
      then show ?thesis using False "1.prems" drop_last_inactive_None [OF None] by (simp add: prune_connection_records.simps)
    next
      case (Some rs')
      then obtain xs r ys where r: "rs = xs @ r # ys" "rs' = xs @ ys" "\<not> active_status (cr_status r)" using drop_last_inactive_Some by blast
      have "front_active (skeleton rs') \<and> shown_live (skeleton rs') = shown_live (skeleton rs)"
        using shown_live_drop [of "skeleton xs" "cr_port r" "cr_status r" "skeleton ys"] "1.prems" r by simp
      then show ?thesis using "1.IH" [OF False Some] False Some by (simp add: prune_connection_records.simps [of rs])
    qed
  qed
qed


section \<open>The dashboard tracks the connections\<close>

text \<open>The specification of a connection's life: which events may come, and what they make of the live connections.\<close>

definition spec_live :: "DashEvent \<Rightarrow> (u16 \<rightharpoonup> ConnStatus) \<Rightarrow> (u16 \<rightharpoonup> ConnStatus)" where
  "spec_live e live = (case e of EvAccepted p peer ip sni \<Rightarrow> live(p \<mapsto> Connecting)
   | EvBypass p out \<Rightarrow> live(p := (case out of FakeDataAcked \<Rightarrow> Some Relaying | UnexpectedClose \<Rightarrow> None))
   | EvFinished p c2s s2c reason \<Rightarrow> live(p := None)
   | EvError p msg \<Rightarrow> live(p := None)
   | _ \<Rightarrow> live)"

lemma spec_live_simps [simp]:
  "spec_live (EvAccepted p peer ip sni) live = live(p \<mapsto> Connecting)"
  "spec_live (EvBypass p FakeDataAcked) live = live(p \<mapsto> Relaying)"
  "spec_live (EvBypass p UnexpectedClose) live = live(p := None)"
  "spec_live (EvFinished p c2s s2c reason) live = live(p := None)"
  "spec_live (EvError p msg) live = live(p := None)"
  by (simp_all add: spec_live_def)

fun spec_allows :: "(u16 \<rightharpoonup> ConnStatus) \<Rightarrow> DashEvent \<Rightarrow> bool" where
  "spec_allows live (EvAccepted p peer ip sni) = (live p = None)"
| "spec_allows live (EvBypass p out) = (live p = Some Connecting)"
| "spec_allows live (EvFinished p c2s s2c reason) = (live p = Some Relaying)"
| "spec_allows live (EvError p msg) = (live p = Some Connecting)"
| "spec_allows live e = True"

inductive dashboard_run :: "(u16 \<rightharpoonup> ConnStatus) \<Rightarrow> DashboardState \<Rightarrow> bool" where
  run_start: "dashboard_run Map.empty (new_dashboard notice sni ip)"
| run_event: "dashboard_run live st \<Longrightarrow> spec_allows live e \<Longrightarrow> dashboard_run (spec_live e live) (apply_event now e st)"

definition tracks :: "(u16 \<rightharpoonup> ConnStatus) \<Rightarrow> DashboardState \<Rightarrow> bool" where
  "tracks live st = (front_active (skeleton (ds_records st)) \<and> shown_live (skeleton (ds_records st)) = live \<and> ds_active st = card (dom live)
     \<and> ds_active st \<le> ds_peak st \<and> ds_peak st \<le> ds_total st)"

lemma card_live_insert: "finite (dom m) \<Longrightarrow> m p = None \<Longrightarrow> card (dom (m(p \<mapsto> s))) = Suc (card (dom m))"
  by (simp add: domIff)

lemma card_live_change: "m p = Some s' \<Longrightarrow> card (dom (m(p \<mapsto> s))) = card (dom m)"
  by (simp add: domI insert_absorb)

lemma card_live_remove: "finite (dom m) \<Longrightarrow> m p = Some s \<Longrightarrow> card (dom (m(p := None))) = card (dom m) - 1"
  by (simp add: domI)

lemma live_port_shown: "shown_live (skeleton rs) p = Some s \<Longrightarrow> p \<in> cr_port ` set rs"
  using shown_live_dom [of "skeleton rs"] by (auto simp: image_image)

lemma tracks_finite: "tracks live st \<Longrightarrow> finite (dom live)"
  by (auto simp: tracks_def)

lemma tracks_records:
  "tracks live st \<Longrightarrow> skeleton (ds_records st') = skeleton (ds_records st) \<Longrightarrow> ds_active st' = ds_active st \<Longrightarrow> ds_peak st' = ds_peak st \<Longrightarrow> ds_total st' = ds_total st
     \<Longrightarrow> tracks live st'"
  by (simp add: tracks_def)

lemma tracks_change:
  assumes t: "tracks live st" and p: "live p \<noteq> None" and f: "\<And>r. cr_port (f r) = cr_port r" "\<And>r. cr_status (f r) = s"
    and st: "ds_records st' = at_record p f (ds_records st)" "ds_peak st' = ds_peak st" "ds_total st' = ds_total st"
      "ds_active st' = (if active_status s then ds_active st else ds_active st - 1)"
  shows "tracks (live(p := if active_status s then Some s else None)) st'"
proof -
  obtain s' where s': "live p = Some s'" using p by blast
  then have "p \<in> cr_port ` set (ds_records st)" using t live_port_shown by (auto simp: tracks_def)
  then have sk: "skeleton (ds_records st') = AList.update p s (skeleton (ds_records st))" and m: "p \<in> fst ` set (skeleton (ds_records st))"
    using skeleton_at_record [OF f] by (auto simp: st(1) image_image)
  have "ds_active st' = card (dom (live(p := if active_status s then Some s else None)))"
    using t s' card_live_change [of live p] card_live_remove [OF tracks_finite [OF t], of p] by (auto simp: tracks_def st(4))
  moreover have "ds_active st' \<le> ds_active st" by (simp add: st(4))
  ultimately show ?thesis using t shown_live_update [OF m] front_active_update [OF _ m] unfolding tracks_def sk st(2, 3) by auto
qed

lemma tracks_accepted:
  assumes t: "tracks live st" and p: "live p = None"
  shows "tracks (live(p \<mapsto> Connecting)) (event_effect now (EvAccepted p peer ip sni) st)"
proof -
  have "\<not> active_status s'" if "(p, s') \<in> set xs" "front_active xs" "shown_live xs p = None" for s' xs
    using that by (induction xs rule: front_active.induct) (auto simp: shown_live_cons split: if_splits)
  then have "\<forall>s'. (p, s') \<in> set (skeleton (ds_records st)) \<longrightarrow> \<not> active_status s'" using t p unfolding tracks_def by blast
  then show ?thesis using t card_live_insert [OF tracks_finite [OF t] p, of Connecting]
    by (simp add: tracks_def new_record_def shown_live_cons active_status_def [of Connecting])
qed

lemma tracks_effect:
  assumes t: "tracks live st" and ok: "spec_allows live e"
  shows "tracks (spec_live e live) (event_effect now e st)"
proof (cases e)
  case (EvAccepted p peer ip sni)
  then show ?thesis using tracks_accepted [OF t] ok by simp
next
  case (EvBypass p out)
  then show ?thesis using ok tracks_change [OF t, of p "set_status Relaying now" Relaying "event_effect now e st"]
      tracks_change [OF t, of p "ended Failed now" Failed "event_effect now e st"] by (cases out) (simp_all add: active_status_def)
next
  case (EvFinished p c2s s2c reason)
  then show ?thesis using ok tracks_change [OF t, of p "\<lambda>r. (ended (end_status reason) now r)\<lparr>cr_c2s := c2s, cr_s2c := s2c\<rparr>" "end_status reason"
      "event_effect now e st"] by (cases reason) (simp_all add: active_status_def)
next
  case (EvError p msg)
  then show ?thesis using ok tracks_change [OF t, of p "ended Failed now" Failed "event_effect now e st"] by (simp add: active_status_def)
qed (auto intro!: tracks_records [OF t] simp: spec_live_def skeleton_at_record_same switched_at_def)

lemma tracks_event: "tracks live st \<Longrightarrow> spec_allows live e \<Longrightarrow> tracks (spec_live e live) (apply_event now e st)"
  using tracks_effect [of live st e now] prune_keeps [of "ds_records (event_effect now e st)"] by (simp add: apply_event_def Let_def tracks_def)

lemma event_prunes: "tracks live st \<Longrightarrow> spec_allows live e \<Longrightarrow> st' = apply_event now e st \<Longrightarrow>
  length (ds_records st') \<le> MAX_RECORDS \<or> (\<forall>r \<in> set (ds_records st'). active_status (cr_status r))"
  using tracks_effect [of live st e now] prune_keeps [of "ds_records (event_effect now e st)"] by (simp add: apply_event_def Let_def tracks_def)

lemma dashboard_run_tracks: "dashboard_run live st \<Longrightarrow> tracks live st
    \<and> (length (ds_records st) \<le> MAX_RECORDS \<or> (\<forall>r \<in> set (ds_records st). active_status (cr_status r)))"
proof (induction rule: dashboard_run.induct)
  case (run_start notice sni ip)
  have "shown_live [] = Map.empty" by (simp add: shown_live_def fun_eq_iff)
  then show ?case by (simp add: tracks_def new_dashboard_def)
next
  case (run_event live st e now)
  then show ?case using tracks_event [of live st e now] event_prunes [of live st e _ now] by blast
qed

lemma dashboard_records_bound:
  assumes "dashboard_run live st" shows "length (ds_records st) \<le> max MAX_RECORDS (card (dom live))"
proof -
  have t: "tracks live st" "length (ds_records st) \<le> MAX_RECORDS \<or> (\<forall>r \<in> set (ds_records st). active_status (cr_status r))"
    using dashboard_run_tracks [OF assms] by auto
  show ?thesis
  proof (cases "length (ds_records st) \<le> MAX_RECORDS")
    case False
    then have "card (dom live) = length (skeleton (ds_records st))"
      using t shown_live_all_active [of "skeleton (ds_records st)"] by (auto simp: tracks_def)
    then show ?thesis by simp
  qed simp
qed

text \<open>
  C39. The dashboard shows the connections as they are. Over every interleaving of connections, each of which is accepted, then bypassed, and ends with one
  closing event, with any other events in between, also when a port is used again while rows of its former connections are still listed: for every port
  the first row of the port has the status of the live connection, and is not active when there is none; the number of active connections is the number
  of live ones and never above the peak; and the log holds at most 200 rows, or one for each live connection when there are more of these.
\<close>

theorem dashboard_tracks_connections:
  assumes "dashboard_run live st"
  shows "shown_live (skeleton (ds_records st)) = live \<and> ds_active st = card (dom live) \<and> ds_active st \<le> ds_peak st \<and> ds_peak st \<le> ds_total st
    \<and> length (ds_records st) \<le> max MAX_RECORDS (card (dom live))"
  using dashboard_run_tracks [OF assms] dashboard_records_bound [OF assms] by (simp add: tracks_def)



text \<open>A port that is used again while the row of its first connection is listed.\<close>

definition sample_events :: "(nat \<times> DashEvent) list" where
  "sample_events = [(10, EvAccepted 4000 ''a'' (V4 1) None), (20, EvBypass 4000 FakeDataAcked), (25, EvAccepted 4001 ''b'' (V4 1) None),
     (30, EvFinished 4000 7 9 Completed), (40, EvAccepted 4000 ''a'' (V4 2) None)]"

lemma dashboard_run_fold:
  "dashboard_run live st \<Longrightarrow> fold (\<lambda>(_, e) m. spec_live e m) es live = live' \<Longrightarrow> fold (\<lambda>(now, e). apply_event now e) es st = st'
     \<Longrightarrow> (\<forall>n < length es. spec_allows (fold (\<lambda>(_, e) m. spec_live e m) (take n es) live) (snd (es ! n))) \<Longrightarrow> dashboard_run live' st'"
proof (induction es arbitrary: live st)
  case (Cons x es)
  obtain now e where x: "x = (now, e)" by fastforce
  have "spec_allows live e" using Cons.prems(4) x by (metis fold_simps(1) length_greater_0_conv list.distinct(1) nth_Cons_0 snd_conv take_0)
  moreover have "spec_allows (fold (\<lambda>(_, e) m. spec_live e m) (take n es) (spec_live e live)) (snd (es ! n))" if "n < length es" for n
    using Cons.prems(4) [rule_format, of "Suc n"] x that by simp
  ultimately show ?case using Cons.IH [OF run_event [OF Cons.prems(1), of e now]] Cons.prems x by simp
qed auto

theorem dashboard_tracks_connections_witness:
  "\<exists>st. fold (\<lambda>(now, e). apply_event now e) sample_events (new_dashboard None None None) = st \<and> dashboard_run [4001 \<mapsto> Connecting, 4000 \<mapsto> Connecting] st
     \<and> ds_active st = 2 \<and> length (ds_records st) \<le> 200"
proof (intro exI conjI)
  let ?st = "fold (\<lambda>(now, e). apply_event now e) sample_events (new_dashboard None None None)"
  show run: "dashboard_run [4001 \<mapsto> Connecting, 4000 \<mapsto> Connecting] ?st"
    by (rule dashboard_run_fold [OF run_start _ refl]) (auto simp: sample_events_def fun_eq_iff less_Suc_eq numeral_eq_Suc)
  have "card (dom ([4001 \<mapsto> Connecting, 4000 \<mapsto> Connecting] :: u16 \<rightharpoonup> ConnStatus)) = 2" by simp
  then show "ds_active ?st = 2" "length (ds_records ?st) \<le> 200"
    using dashboard_tracks_connections [OF run] by (simp_all add: MAX_RECORDS_def)
qed (rule refl)

section \<open>The order of the rows\<close>

lemma sorted_ranked:
  assumes "sorted (map fst xs)" "\<forall>x \<in> set xs. rank (snd x) \<le> (2 :: nat)"
  shows "sorted (map (\<lambda>(i, r). (rank r, i)) (concat (map (\<lambda>k. filter (\<lambda>(_, r). rank r = k) xs) [0, 1, 2])))"
proof -
  have "sorted (map (\<lambda>(i, r). (rank r, i)) (filter (\<lambda>(_, r). rank r = k) xs))" for k
    using assms(1) by (induction xs) (auto simp: less_eq_prod_def)
  then show ?thesis by (auto simp: sorted_append less_eq_prod_def)
qed

lemma mset_ranked:
  "\<forall>x \<in> set xs. rank (snd x) \<le> (2 :: nat) \<Longrightarrow> mset (concat (map (\<lambda>k. filter (\<lambda>(_, r). rank r = k) xs) [0, 1, 2])) = mset xs"
  by (induction xs) (auto simp: le_Suc_eq numeral_eq_Suc)

lemma filter_enumerate: "map snd (filter (\<lambda>(_, r). Q r) (filter (\<lambda>(_, r). P r) (enumerate n rs))) = filter (\<lambda>r. P r \<and> Q r) rs"
  by (induction rs arbitrary: n) auto

lemma sorted_enumerate: "sorted (map fst (filter P (enumerate n rs)))"
  by (rule sorted_filter) simp

lemma display_rank_iff:
  "connection_display_rank now r = 0 \<longleftrightarrow> cr_status r = Relaying"
  "connection_display_rank now r = 1 \<longleftrightarrow> cr_status r \<noteq> Relaying \<and> now - cr_changed r < 4000"
  "connection_display_rank now r = 2 \<longleftrightarrow> cr_status r \<noteq> Relaying \<and> 4000 \<le> now - cr_changed r"
  by (auto simp: connection_display_rank_def NON_RELAYING_TOP_GRACE_def)

text \<open>
  The rows of the log are the records that match the filter, each once: first the relaying connections, then the others whose status changed within the
  last four seconds, then the rest, and in each of the three groups the newest connection first.
\<close>

theorem connection_rows_grouped:
  "ordered_connection_records f now rs
   = [r \<leftarrow> rs. filter_matches f (cr_status r) \<and> cr_status r = Relaying]
     @ [r \<leftarrow> rs. filter_matches f (cr_status r) \<and> cr_status r \<noteq> Relaying \<and> now - cr_changed r < 4000]
     @ [r \<leftarrow> rs. filter_matches f (cr_status r) \<and> cr_status r \<noteq> Relaying \<and> 4000 \<le> now - cr_changed r]"
proof -
  let ?xs = "filter (\<lambda>(_, r). filter_matches f (cr_status r)) (enumerate 0 rs)"
  let ?rank = "connection_display_rank now"
  let ?ys = "concat (map (\<lambda>k. filter (\<lambda>(_, r). ?rank r = k) ?xs) [0, 1, 2])"
  have le: "\<forall>x \<in> set ?xs. ?rank (snd x) \<le> 2" by (simp add: connection_display_rank_def)
  have "inj_on (\<lambda>(idx, r). (?rank r, idx)) (set ?xs)" by (auto simp: inj_on_def in_set_enumerate_eq)
  then have "sort_key (\<lambda>(idx, r). (?rank r, idx)) ?xs = ?ys"
    using mset_ranked [OF le] sorted_ranked [OF sorted_enumerate le] by (intro sort_key_inj_key_eq) simp_all
  moreover have "map snd ?ys = concat (map (\<lambda>k. filter (\<lambda>r. filter_matches f (cr_status r) \<and> ?rank r = k) rs) [0, 1, 2])"
    by (simp only: list.map concat.simps append_Nil2 map_append filter_enumerate)
  ultimately show ?thesis unfolding ordered_connection_records_def
    by (simp only: list.map concat.simps append_Nil2 display_rank_iff)
qed


section \<open>The handlers and the dashboard\<close>

text \<open>The fields of the events of one connection that its handler does not decide.\<close>

record ConnLabels =
  cl_port :: u16
  cl_peer :: string
  cl_ip :: IpAddr
  cl_sni :: "string option"
  cl_error :: string
  cl_bytes :: "nat \<times> nat"
  cl_reason :: RelayEndReason

fun dash_events :: "ConnLabels \<Rightarrow> ConnAction list \<Rightarrow> DashEvent list" where
  "dash_events l [] = []"
| "dash_events l (AEvent ConnectionAccepted # tr) = EvAccepted (cl_port l) (cl_peer l) (cl_ip l) (cl_sni l) # dash_events l tr"
| "dash_events l (AEvent ConnectionError # tr) = EvError (cl_port l) (cl_error l) # dash_events l tr"
| "dash_events l (AEvent (BypassComplete out) # tr) = EvBypass (cl_port l) out # dash_events l tr"
| "dash_events l (AEvent RelayFinished # tr) = EvFinished (cl_port l) (fst (cl_bytes l)) (snd (cl_bytes l)) (cl_reason l) # dash_events l tr"
| "dash_events l (a # tr) = dash_events l tr"

text \<open>The events of a connection that has come to its end.\<close>

definition whole_life :: "ConnLabels \<Rightarrow> DashEvent list \<Rightarrow> bool" where
  "whole_life l es = (\<exists>es'. es = EvAccepted (cl_port l) (cl_peer l) (cl_ip l) (cl_sni l) # es' \<and>
     es' \<in> {[EvError (cl_port l) (cl_error l)], [EvBypass (cl_port l) UnexpectedClose],
       [EvBypass (cl_port l) FakeDataAcked, EvFinished (cl_port l) (fst (cl_bytes l)) (snd (cl_bytes l)) (cl_reason l)]})"

lemma dash_events_append: "dash_events l (xs @ ys) = dash_events l xs @ dash_events l ys"
  by (induction l xs rule: dash_events.induct) auto

lemma perform_events: "perform ok n ws = (tr, r) \<Longrightarrow> dash_events l tr = []"
  by (induction ok n ws arbitrary: tr r rule: perform.induct) (auto split: if_splits prod.splits)


lemma writes_events [simp]: "dash_events l (writes_of ws) = []"
  by (induction ws) (auto simp: writes_of_def)

lemma tail_events: "bypass_tail res tail \<Longrightarrow> dash_events l tail = [EvBypass (cl_port l) (case res of None \<Rightarrow> UnexpectedClose | Some _ \<Rightarrow> FakeDataAcked)]"
  by (auto simp: bypass_tail_def failed_bypass_def split: option.splits)

lemma intercept_events:
  assumes "intercept_connection s env key = Some (Ok (tr, ok))" "ce_bound env" "ce_registered env"
  shows "whole_life l (dash_events l tr)"
proof -
  obtain tr' res where b: "bypass_phase s env = Some (Ok (tr', res))"
    using assms by (auto simp: intercept_connection_def split: option.splits res.splits)
  then have shape: "res = None \<and> tr' = connect_failed \<or> (\<exists>ws tail. tr' = AConnect # writes_of ws @ tail \<and> bypass_tail res tail)"
    by (rule bypass_phase_shape)
  then show ?thesis using assms b
    by (cases res) (auto simp: intercept_connection_def whole_life_def connect_failed_def dash_events_append tail_events split: if_splits)
qed

lemma relayed_events: "dash_events l (relayed rest frag) = [EvBypass (cl_port l) FakeDataAcked, EvFinished (cl_port l) (fst (cl_bytes l)) (snd (cl_bytes l)) (cl_reason l)]"
  by (simp add: relayed_def)

lemma socket_events:
  assumes "socket_connection s env = Some (Ok (tr, ok))"
  shows "if ok \<or> \<not> ce_connected env then whole_life l (dash_events l tr)
     else dash_events l tr = [EvAccepted (cl_port l) (cl_peer l) (cl_ip l) (cl_sni l)]"
proof (cases "ce_connected env")
  case True
  obtain tr1 b1 where p1: "perform (ce_write_ok env) 0 (ccs_writes s) = (tr1, b1)" by fastforce
  show ?thesis using assms True p1 perform_events [OF p1]
    by (cases b1) (auto simp: socket_connection_def whole_life_def dash_events_append relayed_events perform_events
      split: option.splits res.splits sum.splits prod.splits bool.splits)
qed (use assms in \<open>auto simp: socket_connection_def whole_life_def\<close>)

lemma ip_bypass_events: "whole_life l (dash_events l (fst (ip_bypass_connection env)))"
  by (simp add: ip_bypass_connection_def whole_life_def relayed_events)

lemma run_accepted: "dashboard_run live st \<Longrightarrow> live (cl_port l) = None \<Longrightarrow>
  dashboard_run (live(cl_port l \<mapsto> Connecting)) (apply_event now (EvAccepted (cl_port l) (cl_peer l) (cl_ip l) (cl_sni l)) st)"
  using run_event [of live st "EvAccepted (cl_port l) (cl_peer l) (cl_ip l) (cl_sni l)" now] by simp

lemma run_ended:
  assumes "dashboard_run (live(p \<mapsto> s)) st" "live p = None" "spec_allows (live(p \<mapsto> s)) e" "spec_live e (live(p \<mapsto> s)) = live(p := None)"
  shows "dashboard_run live (apply_event now e st)"
proof -
  have "live(p := None) = live" using assms(2) by auto
  then show ?thesis using run_event [OF assms(1, 3), of now] assms(4) by simp
qed

lemma whole_life_returns:
  assumes run: "dashboard_run live st" and p: "live (cl_port l) = None" and es: "whole_life l (map snd es)"
  shows "dashboard_run live (fold (\<lambda>(now, e). apply_event now e) es st)"
proof -
  obtain now es' where es': "es = (now, EvAccepted (cl_port l) (cl_peer l) (cl_ip l) (cl_sni l)) # es'" using es by (auto simp: whole_life_def)
  let ?st = "apply_event now (EvAccepted (cl_port l) (cl_peer l) (cl_ip l) (cl_sni l)) st"
  note accepted = run_accepted [OF run p, of now]
  consider (error) n where "es' = [(n, EvError (cl_port l) (cl_error l))]" | (close) n where "es' = [(n, EvBypass (cl_port l) UnexpectedClose)]"
    | (relay) n m where "es' = [(n, EvBypass (cl_port l) FakeDataAcked), (m, EvFinished (cl_port l) (fst (cl_bytes l)) (snd (cl_bytes l)) (cl_reason l))]"
    using es es' by (auto simp: whole_life_def map_eq_Cons_conv)
  then show ?thesis
  proof cases
    case error
    then show ?thesis using run_ended [OF accepted p, of "EvError (cl_port l) (cl_error l)" n] es' by simp
  next
    case close
    then show ?thesis using run_ended [OF accepted p, of "EvBypass (cl_port l) UnexpectedClose" n] es' by simp
  next
    case relay
    have "dashboard_run (live(cl_port l \<mapsto> Relaying)) (apply_event n (EvBypass (cl_port l) FakeDataAcked) ?st)"
      using run_event [OF accepted, of "EvBypass (cl_port l) FakeDataAcked" n] by simp
    from run_ended [OF this p, of "EvFinished (cl_port l) (fst (cl_bytes l)) (snd (cl_bytes l)) (cl_reason l)" m] show ?thesis using es' relay by simp
  qed
qed

lemma dashboard_run_active: "dashboard_run live st \<Longrightarrow> ds_active st = card (dom live)"
  using dashboard_run_tracks by (auto simp: tracks_def)

text \<open>
  A connection that comes to its end disappears from the count of active connections: the events that the handler of an intercepted connection sends once
  its flow is registered, those of the plain relay, and those of the handler without interception when it returns without an error or cannot connect,
  are one accepted life of a connection, after which the dashboard tracks the same connections as before.
\<close>

theorem handlers_leave_dashboard:
  assumes "dashboard_run live st" "live (cl_port l) = None"
    and "intercept_connection s env key = Some (Ok (tr, ok)) \<and> ce_bound env \<and> ce_registered env \<or> ip_bypass_connection env = (tr, ok)
      \<or> socket_connection s env = Some (Ok (tr, ok)) \<and> (ok \<or> \<not> ce_connected env)"
    and "map snd es = dash_events l tr"
  shows "\<exists>st'. fold (\<lambda>(now, e). apply_event now e) es st = st' \<and> dashboard_run live st' \<and> ds_active st' = ds_active st"
proof -
  have "whole_life l (map snd es)"
    using assms(3) intercept_events [of s env key tr ok l] ip_bypass_events [of l env] socket_events [of s env tr ok l] by (auto simp: assms(4))
  then show ?thesis using whole_life_returns [OF assms(1, 2)] dashboard_run_active [OF assms(1)] dashboard_run_active by auto
qed

text \<open>
  The handler without interception that fails after it has connected (the client closes before its ClientHello is complete, or a write fails) sends no
  closing event: the connection is counted as active and its row says so from then on.
\<close>

theorem failed_handler_stays_active:
  assumes "dashboard_run live st" "live (cl_port l) = None" "socket_connection s env = Some (Ok (tr, False))" "ce_connected env" "map snd es = dash_events l tr"
  shows "\<exists>st'. fold (\<lambda>(now, e). apply_event now e) es st = st' \<and> dashboard_run (live(cl_port l \<mapsto> Connecting)) st' \<and> ds_active st' = ds_active st + 1"
proof -
  have "map snd es = [EvAccepted (cl_port l) (cl_peer l) (cl_ip l) (cl_sni l)]" using socket_events [OF assms(3), of l] assms(4, 5) by simp
  then obtain now where es: "es = [(now, EvAccepted (cl_port l) (cl_peer l) (cl_ip l) (cl_sni l))]" by (auto simp: map_eq_Cons_conv)
  have run: "dashboard_run (live(cl_port l \<mapsto> Connecting)) (fold (\<lambda>(now, e). apply_event now e) es st)"
    using run_accepted [OF assms(1, 2)] es by simp
  have "finite (dom live)" using dashboard_run_tracks [OF assms(1)] tracks_finite by blast
  then have "card (dom (live(cl_port l \<mapsto> Connecting))) = card (dom live) + 1" using card_live_insert [of live] assms(2) by simp
  then show ?thesis using run dashboard_run_active [OF assms(1)] dashboard_run_active [OF run] by auto
qed


definition sample_labels :: ConnLabels where
  "sample_labels = \<lparr>cl_port = 4000, cl_peer = ''client'', cl_ip = V4 1, cl_sni = None, cl_error = ''refused'', cl_bytes = (7, 9), cl_reason = Completed\<rparr>"

theorem handlers_leave_dashboard_witness:
  "\<exists>st'. fold (\<lambda>(now, e). apply_event now e) (map (Pair 5) (dash_events sample_labels (fst (ip_bypass_connection sample_env)))) (new_dashboard None None None) = st'
     \<and> dashboard_run Map.empty st' \<and> ds_active st' = ds_active (new_dashboard None None None)"
  by (rule handlers_leave_dashboard [OF run_start, where l = sample_labels and env = sample_env and s = sample_settings and key = "probe_key 1 2 4000"
        and tr = "fst (ip_bypass_connection sample_env)" and ok = "snd (ip_bypass_connection sample_env)"]) (auto simp: comp_def)

theorem failed_handler_stays_active_witness:
  "\<exists>tr st'. socket_connection socket_settings (sample_env\<lparr>ce_client := [0x16]\<rparr>) = Some (Ok (tr, False))
     \<and> fold (\<lambda>(now, e). apply_event now e) (map (Pair 5) (dash_events sample_labels tr)) (new_dashboard None None None) = st' \<and> ds_active st' = 1"
proof -
  have c: "\<exists>tr. socket_connection socket_settings (sample_env\<lparr>ce_client := [0x16]\<rparr>) = Some (Ok (tr, False))"
    by (intro exI [of _ "[AEvent ConnectionAccepted, AConnect, AWrite [0x14, 3, 1, 0, 1, 1] 0]"]) code_simp
  then obtain tr where tr: "socket_connection socket_settings (sample_env\<lparr>ce_client := [0x16]\<rparr>) = Some (Ok (tr, False))" by blast
  have "ds_active (new_dashboard None None None) = 0" by (simp add: new_dashboard_def)
  then show ?thesis using tr failed_handler_stays_active [OF run_start [of None None None] _ tr, where l = sample_labels and es = "map (Pair 5) (dash_events sample_labels tr)"]
    by (auto simp: sample_env_def comp_def)
qed

end
