(* ===== verification/Uplink.thy ===== *)
theory Uplink
  imports Network_Monitor Scan_List "HOL-Library.Product_Lexorder"
begin

unbundle bit_operations_syntax

text \<open>
  The physical uplink, src/crates/zerodpi-platform/src/uplink.rs: the metrics of the default routes, the candidates on Linux, Android and Windows, the choice of
  one of them, and the binding of a socket to it. The files of procfs and sysfs, the lists of interfaces and the results of the system calls are arguments.
\<close>

section \<open>Routes\<close>

text \<open>\<^verbatim>\<open>split_whitespace\<close>, with the word under way.\<close>

fun words_of :: "string \<Rightarrow> string \<Rightarrow> string list" where
  "words_of w [] = (if w = [] then [] else [w])"
| "words_of w (c # cs) = (if is_ws c then (if w = [] then words_of [] cs else w # words_of [] cs) else words_of (w @ [c]) cs)"

definition split_whitespace :: "string \<Rightarrow> string list" where
  "split_whitespace s = words_of [] s"

definition hex_val :: "char \<Rightarrow> nat option" where
  "hex_val c = (let n = of_char c :: nat in if 48 \<le> n \<and> n \<le> 57 then Some (n - 48)
     else if 65 \<le> n \<and> n \<le> 70 then Some (n - 55) else if 97 \<le> n \<and> n \<le> 102 then Some (n - 87) else None)"

fun parse_hex_digits :: "nat \<Rightarrow> string \<Rightarrow> nat option" where
  "parse_hex_digits acc [] = Some acc"
| "parse_hex_digits acc (c # cs) = (case hex_val c of None \<Rightarrow> None | Some d \<Rightarrow> parse_hex_digits (acc * 16 + d) cs)"

text \<open>\<^verbatim>\<open>u32::from_str_radix(s, 16)\<close>.\<close>

definition parse_hex_u32 :: "string \<Rightarrow> u32 option" where
  "parse_hex_u32 s = (let ds = (case s of CHR ''+'' # r \<Rightarrow> r | _ \<Rightarrow> s) in
     if ds = [] then None else (case parse_hex_digits 0 ds of Some n \<Rightarrow> if n < 2 ^ 32 then Some (word_of_nat n) else None | None \<Rightarrow> None))"

text \<open>The interface and the metric of a line that is an active default route.\<close>

definition default_route :: "string \<Rightarrow> (string \<times> nat) option" where
  "default_route line = (let fields = split_whitespace line in
     if length fields < 8 \<or> fields ! 1 \<noteq> ''00000000'' then None
     else (case parse_hex_u32 (fields ! 3) of None \<Rightarrow> None
       | Some flags \<Rightarrow> if flags AND 1 = 0 then None
           else map_option (\<lambda>m. (fields ! 0, m)) (parse_u32 (fields ! 6))))"

definition add_metric :: "string \<times> nat \<Rightarrow> (string \<rightharpoonup> nat) \<Rightarrow> (string \<rightharpoonup> nat)" where
  "add_metric r m = m(fst r \<mapsto> (case m (fst r) of Some cur \<Rightarrow> min cur (snd r) | None \<Rightarrow> snd r))"

definition read_route_metrics :: "string option \<Rightarrow> (string \<rightharpoonup> nat)" where
  "read_route_metrics file = (case file of None \<Rightarrow> Map.empty
   | Some contents \<Rightarrow> fold add_metric (List.map_filter default_route (drop 1 (lines_of contents))) Map.empty)"

section \<open>Interfaces\<close>

definition has_prefix :: "string \<Rightarrow> string \<Rightarrow> bool" where
  "has_prefix s p = (take (length p) s = p)"

definition VIRTUAL_PREFIXES :: "string list" where
  "VIRTUAL_PREFIXES = [''lo'', ''tun'', ''tap'', ''wg'', ''utun'', ''ppp'', ''docker'', ''br-'', ''veth'', ''virbr'', ''zt'', ''tailscale'',
     ''sing'', ''clash'', ''meta'']"

text \<open>\<open>sys_type\<close> is the content of \<^verbatim>\<open>/sys/class/net/<name>/type\<close>.\<close>

definition is_physical_interface :: "(string \<Rightarrow> string option) \<Rightarrow> string \<Rightarrow> bool" where
  "is_physical_interface sys_type name = (let lower = map to_ascii_lowercase_char name in
     if list_ex (has_prefix lower) VIRTUAL_PREFIXES then False
     else Option.bind (sys_type name) (\<lambda>v. parse_u32 (trim v)) = Some 1
       \<or> list_ex (has_prefix lower) [''eth'', ''en'', ''wlan'', ''wifi'']
       \<or> list_ex (has_prefix lower) [''rmnet'', ''ccmni'', ''wwan''])"

definition interface_kind_rank :: "string \<Rightarrow> nat" where
  "interface_kind_rank name = (let lower = map to_ascii_lowercase_char name in
     if has_prefix lower ''rmnet'' \<or> has_prefix lower ''ccmni'' \<or> has_prefix lower ''wwan'' then 1 else 0)"

definition is_usable_ipv4 :: "ipv4 \<Rightarrow> bool" where
  "is_usable_ipv4 ip = (ip \<noteq> 0 \<and> drop_bit 24 ip \<noteq> 127 \<and> drop_bit 16 ip \<noteq> 0xA9FE)"

record Candidate =
  cd_binding :: InterfaceBinding
  cd_metric :: nat
  cd_kind_rank :: nat

definition new_candidate :: "(string \<rightharpoonup> nat) \<Rightarrow> string \<Rightarrow> ipv4 \<Rightarrow> u32 \<Rightarrow> Candidate" where
  "new_candidate metrics name ip idx = \<lparr>cd_binding = \<lparr>ib_ip = ip, ib_if_index = idx, ib_if_name = name\<rparr>,
     cd_metric = (case metrics name of Some m \<Rightarrow> m | None \<Rightarrow> (2 ^ 32 - 1) div 2), cd_kind_rank = interface_kind_rank name\<rparr>"

text \<open>One entry of \<^verbatim>\<open>getifaddrs\<close>; the address is \<open>None\<close> when it is missing or not IPv4. \<open>idx\<close> is \<^verbatim>\<open>if_nametoindex\<close>.\<close>

record IfAddr =
  ia_name :: "string option"
  ia_ip :: "ipv4 option"
  ia_flags :: u32

definition linux_candidate :: "(string \<Rightarrow> string option) \<Rightarrow> (string \<Rightarrow> u32) \<Rightarrow> (string \<rightharpoonup> nat) \<Rightarrow> IfAddr \<Rightarrow> Candidate option" where
  "linux_candidate sys_type idx metrics e = (case (ia_name e, ia_ip e) of
     (Some name, Some ip) \<Rightarrow>
       if ia_flags e AND 1 = 0 then None
       else if \<not> is_physical_interface sys_type name \<or> \<not> is_usable_ipv4 ip then None
       else if idx name \<noteq> 0 then Some (new_candidate metrics name ip (idx name)) else None
   | _ \<Rightarrow> None)"

definition linux_enumerate :: "(string \<Rightarrow> string option) \<Rightarrow> (string \<Rightarrow> u32) \<Rightarrow> (string \<rightharpoonup> nat) \<Rightarrow> IfAddr list option \<Rightarrow> Candidate list option" where
  "linux_enumerate sys_type idx metrics addrs = map_option (List.map_filter (linux_candidate sys_type idx metrics)) addrs"

text \<open>Android: pairs of a name and an address, and the flags a query for the name returns.\<close>

definition android_candidate :: "(string \<Rightarrow> string option) \<Rightarrow> (string \<Rightarrow> u32) \<Rightarrow> (string \<Rightarrow> u32 option) \<Rightarrow> (string \<rightharpoonup> nat) \<Rightarrow> string \<times> ipv4
    \<Rightarrow> Candidate option" where
  "android_candidate sys_type idx get_flags metrics x = (case x of (name, ip) \<Rightarrow>
     if \<not> is_physical_interface sys_type name then None
     else if idx name = 0 then None
     else (case get_flags name of None \<Rightarrow> None
       | Some flags \<Rightarrow> if flags AND 1 = 0 then None else if \<not> is_usable_ipv4 ip then None
           else Some (new_candidate metrics name ip (idx name))))"

definition android_enumerate :: "(string \<Rightarrow> string option) \<Rightarrow> (string \<Rightarrow> u32) \<Rightarrow> (string \<Rightarrow> u32 option) \<Rightarrow> (string \<rightharpoonup> nat) \<Rightarrow> (string \<times> ipv4) list option
    \<Rightarrow> Candidate list option" where
  "android_enumerate sys_type idx get_flags metrics addrs = map_option (List.map_filter (android_candidate sys_type idx get_flags metrics)) addrs"

definition first_candidate :: "Candidate list \<Rightarrow> InterfaceBinding option" where
  "first_candidate cs = (case sort_key (\<lambda>c. (cd_metric c, cd_kind_rank c, unat (ib_if_index (cd_binding c)))) cs of
     [] \<Rightarrow> None | c # _ \<Rightarrow> Some (cd_binding c))"

definition resolve_physical_binding :: "Candidate list option \<Rightarrow> InterfaceBinding option" where
  "resolve_physical_binding cs = Option.bind cs first_candidate"

section \<open>Windows\<close>

record Adapter =
  ad_up :: bool
  ad_if_type :: u32
  ad_if_index :: u32
  ad_name :: string
  ad_addresses :: "ipv4 option list"
  ad_metric :: nat

definition is_physical_type :: "u32 \<Rightarrow> bool" where
  "is_physical_type t = (t = 6 \<or> t = 71)"

fun has_substring :: "string \<Rightarrow> string \<Rightarrow> bool" where
  "has_substring s [] = True"
| "has_substring [] p = False"
| "has_substring (c # cs) p = (has_prefix (c # cs) p \<or> has_substring cs p)"

definition looks_virtual :: "string \<Rightarrow> bool" where
  "looks_virtual name = list_ex (has_substring (map to_ascii_lowercase_char name)) [''virtual'', ''wintun'', ''wireguard'', ''tun'', ''tap'', ''vpn'', ''loopback'',
     ''host-only'', ''hyper-v'', ''docker'', ''sing-box'']"

fun first_ipv4 :: "ipv4 option list \<Rightarrow> ipv4 option" where
  "first_ipv4 [] = None"
| "first_ipv4 (a # as) = (case a of Some ip \<Rightarrow> if is_usable_ipv4 ip then Some ip else first_ipv4 as | None \<Rightarrow> first_ipv4 as)"

definition windows_candidate :: "Adapter \<Rightarrow> Candidate option" where
  "windows_candidate a = (if ad_up a \<and> ad_if_index a \<noteq> 0 \<and> is_physical_type (ad_if_type a) \<and> \<not> looks_virtual (ad_name a)
     then (case first_ipv4 (ad_addresses a) of None \<Rightarrow> None
       | Some ip \<Rightarrow> if is_usable_ipv4 ip then Some \<lparr>cd_binding = \<lparr>ib_ip = ip, ib_if_index = ad_if_index a, ib_if_name = ad_name a\<rparr>,
           cd_metric = ad_metric a, cd_kind_rank = 0\<rparr> else None)
     else None)"

definition collect_candidates :: "Adapter list \<Rightarrow> Candidate list" where
  "collect_candidates adapters = List.map_filter windows_candidate adapters"

section \<open>Binding a socket\<close>

datatype BindResult = Bound | PermissionDenied | BindFailed

text \<open>\<^verbatim>\<open>SO_BINDTODEVICE\<close>; on Android a missing permission leaves the source address to do it.\<close>

definition configure_socket :: "bool \<Rightarrow> BindResult \<Rightarrow> InterfaceBinding \<Rightarrow> bool" where
  "configure_socket android res b = (ib_if_name b \<noteq> [] \<and> 0 \<notin> of_char ` set (ib_if_name b) \<and> (case res of Bound \<Rightarrow> True
     | PermissionDenied \<Rightarrow> android | BindFailed \<Rightarrow> False))"

text \<open>The option of Windows takes the index of the interface.\<close>

definition configure_interface :: "bool \<Rightarrow> InterfaceBinding \<Rightarrow> bool" where
  "configure_interface set_ok b = (ib_if_index b \<noteq> 0 \<and> set_ok)"

section \<open>Properties\<close>

text \<open>The metric of an interface is the least one among its active default routes.\<close>

lemma fold_add_metric:
  "fold add_metric rs m name = (let ms = map snd (filter (\<lambda>r. fst r = name) rs) in
     case m name of None \<Rightarrow> (if ms = [] then None else Some (Min (set ms))) | Some k \<Rightarrow> Some (Min (insert k (set ms))))"
proof (induction rs arbitrary: m)
  case (Cons r rs)
  have mn: "Min (insert (min k j) A) = Min (insert k (insert j A))" if "finite A" for k j :: nat and A
    using that by (cases "A = {}") (auto simp: min.assoc)
  have add: "add_metric r m name = (if fst r = name then Some (case m name of Some k \<Rightarrow> min k (snd r) | None \<Rightarrow> snd r) else m name)"
    by (auto simp: add_metric_def)
  show ?case using Cons.IH [of "add_metric r m"]
    by (cases "m name"; cases "fst r = name") (simp_all only: fold_simps o_apply add Let_def mn finite_set, simp_all add: mn)
qed (simp split: option.splits)

theorem route_metric_least:
  "read_route_metrics (Some contents) name =
     (let ms = map snd (filter (\<lambda>r. fst r = name) (List.map_filter default_route (drop 1 (lines_of contents)))) in
      if ms = [] then None else Some (Min (set ms)))"
  by (simp add: read_route_metrics_def fold_add_metric)

lemma sort_key_hd:
  assumes "sort_key f xs = y # ys"
  shows "y \<in> set xs" "x \<in> set xs \<Longrightarrow> f y \<le> f x"
proof -
  show "y \<in> set xs" using assms by (metis list.set_intros(1) set_sort)
  assume "x \<in> set xs"
  then have "x \<in> set (y # ys)" using assms by (metis set_sort)
  moreover have "sorted (map f (y # ys))" using assms by (metis sorted_sort_key)
  ultimately show "f y \<le> f x" by auto
qed

lemma first_candidate_least:
  assumes "first_candidate cs = Some b"
  shows "\<exists>c \<in> set cs. cd_binding c = b \<and> (\<forall>d \<in> set cs. (cd_metric c, cd_kind_rank c, unat (ib_if_index (cd_binding c)))
    \<le> (cd_metric d, cd_kind_rank d, unat (ib_if_index (cd_binding d))))"
proof -
  obtain c rest where "sort_key (\<lambda>c. (cd_metric c, cd_kind_rank c, unat (ib_if_index (cd_binding c)))) cs = c # rest" "cd_binding c = b"
    using assms by (auto simp: first_candidate_def split: list.splits)
  then show ?thesis using sort_key_hd [of _ cs c rest] by blast
qed

lemma first_candidate_None: "first_candidate cs = None \<longleftrightarrow> cs = []"
  by (cases cs) (auto simp: first_candidate_def split: list.splits dest: arg_cong [where f = set])

lemma set_map_filter: "y \<in> set (List.map_filter f xs) \<longleftrightarrow> (\<exists>x \<in> set xs. f x = Some y)"
  by (force simp: map_filter_def image_iff)

lemma linux_candidate_Some:
  "linux_candidate sys_type idx metrics e = Some c \<longleftrightarrow> (\<exists>name ip. ia_name e = Some name \<and> ia_ip e = Some ip \<and> ia_flags e AND 1 \<noteq> 0
     \<and> is_physical_interface sys_type name \<and> is_usable_ipv4 ip \<and> idx name \<noteq> 0 \<and> c = new_candidate metrics name ip (idx name))"
  by (auto simp: linux_candidate_def split: option.splits)

text \<open>
  The resolved uplink is an interface that is up, not one of the virtual kinds, with an address that is not of the loopback or link-local network; none of the
  other candidates has a smaller metric. There is no uplink only when no interface qualifies.
\<close>

theorem resolved_uplink_physical:
  assumes "resolve_physical_binding (linux_enumerate sys_type idx metrics (Some addrs)) = Some b"
  shows "\<exists>e \<in> set addrs. ia_name e = Some (ib_if_name b) \<and> ia_ip e = Some (ib_ip b) \<and> ia_flags e AND 1 \<noteq> 0 \<and> ib_if_index b = idx (ib_if_name b)
      \<and> is_physical_interface sys_type (ib_if_name b) \<and> is_usable_ipv4 (ib_ip b)
      \<and> (\<forall>d c. d \<in> set addrs \<longrightarrow> linux_candidate sys_type idx metrics d = Some c \<longrightarrow>
           cd_metric (new_candidate metrics (ib_if_name b) (ib_ip b) (ib_if_index b)) \<le> cd_metric c)"
proof -
  let ?cs = "List.map_filter (linux_candidate sys_type idx metrics) addrs"
  have "first_candidate ?cs = Some b" using assms by (simp add: resolve_physical_binding_def linux_enumerate_def)
  then obtain c where c: "c \<in> set ?cs" "cd_binding c = b"
    and least: "\<forall>d \<in> set ?cs. (cd_metric c, cd_kind_rank c, unat (ib_if_index (cd_binding c))) \<le> (cd_metric d, cd_kind_rank d, unat (ib_if_index (cd_binding d)))"
    using first_candidate_least by blast
  obtain e name ip where e: "e \<in> set addrs" "ia_name e = Some name" "ia_ip e = Some ip" "ia_flags e AND 1 \<noteq> 0"
      "is_physical_interface sys_type name" "is_usable_ipv4 ip" "c = new_candidate metrics name ip (idx name)"
    using c(1) by (auto simp: set_map_filter linux_candidate_Some)
  have b: "ib_if_name b = name" "ib_ip b = ip" "ib_if_index b = idx name" using c(2) e(7) by (auto simp: new_candidate_def)
  have "cd_metric c \<le> cd_metric d" if "d \<in> set ?cs" for d using least that by (auto simp: less_eq_prod_def)
  then have "\<forall>d c'. d \<in> set addrs \<longrightarrow> linux_candidate sys_type idx metrics d = Some c' \<longrightarrow> cd_metric c \<le> cd_metric c'"
    by (auto simp: set_map_filter)
  then show ?thesis using e unfolding b by auto
qed

lemma no_uplink_iff:
  "resolve_physical_binding (linux_enumerate sys_type idx metrics (Some addrs)) = None \<longleftrightarrow>
     (\<forall>e \<in> set addrs. linux_candidate sys_type idx metrics e = None)"
  by (auto simp: resolve_physical_binding_def linux_enumerate_def first_candidate_None map_filter_def filter_empty_conv)

text \<open>A tunnel is never chosen, whatever sysfs says about it.\<close>

lemma tunnel_not_physical: "has_prefix (map to_ascii_lowercase_char name) ''tun'' \<Longrightarrow> \<not> is_physical_interface sys_type name"
  by (simp add: is_physical_interface_def VIRTUAL_PREFIXES_def Let_def)

text \<open>Both ways to list the interfaces give the same candidates when they see the same interfaces.\<close>

theorem android_sees_same_candidates:
  assumes "\<forall>e \<in> set addrs. \<exists>name. ia_name e = Some name \<and> get_flags name = Some (ia_flags e)"
  shows "android_enumerate sys_type idx get_flags metrics (Some (List.map_filter (\<lambda>e. case (ia_name e, ia_ip e) of (Some n, Some ip) \<Rightarrow> Some (n, ip) | _ \<Rightarrow> None) addrs))
    = linux_enumerate sys_type idx metrics (Some addrs)"
  using assms by (induction addrs) (auto simp: android_enumerate_def linux_enumerate_def android_candidate_def linux_candidate_def split: option.splits)

lemma windows_candidate_physical:
  assumes "windows_candidate a = Some c"
  shows "ad_up a \<and> is_physical_type (ad_if_type a) \<and> \<not> looks_virtual (ad_name a) \<and> is_usable_ipv4 (ib_ip (cd_binding c)) \<and> Some (ib_ip (cd_binding c)) \<in> set (ad_addresses a)"
proof -
  have "Some ip \<in> set as" if "first_ipv4 as = Some ip" for as ip using that by (induction as) (auto split: option.splits if_splits)
  then show ?thesis using assms by (auto simp: windows_candidate_def split: if_splits option.splits)
qed

end
