(* ===== verification/Method_Scan.thy ===== *)
theory Method_Scan
  imports Scan_List Composite "HOL-Library.List_Lexorder" "HOL-Library.Char_ord" "HOL-Library.Multiset"
begin

text \<open>
  The method scanner (method\_scanner.rs): the probe through the own listener, the aggregation and ranking of the samples, and the run over all methods. The
  rates and means are floating-point numbers: they are values of a linearly ordered type (\<^verbatim>\<open>total_cmp\<close> is a total order) and the two quotients are arguments.
\<close>

section \<open>Samples and entries\<close>

record MethodSampleResult =
  sr_ok :: bool
  sr_tls_ms :: "u64 option"
  sr_ttfb_ms :: "u64 option"
  sr_http_status :: "u16 option"
  sr_error :: "string option"

record 'f MethodScanEntry =
  me_method :: string
  me_samples_total :: nat
  me_samples_ok :: nat
  me_success_rate :: 'f
  me_avg_ttfb :: "'f option"
  me_min_ttfb :: "u64 option"
  me_max_ttfb :: "u64 option"
  me_avg_tls :: "'f option"
  me_http_status :: "u16 option"
  me_last_error :: "string option"

text \<open>The floating-point operations: the zero, the rate of \<open>ok\<close> out of \<open>total\<close> and the mean of a list.\<close>

record 'f FloatOps =
  fo_zero :: 'f
  fo_rate :: "nat \<Rightarrow> nat \<Rightarrow> 'f"
  fo_mean :: "u64 list \<Rightarrow> 'f"

definition filter_map :: "('a \<Rightarrow> 'b option) \<Rightarrow> 'a list \<Rightarrow> 'b list" where
  "filter_map f xs = concat (map (\<lambda>x. case f x of Some y \<Rightarrow> [y] | None \<Rightarrow> []) xs)"

definition first_of :: "'a list \<Rightarrow> 'a option" where
  "first_of xs = (case xs of [] \<Rightarrow> None | x # _ \<Rightarrow> Some x)"

definition list_opt :: "('a list \<Rightarrow> 'b) \<Rightarrow> 'a list \<Rightarrow> 'b option" where
  "list_opt f xs = (if xs = [] then None else Some (f xs))"

definition entry_from_samples :: "'f FloatOps \<Rightarrow> string \<Rightarrow> MethodSampleResult list \<Rightarrow> 'f MethodScanEntry" where
  "entry_from_samples fo method samples = (let total = length samples; ok_count = length (filter sr_ok samples);
       ttfb = filter_map sr_ttfb_ms samples; tls = filter_map sr_tls_ms samples in
     \<lparr>me_method = method, me_samples_total = total, me_samples_ok = ok_count,
      me_success_rate = (if total = 0 then fo_zero fo else fo_rate fo ok_count total),
      me_avg_ttfb = list_opt (fo_mean fo) ttfb, me_min_ttfb = list_opt (\<lambda>xs. Min (set xs)) ttfb, me_max_ttfb = list_opt (\<lambda>xs. Max (set xs)) ttfb,
      me_avg_tls = list_opt (fo_mean fo) tls, me_http_status = first_of (filter_map sr_http_status samples),
      me_last_error = first_of (filter_map sr_error (rev samples))\<rparr>)"

definition failed_entry :: "'f FloatOps \<Rightarrow> string \<Rightarrow> nat \<Rightarrow> string \<Rightarrow> 'f MethodScanEntry" where
  "failed_entry fo method samples_total error = \<lparr>me_method = method, me_samples_total = samples_total, me_samples_ok = 0, me_success_rate = fo_zero fo,
     me_avg_ttfb = None, me_min_ttfb = None, me_max_ttfb = None, me_avg_tls = None, me_http_status = None, me_last_error = Some error\<rparr>"

text \<open>\<^verbatim>\<open>sort_by\<close>, a stable sort; \<open>le a b\<close> is that \<open>a\<close> does not compare greater than \<open>b\<close>.\<close>

fun insert_by :: "('a \<Rightarrow> 'a \<Rightarrow> bool) \<Rightarrow> 'a \<Rightarrow> 'a list \<Rightarrow> 'a list" where
  "insert_by le x [] = [x]"
| "insert_by le x (y # ys) = (if le x y then x # y # ys else y # insert_by le x ys)"

definition sort_by :: "('a \<Rightarrow> 'a \<Rightarrow> bool) \<Rightarrow> 'a list \<Rightarrow> 'a list" where
  "sort_by le xs = foldr (insert_by le) xs []"

definition ttfb_le :: "'f :: linorder option \<Rightarrow> 'f option \<Rightarrow> bool" where
  "ttfb_le a b = (case a of None \<Rightarrow> b = None | Some x \<Rightarrow> (case b of None \<Rightarrow> True | Some y \<Rightarrow> x \<le> y))"

definition entry_le :: "('f :: linorder) MethodScanEntry \<Rightarrow> 'f MethodScanEntry \<Rightarrow> bool" where
  "entry_le a b = (me_success_rate b < me_success_rate a \<or> me_success_rate a = me_success_rate b \<and>
     (ttfb_le (me_avg_ttfb a) (me_avg_ttfb b) \<and> me_avg_ttfb a \<noteq> me_avg_ttfb b \<or> me_avg_ttfb a = me_avg_ttfb b \<and> me_method a \<le> me_method b))"

definition rank_entries :: "('f :: linorder) MethodScanEntry list \<Rightarrow> 'f MethodScanEntry list" where
  "rank_entries entries = sort_by entry_le entries"

section \<open>The probe\<close>

fun find_header_end :: "bytes \<Rightarrow> nat option" where
  "find_header_end (b # bs) = (if take 4 (b # bs) = [13, 10, 13, 10] then Some 4 else map_option Suc (find_header_end bs))"
| "find_header_end [] = None"

text \<open>The status is the number in the three characters after the first space; \<^verbatim>\<open>get(0..3)\<close> is \<open>None\<close> on a shorter text.\<close>

definition parse_head_status :: "string \<Rightarrow> u16 option" where
  "parse_head_status head = (if take 5 head \<noteq> ''HTTP/'' then None
     else (case split_once (CHR '' '') (drop 5 head) of None \<Rightarrow> None
       | Some (_, rest) \<Rightarrow> if length rest < 3 then None else parse_u16 (take 3 rest)))"

definition head_status :: "bytes \<Rightarrow> u16 option" where
  "head_status head = (if utf8_valid head then parse_head_status (text_of head) else None)"

record HttpRead =
  hr_buf :: bytes
  hr_ttfb :: "nat option"
  hr_status :: "u16 option"
  hr_header_end :: "nat option"

definition http_step :: "nat \<Rightarrow> bytes \<Rightarrow> HttpRead \<Rightarrow> HttpRead" where
  "http_step t chunk h = (let h = h\<lparr>hr_ttfb := (if hr_ttfb h = None then Some t else hr_ttfb h), hr_buf := hr_buf h @ chunk\<rparr> in
     if hr_header_end h = None
     then (case find_header_end (hr_buf h) of None \<Rightarrow> h | Some pos \<Rightarrow> h\<lparr>hr_header_end := Some pos, hr_status := head_status (take pos (hr_buf h))\<rparr>)
     else h)"

text \<open>Each read comes with its time; an empty one is the end, an error or the time-out.\<close>

fun http_loop :: "nat \<Rightarrow> (nat \<times> bytes) list \<Rightarrow> HttpRead \<Rightarrow> HttpRead" where
  "http_loop cap [] h = h"
| "http_loop cap ((t, chunk) # rs) h = (if length (hr_buf h) \<ge> cap \<or> chunk = [] then h else http_loop cap rs (http_step t chunk h))"

definition read_http_response :: "nat \<Rightarrow> (nat \<times> bytes) list \<Rightarrow> nat option \<times> u16 option \<times> nat" where
  "read_http_response cap reads = (let h = http_loop cap reads \<lparr>hr_buf = [], hr_ttfb = None, hr_status = None, hr_header_end = None\<rparr> in
     (hr_ttfb h, hr_status h, case hr_header_end h of None \<Rightarrow> 0 | Some e \<Rightarrow> length (hr_buf h) - e))"

text \<open>The answers of the network to a probe; an error comes with its text.\<close>

record DirectNet =
  dn_tcp :: "string option"
  dn_name :: "string option"
  dn_tls :: "string + u64"
  dn_written :: bool
  dn_reads :: "(nat \<times> bytes) list"

definition failed_sample :: "u64 option \<Rightarrow> string \<Rightarrow> MethodSampleResult" where
  "failed_sample tls e = \<lparr>sr_ok = False, sr_tls_ms = tls, sr_ttfb_ms = None, sr_http_status = None, sr_error = Some e\<rparr>"

definition direct_probe :: "nat \<Rightarrow> DirectNet \<Rightarrow> MethodSampleResult" where
  "direct_probe cap a = (case dn_tcp a of Some e \<Rightarrow> failed_sample None e
   | None \<Rightarrow> (case dn_name a of Some e \<Rightarrow> failed_sample None e
     | None \<Rightarrow> (case dn_tls a of Inl e \<Rightarrow> failed_sample None e
       | Inr tls \<Rightarrow> if \<not> dn_written a then failed_sample (Some tls) ''HTTP request write failed or timed out''
           else (case read_http_response cap (dn_reads a) of (ttfb, status, body) \<Rightarrow> let ok = status \<noteq> None \<and> body > 0 in
             \<lparr>sr_ok = ok, sr_tls_ms = Some tls, sr_ttfb_ms = map_option word_of_nat ttfb, sr_http_status = status,
              sr_error = (if ok then None else Some ''no HTTP response received through the relay'')\<rparr>))))"

section \<open>The run over the methods\<close>

definition cfg_with_method :: "Config \<Rightarrow> string \<Rightarrow> Config" where
  "cfg_with_method base method = base\<lparr>BYPASS_METHOD := from_delimited method\<rparr>"

datatype 'f MethodScanEvent = MethodDone string nat "'f MethodScanEntry" | SampleDone string nat bool

text \<open>What a method's run meets: the seed of its generators, the error of opening the interceptor, and the network of each sample.\<close>

record MethodRun =
  mr_seed :: u64
  mr_open_error :: "string option"
  mr_net :: "nat \<Rightarrow> DirectNet"

definition engine_error :: "Config \<Rightarrow> MethodRun \<Rightarrow> string option" where
  "engine_error cfg r = (if is_socket_only (BYPASS_METHOD cfg) then None
     else if build_method (mr_seed r) cfg = None then Some ''build_method returned None''
     else map_option (\<lambda>e. ''interceptor open failed: '' @ e) (mr_open_error r))"

definition run_one_method :: "'f FloatOps \<Rightarrow> nat \<Rightarrow> Config \<Rightarrow> nat \<Rightarrow> string \<Rightarrow> MethodRun \<Rightarrow> 'f MethodScanEntry \<times> 'f MethodScanEvent list" where
  "run_one_method fo cap config index method r = (let samples_total = METHOD_SCAN_SAMPLES config in case engine_error (cfg_with_method config method) r of
     Some e \<Rightarrow> (failed_entry fo method samples_total e, [])
   | None \<Rightarrow> (let samples = map (\<lambda>i. direct_probe cap (mr_net r i)) [0..<samples_total]; entry = entry_from_samples fo method samples in
       (entry, map (\<lambda>i. SampleDone method (i + 1) (sr_ok (samples ! i))) [0..<samples_total] @ [MethodDone method (index + 1) entry])))"

definition run_method_tests :: "('f :: linorder) FloatOps \<Rightarrow> nat \<Rightarrow> Config \<Rightarrow> (nat \<Rightarrow> MethodRun) \<Rightarrow> string list \<Rightarrow> 'f MethodScanEntry list \<times> 'f MethodScanEvent list" where
  "run_method_tests fo cap config runs methods = (let results = map (\<lambda>i. run_one_method fo cap config i (methods ! i) (runs i)) [0..<length methods] in
     (rank_entries (map fst results), concat (map snd results)))"

section \<open>Sorting\<close>

lemma mset_insert_by: "mset (insert_by le x xs) = add_mset x (mset xs)"
  by (induction xs) auto

lemma mset_sort_by: "mset (sort_by le xs) = mset xs"
  by (induction xs) (simp_all add: sort_by_def mset_insert_by)

lemma set_insert_by: "set (insert_by le x xs) = insert x (set xs)"
  by (induction xs) auto

text \<open>What a comparison has to satisfy for the sort to rank by it.\<close>

locale ranking =
  fixes le :: "'a \<Rightarrow> 'a \<Rightarrow> bool"
  assumes total: "le a b \<or> le b a"
    and trans: "le a b \<Longrightarrow> le b c \<Longrightarrow> le a c"
begin

lemma sorted_insert_by: "sorted_wrt le ys \<Longrightarrow> sorted_wrt le (insert_by le x ys)"
proof (induction ys)
  case (Cons y ys)
  show ?case
  proof (cases "le x y")
    case True
    then show ?thesis using Cons.prems trans by auto
  next
    case False
    then have "le y x" using total by blast
    then show ?thesis using False Cons by (auto simp: set_insert_by)
  qed
qed simp

lemma sorted_sort_by: "sorted_wrt le (sort_by le xs)"
  by (induction xs) (simp_all add: sort_by_def sorted_insert_by)

end

lemma ttfb_le_total: "ttfb_le a b \<or> ttfb_le b a"
  by (auto simp: ttfb_le_def split: option.splits)

lemma ttfb_le_antisym: "ttfb_le a b \<Longrightarrow> ttfb_le b a \<Longrightarrow> a = b"
  by (auto simp: ttfb_le_def split: option.splits)

lemma ttfb_le_trans: "ttfb_le a b \<Longrightarrow> ttfb_le b c \<Longrightarrow> ttfb_le a c"
  by (auto simp: ttfb_le_def split: option.splits)

lemma entry_le_total: "entry_le a b \<or> entry_le b a"
proof (cases "me_success_rate a = me_success_rate b")
  case True
  show ?thesis
  proof (cases "me_avg_ttfb a = me_avg_ttfb b")
    case False
    then show ?thesis using True ttfb_le_total [of "me_avg_ttfb a" "me_avg_ttfb b"] by (simp add: entry_le_def)
  next
    case same: True
    have "me_method a \<le> me_method b \<or> me_method b \<le> me_method a" by (rule linear)
    then show ?thesis using True same by (simp add: entry_le_def)
  qed
next
  case False
  then have "me_success_rate b < me_success_rate a \<or> me_success_rate a < me_success_rate b" by (simp add: neq_iff disj_commute)
  then show ?thesis by (auto simp: entry_le_def)
qed

lemma ttfb_le_refl: "ttfb_le a a"
  using ttfb_le_total by blast

lemma entry_le_trans:
  assumes ab: "entry_le a b" and bc: "entry_le b c"
  shows "entry_le a c"
proof (cases "me_success_rate c < me_success_rate a")
  case False
  moreover have "me_success_rate b \<le> me_success_rate a" "me_success_rate c \<le> me_success_rate b" using ab bc by (auto simp: entry_le_def)
  ultimately have rates: "me_success_rate a = me_success_rate b" "me_success_rate b = me_success_rate c" by auto
  then have t: "ttfb_le (me_avg_ttfb a) (me_avg_ttfb b)" "ttfb_le (me_avg_ttfb b) (me_avg_ttfb c)" using ab bc ttfb_le_refl by (auto simp: entry_le_def)
  show ?thesis
  proof (cases "me_avg_ttfb a = me_avg_ttfb c")
    case True
    then have "me_avg_ttfb b = me_avg_ttfb a" using ttfb_le_antisym [of "me_avg_ttfb b" "me_avg_ttfb a"] t by simp
    then have "me_method a \<le> me_method b" "me_method b \<le> me_method c" using ab bc rates True by (simp_all add: entry_le_def)
    then show ?thesis using rates True unfolding entry_le_def by (metis order.trans)
  next
    case False
    then show ?thesis using ttfb_le_trans [OF t] rates by (simp add: entry_le_def)
  qed
qed (simp add: entry_le_def)

interpretation by_rank: ranking entry_le
  by unfold_locales (rule entry_le_total, rule entry_le_trans)

section \<open>Responses\<close>

lemma header_end_long: "find_header_end bs = Some e \<Longrightarrow> 4 \<le> e \<and> e \<le> length bs"
proof (induction bs arbitrary: e)
  case (Cons b bs)
  show ?case
  proof (cases "take 4 (b # bs) = [13, 10, 13, 10]")
    case True
    then have "length (take 4 (b # bs)) = 4" by simp
    then show ?thesis using True Cons.prems by simp
  next
    case False
    then show ?thesis using Cons by (force split: option.splits)
  qed
qed simp

lemma find_header_end_append: "find_header_end xs = Some e \<Longrightarrow> find_header_end (xs @ ys) = Some e \<and> e \<le> length xs"
proof (induction xs arbitrary: e)
  case (Cons b bs)
  show ?case
  proof (cases "take 4 (b # bs) = [13, 10, 13, 10]")
    case True
    then have "length (take 4 (b # bs)) = 4" by simp
    then have "4 \<le> length (b # bs)" by simp
    then show ?thesis using True Cons.prems by simp
  next
    case False
    then obtain e' where e': "find_header_end bs = Some e'" "e = Suc e'" using Cons.prems by auto
    then have "find_header_end (bs @ ys) = Some e'" "e' \<le> length bs" using Cons.IH by auto
    moreover have "take 4 (b # bs @ ys) \<noteq> [13, 10, 13, 10]"
    proof
      assume t: "take 4 (b # bs @ ys) = [13, 10, 13, 10]"
      have "3 \<le> length bs" using header_end_long [OF e'(1)] by simp
      then show False using False t by simp
    qed
    ultimately show ?thesis using e' by auto
  qed
qed simp

lemma http_loop_buf:
  "\<forall>r \<in> set rs. snd r \<noteq> [] \<Longrightarrow> length (hr_buf h) + length (concat (map snd rs)) \<le> cap \<Longrightarrow> hr_buf (http_loop cap rs h) = hr_buf h @ concat (map snd rs)"
proof (induction rs arbitrary: h)
  case (Cons r rs)
  obtain t chunk where r: "r = (t, chunk)" by fastforce
  have b: "hr_buf (http_step t chunk h) = hr_buf h @ chunk" by (simp add: http_step_def Let_def split: option.splits)
  have "http_loop cap (r # rs) h = http_loop cap rs (http_step t chunk h)" using Cons.prems r by (cases chunk) auto
  then show ?case using Cons.IH [of "http_step t chunk h"] Cons.prems r b by simp
qed simp

text \<open>The header end and the status are those of the buffer so far.\<close>

definition http_ok :: "HttpRead \<Rightarrow> bool" where
  "http_ok h = (hr_header_end h = find_header_end (hr_buf h) \<and> hr_status h = (case find_header_end (hr_buf h) of None \<Rightarrow> None | Some e \<Rightarrow> head_status (take e (hr_buf h))))"

lemma http_step_ok: "http_ok h \<Longrightarrow> http_ok (http_step t chunk h)"
proof (cases "hr_header_end h")
  case (Some e)
  assume ok: "http_ok h"
  then have e: "find_header_end (hr_buf h) = Some e" using Some by (simp add: http_ok_def)
  then show ?thesis using ok Some find_header_end_append [OF e, of chunk] by (simp add: http_ok_def http_step_def Let_def)
qed (auto simp: http_ok_def http_step_def Let_def split: option.splits)

lemma http_loop_ok: "http_ok h \<Longrightarrow> http_ok (http_loop cap rs h)"
  by (induction cap rs h rule: http_loop.induct) (simp_all add: http_step_ok)

text \<open>
  The outcome of a probe does not depend on how the response is cut into reads: for any cutting of a response that fits the cap into non-empty reads the status
  is that of the head up to the first empty line, the body is what follows it, and the probe succeeds exactly if the head has a status and the body is not
  empty.
\<close>

theorem probe_reads_response:
  assumes "dn_tcp a = None" "dn_name a = None" "dn_tls a = Inr tls" "dn_written a" "\<forall>r \<in> set (dn_reads a). snd r \<noteq> []"
    "concat (map snd (dn_reads a)) = response" "length response \<le> cap"
  shows "sr_http_status (direct_probe cap a) = (case find_header_end response of None \<Rightarrow> None | Some e \<Rightarrow> head_status (take e response))
    \<and> (sr_ok (direct_probe cap a) \<longleftrightarrow> (\<exists>e. find_header_end response = Some e \<and> head_status (take e response) \<noteq> None \<and> e < length response))"
proof -
  let ?h = "http_loop cap (dn_reads a) \<lparr>hr_buf = [], hr_ttfb = None, hr_status = None, hr_header_end = None\<rparr>"
  have "hr_buf ?h = response" using http_loop_buf [of "dn_reads a" "\<lparr>hr_buf = [], hr_ttfb = None, hr_status = None, hr_header_end = None\<rparr>" cap] assms by simp
  moreover have "http_ok ?h" by (rule http_loop_ok) (simp add: http_ok_def)
  ultimately show ?thesis using assms by (auto simp: direct_probe_def read_http_response_def http_ok_def Let_def split: option.splits)
qed

definition sample_direct :: DirectNet where
  "sample_direct = \<lparr>dn_tcp = None, dn_name = None, dn_tls = Inr 30, dn_written = True,
     dn_reads = [(4, bytes_of ''HTTP/1.1 200'' @ [13, 10, 13]), (5, [10, 65])]\<rparr>"

theorem probe_reads_response_witness: "sr_http_status (direct_probe 100 sample_direct) = Some 200 \<and> sr_ok (direct_probe 100 sample_direct)"
proof -
  let ?head = "bytes_of ''HTTP/1.1 200'' @ [13, 10, 13, 10]"
  have e: "find_header_end (?head @ [65]) = Some 16" "take 16 (?head @ [65]) = ?head" "length (?head @ [65]) = 17" by code_simp+
  have t: "take 5 (text_of ?head) = ''HTTP/''" "utf8_valid ?head"
    "split_once (CHR '' '') (drop 5 (text_of ?head)) = Some (''1.1'', ''200'' @ text_of [13, 10, 13, 10])" "length (text_of [13, 10, 13, 10]) = 4" by code_simp+
  have "parse_u16 ''200'' = Some 200" by (simp add: parse_u16_def parse_u32_def parse_nat_def digit_val_def)
  then have s: "head_status ?head = Some 200" using t by (simp add: head_status_def parse_head_status_def)
  have r: "concat (map snd (dn_reads sample_direct)) = ?head @ [65]" "\<forall>r \<in> set (dn_reads sample_direct). snd r \<noteq> []" by code_simp+
  have a: "dn_tcp sample_direct = None" "dn_name sample_direct = None" "dn_tls sample_direct = Inr 30" "dn_written sample_direct" by (simp_all add: sample_direct_def)
  have "length (?head @ [65]) \<le> 100" unfolding e(3) by simp
  note p = probe_reads_response [OF a r(2, 1) this]
  have "head_status (take 16 (?head @ [65])) \<noteq> None" "16 < length (?head @ [65])" unfolding e(2, 3) s by simp_all
  then have "sr_ok (direct_probe 100 sample_direct)" using p e(1) by blast
  moreover have "sr_http_status (direct_probe 100 sample_direct) = Some 200" using conjunct1 [OF p] unfolding e(1) option.case e(2) s .
  ultimately show ?thesis by blast
qed

section \<open>The ranking of a run\<close>

definition started :: "Config \<Rightarrow> (nat \<Rightarrow> MethodRun) \<Rightarrow> string list \<Rightarrow> nat \<Rightarrow> bool" where
  "started config runs methods i = (engine_error (cfg_with_method config (methods ! i)) (runs i) = None)"

fun done_methods :: "'f MethodScanEvent list \<Rightarrow> (string \<times> nat) list" where
  "done_methods [] = []"
| "done_methods (MethodDone m n _ # evs) = (m, n) # done_methods evs"
| "done_methods (SampleDone _ _ _ # evs) = done_methods evs"

lemma done_methods_append: "done_methods (xs @ ys) = done_methods xs @ done_methods ys"
  by (induction xs rule: done_methods.induct) auto

lemma done_methods_samples: "done_methods (map (\<lambda>i. SampleDone m (f i) (g i)) is) = []"
  by (induction "is") auto

lemma run_one_method_props [simp]:
  "me_method (fst (run_one_method fo cap config i m r)) = m"
  "done_methods (snd (run_one_method fo cap config i m r)) = (if engine_error (cfg_with_method config m) r = None then [(m, i + 1)] else [])"
  by (auto simp: run_one_method_def failed_entry_def entry_from_samples_def Let_def done_methods_append done_methods_samples split: option.splits)

text \<open>
  A method scan reports every method once and in order: the rows are ranked by success rate, then by mean time to the first byte with missing ones last,
  then by name, and there is exactly one row for each listed method. A method is announced as done exactly if its engine could be started, so a method without
  an engine gets a row with no success and no announcement.
\<close>

theorem method_scan_ranks_methods:
  "\<exists>es evs. run_method_tests fo cap config runs methods = (es, evs) \<and> sorted_wrt entry_le es \<and> mset (map me_method es) = mset methods
    \<and> done_methods evs = map (\<lambda>i. (methods ! i, i + 1)) (filter (started config runs methods) [0..<length methods])"
proof -
  let ?one = "\<lambda>i. run_one_method fo cap config i (methods ! i) (runs i)"
  have "map me_method (map fst (map ?one [0..<length methods])) = methods"
    by (rule nth_equalityI) simp_all
  then have "mset (map me_method (rank_entries (map fst (map ?one [0..<length methods])))) = mset methods"
    by (metis mset_map mset_sort_by rank_entries_def)
  moreover have "done_methods (concat (map snd (map ?one is))) = map (\<lambda>i. (methods ! i, i + 1)) (filter (started config runs methods) is)" for "is"
    by (induction "is") (simp_all add: done_methods_append started_def)
  moreover have "sorted_wrt entry_le (rank_entries (map fst (map ?one [0..<length methods])))"
    unfolding rank_entries_def by (rule by_rank.sorted_sort_by)
  ultimately show ?thesis unfolding run_method_tests_def Let_def by (intro exI conjI) (rule refl)
qed

end
