(* ===== verification/Proxy_Tester.thy ===== *)
theory Proxy_Tester
  imports Scanner Method_Scan Data_Plane
begin

text \<open>
  The test of a candidate through a SOCKS5 client (proxy\_tester.rs): the parts of the URL, the SOCKS5 exchange, the HTTP request with its measurements,
  and the entries with their order. The stream from the client is the list of bytes that come; a read is given by its time and its size. The
  scores and the rate are floating-point numbers and are arguments.
\<close>

section \<open>URLs\<close>

text \<open>\<^verbatim>\<open>rfind\<close> of a character.\<close>

definition rposition :: "char \<Rightarrow> string \<Rightarrow> nat option" where
  "rposition c s = map_option (\<lambda>i. length s - Suc i) (position ((=) c) (rev s))"

definition port_or :: "u16 \<Rightarrow> string option \<Rightarrow> u16" where
  "port_or default_port s = (case Option.bind s parse_u16 of Some p \<Rightarrow> p | None \<Rightarrow> default_port)"

definition url_rest :: "string \<Rightarrow> (string \<times> u16) option" where
  "url_rest url = (case strip_prefix ''https://'' url of Some r \<Rightarrow> Some (r, 443)
     | None \<Rightarrow> map_option (\<lambda>r. (r, 80)) (strip_prefix ''http://'' url))"

definition parse_url_host_port :: "string \<Rightarrow> (string \<times> u16) option" where
  "parse_url_host_port url = (case url_rest url of None \<Rightarrow> None
   | Some (rest, default_port) \<Rightarrow>
      (let authority = takeWhile (\<lambda>c. c \<notin> {CHR ''/'', CHR ''?''}) rest in
       case rposition (CHR '']'') authority of
         Some i \<Rightarrow> Some (take (Suc i) authority, port_or default_port (strip_prefix '':'' (drop (Suc i) authority)))
       | None \<Rightarrow> (case rposition (CHR '':'') authority of
           Some i \<Rightarrow> Some (take i authority, port_or default_port (Some (drop (Suc i) authority)))
         | None \<Rightarrow> Some (authority, default_port))))"

definition extract_url_path :: "string \<Rightarrow> string" where
  "extract_url_path url = (let rest = (case url_rest url of Some (r, _) \<Rightarrow> r | None \<Rightarrow> url);
     p = dropWhile (\<lambda>c. c \<noteq> CHR ''/'') rest in if p = [] then ''/'' else p)"

text \<open>The status is the second word of the first line.\<close>

definition proxy_http_status :: "string \<Rightarrow> u16 option" where
  "proxy_http_status text = (case lines_of text of [] \<Rightarrow> None
   | line # _ \<Rightarrow> (case split_once (CHR '' '') line of None \<Rightarrow> None
     | Some (_, rest) \<Rightarrow> parse_u16 (case split_once (CHR '' '') rest of Some (w, _) \<Rightarrow> w | None \<Rightarrow> rest)))"

section \<open>The probe\<close>

record 'f ProxyProbe =
  pp_tcp :: "u64 option"
  pp_ttfb :: "u64 option"
  pp_speed :: "'f option"
  pp_status :: "u16 option"

definition no_probe :: "u64 option \<Rightarrow> 'f ProxyProbe" where
  "no_probe tcp = \<lparr>pp_tcp = tcp, pp_ttfb = None, pp_speed = None, pp_status = None\<rparr>"

text \<open>
  What the SOCKS5 client answers: whether its address parses, the time of the connect, which write succeeds, the bytes it sends, the reads of the
  response, and the rate of a number of bytes (\<open>None\<close> when no time has passed).
\<close>

record 'f Socks5Net =
  sn_addr_ok :: bool
  sn_connect :: "u64 option"
  sn_write_ok :: "nat \<Rightarrow> bool"
  sn_input :: bytes
  sn_reads :: "(u64 \<times> nat) list"
  sn_speed :: "nat \<Rightarrow> 'f option"

definition read_exact :: "nat \<Rightarrow> bytes \<Rightarrow> (bytes \<times> bytes) option" where
  "read_exact n s = (if length s < n then None else Some (take n s, drop n s))"

definition socks5_greeting :: bytes where
  "socks5_greeting = [5, 1, 0]"

text \<open>The stream behind an accepted greeting.\<close>

definition greeting_accepted :: "bytes \<Rightarrow> bytes option" where
  "greeting_accepted s = (case read_exact 2 s of None \<Rightarrow> None
   | Some (r, s') \<Rightarrow> if r ! 0 \<noteq> 5 \<or> r ! 1 \<noteq> 0 then None else Some s')"

definition connect_request :: "bytes \<Rightarrow> u16 \<Rightarrow> bytes" where
  "connect_request host port = [5, 1, 0, 3, word_of_nat (length host)] @ host @ u16_to_be port"

text \<open>The length of the bound address, and the stream behind what had to be read for it.\<close>

definition address_skip :: "u8 \<Rightarrow> bytes \<Rightarrow> (nat \<times> bytes) option" where
  "address_skip atyp s = (if atyp = 1 then Some (6, s) else if atyp = 4 then Some (18, s)
     else if atyp = 3 then map_option (\<lambda>(l, s'). (unat (l ! 0) + 2, s')) (read_exact 1 s) else Some (6, s))"

definition connect_accepted :: "bytes \<Rightarrow> bytes option" where
  "connect_accepted s = (case read_exact 4 s of None \<Rightarrow> None
   | Some (h, s1) \<Rightarrow> if h ! 0 \<noteq> 5 \<or> h ! 1 \<noteq> 0 then None
       else (case address_skip (h ! 3) s1 of None \<Rightarrow> None
         | Some (skip, s2) \<Rightarrow> map_option snd (read_exact skip s2)))"

definition http_get :: "string \<Rightarrow> string \<Rightarrow> string" where
  "http_get url host = ''GET '' @ extract_url_path url @ '' HTTP/1.1'' @ crlf @ ''Host: '' @ host @ crlf @ ''Connection: close'' @ crlf
     @ ''User-Agent: zerodpi-proxy-scan/0.1'' @ crlf @ crlf"

text \<open>The loop that fills the buffer; a read of no bytes is the end of the stream or an error.\<close>

definition probe_chunk :: "u64 \<Rightarrow> bytes \<Rightarrow> nat \<times> u64 option \<times> u16 option \<Rightarrow> nat \<times> u64 option \<times> u16 option" where
  "probe_chunk t chunk r = (case r of (got, ttfb, status) \<Rightarrow> (got + length chunk,
     (if ttfb = None then Some t else ttfb),
     (if ttfb = None \<and> utf8_valid chunk then proxy_http_status (text_of chunk) else status)))"

primrec probe_reads :: "nat \<Rightarrow> (u64 \<times> nat) list \<Rightarrow> bytes \<Rightarrow> nat \<times> u64 option \<times> u16 option \<Rightarrow> nat \<times> u64 option \<times> u16 option" where
  "probe_reads cap [] s r = r"
| "probe_reads cap (x # rs) s r = (let chunk = take (min (snd x) (cap - fst r)) s in
     if chunk = [] then r else probe_reads cap rs (drop (length chunk) s) (probe_chunk (fst x) chunk r))"

definition download_cap :: "Config \<Rightarrow> nat" where
  "download_cap c = max (SCAN_DOWNLOAD_CAP c) 524288"

text \<open>\<^verbatim>\<open>socks5_http_probe\<close>: the writes it attempts, and its result.\<close>

definition socks5_http_probe :: "string \<Rightarrow> u16 \<Rightarrow> string \<Rightarrow> Config \<Rightarrow> 'f Socks5Net \<Rightarrow> bytes list \<times> 'f ProxyProbe" where
  "socks5_http_probe host port url c net =
     (if \<not> sn_addr_ok net then ([], no_probe None)
      else (case sn_connect net of None \<Rightarrow> ([], no_probe None)
      | Some tcp \<Rightarrow>
         (let w0 = [socks5_greeting]; w1 = w0 @ [connect_request (bytes_of host) port]; w2 = w1 @ [bytes_of (http_get url host)] in
          if \<not> sn_write_ok net 0 then (w0, no_probe (Some tcp))
          else (case greeting_accepted (sn_input net) of None \<Rightarrow> (w0, no_probe (Some tcp))
          | Some s1 \<Rightarrow>
          if \<not> sn_write_ok net 1 then (w1, no_probe (Some tcp))
          else (case connect_accepted s1 of None \<Rightarrow> (w1, no_probe (Some tcp))
          | Some s2 \<Rightarrow>
          if \<not> sn_write_ok net 2 then (w2, no_probe (Some tcp))
          else (case probe_reads (download_cap c) (sn_reads net) s2 (0, None, None) of (got, ttfb, status) \<Rightarrow>
            (w2, \<lparr>pp_tcp = Some tcp, pp_ttfb = ttfb, pp_speed = (if 0 < got then sn_speed net got else None), pp_status = status\<rparr>)))))))"

definition run_socks5_probe :: "string \<Rightarrow> Config \<Rightarrow> bool \<Rightarrow> 'f Socks5Net \<Rightarrow> 'f ProxyProbe" where
  "run_socks5_probe url c in_time net = (case parse_url_host_port url of None \<Rightarrow> no_probe None
   | Some (host, port) \<Rightarrow> if in_time then snd (socks5_http_probe host port url c net) else no_probe None)"

section \<open>Entries\<close>

record 'f ProxyTestEntry =
  pt_sni :: string
  pt_ip :: u32
  pt_sni_score :: u8
  pt_ok :: bool
  pt_probe :: "'f ProxyProbe"
  pt_proxy_score :: u8
  pt_final_score :: u8

text \<open>The two scores of the source: of a probe, and the blend of two scores.\<close>

record 'f Scores =
  sc_proxy :: "'f ProxyProbe \<Rightarrow> u8"
  sc_blend :: "u8 \<Rightarrow> u8 \<Rightarrow> u8"

definition failed_proxy_entry :: "'f Scores \<Rightarrow> SniProbeEntry \<Rightarrow> 'f ProxyTestEntry" where
  "failed_proxy_entry sc e = \<lparr>pt_sni = se_sni e, pt_ip = se_ip e, pt_sni_score = se_score e, pt_ok = False,
     pt_probe = no_probe None, pt_proxy_score = 0, pt_final_score = sc_blend sc (se_score e) 0\<rparr>"

definition build_proxy_entry :: "'f Scores \<Rightarrow> SniProbeEntry \<Rightarrow> 'f ProxyProbe \<Rightarrow> 'f ProxyTestEntry" where
  "build_proxy_entry sc e r = \<lparr>pt_sni = se_sni e, pt_ip = se_ip e, pt_sni_score = se_score e, pt_ok = pp_ttfb r \<noteq> None,
     pt_probe = r, pt_proxy_score = sc_proxy sc r, pt_final_score = sc_blend sc (se_score e) (sc_proxy sc r)\<rparr>"

text \<open>
  \<^verbatim>\<open>test_candidate_full\<close>: the entry, and the filter of the interceptor when one was opened; it is told to stop before the entry is built.
  \<open>probe\<close> is the probe with this candidate as the target of the proxy, \<open>opens\<close> whether the interceptor opens.
\<close>

definition candidate_filter :: "Config \<Rightarrow> u32 \<Rightarrow> u32 \<Rightarrow> FilterSpec" where
  "candidate_filter c interface_ip ip = \<lparr>fs_interface_ip = interface_ip, fs_remote_ip = Some ip, fs_remote_port = CONNECT_PORT, fs_queue_num = NFQUEUE_NUM c,
     fs_linux_firewall_backend = linux_firewall_backend c, fs_firewall_owner = None\<rparr>"

definition test_candidate_full :: "'f Scores \<Rightarrow> u64 \<Rightarrow> Config \<Rightarrow> u32 \<Rightarrow> (FilterSpec \<Rightarrow> bool) \<Rightarrow> 'f ProxyProbe \<Rightarrow> SniProbeEntry
    \<Rightarrow> 'f ProxyTestEntry \<times> FilterSpec option" where
  "test_candidate_full sc seed c interface_ip opens probe e =
     (if is_socket_only (BYPASS_METHOD c) then (build_proxy_entry sc e probe, None)
      else (case build_method seed c of None \<Rightarrow> (failed_proxy_entry sc e, None)
      | Some m \<Rightarrow> (let f = candidate_filter c interface_ip (se_ip e) in
          if opens f then (build_proxy_entry sc e probe, Some f) else (failed_proxy_entry sc e, None))))"

definition rank_proxy :: "'f ProxyTestEntry list \<Rightarrow> 'f ProxyTestEntry list" where
  "rank_proxy = sort_key (\<lambda>e. (score_rank (pt_final_score e), latency_rank (pp_ttfb (pt_probe e))))"

definition run_proxy_tests :: "'f Scores \<Rightarrow> (SniProbeEntry \<Rightarrow> 'f ProxyProbe) \<Rightarrow> SniProbeEntry list \<Rightarrow> 'f ProxyTestEntry list" where
  "run_proxy_tests sc probe cs = rank_proxy (map (\<lambda>e. build_proxy_entry sc e (probe e)) cs)"

section \<open>Properties of the URL\<close>

lemma strip_prefix_append [simp]: "strip_prefix p (p @ s) = Some s"
  by (simp add: strip_prefix_def)

lemma rposition_append: "c \<notin> set ys \<Longrightarrow> rposition c (xs @ c # ys) = Some (length xs)"
proof -
  assume "c \<notin> set ys"
  then have "position ((=) c) (rev ys @ c # rev xs) = Some (length ys)" using position_append [of "rev ys" "(=) c" c "rev xs"] by force
  then show ?thesis by (simp add: rposition_def)
qed

lemma rposition_None: "c \<notin> set xs \<Longrightarrow> rposition c xs = None"
  by (auto simp: rposition_def position_None)

lemma takeWhile_authority: "\<forall>c \<in> set xs. P c \<Longrightarrow> \<not> P d \<Longrightarrow> takeWhile P (xs @ d # ys) = xs"
  by (induction xs) auto

lemma dropWhile_authority: "\<forall>c \<in> set xs. P c \<Longrightarrow> \<not> P d \<Longrightarrow> dropWhile P (xs @ d # ys) = d # ys"
  by (induction xs) auto

lemma show_nat_not: "digit_val c = None \<Longrightarrow> c \<notin> set (show_nat n)"
  using show_nat_digits by blast

lemma url_separators [simp]: "digit_val (CHR ''/'') = None" "digit_val (CHR ''?'') = None" "digit_val (CHR '']'') = None"
  "digit_val (CHR '':'') = None" "digit_val (CHR ''+'') = None"
  by (simp_all add: digit_val_def)

lemma url_rest_http: "url_rest (''http://'' @ s) = Some (s, 80)"
  by (simp add: url_rest_def strip_prefix_def)

text \<open>A URL that is put together from a host, a port and a path gives them back.\<close>

lemma url_roundtrip:
  assumes "set host \<inter> {CHR ''/'', CHR ''?'', CHR '']'', CHR '':''} = {}" "port < 65536"
  shows "parse_url_host_port (''http://'' @ host @ '':'' @ show_nat port @ ''/'' @ path) = Some (host, word_of_nat port)"
    and "extract_url_path (''http://'' @ host @ '':'' @ show_nat port @ ''/'' @ path) = ''/'' @ path"
proof -
  let ?auth = "host @ CHR '':'' # show_nat port"
  have n: "c \<notin> set (show_nat port)" if "c \<in> {CHR ''/'', CHR ''?'', CHR '']'', CHR '':''}" for c
    using that show_nat_not by auto
  have h: "c \<notin> set host" if "c \<in> {CHR ''/'', CHR ''?'', CHR '']'', CHR '':''}" for c using assms(1) that by blast
  have w: "\<forall>c \<in> set ?auth. c \<notin> {CHR ''/'', CHR ''?''}" using n h by auto
  have rest: "url_rest (''http://'' @ host @ '':'' @ show_nat port @ ''/'' @ path) = Some (?auth @ CHR ''/'' # path, 80)"
    using url_rest_http [of "?auth @ CHR ''/'' # path"] by simp
  have "takeWhile (\<lambda>c. c \<notin> {CHR ''/'', CHR ''?''}) (?auth @ CHR ''/'' # path) = ?auth"
    using w by (intro takeWhile_authority) auto
  moreover have "rposition (CHR '']'') ?auth = None" using n h by (intro rposition_None) auto
  moreover have "rposition (CHR '':'') ?auth = Some (length host)" using n by (intro rposition_append) auto
  ultimately show "parse_url_host_port (''http://'' @ host @ '':'' @ show_nat port @ ''/'' @ path) = Some (host, word_of_nat port)"
    unfolding parse_url_host_port_def rest using assms(2) by (simp add: port_or_def parse_u16_show)
  have "dropWhile (\<lambda>c. c \<noteq> CHR ''/'') (?auth @ CHR ''/'' # path) = CHR ''/'' # path"
    using w by (intro dropWhile_authority) auto
  then show "extract_url_path (''http://'' @ host @ '':'' @ show_nat port @ ''/'' @ path) = ''/'' @ path"
    unfolding extract_url_path_def rest by simp
qed

text \<open>A query without a path is not part of the path the request asks for.\<close>

lemma query_without_path_lost: "extract_url_path ''http://h?q=1'' = ''/''"
  by (simp add: extract_url_path_def url_rest_def strip_prefix_def)

section \<open>Properties of the exchange\<close>

text \<open>How RFC 1928 reads a request with a domain name.\<close>

fun socks5_server_request :: "bytes \<Rightarrow> (bytes \<times> u16) option" where
  "socks5_server_request (ver # cmd # rsv # atyp # len # rest) =
     (let n = unat len in if ver = 5 \<and> cmd = 1 \<and> atyp = 3 \<and> length rest = n + 2
       then Some (take n rest, u16_from_be (rest ! n) (rest ! (n + 1))) else None)"
| "socks5_server_request _ = None"

text \<open>
  The request names the host and the port exactly when the host has fewer than 256 bytes; a longer name has its length cut to one byte, and no server can
  read the request.
\<close>

theorem connect_request_names_host:
  "socks5_server_request (connect_request host port) = (if length host < 256 then Some (host, port) else None)"
proof (cases "length host < 256")
  case True
  then have n: "unat (word_of_nat (length host) :: u8) = length host" by (simp add: unat_of_nat)
  have "u16_from_be (u16_to_be port ! 0) (u16_to_be port ! 1) = port" by (rule u16_from_to_be)
  then show ?thesis using True by (simp add: connect_request_def Let_def n nth_append)
next
  case False
  have n: "unat (word_of_nat (length host) :: u8) = length host mod 256" by (simp add: unat_of_nat)
  have "length host \<noteq> length host mod 256" using False by (metis mod_less_divisor zero_less_numeral)
  then show ?thesis using False by (simp add: connect_request_def Let_def n)
qed

lemma connect_accepted_reply:
  "length addr = 6 \<Longrightarrow> connect_accepted ([5, 0, x, 1] @ addr @ body) = Some body"
  "length addr = 18 \<Longrightarrow> connect_accepted ([5, 0, x, 4] @ addr @ body) = Some body"
  "length addr = unat n + 2 \<Longrightarrow> connect_accepted ([5, 0, x, 3, n] @ addr @ body) = Some body"
  by (simp_all add: connect_accepted_def read_exact_def address_skip_def)

lemma probe_reads_spec:
  assumes "probe_reads cap rs s (got, ttfb, st) = (got', ttfb', st')" "got \<le> cap" "ttfb \<noteq> None \<longleftrightarrow> 0 < got" "st \<noteq> None \<longrightarrow> ttfb \<noteq> None"
  shows "got' \<le> cap \<and> got \<le> got' \<and> got' \<le> got + length s \<and> (ttfb' \<noteq> None \<longleftrightarrow> 0 < got') \<and> (st' \<noteq> None \<longrightarrow> ttfb' \<noteq> None)"
  using assms
proof (induction rs arbitrary: s got ttfb st)
  case (Cons r rs)
  let ?chunk = "take (min (snd r) (cap - fst (got, ttfb, st))) s"
  show ?case
  proof (cases "?chunk = []")
    case True
    then show ?thesis using Cons.prems by (simp add: Let_def)
  next
    case False
    define k where "k = length ?chunk"
    have k: "0 < k" "got + k \<le> cap" "k \<le> length s" using False Cons.prems(2) by (auto simp: k_def)
    have "probe_reads cap rs (drop k s) (got + k, if ttfb = None then Some (fst r) else ttfb,
        if ttfb = None \<and> utf8_valid ?chunk then proxy_http_status (text_of ?chunk) else st) = (got', ttfb', st')"
      using Cons.prems(1) unfolding k_def probe_reads.simps Let_def if_not_P [OF False] probe_chunk_def prod.case .
    from Cons.IH [OF this k(2)] show ?thesis using k Cons.prems(2-4) by (auto split: if_splits)
  qed
qed simp

text \<open>
  The probe sends its three messages in order and each only after the answer to the one before; a measurement of the response, which makes a candidate
  pass, comes only from bytes that arrived after all three, and at most the cap is read.
\<close>

theorem proxy_probe_order:
  assumes "socks5_http_probe host port url c net = (w, r)"
  shows "\<exists>k. w = take k [socks5_greeting, connect_request (bytes_of host) port, bytes_of (http_get url host)]"
    and "pp_ttfb r \<noteq> None \<or> pp_status r \<noteq> None \<or> pp_speed r \<noteq> None \<Longrightarrow>
      length w = 3 \<and> pp_ttfb r \<noteq> None \<and> pp_tcp r = sn_connect net \<and> (\<exists>s1 s2. greeting_accepted (sn_input net) = Some s1 \<and> connect_accepted s1 = Some s2 \<and> s2 \<noteq> [])"
proof -
  let ?a = socks5_greeting and ?b = "connect_request (bytes_of host) port" and ?c = "bytes_of (http_get url host)"
  have "w = [] \<or> w = [?a] \<or> w = [?a, ?b] \<or> w = [?a, ?b, ?c]"
    using assms by (auto simp: socks5_http_probe_def Let_def split: if_splits option.splits prod.splits)
  then have "w = take (length w) [?a, ?b, ?c]" by (elim disjE) simp_all
  then show "\<exists>k. w = take k [?a, ?b, ?c]" ..
  assume m: "pp_ttfb r \<noteq> None \<or> pp_status r \<noteq> None \<or> pp_speed r \<noteq> None"
  obtain tcp s1 s2 where s: "sn_connect net = Some tcp" "greeting_accepted (sn_input net) = Some s1" "connect_accepted s1 = Some s2"
    and w: "length w = 3" and r: "(case probe_reads (download_cap c) (sn_reads net) s2 (0, None, None) of (got, ttfb, status) \<Rightarrow>
      \<lparr>pp_tcp = Some tcp, pp_ttfb = ttfb, pp_speed = (if 0 < got then sn_speed net got else None), pp_status = status\<rparr>) = r"
    using assms m by (auto simp: socks5_http_probe_def no_probe_def Let_def split: if_splits option.splits prod.splits)
  obtain got ttfb st where p: "probe_reads (download_cap c) (sn_reads net) s2 (0, None, None) = (got, ttfb, st)" by (metis prod_cases3)
  have "got \<le> length s2" "ttfb \<noteq> None \<longleftrightarrow> 0 < got" "st \<noteq> None \<longrightarrow> ttfb \<noteq> None" using probe_reads_spec [OF p] by auto
  then show "length w = 3 \<and> pp_ttfb r \<noteq> None \<and> pp_tcp r = sn_connect net \<and> (\<exists>s1 s2. greeting_accepted (sn_input net) = Some s1 \<and> connect_accepted s1 = Some s2 \<and> s2 \<noteq> [])"
    using m r s w by (auto simp: p split: if_splits)
qed

text \<open>A client that accepts and answers makes the candidate pass, with the time of the first read.\<close>

lemma proxy_probe_succeeds:
  assumes "sn_addr_ok net" "sn_connect net = Some tcp" "\<And>k. sn_write_ok net k" "sn_input net = [5, 0] @ answer" "connect_accepted answer = Some body"
    and "body \<noteq> []" "sn_reads net = (t, Suc n) # rs"
  shows "\<exists>r. snd (socks5_http_probe host port url c net) = r \<and> pp_ttfb r = Some t \<and> pt_ok (build_proxy_entry sc e r)"
proof -
  have keep: "fst (snd (probe_reads cap rs s (got, Some t, st))) = Some t" for cap rs s got st
    by (induction rs arbitrary: s got st) (simp_all add: Let_def probe_chunk_def)
  have "take (min (Suc n) (download_cap c)) body \<noteq> []" using assms(6) by (simp add: download_cap_def)
  then have "fst (snd (probe_reads (download_cap c) (sn_reads net) body (0, None, None))) = Some t"
    using keep by (simp add: assms(7) Let_def probe_chunk_def)
  moreover have "greeting_accepted (sn_input net) = Some answer" by (simp add: assms(4) greeting_accepted_def read_exact_def)
  ultimately show ?thesis using assms(1-3,5) by (cases "probe_reads (download_cap c) (sn_reads net) body (0, None, None)") (simp add: socks5_http_probe_def Let_def build_proxy_entry_def)
qed

section \<open>Properties of the entries\<close>

text \<open>The result has one entry for every candidate, the best score first, and among equals the fastest response.\<close>

theorem proxy_tests_ranked:
  "mset (run_proxy_tests sc probe cs) = mset (map (\<lambda>e. build_proxy_entry sc e (probe e)) cs)"
  "sorted (map (\<lambda>e. (score_rank (pt_final_score e), latency_rank (pp_ttfb (pt_probe e)))) (run_proxy_tests sc probe cs))"
  by (simp_all add: run_proxy_tests_def rank_proxy_def)

text \<open>An interceptor is opened only for a method that needs one, for the address of the candidate; a candidate whose engine cannot start fails.\<close>

lemma test_candidate_filter:
  assumes "test_candidate_full sc seed c interface_ip opens probe e = (r, f)"
  shows "f = Some g \<Longrightarrow> requires_interceptor (BYPASS_METHOD c) \<and> fs_remote_ip g = Some (se_ip e) \<and> opens g \<and> r = build_proxy_entry sc e probe"
    and "\<not> is_socket_only (BYPASS_METHOD c) \<Longrightarrow> f = None \<Longrightarrow> \<not> pt_ok r"
  using assms by (auto simp: test_candidate_full_def failed_proxy_entry_def candidate_filter_def build_method_def requires_interceptor_iff Let_def
      split: if_splits option.splits)

end
