(* ===== verification/Spec2Isabelle.thy ===== *)
theory Spec2Isabelle
  imports Ip_Fragment Tcp_Segment Mixed_Case Tls_Template Composite_Laws Flow_Machine Startup Ping_Monitor Socket_Side Divert_Filter Network_Recovery Dashboard Uplink Proxy_Tester
begin

text \<open>
  ZeroDPI is a local proxy that keeps a censor's traffic classifier from reading the server name of a TLS connection. This development models the
  Rust program in src/crates and proves what its parts promise. Each theory opens with a description of its own; this is the overall picture.

  \<^bold>\<open>The program.\<close> A client connects to the proxy (proxy.rs). For each connection the proxy picks a target from a pool (target\_pool.rs), registers a
  flow (flow.rs), connects, and relays. Meanwhile a packet interceptor (linux.rs with NFQUEUE and firewall rules, windows.rs with WinDivert) hands every
  packet of the flow to the handler (handler.rs), a state machine that watches the handshake and lets the configured bypass methods (methods/) stage a
  decoy or a rewritten first data packet. The interceptor emits the result as fragments (ip\_fragment.rs) or segments (tcp\_segment.rs). The
  handler wakes the proxy when the bypass is acknowledged or has failed. On Android the interceptor lives in a privileged helper process
  (zerodpi-root-helper), which the data plane drives over a framed protocol (zerodpi-helper-protocol, helper\_client.rs). Around this core there are the
  scanners that find targets and methods, rescans and reloads, the recovery from network changes, and the dashboard.

  \<^bold>\<open>Conventions.\<close> Structs are records, enums are datatypes with the constructors of the source; field names keep those of the source, with a short prefix
  where two records would clash. Integers whose width matters are words and wrap; sizes and times are natural numbers. A Rust panic is the value \<open>Panic\<close> of
  the type \<open>res\<close> of \<open>Prelude\<close>, errors are sums or options. Shared entries (\<^verbatim>\<open>Arc\<close>) are addresses in an explicit heap, because the proxy and the handler see
  each other's changes. What the world answers (sockets, clocks, files, other processes) is a record or a list of answers, one per call of the source; a
  function that has used up its answers is still waiting, and says so in its result. No fuel is used: loops over bytes are structural or have a
  termination proof, and loops over answers end with the list. Two loops are a \<open>partial_function\<close>: the
  rejection sampling behind \<open>random_index\<close> and the writer of fragments of random size; that they return is proved where a theorem needs it.

  \<^bold>\<open>Packets and records.\<close>
  \<^item> \<open>Prelude\<close>, \<open>Checksum\<close>, \<open>Splitmix\<close>: words, slices, big-endian fields; the Internet checksum; the generator that the source repeats wherever it
    needs randomness.
  \<^item> \<open>Ip_Fragment\<close>, \<open>Tcp_Segment\<close>: ip\_fragment.rs and tcp\_segment.rs. A reference receiver, which joins fragments of one identification, protocol and pair
    of addresses, rebuilds the fragmented packet, and one that follows sequence numbers gets back the payload of the segments.
  \<^item> \<open>Sni\<close>, \<open>Tls_Records\<close>, \<open>Mixed_Case\<close>, \<open>Tls_Padding\<close>, \<open>Tls_Template\<close>: the locator of the server name with its exact panics, and the transforms of the
    ClientHello; what they keep of the nested lengths, of the other bytes, and of the name.
  \<^item> \<open>Interceptor\<close>, \<open>Packet_Codec\<close>, \<open>Wire_Codec\<close>: the packet view, \<^verbatim>\<open>parse_view\<close> and \<^verbatim>\<open>build_modified\<close> of both backends. The header types of the
    \<^verbatim>\<open>etherparse\<close> crate are an argument, its documented laws the locale \<open>etherparse\<close>; a codec on bytes interprets it, so the laws can hold.

  \<^bold>\<open>The core.\<close>
  \<^item> \<open>Config\<close>, \<open>Config_Addresses\<close>: config.rs, the values, defaults and every check of \<^verbatim>\<open>validate\<close> in order.
  \<^item> \<open>Methods\<close>, \<open>Composite\<close>, \<open>Composite_Laws\<close>: the bypass methods, the chain that runs several of them and \<^verbatim>\<open>build_method\<close>; when the order of the members
    matters and which chains do nothing.
  \<^item> \<open>Flow\<close>, \<open>Handler\<close>, \<open>Flow_Machine\<close>: the flow table, the handler, and a step relation of all their users. The invariant of the store holds in every
    reachable state, so the handler never panics; it refines an abstract lifecycle whose phases only move forward, and an outcome is final and signalled once.
  \<^item> \<open>Linux_Backend\<close>, \<open>Windows_Backend\<close>, \<open>Divert_Filter\<close>, \<open>Firewall\<close>: the capture loops with every fallback, what they put on the wire, that both agree, the
    WinDivert filter, and the installation, removal and recovery of the firewall rules.
  \<^item> \<open>Socket_Side\<close>, \<open>Relay\<close>: the handlers of a connection with and without interception as traces of what they do, the writers, the copy loops and the registry
    of live relays.

  \<^bold>\<open>The privileged helper.\<close>
  \<^item> \<open>Helper_Protocol\<close>: messages, checks and frames; the JSON codec of \<^verbatim>\<open>serde_json\<close> is an argument, and round trips assume that decoding inverts encoding.
  \<^item> \<open>Root_Helper\<close>, \<open>Helper_Client\<close>, \<open>Helper_Bootstrap\<close>: the serving loop, the client with its outstanding requests and remote flows, and the way the two
    come to trust each other over a private directory. The last theorem of the bootstrap runs both ends against each other.

  \<^bold>\<open>Operation.\<close>
  \<^item> \<open>Target_Pool\<close>, \<open>Ping_Monitor\<close>, \<open>Low_Ttl\<close>: selection by four strategies with leases that count connections, live latency, discovery of the TTL of the decoy.
  \<^item> \<open>Uplink\<close>, \<open>Network_Monitor\<close>, \<open>Data_Plane\<close>, \<open>Network_Recovery\<close>: the physical interface, the settling of change events, opening and rebuilding the
    interceptor, and the coordinator that does so after a change, with its reports compared with the interceptor that is really live.
  \<^item> \<open>Rescan\<close>, \<open>Reload\<close>, \<open>Startup\<close>: new scans with the switch of the target, with what they announce, the generations of a session with roll
    back, and the way from the command line to a mode with the privileges it needs.
  \<^item> \<open>Scan_List\<close>, \<open>Scanner\<close>, \<open>Method_Scan\<close>, \<open>Proxy_Tester\<close>: the input of a scan, the probes, the pipelines, the ranking of targets, of methods and of candidates
    tested through a SOCKS5 client.
  \<^item> \<open>Dashboard\<close>: the state of the live dashboard under every interleaving of events.

  \<^bold>\<open>Interfaces.\<close> Contracts that several definitions share are locales, interpreted on the definitions of the program in the theory that provides
  them: the flow controller (\<open>flow_controller\<close>, on the flow table), the two stages of a bypass method (\<open>handshake_stage\<close>, \<open>data_stage\<close>, \<open>bypass_method\<close>, on the
  methods and on the chain), what the handler relies on (\<open>chain_method\<close>), the firewall command (\<open>iptables_tool\<close>, on a list of rules), the header codec
  (\<open>etherparse\<close>, on bytes), and the order behind a ranking (\<open>ranking\<close>).

  \<^bold>\<open>Parameters.\<close> Besides the answers of the operating system these are arguments of the definitions: the codec of \<^verbatim>\<open>serde_json\<close>, \<^verbatim>\<open>etherparse\<close>,
  \<^verbatim>\<open>recalculate_checksums\<close> of WinDivert, the commands \<^verbatim>\<open>iptables\<close> and \<^verbatim>\<open>nft\<close>, the networks of \<^verbatim>\<open>ipnet\<close>, the resolver library, the parsers of IP and
  socket addresses, and the scores and rates that the program computes in floating point.

  \<^bold>\<open>Not modelled.\<close>
  \<^item> main.rs beyond the start, the rescans and the TTL discovery: logging, reports, and the wiring of each mode out of the components above.
  \<^item> The progress and result screens of tui.rs and all drawing; runtime\_events.rs, which prints events as JSON lines.
  \<^item> The decoding of TOML, left to the library, and the floating-point formulas of the scores: no statement here depends on their values.
  \<^item> The system calls that open queues, sockets and drivers, the netlink and Windows sources of change events, and thread creation. The locks of the
    source are not modelled as such: what runs under one lock is one step.
  \<^item> The Kotlin application under src/android, which starts the program and shows its events.

  \<^bold>\<open>What was found.\<close> Some properties state behaviour that the program does not mean to have: the locator's panic on a short handshake body, the
  chain in which \<^verbatim>\<open>urg_sni_split\<close> does nothing, the flow that the acknowledgement of its own first data closes, the stop that is final after an error,
  and the status online while a failed rebuild has taken the interceptor down. They are stated as what the code does.
\<close>

end
